(* ===== verification/Prelude.thy ===== *)
theory Prelude
  imports Main "HOL-Library.Word"
begin

text \<open>
  Shared vocabulary of the development: the machine-integer types of the firmware, the
  collections of facts the component proofs draw on, and generic lemmas on words, lists and
  folds.  Nothing here models code of its own.

  \<^item> \<open>frame_simps\<close>: definitions that expose the wire layout (bytes, 9-bit words, headers);
  \<^item> \<open>inv_defs\<close>: the well-formedness predicates of the components.
\<close>

unbundle bit_operations_syntax

named_theorems frame_simps "definitions that expose a wire layout"
named_theorems inv_defs "well-formedness predicates of the components"

type_synonym u8 = "8 word"
type_synonym u16 = "16 word"
type_synonym u32 = "32 word"
type_synonym u64 = "64 word"

section \<open>Bytes\<close>

lemma unat_u8_less [simp]: "unat (b :: u8) < 256"
  using unsigned_less [of b] by simp

lemma unat_u8_le [simp]: "unat (b :: u8) \<le> 255"
  using unat_u8_less [of b] by linarith

lemma unat_u16_less [simp]: "unat (b :: u16) < 65536"
  using unsigned_less [of b] by simp

lemma unat_u32_less [simp]: "unat (b :: u32) < 4294967296"
  using unsigned_less [of b] by simp

text \<open>A property of bytes that is checked on every value \<open>0 .. 255\<close> holds for all bytes.\<close>

lemma all_u8I:
  assumes "list_all (\<lambda>n. P (word_of_nat n :: u8)) [0..<256]"
  shows "P b"
proof -
  have "unat b < 256" by (rule unat_u8_less)
  then have "P (word_of_nat (unat b))"
    using assms by (auto simp only: list_all_iff set_upt atLeastLessThan_iff)
  then show ?thesis by simp
qed

lemma unat_u8_mod [simp]: "unat (b :: u8) mod 256 = unat b"
  by (rule mod_less) (rule unat_u8_less)

lemma unat_u8_mod16 [simp]: "unat (b :: u8) mod 65536 = unat b"
  by (rule mod_less) (rule order.strict_trans [OF unat_u8_less], simp)

lemma unat_ucast_u8_u16 [simp]: "unat (ucast (b :: u8) :: u16) = unat b"
  by (simp add: unsigned_ucast_eq take_bit_eq_mod)

lemma unat_ucast_u16_u32 [simp]: "unat (ucast (b :: u16) :: u32) = unat b"
  by (simp add: unsigned_ucast_eq take_bit_nat_eq_self order_less_trans [OF unat_u16_less])

lemma unat_inj_on: "inj_on (unat :: 'a :: len word \<Rightarrow> nat) A"
  by (rule inj_onI) (simp add: word_unat_eq_iff)

lemma ucast_u8_u16_inverse [simp]: "(ucast (ucast (b :: u8) :: u16) :: u8) = b"
  by (rule bit_word_eqI) (simp add: bit_simps)

lemma unat_inc_u8: "unat (b :: u8) < 255 \<Longrightarrow> unat (b + 1) = unat b + 1"
  by (simp add: unat_word_ariths)

lemma unat_dec_word: "0 < unat (b :: 'a :: len word) \<Longrightarrow> unat (b - 1) = unat b - 1"
proof -
  assume "0 < unat b"
  then have "1 \<le> b" by (simp only: word_le_nat_alt unsigned_1)
  then show "unat (b - 1) = unat b - 1" using unat_sub [of 1 b] by simp
qed

section \<open>Lists\<close>

lemma take_Suc_list_update:
  "n < length xs \<Longrightarrow> take (Suc n) (xs[n := x]) = take n xs @ [x]"
  by (simp add: take_Suc_conv_app_nth)

lemma foldl_inj_state:
  assumes "\<And>b x y. f x b = f y b \<Longrightarrow> x = y"
  shows "foldl f s bs = foldl f t bs \<Longrightarrow> s = t"
  by (induction bs arbitrary: s t) (auto dest: assms)

text \<open>A scan of a table for the first row that satisfies a test: the loop every fixed-size table
  of the firmware uses.\<close>

fun find_idx :: "('a \<Rightarrow> bool) \<Rightarrow> 'a list \<Rightarrow> nat option" where
  "find_idx P [] = None"
| "find_idx P (x # xs) = (if P x then Some 0 else map_option Suc (find_idx P xs))"

lemma find_idx_Some_iff:
  "find_idx P xs = Some i \<longleftrightarrow> i < length xs \<and> P (xs ! i) \<and> (\<forall>j<i. \<not> P (xs ! j))"
proof (induction xs arbitrary: i)
  case Nil
  then show ?case by simp
next
  case (Cons x xs)
  show ?case
  proof (cases i)
    case 0
    then show ?thesis by auto
  next
    case (Suc k)
    have "(\<forall>j<Suc k. \<not> P ((x # xs) ! j)) \<longleftrightarrow> \<not> P x \<and> (\<forall>j<k. \<not> P (xs ! j))"
      by (auto simp: less_Suc_eq_0_disj)
    then show ?thesis using Cons.IH [of k] Suc by auto
  qed
qed

lemma find_idx_SomeD:
  "find_idx P xs = Some i \<Longrightarrow> i < length xs \<and> P (xs ! i)"
  by (simp add: find_idx_Some_iff)

lemma find_idx_None_set: "find_idx P xs = None \<longleftrightarrow> (\<forall>x\<in>set xs. \<not> P x)"
  by (induction xs) simp_all

lemma find_idx_None_iff: "find_idx P xs = None \<longleftrightarrow> (\<forall>i<length xs. \<not> P (xs ! i))"
  by (simp add: find_idx_None_set all_set_conv_all_nth)

lemma find_idx_unique:
  assumes "i < length xs" "P (xs ! i)" "\<And>j. j < length xs \<Longrightarrow> P (xs ! j) \<Longrightarrow> j = i"
  shows "find_idx P xs = Some i"
proof -
  have "\<not> P (xs ! j)" if "j < i" for j
    using assms(3) [of j] that assms(1) by linarith
  then show ?thesis using assms(1,2) by (simp add: find_idx_Some_iff)
qed

lemma length_filter_update:
  assumes "i < length xs"
  shows "length (filter P (xs[i := x])) + (if P (xs ! i) then 1 else 0)
    = length (filter P xs) + (if P x then 1 else 0)"
  using assms
proof (induction xs arbitrary: i)
  case Nil
  then show ?case by simp
next
  case (Cons y ys)
  then show ?case by (cases i) auto
qed

lemma length_filter_lt: "i < length xs \<Longrightarrow> \<not> P (xs ! i) \<Longrightarrow> length (filter P xs) < length xs"
  by (meson length_filter_less nth_mem)

lemma filter_update_first:
  assumes "find_idx P xs = Some i" "\<not> P x"
  shows "filter P (xs[i := x]) = tl (filter P xs)" "hd (filter P xs) = xs ! i" "filter P xs \<noteq> []"
proof -
  have i: "i < length xs" "P (xs ! i)" "\<forall>j<i. \<not> P (xs ! j)"
    using assms(1) unfolding find_idx_Some_iff by auto
  have xs: "xs = take i xs @ xs ! i # drop (Suc i) xs" using i(1) by (rule id_take_nth_drop)
  have none: "filter P (take i xs) = []"
    using i(1,3) by (auto simp: filter_empty_conv in_set_conv_nth)
  have f: "filter P xs = xs ! i # filter P (drop (Suc i) xs)"
    by (subst xs) (simp add: none i(2))
  have "xs[i := x] = take i xs @ x # drop (Suc i) xs" using i(1) by (rule upd_conv_take_nth_drop)
  then show "filter P (xs[i := x]) = tl (filter P xs)" using assms(2) by (simp add: none f)
  show "hd (filter P xs) = xs ! i" "filter P xs \<noteq> []" by (simp_all add: f)
qed

lemma filter_update_other:
  assumes "\<not> P (xs ! i)" "\<not> P x"
  shows "filter P (xs[i := x]) = filter P xs"
proof (cases "i < length xs")
  case True
  then have "filter P (xs[i := x]) = filter P (take i xs) @ filter P (drop (Suc i) xs)"
    using assms(2) by (simp add: upd_conv_take_nth_drop)
  also have "\<dots> = filter P xs"
    using assms(1) by (subst (3) id_take_nth_drop [OF True]) simp
  finally show ?thesis .
qed (simp add: list_update_beyond)

text \<open>Going \<open>m\<close> times around a list meets every element \<open>m\<close> times as often.\<close>

lemma count_list_cycle:
  "os \<noteq> [] \<Longrightarrow>
    length (filter P (map (\<lambda>k. os ! (k mod length os)) [0..<length os * m])) = m * length (filter P os)"
proof (induction m)
  case 0
  then show ?case by simp
next
  case (Suc m)
  let ?N = "length os"
  have "[0..<?N * Suc m] = [0..<?N * m] @ map (\<lambda>k. k + ?N * m) [0..<?N]"
    using upt_add_eq_append [of 0 "?N * m" ?N] by (simp add: map_add_upt add.commute)
  moreover have "map (\<lambda>k. os ! ((k + ?N * m) mod ?N)) [0..<?N] = os"
    by (rule nth_equalityI) auto
  then have "map ((\<lambda>k. os ! (k mod ?N)) \<circ> (\<lambda>k. k + ?N * m)) [0..<?N] = os"
    by (simp add: comp_def)
  ultimately show ?case using Suc by simp
qed

end
