(* ===== verification/Interfaces.thy ===== *)
theory Interfaces
  imports Prelude
begin

text \<open>
  The contracts between the components, as locales.

  \<^item> \<open>keyed_table\<close>: a fixed-size table addressed by a key, with an insertion that can refuse and
    a deletion.  The bus roster provides it.
  \<^item> \<open>bounded_fifo\<close>: a queue with limited room that is filled one item at a time and drained in
    bulk.  The byte ring of the host link provides it.
\<close>

section \<open>Tables with insertion and deletion\<close>

datatype ('k, 'v) table_op = Tab_add 'k 'v | Tab_del 'k

text \<open>The table as a mathematical map: refused insertions do nothing.\<close>

locale keyed_table =
  fixes invar :: "'t \<Rightarrow> bool"
    and lookup :: "'t \<Rightarrow> 'k \<Rightarrow> 'v option"
    and accepts :: "'t \<Rightarrow> 'k \<Rightarrow> bool"
    and add :: "'t \<Rightarrow> 'k \<Rightarrow> 'v \<Rightarrow> 't"
    and del :: "'t \<Rightarrow> 'k \<Rightarrow> 't"
  assumes invar_add: "invar t \<Longrightarrow> invar (add t k v)"
    and invar_del: "invar t \<Longrightarrow> invar (del t k)"
    and lookup_add: "invar t \<Longrightarrow> accepts t k \<Longrightarrow> lookup (add t k v) = (lookup t)(k \<mapsto> v)"
    and refused_add: "invar t \<Longrightarrow> \<not> accepts t k \<Longrightarrow> add t k v = t"
    and lookup_del: "invar t \<Longrightarrow> lookup (del t k) = (lookup t)(k := None)"
    and accepts_fresh: "invar t \<Longrightarrow> accepts t k \<Longrightarrow> lookup t k = None"
begin

fun exec_op :: "'t \<Rightarrow> ('k, 'v) table_op \<Rightarrow> 't" where
  "exec_op t (Tab_add k v) = add t k v"
| "exec_op t (Tab_del k) = del t k"

lemma exec_op_invar: "invar t \<Longrightarrow> invar (exec_op t c)"
  by (cases c) (auto intro: invar_add invar_del)

lemma exec_ops_invar: "invar t \<Longrightarrow> invar (foldl exec_op t cs)"
  by (induction cs arbitrary: t) (auto intro: exec_op_invar)

lemma add_then_del: "invar t \<Longrightarrow> accepts t k \<Longrightarrow> lookup (del (add t k v) k) = lookup t"
  by (auto simp: lookup_del lookup_add invar_add accepts_fresh)

lemma exec_op_other:
  assumes "invar t"
  shows "lookup (exec_op t c) k =
    (case c of Tab_add k' v \<Rightarrow> if k' = k \<and> accepts t k then Some v else lookup t k
     | Tab_del k' \<Rightarrow> if k' = k then None else lookup t k)"
proof (cases c)
  case (Tab_add k' v)
  then show ?thesis
    using assms by (cases "accepts t k'") (auto simp: lookup_add refused_add)
next
  case (Tab_del k')
  then show ?thesis using assms by (simp add: lookup_del)
qed

text \<open>Commands about other keys never disturb an entry.\<close>

lemma exec_ops_frame:
  assumes "invar t" and "\<And>c. c \<in> set cs \<Longrightarrow> case c of Tab_add k' v \<Rightarrow> k' \<noteq> k | Tab_del k' \<Rightarrow> k' \<noteq> k"
  shows "lookup (foldl exec_op t cs) k = lookup t k"
  using assms
proof (induction cs arbitrary: t)
  case Nil
  then show ?case by simp
next
  case (Cons c cs)
  have "lookup (foldl exec_op (exec_op t c) cs) k = lookup (exec_op t c) k"
    by (rule Cons.IH) (use Cons.prems in \<open>auto intro: exec_op_invar\<close>)
  moreover have "lookup (exec_op t c) k = lookup t k"
    using Cons.prems(2) [of c] exec_op_other [OF Cons.prems(1), of c k]
    by (auto split: table_op.splits)
  ultimately show ?case by simp
qed

end

section \<open>Queues with limited room\<close>

locale bounded_fifo =
  fixes invar :: "'s \<Rightarrow> bool"
    and items :: "'s \<Rightarrow> 'a list"
    and room :: "'s \<Rightarrow> nat"
    and push :: "'a \<Rightarrow> 's \<Rightarrow> 's"
    and drain :: "'n \<Rightarrow> 's \<Rightarrow> 'a list \<times> 's"
    and amount :: "'n \<Rightarrow> nat"
  assumes push_invar: "invar s \<Longrightarrow> 0 < room s \<Longrightarrow> invar (push x s)"
    and items_push: "invar s \<Longrightarrow> 0 < room s \<Longrightarrow> items (push x s) = items s @ [x]"
    and room_push: "invar s \<Longrightarrow> 0 < room s \<Longrightarrow> room (push x s) = room s - 1"
    and drain_invar: "invar s \<Longrightarrow> invar (snd (drain n s))"
    and drain_items: "invar s \<Longrightarrow> fst (drain n s) @ items (snd (drain n s)) = items s"
    and drain_amount: "invar s \<Longrightarrow> length (fst (drain n s)) = min (amount n) (length (items s))"
    and drain_room: "invar s \<Longrightarrow> room (snd (drain n s)) = room s + length (fst (drain n s))"
begin

lemma push_all:
  "invar s \<Longrightarrow> length xs \<le> room s \<Longrightarrow>
    invar (fold push xs s) \<and> items (fold push xs s) = items s @ xs \<and> room (fold push xs s) = room s - length xs"
proof (induction xs arbitrary: s)
  case (Cons x xs)
  then have "0 < room s" by auto
  then show ?case
    using Cons.IH [of "push x s"] Cons.prems push_invar [of s x] items_push [of s x] room_push [of s x] by auto
qed simp

lemma drain_prefix: "invar s \<Longrightarrow> fst (drain n s) = take (amount n) (items s)"
  using drain_items [of s n] drain_amount [of s n] append_eq_conv_conj [of "fst (drain n s)" "items (snd (drain n s))" "items s"]
  by (simp add: min_def split: if_splits)

text \<open>Whatever is taken out comes in the order it was put in, also when more is put in between.\<close>

lemma fifo_order:
  assumes "invar s" "length xs \<le> room (snd (drain n s))"
  shows "fst (drain n s) @ items (fold push xs (snd (drain n s))) = items s @ xs"
  using push_all [OF drain_invar [OF assms(1)] assms(2)] drain_items [OF assms(1), of n] by simp

end

end
