(* ===== verification/Bus_Crc8.thy ===== *)
theory Bus_Crc8
  imports Prelude
begin

text \<open>
  CRC-8/AUTOSAR as the bus, the config store and the host link use it
  (\<^verbatim>\<open>src/core/bus_crc8.c\<close>; \<^verbatim>\<open>crc8_autosar_update\<close> of
  \<^verbatim>\<open>src/port/rp2040/vendor/libcomm/frame.c\<close> is the same loop).  The one shift-and-xor step of
  the loop is a permutation of the bytes, so an update is injective in the running value and in
  the data byte; any substitution of a single byte therefore changes the CRC.
\<close>

unbundle bit_operations_syntax

text \<open>One iteration of the inner loop of \<^verbatim>\<open>bus_crc8_update\<close>.\<close>

definition crc8_shift :: "u8 \<Rightarrow> u8" where
  "crc8_shift crc = (if crc AND 0x80 \<noteq> 0 then push_bit 1 crc XOR 0x2F else push_bit 1 crc)"

primrec crc8_rounds :: "nat \<Rightarrow> u8 \<Rightarrow> u8" where
  "crc8_rounds 0 crc = crc"
| "crc8_rounds (Suc n) crc = crc8_rounds n (crc8_shift crc)"

definition bus_crc8_update :: "u8 \<Rightarrow> u8 \<Rightarrow> u8" where
  "bus_crc8_update crc byte = crc8_rounds 8 (crc XOR byte)"

definition bus_crc8 :: "u8 list \<Rightarrow> u8" where
  "bus_crc8 data = foldl bus_crc8_update 0xFF data XOR 0xFF"

section \<open>Injectivity of the update\<close>

definition crc8_unshift :: "u8 \<Rightarrow> u8" where
  "crc8_unshift d = (if d AND 1 \<noteq> 0 then drop_bit 1 (d XOR 0x2F) OR 0x80 else drop_bit 1 d)"

lemma crc8_unshift_shift: "crc8_unshift (crc8_shift c) = c"
proof (rule all_u8I [of "\<lambda>c. crc8_unshift (crc8_shift c) = c"])
  show "list_all (\<lambda>n. crc8_unshift (crc8_shift (word_of_nat n)) = word_of_nat n) [0..<256]"
    by code_simp
qed

lemma crc8_shift_inj: "crc8_shift a = crc8_shift b \<Longrightarrow> a = b"
  by (metis crc8_unshift_shift)

lemma crc8_rounds_inj: "crc8_rounds n a = crc8_rounds n b \<Longrightarrow> a = b"
  by (induction n arbitrary: a b) (auto dest: crc8_shift_inj)

lemma xor_right_inj:
  assumes "(a :: u8) XOR c = b XOR c"
  shows "a = b"
proof -
  have "(a XOR c) XOR c = (b XOR c) XOR c" by (simp only: assms)
  then show ?thesis by (simp only: xor.assoc xor_self_eq xor.right_neutral)
qed

lemma bus_crc8_update_inj_crc: "bus_crc8_update c b = bus_crc8_update d b \<Longrightarrow> c = d"
  by (auto simp: bus_crc8_update_def dest!: crc8_rounds_inj xor_right_inj)

lemma bus_crc8_update_inj_byte: "bus_crc8_update c a = bus_crc8_update c b \<Longrightarrow> a = b"
  by (auto simp: bus_crc8_update_def xor.commute [of c] dest!: crc8_rounds_inj xor_right_inj)

lemma crc8_fold_inj:
  "foldl bus_crc8_update s bs = foldl bus_crc8_update t bs \<Longrightarrow> s = t"
  by (rule foldl_inj_state) (auto dest: bus_crc8_update_inj_crc)

lemma crc8_fold_single_byte:
  assumes "foldl bus_crc8_update s (xs @ a # ys) = foldl bus_crc8_update s (xs @ b # ys)"
  shows "a = b"
  using assms by (auto dest!: crc8_fold_inj bus_crc8_update_inj_byte)

text \<open>Appending the CRC value itself is the check the receivers make.\<close>

lemma bus_crc8_append_eq:
  "bus_crc8 (xs @ ys) = foldl bus_crc8_update (foldl bus_crc8_update 0xFF xs) ys XOR 0xFF"
  by (simp add: bus_crc8_def)

end
