(* ===== verification/Bus_Frame.thy ===== *)
theory Bus_Frame
  imports Bus_Crc8
begin

text \<open>
  The BC-2 frame codec of the RS-485 bus (\<^verbatim>\<open>src/core/bus_addr.h\<close>, \<^verbatim>\<open>src/core/bus_frame.c\<close>):
  a frame becomes a list of 9-bit words (preamble, marked address, header, payload, CRC) and the
  reentrant assembler turns received words back into frames.

  A 9-bit word is a \<open>u16\<close>, as in the code.  \<open>bus_frame_t.payload\<close> is a list whose length is
  the array's (240); \<open>bus_asm_feed\<close> returns \<open>Some f\<close> where the code returns true and fills
  \<open>*out\<close>.
\<close>

unbundle bit_operations_syntax

section \<open>Addresses, words and frame types\<close>

definition BUS_ADDR_MASK :: u16 where "BUS_ADDR_MASK = 0x7F"
definition BUS_ADDR_MASTER :: u8 where "BUS_ADDR_MASTER = 0x00"
definition BUS_ADDR_BROADCAST :: u8 where "BUS_ADDR_BROADCAST = 0x7F"
definition BUS_ADDR_SLAVE_MIN :: u8 where "BUS_ADDR_SLAVE_MIN = 0x01"
definition BUS_ADDR_SLAVE_MAX :: u8 where "BUS_ADDR_SLAVE_MAX = 0x7E"
definition BUS_ADDR_PROMISCUOUS :: u8 where "BUS_ADDR_PROMISCUOUS = 0xFF"

definition BUS_WORD_ADDR_BIT :: u16 where "BUS_WORD_ADDR_BIT = 0x100"
definition BUS_WORD_ADDR :: "u8 \<Rightarrow> u16" where
  "BUS_WORD_ADDR a = BUS_WORD_ADDR_BIT OR (ucast a AND BUS_ADDR_MASK)"
definition BUS_WORD_DATA :: "u8 \<Rightarrow> u16" where "BUS_WORD_DATA b = ucast b AND 0xFF"
definition BUS_WORD_IS_ADDR :: "u16 \<Rightarrow> bool" where
  "BUS_WORD_IS_ADDR w \<longleftrightarrow> w AND BUS_WORD_ADDR_BIT \<noteq> 0"
definition BUS_PREAMBLE_WORD :: u16 where "BUS_PREAMBLE_WORD = 0x0FF"

definition BUS_FT_MASK :: u8 where "BUS_FT_MASK = 0x0F"
definition BUS_FT_NO_MESSAGE :: u8 where "BUS_FT_NO_MESSAGE = 0x00"
definition BUS_FT_POLL :: u8 where "BUS_FT_POLL = 0x01"
definition BUS_FT_DATA :: u8 where "BUS_FT_DATA = 0x02"
definition BUS_FT_ACK :: u8 where "BUS_FT_ACK = 0x03"

definition BUS_PAYLOAD_MAX :: nat where "BUS_PAYLOAD_MAX = 240"

lemmas bus_addr_defs = BUS_ADDR_MASK_def BUS_ADDR_MASTER_def BUS_ADDR_BROADCAST_def
  BUS_ADDR_SLAVE_MIN_def BUS_ADDR_SLAVE_MAX_def BUS_ADDR_PROMISCUOUS_def
lemmas bus_word_defs = BUS_WORD_ADDR_BIT_def BUS_WORD_ADDR_def BUS_WORD_DATA_def
  BUS_WORD_IS_ADDR_def BUS_PREAMBLE_WORD_def BUS_ADDR_MASK_def
lemmas bus_ft_defs = BUS_FT_MASK_def BUS_FT_NO_MESSAGE_def BUS_FT_POLL_def BUS_FT_DATA_def
  BUS_FT_ACK_def

section \<open>Frames and the encoder\<close>

record bus_frame =
  f_dest :: u8
  f_src :: u8
  f_type :: u8
  f_seq :: u8
  f_len :: u8
  f_payload :: "u8 list"

definition bus_frame_crc :: "bus_frame \<Rightarrow> u8" where
  "bus_frame_crc f =
     (let c = 0xFF;
          c = bus_crc8_update c (f_dest f);
          c = bus_crc8_update c (f_src f);
          c = bus_crc8_update c (f_type f);
          c = bus_crc8_update c (f_seq f);
          c = bus_crc8_update c (f_len f);
          c = foldl bus_crc8_update c (take (unat (f_len f)) (f_payload f))
      in c XOR 0xFF)"

definition bus_frame_encode :: "bus_frame \<Rightarrow> u16 list" where
  "bus_frame_encode f =
     (let len = (if unat (f_len f) > BUS_PAYLOAD_MAX then word_of_nat BUS_PAYLOAD_MAX else f_len f);
          tmp = f\<lparr>f_len := len\<rparr>;
          crc = bus_frame_crc tmp
      in [BUS_PREAMBLE_WORD, BUS_WORD_ADDR (f_dest f), BUS_WORD_DATA (f_src f),
          BUS_WORD_DATA (f_type f), BUS_WORD_DATA (f_seq f), BUS_WORD_DATA len]
         @ map BUS_WORD_DATA (take (unat len) (f_payload f)) @ [BUS_WORD_DATA crc])"

section \<open>The receive assembler\<close>

datatype bus_asm_state =
    BUS_ASM_IDLE | BUS_ASM_SRC | BUS_ASM_TYPE | BUS_ASM_SEQ | BUS_ASM_LEN
  | BUS_ASM_PAYLOAD | BUS_ASM_CRC

record bus_asm =
  a_state :: bus_asm_state
  a_acc :: bus_frame
  a_idx :: u8
  a_my_addr :: u8
  a_promiscuous :: bool
  a_crc_fail :: u32
  a_frames_ok :: u32

definition bus_asm_init :: "bus_asm \<Rightarrow> u8 \<Rightarrow> bool \<Rightarrow> bus_asm" where
  "bus_asm_init a my_addr promiscuous =
     a\<lparr>a_state := BUS_ASM_IDLE, a_idx := 0, a_my_addr := my_addr,
       a_promiscuous := promiscuous \<or> my_addr = BUS_ADDR_PROMISCUOUS,
       a_crc_fail := 0, a_frames_ok := 0\<rparr>"

definition addr_is_for_us :: "bus_asm \<Rightarrow> u8 \<Rightarrow> bool" where
  "addr_is_for_us a dest \<longleftrightarrow>
     a_promiscuous a \<or> dest = a_my_addr a \<or> dest = BUS_ADDR_BROADCAST"

definition bus_asm_feed :: "bus_asm \<Rightarrow> u16 \<Rightarrow> bus_frame option \<times> bus_asm" where
  "bus_asm_feed a word9 =
     (let b = (ucast (word9 AND 0xFF) :: u8) in
      if BUS_WORD_IS_ADDR word9 then
        (if addr_is_for_us a b
         then (None, a\<lparr>a_acc := (a_acc a)\<lparr>f_dest := b\<rparr>, a_state := BUS_ASM_SRC\<rparr>)
         else (None, a\<lparr>a_state := BUS_ASM_IDLE\<rparr>))
      else (case a_state a of
        BUS_ASM_SRC \<Rightarrow> (None, a\<lparr>a_acc := (a_acc a)\<lparr>f_src := b\<rparr>, a_state := BUS_ASM_TYPE\<rparr>)
      | BUS_ASM_TYPE \<Rightarrow> (None, a\<lparr>a_acc := (a_acc a)\<lparr>f_type := b\<rparr>, a_state := BUS_ASM_SEQ\<rparr>)
      | BUS_ASM_SEQ \<Rightarrow> (None, a\<lparr>a_acc := (a_acc a)\<lparr>f_seq := b\<rparr>, a_state := BUS_ASM_LEN\<rparr>)
      | BUS_ASM_LEN \<Rightarrow>
          (if unat b > BUS_PAYLOAD_MAX then (None, a\<lparr>a_state := BUS_ASM_IDLE\<rparr>)
           else (None, a\<lparr>a_acc := (a_acc a)\<lparr>f_len := b\<rparr>, a_idx := 0,
                         a_state := (if b = 0 then BUS_ASM_CRC else BUS_ASM_PAYLOAD)\<rparr>))
      | BUS_ASM_PAYLOAD \<Rightarrow>
          (let acc = (a_acc a)\<lparr>f_payload := (f_payload (a_acc a))[unat (a_idx a) := b]\<rparr>;
               idx = a_idx a + 1
           in (None, a\<lparr>a_acc := acc, a_idx := idx,
                       a_state := (if idx \<ge> f_len acc then BUS_ASM_CRC else a_state a)\<rparr>))
      | BUS_ASM_CRC \<Rightarrow>
          (let calc = bus_frame_crc (a_acc a) in
           if calc = b
           then (Some (a_acc a), a\<lparr>a_state := BUS_ASM_IDLE, a_frames_ok := a_frames_ok a + 1\<rparr>)
           else (None, a\<lparr>a_state := BUS_ASM_IDLE, a_crc_fail := a_crc_fail a + 1\<rparr>))
      | BUS_ASM_IDLE \<Rightarrow> (None, a)))"

text \<open>A receiver draining its ring feeds the words one by one and collects the frames.\<close>

fun bus_asm_run :: "bus_asm \<Rightarrow> u16 list \<Rightarrow> bus_frame list \<times> bus_asm" where
  "bus_asm_run a [] = ([], a)"
| "bus_asm_run a (w # ws) =
     (case bus_asm_feed a w of
        (None, a') \<Rightarrow> bus_asm_run a' ws
      | (Some f, a') \<Rightarrow> (case bus_asm_run a' ws of (fs, a'') \<Rightarrow> (f # fs, a'')))"

section \<open>Words on the wire\<close>

lemma mask_consts: "(0xFF :: u16) = mask 8" "(0x7F :: u16) = mask 7" "(0x7F :: u8) = mask 7" "(0x100 :: u16) = push_bit 8 1"
  by (simp_all add: mask_eq_exp_minus_1)

lemma word_data_is_addr [simp]: "\<not> BUS_WORD_IS_ADDR (BUS_WORD_DATA b)"
  by (simp add: bus_word_defs and.assoc)

lemma word_data_low [simp]: "ucast (BUS_WORD_DATA b AND 0xFF) = b"
  unfolding bus_word_defs mask_consts by (rule bit_word_eqI) (simp add: bit_simps)

lemma word_addr_low [simp]: "ucast (BUS_WORD_ADDR b AND 0xFF) = b AND 0x7F"
  unfolding bus_word_defs mask_consts
  by (rule bit_word_eqI) (auto simp add: bit_simps simp del: push_bit_of_1)

lemma word_addr_is_addr [simp]: "BUS_WORD_IS_ADDR (BUS_WORD_ADDR b)"
proof -
  have "bit (BUS_WORD_ADDR b AND BUS_WORD_ADDR_BIT) 8"
    unfolding bus_word_defs mask_consts by (simp add: bit_simps)
  then show ?thesis unfolding BUS_WORD_IS_ADDR_def by (metis bit_0_eq bot_apply bot_bool_def)
qed

lemma and_7F_eq_iff: "(b :: u8) AND 0x7F = b \<longleftrightarrow> b < 0x80"
proof -
  have "unat (b AND 0x7F) = unat b mod 128"
    unfolding mask_consts by (simp only: flip: take_bit_eq_mask) (simp add: take_bit_eq_mod unat_mod)
  then show ?thesis by (auto simp: word_unat_eq_iff word_less_nat_alt mod_less_eq_dividend)
qed

lemma preamble_is_data [simp]: "\<not> BUS_WORD_IS_ADDR BUS_PREAMBLE_WORD"
  by code_simp

section \<open>The assembler's invariant\<close>

definition frame_wf :: "bus_frame \<Rightarrow> bool" where
  "frame_wf f \<longleftrightarrow> length (f_payload f) = BUS_PAYLOAD_MAX \<and> unat (f_len f) \<le> BUS_PAYLOAD_MAX"

definition asm_inv :: "bus_asm \<Rightarrow> bool" where
  "asm_inv a \<longleftrightarrow> length (f_payload (a_acc a)) = BUS_PAYLOAD_MAX \<and>
     (a_state a = BUS_ASM_PAYLOAD \<longrightarrow>
        a_idx a < f_len (a_acc a) \<and> unat (f_len (a_acc a)) \<le> BUS_PAYLOAD_MAX) \<and>
     (a_state a = BUS_ASM_CRC \<longrightarrow> unat (f_len (a_acc a)) \<le> BUS_PAYLOAD_MAX)"

declare frame_wf_def [inv_defs] asm_inv_def [inv_defs]

lemma asm_inv_init: "length (f_payload (a_acc a)) = BUS_PAYLOAD_MAX \<Longrightarrow> asm_inv (bus_asm_init a m p)"
  by (simp add: asm_inv_def bus_asm_init_def)

lemma asm_inv_feed:
  assumes "asm_inv a" "bus_asm_feed a w = (r, a')"
  shows "asm_inv a'"
  using assms
  by (cases "a_state a")
     (auto simp: bus_asm_feed_def asm_inv_def Let_def word_neq_0_conv split: if_splits)

lemma feed_returns_wf:
  assumes "asm_inv a" "bus_asm_feed a w = (Some f, a')"
  shows "frame_wf f \<and> f = a_acc a \<and> bus_frame_crc f = ucast (w AND 0xFF) \<and> a_state a = BUS_ASM_CRC
    \<and> \<not> BUS_WORD_IS_ADDR w"
  using assms
  by (cases "a_state a") (auto simp: bus_asm_feed_def asm_inv_def frame_wf_def Let_def split: if_splits)

lemma feed_keeps_config:
  assumes "bus_asm_feed a w = (r, a')"
  shows "a_my_addr a' = a_my_addr a \<and> a_promiscuous a' = a_promiscuous a"
  using assms by (cases "a_state a") (auto simp: bus_asm_feed_def Let_def split: if_splits)

section \<open>Running the assembler over a whole frame\<close>

lemma bus_asm_run_append:
  "bus_asm_run a (xs @ ys) =
     (case bus_asm_run a xs of (fs, a') \<Rightarrow>
        (case bus_asm_run a' ys of (gs, a'') \<Rightarrow> (fs @ gs, a'')))"
  by (induction xs arbitrary: a) (auto split: prod.splits option.splits)

lemma asm_inv_run: "asm_inv a \<Longrightarrow> bus_asm_run a ws = (fs, a') \<Longrightarrow> asm_inv a'"
  by (induction ws arbitrary: a fs)
     (auto split: prod.splits option.splits dest: asm_inv_feed)

definition frame_bytes :: "bus_frame \<Rightarrow> u8 list" where
  "frame_bytes f = [f_dest f, f_src f, f_type f, f_seq f, f_len f]
     @ take (unat (f_len f)) (f_payload f)"

lemma bus_frame_crc_bytes: "bus_frame_crc f = bus_crc8 (frame_bytes f)"
  by (simp add: bus_frame_crc_def bus_crc8_def frame_bytes_def Let_def)

lemma run_payload:
  assumes "a_state a = BUS_ASM_PAYLOAD" "length (f_payload (a_acc a)) = BUS_PAYLOAD_MAX"
    "unat (f_len (a_acc a)) \<le> BUS_PAYLOAD_MAX" "bs \<noteq> []"
    "unat (a_idx a) + length bs = unat (f_len (a_acc a))"
  shows "\<exists>p. bus_asm_run a (map BUS_WORD_DATA bs) =
       ([], a\<lparr>a_acc := (a_acc a)\<lparr>f_payload := p\<rparr>, a_idx := f_len (a_acc a),
             a_state := BUS_ASM_CRC\<rparr>)
     \<and> length p = BUS_PAYLOAD_MAX
     \<and> take (unat (f_len (a_acc a))) p = take (unat (a_idx a)) (f_payload (a_acc a)) @ bs"
  using assms
proof (induction bs arbitrary: a)
  case Nil
  then show ?case by simp
next
  case (Cons b bs)
  let ?p1 = "(f_payload (a_acc a))[unat (a_idx a) := b]"
  have lt: "unat (a_idx a) < unat (f_len (a_acc a))" using Cons.prems by simp
  have le: "unat (f_len (a_acc a)) \<le> 240" using Cons.prems by (simp add: BUS_PAYLOAD_MAX_def)
  have inc: "unat (a_idx a + 1) = unat (a_idx a) + 1"
    by (rule unat_inc_u8) (use lt le in simp)
  have p1: "length ?p1 = BUS_PAYLOAD_MAX" "take (unat (a_idx a) + 1) ?p1
      = take (unat (a_idx a)) (f_payload (a_acc a)) @ [b]"
    using Cons.prems lt le by (simp_all add: take_Suc_list_update BUS_PAYLOAD_MAX_def)
  show ?case
  proof (cases "bs = []")
    case True
    then have "a_idx a + 1 = f_len (a_acc a)"
      using Cons.prems inc by (simp add: word_unat_eq_iff)
    then show ?thesis using True Cons.prems p1 inc
      by (intro exI [of _ ?p1]) (simp add: bus_asm_feed_def Let_def)
  next
    case False
    let ?a1 = "a\<lparr>a_acc := (a_acc a)\<lparr>f_payload := ?p1\<rparr>, a_idx := a_idx a + 1\<rparr>"
    have nle: "\<not> f_len (a_acc a) \<le> a_idx a + 1"
      using Cons.prems False inc by (cases bs) (simp_all add: word_le_nat_alt)
    have step: "bus_asm_feed a (BUS_WORD_DATA b) = (None, ?a1)"
      using Cons.prems nle by (simp add: bus_asm_feed_def Let_def)
    have "\<exists>p. bus_asm_run ?a1 (map BUS_WORD_DATA bs) =
         ([], ?a1\<lparr>a_acc := (a_acc ?a1)\<lparr>f_payload := p\<rparr>, a_idx := f_len (a_acc ?a1),
               a_state := BUS_ASM_CRC\<rparr>)
       \<and> length p = BUS_PAYLOAD_MAX
       \<and> take (unat (f_len (a_acc ?a1))) p = take (unat (a_idx ?a1)) (f_payload (a_acc ?a1)) @ bs"
      by (rule Cons.IH) (use Cons.prems False inc p1 in simp_all)
    then show ?thesis using step p1 inc by auto
  qed
qed

lemma run_crc:
  assumes "a_state a = BUS_ASM_CRC"
  shows "bus_asm_run a [BUS_WORD_DATA c] =
    (if c = bus_frame_crc (a_acc a)
     then ([a_acc a], a\<lparr>a_state := BUS_ASM_IDLE, a_frames_ok := a_frames_ok a + 1\<rparr>)
     else ([], a\<lparr>a_state := BUS_ASM_IDLE, a_crc_fail := a_crc_fail a + 1\<rparr>))"
  using assms by (auto simp: bus_asm_feed_def Let_def)

definition wire_words :: "u8 \<Rightarrow> u8 list \<Rightarrow> u8 \<Rightarrow> u16 list" where
  "wire_words d body c = BUS_WORD_ADDR d # map BUS_WORD_DATA body @ [BUS_WORD_DATA c]"

lemma bus_frame_encode_wire:
  assumes "frame_wf f"
  shows "bus_frame_encode f =
    BUS_PREAMBLE_WORD # wire_words (f_dest f) (tl (frame_bytes f)) (bus_crc8 (frame_bytes f))"
proof -
  have "f\<lparr>f_len := f_len f\<rparr> = f" by simp
  then show ?thesis
    using assms
    by (simp add: bus_frame_encode_def wire_words_def frame_bytes_def frame_wf_def Let_def
        bus_frame_crc_bytes)
qed

text \<open>
  What the assembler does with one complete frame on the wire, whatever state it was in: it
  yields exactly one frame if the CRC byte is right and none otherwise.
\<close>

lemma run_wire:
  assumes inv: "asm_inv a" and us: "addr_is_for_us a (d AND 0x7F)"
    and len: "unat ln = length pl" "length pl \<le> BUS_PAYLOAD_MAX"
  shows "\<exists>g a'. bus_asm_run a (wire_words d (s # t # q # ln # pl) c) =
      (if c = bus_crc8 ((d AND 0x7F) # s # t # q # ln # pl) then [g] else [], a')
    \<and> frame_bytes g = (d AND 0x7F) # s # t # q # ln # pl \<and> frame_wf g
    \<and> a_state a' = BUS_ASM_IDLE
    \<and> a_crc_fail a' = (if c = bus_crc8 ((d AND 0x7F) # s # t # q # ln # pl)
                        then a_crc_fail a else a_crc_fail a + 1)"
proof -
  let ?acc = "(a_acc a)\<lparr>f_dest := d AND 0x7F, f_src := s, f_type := t, f_seq := q, f_len := ln\<rparr>"
  let ?st = "if ln = 0 then BUS_ASM_CRC else BUS_ASM_PAYLOAD"
  let ?a1 = "a\<lparr>a_acc := ?acc, a_idx := 0, a_state := ?st\<rparr>"
  have lenp: "length (f_payload (a_acc a)) = BUS_PAYLOAD_MAX" using inv by (simp add: asm_inv_def)
  have hdr: "bus_asm_run a (map id [BUS_WORD_ADDR d, BUS_WORD_DATA s, BUS_WORD_DATA t,
      BUS_WORD_DATA q, BUS_WORD_DATA ln]) = ([], ?a1)"
    using us len by (simp add: bus_asm_feed_def Let_def)
  have "\<exists>p i. bus_asm_run ?a1 (map BUS_WORD_DATA pl) =
      ([], ?a1\<lparr>a_acc := ?acc\<lparr>f_payload := p\<rparr>, a_idx := i, a_state := BUS_ASM_CRC\<rparr>)
      \<and> length p = BUS_PAYLOAD_MAX \<and> take (unat ln) p = pl"
  proof (cases "pl = []")
    case True
    then have "ln = 0" using len by (simp add: unat_eq_zero)
    then show ?thesis using True lenp by (intro exI [of _ "f_payload (a_acc a)"] exI [of _ 0]) simp
  next
    case False
    then have "ln \<noteq> 0" using len by auto
    then show ?thesis using run_payload [of ?a1 pl] False len lenp by auto
  qed
  then obtain p i where pl: "bus_asm_run ?a1 (map BUS_WORD_DATA pl) =
      ([], ?a1\<lparr>a_acc := ?acc\<lparr>f_payload := p\<rparr>, a_idx := i, a_state := BUS_ASM_CRC\<rparr>)"
    and p: "length p = BUS_PAYLOAD_MAX" "take (unat ln) p = pl" by blast
  let ?g = "?acc\<lparr>f_payload := p\<rparr>"
  have g: "frame_bytes ?g = (d AND 0x7F) # s # t # q # ln # pl" "frame_wf ?g"
    using p len by (simp_all add: frame_bytes_def frame_wf_def)
  have split: "wire_words d (s # t # q # ln # pl) c =
      map id [BUS_WORD_ADDR d, BUS_WORD_DATA s, BUS_WORD_DATA t, BUS_WORD_DATA q, BUS_WORD_DATA ln]
      @ map BUS_WORD_DATA pl @ [BUS_WORD_DATA c]"
    by (simp add: wire_words_def)
  have crc: "bus_frame_crc ?g = bus_crc8 ((d AND 0x7F) # s # t # q # ln # pl)"
    by (simp only: bus_frame_crc_bytes g)
  let ?a2 = "?a1\<lparr>a_acc := ?g, a_idx := i, a_state := BUS_ASM_CRC\<rparr>"
  have "bus_asm_run a (wire_words d (s # t # q # ln # pl) c) = bus_asm_run ?a2 [BUS_WORD_DATA c]"
    by (simp only: split bus_asm_run_append hdr pl prod.case append_Nil) (simp split: prod.splits)
  also have "\<dots> = (if c = bus_frame_crc (a_acc ?a2)
     then ([a_acc ?a2], ?a2\<lparr>a_state := BUS_ASM_IDLE, a_frames_ok := a_frames_ok ?a2 + 1\<rparr>)
     else ([], ?a2\<lparr>a_state := BUS_ASM_IDLE, a_crc_fail := a_crc_fail ?a2 + 1\<rparr>))"
    by (rule run_crc) simp
  finally show ?thesis
    using g crc by (intro exI [of _ ?g]) (simp split: if_splits)
qed

lemma nth_differs_split:
  assumes "i < length xs" "x \<noteq> xs ! i"
  shows "\<exists>us v vs. xs = us @ v # vs \<and> xs[i := x] = us @ x # vs \<and> v \<noteq> x"
  using assms by (intro exI [of _ "take i xs"] exI [of _ "xs ! i"] exI [of _ "drop (Suc i) xs"])
    (simp add: id_take_nth_drop upd_conv_take_nth_drop)

lemma nat_ge_4_cases: "(k :: nat) = 0 \<or> k = 1 \<or> k = 2 \<or> k = 3 \<or> (\<exists>m. k = m + 4)"
  by presburger

lemma bus_crc8_single_byte:
  assumes "i < length xs" "x \<noteq> xs ! i"
  shows "bus_crc8 (xs[i := x]) \<noteq> bus_crc8 xs"
  using nth_differs_split [OF assms]
  by (auto simp only: bus_crc8_def dest!: xor_right_inj crc8_fold_single_byte)

lemma frame_bytes_shape:
  assumes "frame_wf f"
  shows "\<exists>pl. frame_bytes f = f_dest f # f_src f # f_type f # f_seq f # f_len f # pl
    \<and> unat (f_len f) = length pl \<and> length pl \<le> BUS_PAYLOAD_MAX"
  using assms
  by (intro exI [of _ "take (unat (f_len f)) (f_payload f)"])
     (simp add: frame_bytes_def frame_wf_def)

lemma run_preamble_idle:
  "a_state a = BUS_ASM_IDLE \<Longrightarrow>
    bus_asm_run a (BUS_PREAMBLE_WORD # ws) = bus_asm_run a ws"
  by (simp add: bus_asm_feed_def Let_def)

lemma run_preamble:
  assumes "asm_inv a"
  shows "\<exists>fs a'. bus_asm_run a (BUS_PREAMBLE_WORD # ws) =
      (case bus_asm_run a' ws of (gs, a'') \<Rightarrow> (fs @ gs, a''))
    \<and> length fs \<le> 1 \<and> asm_inv a' \<and> a_my_addr a' = a_my_addr a
    \<and> a_promiscuous a' = a_promiscuous a"
proof -
  obtain r a' where r: "bus_asm_feed a BUS_PREAMBLE_WORD = (r, a')" by force
  show ?thesis
    using asm_inv_feed [OF assms r] feed_keeps_config [OF r] r
    by (intro exI [of _ "case r of None \<Rightarrow> [] | Some f \<Rightarrow> [f]"] exI [of _ a'])
       (auto split: prod.splits option.splits)
qed

text \<open>
  C17.  Round trip and resynchronisation.  Whatever an assembler had received before, once the
  words of an encoded frame for a 7-bit destination it listens to arrive, the last frame it
  delivers is that frame: the five header bytes and the payload bytes are the sender's.  At most
  one other frame can come out before it, the one the preamble byte happened to complete.
\<close>

theorem bus_frame_roundtrip:
  assumes "frame_wf f" and "f_dest f < 0x80" and "asm_inv a" and "addr_is_for_us a (f_dest f)"
  shows "\<exists>fs g a'. bus_asm_run a (bus_frame_encode f) = (fs @ [g], a')
    \<and> length fs \<le> 1 \<and> frame_bytes g = frame_bytes f \<and> a_state a' = BUS_ASM_IDLE
    \<and> asm_inv a'"
proof -
  obtain pl where pl: "frame_bytes f = f_dest f # f_src f # f_type f # f_seq f # f_len f # pl"
    "unat (f_len f) = length pl" "length pl \<le> BUS_PAYLOAD_MAX"
    using frame_bytes_shape [OF assms(1)] by blast
  let ?ws = "wire_words (f_dest f) (tl (frame_bytes f)) (bus_crc8 (frame_bytes f))"
  have d: "f_dest f AND 0x7F = f_dest f" using assms(2) by (simp add: and_7F_eq_iff)
  obtain fs a1 where p: "bus_asm_run a (bus_frame_encode f) =
      (case bus_asm_run a1 ?ws of (gs, a'') \<Rightarrow> (fs @ gs, a''))"
    and a1: "length fs \<le> 1" "asm_inv a1" "a_my_addr a1 = a_my_addr a"
      "a_promiscuous a1 = a_promiscuous a"
    using run_preamble [OF assms(3), of ?ws] unfolding bus_frame_encode_wire [OF assms(1)] by blast
  have "addr_is_for_us a1 (f_dest f AND 0x7F)"
    using assms(4) a1 d by (simp add: addr_is_for_us_def)
  then obtain g a' where "bus_asm_run a1 ?ws = ([g], a')" "frame_bytes g = frame_bytes f"
      "a_state a' = BUS_ASM_IDLE"
    using run_wire [OF a1(2), of "f_dest f" "f_len f" pl "f_src f" "f_type f" "f_seq f"
        "bus_crc8 (frame_bytes f)"] pl d by auto
  moreover from this have "asm_inv a'" using asm_inv_run [OF a1(2)] by blast
  ultimately show ?thesis using p a1(1) by auto
qed

text \<open>
   A frame whose destination does not fit in the 7 address bits is never delivered: the
  encoder puts the masked address on the wire but the CRC covers the unmasked byte, so every
  receiver, a promiscuous monitor included, drops it as a CRC failure.
\<close>

theorem bus_frame_wide_dest_dropped:
  assumes "frame_wf f" and "f_dest f \<ge> 0x80" and "asm_inv a" and "a_state a = BUS_ASM_IDLE"
    and "addr_is_for_us a (f_dest f AND 0x7F)"
  shows "\<exists>a'. bus_asm_run a (bus_frame_encode f) = ([], a') \<and> a_crc_fail a' = a_crc_fail a + 1"
proof -
  obtain pl where pl: "frame_bytes f = f_dest f # f_src f # f_type f # f_seq f # f_len f # pl"
    "unat (f_len f) = length pl" "length pl \<le> BUS_PAYLOAD_MAX"
    using frame_bytes_shape [OF assms(1)] by blast
  have "f_dest f AND 0x7F \<noteq> f_dest f" using assms(2) by (simp add: and_7F_eq_iff)
  then have ne: "bus_crc8 ((f_dest f AND 0x7F) # tl (frame_bytes f)) \<noteq> bus_crc8 (frame_bytes f)"
    using bus_crc8_single_byte [of 0 "frame_bytes f" "f_dest f AND 0x7F"] pl(1) by simp
  show ?thesis
    unfolding bus_frame_encode_wire [OF assms(1)] run_preamble_idle [OF assms(4)]
    using run_wire [OF assms(3,5) pl(2,3), of "f_src f" "f_type f" "f_seq f"
        "bus_crc8 (frame_bytes f)"] ne pl(1) by auto
qed

lemma corrupted_body:
  fixes B pl :: "u8 list" and s t q ln :: u8
  defines "B \<equiv> s # t # q # ln # pl"
  assumes k: "k < length B" "k \<noteq> 3" and x: "x \<noteq> B ! k"
  shows "\<exists>s' t' q' pl'. B[k := x] = s' # t' # q' # ln # pl' \<and> length pl' = length pl
    \<and> bus_crc8 (d # B) \<noteq> bus_crc8 (d # B[k := x])"
proof -
  have ne: "bus_crc8 (d # B) \<noteq> bus_crc8 (d # B[k := x])"
    using bus_crc8_single_byte [of "Suc k" "d # B" x] k x by simp
  have "\<exists>s' t' q' pl'. B[k := x] = s' # t' # q' # ln # pl' \<and> length pl' = length pl"
    using nat_ge_4_cases [of k] k(2) unfolding B_def
    by (elim disjE exE) (simp_all add: numeral_eq_Suc)
  then show ?thesis using ne by blast
qed


section \<open>Soundness: nothing is delivered that was not on the wire\<close>

definition wire_sym :: "u16 \<Rightarrow> bool \<times> u8" where
  "wire_sym w = (BUS_WORD_IS_ADDR w, ucast (w AND 0xFF))"

definition asm_partial :: "bus_asm \<Rightarrow> u8 list" where
  "asm_partial a = (let f = a_acc a in case a_state a of
      BUS_ASM_IDLE \<Rightarrow> [] | BUS_ASM_SRC \<Rightarrow> []
    | BUS_ASM_TYPE \<Rightarrow> [f_src f]
    | BUS_ASM_SEQ \<Rightarrow> [f_src f, f_type f]
    | BUS_ASM_LEN \<Rightarrow> [f_src f, f_type f, f_seq f]
    | BUS_ASM_PAYLOAD \<Rightarrow> [f_src f, f_type f, f_seq f, f_len f] @ take (unat (a_idx a)) (f_payload f)
    | BUS_ASM_CRC \<Rightarrow> [f_src f, f_type f, f_seq f, f_len f] @ take (unat (f_len f)) (f_payload f))"

text \<open>
  The history invariant: an assembler that is inside a frame has, as the tail of what it
  received, the address word and the bytes it has stored since.
\<close>

definition asm_heard :: "(bool \<times> u8) list \<Rightarrow> bus_asm \<Rightarrow> bool" where
  "asm_heard h a \<longleftrightarrow> asm_inv a \<and> (a_state a \<noteq> BUS_ASM_IDLE \<longrightarrow>
     addr_is_for_us a (f_dest (a_acc a)) \<and>
     (\<exists>pre. h = pre @ (True, f_dest (a_acc a)) # map (Pair False) (asm_partial a)))"

lemma asm_heard_idle: "asm_inv a \<Longrightarrow> a_state a = BUS_ASM_IDLE \<Longrightarrow> asm_heard h a"
  by (simp add: asm_heard_def)

lemma asm_partial_data:
  assumes "asm_inv a" "bus_asm_feed a w = (r, a')" "\<not> BUS_WORD_IS_ADDR w" "a_state a' \<noteq> BUS_ASM_IDLE"
  shows "asm_partial a' = asm_partial a @ [ucast (w AND 0xFF)] \<and> a_state a \<noteq> BUS_ASM_IDLE
    \<and> f_dest (a_acc a') = f_dest (a_acc a)"
proof -
  let ?b = "ucast (w AND 0xFF) :: u8"
  have pl: ?thesis if st: "a_state a = BUS_ASM_PAYLOAD"
  proof -
    have lt: "a_idx a < f_len (a_acc a)" "unat (f_len (a_acc a)) \<le> 240"
      "length (f_payload (a_acc a)) = 240"
      using assms(1) st by (auto simp: asm_inv_def BUS_PAYLOAD_MAX_def)
    then have "unat (a_idx a) < unat (f_len (a_acc a))" by (simp add: word_less_nat_alt)
    then have inc: "unat (a_idx a + 1) = unat (a_idx a) + 1"
      by (intro unat_inc_u8) (use lt in simp)
    have "f_len (a_acc a) \<le> a_idx a + 1 \<Longrightarrow> unat (f_len (a_acc a)) = unat (a_idx a) + 1"
      using lt(1) inc by (simp add: word_le_nat_alt word_less_nat_alt)
    moreover have "unat (a_idx a) < 240" using lt by (simp add: word_less_nat_alt)
    ultimately show ?thesis
      using assms(2,3) st lt inc
      by (auto simp: bus_asm_feed_def asm_partial_def Let_def take_Suc_list_update split: if_splits)
  qed
  show ?thesis
    by (cases "a_state a = BUS_ASM_PAYLOAD", rule pl, assumption, cases "a_state a")
       (use assms in \<open>auto simp: bus_asm_feed_def asm_partial_def Let_def split: if_splits\<close>)
qed

lemma asm_heard_feed:
  assumes "asm_heard h a" "bus_asm_feed a w = (r, a')"
  shows "asm_heard (h @ [wire_sym w]) a'"
proof -
  have inv: "asm_inv a" using assms(1) by (simp add: asm_heard_def)
  have inv': "asm_inv a'" using asm_inv_feed [OF inv assms(2)] .
  have cfg: "addr_is_for_us a' d = addr_is_for_us a d" for d
    using feed_keeps_config [OF assms(2)] by (simp add: addr_is_for_us_def)
  show ?thesis
  proof (cases "BUS_WORD_IS_ADDR w")
    case True
    show ?thesis
    proof (cases "addr_is_for_us a (ucast (w AND 0xFF))")
      case us: True
      then have "a' = a\<lparr>a_acc := (a_acc a)\<lparr>f_dest := ucast (w AND 0xFF)\<rparr>, a_state := BUS_ASM_SRC\<rparr>"
        using assms(2) True by (simp add: bus_asm_feed_def Let_def)
      then show ?thesis using inv' cfg us True
        by (simp add: asm_heard_def wire_sym_def asm_partial_def)
    next
      case False
      then have "a_state a' = BUS_ASM_IDLE" using assms(2) True by (auto simp: bus_asm_feed_def Let_def)
      with inv' show ?thesis by (rule asm_heard_idle)
    qed
  next
    case False
    show ?thesis
    proof (cases "a_state a' = BUS_ASM_IDLE")
      case True
      with inv' show ?thesis by (rule asm_heard_idle)
    next
      case nid: False
      note p = asm_partial_data [OF inv assms(2) False nid]
      then obtain pre where "h = pre @ (True, f_dest (a_acc a)) # map (Pair False) (asm_partial a)"
        "addr_is_for_us a (f_dest (a_acc a))"
        using assms(1) unfolding asm_heard_def by blast
      then have "h @ [wire_sym w] = pre @ (True, f_dest (a_acc a')) # map (Pair False) (asm_partial a')"
        "addr_is_for_us a' (f_dest (a_acc a'))"
        using p False cfg by (simp_all add: wire_sym_def)
      then show ?thesis using inv' unfolding asm_heard_def by blast
    qed
  qed
qed

lemma asm_run_heard:
  assumes "asm_heard h a" "bus_asm_run a ws = (fs, a')" "f \<in> set fs"
  shows "frame_wf f \<and> addr_is_for_us a (f_dest f) \<and>
    (\<exists>pre post. h @ map wire_sym ws = pre @ (True, f_dest f)
       # map (Pair False) (tl (frame_bytes f) @ [bus_frame_crc f]) @ post)"
  using assms
proof (induction ws arbitrary: h a fs a')
  case Nil
  then show ?case by simp
next
  case (Cons w ws)
  obtain r a1 where r: "bus_asm_feed a w = (r, a1)" by force
  have h1: "asm_heard (h @ [wire_sym w]) a1" using Cons.prems(1) r by (rule asm_heard_feed)
  have cfg: "addr_is_for_us a1 d = addr_is_for_us a d" for d
    using feed_keeps_config [OF r] by (simp add: addr_is_for_us_def)
  obtain gs a2 where gs: "bus_asm_run a1 ws = (gs, a2)" by force
  consider "f \<in> set gs" | "r = Some f"
    using Cons.prems(2,3) r gs by (auto split: option.splits)
  then show ?case
  proof cases
    case 1
    then show ?thesis using Cons.IH [OF h1 gs 1] cfg by simp
  next
    case 2
    have inv: "asm_inv a" using Cons.prems(1) by (simp add: asm_heard_def)
    have f: "frame_wf f" "f = a_acc a" "bus_frame_crc f = ucast (w AND 0xFF)"
      "a_state a = BUS_ASM_CRC" "\<not> BUS_WORD_IS_ADDR w"
      using feed_returns_wf [OF inv, of w f a1] r 2 by auto
    then obtain pre where "h = pre @ (True, f_dest f) # map (Pair False) (tl (frame_bytes f))"
      "addr_is_for_us a (f_dest f)"
      using Cons.prems(1) by (auto simp: asm_heard_def asm_partial_def frame_bytes_def Let_def)
    then have "h @ map wire_sym (w # ws) = pre @ (True, f_dest f)
        # map (Pair False) (tl (frame_bytes f) @ [bus_frame_crc f]) @ map wire_sym ws"
      using f(3,5) by (simp add: wire_sym_def)
    then show ?thesis using f(1) \<open>addr_is_for_us a (f_dest f)\<close> by blast
  qed
qed

text \<open>
  C18.  Soundness of the assembler.  From an idle assembler, over any sequence of received words
  (noise, foreign frames, truncated frames), every frame delivered is well formed, is addressed
  to this node (or broadcast, or the node listens promiscuously), and its bytes stood on the wire
  contiguously: a marked address word, then unmarked words with the header, the payload and a
  matching CRC.
\<close>

theorem bus_asm_sound:
  assumes "asm_inv a" and "a_state a = BUS_ASM_IDLE"
    and "bus_asm_run a ws = (fs, a')" and "f \<in> set fs"
  shows "frame_wf f \<and> addr_is_for_us a (f_dest f) \<and>
    (\<exists>pre post. map wire_sym ws = pre @ (True, f_dest f)
       # map (Pair False) (tl (frame_bytes f) @ [bus_frame_crc f]) @ post)"
  using asm_run_heard [OF asm_heard_idle [OF assms(1,2)] assms(3,4), of "[]"] by simp

definition asm0 :: bus_asm where
  "asm0 = \<lparr>a_state = BUS_ASM_IDLE,
     a_acc = \<lparr>f_dest = 0, f_src = 0, f_type = 0, f_seq = 0, f_len = 0,
              f_payload = replicate BUS_PAYLOAD_MAX 0\<rparr>,
     a_idx = 0, a_my_addr = 0, a_promiscuous = False, a_crc_fail = 0, a_frames_ok = 0\<rparr>"

lemma asm_inv_asm0: "asm_inv (bus_asm_init asm0 m p)"
  by (rule asm_inv_init) (simp add: asm0_def)

definition frame0 :: bus_frame where
  "frame0 = \<lparr>f_dest = 5, f_src = 0, f_type = 2, f_seq = 1, f_len = 2,
     f_payload = [0xAB, 0xCD] @ replicate 238 0\<rparr>"

lemma frame_wf_frame0: "frame_wf frame0"
  by (simp add: frame_wf_def frame0_def BUS_PAYLOAD_MAX_def)

theorem bus_frame_roundtrip_witness:
  "\<exists>fs g a'. bus_asm_run (bus_asm_init asm0 5 False) (bus_frame_encode frame0) = (fs @ [g], a')
    \<and> length fs \<le> 1 \<and> frame_bytes g = frame_bytes frame0 \<and> a_state a' = BUS_ASM_IDLE
    \<and> asm_inv a'"
  by (rule bus_frame_roundtrip [OF frame_wf_frame0 _ asm_inv_asm0])
     (simp_all add: frame0_def addr_is_for_us_def bus_asm_init_def)

theorem bus_frame_wide_dest_dropped_witness:
  "\<exists>a'. bus_asm_run (bus_asm_init asm0 0xFF False) (bus_frame_encode (frame0\<lparr>f_dest := 0x85\<rparr>)) = ([], a')
    \<and> a_crc_fail a' = a_crc_fail (bus_asm_init asm0 0xFF False) + 1"
  by (rule bus_frame_wide_dest_dropped [OF _ _ asm_inv_asm0])
     (simp_all add: frame0_def addr_is_for_us_def bus_asm_init_def frame_wf_def BUS_PAYLOAD_MAX_def
       BUS_ADDR_PROMISCUOUS_def)


theorem bus_asm_sound_witness:
  "\<exists>f a'. bus_asm_run (bus_asm_init asm0 5 False) (bus_frame_encode frame0) = ([f], a')
    \<and> frame_wf f \<and> (\<exists>pre post. map wire_sym (bus_frame_encode frame0) = pre @ (True, f_dest f)
       # map (Pair False) (tl (frame_bytes f) @ [bus_frame_crc f]) @ post)"
proof -
  obtain fs a' where r: "bus_asm_run (bus_asm_init asm0 5 False) (bus_frame_encode frame0) = (fs, a')"
    by force
  have "length (fst (bus_asm_run (bus_asm_init asm0 5 False) (bus_frame_encode frame0))) = 1"
    by code_simp
  then obtain f where f: "fs = [f]" using r by (auto simp: length_Suc_conv)
  have "a_state (bus_asm_init asm0 5 False) = BUS_ASM_IDLE" by (simp add: bus_asm_init_def)
  from bus_asm_sound [OF asm_inv_asm0 this r, of f] show ?thesis using r f by auto
qed

section \<open>Streams of frames\<close>

lemma asm_run_wf: "asm_inv a \<Longrightarrow> bus_asm_run a ws = (fs, a') \<Longrightarrow> list_all frame_wf fs"
proof (induction ws arbitrary: a fs a')
  case Nil
  then show ?case by simp
next
  case (Cons w ws)
  obtain r a1 where r: "bus_asm_feed a w = (r, a1)" by force
  obtain gs a2 where g: "bus_asm_run a1 ws = (gs, a2)" by force
  have "list_all frame_wf gs" using Cons.IH [OF asm_inv_feed [OF Cons.prems(1) r] g] .
  then show ?case
    using Cons.prems r g feed_returns_wf [of a w] by (cases r) auto
qed

lemma run_keeps_config:
  "bus_asm_run a ws = (fs, a') \<Longrightarrow> a_my_addr a' = a_my_addr a \<and> a_promiscuous a' = a_promiscuous a"
proof (induction ws arbitrary: a fs a')
  case Nil
  then show ?case by simp
next
  case (Cons w ws)
  obtain r a1 where r: "bus_asm_feed a w = (r, a1)" by force
  obtain gs a2 where g: "bus_asm_run a1 ws = (gs, a2)" by force
  have "a' = a2" using Cons.prems r g by (auto split: option.splits)
  then show ?case using Cons.IH [OF g] feed_keeps_config [OF r] by simp
qed

lemma run_idle_data:
  "a_state a = BUS_ASM_IDLE \<Longrightarrow> bus_asm_run a (map BUS_WORD_DATA bs) = ([], a)"
  by (induction bs) (simp_all add: bus_asm_feed_def Let_def)

lemma run_frame_idle:
  assumes "frame_wf f" "f_dest f < 0x80" "asm_inv a" "a_state a = BUS_ASM_IDLE"
    "addr_is_for_us a (f_dest f)"
  obtains g a' where "bus_asm_run a (bus_frame_encode f) = ([g], a')"
    "frame_bytes g = frame_bytes f" "frame_wf g" "asm_inv a'" "a_state a' = BUS_ASM_IDLE"
    "a_my_addr a' = a_my_addr a" "a_promiscuous a' = a_promiscuous a"
proof -
  obtain pl where pl: "frame_bytes f = f_dest f # f_src f # f_type f # f_seq f # f_len f # pl"
    "unat (f_len f) = length pl" "length pl \<le> BUS_PAYLOAD_MAX"
    using frame_bytes_shape [OF assms(1)] by blast
  have d: "f_dest f AND 0x7F = f_dest f" using assms(2) by (simp add: and_7F_eq_iff)
  have enc: "bus_asm_run a (bus_frame_encode f) =
      bus_asm_run a (wire_words (f_dest f) (tl (frame_bytes f)) (bus_crc8 (frame_bytes f)))"
    unfolding bus_frame_encode_wire [OF assms(1)] by (rule run_preamble_idle [OF assms(4)])
  obtain g a' where "bus_asm_run a (bus_frame_encode f) = ([g], a')"
    "frame_bytes g = frame_bytes f" "frame_wf g" "a_state a' = BUS_ASM_IDLE"
    using run_wire [OF assms(3), of "f_dest f" "f_len f" pl "f_src f" "f_type f" "f_seq f"
        "bus_crc8 (frame_bytes f)"] assms(5) pl d enc by auto
  then show thesis using that asm_inv_run [OF assms(3)] run_keeps_config by metis
qed

lemma run_frame_skip:
  assumes "frame_wf f" "f_dest f < 0x80" "a_state a = BUS_ASM_IDLE"
    "\<not> addr_is_for_us a (f_dest f)"
  shows "bus_asm_run a (bus_frame_encode f) = ([], a)"
proof -
  have d: "f_dest f AND 0x7F = f_dest f" using assms(2) by (simp add: and_7F_eq_iff)
  have idle: "a\<lparr>a_state := BUS_ASM_IDLE\<rparr> = a" using assms(3) by simp
  have "bus_asm_run a (bus_frame_encode f) =
      bus_asm_run a (wire_words (f_dest f) (tl (frame_bytes f)) (bus_crc8 (frame_bytes f)))"
    unfolding bus_frame_encode_wire [OF assms(1)] by (rule run_preamble_idle [OF assms(3)])
  also have "\<dots> = bus_asm_run a (map BUS_WORD_DATA (tl (frame_bytes f) @ [bus_crc8 (frame_bytes f)]))"
    using assms(4) d idle by (simp add: wire_words_def bus_asm_feed_def Let_def)
  also have "\<dots> = ([], a)" by (rule run_idle_data [OF assms(3)])
  finally show ?thesis .
qed

text \<open>A back-to-back burst: an idle receiver returns exactly the frames addressed to it, in order.\<close>

lemma run_frames:
  assumes "\<And>f. f \<in> set fs \<Longrightarrow> frame_wf f \<and> f_dest f < 0x80" "asm_inv a" "a_state a = BUS_ASM_IDLE"
  shows "\<exists>gs a'. bus_asm_run a (concat (map bus_frame_encode fs)) = (gs, a') \<and>
    map frame_bytes gs = map frame_bytes (filter (\<lambda>f. addr_is_for_us a (f_dest f)) fs) \<and>
    list_all frame_wf gs \<and> asm_inv a' \<and> a_state a' = BUS_ASM_IDLE"
  using assms
proof (induction fs arbitrary: a)
  case Nil
  then show ?case by simp
next
  case (Cons f fs)
  have f: "frame_wf f" "f_dest f < 0x80" using Cons.prems(1) by auto
  show ?case
  proof (cases "addr_is_for_us a (f_dest f)")
    case True
    obtain g a1 where g: "bus_asm_run a (bus_frame_encode f) = ([g], a1)"
      "frame_bytes g = frame_bytes f" "frame_wf g" "asm_inv a1" "a_state a1 = BUS_ASM_IDLE"
      "a_my_addr a1 = a_my_addr a" "a_promiscuous a1 = a_promiscuous a"
      using run_frame_idle [OF f Cons.prems(2,3) True] .
    have us: "addr_is_for_us a1 = addr_is_for_us a"
      using g(6,7) by (simp add: addr_is_for_us_def fun_eq_iff)
    show ?thesis
      using Cons.IH [OF _ g(4,5)] Cons.prems(1) g(1-3) True us
      by (auto simp: bus_asm_run_append)
  next
    case False
    show ?thesis
      using Cons.IH [OF _ Cons.prems(2,3)] Cons.prems(1) run_frame_skip [OF f Cons.prems(3) False] False
      by (auto simp: bus_asm_run_append)
  qed
qed

end
