(* ===== verification/Bus_Roster.thy ===== *)
theory Bus_Roster
  imports Interfaces Bus_Frame
begin

text \<open>
  The controller's RAM-only node roster (\<^verbatim>\<open>src/core/bus_roster.h\<close>,
  \<^verbatim>\<open>src/core/bus_roster.c\<close>).  The file-level statics \<open>g_roster\<close>, \<open>g_count\<close>, \<open>g_cfg\<close> are one
  record; a pointer into \<open>g_roster\<close> is the slot's index, a NULL pointer is \<open>None\<close>; the
  \<open>out_count\<close> argument is part of the result.
\<close>

unbundle bit_operations_syntax

definition BUS_ROSTER_MAX :: nat where "BUS_ROSTER_MAX = 32"

definition BUS_STATE_UNKNOWN :: u8 where "BUS_STATE_UNKNOWN = 0"
definition BUS_FLAG_ENABLED :: u8 where "BUS_FLAG_ENABLED = 0x02"

definition BUS_REG_OK :: u8 where "BUS_REG_OK = 0"
definition BUS_REG_FULL :: u8 where "BUS_REG_FULL = 1"
definition BUS_REG_DUP :: u8 where "BUS_REG_DUP = 2"
definition BUS_REG_BADADDR :: u8 where "BUS_REG_BADADDR = 3"

lemmas bus_reg_defs = BUS_REG_OK_def BUS_REG_FULL_def BUS_REG_DUP_def BUS_REG_BADADDR_def

record bus_slave =
  s_addr :: u8
  s_class_id :: u32
  s_flags :: u8
  s_state :: u8
  s_consecutive_misses :: u8
  s_last_seen_ms :: u32

record bus_sched_cfg =
  c_grant_period_ms :: u16
  c_window_us :: u16
  c_max_misses :: u8
  c_tcp_retries :: u8
  c_enabled :: u8

record roster =
  g_roster :: "bus_slave list"
  g_count :: u8
  g_cfg :: bus_sched_cfg

definition bus_roster_clear :: "roster \<Rightarrow> roster" where
  "bus_roster_clear r = r\<lparr>g_roster := map (\<lambda>s. s\<lparr>s_addr := 0\<rparr>) (g_roster r), g_count := 0\<rparr>"

definition bus_roster_init :: "roster \<Rightarrow> roster" where
  "bus_roster_init r = (bus_roster_clear r)\<lparr>g_cfg :=
     \<lparr>c_grant_period_ms = 0, c_window_us = 2000, c_max_misses = 3, c_tcp_retries = 3,
      c_enabled = 0\<rparr>\<rparr>"

definition addr_valid :: "u8 \<Rightarrow> bool" where
  "addr_valid a \<longleftrightarrow> a \<ge> BUS_ADDR_SLAVE_MIN \<and> a \<le> BUS_ADDR_SLAVE_MAX"

definition bus_roster_find :: "roster \<Rightarrow> u8 \<Rightarrow> nat option" where
  "bus_roster_find r addr =
     (if addr = 0 then None else find_idx (\<lambda>s. s_addr s = addr) (g_roster r))"

definition fresh_slave :: "u8 \<Rightarrow> u32 \<Rightarrow> u8 \<Rightarrow> bus_slave" where
  "fresh_slave addr class_id flags =
     \<lparr>s_addr = addr, s_class_id = class_id, s_flags = flags, s_state = BUS_STATE_UNKNOWN,
      s_consecutive_misses = 0, s_last_seen_ms = 0\<rparr>"

lemma fresh_slave_sel [simp]:
  "s_addr (fresh_slave a c f) = a" "s_class_id (fresh_slave a c f) = c"
  "s_flags (fresh_slave a c f) = f"
  by (simp_all add: fresh_slave_def)

definition bus_roster_register :: "roster \<Rightarrow> u8 \<Rightarrow> u32 \<Rightarrow> u8 \<Rightarrow> u8 \<times> u8 \<times> roster" where
  "bus_roster_register r addr class_id flags =
     (if \<not> addr_valid addr then (BUS_REG_BADADDR, g_count r, r)
      else if bus_roster_find r addr \<noteq> None then (BUS_REG_DUP, g_count r, r)
      else if unat (g_count r) \<ge> BUS_ROSTER_MAX then (BUS_REG_FULL, g_count r, r)
      else (case find_idx (\<lambda>s. s_addr s = 0) (g_roster r) of
              Some i \<Rightarrow>
                (let r' = r\<lparr>g_roster := (g_roster r)[i := fresh_slave addr class_id flags],
                            g_count := g_count r + 1\<rparr>
                 in (BUS_REG_OK, g_count r', r'))
            | None \<Rightarrow> (BUS_REG_FULL, g_count r, r)))"

definition bus_roster_unregister :: "roster \<Rightarrow> u8 \<Rightarrow> bool \<times> u8 \<times> roster" where
  "bus_roster_unregister r addr =
     (case bus_roster_find r addr of
        Some i \<Rightarrow>
          (let r' = r\<lparr>g_roster := (g_roster r)[i := (g_roster r ! i)\<lparr>s_addr := 0\<rparr>],
                      g_count := g_count r - 1\<rparr>
           in (True, g_count r', r'))
      | None \<Rightarrow> (False, g_count r, r))"

definition bus_roster_count :: "roster \<Rightarrow> u8" where "bus_roster_count r = g_count r"

text \<open>\<open>bus_roster_at\<close>: the \<open>index\<close>-th occupied slot; \<open>seen\<close> counts the occupied slots passed.\<close>

fun roster_at_from :: "bus_slave list \<Rightarrow> nat \<Rightarrow> u8 \<Rightarrow> u8 \<Rightarrow> nat option" where
  "roster_at_from [] i seen index = None"
| "roster_at_from (s # ss) i seen index =
     (if s_addr s \<noteq> 0
      then (if seen = index then Some i else roster_at_from ss (i + 1) (seen + 1) index)
      else roster_at_from ss (i + 1) seen index)"

definition bus_roster_at :: "roster \<Rightarrow> u8 \<Rightarrow> nat option" where
  "bus_roster_at r index = roster_at_from (g_roster r) 0 0 index"

definition slave_enabled :: "bus_slave \<Rightarrow> bool" where
  "slave_enabled s \<longleftrightarrow> s_addr s \<noteq> 0 \<and> s_flags s AND BUS_FLAG_ENABLED \<noteq> 0"

definition bus_roster_next_enabled :: "roster \<Rightarrow> u8 \<Rightarrow> nat option \<times> u8" where
  "bus_roster_next_enabled r cursor =
     (case find (\<lambda>i. slave_enabled (g_roster r ! i))
             (map (\<lambda>step. (unat cursor + step) mod BUS_ROSTER_MAX) [0..<BUS_ROSTER_MAX]) of
        Some i \<Rightarrow> (Some i, word_of_nat ((i + 1) mod BUS_ROSTER_MAX))
      | None \<Rightarrow> (None, cursor))"

section \<open>The roster as a map\<close>

definition occupied :: "bus_slave \<Rightarrow> bool" where "occupied s \<longleftrightarrow> s_addr s \<noteq> 0"

definition roster_inv :: "roster \<Rightarrow> bool" where [inv_defs]:
  "roster_inv r \<longleftrightarrow>
     length (g_roster r) = BUS_ROSTER_MAX \<and>
     (\<forall>i<BUS_ROSTER_MAX. occupied (g_roster r ! i) \<longrightarrow> addr_valid (s_addr (g_roster r ! i))) \<and>
     (\<forall>i<BUS_ROSTER_MAX. \<forall>j<BUS_ROSTER_MAX.
        occupied (g_roster r ! i) \<longrightarrow> s_addr (g_roster r ! i) = s_addr (g_roster r ! j) \<longrightarrow> i = j) \<and>
     unat (g_count r) = length (filter occupied (g_roster r))"

definition roster_map :: "roster \<Rightarrow> u8 \<rightharpoonup> bus_slave" where
  "roster_map r a = map_option ((!) (g_roster r)) (bus_roster_find r a)"

lemma roster_inv_length [simp]: "roster_inv r \<Longrightarrow> length (g_roster r) = BUS_ROSTER_MAX"
  by (simp add: roster_inv_def)

lemma roster_inv_valid:
  "roster_inv r \<Longrightarrow> i < BUS_ROSTER_MAX \<Longrightarrow> occupied (g_roster r ! i)
    \<Longrightarrow> addr_valid (s_addr (g_roster r ! i))"
  by (simp add: roster_inv_def)

lemma roster_inv_inj:
  "roster_inv r \<Longrightarrow> i < BUS_ROSTER_MAX \<Longrightarrow> j < BUS_ROSTER_MAX \<Longrightarrow> occupied (g_roster r ! i)
    \<Longrightarrow> s_addr (g_roster r ! i) = s_addr (g_roster r ! j) \<Longrightarrow> i = j"
  unfolding roster_inv_def by blast

lemma roster_inv_count: "roster_inv r \<Longrightarrow> unat (g_count r) = length (filter occupied (g_roster r))"
  by (simp add: roster_inv_def)

lemma roster_find_SomeD:
  assumes "roster_inv r" "bus_roster_find r a = Some i"
  shows "i < BUS_ROSTER_MAX" "s_addr (g_roster r ! i) = a" "a \<noteq> 0"
  using assms find_idx_SomeD [of "\<lambda>s. s_addr s = a" "g_roster r" i]
  by (auto simp: bus_roster_find_def split: if_splits)

lemma roster_find_iff:
  assumes "roster_inv r"
  shows "bus_roster_find r a = Some i \<longleftrightarrow> a \<noteq> 0 \<and> i < BUS_ROSTER_MAX \<and> s_addr (g_roster r ! i) = a"
proof
  assume "bus_roster_find r a = Some i"
  with assms show "a \<noteq> 0 \<and> i < BUS_ROSTER_MAX \<and> s_addr (g_roster r ! i) = a"
    using roster_find_SomeD by blast
next
  assume a: "a \<noteq> 0 \<and> i < BUS_ROSTER_MAX \<and> s_addr (g_roster r ! i) = a"
  have "find_idx (\<lambda>s. s_addr s = a) (g_roster r) = Some i"
    by (rule find_idx_unique) (use assms a in \<open>auto simp: roster_inv_def occupied_def\<close>)
  with a show "bus_roster_find r a = Some i" by (simp add: bus_roster_find_def)
qed

lemma roster_map_Some_iff:
  assumes "roster_inv r"
  shows "roster_map r a = Some s \<longleftrightarrow>
    a \<noteq> 0 \<and> s_addr s = a \<and> (\<exists>i<BUS_ROSTER_MAX. g_roster r ! i = s)"
  using roster_find_iff [OF assms] by (auto simp: roster_map_def)

lemma roster_map_None_iff: "roster_map r a = None \<longleftrightarrow> bus_roster_find r a = None"
  by (simp add: roster_map_def)

text \<open>Writing one slot whose new address is free or zero keeps every clause but the count.\<close>

lemma roster_inv_update:
  assumes inv: "roster_inv r" and i: "i < BUS_ROSTER_MAX"
    and valid: "occupied s \<Longrightarrow> addr_valid (s_addr s)"
    and fresh: "\<And>j. j < BUS_ROSTER_MAX \<Longrightarrow> j \<noteq> i \<Longrightarrow> occupied s \<Longrightarrow> s_addr (g_roster r ! j) \<noteq> s_addr s"
    and cnt: "unat n + (if occupied (g_roster r ! i) then 1 else 0)
                = unat (g_count r) + (if occupied s then 1 else 0)"
  shows "roster_inv (r\<lparr>g_roster := (g_roster r)[i := s], g_count := n\<rparr>)"
proof -
  have len: "length (g_roster r) = BUS_ROSTER_MAX" using inv by simp
  have "unat n = length (filter occupied ((g_roster r)[i := s]))"
    using length_filter_update [of i "g_roster r" occupied s] i len cnt roster_inv_count [OF inv]
    by (simp split: if_splits)
  moreover have "addr_valid (s_addr ((g_roster r)[i := s] ! j))"
    if "j < BUS_ROSTER_MAX" "occupied ((g_roster r)[i := s] ! j)" for j
    using roster_inv_valid [OF inv that(1)] valid i len that(2) by (cases "j = i") simp_all
  moreover have "j = k"
    if jk: "j < BUS_ROSTER_MAX" "k < BUS_ROSTER_MAX" "occupied ((g_roster r)[i := s] ! j)"
      "s_addr ((g_roster r)[i := s] ! j) = s_addr ((g_roster r)[i := s] ! k)" for j k
  proof (cases "j = i \<or> k = i")
    case True
    then show ?thesis
      using jk fresh [of j] fresh [of k] i len by (cases "j = i"; cases "k = i") (auto simp: occupied_def)
  next
    case False
    then show ?thesis using jk roster_inv_inj [OF inv, of j k] by simp
  qed
  ultimately show ?thesis
    unfolding roster_inv_def using len by simp
qed

lemma roster_count_le: "roster_inv r \<Longrightarrow> unat (g_count r) \<le> BUS_ROSTER_MAX"
  by (metis length_filter_le roster_inv_def)

lemma roster_free_slot:
  assumes "roster_inv r" "unat (g_count r) < BUS_ROSTER_MAX"
  obtains i where "find_idx (\<lambda>s. s_addr s = 0) (g_roster r) = Some i"
proof (cases "find_idx (\<lambda>s. s_addr s = 0) (g_roster r)")
  case None
  then have "filter occupied (g_roster r) = g_roster r"
    by (simp add: find_idx_None_set filter_id_conv occupied_def)
  then have "unat (g_count r) = BUS_ROSTER_MAX"
    using roster_inv_count [OF assms(1)] roster_inv_length [OF assms(1)] by simp
  then show ?thesis using assms(2) by simp
next
  case (Some i)
  then show ?thesis by (rule that)
qed

lemma roster_register_ok:
  assumes inv: "roster_inv r" and ok: "addr_valid a" "bus_roster_find r a = None"
      "unat (g_count r) < BUS_ROSTER_MAX"
  obtains i where "i < BUS_ROSTER_MAX" "s_addr (g_roster r ! i) = 0"
    and "bus_roster_register r a c f = (BUS_REG_OK, g_count r + 1,
          r\<lparr>g_roster := (g_roster r)[i := fresh_slave a c f], g_count := g_count r + 1\<rparr>)"
    and "roster_inv (r\<lparr>g_roster := (g_roster r)[i := fresh_slave a c f], g_count := g_count r + 1\<rparr>)"
proof -
  obtain i where i: "find_idx (\<lambda>s. s_addr s = 0) (g_roster r) = Some i"
    using roster_free_slot [OF inv ok(3)] .
  have il: "i < BUS_ROSTER_MAX" "s_addr (g_roster r ! i) = 0"
    using find_idx_SomeD [OF i] inv by auto
  have a0: "a \<noteq> 0" using ok(1) by (auto simp: addr_valid_def BUS_ADDR_SLAVE_MIN_def)
  have other: "s_addr (g_roster r ! j) \<noteq> a" if "j < BUS_ROSTER_MAX" for j
    using ok(2) that a0 roster_find_iff [OF inv, of a j] by auto
  have "unat (g_count r + 1) = unat (g_count r) + 1"
    by (rule unat_inc_u8) (use ok(3) in \<open>simp add: BUS_ROSTER_MAX_def\<close>)
  then have "roster_inv (r\<lparr>g_roster := (g_roster r)[i := fresh_slave a c f], g_count := g_count r + 1\<rparr>)"
    by (intro roster_inv_update inv il)
       (use il ok(1) other a0 in \<open>auto simp: fresh_slave_def occupied_def\<close>)
  moreover have "bus_roster_register r a c f = (BUS_REG_OK, g_count r + 1,
          r\<lparr>g_roster := (g_roster r)[i := fresh_slave a c f], g_count := g_count r + 1\<rparr>)"
    using ok i by (simp add: bus_roster_register_def Let_def)
  ultimately show thesis using that il by blast
qed

lemma roster_map_write:
  assumes inv: "roster_inv r" and inv': "roster_inv (r\<lparr>g_roster := (g_roster r)[i := s], g_count := n\<rparr>)"
    and i: "i < BUS_ROSTER_MAX"
  shows "roster_map (r\<lparr>g_roster := (g_roster r)[i := s], g_count := n\<rparr>) a =
    (if a \<noteq> 0 \<and> s_addr s = a then Some s
     else if s_addr (g_roster r ! i) = a then None else roster_map r a)"
proof -
  let ?r = "r\<lparr>g_roster := (g_roster r)[i := s], g_count := n\<rparr>"
  have len: "length (g_roster r) = BUS_ROSTER_MAX" using inv by simp
  have find: "bus_roster_find ?r a = Some j \<longleftrightarrow>
      a \<noteq> 0 \<and> j < BUS_ROSTER_MAX \<and> s_addr ((g_roster r)[i := s] ! j) = a" for j
    using roster_find_iff [OF inv'] by simp
  show ?thesis
  proof (cases "a \<noteq> 0 \<and> s_addr s = a")
    case True
    then have "bus_roster_find ?r a = Some i" using find [of i] i len by simp
    then show ?thesis using True i len by (simp add: roster_map_def)
  next
    case na: False
    show ?thesis
    proof (cases "s_addr (g_roster r ! i) = a")
      case True
      have "bus_roster_find ?r a \<noteq> Some j" for j
      proof
        assume "bus_roster_find ?r a = Some j"
        then have j: "a \<noteq> 0" "j < BUS_ROSTER_MAX" "s_addr ((g_roster r)[i := s] ! j) = a"
          using find [of j] by auto
        then have "j \<noteq> i" using na i len by auto
        then have "s_addr (g_roster r ! j) = a" using j by simp
        then have "bus_roster_find r a = Some j" "bus_roster_find r a = Some i"
          using roster_find_iff [OF inv] j True i by auto
        then show False using \<open>j \<noteq> i\<close> by simp
      qed
      then have "bus_roster_find ?r a = None" by (meson not_Some_eq)
      then show ?thesis using na True by (auto simp: roster_map_def)
    next
      case False
      have "bus_roster_find ?r a = Some j \<longleftrightarrow> bus_roster_find r a = Some j" for j
        using find [of j] roster_find_iff [OF inv, of a j] na False i len
        by (cases "j = i") auto
      then have eq: "bus_roster_find ?r a = bus_roster_find r a"
        by (metis not_Some_eq)
      have "j \<noteq> i" if "bus_roster_find r a = Some j" for j
        using that False roster_find_iff [OF inv, of a j] by auto
      then show ?thesis using na False eq
        by (cases "bus_roster_find r a") (auto simp: roster_map_def)
    qed
  qed
qed

lemma roster_unregister_found:
  assumes inv: "roster_inv r" and i: "bus_roster_find r a = Some i"
  shows "roster_inv (r\<lparr>g_roster := (g_roster r)[i := (g_roster r ! i)\<lparr>s_addr := 0\<rparr>],
                       g_count := g_count r - 1\<rparr>)"
proof -
  have il: "i < BUS_ROSTER_MAX" "s_addr (g_roster r ! i) = a" "a \<noteq> 0"
    using roster_find_SomeD [OF inv i] by auto
  then have occ: "occupied (g_roster r ! i)" by (simp add: occupied_def)
  then have "g_roster r ! i \<in> set (filter occupied (g_roster r))"
    using il inv by simp
  then have "0 < length (filter occupied (g_roster r))"
    by (rule length_pos_if_in_set)
  then have "unat (g_count r - 1) + 1 = unat (g_count r)"
    using roster_inv_count [OF inv] unat_dec_word [of "g_count r"] by simp
  then show ?thesis
    by (intro roster_inv_update inv il(1)) (use occ in \<open>auto simp: occupied_def\<close>)
qed

lemma roster_inv_register: "roster_inv r \<Longrightarrow> roster_inv (snd (snd (bus_roster_register r a c f)))"
proof (cases "addr_valid a \<and> bus_roster_find r a = None \<and> unat (g_count r) < BUS_ROSTER_MAX")
  case True
  assume "roster_inv r"
  with True show ?thesis by (metis roster_register_ok snd_conv)
next
  case False
  assume "roster_inv r"
  with False show ?thesis by (auto simp: bus_roster_register_def)
qed

lemma roster_inv_unregister: "roster_inv r \<Longrightarrow> roster_inv (snd (snd (bus_roster_unregister r a)))"
  using roster_unregister_found [of r a]
  by (cases "bus_roster_find r a") (simp_all add: bus_roster_unregister_def Let_def)

lemma roster_inv_init:
  assumes "length (g_roster r) = BUS_ROSTER_MAX"
  shows "roster_inv (bus_roster_init r)"
  using assms
  by (auto simp: roster_inv_def bus_roster_init_def bus_roster_clear_def occupied_def filter_map comp_def)

lemma roster_map_init:
  assumes "length (g_roster r) = BUS_ROSTER_MAX"
  shows "roster_map (bus_roster_init r) = Map.empty"
  by (rule ext)
     (auto simp: roster_map_None_iff bus_roster_find_def find_idx_None_set bus_roster_init_def
       bus_roster_clear_def)

text \<open>What the scheduler and the host link rely on: a table from addresses to class and flags.\<close>

definition roster_lookup :: "roster \<Rightarrow> u8 \<Rightarrow> (u32 \<times> u8) option" where
  "roster_lookup r a = map_option (\<lambda>s. (s_class_id s, s_flags s)) (roster_map r a)"

definition roster_accepts :: "roster \<Rightarrow> u8 \<Rightarrow> bool" where
  "roster_accepts r a \<longleftrightarrow>
     addr_valid a \<and> bus_roster_find r a = None \<and> unat (g_count r) < BUS_ROSTER_MAX"

definition roster_add :: "roster \<Rightarrow> u8 \<Rightarrow> u32 \<times> u8 \<Rightarrow> roster" where
  "roster_add r a v = snd (snd (bus_roster_register r a (fst v) (snd v)))"

definition roster_del :: "roster \<Rightarrow> u8 \<Rightarrow> roster" where
  "roster_del r a = snd (snd (bus_roster_unregister r a))"

lemma addr_valid_nz: "addr_valid a \<Longrightarrow> a \<noteq> 0"
  by (auto simp: addr_valid_def BUS_ADDR_SLAVE_MIN_def)

lemma roster_map_zero [simp]: "roster_map r 0 = None"
  by (simp add: roster_map_def bus_roster_find_def)

lemma roster_map_register:
  assumes inv: "roster_inv r" and acc: "roster_accepts r a"
  shows "roster_map (snd (snd (bus_roster_register r a c f))) = (roster_map r)(a \<mapsto> fresh_slave a c f)"
    and "fst (bus_roster_register r a c f) = BUS_REG_OK"
    and "g_count (snd (snd (bus_roster_register r a c f))) = g_count r + 1"
proof -
  obtain i where i: "i < BUS_ROSTER_MAX" "s_addr (g_roster r ! i) = 0"
    and eq: "bus_roster_register r a c f = (BUS_REG_OK, g_count r + 1,
          r\<lparr>g_roster := (g_roster r)[i := fresh_slave a c f], g_count := g_count r + 1\<rparr>)"
    and inv': "roster_inv (r\<lparr>g_roster := (g_roster r)[i := fresh_slave a c f], g_count := g_count r + 1\<rparr>)"
    using roster_register_ok [OF inv, of a c f] acc unfolding roster_accepts_def by blast
  have "a \<noteq> 0" using acc by (simp add: roster_accepts_def addr_valid_nz)
  then show "roster_map (snd (snd (bus_roster_register r a c f))) = (roster_map r)(a \<mapsto> fresh_slave a c f)"
    unfolding eq snd_conv
    by (intro ext) (auto simp: roster_map_write [OF inv inv' i(1)] i(2))
  show "fst (bus_roster_register r a c f) = BUS_REG_OK" by (simp add: eq)
  show "g_count (snd (snd (bus_roster_register r a c f))) = g_count r + 1" by (simp add: eq)
qed

lemma roster_register_refused:
  assumes inv: "roster_inv r" and "\<not> roster_accepts r a"
  shows "snd (snd (bus_roster_register r a c f)) = r"
    and "fst (bus_roster_register r a c f) =
      (if \<not> addr_valid a then BUS_REG_BADADDR
       else if bus_roster_find r a \<noteq> None then BUS_REG_DUP else BUS_REG_FULL)"
  using assms by (auto simp: bus_roster_register_def roster_accepts_def not_less)

lemma roster_map_unregister:
  assumes inv: "roster_inv r"
  shows "roster_map (snd (snd (bus_roster_unregister r a))) = (roster_map r)(a := None)"
    and "fst (bus_roster_unregister r a) \<longleftrightarrow> roster_map r a \<noteq> None"
proof -
  show "fst (bus_roster_unregister r a) \<longleftrightarrow> roster_map r a \<noteq> None"
    by (auto simp: bus_roster_unregister_def roster_map_def Let_def split: option.splits)
  show "roster_map (snd (snd (bus_roster_unregister r a))) = (roster_map r)(a := None)"
  proof (cases "bus_roster_find r a")
    case None
    then show ?thesis
      by (auto simp: bus_roster_unregister_def roster_map_None_iff)
  next
    case (Some i)
    have i: "i < BUS_ROSTER_MAX" "s_addr (g_roster r ! i) = a" "a \<noteq> 0"
      using roster_find_SomeD [OF inv Some] by auto
    show ?thesis
      using roster_map_write [OF inv roster_unregister_found [OF inv Some] i(1)] i
      by (intro ext) (auto simp: bus_roster_unregister_def Some Let_def)
  qed
qed

interpretation rt: keyed_table roster_inv roster_lookup roster_accepts roster_add roster_del
proof unfold_locales
  fix r a and v :: "u32 \<times> u8"
  assume inv: "roster_inv r"
  show "roster_inv (roster_add r a v)"
    using inv by (simp add: roster_add_def roster_inv_register)
  show "roster_inv (roster_del r a)"
    using inv by (simp add: roster_del_def roster_inv_unregister)
  show "roster_accepts r a \<Longrightarrow> roster_lookup (roster_add r a v) = (roster_lookup r)(a \<mapsto> v)"
    by (intro ext) (simp add: roster_lookup_def roster_add_def roster_map_register [OF inv])
  show "\<not> roster_accepts r a \<Longrightarrow> roster_add r a v = r"
    by (simp add: roster_add_def roster_register_refused [OF inv])
  show "roster_lookup (roster_del r a) = (roster_lookup r)(a := None)"
    by (intro ext) (simp add: roster_lookup_def roster_del_def roster_map_unregister [OF inv])
  show "roster_accepts r a \<Longrightarrow> roster_lookup r a = None"
    by (simp add: roster_lookup_def roster_accepts_def roster_map_None_iff)
qed

lemma roster_count_card:
  assumes "roster_inv r"
  shows "unat (g_count r) = card (dom (roster_map r))"
proof -
  let ?I = "{i. i < BUS_ROSTER_MAX \<and> occupied (g_roster r ! i)}"
  have "dom (roster_map r) = (\<lambda>i. s_addr (g_roster r ! i)) ` ?I"
    using roster_map_Some_iff [OF assms] by (auto simp: dom_def occupied_def)
  moreover have "inj_on (\<lambda>i. s_addr (g_roster r ! i)) ?I"
    by (rule inj_onI) (use roster_inv_inj [OF assms] in blast)
  ultimately have "card (dom (roster_map r)) = card ?I" by (simp add: card_image)
  then show ?thesis
    using assms by (simp add: roster_inv_count length_filter_conv_card)
qed

section \<open>Properties of the roster\<close>

definition empty_slave :: bus_slave where "empty_slave = fresh_slave 0 0 0"

definition roster0 :: roster where
  "roster0 = bus_roster_init \<lparr>g_roster = replicate 32 empty_slave, g_count = 0,
     g_cfg = \<lparr>c_grant_period_ms = 0, c_window_us = 0, c_max_misses = 0, c_tcp_retries = 0,
              c_enabled = 0\<rparr>\<rparr>"

lemma roster_inv_roster0: "roster_inv roster0"
  unfolding roster0_def by (rule roster_inv_init) (simp add: BUS_ROSTER_MAX_def)

lemma roster_map_roster0 [simp]: "roster_map roster0 = Map.empty"
  unfolding roster0_def by (rule roster_map_init) (simp add: BUS_ROSTER_MAX_def)

lemma g_count_roster0 [simp]: "g_count roster0 = 0"
  by (simp add: roster0_def bus_roster_init_def bus_roster_clear_def)

lemma roster_accepts_roster0: "addr_valid a \<Longrightarrow> roster_accepts roster0 a"
  by (simp add: roster_accepts_def roster_map_None_iff [symmetric] BUS_ROSTER_MAX_def)

lemma addr_valid_5: "addr_valid 5"
  by (simp add: addr_valid_def BUS_ADDR_SLAVE_MIN_def BUS_ADDR_SLAVE_MAX_def)

text \<open>
  Registering implements the abstract map update.  On a consistent roster the result code is
  BADADDR, DUP or FULL exactly when the address is outside 1..126, already present, or the table
  holds 32 nodes, and then nothing changes; otherwise the code is OK, exactly one entry (unknown
  state, no misses) is added, all others are untouched, and the invariant is kept.
\<close>

theorem bus_roster_register_refines:
  assumes "roster_inv r" and "bus_roster_register r a c f = (code, n, r')"
  shows "roster_inv r' \<and> n = g_count r' \<and>
    (if \<not> addr_valid a then code = BUS_REG_BADADDR \<and> r' = r
     else if roster_map r a \<noteq> None then code = BUS_REG_DUP \<and> r' = r
     else if unat (g_count r) = 32 then code = BUS_REG_FULL \<and> r' = r
     else code = BUS_REG_OK \<and> roster_map r' = (roster_map r)(a \<mapsto> fresh_slave a c f)
          \<and> unat (g_count r') = unat (g_count r) + 1)"
proof (cases "roster_accepts r a")
  case True
  have "unat (g_count r + 1) = unat (g_count r) + 1"
    by (rule unat_inc_u8) (use True in \<open>simp add: roster_accepts_def BUS_ROSTER_MAX_def\<close>)
  moreover have "n = g_count r'"
    using assms(2) by (auto simp: bus_roster_register_def Let_def split: if_splits option.splits)
  ultimately show ?thesis
    using assms(2) True roster_map_register [OF assms(1) True, of c f]
      roster_inv_register [OF assms(1), of a c f]
    by (auto simp: roster_accepts_def roster_map_None_iff BUS_ROSTER_MAX_def)
next
  case False
  moreover have "n = g_count r'"
    using assms(2) by (auto simp: bus_roster_register_def Let_def split: if_splits option.splits)
  ultimately show ?thesis
    using assms roster_register_refused [OF assms(1) False, of c f] roster_count_le [OF assms(1)]
    by (auto simp: roster_accepts_def roster_map_None_iff BUS_ROSTER_MAX_def)
qed

theorem bus_roster_register_refines_witness:
  "fst (bus_roster_register roster0 5 0xAB 2) = BUS_REG_OK \<and>
   roster_map (snd (snd (bus_roster_register roster0 5 0xAB 2))) 5 = Some (fresh_slave 5 0xAB 2)"
proof -
  obtain code n r' where eq: "bus_roster_register roster0 5 0xAB 2 = (code, n, r')"
    by (metis prod_cases3)
  then show ?thesis
    using bus_roster_register_refines [OF roster_inv_roster0 eq] addr_valid_5 by simp
qed

text \<open>
  Unregistering implements deletion: the result says whether the address was present, the
  invariant is kept, and every other address keeps its entry.
\<close>

theorem bus_roster_unregister_refines:
  assumes "roster_inv r" and "bus_roster_unregister r a = (found, n, r')"
  shows "roster_inv r' \<and> n = g_count r' \<and> (found \<longleftrightarrow> roster_map r a \<noteq> None) \<and>
    roster_map r' = (roster_map r)(a := None) \<and>
    unat (g_count r') = card (dom (roster_map r) - {a})"
proof -
  have "n = g_count r'"
    using assms(2) by (auto simp: bus_roster_unregister_def Let_def split: option.splits)
  moreover have inv': "roster_inv r'"
    using roster_inv_unregister [OF assms(1), of a] assms(2) by simp
  moreover have map': "roster_map r' = (roster_map r)(a := None)"
    using roster_map_unregister(1) [OF assms(1), of a] assms(2) by simp
  moreover have "found \<longleftrightarrow> roster_map r a \<noteq> None"
    using roster_map_unregister(2) [OF assms(1), of a] assms(2) by simp
  moreover have "unat (g_count r') = card (dom (roster_map r) - {a})"
    using roster_count_card [OF inv'] map' by simp
  ultimately show ?thesis by blast
qed

theorem bus_roster_unregister_refines_witness:
  "\<exists>r. roster_inv r \<and> roster_map r 5 \<noteq> None \<and> fst (bus_roster_unregister r 5) \<and>
    roster_map (snd (snd (bus_roster_unregister r 5))) 5 = None"
proof -
  let ?r = "snd (snd (bus_roster_register roster0 5 0xAB 2))"
  have acc: "roster_accepts roster0 5" by (rule roster_accepts_roster0 [OF addr_valid_5])
  have inv: "roster_inv ?r" by (rule roster_inv_register [OF roster_inv_roster0])
  have m: "roster_map ?r 5 \<noteq> None"
    by (simp add: roster_map_register [OF roster_inv_roster0 acc])
  obtain found n r' where eq: "bus_roster_unregister ?r 5 = (found, n, r')"
    by (metis prod_cases3)
  show ?thesis
    using bus_roster_unregister_refines [OF inv eq] eq inv m by (intro exI [of _ ?r]) simp
qed

text \<open>
  Whatever sequence of register and unregister requests the host sends, the roster stays
  consistent and the entry of a node no request names survives unchanged.
\<close>

theorem bus_roster_requests_frame:
  assumes "roster_inv r"
    and "\<And>c. c \<in> set cs \<Longrightarrow> case c of Tab_add k v \<Rightarrow> k \<noteq> a | Tab_del k \<Rightarrow> k \<noteq> a"
  shows "roster_inv (foldl rt.exec_op r cs) \<and>
    roster_lookup (foldl rt.exec_op r cs) a = roster_lookup r a"
  using rt.exec_ops_invar [OF assms(1)] rt.exec_ops_frame [OF assms] by blast

theorem bus_roster_requests_frame_witness:
  "roster_lookup (foldl rt.exec_op roster0 [Tab_add 3 (1, 2), Tab_del 3, Tab_add 4 (1, 0)]) 5 = None"
proof -
  let ?cs = "[Tab_add 3 (1, 2), Tab_del 3, Tab_add 4 (1, 0)] :: (u8, u32 \<times> u8) table_op list"
  have other: "case c of Tab_add k v \<Rightarrow> k \<noteq> 5 | Tab_del k \<Rightarrow> k \<noteq> 5" if "c \<in> set ?cs" for c
    using that by auto
  have "roster_lookup roster0 5 = None" by (simp add: roster_lookup_def)
  then show ?thesis
    using bus_roster_requests_frame [OF roster_inv_roster0, of ?cs 5] other by metis
qed

section \<open>Round-robin order\<close>

definition rr_slots :: "nat \<Rightarrow> nat list" where
  "rr_slots c = map (\<lambda>step. (c + step) mod BUS_ROSTER_MAX) [0..<BUS_ROSTER_MAX]"

text \<open>The enabled slots in the order a scan that starts at \<open>c\<close> meets them.\<close>

definition rr_order :: "roster \<Rightarrow> u8 \<Rightarrow> nat list" where
  "rr_order r c = filter (\<lambda>i. slave_enabled (g_roster r ! i)) (rr_slots (unat c))"

fun rr_run :: "roster \<Rightarrow> nat \<Rightarrow> u8 \<Rightarrow> nat option list" where
  "rr_run r 0 c = []"
| "rr_run r (Suc n) c = (case bus_roster_next_enabled r c of (i, c') \<Rightarrow> i # rr_run r n c')"

lemma rr_slots_rotate: "rr_slots c = rotate c [0..<BUS_ROSTER_MAX]"
  by (rule nth_equalityI) (simp_all add: rr_slots_def nth_rotate BUS_ROSTER_MAX_def)

lemma find_conv_filter: "find P xs = (case filter P xs of [] \<Rightarrow> None | x # _ \<Rightarrow> Some x)"
  by (induction xs) auto

lemma next_enabled_hd:
  "bus_roster_next_enabled r c =
     (case rr_order r c of [] \<Rightarrow> (None, c)
      | i # _ \<Rightarrow> (Some i, word_of_nat ((i + 1) mod BUS_ROSTER_MAX)))"
  by (simp add: bus_roster_next_enabled_def rr_order_def rr_slots_def find_conv_filter
      split: list.splits)

lemma unat_rr_cursor [simp]:
  "unat (word_of_nat ((i + 1) mod BUS_ROSTER_MAX) :: u8) = (i + 1) mod BUS_ROSTER_MAX"
proof -
  have "(i + 1) mod BUS_ROSTER_MAX < 256"
    by (rule order.strict_trans [OF mod_less_divisor]) (simp_all add: BUS_ROSTER_MAX_def)
  then show ?thesis by (simp add: unat_of_nat)
qed

lemma rr_order_next:
  assumes "rr_order r c = i # is"
  shows "rr_order r (word_of_nat ((i + 1) mod BUS_ROSTER_MAX)) = is @ [i]"
proof -
  let ?en = "\<lambda>i. slave_enabled (g_roster r ! i)"
  let ?ys = "rr_slots (unat c)"
  obtain us vs where ys: "?ys = us @ i # vs" "\<forall>u\<in>set us. \<not> ?en u" "?en i" "is = filter ?en vs"
    using assms unfolding rr_order_def filter_eq_Cons_iff by blast
  let ?k = "length us"
  have len: "length ?ys = BUS_ROSTER_MAX" by (simp add: rr_slots_def)
  have k: "?k < BUS_ROSTER_MAX" using len ys(1) by simp
  have "?ys ! ?k = i" by (simp add: ys(1))
  then have i: "i = (unat c + ?k) mod BUS_ROSTER_MAX" using k by (simp add: rr_slots_def)
  have "rr_slots ((i + 1) mod BUS_ROSTER_MAX) = rotate (i + 1) [0..<BUS_ROSTER_MAX]"
    unfolding rr_slots_rotate
    by (metis diff_zero length_upt rotate_conv_mod)
  also have "\<dots> = rotate (unat c + ?k + 1) [0..<BUS_ROSTER_MAX]"
    by (metis add_Suc_right i Suc_eq_plus1 diff_zero length_upt mod_Suc_eq rotate_conv_mod)
  also have "\<dots> = rotate (?k + 1) ?ys"
    unfolding rr_slots_rotate rotate_rotate by (simp add: add.commute)
  also have "\<dots> = vs @ us @ [i]"
    using rotate_append [of "us @ [i]" vs] by (simp add: ys(1))
  finally have "rr_slots ((i + 1) mod BUS_ROSTER_MAX) = vs @ us @ [i]" .
  moreover have "filter ?en us = []" using ys(2) by (simp add: filter_empty_conv)
  ultimately show ?thesis
    unfolding rr_order_def unat_rr_cursor using ys(3,4) by simp
qed

lemma set_rr_order:
  "set (rr_order r c) = {i. i < BUS_ROSTER_MAX \<and> slave_enabled (g_roster r ! i)}"
  by (auto simp: rr_order_def rr_slots_rotate)

lemma distinct_rr_order: "distinct (rr_order r c)"
  by (simp add: rr_order_def rr_slots_rotate)

lemma rr_run_cycle:
  assumes "rr_order r c = os" "os \<noteq> []"
  shows "rr_run r n c = map (\<lambda>k. Some (os ! (k mod length os))) [0..<n]"
  using assms
proof (induction n arbitrary: c os)
  case 0
  then show ?case by simp
next
  case (Suc n)
  obtain i is' where os: "os = i # is'" using Suc.prems(2) by (cases os) auto
  let ?c = "word_of_nat ((i + 1) mod BUS_ROSTER_MAX) :: u8"
  have "rr_order r ?c = rotate1 os"
    using rr_order_next [of r c i is'] Suc.prems(1) os by simp
  then have "rr_run r n ?c = map (\<lambda>k. Some (rotate1 os ! (k mod length os))) [0..<n]"
    using Suc.IH [of ?c "rotate1 os"] Suc.prems(2) by simp
  also have "\<dots> = map (\<lambda>k. Some (os ! (Suc k mod length os))) [0..<n]"
    using Suc.prems(2) by (simp add: nth_rotate1 mod_Suc_eq)
  finally have "rr_run r n ?c = map (\<lambda>k. Some (os ! (Suc k mod length os))) [0..<n]" .
  moreover have "rr_run r (Suc n) c = Some i # rr_run r n ?c"
    by (simp only: rr_run.simps next_enabled_hd Suc.prems(1) os list.case prod.case)
  moreover have "[0..<Suc n] = 0 # map Suc [0..<n]" by (simp add: map_Suc_upt upt_conv_Cons)
  ultimately show ?case by (simp add: os del: upt_Suc)
qed

text \<open>
  C20. The round robin is fair: from any cursor, the first \<open>N\<close> grants, \<open>N\<close> being the number of
  enabled nodes, serve every enabled slot exactly once, and the \<open>k\<close>-th grant serves the same slot
  as the \<open>k mod N\<close>-th, forever.
\<close>

theorem bus_roster_round_robin_fair:
  assumes "\<exists>i<BUS_ROSTER_MAX. slave_enabled (g_roster r ! i)"
  shows "\<exists>os. distinct os \<and> set os = {i. i < BUS_ROSTER_MAX \<and> slave_enabled (g_roster r ! i)} \<and>
    (\<forall>n. rr_run r n c = map (\<lambda>k. Some (os ! (k mod length os))) [0..<n])"
proof -
  have "set (rr_order r c) \<noteq> {}" unfolding set_rr_order using assms by blast
  then have "rr_order r c \<noteq> []" by (metis set_empty)
  then have "rr_run r n c = map (\<lambda>k. Some (rr_order r c ! (k mod length (rr_order r c)))) [0..<n]" for n
    by (rule rr_run_cycle [OF refl])
  then show ?thesis using distinct_rr_order set_rr_order by blast
qed

theorem bus_roster_round_robin_fair_witness:
  "\<exists>os. set os = {i. i < BUS_ROSTER_MAX \<and> slave_enabled
      (g_roster (snd (snd (bus_roster_register roster0 5 0xAB 2))) ! i)} \<and>
    rr_run (snd (snd (bus_roster_register roster0 5 0xAB 2))) 2 9
      = map (\<lambda>k. Some (os ! (k mod length os))) [0..<2]"
proof -
  let ?r = "snd (snd (bus_roster_register roster0 5 0xAB 2))"
  have "roster_map ?r 5 = Some (fresh_slave 5 0xAB 2)"
    using roster_map_register(1) [OF roster_inv_roster0 roster_accepts_roster0 [OF addr_valid_5]]
    by simp
  then obtain i where "i < BUS_ROSTER_MAX" "g_roster ?r ! i = fresh_slave 5 0xAB 2"
    using roster_map_Some_iff [OF roster_inv_register [OF roster_inv_roster0]] by blast
  then have "\<exists>i<BUS_ROSTER_MAX. slave_enabled (g_roster ?r ! i)"
    by (intro exI [of _ i]) (simp add: slave_enabled_def BUS_FLAG_ENABLED_def)
  then show ?thesis using bus_roster_round_robin_fair [of ?r 9] by blast
qed

end
