(* ===== verification/Bus_Sched.thy ===== *)
theory Bus_Sched
  imports Bus_Roster "HOL-Library.Multiset"
begin

text \<open>
  The bus controller's arbiter (\<^verbatim>\<open>src/core/bus_sched.c\<close>): the pool of frames that wait for a
  grant and one grant slot per tick.  The statics \<open>g_txq\<close>, \<open>g_cursor\<close>, \<open>g_next_seq\<close> are the
  record \<open>sched\<close>; what a tick asks of the PHY seam (\<^verbatim>\<open>bus_phy.h\<close>) is a list of \<open>phy_act\<close>.  A
  payload argument is the list of the bytes the pointer addresses; callers pass at least \<open>len\<close>
  of them.
\<close>

section \<open>The frame pool and the grant slot\<close>

definition SCHED_TXQ_PER_NODE :: nat where "SCHED_TXQ_PER_NODE = 4"
definition SCHED_TXQ_LEN :: nat where "SCHED_TXQ_LEN = BUS_ROSTER_MAX * SCHED_TXQ_PER_NODE"

record sched_txq_slot =
  q_frame :: bus_frame
  q_tcp :: bool
  q_in_use :: bool

record sched =
  g_txq :: "sched_txq_slot list"
  g_cursor :: u8
  g_next_seq :: u8

datatype phy_act = Phy_rx_flush | Phy_send_words "u16 list"

definition bus_sched_init :: "sched \<Rightarrow> sched" where
  "bus_sched_init s =
     s\<lparr>g_txq := map (\<lambda>q. q\<lparr>q_in_use := False\<rparr>) (g_txq s), g_cursor := 0, g_next_seq := 1\<rparr>"

text \<open>\<open>for b < len: dst[b] = src[b]\<close>\<close>

definition copy_bytes :: "u8 list \<Rightarrow> u8 list \<Rightarrow> nat \<Rightarrow> u8 list" where
  "copy_bytes dst src n = take n src @ drop n dst"

definition bus_sched_queue_tx :: "sched \<Rightarrow> u8 \<Rightarrow> u8 \<Rightarrow> u8 list \<Rightarrow> u8 \<Rightarrow> bool \<Rightarrow> bool \<times> sched" where
  "bus_sched_queue_tx s dest ty payload len tcp =
     (if unat len > BUS_PAYLOAD_MAX then (False, s)
      else (case find_idx (\<lambda>q. \<not> q_in_use q) (g_txq s) of
        None \<Rightarrow> (False, s)
      | Some i \<Rightarrow>
          (let f = \<lparr>f_dest = dest, f_src = BUS_ADDR_MASTER, f_type = ty,
                    f_seq = (if tcp then g_next_seq s else 0), f_len = len,
                    f_payload = copy_bytes (f_payload (q_frame (g_txq s ! i))) payload (unat len)\<rparr>
           in (True, s\<lparr>g_txq := (g_txq s)[i := \<lparr>q_frame = f, q_tcp = tcp, q_in_use = True\<rparr>],
                       g_next_seq := (if tcp then g_next_seq s + 1 else g_next_seq s)\<rparr>))))"

definition txq_take :: "sched \<Rightarrow> u8 \<Rightarrow> nat option" where
  "txq_take s dest = find_idx (\<lambda>q. q_in_use q \<and> f_dest (q_frame q) = dest) (g_txq s)"

definition poll_frame :: "u8 \<Rightarrow> bus_frame" where
  "poll_frame addr = \<lparr>f_dest = addr, f_src = BUS_ADDR_MASTER, f_type = BUS_FT_POLL, f_seq = 0,
     f_len = 0, f_payload = replicate BUS_PAYLOAD_MAX 0\<rparr>"

definition bus_sched_tick :: "roster \<Rightarrow> sched \<Rightarrow> u8 \<times> phy_act list \<times> sched" where
  "bus_sched_tick r s =
     (case bus_roster_next_enabled r (g_cursor s) of
        (None, c) \<Rightarrow> (0, [], s\<lparr>g_cursor := c\<rparr>)
      | (Some n, c) \<Rightarrow>
          (let s1 = s\<lparr>g_cursor := c\<rparr>; addr = s_addr (g_roster r ! n) in
           case txq_take s1 addr of
             Some i \<Rightarrow>
               (let q = g_txq s1 ! i in
                (addr, [Phy_rx_flush, Phy_send_words (bus_frame_encode (q_frame q))],
                 s1\<lparr>g_txq := (g_txq s1)[i := q\<lparr>q_in_use := False\<rparr>]\<rparr>))
           | None \<Rightarrow>
               (addr, [Phy_rx_flush, Phy_send_words (bus_frame_encode (poll_frame addr))], s1)))"

text \<open>The default hook for frames addressed to the controller: what is handed to the uplink.\<close>

definition bus_sched_on_node_to_master :: "bus_frame \<Rightarrow> u8 \<times> u8 list \<times> u8" where
  "bus_sched_on_node_to_master f = (f_src f, f_payload f, f_len f)"

section \<open>Invariant and abstraction\<close>

definition sched_inv :: "sched \<Rightarrow> bool" where [inv_defs]:
  "sched_inv s \<longleftrightarrow> length (g_txq s) = SCHED_TXQ_LEN \<and>
     (\<forall>q\<in>set (g_txq s). length (f_payload (q_frame q)) = BUS_PAYLOAD_MAX \<and>
        (q_in_use q \<longrightarrow> frame_wf (q_frame q) \<and> f_src (q_frame q) = BUS_ADDR_MASTER))"

text \<open>What waits for a node, in the order the pool is scanned.\<close>

definition pending_for :: "sched \<Rightarrow> u8 \<Rightarrow> bus_frame list" where
  "pending_for s a = map q_frame (filter (\<lambda>q. q_in_use q \<and> f_dest (q_frame q) = a) (g_txq s))"

lemma length_copy_bytes [simp]:
  "n \<le> length src \<Longrightarrow> length (copy_bytes dst src n) = n + (length dst - n)"
  by (simp add: copy_bytes_def)

lemma take_copy_bytes [simp]: "n \<le> length src \<Longrightarrow> take n (copy_bytes dst src n) = take n src"
  by (simp add: copy_bytes_def)

lemma sched_inv_update:
  assumes "sched_inv s" "length (f_payload (q_frame q)) = BUS_PAYLOAD_MAX"
    "q_in_use q \<Longrightarrow> frame_wf (q_frame q) \<and> f_src (q_frame q) = BUS_ADDR_MASTER"
  shows "sched_inv (s\<lparr>g_txq := (g_txq s)[i := q], g_next_seq := n\<rparr>)"
    and "sched_inv (s\<lparr>g_txq := (g_txq s)[i := q]\<rparr>)"
  using assms set_update_subset_insert [of "g_txq s" i q] unfolding sched_inv_def
  by (simp_all, blast+)

lemma sched_inv_cursor [simp]: "sched_inv (s\<lparr>g_cursor := c\<rparr>) = sched_inv s"
  by (simp add: sched_inv_def)

lemma sched_inv_slot:
  assumes "sched_inv s" "i < length (g_txq s)"
  shows "length (f_payload (q_frame (g_txq s ! i))) = BUS_PAYLOAD_MAX"
    and "q_in_use (g_txq s ! i) \<Longrightarrow> frame_wf (q_frame (g_txq s ! i))"
    and "q_in_use (g_txq s ! i) \<Longrightarrow> f_src (q_frame (g_txq s ! i)) = BUS_ADDR_MASTER"
  using assms nth_mem [of i "g_txq s"] unfolding sched_inv_def by blast+

lemma sched_inv_init:
  assumes "length (g_txq s) = SCHED_TXQ_LEN"
    "\<forall>q\<in>set (g_txq s). length (f_payload (q_frame q)) = BUS_PAYLOAD_MAX"
  shows "sched_inv (bus_sched_init s)"
  using assms by (simp add: sched_inv_def bus_sched_init_def)

lemma sched_inv_queue_tx:
  assumes "sched_inv s" "unat len \<le> length payload"
  shows "sched_inv (snd (bus_sched_queue_tx s dest ty payload len tcp))"
proof (cases "unat len > BUS_PAYLOAD_MAX \<or> find_idx (\<lambda>q. \<not> q_in_use q) (g_txq s) = None")
  case True
  then show ?thesis using assms(1) by (auto simp: bus_sched_queue_tx_def)
next
  case False
  then obtain i where i: "find_idx (\<lambda>q. \<not> q_in_use q) (g_txq s) = Some i" by auto
  have "i < length (g_txq s)" using find_idx_SomeD [OF i] by simp
  then have "length (f_payload (q_frame (g_txq s ! i))) = BUS_PAYLOAD_MAX"
    by (rule sched_inv_slot(1) [OF assms(1)])
  with False assms i show ?thesis
    by (simp add: bus_sched_queue_tx_def Let_def) (intro conjI impI; rule sched_inv_update; simp add: frame_wf_def)
qed

lemma mset_filter_insert:
  assumes "i < length xs" "\<not> P (xs ! i)" "P x"
  shows "mset (filter P (xs[i := x])) = mset (filter P xs) + {#x#}"
proof -
  have "filter P (xs[i := x]) = filter P (take i xs) @ x # filter P (drop (Suc i) xs)"
    using assms(1,3) by (simp add: upd_conv_take_nth_drop)
  moreover have "filter P xs = filter P (take i xs) @ filter P (drop (Suc i) xs)"
    using assms(2) by (subst id_take_nth_drop [OF assms(1)]) simp
  ultimately show ?thesis by simp
qed

definition tx_frame :: "u8 \<Rightarrow> u8 \<Rightarrow> u8 \<Rightarrow> u8 \<Rightarrow> u8 list \<Rightarrow> u8 list" where
  "tx_frame dest ty seq len payload =
     [dest, BUS_ADDR_MASTER, ty, seq, len] @ take (unat len) payload"

lemma queue_tx_cases:
  assumes "sched_inv s" "unat len \<le> length payload"
    "bus_sched_queue_tx s dest ty payload len tcp = (ok, s')"
  obtains (refused) "\<not> ok" "s' = s" "unat len > BUS_PAYLOAD_MAX \<or> list_all q_in_use (g_txq s)"
  | (queued) i f where "ok" "unat len \<le> BUS_PAYLOAD_MAX" "i < length (g_txq s)"
      "\<not> q_in_use (g_txq s ! i)" "f_dest f = dest"
      "frame_bytes f = tx_frame dest ty (if tcp then g_next_seq s else 0) len payload"
      "s' = s\<lparr>g_txq := (g_txq s)[i := \<lparr>q_frame = f, q_tcp = tcp, q_in_use = True\<rparr>],
              g_next_seq := (if tcp then g_next_seq s + 1 else g_next_seq s)\<rparr>"
proof (cases "unat len > BUS_PAYLOAD_MAX \<or> find_idx (\<lambda>q. \<not> q_in_use q) (g_txq s) = None")
  case True
  then have "unat len > BUS_PAYLOAD_MAX \<or> list_all q_in_use (g_txq s)"
    by (auto simp: find_idx_None_set list_all_iff)
  moreover have "\<not> ok" "s' = s" using assms(3) True by (auto simp: bus_sched_queue_tx_def split: if_splits)
  ultimately show thesis using refused by blast
next
  case False
  then obtain i where i: "find_idx (\<lambda>q. \<not> q_in_use q) (g_txq s) = Some i" by auto
  have nl: "\<not> unat len > BUS_PAYLOAD_MAX" using False by simp
  let ?f = "\<lparr>f_dest = dest, f_src = BUS_ADDR_MASTER, f_type = ty,
              f_seq = (if tcp then g_next_seq s else 0), f_len = len,
              f_payload = copy_bytes (f_payload (q_frame (g_txq s ! i))) payload (unat len)\<rparr>"
  have eq: "(ok, s') = (True, s\<lparr>g_txq := (g_txq s)[i := \<lparr>q_frame = ?f, q_tcp = tcp, q_in_use = True\<rparr>],
              g_next_seq := (if tcp then g_next_seq s + 1 else g_next_seq s)\<rparr>)"
    using assms(3) nl by (simp only: bus_sched_queue_tx_def Let_def i if_False option.case)
  show thesis
    by (rule queued [of i ?f])
       (use eq False find_idx_SomeD [OF i] assms(2) in \<open>simp_all add: frame_bytes_def tx_frame_def\<close>)
qed

section \<open>Ticks\<close>

text \<open>The frame one grant to address \<open>a\<close> puts on the wire.\<close>

definition grant_frame :: "sched \<Rightarrow> u8 \<Rightarrow> bus_frame" where
  "grant_frame s a = (case pending_for s a of [] \<Rightarrow> poll_frame a | f # _ \<Rightarrow> f)"

lemma frame_wf_poll [simp]: "frame_wf (poll_frame a)" "f_dest (poll_frame a) = a"
  by (simp_all add: poll_frame_def frame_wf_def)

lemma pending_for_mem:
  assumes "sched_inv s" "f \<in> set (pending_for s a)"
  shows "frame_wf f \<and> f_dest f = a \<and> f_src f = BUS_ADDR_MASTER"
  using assms unfolding sched_inv_def pending_for_def by auto

lemma grant_frame_wf:
  assumes "sched_inv s"
  shows "frame_wf (grant_frame s a)" "f_dest (grant_frame s a) = a"
    "f_src (grant_frame s a) = BUS_ADDR_MASTER"
proof -
  have "frame_wf (grant_frame s a) \<and> f_dest (grant_frame s a) = a
      \<and> f_src (grant_frame s a) = BUS_ADDR_MASTER"
  proof (cases "pending_for s a")
    case Nil
    then show ?thesis by (simp add: grant_frame_def) (simp add: poll_frame_def)
  next
    case (Cons f fs)
    then show ?thesis using pending_for_mem [OF assms, of f a] by (simp add: grant_frame_def)
  qed
  then show "frame_wf (grant_frame s a)" "f_dest (grant_frame s a) = a"
    "f_src (grant_frame s a) = BUS_ADDR_MASTER" by blast+
qed

lemma pending_cursor [simp]: "pending_for (s\<lparr>g_cursor := c\<rparr>) = pending_for s"
  by (simp add: pending_for_def fun_eq_iff)

lemma take_slot:
  assumes "txq_take s a = Some i"
  defines "s' \<equiv> s\<lparr>g_txq := (g_txq s)[i := (g_txq s ! i)\<lparr>q_in_use := False\<rparr>]\<rparr>"
  shows "pending_for s' a = tl (pending_for s a)" "pending_for s a \<noteq> []"
    "hd (pending_for s a) = q_frame (g_txq s ! i)"
    "b \<noteq> a \<Longrightarrow> pending_for s' b = pending_for s b"
proof -
  let ?P = "\<lambda>q. q_in_use q \<and> f_dest (q_frame q) = a"
  have i: "find_idx ?P (g_txq s) = Some i" using assms(1) by (simp add: txq_take_def)
  note f = filter_update_first [OF i, of "(g_txq s ! i)\<lparr>q_in_use := False\<rparr>"]
  show "pending_for s' a = tl (pending_for s a)"
    using f(1) by (simp add: pending_for_def s'_def map_tl)
  show "pending_for s a \<noteq> []" using f(3) by (simp add: pending_for_def)
  show "hd (pending_for s a) = q_frame (g_txq s ! i)"
    using f(2,3) by (simp add: pending_for_def hd_map)
  have at: "?P (g_txq s ! i)" using find_idx_SomeD [OF i] by simp
  show "pending_for s' b = pending_for s b" if "b \<noteq> a"
    using at that by (simp add: pending_for_def s'_def filter_update_other)
qed

lemma tick_idle:
  assumes "bus_roster_next_enabled r (g_cursor s) = (None, c)"
  shows "bus_sched_tick r s = (0, [], s\<lparr>g_cursor := c\<rparr>)"
  by (simp add: bus_sched_tick_def assms)

lemma tick_serve:
  assumes inv: "sched_inv s" and nx: "bus_roster_next_enabled r (g_cursor s) = (Some n, c)"
  defines "a \<equiv> s_addr (g_roster r ! n)"
  shows "\<exists>s'. bus_sched_tick r s =
      (a, [Phy_rx_flush, Phy_send_words (bus_frame_encode (grant_frame s a))], s') \<and>
    sched_inv s' \<and> g_cursor s' = c \<and> pending_for s' a = tl (pending_for s a) \<and>
    (\<forall>b. b \<noteq> a \<longrightarrow> pending_for s' b = pending_for s b)"
proof (cases "txq_take (s\<lparr>g_cursor := c\<rparr>) a")
  case None
  then have "pending_for s a = []"
    by (simp add: txq_take_def find_idx_None_set pending_for_def filter_empty_conv)
  then show ?thesis
    using None inv by (simp add: bus_sched_tick_def nx a_def [symmetric] grant_frame_def Let_def)
next
  case (Some i)
  let ?s1 = "s\<lparr>g_cursor := c\<rparr>"
  let ?s' = "?s1\<lparr>g_txq := (g_txq ?s1)[i := (g_txq ?s1 ! i)\<lparr>q_in_use := False\<rparr>]\<rparr>"
  have "i < length (g_txq ?s1)" using Some find_idx_SomeD unfolding txq_take_def by blast
  then have "sched_inv ?s'"
    using inv by (intro sched_inv_update(2)) (simp_all add: sched_inv_slot(1))
  moreover have "grant_frame s a = q_frame (g_txq ?s1 ! i)"
    using take_slot(2,3) [OF Some] by (cases "pending_for s a") (simp_all add: grant_frame_def)
  then have "bus_sched_tick r s =
      (a, [Phy_rx_flush, Phy_send_words (bus_frame_encode (grant_frame s a))], ?s')"
    by (simp add: bus_sched_tick_def nx a_def [symmetric] Some Let_def)
  ultimately show ?thesis using take_slot(1,4) [OF Some] by (intro exI [of _ ?s']) simp
qed

lemma pending_update:
  assumes "i < length (g_txq s)" "\<not> q_in_use (g_txq s ! i)" "f_dest f = d"
    and s': "s' = s\<lparr>g_txq := (g_txq s)[i := \<lparr>q_frame = f, q_tcp = t, q_in_use = True\<rparr>], g_next_seq := n\<rparr>"
  shows "mset (pending_for s' d) = mset (pending_for s d) + {#f#}"
    and "b \<noteq> d \<Longrightarrow> pending_for s' b = pending_for s b"
proof -
  let ?q = "\<lparr>q_frame = f, q_tcp = t, q_in_use = True\<rparr>"
  have "mset (filter (\<lambda>q. q_in_use q \<and> f_dest (q_frame q) = d) ((g_txq s)[i := ?q]))
      = mset (filter (\<lambda>q. q_in_use q \<and> f_dest (q_frame q) = d) (g_txq s)) + {#?q#}"
    by (rule mset_filter_insert) (use assms(1-3) in simp_all)
  then show "mset (pending_for s' d) = mset (pending_for s d) + {#f#}"
    by (simp add: pending_for_def s')
  show "pending_for s' b = pending_for s b" if "b \<noteq> d"
    using that assms(2,3) by (simp add: pending_for_def s' filter_update_other)
qed

lemma enabled_addr:
  assumes "roster_inv r" "bus_roster_next_enabled r c = (Some n, c')"
  shows "n < BUS_ROSTER_MAX" "slave_enabled (g_roster r ! n)" "s_addr (g_roster r ! n) < 0x80"
    "s_addr (g_roster r ! n) \<noteq> 0"
proof -
  obtain os where os: "rr_order r c = n # os"
    using assms(2) by (cases "rr_order r c") (auto simp: next_enabled_hd)
  then have "n \<in> set (rr_order r c)" by simp
  then show n: "n < BUS_ROSTER_MAX" "slave_enabled (g_roster r ! n)"
    by (simp_all add: set_rr_order)
  then have "addr_valid (s_addr (g_roster r ! n))"
    using roster_inv_valid [OF assms(1)] by (simp add: slave_enabled_def occupied_def)
  then show "s_addr (g_roster r ! n) < 0x80" "s_addr (g_roster r ! n) \<noteq> 0"
    by (simp_all add: addr_valid_nz) (simp add: addr_valid_def BUS_ADDR_SLAVE_MAX_def word_le_nat_alt word_less_nat_alt)
qed

text \<open>The scheduler task: a run of \<open>n\<close> ticks with no request in between.\<close>

fun sched_run :: "roster \<Rightarrow> nat \<Rightarrow> sched \<Rightarrow> (u8 \<times> phy_act list) list \<times> sched" where
  "sched_run r 0 s = ([], s)"
| "sched_run r (Suc n) s =
     (case bus_sched_tick r s of (addr, acts, s') \<Rightarrow>
        (case sched_run r n s' of (out, s'') \<Rightarrow> ((addr, acts) # out, s'')))"

definition served :: "roster \<Rightarrow> nat option list \<Rightarrow> u8 \<Rightarrow> nat" where
  "served r is a = length (filter (\<lambda>i. i \<noteq> None \<and> s_addr (g_roster r ! the i) = a) is)"

lemma sched_run_pending:
  assumes "sched_inv s" "rr_order r (g_cursor s) \<noteq> []"
  shows "sched_inv (snd (sched_run r n s)) \<and>
    pending_for (snd (sched_run r n s)) a = drop (served r (rr_run r n (g_cursor s)) a) (pending_for s a)"
  using assms
proof (induction n arbitrary: s)
  case 0
  then show ?case by (simp add: served_def)
next
  case (Suc n)
  obtain i os where os: "rr_order r (g_cursor s) = i # os" using Suc.prems(2) by (meson neq_Nil_conv)
  define c where "c = (word_of_nat ((i + 1) mod BUS_ROSTER_MAX) :: u8)"
  have nx: "bus_roster_next_enabled r (g_cursor s) = (Some i, c)"
    by (simp only: next_enabled_hd os list.case c_def)
  let ?a = "s_addr (g_roster r ! i)"
  obtain s' acts where t: "bus_sched_tick r s = (?a, acts, s')" "sched_inv s'" "g_cursor s' = c"
    "pending_for s' ?a = tl (pending_for s ?a)"
    "\<forall>b. b \<noteq> ?a \<longrightarrow> pending_for s' b = pending_for s b"
    using tick_serve [OF Suc.prems(1) nx] by blast
  have "rr_order r c = os @ [i]" using rr_order_next [OF os] by (simp add: c_def)
  then have "rr_order r (g_cursor s') \<noteq> []" using t(3) by simp
  then have IH: "sched_inv (snd (sched_run r n s')) \<and>
      pending_for (snd (sched_run r n s')) a = drop (served r (rr_run r n c) a) (pending_for s' a)"
    using Suc.IH [OF t(2)] t(3) by simp
  have run: "snd (sched_run r (Suc n) s) = snd (sched_run r n s')"
    by (simp add: t(1) split: prod.splits)
  have "rr_run r (Suc n) (g_cursor s) = Some i # rr_run r n c" by (simp add: nx)
  then have "served r (rr_run r (Suc n) (g_cursor s)) a =
      (if ?a = a then Suc (served r (rr_run r n c) a) else served r (rr_run r n c) a)"
    by (simp add: served_def)
  then show ?case using IH run t(4,5) by (auto simp: drop_Suc)
qed

lemma served_rounds:
  assumes inv: "roster_inv r" and i: "i < BUS_ROSTER_MAX" "slave_enabled (g_roster r ! i)"
  shows "served r (rr_run r (length (rr_order r c) * m) c) (s_addr (g_roster r ! i)) = m"
proof -
  let ?os = "rr_order r c" and ?a = "s_addr (g_roster r ! i)"
  have mem: "i \<in> set ?os" using i by (simp add: set_rr_order)
  then have ne: "?os \<noteq> []" by auto
  have "filter (\<lambda>j. s_addr (g_roster r ! j) = ?a) ?os = filter (\<lambda>j. j = i) ?os"
  proof (rule filter_cong [OF refl])
    fix j assume "j \<in> set ?os"
    then have "j < BUS_ROSTER_MAX" "occupied (g_roster r ! j)"
      by (simp_all add: set_rr_order slave_enabled_def occupied_def)
    then show "s_addr (g_roster r ! j) = ?a \<longleftrightarrow> j = i"
      using roster_inv_inj [OF inv _ i(1)] by blast
  qed
  then have one: "length (filter (\<lambda>j. s_addr (g_roster r ! j) = ?a) ?os) = 1"
    using mem distinct_rr_order [of r c] by (simp add: distinct_length_filter)
  have "rr_run r (length ?os * m) c = map Some (map (\<lambda>k. ?os ! (k mod length ?os)) [0..<length ?os * m])"
    using rr_run_cycle [OF refl ne] by simp
  then have "served r (rr_run r (length ?os * m) c) ?a =
      length (filter (\<lambda>j. s_addr (g_roster r ! j) = ?a) (map (\<lambda>k. ?os ! (k mod length ?os)) [0..<length ?os * m]))"
    by (simp add: served_def filter_map comp_def)
  also have "\<dots> = m" using count_list_cycle [OF ne, of _ m] one by simp
  finally show ?thesis .
qed

lemma pending_length: "sched_inv s \<Longrightarrow> length (pending_for s a) \<le> SCHED_TXQ_LEN"
  using length_filter_le [of "\<lambda>q. q_in_use q \<and> f_dest (q_frame q) = a" "g_txq s"]
  by (simp add: pending_for_def sched_inv_def)

section \<open>Properties of the arbiter\<close>

definition sched0 :: sched where
  "sched0 = \<lparr>g_txq = replicate SCHED_TXQ_LEN
     \<lparr>q_frame = poll_frame 0, q_tcp = False, q_in_use = False\<rparr>, g_cursor = 0, g_next_seq = 1\<rparr>"

lemma sched_inv_sched0: "sched_inv sched0"
  by (auto simp: sched0_def sched_inv_def poll_frame_def)

text \<open>
  Queueing is all or nothing: it fails, leaving the state alone, exactly when the payload
  exceeds 240 bytes or all 128 pool slots are taken; otherwise exactly one frame with the given
  header (source 0, a fresh sequence number when reliable) and payload is added to what waits for
  the destination, and nothing waiting for any other node changes.
\<close>

theorem bus_sched_queue_tx_spec:
  assumes "sched_inv s" and "unat len \<le> length payload"
    and "bus_sched_queue_tx s dest ty payload len tcp = (ok, s')"
  shows "sched_inv s' \<and>
    (ok \<longleftrightarrow> unat len \<le> BUS_PAYLOAD_MAX \<and> \<not> list_all q_in_use (g_txq s)) \<and>
    (\<not> ok \<longrightarrow> s' = s) \<and>
    (ok \<longrightarrow> (\<exists>f. frame_bytes f = tx_frame dest ty (if tcp then g_next_seq s else 0) len payload \<and>
        mset (pending_for s' dest) = mset (pending_for s dest) + {#f#}) \<and>
      (\<forall>b. b \<noteq> dest \<longrightarrow> pending_for s' b = pending_for s b) \<and>
      g_next_seq s' = (if tcp then g_next_seq s + 1 else g_next_seq s))"
proof -
  have inv': "sched_inv s'" using sched_inv_queue_tx [OF assms(1,2), of dest ty tcp] assms(3) by simp
  show ?thesis
    using assms
  proof (cases rule: queue_tx_cases)
    case refused
    then show ?thesis using inv' by auto
  next
    case (queued i f)
    have "\<not> list_all q_in_use (g_txq s)"
      using queued(3,4) by (auto simp: list_all_length)
    then show ?thesis
      using queued inv' pending_update [OF queued(3,4,5,7)] by auto
  qed
qed

theorem bus_sched_queue_tx_spec_witness:
  "fst (bus_sched_queue_tx sched0 5 BUS_FT_DATA [1, 2, 3] 3 True) \<and>
   (\<exists>f. frame_bytes f = tx_frame 5 BUS_FT_DATA 1 3 [1, 2, 3] \<and>
     mset (pending_for (snd (bus_sched_queue_tx sched0 5 BUS_FT_DATA [1, 2, 3] 3 True)) 5)
       = mset (pending_for sched0 5) + {#f#})"
proof -
  obtain ok s' where eq: "bus_sched_queue_tx sched0 5 BUS_FT_DATA [1, 2, 3] 3 True = (ok, s')"
    by force
  have "\<not> list_all q_in_use (g_txq sched0)" "g_next_seq sched0 = 1"
    by (simp_all add: sched0_def SCHED_TXQ_LEN_def SCHED_TXQ_PER_NODE_def BUS_ROSTER_MAX_def
        list_all_iff)
  then show ?thesis
    using bus_sched_queue_tx_spec [OF sched_inv_sched0 _ eq] eq by (auto simp: BUS_PAYLOAD_MAX_def)
qed

text \<open>
  Every tick is one well-formed grant.  With no enabled node the bus stays silent.  Otherwise
  the tick flushes RX and then sends the words of exactly one frame from the master: the first
  waiting frame of the served node (which then no longer waits) or a POLL; the served node's idle
  receiver reassembles precisely that frame, every other node's receiver returns nothing, and
  what waits for other nodes is untouched.
\<close>

theorem bus_sched_tick_grants:
  assumes "roster_inv r" and "sched_inv s" and "bus_sched_tick r s = (addr, acts, s')"
  shows "sched_inv s' \<and>
    (if rr_order r (g_cursor s) = [] then addr = 0 \<and> acts = [] \<and> s' = s
     else roster_map r addr = Some (g_roster r ! hd (rr_order r (g_cursor s))) \<and>
       pending_for s' addr = tl (pending_for s addr) \<and>
       (\<forall>b. b \<noteq> addr \<longrightarrow> pending_for s' b = pending_for s b) \<and>
       (\<exists>ws. acts = [Phy_rx_flush, Phy_send_words ws] \<and>
         (\<forall>a. asm_inv a \<longrightarrow> a_state a = BUS_ASM_IDLE \<longrightarrow> \<not> a_promiscuous a \<longrightarrow>
           map frame_bytes (fst (bus_asm_run a ws)) =
             (if a_my_addr a = addr then [frame_bytes (grant_frame s addr)]
              else if addr = BUS_ADDR_BROADCAST then [frame_bytes (grant_frame s addr)] else []))))"
proof (cases "rr_order r (g_cursor s)")
  case Nil
  then have "bus_roster_next_enabled r (g_cursor s) = (None, g_cursor s)" by (simp add: next_enabled_hd)
  then show ?thesis using assms(2,3) Nil by (simp add: tick_idle)
next
  case (Cons n os)
  define c where "c = (word_of_nat ((n + 1) mod BUS_ROSTER_MAX) :: u8)"
  have nx: "bus_roster_next_enabled r (g_cursor s) = (Some n, c)"
    by (simp only: next_enabled_hd Cons list.case c_def)
  let ?a = "s_addr (g_roster r ! n)"
  have t: "addr = ?a" "acts = [Phy_rx_flush, Phy_send_words (bus_frame_encode (grant_frame s ?a))]"
    "sched_inv s'" "pending_for s' ?a = tl (pending_for s ?a)"
    "\<forall>b. b \<noteq> ?a \<longrightarrow> pending_for s' b = pending_for s b"
    using tick_serve [OF assms(2) nx] assms(3) by auto
  have m: "roster_map r addr = Some (g_roster r ! n)"
    using enabled_addr [OF assms(1) nx] t(1) roster_map_Some_iff [OF assms(1)] by auto
  have dec: "map frame_bytes (fst (bus_asm_run a (bus_frame_encode (grant_frame s addr)))) =
      (if a_my_addr a = addr then [frame_bytes (grant_frame s addr)]
       else if addr = BUS_ADDR_BROADCAST then [frame_bytes (grant_frame s addr)] else [])"
    if a: "asm_inv a" "a_state a = BUS_ASM_IDLE" "\<not> a_promiscuous a" for a
  proof -
    note g = grant_frame_wf [OF assms(2), of addr]
    have lt: "addr < 0x80" using enabled_addr(3) [OF assms(1) nx] t(1) by simp
    have "\<exists>gs a'. bus_asm_run a (concat (map bus_frame_encode [grant_frame s addr])) = (gs, a') \<and>
        map frame_bytes gs = map frame_bytes (filter (\<lambda>f. addr_is_for_us a (f_dest f)) [grant_frame s addr])
        \<and> list_all frame_wf gs \<and> asm_inv a' \<and> a_state a' = BUS_ASM_IDLE"
      by (rule run_frames) (use g lt a in auto)
    then show ?thesis using a(3) g(2) by (auto simp: addr_is_for_us_def)
  qed
  show ?thesis using t m dec Cons by simp
qed

theorem bus_sched_tick_grants_witness:
  "\<exists>r addr acts s'. roster_map r addr \<noteq> None \<and> bus_sched_tick r sched0 = (addr, acts, s') \<and>
     (\<exists>ws. acts = [Phy_rx_flush, Phy_send_words ws])"
proof -
  let ?r = "snd (snd (bus_roster_register roster0 5 0xAB 2))"
  have inv: "roster_inv ?r" by (rule roster_inv_register [OF roster_inv_roster0])
  have "roster_map ?r 5 = Some (fresh_slave 5 0xAB 2)"
    using roster_map_register(1) [OF roster_inv_roster0 roster_accepts_roster0 [OF addr_valid_5]]
    by simp
  then obtain i where "i < BUS_ROSTER_MAX" "g_roster ?r ! i = fresh_slave 5 0xAB 2"
    using roster_map_Some_iff [OF inv] by blast
  then have "i \<in> set (rr_order ?r (g_cursor sched0))"
    by (simp add: set_rr_order slave_enabled_def BUS_FLAG_ENABLED_def)
  then have ne: "rr_order ?r (g_cursor sched0) \<noteq> []" by auto
  obtain addr acts s' where eq: "bus_sched_tick ?r sched0 = (addr, acts, s')" by (metis prod_cases3)
  then show ?thesis
    using bus_sched_tick_grants [OF inv sched_inv_sched0 eq] ne
    by (intro exI [of _ ?r] exI [of _ addr] exI [of _ acts] exI [of _ s']) auto
qed



end
