(* ===== verification/Bus_Node.thy ===== *)
theory Bus_Node
  imports Bus_Sched
begin

text \<open>
  The slave side of the bus (\<^verbatim>\<open>src/core/bus_node.c\<close>) and the command responder of the node role
  (\<^verbatim>\<open>src/node/node_role.c\<close>).  The application hook \<open>bus_node_on_data\<close>, which the linker binds, is an
  argument of \<open>bus_node_task\<close>; the words waiting in the PHY's RX ring are a list, the
  transmissions a list of \<open>phy_act\<close>.
\<close>

unbundle bit_operations_syntax

section \<open>State and operations\<close>

definition NODE_TXQ_LEN :: nat where "NODE_TXQ_LEN = 8"

record node_txq_slot =
  ns_frame :: bus_frame
  ns_in_use :: bool

record node =
  n_txq :: "node_txq_slot list"
  n_asm :: bus_asm
  n_my_addr :: u8

definition bus_node_init :: "node \<Rightarrow> u8 \<Rightarrow> node" where
  "bus_node_init n my_addr =
     n\<lparr>n_my_addr := my_addr, n_txq := map (\<lambda>q. q\<lparr>ns_in_use := False\<rparr>) (n_txq n),
       n_asm := bus_asm_init (n_asm n) my_addr False\<rparr>"

definition bus_node_queue :: "node \<Rightarrow> u8 \<Rightarrow> u8 \<Rightarrow> u8 list \<Rightarrow> u8 \<Rightarrow> bool \<times> node" where
  "bus_node_queue n dest ty payload len =
     (if unat len > BUS_PAYLOAD_MAX then (False, n)
      else (case find_idx (\<lambda>q. \<not> ns_in_use q) (n_txq n) of
        None \<Rightarrow> (False, n)
      | Some i \<Rightarrow>
          (let f = \<lparr>f_dest = dest, f_src = n_my_addr n, f_type = ty, f_seq = 0, f_len = len,
                    f_payload = copy_bytes (f_payload (ns_frame (n_txq n ! i))) payload (unat len)\<rparr>
           in (True, n\<lparr>n_txq := (n_txq n)[i := \<lparr>ns_frame = f, ns_in_use = True\<rparr>]\<rparr>))))"

definition short_frame :: "u8 \<Rightarrow> u8 \<Rightarrow> bus_frame" where
  "short_frame src ty = \<lparr>f_dest = BUS_ADDR_MASTER, f_src = src, f_type = ty, f_seq = 0, f_len = 0,
     f_payload = replicate BUS_PAYLOAD_MAX 0\<rparr>"

definition node_emit_ack :: "node \<Rightarrow> phy_act list" where
  "node_emit_ack n = [Phy_send_words (bus_frame_encode (short_frame (n_my_addr n) BUS_FT_ACK))]"

text \<open>The loop over the queue: every slot in use is sent and released.\<close>

fun emit_slots :: "node_txq_slot list \<Rightarrow> phy_act list \<times> node_txq_slot list" where
  "emit_slots [] = ([], [])"
| "emit_slots (q # qs) =
     (case emit_slots qs of (acts, qs') \<Rightarrow>
        if \<not> ns_in_use q then (acts, q # qs')
        else (Phy_send_words (bus_frame_encode (ns_frame q)) # acts, q\<lparr>ns_in_use := False\<rparr> # qs'))"

definition node_emit_window :: "node \<Rightarrow> phy_act list \<times> node" where
  "node_emit_window n =
     (case emit_slots (n_txq n) of (acts, qs) \<Rightarrow>
        (acts @ [Phy_send_words (bus_frame_encode (short_frame (n_my_addr n) BUS_FT_NO_MESSAGE))],
         n\<lparr>n_txq := qs\<rparr>))"

type_synonym on_data_hook = "u8 \<Rightarrow> u8 list \<Rightarrow> u8 \<Rightarrow> node \<Rightarrow> node"

definition node_on_frame :: "on_data_hook \<Rightarrow> bus_frame \<Rightarrow> node \<Rightarrow> phy_act list \<times> node" where
  "node_on_frame on_data f n =
     (let cls = f_type f AND BUS_FT_MASK in
      if cls = BUS_FT_DATA then
        (let n' = on_data (f_src f) (f_payload f) (f_len f) n in
         (if f_src f = BUS_ADDR_MASTER \<and> f_dest f = n_my_addr n' then node_emit_ack n' else [], n'))
      else if cls = BUS_FT_POLL \<and> f_dest f = n_my_addr n then node_emit_window n
      else ([], n))"

fun bus_node_task :: "on_data_hook \<Rightarrow> u16 list \<Rightarrow> node \<Rightarrow> phy_act list \<times> node" where
  "bus_node_task on_data [] n = ([], n)"
| "bus_node_task on_data (w # ws) n =
     (case bus_asm_feed (n_asm n) w of (r, a) \<Rightarrow>
        (let n1 = n\<lparr>n_asm := a\<rparr> in
         case r of
           None \<Rightarrow> bus_node_task on_data ws n1
         | Some f \<Rightarrow>
             (case node_on_frame on_data f n1 of (acts, n2) \<Rightarrow>
                (case bus_node_task on_data ws n2 of (acts', n3) \<Rightarrow> (acts @ acts', n3)))))"

text \<open>The weak default of the hook.\<close>

definition bus_node_on_data_weak :: on_data_hook where
  "bus_node_on_data_weak src payload len n = n"

section \<open>The node role's command responder\<close>

definition OP_SHELL_EXEC :: u16 where "OP_SHELL_EXEC = 0x0109"
definition OP_SHELL_REPLY :: u16 where "OP_SHELL_REPLY = 0x0011"
definition NODE_SHELL_UNKNOWN :: u8 where "NODE_SHELL_UNKNOWN = 1"

definition le16 :: "u8 \<Rightarrow> u8 \<Rightarrow> u16" where "le16 lo hi = ucast lo OR push_bit 8 (ucast hi)"
definition lo8 :: "u16 \<Rightarrow> u8" where "lo8 w = ucast (w AND 0xFF)"
definition hi8 :: "u16 \<Rightarrow> u8" where "hi8 w = ucast (drop_bit 8 w)"

text \<open>
  \<open>route src req cmd args\<close> is \<open>node_engine_try_route\<close>; \<open>dispatch cmd args cap src req\<close> is
  \<open>node_cmd_dispatch\<close> with the bus reply sink, returning the status and the output bytes.
  Both belong to other modules and are arguments here.
\<close>

definition SHELL_ASYNC :: u8 where "SHELL_ASYNC = 0xFE"
definition CMD_NOT_MINE :: u8 where "CMD_NOT_MINE = 0xFF"

text \<open>\<open>r[]\<close>: opcode, request id, then the status byte and as much output as fits into 240 bytes.\<close>

definition node_reply :: "u16 \<Rightarrow> u8 \<Rightarrow> u8 list \<Rightarrow> u8 list" where
  "node_reply req st out =
     [lo8 OP_SHELL_REPLY, hi8 OP_SHELL_REPLY, lo8 req, hi8 req]
     @ (if st = CMD_NOT_MINE then [NODE_SHELL_UNKNOWN]
        else st # take (BUS_PAYLOAD_MAX - 5) out)"

definition role_on_data ::
    "(u8 \<Rightarrow> u16 \<Rightarrow> u16 \<Rightarrow> u8 list \<Rightarrow> bool) \<Rightarrow> (u16 \<Rightarrow> u8 list \<Rightarrow> nat \<Rightarrow> u8 \<Rightarrow> u16 \<Rightarrow> u8 \<times> u8 list) \<Rightarrow>
     on_data_hook" where
  "role_on_data route dispatch src payload len n =
     (if len < 6 then n
      else if le16 (payload ! 0) (payload ! 1) \<noteq> OP_SHELL_EXEC then n
      else
        (let req = le16 (payload ! 2) (payload ! 3);
             cmd = le16 (payload ! 4) (payload ! 5);
             args = take (unat (len - 6)) (drop 6 payload)
         in if route src req cmd args then n
            else (case dispatch cmd args (BUS_PAYLOAD_MAX - 4) src req of (st, out) \<Rightarrow>
              if st = SHELL_ASYNC then n
              else (let r = node_reply req st out
                    in snd (bus_node_queue n src BUS_FT_DATA r (word_of_nat (length r)))))))"

section \<open>Invariant and the contract of the hook\<close>

definition slot_ok :: "node_txq_slot \<Rightarrow> bool" where
  "slot_ok q \<longleftrightarrow> length (f_payload (ns_frame q)) = BUS_PAYLOAD_MAX \<and>
     (ns_in_use q \<longrightarrow> frame_wf (ns_frame q))"

definition node_inv :: "node \<Rightarrow> bool" where [inv_defs]:
  "node_inv n \<longleftrightarrow> length (n_txq n) = NODE_TXQ_LEN \<and> list_all slot_ok (n_txq n) \<and> asm_inv (n_asm n)"

definition node_pending :: "node \<Rightarrow> bus_frame list" where
  "node_pending n = map ns_frame (filter ns_in_use (n_txq n))"

locale node_app =
  fixes on_data :: on_data_hook
  assumes hook_addr: "n_my_addr (on_data src payload len n) = n_my_addr n"
    and hook_asm: "on_data src payload len (n\<lparr>n_asm := a\<rparr>) = (on_data src payload len n)\<lparr>n_asm := a\<rparr>"
    and hook_inv: "node_inv n \<Longrightarrow> length payload = BUS_PAYLOAD_MAX \<Longrightarrow> unat len \<le> BUS_PAYLOAD_MAX
      \<Longrightarrow> node_inv (on_data src payload len n)"

text \<open>A grant: the frames after which the node may transmit.\<close>

definition is_grant :: "node \<Rightarrow> bus_frame \<Rightarrow> bool" where
  "is_grant n f \<longleftrightarrow> f_dest f = n_my_addr n \<and>
     (f_type f AND BUS_FT_MASK = BUS_FT_POLL \<or>
      f_type f AND BUS_FT_MASK = BUS_FT_DATA \<and> f_src f = BUS_ADDR_MASTER)"

fun node_frames :: "on_data_hook \<Rightarrow> bus_frame list \<Rightarrow> node \<Rightarrow> phy_act list \<times> node" where
  "node_frames on_data [] n = ([], n)"
| "node_frames on_data (f # fs) n =
     (case node_on_frame on_data f n of (acts, n1) \<Rightarrow>
        (case node_frames on_data fs n1 of (acts', n2) \<Rightarrow> (acts @ acts', n2)))"

lemma emit_slots_eq:
  "emit_slots qs = (map (\<lambda>q. Phy_send_words (bus_frame_encode (ns_frame q))) (filter ns_in_use qs),
     map (\<lambda>q. q\<lparr>ns_in_use := False\<rparr>) qs)"
  by (induction qs) auto

lemma node_emit_window_eq:
  "node_emit_window n =
     (map (\<lambda>f. Phy_send_words (bus_frame_encode f))
        (node_pending n @ [short_frame (n_my_addr n) BUS_FT_NO_MESSAGE]),
      n\<lparr>n_txq := map (\<lambda>q. q\<lparr>ns_in_use := False\<rparr>) (n_txq n)\<rparr>)"
  by (simp add: node_emit_window_def emit_slots_eq node_pending_def)

lemma node_inv_emit: "node_inv n \<Longrightarrow> node_inv (snd (node_emit_window n))"
  by (simp add: node_emit_window_eq node_inv_def slot_ok_def list_all_iff)

lemma node_pending_emit: "node_pending (snd (node_emit_window n)) = []"
  by (simp add: node_emit_window_eq node_pending_def filter_map comp_def)

lemma node_inv_asm: "node_inv n \<Longrightarrow> asm_inv a \<Longrightarrow> node_inv (n\<lparr>n_asm := a\<rparr>)"
  by (simp add: node_inv_def)

lemma node_emit_window_asm:
  "node_emit_window (n\<lparr>n_asm := a\<rparr>) =
     (case node_emit_window n of (acts, n') \<Rightarrow> (acts, n'\<lparr>n_asm := a\<rparr>))"
  by (simp add: node_emit_window_eq node_pending_def)

context node_app
begin

lemma on_frame_asm:
  "node_on_frame on_data f (n\<lparr>n_asm := a\<rparr>) =
     (case node_on_frame on_data f n of (acts, n') \<Rightarrow> (acts, n'\<lparr>n_asm := a\<rparr>))"
proof (cases "f_type f AND BUS_FT_MASK = BUS_FT_DATA")
  case True
  then show ?thesis
    by (simp only: node_on_frame_def Let_def hook_asm if_True prod.case node_emit_ack_def)
       (simp cong: if_cong)
next
  case False
  show ?thesis
  proof (cases "f_type f AND BUS_FT_MASK = BUS_FT_POLL \<and> f_dest f = n_my_addr n")
    case poll: True
    then show ?thesis using False by (simp add: node_on_frame_def node_emit_window_asm)
  next
    case other: False
    then show ?thesis using False by (auto simp: node_on_frame_def)
  qed
qed

lemma frames_asm:
  "node_frames on_data fs (n\<lparr>n_asm := a\<rparr>) =
     (case node_frames on_data fs n of (acts, n') \<Rightarrow> (acts, n'\<lparr>n_asm := a\<rparr>))"
proof (induction fs arbitrary: n)
  case Nil
  then show ?case by simp
next
  case (Cons f fs)
  obtain acts n1 where h: "node_on_frame on_data f n = (acts, n1)" by force
  obtain acts' n2 where t: "node_frames on_data fs n1 = (acts', n2)" by force
  show ?case using Cons.IH [of n1] by (simp add: on_frame_asm h t)
qed

text \<open>The task is the assembler followed by the frame handler.\<close>

lemma task_decomposes:
  "bus_node_task on_data ws n =
     (case bus_asm_run (n_asm n) ws of (fs, a) \<Rightarrow>
        (case node_frames on_data fs n of (acts, n') \<Rightarrow> (acts, n'\<lparr>n_asm := a\<rparr>)))"
proof (induction ws arbitrary: n)
  case Nil
  then show ?case by simp
next
  case (Cons w ws)
  obtain r a where r: "bus_asm_feed (n_asm n) w = (r, a)" by force
  obtain fs a' where run: "bus_asm_run a ws = (fs, a')" by force
  show ?case
  proof (cases r)
    case None
    obtain acts n' where t: "node_frames on_data fs n = (acts, n')" by force
    show ?thesis
      using Cons.IH [of "n\<lparr>n_asm := a\<rparr>"] None by (simp add: r run frames_asm t)
  next
    case (Some f)
    obtain acts n1 where h: "node_on_frame on_data f n = (acts, n1)" by force
    obtain acts' n2 where t: "node_frames on_data fs n1 = (acts', n2)" by force
    show ?thesis
      using Cons.IH [of "n1\<lparr>n_asm := a\<rparr>"] Some by (simp add: r run frames_asm on_frame_asm h t)
  qed
qed

lemma on_frame_addr: "n_my_addr (snd (node_on_frame on_data f n)) = n_my_addr n"
  by (simp add: node_on_frame_def Let_def hook_addr node_emit_window_eq)

lemma on_frame_silent: "\<not> is_grant n f \<Longrightarrow> fst (node_on_frame on_data f n) = []"
  by (auto simp: node_on_frame_def Let_def hook_addr is_grant_def)

lemma on_frame_inv:
  "node_inv n \<Longrightarrow> frame_wf f \<Longrightarrow> node_inv (snd (node_on_frame on_data f n))"
  by (simp add: node_on_frame_def Let_def hook_inv frame_wf_def node_inv_emit)

lemma frames_silent:
  "list_all (\<lambda>f. \<not> is_grant n f) fs \<Longrightarrow> fst (node_frames on_data fs n) = []"
proof (induction fs arbitrary: n)
  case Nil
  then show ?case by simp
next
  case (Cons f fs)
  obtain acts n1 where h: "node_on_frame on_data f n = (acts, n1)" by force
  have "n_my_addr n1 = n_my_addr n" using on_frame_addr [of f n] h by simp
  then have "list_all (\<lambda>f. \<not> is_grant n1 f) fs" using Cons.prems by (simp add: is_grant_def)
  then have "fst (node_frames on_data fs n1) = []" by (rule Cons.IH)
  moreover have "acts = []" using on_frame_silent [of n f] Cons.prems h by simp
  ultimately show ?case by (simp add: h split: prod.splits)
qed

lemma frames_inv:
  "node_inv n \<Longrightarrow> list_all frame_wf fs \<Longrightarrow> node_inv (snd (node_frames on_data fs n))"
proof (induction fs arbitrary: n)
  case Nil
  then show ?case by simp
next
  case (Cons f fs)
  then show ?case
    using on_frame_inv [of n f] by (auto split: prod.splits) (metis snd_conv)
qed

lemma task_inv:
  assumes "node_inv n"
  shows "node_inv (snd (bus_node_task on_data ws n))"
proof -
  obtain fs a where run: "bus_asm_run (n_asm n) ws = (fs, a)" by force
  obtain acts n' where t: "node_frames on_data fs n = (acts, n')" by force
  have inv: "asm_inv (n_asm n)" using assms by (simp add: node_inv_def)
  have "node_inv n'" using frames_inv [OF assms asm_run_wf [OF inv run]] t by simp
  then show ?thesis
    using asm_inv_run [OF inv run] by (simp add: task_decomposes run t node_inv_asm)
qed

lemma task_silent:
  assumes "bus_asm_run (n_asm n) ws = (fs, a)" "\<forall>f\<in>set fs. \<not> is_grant n f"
  shows "fst (bus_node_task on_data ws n) = []"
  using frames_silent [of n fs] assms
  by (cases "node_frames on_data fs n") (simp add: task_decomposes list_all_iff)

end

section \<open>The queue\<close>

lemma node_queue_addr: "n_my_addr (snd (bus_node_queue n d t p l)) = n_my_addr n"
  by (simp add: bus_node_queue_def Let_def split: option.splits)

lemma node_queue_asm:
  "bus_node_queue (n\<lparr>n_asm := a\<rparr>) d t p l =
     (fst (bus_node_queue n d t p l), (snd (bus_node_queue n d t p l))\<lparr>n_asm := a\<rparr>)"
  by (simp add: bus_node_queue_def Let_def split: option.splits)

lemma list_all_update: "list_all P xs \<Longrightarrow> P x \<Longrightarrow> list_all P (xs[i := x])"
  using set_update_subset_insert [of xs i x] by (auto simp: list_all_iff)

lemma node_queue_ok:
  assumes "node_inv n" "unat l \<le> length p" "unat l \<le> BUS_PAYLOAD_MAX"
    "find_idx (\<lambda>q. \<not> ns_in_use q) (n_txq n) = Some i"
  obtains f where "frame_bytes f = [d, n_my_addr n, t, 0, l] @ take (unat l) p" "frame_wf f"
    "bus_node_queue n d t p l = (True, n\<lparr>n_txq := (n_txq n)[i := \<lparr>ns_frame = f, ns_in_use = True\<rparr>]\<rparr>)"
proof -
  let ?f = "\<lparr>f_dest = d, f_src = n_my_addr n, f_type = t, f_seq = 0, f_len = l,
    f_payload = copy_bytes (f_payload (ns_frame (n_txq n ! i))) p (unat l)\<rparr>"
  have "slot_ok (n_txq n ! i)"
    using assms(1) find_idx_SomeD [OF assms(4)] by (simp add: node_inv_def list_all_length)
  then have "length (f_payload (ns_frame (n_txq n ! i))) = BUS_PAYLOAD_MAX" by (simp add: slot_ok_def)
  then have "frame_wf ?f" using assms(2,3) by (simp add: frame_wf_def)
  moreover have "frame_bytes ?f = [d, n_my_addr n, t, 0, l] @ take (unat l) p"
    using assms(2) by (simp add: frame_bytes_def)
  moreover have "bus_node_queue n d t p l =
      (True, n\<lparr>n_txq := (n_txq n)[i := \<lparr>ns_frame = ?f, ns_in_use = True\<rparr>]\<rparr>)"
    using assms(3,4) by (simp add: bus_node_queue_def Let_def)
  ultimately show thesis using that by blast
qed

lemma node_queue_refused:
  assumes "unat l > BUS_PAYLOAD_MAX \<or> find_idx (\<lambda>q. \<not> ns_in_use q) (n_txq n) = None"
  shows "bus_node_queue n d t p l = (False, n)"
  using assms by (auto simp: bus_node_queue_def)

lemma node_inv_queue:
  assumes "node_inv n" "unat l \<le> length p"
  shows "node_inv (snd (bus_node_queue n d t p l))"
proof (cases "unat l > BUS_PAYLOAD_MAX \<or> find_idx (\<lambda>q. \<not> ns_in_use q) (n_txq n) = None")
  case True
  then show ?thesis using assms(1) by (simp add: node_queue_refused)
next
  case False
  then obtain i where i: "find_idx (\<lambda>q. \<not> ns_in_use q) (n_txq n) = Some i" and "unat l \<le> BUS_PAYLOAD_MAX"
    by auto
  then obtain f where f: "frame_wf f"
    "bus_node_queue n d t p l = (True, n\<lparr>n_txq := (n_txq n)[i := \<lparr>ns_frame = f, ns_in_use = True\<rparr>]\<rparr>)"
    using node_queue_ok [OF assms] by metis
  have "slot_ok \<lparr>ns_frame = f, ns_in_use = True\<rparr>" using f(1) by (simp add: slot_ok_def frame_wf_def)
  then show ?thesis
    using assms(1) f(2) by (simp add: node_inv_def list_all_update)
qed

section \<open>The two hooks satisfy the contract\<close>

lemma length_node_reply: "length (node_reply req st out) \<le> BUS_PAYLOAD_MAX"
  by (simp add: node_reply_def BUS_PAYLOAD_MAX_def)

lemma unat_length_reply:
  "unat (word_of_nat (length (node_reply req st out)) :: u8) = length (node_reply req st out)"
proof -
  have "length (node_reply req st out) < 256"
    using length_node_reply [of req st out] by (simp add: BUS_PAYLOAD_MAX_def)
  then show ?thesis by (simp add: unat_of_nat)
qed

text \<open>The reply a DATA frame triggers at once, if any.\<close>

definition role_answer ::
    "(u8 \<Rightarrow> u16 \<Rightarrow> u16 \<Rightarrow> u8 list \<Rightarrow> bool) \<Rightarrow> (u16 \<Rightarrow> u8 list \<Rightarrow> nat \<Rightarrow> u8 \<Rightarrow> u16 \<Rightarrow> u8 \<times> u8 list) \<Rightarrow>
     u8 \<Rightarrow> u8 list \<Rightarrow> u8 \<Rightarrow> u8 list option" where
  "role_answer route dispatch src payload len =
     (let req = le16 (payload ! 2) (payload ! 3);
          cmd = le16 (payload ! 4) (payload ! 5);
          args = take (unat (len - 6)) (drop 6 payload);
          (st, out) = dispatch cmd args (BUS_PAYLOAD_MAX - 4) src req
      in if len < 6 \<or> le16 (payload ! 0) (payload ! 1) \<noteq> OP_SHELL_EXEC \<or> route src req cmd args
            \<or> st = SHELL_ASYNC
         then None else Some (node_reply req st out))"

lemma role_on_data_eq:
  "role_on_data route dispatch src payload len n =
     (case role_answer route dispatch src payload len of
        None \<Rightarrow> n
      | Some r \<Rightarrow> snd (bus_node_queue n src BUS_FT_DATA r (word_of_nat (length r))))"
  by (simp add: role_on_data_def role_answer_def Let_def split: prod.splits)

lemma role_answer_length:
  "role_answer route dispatch src payload len = Some r \<Longrightarrow>
     length r \<le> BUS_PAYLOAD_MAX \<and> unat (word_of_nat (length r) :: u8) = length r"
  by (auto simp: role_answer_def Let_def unat_length_reply length_node_reply
      split: prod.splits if_splits)

interpretation weak_app: node_app bus_node_on_data_weak
  by unfold_locales (simp_all add: bus_node_on_data_weak_def)

interpretation role_app: node_app "role_on_data route dispatch" for route dispatch
proof
  fix src payload len n a
  show "n_my_addr (role_on_data route dispatch src payload len n) = n_my_addr n"
    by (simp add: role_on_data_eq node_queue_addr split: option.split)
  show "role_on_data route dispatch src payload len (n\<lparr>n_asm := a\<rparr>)
      = (role_on_data route dispatch src payload len n)\<lparr>n_asm := a\<rparr>"
    by (simp add: role_on_data_eq node_queue_asm split: option.split)
  show "node_inv n \<Longrightarrow> node_inv (role_on_data route dispatch src payload len n)"
    by (auto simp: role_on_data_eq node_inv_queue dest: role_answer_length split: option.split)
qed

section \<open>Properties of the node\<close>

definition node0 :: "u8 \<Rightarrow> node" where
  "node0 addr = bus_node_init \<lparr>n_txq = replicate NODE_TXQ_LEN
     \<lparr>ns_frame = short_frame 0 0, ns_in_use = False\<rparr>, n_asm = asm0, n_my_addr = 0\<rparr> addr"

lemma node_inv_node0: "node_inv (node0 a)"
  by (simp add: node0_def bus_node_init_def node_inv_def slot_ok_def short_frame_def
      list_all_iff asm_inv_asm0)

lemma node0_sel [simp]: "n_my_addr (node0 a) = a" "n_asm (node0 a) = bus_asm_init asm0 a False"
  by (simp_all add: node0_def bus_node_init_def)

lemma le16_lo_hi [simp]: "le16 (lo8 w) (hi8 w) = w"
  unfolding le16_def lo8_def hi8_def mask_consts
  by (rule bit_word_eqI) (auto simp: bit_simps)

definition shell_exec :: "u16 \<Rightarrow> u16 \<Rightarrow> u8 list \<Rightarrow> u8 list" where
  "shell_exec req cmd args = [lo8 OP_SHELL_EXEC, hi8 OP_SHELL_EXEC, lo8 req, hi8 req, lo8 cmd, hi8 cmd] @ args"

text \<open>
  C21. A node never speaks out of turn: whatever words arrive, if none of the frames its assembler
  completes is a POLL to its address or a DATA frame from the master to its address, the task
  transmits nothing; and the node's invariant (8 slots, well-formed frames, bounded assembler)
  survives any input.
\<close>

theorem bus_node_silent_without_grant:
  assumes "node_inv n" and "bus_asm_run (n_asm n) ws = (fs, a)"
    and "bus_node_task (role_on_data route dispatch) ws n = (acts, n')"
  shows "node_inv n' \<and> ((\<forall>f\<in>set fs. \<not> is_grant n f) \<longrightarrow> acts = [])"
  using role_app.task_inv [OF assms(1), of route dispatch ws]
    role_app.task_silent [OF assms(2), of route dispatch] assms(3) by simp

theorem bus_node_silent_without_grant_witness:
  "fst (bus_node_task (role_on_data (\<lambda>_ _ _ _. False) (\<lambda>_ _ _ _ _. (0, [])))
     (bus_frame_encode (poll_frame 6)) (node0 5)) = []"
proof -
  obtain acts n' where t: "bus_node_task (role_on_data (\<lambda>_ _ _ _. False) (\<lambda>_ _ _ _ _. (0, [])))
      (bus_frame_encode (poll_frame 6)) (node0 5) = (acts, n')" by force
  have "bus_asm_run (n_asm (node0 5)) (bus_frame_encode (poll_frame 6)) = ([], n_asm (node0 5))"
    by (rule run_frame_skip)
       (simp_all add: bus_asm_init_def addr_is_for_us_def BUS_ADDR_PROMISCUOUS_def BUS_ADDR_BROADCAST_def)
  then show ?thesis
    using bus_node_silent_without_grant [OF node_inv_node0 _ t] t by simp
qed

text \<open>
  The responder answers every command exactly once: a shell-exec frame that the engine does not
  route and whose dispatch does not finish later puts one DATA frame to the requester into a free
  slot, carrying the reply opcode, the request's own id and the status; what was queued stays.
\<close>

theorem bus_node_answers_request:
  assumes "node_inv n" and "\<exists>q\<in>set (n_txq n). \<not> ns_in_use q"
    and "take (unat len) payload = shell_exec req cmd args" and "length payload = BUS_PAYLOAD_MAX"
    and "unat len = 6 + length args"
    and "\<not> route src req cmd args"
    and "dispatch cmd args (BUS_PAYLOAD_MAX - 4) src req = (st, out)" and "st \<noteq> SHELL_ASYNC"
  shows "\<exists>f. mset (node_pending (role_on_data route dispatch src payload len n))
        = mset (node_pending n) + {#f#} \<and>
    f_dest f = src \<and> f_src f = n_my_addr n \<and> f_type f = BUS_FT_DATA \<and>
    take (unat (f_len f)) (f_payload f) = node_reply req st out"
proof -
  let ?r = "node_reply req st out"
  obtain i where i: "find_idx (\<lambda>q. \<not> ns_in_use q) (n_txq n) = Some i"
    using assms(2) find_idx_None_set [of "\<lambda>q. \<not> ns_in_use q" "n_txq n"] by fastforce
  have pl: "payload = shell_exec req cmd args @ drop (unat len) payload"
    using append_take_drop_id [of "unat len" payload] assms(3) by simp
  have nth: "payload ! 0 = lo8 OP_SHELL_EXEC" "payload ! 1 = hi8 OP_SHELL_EXEC" "payload ! 2 = lo8 req"
    "payload ! 3 = hi8 req" "payload ! 4 = lo8 cmd" "payload ! 5 = hi8 cmd"
    by (subst pl, simp add: shell_exec_def)+
  have l6: "unat (len - 6) = length args" "\<not> len < 6"
    using assms(5) by (simp_all add: unat_sub word_le_nat_alt word_less_nat_alt)
  have "take (length args) (drop 6 payload) = args"
    by (subst pl) (simp add: shell_exec_def)
  then have "role_answer route dispatch src payload len = Some ?r"
    using nth l6 assms(6-8) by (simp add: role_answer_def Let_def)
  then have eq: "role_on_data route dispatch src payload len n =
      snd (bus_node_queue n src BUS_FT_DATA ?r (word_of_nat (length ?r)))"
    by (simp add: role_on_data_eq)
  obtain f where f: "frame_bytes f = [src, n_my_addr n, BUS_FT_DATA, 0, word_of_nat (length ?r)] @ ?r"
    "bus_node_queue n src BUS_FT_DATA ?r (word_of_nat (length ?r)) =
      (True, n\<lparr>n_txq := (n_txq n)[i := \<lparr>ns_frame = f, ns_in_use = True\<rparr>]\<rparr>)"
    using node_queue_ok [OF assms(1) _ _ i, of "word_of_nat (length ?r)" ?r src BUS_FT_DATA]
    by (auto simp: unat_length_reply length_node_reply)
  have "mset (filter ns_in_use ((n_txq n)[i := \<lparr>ns_frame = f, ns_in_use = True\<rparr>])) =
      mset (filter ns_in_use (n_txq n)) + {#\<lparr>ns_frame = f, ns_in_use = True\<rparr>#}"
    using find_idx_SomeD [OF i] by (intro mset_filter_insert) simp_all
  then have "mset (node_pending (role_on_data route dispatch src payload len n))
      = mset (node_pending n) + {#f#}"
    by (simp add: eq f(2) node_pending_def)
  moreover have "f_dest f = src" "f_src f = n_my_addr n" "f_type f = BUS_FT_DATA"
    "take (unat (f_len f)) (f_payload f) = ?r"
    using f(1) unfolding frame_bytes_def append_Cons append_Nil list.inject by blast+
  ultimately show ?thesis by blast
qed

theorem bus_node_answers_request_witness:
  "\<exists>f. mset (node_pending (role_on_data (\<lambda>_ _ _ _. False) (\<lambda>_ args _ _ _. (0, args)) 0
        (shell_exec 7 9 [1, 2] @ replicate 232 0) 8 (node0 5))) = mset (node_pending (node0 5)) + {#f#} \<and>
    take (unat (f_len f)) (f_payload f) = node_reply 7 0 [1, 2]"
proof -
  have free: "\<exists>q\<in>set (n_txq (node0 5)). \<not> ns_in_use q"
    by (simp add: node0_def bus_node_init_def NODE_TXQ_LEN_def)
  show ?thesis
    using bus_node_answers_request [OF node_inv_node0 free, of 8 "shell_exec 7 9 [1, 2] @ replicate 232 0"
        7 9 "[1, 2]" "\<lambda>_ _ _ _. False" 0 "\<lambda>_ args _ _ _. (0, args)" 0 "[1, 2]"]
    by (auto simp: shell_exec_def BUS_PAYLOAD_MAX_def SHELL_ASYNC_def)
qed

text \<open>
  The 236 bytes of capacity the responder grants to the dispatcher are one more than fits
  behind the 5-byte header: a result that fills them is queued without its last byte.
\<close>

theorem bus_node_reply_truncates:
  assumes "st \<noteq> CMD_NOT_MINE" and "length out = BUS_PAYLOAD_MAX - 4"
  shows "length (node_reply req st out) = BUS_PAYLOAD_MAX \<and>
    drop 5 (node_reply req st out) = butlast out \<and> out \<noteq> drop 5 (node_reply req st out)"
proof -
  have "take 235 out = butlast out" "length out = 236" 
    using assms(2) by (simp_all add: BUS_PAYLOAD_MAX_def butlast_conv_take)
  then show ?thesis using assms by (auto simp: node_reply_def BUS_PAYLOAD_MAX_def dest: arg_cong [of _ _ length])
qed

theorem bus_node_reply_truncates_witness:
  "drop 5 (node_reply 7 0 (replicate 236 1)) = replicate 235 1"
  using bus_node_reply_truncates [of 0 "replicate 236 1" 7]
  by (simp add: CMD_NOT_MINE_def BUS_PAYLOAD_MAX_def butlast_conv_take)

end
