(* ===== verification/Bus_Cycle.thy ===== *)
theory Bus_Cycle
  imports Bus_Node
begin

text \<open>
  The two exchanges of the bus cycle, across arbiter, wire and node: POLL and the reply window,
  and command, hook and acknowledgement.
\<close>

unbundle bit_operations_syntax

fun sent_words :: "phy_act list \<Rightarrow> u16 list" where
  "sent_words [] = []"
| "sent_words (Phy_rx_flush # xs) = sent_words xs"
| "sent_words (Phy_send_words ws # xs) = ws @ sent_words xs"

lemma sent_words_frames:
  "sent_words (map (\<lambda>f. Phy_send_words (bus_frame_encode f)) fs) = concat (map bus_frame_encode fs)"
  by (induction fs) auto

lemma short_frame_wf [simp]: "frame_wf (short_frame a t)" "f_dest (short_frame a t) = 0"
  by (simp_all add: short_frame_def frame_wf_def BUS_ADDR_MASTER_def)

lemma node_pending_wf: "node_inv n \<Longrightarrow> f \<in> set (node_pending n) \<Longrightarrow> frame_wf f"
  by (auto simp: node_inv_def node_pending_def list_all_iff slot_ok_def)

text \<open>An idle node that hears one frame addressed to it handles exactly that frame.\<close>

lemma task_one_frame:
  assumes "node_app hook" "node_inv n" "a_state (n_asm n) = BUS_ASM_IDLE"
    "a_my_addr (n_asm n) = n_my_addr n" "frame_wf f" "f_dest f = n_my_addr n" "n_my_addr n < 0x80"
  obtains g a where "frame_bytes g = frame_bytes f" "frame_wf g"
    "bus_node_task hook (bus_frame_encode f) n =
       (case node_on_frame hook g n of (acts, n') \<Rightarrow> (acts, n'\<lparr>n_asm := a\<rparr>))"
proof -
  have us: "addr_is_for_us (n_asm n) (f_dest f)" using assms(4,6) by (simp add: addr_is_for_us_def)
  have lt: "f_dest f < 0x80" "asm_inv (n_asm n)" using assms(2,6,7) by (simp_all add: node_inv_def)
  obtain g a where g: "bus_asm_run (n_asm n) (bus_frame_encode f) = ([g], a)"
      "frame_bytes g = frame_bytes f" "frame_wf g"
    using run_frame_idle [OF assms(5) lt assms(3) us] by metis
  have "bus_node_task hook (bus_frame_encode f) n =
       (case node_on_frame hook g n of (acts, n') \<Rightarrow> (acts, n'\<lparr>n_asm := a\<rparr>))"
    by (simp add: node_app.task_decomposes [OF assms(1)] g(1) split: prod.splits)
  then show thesis using that g(2,3) by blast
qed

lemma frame_bytes_eqD:
  assumes "frame_bytes g = frame_bytes f"
  shows "f_dest g = f_dest f" "f_src g = f_src f" "f_type g = f_type f" "f_len g = f_len f"
    "take (unat (f_len f)) (f_payload g) = take (unat (f_len f)) (f_payload f)"
  using assms by (auto simp: frame_bytes_def)

text \<open>
  C20. One POLL collects everything: an idle node that hears the arbiter's POLL for its address sends
  all its queued frames in slot order followed by NO_MESSAGE and keeps nothing queued; an idle
  receiver anywhere on the bus reassembles exactly those of them addressed to it, so the master,
  if promiscuous, gets the whole window ending in NO_MESSAGE.
\<close>

theorem poll_collects_window:
  assumes "node_inv n" and "a_state (n_asm n) = BUS_ASM_IDLE" and "a_my_addr (n_asm n) = n_my_addr n"
    and "n_my_addr n < 0x80" and "\<forall>f\<in>set (node_pending n). f_dest f < 0x80"
    and "asm_inv m" and "a_state m = BUS_ASM_IDLE"
    and "bus_node_task (role_on_data route dispatch) (bus_frame_encode (poll_frame (n_my_addr n))) n
           = (acts, n')"
  shows "node_pending n' = [] \<and> node_inv n' \<and>
    map frame_bytes (fst (bus_asm_run m (sent_words acts))) =
      map frame_bytes (filter (\<lambda>f. addr_is_for_us m (f_dest f))
        (node_pending n @ [short_frame (n_my_addr n) BUS_FT_NO_MESSAGE]))"
proof -
  let ?p = "poll_frame (n_my_addr n)"
  let ?fs = "node_pending n @ [short_frame (n_my_addr n) BUS_FT_NO_MESSAGE]"
  obtain g a where g: "frame_bytes g = frame_bytes ?p" "frame_wf g"
      "bus_node_task (role_on_data route dispatch) (bus_frame_encode ?p) n =
       (case node_on_frame (role_on_data route dispatch) g n of (acts, n') \<Rightarrow> (acts, n'\<lparr>n_asm := a\<rparr>))"
    using task_one_frame [OF role_app.node_app_axioms assms(1-3) frame_wf_poll assms(4)] by blast
  have "node_on_frame (role_on_data route dispatch) g n = node_emit_window n"
    using frame_bytes_eqD [OF g(1)]
    by (simp add: node_on_frame_def poll_frame_def bus_ft_defs)
  then have t: "(acts, n') = (fst (node_emit_window n), (snd (node_emit_window n))\<lparr>n_asm := a\<rparr>)"
    using g(3) assms(8) by (simp split: prod.splits)
  then have "sent_words acts = concat (map bus_frame_encode ?fs)"
    by (simp only: node_emit_window_eq fst_conv sent_words_frames prod.inject)
  moreover have "\<exists>gs a'. bus_asm_run m (concat (map bus_frame_encode ?fs)) = (gs, a') \<and>
      map frame_bytes gs = map frame_bytes (filter (\<lambda>f. addr_is_for_us m (f_dest f)) ?fs) \<and>
      list_all frame_wf gs \<and> asm_inv a' \<and> a_state a' = BUS_ASM_IDLE"
    by (rule run_frames) (use assms node_pending_wf in auto)
  moreover have "node_pending n' = []" using t node_pending_emit [of n] by (simp add: node_pending_def)
  moreover have "node_inv n'"
    using role_app.task_inv [OF assms(1), of route dispatch] assms(8) by (metis snd_conv)
  ultimately show ?thesis by auto
qed

theorem poll_collects_window_witness:
  "fst (bus_asm_run (bus_asm_init asm0 0 True) (sent_words (fst (bus_node_task
      (role_on_data (\<lambda>_ _ _ _. False) (\<lambda>_ _ _ _ _. (0, []))) (bus_frame_encode (poll_frame 5)) (node0 5)))))
    \<noteq> []"
proof -
  obtain acts n' where t: "bus_node_task (role_on_data (\<lambda>_ _ _ _. False) (\<lambda>_ _ _ _ _. (0, [])))
      (bus_frame_encode (poll_frame (n_my_addr (node0 5)))) (node0 5) = (acts, n')" by force
  have "node_pending (node0 5) = []"
    by (simp add: node_pending_def node0_def bus_node_init_def filter_map comp_def)
  then have "length (map frame_bytes (fst (bus_asm_run (bus_asm_init asm0 0 True) (sent_words acts)))) = 1"
    by (subst conjunct2 [OF conjunct2 [OF poll_collects_window
            [OF node_inv_node0 _ _ _ _ asm_inv_asm0 _ t, of 0 True]]])
       (simp_all add: bus_asm_init_def addr_is_for_us_def)
  then show ?thesis using t by auto
qed

text \<open>
  A command is handed over intact and acknowledged at once: an idle node that hears a DATA frame
  from the master calls its hook once, with the master as source and exactly the payload that
  was sent, and then transmits one ACK frame and nothing else (no NO_MESSAGE, no queued frame).
\<close>

theorem command_is_acknowledged:
  assumes "node_inv n" and "a_state (n_asm n) = BUS_ASM_IDLE" and "a_my_addr (n_asm n) = n_my_addr n"
    and "n_my_addr n < 0x80" and "frame_wf f" and "f_dest f = n_my_addr n"
    and "f_src f = BUS_ADDR_MASTER" and "f_type f AND BUS_FT_MASK = BUS_FT_DATA"
  shows "\<exists>p a. take (unat (f_len f)) p = take (unat (f_len f)) (f_payload f) \<and>
    length p = BUS_PAYLOAD_MAX \<and>
    bus_node_task (role_on_data route dispatch) (bus_frame_encode f) n =
      ([Phy_send_words (bus_frame_encode (short_frame (n_my_addr n) BUS_FT_ACK))],
       (role_on_data route dispatch BUS_ADDR_MASTER p (f_len f) n)\<lparr>n_asm := a\<rparr>)"
proof -
  obtain g a where g: "frame_bytes g = frame_bytes f" "frame_wf g"
      "bus_node_task (role_on_data route dispatch) (bus_frame_encode f) n =
       (case node_on_frame (role_on_data route dispatch) g n of (acts, n') \<Rightarrow> (acts, n'\<lparr>n_asm := a\<rparr>))"
    using task_one_frame [OF role_app.node_app_axioms assms(1-3,5,6,4)] by blast
  note e = frame_bytes_eqD [OF g(1)]
  have "node_on_frame (role_on_data route dispatch) g n =
      (node_emit_ack n, role_on_data route dispatch BUS_ADDR_MASTER (f_payload g) (f_len f) n)"
    using e assms(6-8) by (simp add: node_on_frame_def Let_def role_app.hook_addr node_emit_ack_def)
  then show ?thesis
    using g(2,3) e(5) by (intro exI [of _ "f_payload g"] exI [of _ a]) (simp add: node_emit_ack_def frame_wf_def)
qed

theorem command_is_acknowledged_witness:
  "fst (bus_node_task (role_on_data (\<lambda>_ _ _ _. False) (\<lambda>_ _ _ _ _. (0, [])))
      (bus_frame_encode ((poll_frame 5)\<lparr>f_type := BUS_FT_DATA\<rparr>)) (node0 5))
    = [Phy_send_words (bus_frame_encode (short_frame 5 BUS_FT_ACK))]"
proof -
  let ?f = "(poll_frame 5)\<lparr>f_type := BUS_FT_DATA\<rparr>"
  have "frame_wf ?f" "f_dest ?f = n_my_addr (node0 5)" "f_src ?f = BUS_ADDR_MASTER"
    "f_type ?f AND BUS_FT_MASK = BUS_FT_DATA"
    by (simp_all add: poll_frame_def frame_wf_def bus_ft_defs)
  then show ?thesis
    using command_is_acknowledged [OF node_inv_node0, of 5 ?f "\<lambda>_ _ _ _. False" "\<lambda>_ _ _ _ _. (0, [])"]
    by (auto simp: bus_asm_init_def)
qed

end
