(* ===== verification/Bus_Pool.thy ===== *)
theory Bus_Pool
  imports Bus_Frame "HOL-Library.Multiset"
begin

text \<open>
  The message plane of the bus controller's cyclic engine (\<^verbatim>\<open>src/app/bus_controller/main.c\<close>): the buffer pool, the
  node table with its two transmit lists per node, the producers' \<open>bus_msg_send\<close> and the table that correlates
  commands with replies.

  A buffer is named by its position in the pool; the linked lists (\<open>tx_buf.next\<close>) are lists of such names, with the
  head first.  The critical sections of the code make every operation here atomic.
\<close>

unbundle bit_operations_syntax

section \<open>State\<close>

definition BUS_POOL_N :: nat where "BUS_POOL_N = 24"
definition ROSTER_MAX :: nat where "ROSTER_MAX = 16"
definition CMDCORR_MAX :: nat where "CMDCORR_MAX = 8"

record tx_buf =
  tb_dest_node :: u8
  tb_payload :: "u8 list"
  tb_origin_tag :: u32

record bus_node =
  bn_addr :: u8
  bn_enabled :: u8
  bn_dead :: bool
  bn_miss :: u8
  bn_list :: "nat list list"

record cmdcorr =
  cc_req :: u16
  cc_host_req :: u16
  cc_addr :: u8
  cc_is_orig :: bool
  cc_used :: bool

record plane =
  g_bufs :: "tx_buf list"
  g_pool_free :: "nat list"
  g_pool_avail :: u16
  g_pool_low :: u16
  g_pool_exhausted :: u32
  g_nodes :: "bus_node list"
  g_active_idx :: nat
  g_corr :: "cmdcorr list"
  g_corr_full :: u32

section \<open>The pool\<close>

definition pool_grab :: "plane \<Rightarrow> nat option \<times> plane" where
  "pool_grab s = (case g_pool_free s of
     [] \<Rightarrow> (None, s)
   | b # bs \<Rightarrow> (let av = g_pool_avail s - 1
       in (Some b, s\<lparr>g_pool_free := bs, g_pool_avail := av, g_pool_low := (if av < g_pool_low s then av else g_pool_low s)\<rparr>)))"

definition pool_recover :: "nat \<Rightarrow> plane \<Rightarrow> plane" where
  "pool_recover b s = s\<lparr>g_pool_free := b # g_pool_free s, g_pool_avail := g_pool_avail s + 1\<rparr>"

definition empty_buf :: tx_buf where
  "empty_buf = \<lparr>tb_dest_node = 0, tb_payload = [], tb_origin_tag = 0\<rparr>"

definition plane0 :: plane where
  "plane0 = \<lparr>g_bufs = replicate BUS_POOL_N empty_buf, g_pool_free = [], g_pool_avail = 0, g_pool_low = 0, g_pool_exhausted = 0,
     g_nodes = [], g_active_idx = 0, g_corr = replicate CMDCORR_MAX \<lparr>cc_req = 0, cc_host_req = 0, cc_addr = 0, cc_is_orig = False, cc_used = False\<rparr>,
     g_corr_full = 0\<rparr>"

text \<open>\<open>bus_pool_init\<close> carves the buffers (\<open>carved\<close> of them before the allocator is exhausted); its self-test grabs and
  recovers all of them.\<close>

fun grab_all :: "nat \<Rightarrow> plane \<Rightarrow> nat list \<times> plane" where
  "grab_all 0 s = ([], s)"
| "grab_all (Suc k) s = (case pool_grab s of (None, s') \<Rightarrow> ([], s')
     | (Some b, s') \<Rightarrow> (case grab_all k s' of (got, s'') \<Rightarrow> (b # got, s'')))"

definition bus_pool_init :: "nat \<Rightarrow> plane \<Rightarrow> nat \<times> plane" where
  "bus_pool_init carved s =
     (let s1 = fold pool_recover [0..<min carved BUS_POOL_N] (s\<lparr>g_pool_free := [], g_pool_avail := 0\<rparr>);
          n = unat (g_pool_avail s1);
          s2 = s1\<lparr>g_pool_low := g_pool_avail s1\<rparr>;
          (got, s3) = grab_all n s2;
          (extra, s4) = pool_grab s3;
          s5 = fold pool_recover got s4
      in (if length got = n \<and> extra = None \<and> unat (g_pool_avail s5) = n then n else 0, s5))"

section \<open>Node table\<close>

fun node_insert :: "bus_node \<Rightarrow> bus_node list \<Rightarrow> bus_node list" where
  "node_insert e [] = [e]"
| "node_insert e (n # ns) = (if bn_addr n > bn_addr e then e # n # ns else n # node_insert e ns)"

definition fresh_node :: "u8 \<Rightarrow> bool \<Rightarrow> bus_node" where
  "fresh_node addr en = \<lparr>bn_addr = addr, bn_enabled = (if en then 1 else 0), bn_dead = False, bn_miss = 0, bn_list = [[], []]\<rparr>"

text \<open>The roster as pairs of address and enabled flag.\<close>

definition bus_nodetable_build :: "(u8 \<times> bool) list \<Rightarrow> bus_node list" where
  "bus_nodetable_build ros = foldl (\<lambda>ns (addr, en). node_insert (fresh_node addr en) ns) [] (take ROSTER_MAX ros)"

definition node_index_of :: "u8 \<Rightarrow> plane \<Rightarrow> nat option" where
  "node_index_of addr s = find_idx (\<lambda>n. bn_addr n = addr) (g_nodes s)"

definition node_push :: "nat \<Rightarrow> nat \<Rightarrow> bus_node \<Rightarrow> bus_node" where
  "node_push f b n = n\<lparr>bn_list := (bn_list n)[f := b # bn_list n ! f]\<rparr>"

definition fill_idx :: "plane \<Rightarrow> nat" where
  "fill_idx s = (if g_active_idx s = 0 then 1 else 0)"

definition bus_msg_send :: "u8 \<Rightarrow> u8 list \<Rightarrow> u32 \<Rightarrow> plane \<Rightarrow> bool \<times> plane" where
  "bus_msg_send dest payload tag s =
     (case pool_grab s of
        (None, s1) \<Rightarrow> (False, s1\<lparr>g_pool_exhausted := g_pool_exhausted s1 + 1\<rparr>)
      | (Some b, s1) \<Rightarrow>
          (let buf = \<lparr>tb_dest_node = tb_dest_node (g_bufs s1 ! b), tb_payload = take BUS_PAYLOAD_MAX payload, tb_origin_tag = tag\<rparr> in
           case node_index_of dest s1 of
             None \<Rightarrow> (False, pool_recover b (s1\<lparr>g_bufs := (g_bufs s1)[b := buf]\<rparr>))
           | Some i \<Rightarrow> (True, s1\<lparr>g_bufs := (g_bufs s1)[b := buf\<lparr>tb_dest_node := word_of_nat i\<rparr>],
                               g_nodes := (g_nodes s1)[i := node_push (fill_idx s1) b (g_nodes s1 ! i)]\<rparr>)))"

definition bus_pingpong_swap :: "plane \<Rightarrow> plane" where
  "bus_pingpong_swap s = s\<lparr>g_active_idx := fill_idx s\<rparr>"

section \<open>Correlation table\<close>

definition corr_add :: "u16 \<Rightarrow> u8 \<Rightarrow> bool \<Rightarrow> u16 \<Rightarrow> plane \<Rightarrow> bool \<times> plane" where
  "corr_add req addr is_orig host_req s =
     (case find_idx (\<lambda>c. \<not> cc_used c) (g_corr s) of
        None \<Rightarrow> (False, s\<lparr>g_corr_full := g_corr_full s + 1\<rparr>)
      | Some i \<Rightarrow> (True, s\<lparr>g_corr := (g_corr s)[i :=
            \<lparr>cc_req = req, cc_host_req = host_req, cc_addr = addr, cc_is_orig = is_orig, cc_used = True\<rparr>]\<rparr>))"

definition corr_take :: "u16 \<Rightarrow> u8 \<Rightarrow> plane \<Rightarrow> (bool \<times> u16) option \<times> plane" where
  "corr_take req addr s =
     (case find_idx (\<lambda>c. cc_used c \<and> cc_req c = req \<and> cc_addr c = addr) (g_corr s) of
        None \<Rightarrow> (None, s)
      | Some i \<Rightarrow> (Some (cc_is_orig (g_corr s ! i), cc_host_req (g_corr s ! i)),
                  s\<lparr>g_corr := (g_corr s)[i := (g_corr s ! i)\<lparr>cc_used := False\<rparr>]\<rparr>))"

section \<open>Rebuilding the node table\<close>

text \<open>The buffers queued on any node, in the order in which the rebuild detaches them.\<close>

definition queued :: "plane \<Rightarrow> nat list" where
  "queued s = concat (map (\<lambda>n. concat (bn_list n)) (g_nodes s))"

definition bus_rebuild :: "(u8 \<times> bool) list \<Rightarrow> plane \<Rightarrow> plane" where
  "bus_rebuild ros s =
     (let orphans = fold (#) (queued s) [];
          s1 = s\<lparr>g_nodes := bus_nodetable_build ros, g_corr := map (\<lambda>c. c\<lparr>cc_used := False\<rparr>) (g_corr s)\<rparr>
      in fold pool_recover orphans s1)"

text \<open>The message pass takes the active list of a node away from it.\<close>

definition take_list :: "nat \<Rightarrow> plane \<Rightarrow> nat list \<times> plane" where
  "take_list i s = (let a = g_active_idx s
     in (bn_list (g_nodes s ! i) ! a, s\<lparr>g_nodes := (g_nodes s)[i := (g_nodes s ! i)\<lparr>bn_list := (bn_list (g_nodes s ! i))[a := []]\<rparr>]\<rparr>))"

text \<open>The self-test of the two lists: two messages to every node, one swap, one drain.\<close>

definition drain_node :: "nat \<Rightarrow> plane \<Rightarrow> nat \<times> plane" where
  "drain_node i s = (case take_list i s of (bs, s') \<Rightarrow> (length bs, fold pool_recover bs s'))"

definition selftest_sends :: "plane \<Rightarrow> (u8 \<times> u8 list \<times> u32) list" where
  "selftest_sends s = concat (map (\<lambda>i. map (\<lambda>k. (bn_addr (g_nodes s ! i), [word_of_nat i, word_of_nat k],
       0xABCD0000 OR push_bit 8 (word_of_nat i) OR word_of_nat k)) [0..<2]) [0..<length (g_nodes s)])"

fun send_all :: "(u8 \<times> u8 list \<times> u32) list \<Rightarrow> plane \<Rightarrow> nat \<times> plane" where
  "send_all [] s = (0, s)"
| "send_all ((d, p, t) # ms) s = (case bus_msg_send d p t s of (ok, s') \<Rightarrow>
     case send_all ms s' of (n, s'') \<Rightarrow> (if ok then Suc n else n, s''))"

fun drain_all :: "nat list \<Rightarrow> plane \<Rightarrow> nat \<times> plane" where
  "drain_all [] s = (0, s)"
| "drain_all (i # is) s = (case drain_node i s of (k, s') \<Rightarrow> case drain_all is s' of (n, s'') \<Rightarrow> (k + n, s''))"

definition bus_pp_selftest :: "plane \<Rightarrow> bool \<times> plane" where
  "bus_pp_selftest s =
     (let (attached, s1) = send_all (selftest_sends s) s;
          (drained, s2) = drain_all [0..<length (g_nodes s)] (bus_pingpong_swap s1)
      in (attached = length (g_nodes s) * 2 \<and> drained = attached \<and> g_pool_avail s2 = g_pool_avail s, s2))"

section \<open>No buffer is ever lost\<close>

text \<open>
  Every one of the \<open>N\<close> carved buffers is on the free list or on exactly one list of one node; the counters agree with
  the lists.  \<open>held\<close> are the buffers the caller holds in the middle of an operation.
\<close>

definition plane_inv :: "nat \<Rightarrow> nat list \<Rightarrow> plane \<Rightarrow> bool" where
  "plane_inv N held s \<longleftrightarrow> length (g_bufs s) = BUS_POOL_N \<and>
     N \<le> BUS_POOL_N \<and> mset (held @ g_pool_free s @ queued s) = mset [0..<N] \<and>
     unat (g_pool_avail s) = length (g_pool_free s) \<and> g_active_idx s < 2 \<and>
     (\<forall>n \<in> set (g_nodes s). length (bn_list n) = 2) \<and> length (g_nodes s) \<le> ROSTER_MAX \<and> length (g_corr s) = CMDCORR_MAX"

lemma mset_concat_update:
  "i < length xs \<Longrightarrow> mset (concat (map f (xs[i := y]))) + mset (f (xs ! i)) = mset (concat (map f xs)) + mset (f y)"
proof (induction xs arbitrary: i)
  case (Cons x xs)
  show ?case
  proof (cases i)
    case 0
    then show ?thesis by (simp add: ac_simps)
  next
    case (Suc k)
    then have "mset (concat (map f (xs[k := y]))) + mset (f (xs ! k)) = mset (concat (map f xs)) + mset (f y)"
      using Cons by simp
    then show ?thesis by (simp add: Suc add.assoc)
  qed
qed simp

lemma mset_exchange:
  assumes "A + x = B + l" "Q' + B = Q + A"
  shows "Q' + x = (Q :: 'a multiset) + l"
proof -
  have "(Q' + B) + (A + x) = (Q + A) + (B + l)" using assms by simp
  then have "(Q' + x) + (A + B) = (Q + l) + (A + B)" by (simp add: ac_simps)
  then show ?thesis by simp
qed

lemma plane_inv_cong:
  assumes "plane_inv N held s" "mset (held' @ g_pool_free s' @ queued s') = mset (held @ g_pool_free s @ queued s)"
    "length (g_bufs s') = BUS_POOL_N" "unat (g_pool_avail s') = length (g_pool_free s')" "g_active_idx s' < 2"
    "\<forall>n \<in> set (g_nodes s'). length (bn_list n) = 2" "length (g_nodes s') \<le> ROSTER_MAX" "length (g_corr s') = CMDCORR_MAX"
  shows "plane_inv N held' s'"
  using assms by (simp add: plane_inv_def)

text \<open>The content of the two lists of one node, and what changing one of the lists does to it.\<close>

lemma queued_update:
  assumes "i < length (g_nodes s)" "a < length (bn_list (g_nodes s ! i))"
  shows "mset (queued (s\<lparr>g_nodes := (g_nodes s)[i := (g_nodes s ! i)\<lparr>bn_list := (bn_list (g_nodes s ! i))[a := l]\<rparr>]\<rparr>))
      + mset (bn_list (g_nodes s ! i) ! a) = mset (queued s) + mset l"
proof -
  have "mset (concat ((bn_list (g_nodes s ! i))[a := l])) + mset (bn_list (g_nodes s ! i) ! a)
      = mset (concat (bn_list (g_nodes s ! i))) + mset l"
    using mset_concat_update [of a "bn_list (g_nodes s ! i)" "\<lambda>x. x" l] assms(2) by simp
  moreover have "mset (queued (s\<lparr>g_nodes := (g_nodes s)[i := (g_nodes s ! i)\<lparr>bn_list := (bn_list (g_nodes s ! i))[a := l]\<rparr>]\<rparr>))
      + mset (concat (bn_list (g_nodes s ! i))) = mset (queued s) + mset (concat ((bn_list (g_nodes s ! i))[a := l]))"
    using mset_concat_update [OF assms(1), of "\<lambda>n. concat (bn_list n)"] by (simp add: queued_def)
  ultimately show ?thesis by (rule mset_exchange)
qed

lemma plane_inv_count:
  assumes "plane_inv N held s"
  shows "length held + length (g_pool_free s) + length (queued s) \<le> BUS_POOL_N" "distinct (held @ g_pool_free s @ queued s)"
    "b \<in> set (held @ g_pool_free s @ queued s) \<Longrightarrow> b < BUS_POOL_N"
proof -
  have n: "N \<le> BUS_POOL_N" "mset (held @ g_pool_free s @ queued s) = mset [0..<N]"
    using assms by (auto simp: plane_inv_def)
  have "length (held @ g_pool_free s @ queued s) = N" using mset_eq_length [OF n(2)] by simp
  then show "length held + length (g_pool_free s) + length (queued s) \<le> BUS_POOL_N" using n(1) by simp
  show "distinct (held @ g_pool_free s @ queued s)" using n(2) by (metis distinct_upt mset_eq_imp_distinct_iff)
  show "b < BUS_POOL_N" if "b \<in> set (held @ g_pool_free s @ queued s)"
    using that n mset_eq_setD [OF n(2)] by (auto simp del: set_append)
qed

lemma grab_inv:
  assumes "plane_inv N held s" "pool_grab s = (Some b, s')"
  shows "plane_inv N (b # held) s' \<and> g_bufs s' = g_bufs s \<and> g_nodes s' = g_nodes s \<and> g_active_idx s' = g_active_idx s \<and> g_corr s' = g_corr s"
proof -
  obtain bs where f: "g_pool_free s = b # bs" and s': "g_bufs s' = g_bufs s" "g_nodes s' = g_nodes s" "g_active_idx s' = g_active_idx s"
      "g_corr s' = g_corr s" "g_pool_free s' = bs" "g_pool_avail s' = g_pool_avail s - 1"
    using assms(2) by (auto simp: pool_grab_def Let_def split: list.splits)
  have "queued s' = queued s" by (simp add: queued_def s')
  then show ?thesis using assms(1) unat_dec_word [of "g_pool_avail s"] by (auto simp: plane_inv_def s' f)
qed

lemma recover_inv:
  assumes "plane_inv N (b # held) s"
  shows "plane_inv N held (pool_recover b s)"
proof -
  have "queued (pool_recover b s) = queued s" by (simp add: queued_def pool_recover_def)
  moreover have "unat (g_pool_avail s + 1) = unat (g_pool_avail s) + 1"
    using plane_inv_count(1) [OF assms] assms by (simp add: plane_inv_def BUS_POOL_N_def unat_word_ariths)
  ultimately show ?thesis using assms by (auto simp: plane_inv_def pool_recover_def)
qed

lemma recover_all_inv: "plane_inv N (bs @ held) s \<Longrightarrow> plane_inv N held (fold pool_recover bs s)"
  by (induction bs arbitrary: s) (simp_all add: recover_inv)

lemma recover_keeps [simp]:
  "g_nodes (fold pool_recover bs s) = g_nodes s" "g_active_idx (fold pool_recover bs s) = g_active_idx s"
  "g_bufs (fold pool_recover bs s) = g_bufs s" "g_corr (fold pool_recover bs s) = g_corr s"
  "g_pool_exhausted (fold pool_recover bs s) = g_pool_exhausted s"
  by (induction bs arbitrary: s) (simp_all add: pool_recover_def)

lemma fill_less [simp]: "fill_idx s < 2" by (simp add: fill_idx_def)

lemma node_at: "plane_inv N held s \<Longrightarrow> i < length (g_nodes s) \<Longrightarrow> length (bn_list (g_nodes s ! i)) = 2"
  by (simp add: plane_inv_def)

lemma plane_inv_nodes:
  assumes "plane_inv N held s" "i < length (g_nodes s)" "a < 2" "mset held' + mset l = mset held + mset (bn_list (g_nodes s ! i) ! a)"
    "length bufs = BUS_POOL_N"
  shows "plane_inv N held' (s\<lparr>g_bufs := bufs, g_nodes := (g_nodes s)[i := (g_nodes s ! i)\<lparr>bn_list := (bn_list (g_nodes s ! i))[a := l]\<rparr>]\<rparr>)"
proof -
  let ?s = "s\<lparr>g_nodes := (g_nodes s)[i := (g_nodes s ! i)\<lparr>bn_list := (bn_list (g_nodes s ! i))[a := l]\<rparr>]\<rparr>"
  have two: "length (bn_list (g_nodes s ! i)) = 2" by (rule node_at [OF assms(1,2)])
  have q: "mset (queued ?s) + mset (bn_list (g_nodes s ! i) ! a) = mset (queued s) + mset l"
    using queued_update [OF assms(2), of a l] two assms(3) by simp
  have "mset held' + mset (queued ?s) = mset held + mset (queued s)"
    using mset_exchange [of "mset l" "mset held'" "mset (bn_list (g_nodes s ! i) ! a)" "mset held" "mset (queued ?s)" "mset (queued s)"]
      assms(4) q by (simp add: ac_simps)
  moreover have "queued (s\<lparr>g_bufs := bufs, g_nodes := g_nodes ?s\<rparr>) = queued ?s" by (simp add: queued_def)
  ultimately have m: "mset (held' @ g_pool_free s @ queued (s\<lparr>g_bufs := bufs, g_nodes := g_nodes ?s\<rparr>)) = mset (held @ g_pool_free s @ queued s)"
    by (simp add: ac_simps)
  show ?thesis
    by (rule plane_inv_cong [OF assms(1)])
      (use m assms(1,5) two in \<open>simp_all add: plane_inv_def del: mset_append, auto dest!: set_update_subset_insert [THEN subsetD]\<close>)
qed

lemma send_inv:
  assumes "plane_inv N held s"
  shows "plane_inv N held (snd (bus_msg_send d p t s))"
proof (cases "pool_grab s")
  case (Pair r s1)
  show ?thesis
  proof (cases r)
    case None
    then have "s1 = s" using Pair by (auto simp: pool_grab_def Let_def split: list.splits)
    then show ?thesis using assms by (simp add: bus_msg_send_def Pair None plane_inv_def queued_def)
  next
    case (Some b)
    have g: "plane_inv N (b # held) s1" using grab_inv [OF assms Pair [unfolded Some]] by simp
    have len: "length (g_bufs s1) = BUS_POOL_N" using g by (simp add: plane_inv_def)
    show ?thesis
    proof (cases "node_index_of d s1")
      case None
      have "plane_inv N (b # held) (s1\<lparr>g_bufs := bufs\<rparr>)" if "length bufs = BUS_POOL_N" for bufs
        using g that by (simp add: plane_inv_def queued_def)
      then show ?thesis using len by (simp add: bus_msg_send_def Pair Some None Let_def recover_inv)
    next
      case (Some i)
      then have "i < length (g_nodes s1)" by (simp add: node_index_of_def find_idx_SomeD)
      then show ?thesis using len
        by (simp add: bus_msg_send_def Pair \<open>r = Some b\<close> Some Let_def node_push_def plane_inv_nodes [OF g])
    qed
  qed
qed

lemma swap_inv: "plane_inv N held s \<Longrightarrow> plane_inv N held (bus_pingpong_swap s)"
  by (simp add: plane_inv_def bus_pingpong_swap_def queued_def)

lemma take_inv:
  assumes "plane_inv N held s" "i < length (g_nodes s)" "take_list i s = (bs, s')"
  shows "plane_inv N (bs @ held) s'"
proof -
  have "plane_inv N (bs @ held) (s\<lparr>g_bufs := g_bufs s, g_nodes := (g_nodes s)[i := (g_nodes s ! i)\<lparr>bn_list :=
      (bn_list (g_nodes s ! i))[g_active_idx s := []]\<rparr>]\<rparr>)"
    using assms by (intro plane_inv_nodes [OF assms(1,2)]) (auto simp: plane_inv_def take_list_def Let_def)
  then show ?thesis using assms(3) by (auto simp: take_list_def Let_def)
qed

lemma length_node_insert [simp]: "length (node_insert e ns) = Suc (length ns)"
  by (induction ns) simp_all

lemma set_node_insert [simp]: "set (node_insert e ns) = insert e (set ns)"
  by (induction ns) auto

lemma build_shape:
  "length (foldl (\<lambda>ns (addr, en). node_insert (fresh_node addr en) ns) ns ros) = length ns + length ros"
  "set (foldl (\<lambda>ns (addr, en). node_insert (fresh_node addr en) ns) ns ros) = set ns \<union> (\<lambda>(a, e). fresh_node a e) ` set ros"
  by (induction ros arbitrary: ns) auto

lemma build_nodes:
  "length (bus_nodetable_build ros) \<le> ROSTER_MAX"
  "n \<in> set (bus_nodetable_build ros) \<Longrightarrow> bn_list n = [[], []] \<and> \<not> bn_dead n \<and> bn_miss n = 0"
proof -
  show "length (bus_nodetable_build ros) \<le> ROSTER_MAX" unfolding bus_nodetable_build_def build_shape by simp
  assume "n \<in> set (bus_nodetable_build ros)"
  then obtain a e where "n = fresh_node a e" unfolding bus_nodetable_build_def build_shape by auto
  then show "bn_list n = [[], []] \<and> \<not> bn_dead n \<and> bn_miss n = 0" by (simp add: fresh_node_def)
qed

lemma queued_build: "queued (s\<lparr>g_nodes := bus_nodetable_build ros, g_corr := c\<rparr>) = []"
  by (auto simp: queued_def dest: build_nodes(2))

lemma rebuild_inv: "plane_inv N held s \<Longrightarrow> plane_inv N held (bus_rebuild ros s)"
proof -
  assume inv: "plane_inv N held s"
  let ?s = "s\<lparr>g_nodes := bus_nodetable_build ros, g_corr := map (\<lambda>c. c\<lparr>cc_used := False\<rparr>) (g_corr s)\<rparr>"
  have "plane_inv N (rev (queued s) @ held) ?s"
    using inv build_nodes by (intro plane_inv_cong [OF inv]) (auto simp: queued_build plane_inv_def ac_simps)
  from recover_all_inv [OF this] show ?thesis by (simp add: bus_rebuild_def Let_def fold_Cons_rev)
qed

lemma corr_inv:
  "plane_inv N held s \<Longrightarrow> plane_inv N held (snd (corr_add r a io h s))"
  "plane_inv N held s \<Longrightarrow> plane_inv N held (snd (corr_take r a s))"
  by (auto simp: corr_add_def corr_take_def plane_inv_def queued_def split: option.split)

section \<open>What a producer attaches\<close>

definition list_msgs :: "nat \<Rightarrow> nat \<Rightarrow> plane \<Rightarrow> u8 list list" where
  "list_msgs a i s = map (\<lambda>b. tb_payload (g_bufs s ! b)) (bn_list (g_nodes s ! i) ! a)"

lemma queued_mem:
  assumes "plane_inv N held s" "i < length (g_nodes s)" "a < 2" "b \<in> set (bn_list (g_nodes s ! i) ! a)"
  shows "b \<in> set (queued s)"
proof -
  have "bn_list (g_nodes s ! i) ! a \<in> set (bn_list (g_nodes s ! i))" using node_at [OF assms(1,2)] assms(3) by simp
  moreover have "g_nodes s ! i \<in> set (g_nodes s)" using assms(2) by simp
  ultimately show ?thesis using assms(4) unfolding queued_def by fastforce
qed

lemma send_result:
  "fst (bus_msg_send d p t s) \<longleftrightarrow> g_pool_free s \<noteq> [] \<and> node_index_of d s \<noteq> None"
  by (auto simp: bus_msg_send_def pool_grab_def node_index_of_def Let_def split: list.split option.split)

lemma send_msgs:
  assumes inv: "plane_inv N held s" and i: "i < length (g_nodes s)" and a: "a < 2" and ok: "bus_msg_send d p t s = (ok, s')"
  shows "list_msgs a i s' = (if ok \<and> node_index_of d s = Some i \<and> a = fill_idx s then take BUS_PAYLOAD_MAX p # list_msgs a i s else list_msgs a i s)"
proof (cases "g_pool_free s")
  case Nil
  then show ?thesis using ok by (auto simp: bus_msg_send_def pool_grab_def list_msgs_def)
next
  case (Cons b bs)
  have "distinct (held @ g_pool_free s @ queued s)" by (rule plane_inv_count [OF inv])
  then have fresh: "b \<notin> set (queued s)" using Cons by auto
  have b: "b < length (g_bufs s)" using plane_inv_count(3) [OF inv, of b] inv Cons by (simp add: plane_inv_def)
  have other: "c \<in> set (bn_list (g_nodes s ! j) ! e) \<Longrightarrow> c \<noteq> b" if "j < length (g_nodes s)" "e < 2" for j e c
    using queued_mem [OF inv that] fresh by blast
  have fl: "fill_idx (s\<lparr>g_pool_free := bs, g_pool_avail := x, g_pool_low := y\<rparr>) = fill_idx s" for x y by (simp add: fill_idx_def)
  show ?thesis
  proof (cases "node_index_of d s")
    case None
    have "(g_bufs s)[b := v] ! c = g_bufs s ! c" if "c \<in> set (bn_list (g_nodes s ! i) ! a)" for c v
      using other [OF i a that] by simp
    then show ?thesis using ok None Cons
      by (auto simp: bus_msg_send_def pool_grab_def list_msgs_def node_index_of_def Let_def pool_recover_def)
  next
    case (Some j)
    then have j: "j < length (g_nodes s)" by (simp add: node_index_of_def find_idx_SomeD)
    have "ok" "bn_list (g_nodes s' ! i) ! a = (if i = j \<and> a = fill_idx s then b # bn_list (g_nodes s ! i) ! a else bn_list (g_nodes s ! i) ! a)"
      "g_bufs s' ! b = \<lparr>tb_dest_node = word_of_nat j, tb_payload = take BUS_PAYLOAD_MAX p, tb_origin_tag = t\<rparr>"
      "c \<noteq> b \<Longrightarrow> g_bufs s' ! c = g_bufs s ! c" for c
      using ok Some Cons j i a b node_at [OF inv i]
      by (auto simp: bus_msg_send_def pool_grab_def node_index_of_def Let_def fl node_push_def nth_list_update)
    then show ?thesis using Some other [OF i a] by (auto simp: list_msgs_def)
  qed
qed

section \<open>Carving the pool\<close>

lemma recover_fold:
  "g_pool_free (fold pool_recover bs s) = rev bs @ g_pool_free s"
  "g_pool_avail (fold pool_recover bs s) = g_pool_avail s + word_of_nat (length bs)"
  "g_pool_low (fold pool_recover bs s) = g_pool_low s"
  by (induction bs arbitrary: s) (simp_all add: pool_recover_def)

lemma grab_all_spec:
  "plane_inv N held s \<Longrightarrow> grab_all k s = (got, s') \<Longrightarrow>
   plane_inv N (rev got @ held) s' \<and> got = take k (g_pool_free s) \<and> g_pool_free s' = drop k (g_pool_free s)"
proof (induction k arbitrary: held s got)
  case (Suc k)
  show ?case
  proof (cases "g_pool_free s")
    case Nil
    then show ?thesis using Suc.prems by (simp add: pool_grab_def)
  next
    case (Cons b bs)
    then obtain s1 where g: "pool_grab s = (Some b, s1)" "g_pool_free s1 = bs" by (simp add: pool_grab_def Let_def)
    obtain got1 where a: "grab_all k s1 = (got1, s')" "got = b # got1"
      using Suc.prems(2) g(1) by (auto split: prod.splits)
    have "plane_inv N (b # held) s1" using grab_inv [OF Suc.prems(1) g(1)] by simp
    from Suc.IH [OF this a(1)] show ?thesis using a(2) g(2) Cons by auto
  qed
qed simp

lemma pool_init_spec:
  assumes "queued s = []" "length (g_bufs s) = BUS_POOL_N" "g_active_idx s < 2" "\<forall>n \<in> set (g_nodes s). length (bn_list n) = 2"
    "length (g_nodes s) \<le> ROSTER_MAX" "length (g_corr s) = CMDCORR_MAX"
  shows "fst (bus_pool_init carved s) = min carved BUS_POOL_N
    \<and> plane_inv (min carved BUS_POOL_N) [] (snd (bus_pool_init carved s))
    \<and> length (g_pool_free (snd (bus_pool_init carved s))) = min carved BUS_POOL_N"
proof -
  let ?N = "min carved BUS_POOL_N"
  define s1 where "s1 = fold pool_recover [0..<?N] (s\<lparr>g_pool_free := [], g_pool_avail := 0\<rparr>)"
  define s2 where "s2 = s1\<lparr>g_pool_low := g_pool_avail s1\<rparr>"
  have N: "?N \<le> BUS_POOL_N" "?N < 65536" by (simp_all add: BUS_POOL_N_def)
  have s1: "g_pool_free s1 = rev [0..<?N]" "unat (g_pool_avail s1) = ?N" "g_nodes s1 = g_nodes s" "g_bufs s1 = g_bufs s"
      "g_active_idx s1 = g_active_idx s" "g_corr s1 = g_corr s"
    using N(2) by (simp_all add: s1_def recover_fold unat_of_nat)
  have "queued s2 = []" using assms(1) s1(3) by (simp add: queued_def s2_def)
  then have inv: "plane_inv ?N [] s2" using assms N(1) s1 by (simp add: plane_inv_def s2_def)
  obtain got s3 where g: "grab_all ?N s2 = (got, s3)" by fastforce
  from grab_all_spec [OF inv this] have a: "plane_inv ?N (rev got) s3" "length got = ?N" "g_pool_free s3 = []"
    by (auto simp: s2_def s1(1))
  then have e: "pool_grab s3 = (None, s3)" by (simp add: pool_grab_def)
  have "mset (rev got) = mset got" by simp
  then have "plane_inv ?N got s3" using a(1) by (simp add: plane_inv_def)
  then have fin: "plane_inv ?N [] (fold pool_recover got s3)" using recover_all_inv [of ?N got "[]"] by simp
  have "length (g_pool_free (fold pool_recover got s3)) = ?N" by (simp add: recover_fold a)
  moreover from this have "unat (g_pool_avail (fold pool_recover got s3)) = ?N" using fin by (simp add: plane_inv_def)
  moreover have "bus_pool_init carved s = (if length got = ?N \<and> unat (g_pool_avail (fold pool_recover got s3)) = ?N then ?N else 0, fold pool_recover got s3)"
    by (simp add: bus_pool_init_def Let_def s1_def [symmetric] s2_def [symmetric] s1(2) g e)
  ultimately show ?thesis using fin a(2) by simp
qed

text \<open>
  The buffer pool after \<open>bus_pool_init\<close>: all buffers the allocator yields are free, and the self-test, which grabs
  all of them, finds the pool empty and returns them, reports exactly their number.
\<close>

theorem bus_pool_init_correct:
  assumes "plane_inv N [] s" "queued s = []"
  shows "fst (bus_pool_init carved s) = min carved BUS_POOL_N
    \<and> plane_inv (min carved BUS_POOL_N) [] (snd (bus_pool_init carved s))
    \<and> length (g_pool_free (snd (bus_pool_init carved s))) = min carved BUS_POOL_N"
  using pool_init_spec assms by (simp add: plane_inv_def)

lemma plane0_inv: "plane_inv 0 [] plane0" "queued plane0 = []"
  by (simp_all add: plane_inv_def plane0_def queued_def)

theorem bus_pool_init_correct_witness: "fst (bus_pool_init 30 plane0) = 24 \<and> length (g_pool_free (snd (bus_pool_init 30 plane0))) = 24"
  using bus_pool_init_correct [OF plane0_inv, of 30] by (simp add: BUS_POOL_N_def)

section \<open>Any interleaving\<close>

text \<open>
  The steps the tasks of the two cores take on the plane, each inside its critical section: producers send, the bus task
  swaps, takes a list and gives single buffers back, rebuilds the table, and correlations come and go.  \<open>held\<close> are the
  buffers the bus task has taken and not given back.
\<close>

inductive plane_step :: "nat list \<times> plane \<Rightarrow> nat list \<times> plane \<Rightarrow> bool" where
  step_send: "plane_step (held, s) (held, snd (bus_msg_send d p t s))"
| step_swap: "plane_step (held, s) (held, bus_pingpong_swap s)"
| step_take: "i < length (g_nodes s) \<Longrightarrow> take_list i s = (bs, s') \<Longrightarrow> plane_step (held, s) (bs @ held, s')"
| step_recover: "plane_step (b # held, s) (held, pool_recover b s)"
| step_rebuild: "plane_step (held, s) (held, bus_rebuild ros s)"
| step_corr_add: "plane_step (held, s) (held, snd (corr_add r a io h s))"
| step_corr_take: "plane_step (held, s) (held, snd (corr_take r a s))"

lemma plane_step_inv: "plane_step x y \<Longrightarrow> plane_inv N (fst x) (snd x) \<Longrightarrow> plane_inv N (fst y) (snd y)"
  by (induction rule: plane_step.induct) (simp_all add: send_inv swap_inv take_inv recover_inv rebuild_inv corr_inv)

lemma plane_steps_inv: "plane_step\<^sup>*\<^sup>* x y \<Longrightarrow> plane_inv N (fst x) (snd x) \<Longrightarrow> plane_inv N (fst y) (snd y)"
  by (induction rule: rtranclp_induct) (auto intro: plane_step_inv)


definition plane_with :: "(u8 \<times> bool) list \<Rightarrow> plane" where
  "plane_with ros = (snd (bus_pool_init 30 plane0))\<lparr>g_nodes := bus_nodetable_build ros\<rparr>"

definition ready_plane :: plane where
  "ready_plane = plane_with [(9, True), (5, True)]"

lemma build_inv: "plane_inv N held s \<Longrightarrow> queued s = [] \<Longrightarrow> plane_inv N held (s\<lparr>g_nodes := bus_nodetable_build ros\<rparr>)"
  using queued_build [where s = s and ros = ros and c = "g_corr s"] build_nodes by (auto simp: plane_inv_def)

lemma plane_with_inv: "plane_inv 24 [] (plane_with ros)" "queued (plane_with ros) = []"
proof -
  have inv: "plane_inv 24 [] (snd (bus_pool_init 30 plane0))"
    using pool_init_spec [of plane0 30] plane0_inv by (simp add: plane_inv_def BUS_POOL_N_def)
  have q: "queued (snd (bus_pool_init 30 plane0)) = []"
    using plane_inv_count(1) [OF inv] pool_init_spec [of plane0 30] plane0_inv by (simp add: plane_inv_def BUS_POOL_N_def)
  show "plane_inv 24 [] (plane_with ros)" using inv q by (simp add: plane_with_def build_inv)
  show "queued (plane_with ros) = []"
    using queued_build [where s = "snd (bus_pool_init 30 plane0)" and ros = ros and c = "g_corr (snd (bus_pool_init 30 plane0))"]
    by (simp add: plane_with_def queued_def)
qed

lemma ready_inv: "plane_inv 24 [] ready_plane"
  by (simp add: ready_plane_def plane_with_inv)


section \<open>The self-test of the two lists\<close>

definition waiting :: "nat \<Rightarrow> plane \<Rightarrow> nat" where
  "waiting a s = (\<Sum>i<length (g_nodes s). length (bn_list (g_nodes s ! i) ! a))"

lemma waiting_update:
  "i < length (g_nodes s) \<Longrightarrow> g_nodes s' = (g_nodes s)[i := n] \<Longrightarrow>
   waiting a s' + length (bn_list (g_nodes s ! i) ! a) = waiting a s + length (bn_list n ! a)"
proof -
  assume i: "i < length (g_nodes s)" and s': "g_nodes s' = (g_nodes s)[i := n]"
  have "waiting a s' = length (bn_list n ! a) + (\<Sum>j\<in>{..<length (g_nodes s)} - {i}. length (bn_list (g_nodes s ! j) ! a))"
    using i by (simp add: waiting_def s' sum.remove [of _ i])
  moreover have "waiting a s = length (bn_list (g_nodes s ! i) ! a) + (\<Sum>j\<in>{..<length (g_nodes s)} - {i}. length (bn_list (g_nodes s ! j) ! a))"
    using i by (simp add: waiting_def sum.remove [of _ i])
  ultimately show ?thesis by simp
qed

lemma send_shape:
  assumes inv: "plane_inv N held s" and ok: "bus_msg_send d p t s = (ok, s')"
  shows "g_active_idx s' = g_active_idx s \<and> map bn_addr (g_nodes s') = map bn_addr (g_nodes s)
    \<and> length (g_pool_free s') + (if ok then 1 else 0) = length (g_pool_free s)
    \<and> waiting (fill_idx s) s' = waiting (fill_idx s) s + (if ok then 1 else 0)"
proof (cases "ok")
  case False
  then show ?thesis using ok
    by (auto simp: bus_msg_send_def pool_grab_def Let_def pool_recover_def waiting_def split: list.splits option.splits)
next
  case True
  then obtain b bs j where f: "g_pool_free s = b # bs" "node_index_of d s = Some j"
    using send_result [of d p t s] ok by (auto simp: neq_Nil_conv)
  then have j: "j < length (g_nodes s)" by (simp add: node_index_of_def find_idx_SomeD)
  have s': "g_nodes s' = (g_nodes s)[j := node_push (fill_idx s) b (g_nodes s ! j)]" "g_active_idx s' = g_active_idx s" "g_pool_free s' = bs"
    using ok f by (auto simp: bus_msg_send_def pool_grab_def Let_def node_index_of_def fill_idx_def)
  have "map bn_addr (g_nodes s') = map bn_addr (g_nodes s)"
    using j by (simp add: s' map_update node_push_def) (metis list_update_id nth_map)
  then show ?thesis using s' f True waiting_update [OF j s'(1), of "fill_idx s"] node_at [OF inv j] by (simp add: node_push_def)
qed

lemma known_index: "d \<in> set (map bn_addr (g_nodes s)) \<Longrightarrow> node_index_of d s \<noteq> None"
  by (auto simp: node_index_of_def find_idx_None_set)

lemma send_all_spec:
  assumes "plane_inv N held s" "\<forall>m \<in> set ms. fst m \<in> set (map bn_addr (g_nodes s))" "send_all ms s = (k, s')"
  shows "plane_inv N held s' \<and> k = min (length ms) (length (g_pool_free s)) \<and> g_active_idx s' = g_active_idx s
    \<and> map bn_addr (g_nodes s') = map bn_addr (g_nodes s) \<and> length (g_pool_free s') + k = length (g_pool_free s)
    \<and> waiting (fill_idx s) s' = waiting (fill_idx s) s + k"
  using assms
proof (induction ms arbitrary: s k)
  case (Cons m ms)
  obtain d p t where m: "m = (d, p, t)" by (metis prod_cases3)
  obtain ok s1 n where e: "bus_msg_send d p t s = (ok, s1)" "send_all ms s1 = (n, s')" "k = (if ok then Suc n else n)"
    using Cons.prems(3) m by (auto split: prod.splits)
  have inv: "plane_inv N held s1" using send_inv [OF Cons.prems(1), of d p t] e(1) by simp
  note sh = send_shape [OF Cons.prems(1) e(1)]
  have "ok \<longleftrightarrow> g_pool_free s \<noteq> []" using send_result [of d p t s] e(1) Cons.prems(2) known_index m by auto
  moreover have "fill_idx s1 = fill_idx s" using sh by (simp add: fill_idx_def)
  ultimately show ?case using Cons.IH [OF inv _ e(2)] Cons.prems(2) sh e(3) by (cases "g_pool_free s") (auto split: if_splits)
qed simp

lemma drain_node_spec:
  assumes "plane_inv N [] s" "i < length (g_nodes s)" "drain_node i s = (k, s')"
  shows "plane_inv N [] s' \<and> k = length (bn_list (g_nodes s ! i) ! g_active_idx s) \<and> g_active_idx s' = g_active_idx s
    \<and> length (g_pool_free s') = length (g_pool_free s) + k \<and> length (g_nodes s') = length (g_nodes s)
    \<and> (\<forall>j. j \<noteq> i \<longrightarrow> g_nodes s' ! j = g_nodes s ! j)"
proof -
  obtain bs s1 where t: "take_list i s = (bs, s1)" by fastforce
  then have "s' = fold pool_recover bs s1" "k = length bs" using assms(3) by (simp_all add: drain_node_def)
  moreover have "plane_inv N (bs @ []) s1" using take_inv [OF assms(1,2) t] by simp
  ultimately show ?thesis using recover_all_inv [of N bs "[]" s1] t by (auto simp: take_list_def Let_def recover_fold)
qed

lemma drain_all_spec:
  assumes "plane_inv N [] s" "\<forall>i \<in> set is. i < length (g_nodes s)" "distinct is" "drain_all is s = (k, s')"
  shows "plane_inv N [] s' \<and> k = (\<Sum>i \<in> set is. length (bn_list (g_nodes s ! i) ! g_active_idx s))
    \<and> length (g_pool_free s') = length (g_pool_free s) + k"
  using assms
proof (induction "is" arbitrary: s k)
  case (Cons i "is")
  obtain c s1 n where e: "drain_node i s = (c, s1)" "drain_all is s1 = (n, s')" "k = c + n"
    using Cons.prems(4) by (auto split: prod.splits)
  note d = drain_node_spec [OF Cons.prems(1) _ e(1)]
  have "(\<Sum>j \<in> set is. length (bn_list (g_nodes s1 ! j) ! g_active_idx s1)) = (\<Sum>j \<in> set is. length (bn_list (g_nodes s ! j) ! g_active_idx s))"
    using d Cons.prems by (intro sum.cong) auto
  then show ?case using Cons.IH [OF _ _ _ e(2)] d Cons.prems e(3) by simp
qed simp

text \<open>
  The self-test at boot, when no message waits: it succeeds exactly when two buffers per node are free.  With the 24
  buffers of the pool it therefore reports a failure for every table of 13 to 16 nodes, although nothing is wrong.
\<close>

theorem bus_pp_selftest_result:
  assumes "plane_inv N [] s" "queued s = []"
  shows "fst (bus_pp_selftest s) \<longleftrightarrow> length (g_nodes s) * 2 \<le> N"
proof -
  have free: "length (g_pool_free s) = N" using assms mset_eq_length [of "g_pool_free s" "[0..<N]"] by (simp add: plane_inv_def)
  have none: "waiting a s = 0" if "a < 2" for a
    using queued_mem [OF assms(1) _ that] assms(2) by (fastforce simp: waiting_def intro!: sum.neutral)
  obtain k s1 where s1: "send_all (selftest_sends s) s = (k, s1)" by fastforce
  have ms: "\<forall>m \<in> set (selftest_sends s). fst m \<in> set (map bn_addr (g_nodes s))" "length (selftest_sends s) = length (g_nodes s) * 2"
    by (auto simp: selftest_sends_def length_concat comp_def sum_list_triv)
  from send_all_spec [OF assms(1) ms(1) s1] have a: "plane_inv N [] s1" "k = min (length (g_nodes s) * 2) N" "length (g_nodes s1) = length (g_nodes s)"
      "length (g_pool_free s1) + k = N" "waiting (fill_idx s) s1 = k" "fill_idx s1 = fill_idx s"
    using none [of "fill_idx s"] ms(2) free map_eq_imp_length_eq by (auto simp: fill_idx_def)
  let ?w = "bus_pingpong_swap s1"
  obtain n s2 where s2: "drain_all [0..<length (g_nodes s)] ?w = (n, s2)" by fastforce
  have w: "plane_inv N [] ?w" "g_nodes ?w = g_nodes s1" "g_active_idx ?w = fill_idx s" "g_pool_free ?w = g_pool_free s1"
    using swap_inv [OF a(1)] a(6) by (simp_all add: bus_pingpong_swap_def)
  from drain_all_spec [OF w(1) _ _ s2] have d: "plane_inv N [] s2" "n = k" "length (g_pool_free s2) = N"
    using a w by (auto simp: waiting_def lessThan_atLeast0)
  then have "g_pool_avail s2 = g_pool_avail s" using assms(1) free by (simp add: plane_inv_def word_unat_eq_iff)
  moreover have "fst (bus_pp_selftest s) \<longleftrightarrow> k = length (g_nodes s) * 2 \<and> n = k \<and> g_pool_avail s2 = g_pool_avail s"
    by (simp add: bus_pp_selftest_def s1 s2)
  ultimately show ?thesis using a(2) d(2) by auto
qed

theorem bus_pp_selftest_result_witness:
  "fst (bus_pp_selftest ready_plane) \<and> \<not> fst (bus_pp_selftest (plane_with (map (\<lambda>k. (word_of_nat k, True)) [1..<14])))"
proof -
  have "length (g_nodes (plane_with ros)) = min (length ros) 16" for ros
    by (simp add: plane_with_def bus_nodetable_build_def build_shape ROSTER_MAX_def)
  then show ?thesis unfolding ready_plane_def using bus_pp_selftest_result [OF plane_with_inv] by (simp del: upt_Suc)
qed

end
