(* ===== verification/Slip_Frame.thy ===== *)
theory Slip_Frame
  imports Interfaces Bus_Crc8
begin

text \<open>
  The frame codec of the host link (\<^verbatim>\<open>src/port/rp2040/vendor/libcomm/frame.c\<close>): a byte ring with free-running
  32-bit counters, the SLIP encoder that stages a whole frame or nothing, and the incremental
  decoder.  The buffer of the decoder is the list of the bytes it has collected.
\<close>

unbundle bit_operations_syntax

definition FRAME_END :: u8 where "FRAME_END = 0xC0"
definition FRAME_ESC :: u8 where "FRAME_ESC = 0xDB"
definition FRAME_ESC_END :: u8 where "FRAME_ESC_END = 0xDC"
definition FRAME_ESC_ESC :: u8 where "FRAME_ESC_ESC = 0xDD"
definition COMM_PAYLOAD_MAX :: nat where "COMM_PAYLOAD_MAX = 128"
definition FRAME_BUFFER_MAX :: nat where "FRAME_BUFFER_MAX = 7 + COMM_PAYLOAD_MAX + 1"

lemmas slip_bytes = FRAME_END_def FRAME_ESC_def FRAME_ESC_END_def FRAME_ESC_ESC_def

section \<open>The byte ring\<close>

record ring =
  r_buf :: "u8 list"
  r_mask :: u32
  r_head :: u32
  r_tail :: u32

definition frame_ring_init :: "u8 list \<Rightarrow> u32 \<Rightarrow> ring" where
  "frame_ring_init buf sz = \<lparr>r_buf = buf, r_mask = sz - 1, r_head = 0, r_tail = 0\<rparr>"

definition frame_ring_used :: "ring \<Rightarrow> u32" where
  "frame_ring_used r = r_head r - r_tail r"

definition frame_ring_free :: "ring \<Rightarrow> u32" where
  "frame_ring_free r = (r_mask r + 1) - frame_ring_used r"

definition ring_write_byte_unchecked :: "u8 \<Rightarrow> ring \<Rightarrow> ring" where
  "ring_write_byte_unchecked b r = r\<lparr>r_buf := (r_buf r)[unat (r_head r AND r_mask r) := b], r_head := r_head r + 1\<rparr>"

definition frame_ring_write_byte :: "u8 \<Rightarrow> ring \<Rightarrow> bool \<times> ring" where
  "frame_ring_write_byte b r = (if frame_ring_free r = 0 then (False, r) else (True, ring_write_byte_unchecked b r))"

definition frame_ring_read_byte :: "ring \<Rightarrow> u8 option \<times> ring" where
  "frame_ring_read_byte r = (if r_tail r = r_head r then (None, r)
     else (Some (r_buf r ! unat (r_tail r AND r_mask r)), r\<lparr>r_tail := r_tail r + 1\<rparr>))"

definition frame_ring_read_drain :: "u32 \<Rightarrow> ring \<Rightarrow> u8 list \<times> ring" where
  "frame_ring_read_drain max_n r =
     (let avail = frame_ring_used r; n = (if avail < max_n then avail else max_n)
      in (map (\<lambda>i. r_buf r ! unat ((r_tail r + word_of_nat i) AND r_mask r)) [0..<unat n], r\<lparr>r_tail := r_tail r + n\<rparr>))"

text \<open>What the ring holds: the bytes between the counters, oldest first.\<close>

definition ring_items :: "ring \<Rightarrow> u8 list" where
  "ring_items r = map (\<lambda>i. r_buf r ! unat ((r_tail r + word_of_nat i) AND r_mask r)) [0..<unat (frame_ring_used r)]"

definition ring_inv :: "ring \<Rightarrow> bool" where
  [inv_defs]: "ring_inv r \<longleftrightarrow> (\<exists>k<32. r_mask r = mask k \<and> length (r_buf r) = 2 ^ k \<and> unat (frame_ring_used r) \<le> 2 ^ k)"

lemma and_mask_nat: "k < 32 \<Longrightarrow> unat ((w :: u32) AND mask k) = unat w mod 2 ^ k"
  by (metis take_bit_eq_mask take_bit_eq_mod unsigned_take_bit_eq)

lemma index_nat:
  assumes "k < 32"
  shows "unat (((t :: u32) + word_of_nat i) AND mask k) = (unat t + i) mod 2 ^ k"
proof -
  have d: "(2 :: nat) ^ k dvd 2 ^ 32" by (rule le_imp_power_dvd) (use assms in simp)
  have "unat (t + word_of_nat i) = (unat t + i) mod 2 ^ 32"
    by (simp add: unat_word_ariths unat_of_nat mod_add_right_eq)
  then have "unat ((t + word_of_nat i) AND mask k) = (unat t + i) mod 2 ^ 32 mod 2 ^ k" using assms by (simp only: and_mask_nat)
  then show ?thesis using mod_mod_cancel [OF d, of "unat t + i"] by (simp only:)
qed

lemma ring_free_nat:
  assumes "r_mask r = mask k" "k < 32" "unat (frame_ring_used r) \<le> 2 ^ k"
  shows "unat (frame_ring_free r) = 2 ^ k - unat (frame_ring_used r)"
proof -
  have m: "r_mask r + 1 = 2 ^ k" by (simp add: assms(1) mask_eq_exp_minus_1)
  have "(2 :: nat) ^ k < 2 ^ 32" using assms(2) by (intro power_strict_increasing) simp_all
  then have u: "unat (2 ^ k :: u32) = 2 ^ k" using unat_of_nat [of "2 ^ k", where ?'a = 32] by (simp add: take_bit_eq_mod)
  have "frame_ring_used r \<le> 2 ^ k" using assms(3) u by (simp add: word_le_nat_alt)
  then show ?thesis using unat_sub [of "frame_ring_used r" "2 ^ k"] u m by (simp add: frame_ring_free_def)
qed

lemma ring_write:
  assumes inv: "ring_inv r" and free: "0 < unat (frame_ring_free r)"
  shows "ring_inv (ring_write_byte_unchecked b r) \<and> ring_items (ring_write_byte_unchecked b r) = ring_items r @ [b] \<and>
    unat (frame_ring_free (ring_write_byte_unchecked b r)) = unat (frame_ring_free r) - 1"
proof -
  let ?r = "ring_write_byte_unchecked b r"
  obtain k where k: "k < 32" "r_mask r = mask k" "length (r_buf r) = 2 ^ k" "unat (frame_ring_used r) \<le> 2 ^ k"
    using inv by (auto simp: ring_inv_def)
  define u where "u = unat (frame_ring_used r)"
  have f: "unat (frame_ring_free r) = 2 ^ k - u" using ring_free_nat [OF k(2,1,4)] by (simp add: u_def)
  then have u: "u < 2 ^ k" using free by simp
  have "(2 :: nat) ^ k \<le> 2 ^ 31" using k(1) by (intro power_increasing) simp_all
  then have u31: "u < 2 ^ 31" using u by linarith
  have used: "frame_ring_used ?r = frame_ring_used r + 1" by (simp add: frame_ring_used_def ring_write_byte_unchecked_def)
  have used_nat: "unat (frame_ring_used ?r) = u + 1"
    unfolding used using u31 by (simp add: unat_word_ariths u_def)
  have sel: "r_mask ?r = mask k" "r_tail ?r = r_tail r" "r_buf ?r = (r_buf r)[(unat (r_tail r) + u) mod 2 ^ k := b]"
  proof -
    have "r_head r = r_tail r + word_of_nat u" by (simp add: u_def frame_ring_used_def)
    then show "r_buf ?r = (r_buf r)[(unat (r_tail r) + u) mod 2 ^ k := b]"
      using index_nat [OF k(1), of "r_tail r" u] k(2) by (simp add: ring_write_byte_unchecked_def)
  qed (simp_all add: ring_write_byte_unchecked_def k)
  have other: "(unat (r_tail r) + u) mod 2 ^ k \<noteq> (unat (r_tail r) + i) mod 2 ^ k" if "i < u" for i
  proof
    assume "(unat (r_tail r) + u) mod 2 ^ k = (unat (r_tail r) + i) mod 2 ^ k"
    then have "(unat (r_tail r) + i) mod 2 ^ k = (unat (r_tail r) + u) mod 2 ^ k" by simp
    then have "2 ^ k dvd u - i" using that mod_eq_dvd_iff_nat [of "unat (r_tail r) + i" "unat (r_tail r) + u" "2 ^ k"] by simp
    then show False using that u by (auto dest: dvd_imp_le)
  qed
  have "ring_items ?r = map (\<lambda>i. (r_buf r)[(unat (r_tail r) + u) mod 2 ^ k := b] ! ((unat (r_tail r) + i) mod 2 ^ k)) [0..<u] @ [b]"
    unfolding ring_items_def used_nat sel using k(3) by (simp add: index_nat [OF k(1)])
  also have "\<dots> = ring_items r @ [b]"
    unfolding ring_items_def u_def [symmetric] k(2) by (simp add: index_nat [OF k(1)] nth_list_update_neq [OF other])
  finally have items: "ring_items ?r = ring_items r @ [b]" .
  have "ring_inv ?r" unfolding ring_inv_def using k(1,3) sel used_nat u by (intro exI [of _ k]) simp
  moreover have "unat (frame_ring_free ?r) = unat (frame_ring_free r) - 1"
    using ring_free_nat [of ?r k] k(1) sel(1) used_nat u f by simp
  ultimately show ?thesis using items by blast
qed

lemma ring_drain:
  assumes inv: "ring_inv r"
  shows "ring_inv (snd (frame_ring_read_drain m r))"
    "fst (frame_ring_read_drain m r) @ ring_items (snd (frame_ring_read_drain m r)) = ring_items r"
    "length (fst (frame_ring_read_drain m r)) = min (unat m) (length (ring_items r))"
    "unat (frame_ring_free (snd (frame_ring_read_drain m r)))
      = unat (frame_ring_free r) + length (fst (frame_ring_read_drain m r))"
proof -
  obtain k where k: "k < 32" "r_mask r = mask k" "length (r_buf r) = 2 ^ k" "unat (frame_ring_used r) \<le> 2 ^ k"
    using inv by (auto simp: ring_inv_def)
  define u where "u = unat (frame_ring_used r)"
  define n where "n = min (unat m) u"
  define w where "w = (if frame_ring_used r < m then frame_ring_used r else m)"
  have w: "unat w = n" by (auto simp: w_def n_def u_def word_less_nat_alt min_def)
  let ?d = "frame_ring_read_drain m r"
  have fst: "fst ?d = map (\<lambda>i. r_buf r ! ((unat (r_tail r) + i) mod 2 ^ k)) [0..<n]"
    by (simp add: frame_ring_read_drain_def w_def [symmetric] w k(2) index_nat [OF k(1)])
  have snd: "snd ?d = r\<lparr>r_tail := r_tail r + w\<rparr>" by (simp add: frame_ring_read_drain_def w_def [symmetric])
  have "w \<le> frame_ring_used r" using w by (simp add: word_le_nat_alt n_def u_def)
  then have used: "unat (frame_ring_used (snd ?d)) = u - n"
    using unat_sub [of w "frame_ring_used r"] w by (simp add: snd frame_ring_used_def u_def algebra_simps)
  have idx: "unat (((r_tail r + w) + word_of_nat i) AND mask k) = (unat (r_tail r) + (n + i)) mod 2 ^ k" for i
  proof -
    have "w = word_of_nat n" unfolding w [symmetric] by simp
    then have "(r_tail r + w) + word_of_nat i = r_tail r + word_of_nat (n + i)" by (simp add: add.assoc)
    then show ?thesis using index_nat [OF k(1), of "r_tail r" "n + i"] by (simp only:)
  qed
  have items: "ring_items (snd ?d) = map (\<lambda>i. r_buf r ! ((unat (r_tail r) + (n + i)) mod 2 ^ k)) [0..<u - n]"
    unfolding ring_items_def used by (simp add: snd k(2) idx)
  have split: "[0..<u] = [0..<n] @ map ((+) n) [0..<u - n]"
  proof -
    have "n \<le> u" by (simp add: n_def)
    moreover have "map ((+) n) [0..<u - n] = [n..<u]" by (rule nth_equalityI) simp_all
    ultimately show ?thesis using upt_add_eq_append [of 0 n "u - n"] by simp
  qed
  have all: "ring_items r = map (\<lambda>i. r_buf r ! ((unat (r_tail r) + i) mod 2 ^ k)) [0..<u]"
    by (simp add: ring_items_def u_def k(2) index_nat [OF k(1)])
  show "fst ?d @ ring_items (snd ?d) = ring_items r" unfolding fst items all split by (simp add: comp_def)
  show len: "length (fst ?d) = min (unat m) (length (ring_items r))" by (simp add: fst all n_def)
  show "ring_inv (snd ?d)" unfolding ring_inv_def using k used u_def by (intro exI [of _ k]) (simp add: snd)
  show "unat (frame_ring_free (snd ?d)) = unat (frame_ring_free r) + length (fst ?d)"
    using ring_free_nat [OF k(2,1,4)] ring_free_nat [of "snd ?d" k] k used
    by (simp add: snd fst n_def u_def)
qed

interpretation ring: bounded_fifo ring_inv ring_items "\<lambda>r. unat (frame_ring_free r)" ring_write_byte_unchecked frame_ring_read_drain unat
  by unfold_locales (simp_all add: ring_write ring_drain)

section \<open>The encoder\<close>

record frame_meta =
  m_addr :: u8
  m_cmd :: u16
  m_seq :: u8
  m_ack_seq :: u8
  m_ack_status :: u8
  m_payload_len :: u8

text \<open>One SLIP-escaped byte; the flag says whether it fitted.\<close>

definition slip_emit_byte :: "u8 \<Rightarrow> ring \<Rightarrow> bool \<times> ring" where
  "slip_emit_byte b r =
     (if b = FRAME_END then
        (if frame_ring_free r < 2 then (False, r)
         else (True, ring_write_byte_unchecked FRAME_ESC_END (ring_write_byte_unchecked FRAME_ESC r)))
      else if b = FRAME_ESC then
        (if frame_ring_free r < 2 then (False, r)
         else (True, ring_write_byte_unchecked FRAME_ESC_ESC (ring_write_byte_unchecked FRAME_ESC r)))
      else if frame_ring_free r < 1 then (False, r)
      else (True, ring_write_byte_unchecked b r))"

fun slip_emit_all :: "u8 list \<Rightarrow> ring \<Rightarrow> bool \<times> ring" where
  "slip_emit_all [] r = (True, r)"
| "slip_emit_all (b # bs) r = (case slip_emit_byte b r of (ok, r') \<Rightarrow> if ok then slip_emit_all bs r' else (False, r'))"

definition s2m_header :: "frame_meta \<Rightarrow> u8 list" where
  "s2m_header m = [m_addr m, ucast (m_cmd m AND 0xFF), ucast (drop_bit 8 (m_cmd m) AND 0xFF), m_seq m,
     m_ack_seq m, m_ack_status m, m_payload_len m]"

definition m2s_header :: "frame_meta \<Rightarrow> u8 list" where
  "m2s_header m = [m_addr m, ucast (m_cmd m AND 0xFF), ucast (drop_bit 8 (m_cmd m) AND 0xFF), m_seq m, m_payload_len m]"

definition frame_encode_common :: "frame_meta \<Rightarrow> u8 list \<Rightarrow> ring \<Rightarrow> bool \<Rightarrow> int \<times> ring" where
  "frame_encode_common m payload r s2m =
     (if unat (m_payload_len m) > COMM_PAYLOAD_MAX then (-1, r)
      else (let saved_head = r_head r; hdr = (if s2m then s2m_header m else m2s_header m);
                data = take (unat (m_payload_len m)) payload; crc = bus_crc8 (hdr @ data);
                fail = (\<lambda>q. (-1, q\<lparr>r_head := saved_head\<rparr>))
            in if frame_ring_free r < 1 then fail r
               else (case slip_emit_all (hdr @ data @ [crc]) (ring_write_byte_unchecked FRAME_END r) of (ok, q) \<Rightarrow>
                 if \<not> ok then fail q
                 else if frame_ring_free q < 1 then fail q
                 else (0, ring_write_byte_unchecked FRAME_END q))))"

definition frame_encode_m2s :: "frame_meta \<Rightarrow> u8 list \<Rightarrow> ring \<Rightarrow> int \<times> ring" where
  "frame_encode_m2s m payload r = frame_encode_common m payload r False"

definition frame_encode_s2m :: "frame_meta \<Rightarrow> u8 list \<Rightarrow> ring \<Rightarrow> int \<times> ring" where
  "frame_encode_s2m m payload r = frame_encode_common m payload r True"

section \<open>The decoder\<close>

datatype frame_dir = FRAME_DIR_M2S | FRAME_DIR_S2M

datatype frame_decode_result = FRAME_DECODE_NEED_MORE | FRAME_DECODE_FRAME_READY frame_meta "u8 list"
  | FRAME_DECODE_BAD_CRC | FRAME_DECODE_OVERFLOW | FRAME_DECODE_BAD_LEN

record decoder =
  d_dir :: frame_dir
  d_in_escape :: bool
  d_in_frame :: bool
  d_buf :: "u8 list"

definition frame_decoder_init :: "frame_dir \<Rightarrow> decoder" where
  "frame_decoder_init dir = \<lparr>d_dir = dir, d_in_escape = False, d_in_frame = False, d_buf = []\<rparr>"

definition decoder_reset_body :: "decoder \<Rightarrow> decoder" where
  "decoder_reset_body d = d\<lparr>d_buf := [], d_in_escape := False\<rparr>"

text \<open>The verdict on a collected body at the closing \<open>FRAME_END\<close>.\<close>

definition frame_verdict :: "frame_dir \<Rightarrow> u8 list \<Rightarrow> frame_decode_result" where
  "frame_verdict dir buf =
     (let hdr_len = (if dir = FRAME_DIR_M2S then 5 else 7 :: nat) in
      if length buf < hdr_len + 1 then FRAME_DECODE_BAD_LEN
      else if bus_crc8 (butlast buf) \<noteq> last buf then FRAME_DECODE_BAD_CRC
      else (let declared_len = buf ! (hdr_len - 1) in
        if unat declared_len > COMM_PAYLOAD_MAX \<or> hdr_len + unat declared_len + 1 \<noteq> length buf then FRAME_DECODE_BAD_LEN
        else FRAME_DECODE_FRAME_READY
          \<lparr>m_addr = buf ! 0, m_cmd = ucast (buf ! 1) OR push_bit 8 (ucast (buf ! 2)), m_seq = buf ! 3,
           m_ack_seq = (if dir = FRAME_DIR_M2S then 0 else buf ! 4), m_ack_status = (if dir = FRAME_DIR_M2S then 0 else buf ! 5),
           m_payload_len = declared_len\<rparr>
          (take (unat declared_len) (drop hdr_len buf))))"

definition decoder_store :: "u8 \<Rightarrow> decoder \<Rightarrow> frame_decode_result \<times> decoder" where
  "decoder_store b d =
     (if length (d_buf d) \<ge> FRAME_BUFFER_MAX then (FRAME_DECODE_OVERFLOW, decoder_reset_body (d\<lparr>d_in_frame := False\<rparr>))
      else (FRAME_DECODE_NEED_MORE, d\<lparr>d_buf := d_buf d @ [b]\<rparr>))"

definition frame_decoder_feed :: "u8 \<Rightarrow> decoder \<Rightarrow> frame_decode_result \<times> decoder" where
  "frame_decoder_feed b d =
     (if b = FRAME_END then
        (if \<not> d_in_frame d then (FRAME_DECODE_NEED_MORE, decoder_reset_body (d\<lparr>d_in_frame := True\<rparr>))
         else if d_buf d = [] then (FRAME_DECODE_NEED_MORE, d\<lparr>d_in_escape := False\<rparr>)
         else (frame_verdict (d_dir d) (d_buf d), decoder_reset_body (d\<lparr>d_in_frame := False\<rparr>)))
      else if \<not> d_in_frame d then (FRAME_DECODE_NEED_MORE, d)
      else if d_in_escape d then
        (let d' = d\<lparr>d_in_escape := False\<rparr> in
         if b = FRAME_ESC_END then decoder_store FRAME_END d'
         else if b = FRAME_ESC_ESC then decoder_store FRAME_ESC d'
         else (FRAME_DECODE_BAD_LEN, decoder_reset_body (d'\<lparr>d_in_frame := False\<rparr>)))
      else if b = FRAME_ESC then (FRAME_DECODE_NEED_MORE, d\<lparr>d_in_escape := True\<rparr>)
      else decoder_store b d)"

section \<open>A frame is staged completely or not at all\<close>

definition slip :: "u8 \<Rightarrow> u8 list" where
  "slip b = (if b = FRAME_END then [FRAME_ESC, FRAME_ESC_END] else if b = FRAME_ESC then [FRAME_ESC, FRAME_ESC_ESC] else [b])"

definition frame_body :: "frame_dir \<Rightarrow> frame_meta \<Rightarrow> u8 list \<Rightarrow> u8 list" where
  "frame_body dir m payload = (let h = (case dir of FRAME_DIR_M2S \<Rightarrow> m2s_header m | FRAME_DIR_S2M \<Rightarrow> s2m_header m)
     in h @ payload @ [bus_crc8 (h @ payload)])"

definition slip_frame :: "frame_dir \<Rightarrow> frame_meta \<Rightarrow> u8 list \<Rightarrow> u8 list" where
  "slip_frame dir m payload = [FRAME_END] @ concat (map slip (frame_body dir m payload)) @ [FRAME_END]"

abbreviation room :: "ring \<Rightarrow> nat" where "room r \<equiv> unat (frame_ring_free r)"

lemma slip_emit_byte_fold:
  "slip_emit_byte b r = (if length (slip b) \<le> room r then (True, fold ring_write_byte_unchecked (slip b) r) else (False, r))"
  by (auto simp: slip_emit_byte_def slip_def word_less_nat_alt)

lemma slip_emit_all_fold:
  assumes "ring_inv r"
  shows "(length (concat (map slip bs)) \<le> room r \<longrightarrow>
      slip_emit_all bs r = (True, fold ring_write_byte_unchecked (concat (map slip bs)) r)) \<and>
    (\<not> length (concat (map slip bs)) \<le> room r \<longrightarrow>
      (\<exists>xs. length xs \<le> room r \<and> slip_emit_all bs r = (False, fold ring_write_byte_unchecked xs r)))"
  using assms
proof (induction bs arbitrary: r)
  case (Cons b bs)
  show ?case
  proof (cases "length (slip b) \<le> room r")
    case True
    let ?r = "fold ring_write_byte_unchecked (slip b) r"
    have p: "ring_inv ?r" "room ?r = room r - length (slip b)" using ring.push_all [OF Cons.prems True] by simp_all
    have split: "fold ring_write_byte_unchecked xs ?r = fold ring_write_byte_unchecked (slip b @ xs) r" for xs by simp
    have "\<exists>ys. length ys \<le> room r \<and> fold ring_write_byte_unchecked xs ?r = fold ring_write_byte_unchecked ys r"
      if "length xs \<le> room ?r" for xs
      unfolding split using that p(2) True by (intro exI [of _ "slip b @ xs"]) simp
    then show ?thesis using Cons.IH [OF p(1)] p(2) True by (auto simp: slip_emit_byte_fold)
  next
    case False
    then show ?thesis by (auto simp: slip_emit_byte_fold intro: exI [of _ "[]"])
  qed
qed simp

lemma ring_rewind:
  assumes inv: "ring_inv r" and xs: "length xs \<le> room r"
  defines "q \<equiv> (fold ring_write_byte_unchecked xs r)\<lparr>r_head := r_head r\<rparr>"
  shows "ring_inv q \<and> ring_items q = ring_items r \<and> frame_ring_free q = frame_ring_free r"
proof -
  let ?p = "fold ring_write_byte_unchecked xs r"
  have p: "ring_inv ?p" "ring_items ?p = ring_items r @ xs" using ring.push_all [OF inv xs] by simp_all
  have same: "r_mask ?p = r_mask r \<and> r_tail ?p = r_tail r \<and> length (r_buf ?p) = length (r_buf r)"
    by (induction xs arbitrary: r) (simp_all add: ring_write_byte_unchecked_def)
  then have u: "frame_ring_used q = frame_ring_used r" "frame_ring_free q = frame_ring_free r"
    by (simp_all add: q_def frame_ring_used_def frame_ring_free_def)
  have len: "length (ring_items t) = unat (frame_ring_used t)" for t by (simp add: ring_items_def)
  have le: "unat (frame_ring_used r) \<le> unat (frame_ring_used ?p)" using arg_cong [OF p(2), of length] by (simp add: len)
  have "ring_items q = take (unat (frame_ring_used r)) (ring_items ?p)"
    unfolding ring_items_def u(1) using le by (simp add: q_def take_map)
  then have "ring_items q = ring_items r" using p(2) len [of r] by simp
  moreover have "ring_inv q" using inv same u(1) by (simp add: ring_inv_def q_def)
  ultimately show ?thesis using u(2) by simp
qed

text \<open>The encoder, as: the leading \<open>FRAME_END\<close>, the escaped body, the closing \<open>FRAME_END\<close>, with the rollback.\<close>

lemma frame_encode_unfold:
  assumes "unat (m_payload_len m) = length payload" and "length payload \<le> COMM_PAYLOAD_MAX"
  shows "frame_encode_common m payload r (dir = FRAME_DIR_S2M) =
    (if room r = 0 then (-1, r\<lparr>r_head := r_head r\<rparr>)
     else (case slip_emit_all (frame_body dir m payload) (ring_write_byte_unchecked FRAME_END r) of (ok, q) \<Rightarrow>
       if \<not> ok \<or> room q = 0 then (-1, q\<lparr>r_head := r_head r\<rparr>) else (0, ring_write_byte_unchecked FRAME_END q)))"
proof -
  let ?h = "if dir = FRAME_DIR_S2M then s2m_header m else m2s_header m"
  have body: "?h @ payload @ [bus_crc8 (?h @ payload)] = frame_body dir m payload"
    by (cases dir) (simp_all add: frame_body_def Let_def)
  show ?thesis
    using assms by (auto simp: frame_encode_common_def Let_def word_less_nat_alt simp flip: body split: prod.split)
qed

lemma encode_atomic:
  assumes "ring_inv r" and "unat (m_payload_len m) = length payload" and "length payload \<le> COMM_PAYLOAD_MAX"
  shows "\<exists>rc r'. frame_encode_common m payload r (dir = FRAME_DIR_S2M) = (rc, r') \<and> ring_inv r' \<and>
    (if length (slip_frame dir m payload) \<le> room r
     then rc = 0 \<and> ring_items r' = ring_items r @ slip_frame dir m payload
     else rc = -1 \<and> ring_items r' = ring_items r \<and> room r' = room r)"
proof (cases "room r = 0")
  case True
  then show ?thesis
    using ring_rewind [OF assms(1), of "[]"] by (simp add: frame_encode_unfold [OF assms(2,3)] slip_frame_def)
next
  case False
  let ?r1 = "ring_write_byte_unchecked FRAME_END r" and ?body = "concat (map slip (frame_body dir m payload))"
  note enc = frame_encode_unfold [OF assms(2,3), of r dir]
  have r1: "ring_inv ?r1" "ring_items ?r1 = ring_items r @ [FRAME_END]" "room ?r1 = room r - 1"
    using ring_write [OF assms(1), of FRAME_END] False by simp_all
  have fail: "ring_inv ((fold ring_write_byte_unchecked xs ?r1)\<lparr>r_head := r_head r\<rparr>) \<and>
      ring_items ((fold ring_write_byte_unchecked xs ?r1)\<lparr>r_head := r_head r\<rparr>) = ring_items r \<and>
      frame_ring_free ((fold ring_write_byte_unchecked xs ?r1)\<lparr>r_head := r_head r\<rparr>) = frame_ring_free r"
    if "length xs \<le> room ?r1" for xs
    using that r1(3) False ring_rewind [OF assms(1), of "FRAME_END # xs"] by simp
  note em = slip_emit_all_fold [OF r1(1), of "frame_body dir m payload"]
  have len: "length (slip_frame dir m payload) = length ?body + 2" by (simp add: slip_frame_def)
  show ?thesis
  proof (cases "length ?body \<le> room ?r1")
    case True
    let ?q = "fold ring_write_byte_unchecked ?body ?r1"
    have q: "ring_inv ?q" "ring_items ?q = ring_items r @ FRAME_END # ?body" "room ?q = room r - 1 - length ?body"
      using ring.push_all [OF r1(1) True] r1(2,3) by simp_all
    show ?thesis
      using enc em True False fail [OF True] ring_write [OF q(1), of FRAME_END] q(2,3) len
      by (cases "room ?q = 0") (simp_all add: slip_frame_def)
  next
    case False
    then obtain xs where "length xs \<le> room ?r1" "slip_emit_all (frame_body dir m payload) ?r1 = (False, fold ring_write_byte_unchecked xs ?r1)"
      using em by blast
    then show ?thesis using enc fail len False r1(3) \<open>room r \<noteq> 0\<close> by simp
  qed
qed

lemma frame_encode_fits:
  assumes "ring_inv r" and "unat (m_payload_len m) = length payload" and "length payload \<le> COMM_PAYLOAD_MAX"
    and "length (slip_frame dir m payload) \<le> room r"
  shows "\<exists>r'. frame_encode_common m payload r (dir = FRAME_DIR_S2M) = (0, r') \<and> ring_inv r' \<and>
    ring_items r' = ring_items r @ slip_frame dir m payload"
  using encode_atomic [OF assms(1-3), of dir] assms(4) by auto

text \<open>
  C36. Staging a frame is atomic: if the escaped frame fits the free room of the ring, exactly its bytes are
  appended behind what is waiting there, and otherwise the call fails and the contents and the
  room of the ring are what they were, wherever the free-running counters stand.
\<close>

theorem frame_encode_atomic:
  assumes "ring_inv r" and "unat (m_payload_len m) = length payload" and "length payload \<le> COMM_PAYLOAD_MAX"
  shows "\<exists>rc r'. frame_encode_common m payload r (dir = FRAME_DIR_S2M) = (rc, r') \<and> ring_inv r' \<and>
    (if length (slip_frame dir m payload) \<le> room r
     then rc = 0 \<and> ring_items r' = ring_items r @ slip_frame dir m payload
     else rc = -1 \<and> ring_items r' = ring_items r \<and> room r' = room r)"
  by (rule encode_atomic) (use assms in simp_all)

text \<open>A ring of eight bytes whose counters are about to wrap, and a frame that does not fit it.\<close>

definition ring8 :: ring where
  "ring8 = \<lparr>r_buf = [1, 2, 3, 4, 5, 6, 7, 8], r_mask = 7, r_head = 1, r_tail = 0xFFFFFFFF\<rparr>"

definition ping_meta :: frame_meta where
  "ping_meta = \<lparr>m_addr = 1, m_cmd = 5, m_seq = 0, m_ack_seq = 0, m_ack_status = 0, m_payload_len = 0\<rparr>"

lemma ring8_inv: "ring_inv ring8"
  unfolding ring_inv_def by (rule exI [of _ 3]) (simp add: ring8_def frame_ring_used_def mask_eq_exp_minus_1)

lemma ring8_facts:
  "length (slip_frame FRAME_DIR_S2M ping_meta []) = 10" "room ring8 = 6" "ring_items ring8 = [8, 1]"
  by code_simp+

theorem frame_encode_atomic_witness:
  "\<exists>r'. frame_encode_common ping_meta [] ring8 True = (-1, r') \<and> ring_items r' = [8, 1]"
  using frame_encode_atomic [OF ring8_inv, of ping_meta "[]" FRAME_DIR_S2M] ring8_facts by (auto simp: ping_meta_def)

section \<open>What was staged is decoded\<close>

fun decode :: "u8 list \<Rightarrow> decoder \<Rightarrow> frame_decode_result list \<times> decoder" where
  "decode [] d = ([], d)"
| "decode (b # bs) d = (case frame_decoder_feed b d of (res, d') \<Rightarrow>
     case decode bs d' of (out, d'') \<Rightarrow> (if res = FRAME_DECODE_NEED_MORE then out else res # out, d''))"

lemma decode_append:
  "decode (xs @ ys) d = (case decode xs d of (o1, d1) \<Rightarrow> case decode ys d1 of (o2, d2) \<Rightarrow> (o1 @ o2, d2))"
  by (induction xs arbitrary: d) (simp_all split: prod.split)

lemma decode_slip:
  assumes "d_in_frame d" "\<not> d_in_escape d" "length (d_buf d) < FRAME_BUFFER_MAX"
  shows "decode (slip b) d = ([], d\<lparr>d_buf := d_buf d @ [b]\<rparr>)"
  using assms by (auto simp: slip_def frame_decoder_feed_def decoder_store_def slip_bytes)

lemma decode_body:
  "d_in_frame d \<Longrightarrow> \<not> d_in_escape d \<Longrightarrow> length (d_buf d) + length bs \<le> FRAME_BUFFER_MAX \<Longrightarrow>
    decode (concat (map slip bs)) d = ([], d\<lparr>d_buf := d_buf d @ bs\<rparr>)"
proof (induction bs arbitrary: d)
  case (Cons b bs)
  then show ?case using Cons.IH [of "d\<lparr>d_buf := d_buf d @ [b]\<rparr>"] by (simp add: decode_append decode_slip)
qed simp

lemma cmd_bytes: "(ucast (ucast (w AND 0xFF) :: u8) :: u16) OR push_bit 8 (ucast (ucast (drop_bit 8 w AND 0xFF) :: u8)) = w"
proof -
  have "(0xFF :: u16) = mask 8" by (simp add: mask_eq_exp_minus_1)
  then have e: "w AND 0xFF = take_bit 8 w" "drop_bit 8 w AND 0xFF = take_bit 8 (drop_bit 8 w)" by (simp_all add: take_bit_eq_mask)
  show ?thesis unfolding e by (rule bit_word_eqI) (auto simp: bit_simps)
qed

definition dir_meta :: "frame_dir \<Rightarrow> frame_meta \<Rightarrow> frame_meta" where
  "dir_meta dir m = (case dir of FRAME_DIR_S2M \<Rightarrow> m | FRAME_DIR_M2S \<Rightarrow> m\<lparr>m_ack_seq := 0, m_ack_status := 0\<rparr>)"

lemma frame_verdict_body:
  assumes "unat (m_payload_len m) = length payload" "length payload \<le> COMM_PAYLOAD_MAX"
  shows "frame_verdict dir (frame_body dir m payload) = FRAME_DECODE_FRAME_READY (dir_meta dir m) payload"
proof -
  let ?h = "case dir of FRAME_DIR_M2S \<Rightarrow> m2s_header m | FRAME_DIR_S2M \<Rightarrow> s2m_header m"
  have b: "frame_body dir m payload = (?h @ payload) @ [bus_crc8 (?h @ payload)]" by (simp add: frame_body_def Let_def)
  have l: "length ?h = (if dir = FRAME_DIR_M2S then 5 else 7)" by (cases dir) (simp_all add: m2s_header_def s2m_header_def)
  show ?thesis
    using assms l unfolding frame_verdict_def Let_def b
    by (cases dir) (simp_all add: nth_append m2s_header_def s2m_header_def dir_meta_def cmd_bytes)
qed

lemma decode_parts:
  assumes "unat (m_payload_len m) = length payload" "length payload \<le> COMM_PAYLOAD_MAX"
    and d: "d_dir d = dir" "d_in_frame d \<longrightarrow> d_buf d = []"
  obtains d2 where "decode ([FRAME_END] @ concat (map slip (frame_body dir m payload))) d = ([], d2)"
    "frame_decoder_feed FRAME_END d2 = (FRAME_DECODE_FRAME_READY (dir_meta dir m) payload, frame_decoder_init dir)"
proof -
  let ?d1 = "d\<lparr>d_in_frame := True, d_buf := [], d_in_escape := False\<rparr>"
  have 1: "frame_decoder_feed FRAME_END d = (FRAME_DECODE_NEED_MORE, ?d1)"
    using d(2) by (auto simp: frame_decoder_feed_def decoder_reset_body_def)
  have len: "length (frame_body dir m payload) \<le> FRAME_BUFFER_MAX" "frame_body dir m payload \<noteq> []"
    using assms(2) by (cases dir; simp add: frame_body_def Let_def m2s_header_def s2m_header_def FRAME_BUFFER_MAX_def)+
  have 2: "decode (concat (map slip (frame_body dir m payload))) ?d1 = ([], ?d1\<lparr>d_buf := frame_body dir m payload\<rparr>)"
    using decode_body [of ?d1] len(1) by simp
  have idle: "d\<lparr>d_in_escape := False, d_in_frame := False, d_buf := []\<rparr> = frame_decoder_init dir"
    using d(1) by (simp add: frame_decoder_init_def)
  have 3: "frame_decoder_feed FRAME_END (?d1\<lparr>d_buf := frame_body dir m payload\<rparr>)
      = (FRAME_DECODE_FRAME_READY (dir_meta dir m) payload, d\<lparr>d_in_escape := False, d_in_frame := False, d_buf := []\<rparr>)"
    using frame_verdict_body [OF assms(1,2), of dir] d(1) len(2) by (simp add: frame_decoder_feed_def decoder_reset_body_def)
  show thesis by (rule that [of "?d1\<lparr>d_buf := frame_body dir m payload\<rparr>"]) (use 1 2 3 idle in simp_all)
qed

lemma decode_frame:
  assumes "unat (m_payload_len m) = length payload" "length payload \<le> COMM_PAYLOAD_MAX"
    and d: "d_dir d = dir" "d_in_frame d \<longrightarrow> d_buf d = []"
  shows "decode (slip_frame dir m payload) d = ([FRAME_DECODE_FRAME_READY (dir_meta dir m) payload], frame_decoder_init dir)"
proof -
  obtain d2 where "decode ([FRAME_END] @ concat (map slip (frame_body dir m payload))) d = ([], d2)"
    "frame_decoder_feed FRAME_END d2 = (FRAME_DECODE_FRAME_READY (dir_meta dir m) payload, frame_decoder_init dir)"
    by (rule decode_parts [OF assms])
  then show ?thesis
    using decode_append [of "[FRAME_END] @ concat (map slip (frame_body dir m payload))" "[FRAME_END]" d] by (simp add: slip_frame_def)
qed

text \<open>
  C35. What one end stages the other end receives: a frame staged in a ring with enough room adds bytes that
  a decoder between two frames turns into exactly that frame, address, command, sequence number,
  acknowledgement and payload, whatever bytes (also \<open>FRAME_END\<close> and \<open>FRAME_ESC\<close>) they contain.
\<close>

theorem host_frame_roundtrip:
  assumes "ring_inv r" and "unat (m_payload_len m) = length payload" and "length payload \<le> COMM_PAYLOAD_MAX"
    and "length (slip_frame FRAME_DIR_S2M m payload) \<le> room r" and "d_dir d = FRAME_DIR_S2M" and "d_in_frame d \<longrightarrow> d_buf d = []"
  shows "\<exists>r' staged. frame_encode_s2m m payload r = (0, r') \<and> ring_items r' = ring_items r @ staged \<and>
    fst (decode staged d) = [FRAME_DECODE_FRAME_READY m payload]"
proof -
  obtain r' where "frame_encode_s2m m payload r = (0, r')" "ring_items r' = ring_items r @ slip_frame FRAME_DIR_S2M m payload"
    using frame_encode_fits [OF assms(1-4)] by (auto simp: frame_encode_s2m_def)
  then show ?thesis using decode_frame [OF assms(2,3,5,6)] by (auto simp: dir_meta_def)
qed

definition ring16 :: ring where
  "ring16 = frame_ring_init (replicate 16 0) 16"

theorem host_frame_roundtrip_witness:
  "\<exists>r' staged. frame_encode_s2m ping_meta [] ring16 = (0, r') \<and> ring_items r' = staged \<and>
     fst (decode staged (frame_decoder_init FRAME_DIR_S2M)) = [FRAME_DECODE_FRAME_READY ping_meta []]"
proof -
  have "ring_inv ring16"
    unfolding ring_inv_def by (rule exI [of _ 4]) (simp add: ring16_def frame_ring_init_def frame_ring_used_def mask_eq_exp_minus_1)
  moreover have "room ring16 = 16" "ring_items ring16 = []" by code_simp+
  ultimately show ?thesis
    using host_frame_roundtrip [of ring16 ping_meta "[]" "frame_decoder_init FRAME_DIR_S2M"] ring8_facts(1)
    by (simp add: ping_meta_def COMM_PAYLOAD_MAX_def frame_decoder_init_def)
qed

end
