(* ===== verification/Host_Link.thy ===== *)
theory Host_Link
  imports Slip_Frame
begin

text \<open>
  The northbound dongle protocol (\<^verbatim>\<open>src/core/host_link.c\<close>, \<^verbatim>\<open>src/core/host_link.h\<close>): the ladder a bus
  controller climbs with the host, from announcing itself to being operational.

  The two callbacks are the last action of the frame that triggers them; a fed byte gives the
  call that was made, and whatever the handler then stages is a further operation on the link.
\<close>

unbundle bit_operations_syntax

definition HL_REGISTER_PERIOD_MS :: u32 where "HL_REGISTER_PERIOD_MS = 500"
definition HL_HEARTBEAT_PERIOD_MS :: u32 where "HL_HEARTBEAT_PERIOD_MS = 1000"
definition HL_REGISTER_V2_LEN :: nat where "HL_REGISTER_V2_LEN = 38"
definition HL_REGISTER_V2_VER :: u8 where "HL_REGISTER_V2_VER = 2"
definition HOST_LINK_TX_RING_SIZE :: u32 where "HOST_LINK_TX_RING_SIZE = 1024"

definition OP_REGISTER :: u16 where "OP_REGISTER = 0x0001"
definition OP_HEARTBEAT :: u16 where "OP_HEARTBEAT = 0x0002"
definition OP_PONG :: u16 where "OP_PONG = 0x0005"
definition OP_MANIFEST_REPLY :: u16 where "OP_MANIFEST_REPLY = 0x0008"
definition OP_SHELL_REPLY :: u16 where "OP_SHELL_REPLY = 0x0011"
definition OP_REGISTER_ACK :: u16 where "OP_REGISTER_ACK = 0x0103"
definition OP_PING :: u16 where "OP_PING = 0x0104"
definition OP_GET_MANIFEST :: u16 where "OP_GET_MANIFEST = 0x0107"
definition OP_OPERATIONAL_BEGIN :: u16 where "OP_OPERATIONAL_BEGIN = 0x0108"
definition OP_SHELL_EXEC :: u16 where "OP_SHELL_EXEC = 0x0109"
definition OP_POLL :: u16 where "OP_POLL = 0x010A"
definition OP_BUS_EXEC :: u16 where "OP_BUS_EXEC = 0x010B"

lemmas op_defs = OP_REGISTER_def OP_HEARTBEAT_def OP_PONG_def OP_MANIFEST_REPLY_def OP_SHELL_REPLY_def OP_REGISTER_ACK_def
  OP_PING_def OP_GET_MANIFEST_def OP_OPERATIONAL_BEGIN_def OP_SHELL_EXEC_def OP_POLL_def OP_BUS_EXEC_def

datatype host_link_state = HL_BOOT | HL_L1_ACKED | HL_MANIFEST | HL_OPERATIONAL

record host_link_cfg =
  hc_class_id :: u32
  hc_instance_id :: u32
  hc_commissioning_state :: u8
  hc_chip_uid :: "u8 list"
  hc_vid :: u16
  hc_pid :: u16
  hc_fw_version :: u32
  hc_build_date :: u32
  hc_schema_hash :: u32

record host_link =
  h_cfg :: host_link_cfg
  h_state :: host_link_state
  h_tx :: ring
  h_rx :: decoder
  h_seq :: u8
  h_next_register_ms :: u32
  h_next_heartbeat_ms :: u32
  h_on_bus_msg :: bool
  h_on_local_shell :: bool
  h_tx_msgs :: u32
  h_rx_msgs :: u32

datatype upcall = On_bus_msg u8 u16 "u8 list" | On_local_shell u16 u16 "u8 list"

definition wr_u16 :: "u16 \<Rightarrow> u8 list" where
  "wr_u16 v = [ucast v, ucast (drop_bit 8 v)]"

definition wr_u32 :: "u32 \<Rightarrow> u8 list" where
  "wr_u32 v = [ucast v, ucast (drop_bit 8 v), ucast (drop_bit 16 v), ucast (drop_bit 24 v)]"

definition emit_s2m :: "u8 \<Rightarrow> u16 \<Rightarrow> u8 list \<Rightarrow> host_link \<Rightarrow> int \<times> host_link" where
  "emit_s2m addr opcode payload h =
     (let m = \<lparr>m_addr = addr, m_cmd = opcode, m_seq = h_seq h, m_ack_seq = 0, m_ack_status = 0,
               m_payload_len = word_of_nat (length payload)\<rparr>
      in case frame_encode_s2m m payload (h_tx h) of (rc, tx) \<Rightarrow>
        if rc \<noteq> 0 then (-1, h\<lparr>h_tx := tx\<rparr>)
        else (0, h\<lparr>h_tx := tx, h_seq := h_seq h + 1, h_tx_msgs := h_tx_msgs h + 1\<rparr>))"

definition register_payload :: "host_link_cfg \<Rightarrow> u8 list" where
  "register_payload c = [HL_REGISTER_V2_VER] @ wr_u32 (hc_class_id c) @ wr_u32 (hc_instance_id c) @ [hc_commissioning_state c]
     @ hc_chip_uid c @ wr_u16 (hc_vid c) @ wr_u16 (hc_pid c) @ wr_u32 (hc_fw_version c) @ wr_u32 (hc_build_date c)"

definition emit_register :: "host_link \<Rightarrow> host_link" where
  "emit_register h = snd (emit_s2m 1 OP_REGISTER (register_payload (h_cfg h)) h)"

definition m2s_ops :: "u16 list" where
  "m2s_ops = [OP_REGISTER_ACK, OP_PING, OP_GET_MANIFEST, OP_OPERATIONAL_BEGIN, OP_SHELL_EXEC, OP_POLL, OP_BUS_EXEC]"

definition emit_manifest :: "host_link \<Rightarrow> host_link" where
  "emit_manifest h = snd (emit_s2m 1 OP_MANIFEST_REPLY
     (wr_u32 (hc_schema_hash (h_cfg h)) @ wr_u32 (hc_fw_version (h_cfg h)) @ [word_of_nat (length m2s_ops)]
      @ concat (map wr_u16 m2s_ops)) h)"

definition host_link_init :: "host_link_cfg \<Rightarrow> host_link" where
  "host_link_init cfg = \<lparr>h_cfg = cfg, h_state = HL_BOOT,
     h_tx = frame_ring_init (replicate (unat HOST_LINK_TX_RING_SIZE) 0) HOST_LINK_TX_RING_SIZE,
     h_rx = frame_decoder_init FRAME_DIR_M2S, h_seq = 0, h_next_register_ms = 0, h_next_heartbeat_ms = 0,
     h_on_bus_msg = False, h_on_local_shell = False, h_tx_msgs = 0, h_rx_msgs = 0\<rparr>"

definition host_link_set_callbacks :: "bool \<Rightarrow> bool \<Rightarrow> host_link \<Rightarrow> host_link" where
  "host_link_set_callbacks bus shell h = h\<lparr>h_on_bus_msg := bus, h_on_local_shell := shell\<rparr>"

definition on_frame :: "frame_meta \<Rightarrow> u8 list \<Rightarrow> host_link \<Rightarrow> upcall option \<times> host_link" where
  "on_frame m payload h =
     (if m_addr m \<noteq> 0 then
        (if h_on_bus_msg h then (Some (On_bus_msg (m_addr m) (m_cmd m) payload), h) else (None, h))
      else if m_cmd m = OP_REGISTER_ACK then (None, if h_state h = HL_BOOT then h\<lparr>h_state := HL_L1_ACKED\<rparr> else h)
      else if m_cmd m = OP_GET_MANIFEST then
        (let h' = emit_manifest h
         in (None, if h_state h' = HL_BOOT \<or> h_state h' = HL_L1_ACKED then h'\<lparr>h_state := HL_MANIFEST\<rparr> else h'))
      else if m_cmd m = OP_OPERATIONAL_BEGIN then (None, h\<lparr>h_state := HL_OPERATIONAL, h_next_heartbeat_ms := 0\<rparr>)
      else if m_cmd m = OP_PING then (None, snd (emit_s2m 1 OP_PONG [] h))
      else if m_cmd m = OP_SHELL_EXEC then
        (if m_payload_len m \<ge> 4 \<and> h_on_local_shell h
         then (Some (On_local_shell (ucast (payload ! 0) OR push_bit 8 (ucast (payload ! 1)))
                 (ucast (payload ! 2) OR push_bit 8 (ucast (payload ! 3))) (drop 4 payload)), h)
         else (None, h))
      else (None, h))"

definition host_link_feed :: "u8 \<Rightarrow> host_link \<Rightarrow> upcall option \<times> host_link" where
  "host_link_feed b h =
     (case frame_decoder_feed b (h_rx h) of (res, rx) \<Rightarrow>
        case res of FRAME_DECODE_FRAME_READY m payload \<Rightarrow> on_frame m payload (h\<lparr>h_rx := rx, h_rx_msgs := h_rx_msgs h + 1\<rparr>)
        | _ \<Rightarrow> (None, h\<lparr>h_rx := rx\<rparr>))"

definition host_link_tick :: "u32 \<Rightarrow> bool \<Rightarrow> host_link \<Rightarrow> host_link" where
  "host_link_tick now connected h =
     (if \<not> connected then h
      else if h_state h \<noteq> HL_OPERATIONAL then
        (if 0 \<le> sint (now - h_next_register_ms h)
         then (emit_register h)\<lparr>h_next_register_ms := now + HL_REGISTER_PERIOD_MS\<rparr> else h)
      else if 0 \<le> sint (now - h_next_heartbeat_ms h)
        then (snd (emit_s2m 1 OP_HEARTBEAT [] h))\<lparr>h_next_heartbeat_ms := now + HL_HEARTBEAT_PERIOD_MS\<rparr>
      else h)"

definition host_link_reset_boot :: "host_link \<Rightarrow> host_link" where
  "host_link_reset_boot h = h\<lparr>h_state := HL_BOOT, h_next_register_ms := 0, h_next_heartbeat_ms := 0,
     h_tx := frame_ring_init (r_buf (h_tx h)) HOST_LINK_TX_RING_SIZE, h_rx := frame_decoder_init FRAME_DIR_M2S\<rparr>"

definition host_link_tx_drain :: "u32 \<Rightarrow> host_link \<Rightarrow> u8 list \<times> host_link" where
  "host_link_tx_drain max_n h = (case frame_ring_read_drain max_n (h_tx h) of (bs, tx) \<Rightarrow> (bs, h\<lparr>h_tx := tx\<rparr>))"

definition host_link_s2m :: "u8 \<Rightarrow> u16 \<Rightarrow> u8 list \<Rightarrow> host_link \<Rightarrow> int \<times> host_link" where
  "host_link_s2m addr opcode payload h = emit_s2m addr opcode payload h"

definition host_link_shell_reply :: "u16 \<Rightarrow> u8 \<Rightarrow> u8 list \<Rightarrow> host_link \<Rightarrow> int \<times> host_link" where
  "host_link_shell_reply req_id status res h =
     emit_s2m 0 OP_SHELL_REPLY (wr_u16 req_id @ [status] @ take (COMM_PAYLOAD_MAX - 3) res) h"

section \<open>The link's invariant\<close>

definition link_inv :: "host_link \<Rightarrow> bool" where
  [inv_defs]: "link_inv h \<longleftrightarrow> ring_inv (h_tx h) \<and> length (r_buf (h_tx h)) = 1024 \<and> d_dir (h_rx h) = FRAME_DIR_M2S \<and>
     (d_in_frame (h_rx h) \<or> \<not> d_in_escape (h_rx h) \<and> d_buf (h_rx h) = []) \<and>
     length (d_buf (h_rx h)) \<le> FRAME_BUFFER_MAX \<and> length (hc_chip_uid (h_cfg h)) = 16"

lemma ring_inv_init: "length buf = 1024 \<Longrightarrow> ring_inv (frame_ring_init buf HOST_LINK_TX_RING_SIZE)"
  unfolding ring_inv_def
  by (rule exI [of _ 10]) (simp add: frame_ring_init_def frame_ring_used_def mask_eq_exp_minus_1 HOST_LINK_TX_RING_SIZE_def)

lemma ring_size:
  "length (r_buf (ring_write_byte_unchecked b r)) = length (r_buf r)"
  "length (r_buf (snd (slip_emit_byte b r))) = length (r_buf r)"
  "length (r_buf (snd (slip_emit_all bs r))) = length (r_buf r)"
  "length (r_buf (snd (frame_encode_s2m m p r))) = length (r_buf r)"
proof -
  show w: "length (r_buf (ring_write_byte_unchecked b r)) = length (r_buf r)" for b r
    by (simp add: ring_write_byte_unchecked_def)
  show e: "length (r_buf (snd (slip_emit_byte b r))) = length (r_buf r)" for b r by (simp add: slip_emit_byte_def w)
  show a: "length (r_buf (snd (slip_emit_all bs r))) = length (r_buf r)" for bs r
  proof (induction bs arbitrary: r)
    case (Cons b bs)
    then show ?case using e [of b r] by (cases "slip_emit_byte b r") auto
  qed simp
  have "slip_emit_all bs q = (ok, q') \<Longrightarrow> length (r_buf q') = length (r_buf q)" for bs q ok q'
    using a [of bs q] by simp
  then show "length (r_buf (snd (frame_encode_s2m m p r))) = length (r_buf r)"
    by (auto simp: frame_encode_s2m_def frame_encode_common_def Let_def w split: prod.split)
qed

text \<open>What staging does: the frame, or nothing.\<close>

definition s2m_frame :: "u8 \<Rightarrow> u16 \<Rightarrow> u8 list \<Rightarrow> u8 \<Rightarrow> u8 list" where
  "s2m_frame addr opcode payload seq = slip_frame FRAME_DIR_S2M \<lparr>m_addr = addr, m_cmd = opcode, m_seq = seq,
     m_ack_seq = 0, m_ack_status = 0, m_payload_len = word_of_nat (length payload)\<rparr> payload"

lemma emit_spec:
  assumes inv: "link_inv h" and len: "length payload \<le> COMM_PAYLOAD_MAX"
  obtains tx where "ring_inv tx" "length (r_buf tx) = 1024"
    "length (s2m_frame addr opcode payload (h_seq h)) \<le> room (h_tx h) \<Longrightarrow>
       emit_s2m addr opcode payload h = (0, h\<lparr>h_tx := tx, h_seq := h_seq h + 1, h_tx_msgs := h_tx_msgs h + 1\<rparr>) \<and>
       ring_items tx = ring_items (h_tx h) @ s2m_frame addr opcode payload (h_seq h)"
    "\<not> length (s2m_frame addr opcode payload (h_seq h)) \<le> room (h_tx h) \<Longrightarrow>
       emit_s2m addr opcode payload h = (-1, h\<lparr>h_tx := tx\<rparr>) \<and> ring_items tx = ring_items (h_tx h) \<and> room tx = room (h_tx h)"
proof -
  let ?m = "\<lparr>m_addr = addr, m_cmd = opcode, m_seq = h_seq h, m_ack_seq = 0, m_ack_status = 0,
               m_payload_len = word_of_nat (length payload)\<rparr>"
  have r: "ring_inv (h_tx h)" "length (r_buf (h_tx h)) = 1024" using inv by (simp_all add: link_inv_def)
  have l: "unat (m_payload_len ?m) = length payload" using len by (simp add: unat_of_nat COMM_PAYLOAD_MAX_def)
  obtain rc tx where e: "frame_encode_s2m ?m payload (h_tx h) = (rc, tx)" by fastforce
  have sz: "length (r_buf tx) = 1024" using ring_size(4) [of ?m payload "h_tx h"] e r(2) by simp
  have "frame_encode_common ?m payload (h_tx h) (FRAME_DIR_S2M = FRAME_DIR_S2M) = (rc, tx)" using e by (simp add: frame_encode_s2m_def)
  with encode_atomic [OF r(1) l len, of FRAME_DIR_S2M]
  have a: "ring_inv tx" "if length (s2m_frame addr opcode payload (h_seq h)) \<le> room (h_tx h)
      then rc = 0 \<and> ring_items tx = ring_items (h_tx h) @ s2m_frame addr opcode payload (h_seq h)
      else rc = -1 \<and> ring_items tx = ring_items (h_tx h) \<and> room tx = room (h_tx h)"
    by (auto simp: s2m_frame_def)
  show thesis by (rule that [OF a(1) sz]) (use a(2) e in \<open>simp_all add: emit_s2m_def Let_def\<close>)
qed

lemma emit_inv:
  assumes "link_inv h" "length payload \<le> COMM_PAYLOAD_MAX"
  shows "link_inv (snd (emit_s2m addr opcode payload h)) \<and> h_state (snd (emit_s2m addr opcode payload h)) = h_state h \<and>
    h_cfg (snd (emit_s2m addr opcode payload h)) = h_cfg h"
proof -
  obtain tx where "ring_inv tx" "length (r_buf tx) = 1024"
    "emit_s2m addr opcode payload h = (0, h\<lparr>h_tx := tx, h_seq := h_seq h + 1, h_tx_msgs := h_tx_msgs h + 1\<rparr>) \<or>
     emit_s2m addr opcode payload h = (-1, h\<lparr>h_tx := tx\<rparr>)"
    by (rule emit_spec [OF assms, of addr opcode]) blast
  then show ?thesis using assms(1) by (auto simp: link_inv_def)
qed

lemma register_length: "length (hc_chip_uid c) = 16 \<Longrightarrow> length (register_payload c) = 38"
  by (simp add: register_payload_def wr_u32_def wr_u16_def)

lemma manifest_length: "length (wr_u32 a @ wr_u32 b @ [c] @ concat (map wr_u16 m2s_ops)) = 23"
  by (simp add: wr_u32_def wr_u16_def m2s_ops_def)

lemma feed_decoder_inv:
  assumes "d_in_frame d \<or> \<not> d_in_escape d \<and> d_buf d = []" "length (d_buf d) \<le> FRAME_BUFFER_MAX" "frame_decoder_feed b d = (res, d')"
  shows "(d_in_frame d' \<or> \<not> d_in_escape d' \<and> d_buf d' = []) \<and> length (d_buf d') \<le> FRAME_BUFFER_MAX \<and> d_dir d' = d_dir d"
  using assms by (auto simp: frame_decoder_feed_def decoder_store_def decoder_reset_body_def Let_def split: if_splits)

lemma link_on_frame_inv: "link_inv h \<Longrightarrow> link_inv (snd (on_frame m payload h))"
proof -
  assume inv: "link_inv h"
  have l: "length (hc_chip_uid (h_cfg h)) = 16" using inv by (simp add: link_inv_def)
  have "link_inv (emit_manifest h)"
    unfolding emit_manifest_def using manifest_length by (intro emit_inv [OF inv, THEN conjunct1]) (simp add: COMM_PAYLOAD_MAX_def)
  moreover have "link_inv (snd (emit_s2m 1 OP_PONG [] h))" using emit_inv [OF inv, of "[]"] by simp
  moreover have "link_inv (g\<lparr>h_state := st\<rparr>) = link_inv g" "link_inv (g\<lparr>h_state := st, h_next_heartbeat_ms := t\<rparr>) = link_inv g" for g st t
    by (simp_all add: link_inv_def)
  ultimately show ?thesis using inv by (simp add: on_frame_def Let_def)
qed

lemma feed_inv: "link_inv h \<Longrightarrow> link_inv (snd (host_link_feed b h))"
proof -
  assume inv: "link_inv h"
  obtain res rx where f: "frame_decoder_feed b (h_rx h) = (res, rx)" by fastforce
  have d: "(d_in_frame rx \<or> \<not> d_in_escape rx \<and> d_buf rx = []) \<and> length (d_buf rx) \<le> FRAME_BUFFER_MAX \<and> d_dir rx = d_dir (h_rx h)"
    by (rule feed_decoder_inv [OF _ _ f]) (use inv in \<open>simp_all add: link_inv_def\<close>)
  have "link_inv (h\<lparr>h_rx := rx\<rparr>)" "link_inv (h\<lparr>h_rx := rx, h_rx_msgs := h_rx_msgs h + 1\<rparr>)"
    using inv d by (simp_all add: link_inv_def)
  then show ?thesis using link_on_frame_inv by (simp add: host_link_feed_def f split: frame_decode_result.split)
qed

lemma tick_link_inv: "link_inv h \<Longrightarrow> link_inv (host_link_tick now c h)"
proof -
  assume inv: "link_inv h"
  have up: "link_inv (g\<lparr>h_next_register_ms := t\<rparr>) = link_inv g" "link_inv (g\<lparr>h_next_heartbeat_ms := t\<rparr>) = link_inv g" for g t
    by (simp_all add: link_inv_def)
  have "link_inv (emit_register h)"
    unfolding emit_register_def using inv register_length [of "h_cfg h"]
    by (intro emit_inv [OF inv, THEN conjunct1]) (simp add: COMM_PAYLOAD_MAX_def link_inv_def)
  moreover have "link_inv (snd (emit_s2m 1 OP_HEARTBEAT [] h))" using emit_inv [OF inv, of "[]"] by simp
  ultimately show ?thesis using inv by (simp add: host_link_tick_def up)
qed

lemma reset_link_inv: "link_inv h \<Longrightarrow> link_inv (host_link_reset_boot h)"
  by (simp add: link_inv_def host_link_reset_boot_def ring_inv_init frame_decoder_init_def) (simp add: frame_ring_init_def)

section \<open>The link over time\<close>

lemma drain_link_inv: "link_inv h \<Longrightarrow> link_inv (snd (host_link_tx_drain n h))"
proof -
  assume inv: "link_inv h"
  then have "ring_inv (snd (frame_ring_read_drain n (h_tx h)))" "length (r_buf (snd (frame_ring_read_drain n (h_tx h)))) = 1024"
    using ring.drain_invar [of "h_tx h" n] by (simp_all add: link_inv_def frame_ring_read_drain_def Let_def)
  then show ?thesis using inv by (cases "frame_ring_read_drain n (h_tx h)") (simp add: host_link_tx_drain_def link_inv_def)
qed

lemma s2m_link_inv: "link_inv h \<Longrightarrow> length payload < 256 \<Longrightarrow> link_inv (snd (host_link_s2m addr opcode payload h))"
proof (cases "length payload \<le> COMM_PAYLOAD_MAX")
  case True
  then show "link_inv h \<Longrightarrow> link_inv (snd (host_link_s2m addr opcode payload h))" using emit_inv by (simp add: host_link_s2m_def)
next
  case False
  assume "length payload < 256"
  then have "unat (word_of_nat (length payload) :: u8) > COMM_PAYLOAD_MAX" using False by (simp add: unat_of_nat)
  then show "link_inv h \<Longrightarrow> link_inv (snd (host_link_s2m addr opcode payload h))"
    by (simp add: host_link_s2m_def emit_s2m_def frame_encode_s2m_def frame_encode_common_def Let_def link_inv_def)
qed

text \<open>Everything that happens to the link after its initialisation with a 16-byte chip id.\<close>

inductive link_reach :: "host_link \<Rightarrow> bool" where
  start: "length (hc_chip_uid c) = 16 \<Longrightarrow> link_reach (host_link_init c)"
| callbacks: "link_reach h \<Longrightarrow> link_reach (host_link_set_callbacks bus shell h)"
| feed: "link_reach h \<Longrightarrow> link_reach (snd (host_link_feed b h))"
| tick: "link_reach h \<Longrightarrow> link_reach (host_link_tick now c h)"
| reset: "link_reach h \<Longrightarrow> link_reach (host_link_reset_boot h)"
| drain: "link_reach h \<Longrightarrow> link_reach (snd (host_link_tx_drain n h))"
| s2m: "link_reach h \<Longrightarrow> length payload < 256 \<Longrightarrow> link_reach (snd (host_link_s2m addr opcode payload h))"
| reply: "link_reach h \<Longrightarrow> link_reach (snd (host_link_shell_reply req status res h))"

lemma link_reach_inv: "link_reach h \<Longrightarrow> link_inv h"
proof (induction rule: link_reach.induct)
  case (start c)
  then show ?case
    by (simp add: host_link_init_def link_inv_def ring_inv_init frame_decoder_init_def HOST_LINK_TX_RING_SIZE_def)
      (use ring_inv_init [of "replicate 1024 0"] in \<open>simp add: frame_ring_init_def HOST_LINK_TX_RING_SIZE_def\<close>)
next
  case (reply h req status res)
  then show ?case using emit_inv [of h "wr_u16 req @ [status] @ take (COMM_PAYLOAD_MAX - 3) res" 0 OP_SHELL_REPLY]
    by (simp add: host_link_shell_reply_def wr_u16_def COMM_PAYLOAD_MAX_def)
qed (simp_all add: feed_inv tick_link_inv reset_link_inv drain_link_inv s2m_link_inv,
     simp add: host_link_set_callbacks_def link_inv_def)

section \<open>Announcing after a reattach\<close>

lemma slip_length: "length (concat (map slip bs)) \<le> 2 * length bs"
  by (induction bs) (auto simp: slip_def)

lemma s2m_frame_length: "length (s2m_frame addr opcode payload seq) \<le> 2 * length payload + 18"
proof -
  let ?m = "\<lparr>m_addr = addr, m_cmd = opcode, m_seq = seq, m_ack_seq = 0, m_ack_status = 0,
               m_payload_len = word_of_nat (length payload)\<rparr>"
  have "length (frame_body FRAME_DIR_S2M ?m payload) = length payload + 8" by (simp add: frame_body_def Let_def s2m_header_def)
  then show ?thesis using slip_length [of "frame_body FRAME_DIR_S2M ?m payload"] by (simp add: s2m_frame_def slip_frame_def)
qed

lemma sint_nonneg: "0 \<le> sint (w :: u32) \<longleftrightarrow> unat w < 2147483648"
proof -
  have "0 \<le> sint w \<longleftrightarrow> \<not> bit (uint w) 31"
    unfolding sint_uint by (simp only: signed_take_bit_nonnegative_iff len_num1) simp
  also have "\<dots> \<longleftrightarrow> \<not> bit (unat w) 31" by (simp add: bit_unsigned_iff)
  also have "\<dots> \<longleftrightarrow> even (unat w div 2147483648)" by (simp add: bit_iff_odd)
  also have "\<dots> \<longleftrightarrow> unat w div 2147483648 = 0"
  proof -
    have "unat w div 2147483648 < 2" using unat_u32_less [of w] by (simp add: div_less_iff_less_mult)
    moreover have "even n \<longleftrightarrow> n = 0" if "n < 2" for n :: nat using that by presburger
    ultimately show ?thesis by blast
  qed
  also have "\<dots> \<longleftrightarrow> unat w < 2147483648" by (simp add: div_eq_0_iff)
  finally show ?thesis .
qed

lemma reset_ring: "link_inv h \<Longrightarrow> ring_items (h_tx (host_link_reset_boot h)) = [] \<and> room (h_tx (host_link_reset_boot h)) = 1024"
  by (simp add: host_link_reset_boot_def frame_ring_init_def ring_items_def frame_ring_used_def frame_ring_free_def HOST_LINK_TX_RING_SIZE_def)

text \<open>
  C36. After a host reattaches, the controller announces itself at the next tick with a \<open>REGISTER\<close> frame that
  the host decodes to its 38-byte identity; but only while the millisecond clock is below
  \<open>2 ^ 31\<close>: from then on (24.8 days of uptime) until the clock wraps, a tick after a reset stages
  nothing.
\<close>

theorem reattach_announces:
  assumes "link_reach h"
  shows "(unat now < 2147483648 \<longrightarrow>
      (\<exists>m. fst (decode (ring_items (h_tx (host_link_tick now True (host_link_reset_boot h)))) (frame_decoder_init FRAME_DIR_S2M))
         = [FRAME_DECODE_FRAME_READY m (register_payload (h_cfg h))] \<and> m_cmd m = OP_REGISTER \<and> m_addr m = 1)) \<and>
    (unat now \<ge> 2147483648 \<longrightarrow> host_link_tick now True (host_link_reset_boot h) = host_link_reset_boot h)"
proof -
  let ?h = "host_link_reset_boot h" and ?p = "register_payload (h_cfg h)"
  note inv = link_reach_inv [OF assms]
  have sel: "h_cfg ?h = h_cfg h" "h_state ?h = HL_BOOT" "h_next_register_ms ?h = 0" "h_seq ?h = h_seq h"
    by (simp_all add: host_link_reset_boot_def)
  have len: "length ?p = 38" using inv register_length by (simp add: link_inv_def)
  then have l: "length ?p \<le> COMM_PAYLOAD_MAX" by (simp add: COMM_PAYLOAD_MAX_def)
  have fits: "length (s2m_frame 1 OP_REGISTER ?p (h_seq ?h)) \<le> room (h_tx ?h)"
    using s2m_frame_length [of 1 OP_REGISTER ?p "h_seq ?h"] len reset_ring [OF inv] by simp
  obtain tx where tx: "emit_s2m 1 OP_REGISTER ?p ?h = (0, ?h\<lparr>h_tx := tx, h_seq := h_seq ?h + 1, h_tx_msgs := h_tx_msgs ?h + 1\<rparr>)"
    "ring_items tx = s2m_frame 1 OP_REGISTER ?p (h_seq ?h)"
    by (rule emit_spec [OF reset_link_inv [OF inv] l, of 1 OP_REGISTER]) (use fits reset_ring [OF inv] in auto)
  let ?m = "\<lparr>m_addr = 1, m_cmd = OP_REGISTER, m_seq = h_seq ?h, m_ack_seq = 0, m_ack_status = 0,
               m_payload_len = word_of_nat (length ?p)\<rparr>"
  have "unat (m_payload_len ?m) = length ?p" using len by (simp add: unat_of_nat)
  then have dec: "fst (decode (s2m_frame 1 OP_REGISTER ?p (h_seq ?h)) (frame_decoder_init FRAME_DIR_S2M)) = [FRAME_DECODE_FRAME_READY ?m ?p]"
    using decode_frame [of ?m ?p "frame_decoder_init FRAME_DIR_S2M" FRAME_DIR_S2M] l
    by (simp add: s2m_frame_def frame_decoder_init_def dir_meta_def)
  have t: "host_link_tick now True ?h = (if unat now < 2147483648
      then (snd (emit_s2m 1 OP_REGISTER ?p ?h))\<lparr>h_next_register_ms := now + HL_REGISTER_PERIOD_MS\<rparr> else ?h)"
    by (simp add: host_link_tick_def sel sint_nonneg emit_register_def)
  show ?thesis unfolding t using tx dec by auto
qed

definition demo_cfg :: host_link_cfg where
  "demo_cfg = \<lparr>hc_class_id = 1, hc_instance_id = 0, hc_commissioning_state = 0, hc_chip_uid = replicate 16 0xC0, hc_vid = 2, hc_pid = 3,
     hc_fw_version = 4, hc_build_date = 5, hc_schema_hash = 6\<rparr>"

lemma demo_reach: "link_reach (host_link_init demo_cfg)"
  by (rule start) (simp add: demo_cfg_def)

theorem reattach_announces_witness:
  "host_link_tick 0x80000000 True (host_link_reset_boot (host_link_init demo_cfg)) = host_link_reset_boot (host_link_init demo_cfg) \<and>
   (\<exists>m. fst (decode (ring_items (h_tx (host_link_tick 7 True (host_link_reset_boot (host_link_init demo_cfg))))) (frame_decoder_init FRAME_DIR_S2M))
         = [FRAME_DECODE_FRAME_READY m (register_payload demo_cfg)])"
  using reattach_announces [OF demo_reach, of "0x80000000"] reattach_announces [OF demo_reach, of 7]
  by (auto simp: host_link_init_def)

section \<open>Handling the host's frames\<close>

fun feed_all :: "u8 list \<Rightarrow> host_link \<Rightarrow> upcall list \<times> host_link" where
  "feed_all [] h = ([], h)"
| "feed_all (b # bs) h = (case host_link_feed b h of (c, h1) \<Rightarrow>
     case feed_all bs h1 of (cs, h2) \<Rightarrow> (case c of None \<Rightarrow> cs | Some x \<Rightarrow> x # cs, h2))"

lemma feed_all_append:
  "feed_all (xs @ ys) h = (case feed_all xs h of (c1, h1) \<Rightarrow> case feed_all ys h1 of (c2, h2) \<Rightarrow> (c1 @ c2, h2))"
  by (induction xs arbitrary: h) (simp_all split: prod.split option.split)

lemma feed_all_quiet: "decode bs (h_rx h) = ([], d) \<Longrightarrow> feed_all bs h = ([], h\<lparr>h_rx := d\<rparr>)"
proof (induction bs arbitrary: h)
  case (Cons b bs)
  obtain res d1 where f: "frame_decoder_feed b (h_rx h) = (res, d1)" by fastforce
  have "res = FRAME_DECODE_NEED_MORE" "decode bs d1 = ([], d)"
    using Cons.prems f by (auto split: prod.splits if_splits)
  then show ?case using f Cons.IH [of "h\<lparr>h_rx := d1\<rparr>"] by (simp add: host_link_feed_def)
qed simp

text \<open>
  Every frame from the host is handled exactly once: fed byte by byte to a link whose decoder is between
  two frames, the bytes of a frame have exactly the effect of its handler (ladder step, reply or
  one call of the bus or shell callback with the frame's payload), and leave the decoder ready
  for the next frame.
\<close>

theorem host_frame_handled:
  assumes "link_reach h" and "d_in_frame (h_rx h) \<longrightarrow> d_buf (h_rx h) = []"
    and "unat (m_payload_len m) = length payload" and "length payload \<le> COMM_PAYLOAD_MAX"
  shows "feed_all (slip_frame FRAME_DIR_M2S m payload) h =
    (case on_frame (dir_meta FRAME_DIR_M2S m) payload (h\<lparr>h_rx := frame_decoder_init FRAME_DIR_M2S, h_rx_msgs := h_rx_msgs h + 1\<rparr>) of
       (c, h') \<Rightarrow> (case c of None \<Rightarrow> [] | Some x \<Rightarrow> [x], h'))"
proof -
  have dir: "d_dir (h_rx h) = FRAME_DIR_M2S" using link_reach_inv [OF assms(1)] by (simp add: link_inv_def)
  let ?front = "[FRAME_END] @ concat (map slip (frame_body FRAME_DIR_M2S m payload))"
  obtain d2 where d: "decode ?front (h_rx h) = ([], d2)"
    "frame_decoder_feed FRAME_END d2 = (FRAME_DECODE_FRAME_READY (dir_meta FRAME_DIR_M2S m) payload, frame_decoder_init FRAME_DIR_M2S)"
    by (rule decode_parts [OF assms(3,4) dir assms(2)])
  have "slip_frame FRAME_DIR_M2S m payload = ?front @ [FRAME_END]" by (simp add: slip_frame_def)
  then show ?thesis
    using feed_all_append [of ?front "[FRAME_END]" h] feed_all_quiet [OF d(1)] d(2)
    by (simp add: host_link_feed_def split: prod.split option.split)
qed

definition begin_meta :: frame_meta where
  "begin_meta = \<lparr>m_addr = 0, m_cmd = OP_OPERATIONAL_BEGIN, m_seq = 9, m_ack_seq = 0, m_ack_status = 0, m_payload_len = 0\<rparr>"

theorem host_frame_handled_witness:
  "h_state (snd (feed_all (slip_frame FRAME_DIR_M2S begin_meta []) (host_link_init demo_cfg))) = HL_OPERATIONAL"
  using host_frame_handled [OF demo_reach, of begin_meta "[]"]
  by (simp add: host_link_init_def frame_decoder_init_def begin_meta_def dir_meta_def on_frame_def op_defs)

end
