(* ===== verification/Cbor.thy ===== *)
theory Cbor
  imports Prelude
begin

text \<open>
  The minimal CBOR reader of the boot configuration (\<^verbatim>\<open>src/node/cbor_min.h\<close>).

  A cursor is the list of the bytes from \<open>c->p\<close> to \<open>c->end\<close>; \<open>E\<close> is the address of the end, which
  the bounds checks \<open>c->p + a > c->end\<close> compare in 32-bit arithmetic.  A read gives \<open>Got\<close> the value
  and the new cursor, or \<open>Bad\<close> (\<open>false\<close>; every caller returns at once, so the restored cursor is not
  kept; the number is the error code the caller substitutes), or \<open>Undef\<close> when the check passes
  although the string does not fit: the pointer then leaves the buffer.
\<close>

unbundle bit_operations_syntax

datatype 'a cres = Got 'a "u8 list" | Bad int | Undef

primrec cbind :: "'a cres \<Rightarrow> ('a \<Rightarrow> u8 list \<Rightarrow> 'b cres) \<Rightarrow> 'b cres" where
  "cbind (Got x r) k = k x r"
| "cbind (Bad e) k = Bad e"
| "cbind Undef k = Undef"

text \<open>Replace \<open>false\<close> by the caller's error code.\<close>

primrec err :: "int \<Rightarrow> 'a cres \<Rightarrow> 'a cres" where
  "err e (Got x r) = Got x r"
| "err e (Bad _) = Bad e"
| "err e Undef = Undef"

definition CBOR_UINT :: u8 where "CBOR_UINT = 0"
definition CBOR_BYTES :: u8 where "CBOR_BYTES = 2"
definition CBOR_TEXT :: u8 where "CBOR_TEXT = 3"
definition CBOR_ARRAY :: u8 where "CBOR_ARRAY = 4"
definition CBOR_MAP :: u8 where "CBOR_MAP = 5"

lemmas cbor_defs = CBOR_UINT_def CBOR_BYTES_def CBOR_TEXT_def CBOR_ARRAY_def CBOR_MAP_def

section \<open>Reading\<close>

fun cbor_arg :: "nat \<Rightarrow> u64 \<Rightarrow> u8 list \<Rightarrow> u64 cres" where
  "cbor_arg 0 v r = Got v r"
| "cbor_arg (Suc n) v [] = Bad 0"
| "cbor_arg (Suc n) v (b # r) = cbor_arg n (push_bit 8 v OR ucast b) r"

definition cbor_hdr :: "u8 list \<Rightarrow> (u8 \<times> u64) cres" where
  "cbor_hdr r =
     (case r of [] \<Rightarrow> Bad 0
      | b # r' \<Rightarrow>
        (let major = drop_bit 5 b; n = b AND 0x1F in
         if n \<ge> 28 then Bad 0
         else (let v = (if n < 24 then ucast n else 0 :: u64);
                   nb = (if n = 24 then 1 else if n = 25 then 2 else if n = 26 then 4 else if n = 27 then 8 else 0 :: nat)
               in cbind (cbor_arg nb v r') (\<lambda>a. Got (major, a)))))"

definition cbor_uint :: "u8 list \<Rightarrow> u64 cres" where
  "cbor_uint r = cbind (cbor_hdr r) (\<lambda>(mj, a) r'. if mj \<noteq> CBOR_UINT then Bad 0 else Got a r')"

text \<open>The bounds check of a string of \<open>a\<close> bytes: \<open>\<not> (c->p + a > c->end)\<close> on 32-bit pointers.\<close>

definition fits :: "u32 \<Rightarrow> u8 list \<Rightarrow> u64 \<Rightarrow> bool" where
  "fits E r a \<longleftrightarrow> \<not> (E - word_of_nat (length r) + ucast a > E)"

definition take_str :: "u32 \<Rightarrow> u64 \<Rightarrow> u8 list \<Rightarrow> u8 list cres" where
  "take_str E a r =
     (if \<not> fits E r a then Bad 0
      else if unat a \<le> length r then Got (take (unat a) r) (drop (unat a) r) else Undef)"

definition cbor_str :: "u32 \<Rightarrow> u8 \<Rightarrow> u8 list \<Rightarrow> u8 list cres" where
  "cbor_str E want r = cbind (cbor_hdr r) (\<lambda>(mj, a) r'. if mj \<noteq> want then Bad 0 else take_str E a r')"

definition cbor_open :: "u8 \<Rightarrow> u8 list \<Rightarrow> u64 cres" where
  "cbor_open want r = cbind (cbor_hdr r) (\<lambda>(mj, a) r'. if mj \<noteq> want then Bad 0 else Got a r')"

lemma cbor_arg_length: "cbor_arg n v r = Got a r' \<Longrightarrow> length r = n + length r'"
  by (induction n v r rule: cbor_arg.induct) auto

lemma cbind_Got: "cbind m k = Got y s \<longleftrightarrow> (\<exists>x r. m = Got x r \<and> k x r = Got y s)"
  by (cases m) auto

lemma cbor_hdr_length: "cbor_hdr r = Got x r' \<Longrightarrow> length r' < length r"
  by (auto simp: cbor_hdr_def Let_def cbind_Got dest!: cbor_arg_length split: list.splits if_splits)

text \<open>
  \<open>cbor_skip\<close> recurses into the elements of arrays and the keys and values of maps.  The items still
  to be skipped are the counter \<open>n\<close>: opening an array of \<open>a\<close> elements adds \<open>a\<close>, a map \<open>2 * a\<close> (in 64-bit
  arithmetic).  \<open>cbor_skip_unfold\<close> below is the recursion as the code has it.
\<close>

function cbor_skips :: "u32 \<Rightarrow> nat \<Rightarrow> u8 list \<Rightarrow> unit cres" where
  "cbor_skips E n r =
     (if n = 0 then Got () r
      else (case cbor_hdr r of
          Bad e \<Rightarrow> Bad e | Undef \<Rightarrow> Undef
        | Got (mj, a) r' \<Rightarrow>
            if mj = CBOR_UINT then cbor_skips E (n - 1) r'
            else if mj = CBOR_BYTES \<or> mj = CBOR_TEXT then
              (case take_str E a r' of Bad e \<Rightarrow> Bad e | Undef \<Rightarrow> Undef | Got s r'' \<Rightarrow> cbor_skips E (n - 1) r'')
            else if mj = CBOR_ARRAY then cbor_skips E (unat a + (n - 1)) r'
            else if mj = CBOR_MAP then cbor_skips E (unat (2 * a) + (n - 1)) r'
            else Bad 0))"
  by pat_completeness auto

lemma take_str_length: "take_str E a r = Got s r' \<Longrightarrow> length r' \<le> length r"
  by (auto simp: take_str_def split: if_splits)

termination cbor_skips
  by (relation "measure (\<lambda>(E, n, r). length r)")
     (auto dest!: cbor_hdr_length take_str_length intro: order.strict_trans1)

declare cbor_skips.simps [simp del]

definition cbor_skip :: "u32 \<Rightarrow> u8 list \<Rightarrow> unit cres" where
  "cbor_skip E r = cbor_skips E 1 r"

text \<open>The loops \<open>for (i = 0; i < n; i++)\<close> of the readers: the counter is a 64-bit number of the file.\<close>

fun cbor_loop :: "nat \<Rightarrow> ('s \<Rightarrow> u8 list \<Rightarrow> 's cres) \<Rightarrow> 's \<Rightarrow> u8 list \<Rightarrow> 's cres" where
  "cbor_loop n f s r = (if n = 0 then Got s r else cbind (f s r) (cbor_loop (n - 1) f))"

declare cbor_loop.simps [simp del]

section \<open>Skipping is the recursion of the source\<close>

lemma cbor_skips_step:
  "n \<noteq> 0 \<Longrightarrow> cbor_skips E n r =
     cbind (cbor_hdr r) (\<lambda>(mj, a) r'.
       if mj = CBOR_UINT then cbor_skips E (n - 1) r'
       else if mj = CBOR_BYTES \<or> mj = CBOR_TEXT then cbind (take_str E a r') (\<lambda>_. cbor_skips E (n - 1))
       else if mj = CBOR_ARRAY then cbor_skips E (unat a + (n - 1)) r'
       else if mj = CBOR_MAP then cbor_skips E (unat (2 * a) + (n - 1)) r'
       else Bad 0)"
  by (subst cbor_skips.simps) (auto split: cres.split prod.split)

lemma cbor_skips_0 [simp]: "cbor_skips E 0 = Got ()"
  by (simp add: fun_eq_iff cbor_skips.simps)

lemma cbor_skips_add: "cbor_skips E (m + n) r = cbind (cbor_skips E m r) (\<lambda>_. cbor_skips E n)"
proof (induction "length r" arbitrary: m r rule: less_induct)
  case less
  show ?case
  proof (cases "m = 0")
    case False
    then have nz: "m + n \<noteq> 0" and pred: "k + (m + n - 1) = (k + (m - 1)) + n" "m + n - 1 = (m - 1) + n" for k by simp_all
    show ?thesis
    proof (cases "cbor_hdr r")
      case (Got x r')
      obtain mj a where x: "x = (mj, a)" by fastforce
      have shorter: "length r' < length r" using Got by (rule cbor_hdr_length)
      have ih: "cbor_skips E (k + n) r' = cbind (cbor_skips E k r') (\<lambda>_. cbor_skips E n)" for k
        by (rule less [OF shorter])
      have ih2: "cbind (take_str E a r') (\<lambda>_. cbor_skips E ((m - 1) + n))
          = cbind (cbind (take_str E a r') (\<lambda>_. cbor_skips E (m - 1))) (\<lambda>_. cbor_skips E n)"
        using less shorter take_str_length [of E a r'] by (cases "take_str E a r'") auto
      show ?thesis
        unfolding cbor_skips_step [OF False] cbor_skips_step [OF nz] Got x cbind.simps prod.case pred
        by (simp only: add.assoc [symmetric] ih ih2 cbind.simps if_distrib [of "\<lambda>z. cbind z (\<lambda>_. cbor_skips E n)"])
    qed (simp_all add: cbor_skips_step False)
  qed simp
qed

lemma cbor_skips_Suc: "cbor_skips E (Suc n) r = cbind (cbor_skip E r) (\<lambda>_. cbor_skips E n)"
  using cbor_skips_add [of E 1 n r] by (simp add: cbor_skip_def)

lemma cbor_skips_loop: "cbor_skips E n r = cbor_loop n (\<lambda>_. cbor_skip E) () r"
proof (induction n arbitrary: r)
  case 0
  show ?case by (simp add: cbor_loop.simps [of 0])
next
  case (Suc n)
  show ?case
    by (simp add: cbor_skips_Suc Suc cbor_loop.simps [of "Suc n"]) (rule arg_cong [of _ _ "cbind (cbor_skip E r)"], simp add: fun_eq_iff Suc)
qed

lemma cbor_skip_unfold:
  "cbor_skip E r =
     cbind (cbor_hdr r) (\<lambda>(mj, a) r'.
       if mj = CBOR_UINT then Got () r'
       else if mj = CBOR_BYTES \<or> mj = CBOR_TEXT then cbind (take_str E a r') (\<lambda>_. Got ())
       else if mj = CBOR_ARRAY then cbor_loop (unat a) (\<lambda>_. cbor_skip E) () r'
       else if mj = CBOR_MAP then cbor_loop (unat (2 * a)) (\<lambda>_. cbor_skip E) () r'
       else Bad 0)"
  unfolding cbor_skip_def [of E r] cbor_skips_loop [symmetric]
  by (subst cbor_skips_step, simp, unfold diff_self_eq_0 add_0_right cbor_skips_0, rule refl)

section \<open>Encodings\<close>

text \<open>The items the configuration tool writes, with definite lengths in the shortest form or any longer one.\<close>

fun be_bytes :: "nat \<Rightarrow> u64 \<Rightarrow> u8 list" where
  "be_bytes 0 v = []"
| "be_bytes (Suc n) v = ucast (drop_bit (8 * n) v) # be_bytes n v"

definition cbor_head :: "u8 \<Rightarrow> u64 \<Rightarrow> u8 list" where
  "cbor_head major a =
     (if a < 24 then [push_bit 5 major OR ucast a]
      else if a < 256 then (push_bit 5 major OR 24) # be_bytes 1 a
      else if a < 65536 then (push_bit 5 major OR 25) # be_bytes 2 a
      else if a < 0x100000000 then (push_bit 5 major OR 26) # be_bytes 4 a
      else (push_bit 5 major OR 27) # be_bytes 8 a)"

lemma cbor_arg_be: "cbor_arg n v (be_bytes n a @ r) = Got (push_bit (8 * n) v OR take_bit (8 * n) a) r"
proof (induction n arbitrary: v)
  case (Suc n)
  have "push_bit k (push_bit 8 v OR ucast (ucast (drop_bit k a) :: u8)) OR take_bit k a
      = push_bit (8 + k) v OR take_bit (8 + k) a" for k
    by (rule bit_word_eqI) (auto simp: bit_simps add.commute)
  then show ?case by (simp only: be_bytes.simps append_Cons cbor_arg.simps Suc mult_Suc_right)
qed simp

lemma bit_small:
  assumes "unat (x :: 'a :: len word) < 2 ^ k" "bit x n"
  shows "n < k"
proof (rule ccontr)
  assume n: "\<not> n < k"
  have "bit (unat x) n" using assms(2) by (simp add: bit_unsigned_iff)
  moreover have "take_bit k (unat x) = unat x" using assms(1) by (rule take_bit_nat_eq_self)
  ultimately have "bit (take_bit k (unat x)) n" by simp
  then show False using n by (simp add: bit_take_bit_iff)
qed

lemma head_byte:
  assumes "unat m < 8" "unat x < 32"
  shows "drop_bit 5 (push_bit 5 m OR x) = (m :: u8)" "(push_bit 5 m OR x) AND 0x1F = x"
proof -
  have b: "bit m n \<Longrightarrow> n < 3" "bit x n \<Longrightarrow> n < 5" for n
    using assms bit_small [of m 3 n] bit_small [of x 5 n] by simp_all
  have k: "(0x1F :: u8) = mask 5" by (simp add: mask_eq_exp_minus_1)
  show "drop_bit 5 (push_bit 5 m OR x) = m"
    by (rule bit_word_eqI) (use b in \<open>fastforce simp: bit_drop_bit_eq bit_or_iff bit_push_bit_iff\<close>)
  show "(push_bit 5 m OR x) AND 0x1F = x"
    unfolding k by (rule bit_word_eqI) (use b in \<open>fastforce simp: bit_and_iff bit_or_iff bit_push_bit_iff bit_mask_iff\<close>)
qed

lemma take_small: "unat (a :: u64) < 2 ^ k \<Longrightarrow> take_bit k a = a"
  by (rule bit_word_eqI) (auto simp: bit_take_bit_iff dest: bit_small)

lemma cbor_hdr_byte:
  assumes "unat m < 8" "unat x < 28"
  shows "cbor_hdr ((push_bit 5 m OR x) # r) =
    cbind (cbor_arg (if x = 24 then 1 else if x = 25 then 2 else if x = 26 then 4 else if x = 27 then 8 else 0)
             (if x < 24 then ucast x else 0) r) (\<lambda>a. Got (m, a))"
proof -
  have x: "unat x < 32" "\<not> 28 \<le> x" using assms(2) by (simp_all add: word_le_nat_alt)
  show ?thesis
    unfolding cbor_hdr_def Let_def list.case head_byte [OF assms(1) x(1)] using x(2) by simp
qed

lemma cbor_hdr_head:
  assumes "unat m < 8"
  shows "cbor_hdr (cbor_head m a @ r) = Got (m, a) r"
proof -
  have u: "unat (ucast a :: u8) = unat a" "(ucast (ucast a :: u8) :: u64) = a" if "a < 24"
  proof -
    have s: "unat a < 24" using that by (simp add: word_less_nat_alt)
    show "(ucast (ucast a :: u8) :: u64) = a"
      by (rule bit_word_eqI) (use s bit_small [of a 5] in \<open>fastforce simp: bit_simps\<close>)
    show "unat (ucast a :: u8) = unat a" using s by (simp add: unsigned_ucast_eq take_bit_nat_eq_self)
  qed
  have lt: "unat a < 256" if "a < 256" using that by (simp add: word_less_nat_alt)
  have lt2: "unat a < 65536" if "a < 65536" using that by (simp add: word_less_nat_alt)
  have lt4: "unat a < 4294967296" if "a < 0x100000000" using that by (simp add: word_less_nat_alt)
  consider "a < 24" | "\<not> a < 24" "a < 256" | "\<not> a < 256" "a < 65536" | "\<not> a < 65536" "a < 0x100000000" | "\<not> a < 0x100000000"
    by blast
  then show ?thesis
  proof cases
    case 1
    then have "unat a < 24" by (simp add: word_less_nat_alt)
    then have x: "unat (ucast a :: u8) < 28" "(ucast a :: u8) < 24" using u(1) [OF 1] by (simp_all add: word_less_nat_alt)
    then show ?thesis using cbor_hdr_byte [OF assms x(1)] 1 u(2) [OF 1] by (auto simp: cbor_head_def)
  next
    case 2
    then show ?thesis using cbor_hdr_byte [OF assms, of 24] cbor_arg_be [of 1 0 a r] lt take_small [of a 8]
      by (simp add: cbor_head_def)
  next
    case 3
    then show ?thesis using cbor_hdr_byte [OF assms, of 25] cbor_arg_be [of 2 0 a r] lt2 take_small [of a 16]
      by (simp add: cbor_head_def word_less_nat_alt)
  next
    case 4
    then show ?thesis using cbor_hdr_byte [OF assms, of 26] cbor_arg_be [of 4 0 a r] lt4 take_small [of a 32]
      by (simp add: cbor_head_def word_less_nat_alt)
  next
    case 5
    then show ?thesis using cbor_hdr_byte [OF assms, of 27] cbor_arg_be [of 8 0 a r] take_bit_word_eq_self [of 64 a]
      by (simp add: cbor_head_def word_less_nat_alt)
  qed
qed

text \<open>A buffer of at most 256 bytes at the end address \<open>E\<close> of a real object: its bytes lie above address 0.\<close>

lemma fits_inside:
  assumes "length r \<le> unat E" "unat a \<le> length r" "length r < 4294967296"
  shows "fits E r a"
proof -
  have n: "unat (word_of_nat (length r) :: u32) = length r" using assms(3) by (simp add: unat_of_nat)
  have a: "unat (ucast a :: u32) = unat a" using assms by (simp add: unsigned_ucast_eq take_bit_nat_eq_self)
  have "E - word_of_nat (length r) + ucast a \<le> E"
    using assms n a by unat_arith
  then show ?thesis by (simp add: fits_def)
qed

lemma take_str_inside:
  assumes "length s < 4294967296 - length r" "length s + length r \<le> unat E"
  shows "take_str E (word_of_nat (length s)) (s @ r) = Got s r"
proof -
  have n: "unat (word_of_nat (length s) :: u64) = length s" using assms(1) by (simp add: unat_of_nat)
  have "fits E (s @ r) (word_of_nat (length s))" by (rule fits_inside) (use assms n in auto)
  then show ?thesis by (simp add: take_str_def n)
qed

datatype citem = C_uint u64 | C_bytes "u8 list" | C_text "u8 list" | C_array "citem list" | C_map "(citem \<times> citem) list"

fun enc :: "citem \<Rightarrow> u8 list" where
  "enc (C_uint v) = cbor_head CBOR_UINT v"
| "enc (C_bytes s) = cbor_head CBOR_BYTES (word_of_nat (length s)) @ s"
| "enc (C_text s) = cbor_head CBOR_TEXT (word_of_nat (length s)) @ s"
| "enc (C_array xs) = cbor_head CBOR_ARRAY (word_of_nat (length xs)) @ concat (map enc xs)"
| "enc (C_map kvs) = cbor_head CBOR_MAP (word_of_nat (length kvs)) @ concat (map (\<lambda>(k, v). enc k @ enc v) kvs)"

lemmas cbor_hdr_kinds =
  cbor_hdr_head [of CBOR_UINT] cbor_hdr_head [of CBOR_BYTES] cbor_hdr_head [of CBOR_TEXT]
  cbor_hdr_head [of CBOR_ARRAY] cbor_hdr_head [of CBOR_MAP]

lemma kinds_small [simp]:
  "unat CBOR_UINT < 8" "unat CBOR_BYTES < 8" "unat CBOR_TEXT < 8" "unat CBOR_ARRAY < 8" "unat CBOR_MAP < 8"
  by (simp_all add: cbor_defs)

lemma kinds_distinct [simp]:
  "CBOR_BYTES \<noteq> CBOR_UINT" "CBOR_TEXT \<noteq> CBOR_UINT" "CBOR_ARRAY \<noteq> CBOR_UINT" "CBOR_MAP \<noteq> CBOR_UINT"
  "CBOR_ARRAY \<noteq> CBOR_BYTES" "CBOR_MAP \<noteq> CBOR_BYTES" "CBOR_ARRAY \<noteq> CBOR_TEXT" "CBOR_MAP \<noteq> CBOR_TEXT"
  "CBOR_MAP \<noteq> CBOR_ARRAY"
  by (simp_all add: cbor_defs)

lemma head_nonempty [simp]: "cbor_head m a \<noteq> []"
  by (simp add: cbor_head_def)

lemma enc_nonempty: "0 < length (enc it)"
  by (cases it) simp_all

lemma length_concat_ge: "(\<And>x. x \<in> set xs \<Longrightarrow> k \<le> length (f x)) \<Longrightarrow> k * length xs \<le> length (concat (map f xs))"
  by (induction xs) (auto simp: add_mono)

text \<open>A cursor inside a real buffer.\<close>

definition in_ram :: "u32 \<Rightarrow> u8 list \<Rightarrow> bool" where
  "in_ram E r \<longleftrightarrow> length r \<le> unat E"

lemma in_ramD: "in_ram E r \<Longrightarrow> length r \<le> unat E \<and> length r < 4294967296"
  using unat_u32_less [of E] unfolding in_ram_def by linarith

lemma in_ram_app: "in_ram E (xs @ r) \<Longrightarrow> in_ram E r"
  by (simp add: in_ram_def)

lemma str_inside:
  assumes "in_ram E (cbor_head m (word_of_nat (length s)) @ s @ r)"
  shows "take_str E (word_of_nat (length s)) (s @ r) = Got s r"
  using in_ramD [OF assms] head_nonempty [of m "word_of_nat (length s)"] by (intro take_str_inside) (auto simp del: head_nonempty)

lemma cbor_uint_enc [simp]: "cbor_uint (enc (C_uint v) @ r) = Got v r"
  by (simp add: cbor_uint_def cbor_hdr_kinds)

lemma cbor_str_enc [simp]:
  "in_ram E (enc (C_text s) @ r) \<Longrightarrow> cbor_str E CBOR_TEXT (enc (C_text s) @ r) = Got s r"
  "in_ram E (enc (C_bytes s) @ r) \<Longrightarrow> cbor_str E CBOR_BYTES (enc (C_bytes s) @ r) = Got s r"
  by (simp_all add: cbor_str_def cbor_hdr_kinds str_inside)

lemma cbor_open_enc [simp]:
  "cbor_open CBOR_ARRAY (enc (C_array xs) @ r) = Got (word_of_nat (length xs)) (concat (map enc xs) @ r)"
  "cbor_open CBOR_MAP (enc (C_map kvs) @ r)
     = Got (word_of_nat (length kvs)) (concat (map (\<lambda>(k, v). enc k @ enc v) kvs) @ r)"
  by (simp_all add: cbor_open_def cbor_hdr_kinds)

lemma skips_concat:
  assumes "\<And>x r n. x \<in> set xs \<Longrightarrow> in_ram E (f x @ r) \<Longrightarrow> cbor_skips E (k + n) (f x @ r) = cbor_skips E n r"
  shows "in_ram E (concat (map f xs) @ r) \<Longrightarrow>
    cbor_skips E (k * length xs + n) (concat (map f xs) @ r) = cbor_skips E n r"
  using assms
proof (induction xs)
  case (Cons x xs)
  have "in_ram E (f x @ concat (map f xs) @ r)" using Cons.prems(1) by simp
  then have "cbor_skips E (k + (k * length xs + n)) (f x @ concat (map f xs) @ r)
      = cbor_skips E (k * length xs + n) (concat (map f xs) @ r)"
    using Cons.prems(2) by simp
  also have "\<dots> = cbor_skips E n r"
    using Cons.prems in_ram_app [of E "f x"] by (intro Cons.IH) simp_all
  finally show ?case by (simp add: add.assoc)
qed simp

lemma skips_enc: "in_ram E (enc it @ r) \<Longrightarrow> cbor_skips E (Suc n) (enc it @ r) = cbor_skips E n r"
proof (induction it arbitrary: r n rule: enc.induct)
  case (4 xs)
  let ?body = "concat (map enc xs)"
  note ir = in_ramD [OF "4.prems"] in_ram_app [of E "cbor_head CBOR_ARRAY (word_of_nat (length xs))" "?body @ r"]
  have "length xs \<le> length ?body" using length_concat_ge [of xs 1 enc] enc_nonempty by (simp add: Suc_leI)
  then have len: "unat (word_of_nat (length xs) :: u64) = length xs" using ir(1) by (simp add: unat_of_nat)
  have "cbor_skips E (1 * length xs + n) (?body @ r) = cbor_skips E n r"
    by (rule skips_concat) (use 4 ir in simp_all)
  then show ?case by (simp add: cbor_skips_step cbor_hdr_kinds len)
next
  case (5 kvs)
  let ?f = "\<lambda>(k, v). enc k @ enc v"
  let ?body = "concat (map ?f kvs)"
  note ir = in_ramD [OF "5.prems"] in_ram_app [of E "cbor_head CBOR_MAP (word_of_nat (length kvs))" "?body @ r"]
  have "2 * length kvs \<le> length ?body"
  proof (rule length_concat_ge)
    fix x assume "x \<in> set kvs"
    show "2 \<le> length (?f x)" using enc_nonempty [of "fst x"] enc_nonempty [of "snd x"] by (cases x) (simp del: length_greater_0_conv)
  qed
  then have len: "unat (2 * word_of_nat (length kvs) :: u64) = 2 * length kvs"
    using ir(1) by (simp add: unat_word_ariths unat_of_nat)
  have "cbor_skips E (2 * length kvs + n) (?body @ r) = cbor_skips E n r"
  proof (rule skips_concat)
    fix x r n assume x: "x \<in> set kvs" and m: "in_ram E (?f x @ r)"
    obtain k v where kv: "x = (k, v)" by fastforce
    show "cbor_skips E (2 + n) (?f x @ r) = cbor_skips E n r"
      using 5(1,2) [OF x kv [symmetric]] m in_ram_app [of E "enc k" "enc v @ r"] by (simp add: kv)
  qed (use "5.prems" ir in simp)
  then show ?case by (simp add: cbor_skips_step cbor_hdr_kinds len)
qed (simp_all add: cbor_skips_step cbor_hdr_kinds str_inside)

text \<open>
  C29. Skipping an unknown value consumes exactly one item: for every CBOR item (integers, byte and
  text strings, arrays and maps, nested to any depth) that lies in a buffer, \<^verbatim>\<open>cbor_skip\<close> succeeds
  and leaves the cursor at the byte behind the item's encoding.
\<close>

theorem cbor_skip_one_item:
  assumes "length (enc it @ rest) \<le> unat E"
  shows "cbor_skip E (enc it @ rest) = Got () rest"
  using skips_enc [of E it rest 0] assms by (simp add: cbor_skip_def in_ram_def)

theorem cbor_skip_one_item_witness:
  "cbor_skip 0x20040000 (enc (C_map [(C_text [1, 2], C_array [C_uint 500, C_bytes [7]])]) @ [9]) = Got () [9]"
proof (rule cbor_skip_one_item)
  have "length (enc (C_map [(C_text [1, 2], C_array [C_uint 500, C_bytes [7]])]) @ [9]) \<le> 64" by code_simp
  then show "length (enc (C_map [(C_text [1, 2], C_array [C_uint 500, C_bytes [7]])]) @ [9]) \<le> unat (0x20040000 :: u32)"
    by (rule order.trans) simp
qed

text \<open>
  The bounds check can be passed by a string that does not fit: the end of the string is computed in 32-bit
  pointer arithmetic and wraps.  A text header with the length 0xF0000000 at the end of a buffer in
  RAM passes the check, and the cursor leaves the buffer.
\<close>

theorem cbor_str_check_wraps:
  "cbor_str 0x20040000 CBOR_TEXT (cbor_head CBOR_TEXT 0xF0000000) = Undef"
  using cbor_hdr_head [of CBOR_TEXT "0xF0000000" "[]"]
  by (simp add: cbor_str_def take_str_def fits_def)

end
