(* ===== verification/Cfg_File.thy ===== *)
theory Cfg_File
  imports Bus_Crc8
begin

text \<open>
  The read-only configuration store (\<^verbatim>\<open>src/node/cfg_file.c\<close>): one 256-byte row per entry in the top
  64 KB of flash.  The region is the list of its rows, read as the packed struct \<open>cfg_entry_t\<close>.
\<close>

unbundle bit_operations_syntax

definition CFG_NAME_LEN :: nat where "CFG_NAME_LEN = 4"
definition CFG_FILE_MAX :: nat where "CFG_FILE_MAX = 256"
definition CFG_STORE_MAGIC :: u32 where "CFG_STORE_MAGIC = 0x10C0FFEE"
definition CFG_STORE_DATA_MAX :: u8 where "CFG_STORE_DATA_MAX = 240"
definition CFG_REGION_LEN :: u32 where "CFG_REGION_LEN = 64 * 1024"
definition CFG_REGION_ROWS :: nat where "CFG_REGION_ROWS = 256"

record cfg_entry =
  ce_magic :: u32
  ce_seq :: u32
  ce_name :: "u8 list"
  ce_len :: u8
  ce_crc :: u8
  ce_data :: "u8 list"

definition entry_crc :: "u8 list \<Rightarrow> u8 \<Rightarrow> u8 list \<Rightarrow> u8" where
  "entry_crc name len data =
     (let c = foldl bus_crc8_update 0xFF name; c = bus_crc8_update c len
      in foldl bus_crc8_update c (take (unat len) data) XOR 0xFF)"

definition entry_valid :: "cfg_entry \<Rightarrow> bool" where
  "entry_valid e \<longleftrightarrow> ce_magic e = CFG_STORE_MAGIC \<and> ce_name e ! 0 \<noteq> 0xFF \<and> ce_len e \<le> CFG_STORE_DATA_MAX \<and>
     entry_crc (ce_name e) (ce_len e) (ce_data e) = ce_crc e"

text \<open>The scan over the rows; \<open>best\<close> is the entry found so far.\<close>

fun cfg_scan :: "u8 list \<Rightarrow> cfg_entry option \<Rightarrow> cfg_entry list \<Rightarrow> cfg_entry option" where
  "cfg_scan name best [] = best"
| "cfg_scan name best (e # es) =
     (if \<not> entry_valid e then cfg_scan name best es
      else if ce_name e \<noteq> name then cfg_scan name best es
      else cfg_scan name
        (case best of None \<Rightarrow> Some e | Some b \<Rightarrow> if ce_seq e > ce_seq b then Some e else Some b) es)"

definition cfg_load :: "cfg_entry list \<Rightarrow> u8 list \<Rightarrow> nat \<Rightarrow> int + u8 list" where
  "cfg_load region name cap =
     (case cfg_scan name None region of
        None \<Rightarrow> Inl (-1)
      | Some best \<Rightarrow> if unat (ce_len best) > cap then Inl (-2) else Inr (take (unat (ce_len best)) (ce_data best)))"

text \<open>The base of the region is \<open>xip\<close>, where the flash is mapped, plus its size less 64 KB.\<close>

definition cfg_layout_ok :: "u32 \<Rightarrow> u32 \<Rightarrow> u32 \<Rightarrow> bool" where
  "cfg_layout_ok xip flash_size flash_binary_end \<longleftrightarrow> flash_binary_end \<le> xip + flash_size - CFG_REGION_LEN"

section \<open>The newest valid entry wins\<close>

definition candidates :: "cfg_entry list \<Rightarrow> u8 list \<Rightarrow> cfg_entry list" where
  "candidates region name = filter (\<lambda>e. entry_valid e \<and> ce_name e = name) region"

lemma cfg_scan_candidates: "cfg_scan name best es = cfg_scan name best (candidates es name)"
  by (induction es arbitrary: best) (auto simp: candidates_def)

lemma cfg_scan_max:
  "list_all (\<lambda>e. entry_valid e \<and> ce_name e = name) es \<Longrightarrow> \<exists>e. cfg_scan name (Some b) es = Some e \<and> e \<in> set (b # es) \<and>
     (\<forall>e'\<in>set (b # es). ce_seq e' \<le> ce_seq e)"
proof (induction es arbitrary: b)
  case (Cons x es)
  show ?case
  proof (cases "ce_seq x > ce_seq b")
    case True
    then show ?thesis using Cons.IH [of x] Cons.prems by fastforce
  next
    case False
    then show ?thesis using Cons.IH [of b] Cons.prems by fastforce
  qed
qed simp

lemma cfg_scan_newest:
  "candidates region name \<noteq> [] \<Longrightarrow> \<exists>e\<in>set (candidates region name).
     cfg_scan name None region = Some e \<and> (\<forall>e'\<in>set (candidates region name). ce_seq e' \<le> ce_seq e)"
proof -
  assume "candidates region name \<noteq> []"
  then obtain b es where c: "candidates region name = b # es" by (cases "candidates region name") auto
  have ok: "list_all (\<lambda>e. entry_valid e \<and> ce_name e = name) (b # es)"
    using c by (auto simp: candidates_def list_all_iff dest!: arg_cong [where f = set])
  then show ?thesis
    using cfg_scan_max [of name es b] unfolding cfg_scan_candidates [of name None region] c by auto
qed

lemma cfg_scan_absent: "candidates region name = [] \<Longrightarrow> cfg_scan name None region = None"
  by (subst cfg_scan_candidates) simp

lemma cfg_load_bounded: "cfg_load region name cap = Inr d \<Longrightarrow> length d \<le> cap"
  by (auto simp: cfg_load_def split: option.splits if_splits)

text \<open>
  C32. A file is found exactly when some row with its name is intact; then the contents are those of an
  intact row of that name with the highest sequence number, cut to its length (or \<open>-2\<close> when they do
  not fit the caller's buffer).  Rows of other names, erased rows and corrupted rows never matter.
\<close>

theorem cfg_load_newest:
  shows "if candidates region name = [] then cfg_load region name cap = Inl (-1)
    else (\<exists>e\<in>set (candidates region name). (\<forall>e'\<in>set (candidates region name). ce_seq e' \<le> ce_seq e) \<and>
      cfg_load region name cap =
        (if unat (ce_len e) > cap then Inl (-2) else Inr (take (unat (ce_len e)) (ce_data e))))"
proof (cases "candidates region name = []")
  case True
  then show ?thesis by (simp add: cfg_load_def cfg_scan_absent)
next
  case False
  then obtain e where e: "e \<in> set (candidates region name)" "cfg_scan name None region = Some e"
    "\<forall>e'\<in>set (candidates region name). ce_seq e' \<le> ce_seq e"
    using cfg_scan_newest by blast
  have "cfg_load region name cap =
      (if unat (ce_len e) > cap then Inl (-2) else Inr (take (unat (ce_len e)) (ce_data e)))"
    using e(2) by (simp add: cfg_load_def)
  then show ?thesis using False e(1,3) by auto
qed

text \<open>Two intact rows \<open>abcd\<close>, the second one newer; and a row whose contents were changed.\<close>

definition row_at :: "u32 \<Rightarrow> u8 list \<Rightarrow> cfg_entry" where
  "row_at seq data = \<lparr>ce_magic = CFG_STORE_MAGIC, ce_seq = seq, ce_name = [0x61, 0x62, 0x63, 0x64],
     ce_len = word_of_nat (length data), ce_crc = entry_crc [0x61, 0x62, 0x63, 0x64] (word_of_nat (length data)) data,
     ce_data = data\<rparr>"

lemma row_at_valid: "length data \<le> 240 \<Longrightarrow> entry_valid (row_at seq data)"
  by (simp add: entry_valid_def row_at_def CFG_STORE_DATA_MAX_def word_le_nat_alt unat_of_nat)

theorem cfg_load_newest_witness:
  "cfg_load [row_at 1 [7], row_at 2 [8, 9]] [0x61, 0x62, 0x63, 0x64] 256 = Inr [8, 9]"
proof -
  have v: "candidates [row_at 1 [7], row_at 2 [8, 9]] [0x61, 0x62, 0x63, 0x64] = [row_at 1 [7], row_at 2 [8, 9]]"
    using row_at_valid [of "[7]" 1] row_at_valid [of "[8, 9]" 2] by (simp add: candidates_def) (simp add: row_at_def)
  show ?thesis
    using cfg_load_newest [of "[row_at 1 [7], row_at 2 [8, 9]]" "[0x61, 0x62, 0x63, 0x64]" 256]
    unfolding v by (simp add: row_at_def word_le_nat_alt)
qed

section \<open>Corruption\<close>

lemma entry_crc_fold:
  "entry_crc name len data = foldl bus_crc8_update 0xFF (name @ len # take (unat len) data) XOR 0xFF"
  by (simp add: entry_crc_def Let_def)

text \<open>
  Any single corrupted byte of the name or of the stored contents of an intact row makes the row
  invisible: a read behaves as if the row were not there, so it returns an older copy or reports
  the file missing, never corrupted contents.
\<close>

theorem cfg_load_ignores_corrupted_row:
  assumes "entry_valid e"
    and "(\<exists>i b. i < unat (ce_len e) \<and> i < length (ce_data e) \<and> b \<noteq> ce_data e ! i \<and> e' = e\<lparr>ce_data := (ce_data e)[i := b]\<rparr>) \<or>
      (\<exists>i b. i < length (ce_name e) \<and> b \<noteq> ce_name e ! i \<and> e' = e\<lparr>ce_name := (ce_name e)[i := b]\<rparr>)"
  shows "cfg_load (pre @ e' # post) name cap = cfg_load (pre @ post) name cap"
proof -
  have "\<not> entry_valid e'"
  proof
    assume v: "entry_valid e'"
    have crc: "entry_crc (ce_name e) (ce_len e) (ce_data e) = ce_crc e" using assms(1) by (simp add: entry_valid_def)
    consider i b where "i < unat (ce_len e)" "i < length (ce_data e)" "b \<noteq> ce_data e ! i" "e' = e\<lparr>ce_data := (ce_data e)[i := b]\<rparr>"
      | i b where "i < length (ce_name e)" "b \<noteq> ce_name e ! i" "e' = e\<lparr>ce_name := (ce_name e)[i := b]\<rparr>"
      using assms(2) by blast
    then show False
    proof cases
      case 1
      let ?d = "take (unat (ce_len e)) (ce_data e)" and ?h = "ce_name e @ [ce_len e]"
      have i: "i < length ?d" using 1 by simp
      have "foldl bus_crc8_update 0xFF (?h @ ?d[i := b]) XOR 0xFF = foldl bus_crc8_update 0xFF (?h @ ?d) XOR 0xFF"
        using v crc 1 by (simp add: entry_valid_def entry_crc_fold take_update_swap)
      then have "foldl bus_crc8_update 0xFF (?h @ ?d[i := b]) = foldl bus_crc8_update 0xFF (?h @ ?d)"
        by (rule xor_right_inj)
      then have "foldl bus_crc8_update 0xFF ((?h @ take i ?d) @ b # drop (Suc i) ?d)
          = foldl bus_crc8_update 0xFF ((?h @ take i ?d) @ ?d ! i # drop (Suc i) ?d)"
        using i by (simp only: upd_conv_take_nth_drop [OF i] append_assoc id_take_nth_drop [OF i, symmetric])
      from crc8_fold_single_byte [OF this] show False using 1 by simp
    next
      case 2
      let ?n = "ce_name e" and ?t = "ce_len e # take (unat (ce_len e)) (ce_data e)"
      have "foldl bus_crc8_update 0xFF (?n[i := b] @ ?t) XOR 0xFF = foldl bus_crc8_update 0xFF (?n @ ?t) XOR 0xFF"
        using v crc 2 by (simp add: entry_valid_def entry_crc_fold)
      then have "foldl bus_crc8_update 0xFF (?n[i := b] @ ?t) = foldl bus_crc8_update 0xFF (?n @ ?t)"
        by (rule xor_right_inj)
      then have "foldl bus_crc8_update 0xFF (take i ?n @ b # (drop (Suc i) ?n @ ?t))
          = foldl bus_crc8_update 0xFF (take i ?n @ ?n ! i # (drop (Suc i) ?n @ ?t))"
        using 2(1) by (metis append.assoc append_Cons id_take_nth_drop upd_conv_take_nth_drop)
      from crc8_fold_single_byte [OF this] show False using 2 by simp
    qed
  qed
  then have "cfg_scan name None (pre @ e' # post) = cfg_scan name None (pre @ post)"
    by (subst (1 2) cfg_scan_candidates) (simp add: candidates_def)
  then show ?thesis by (simp add: cfg_load_def)
qed

theorem cfg_load_ignores_corrupted_row_witness:
  "cfg_load ([row_at 1 [7]] @ (row_at 2 [8, 9])\<lparr>ce_data := [8, 1]\<rparr> # []) [0x61, 0x62, 0x63, 0x64] 256 = Inr [7]"
proof -
  have c: "candidates [row_at 1 [7]] [0x61, 0x62, 0x63, 0x64] = [row_at 1 [7]]"
    using row_at_valid [of "[7]" 1] by (simp add: candidates_def) (simp add: row_at_def)
  have "cfg_load ([row_at 1 [7]] @ (row_at 2 [8, 9])\<lparr>ce_data := [8, 1]\<rparr> # []) [0x61, 0x62, 0x63, 0x64] 256
      = cfg_load ([row_at 1 [7]] @ []) [0x61, 0x62, 0x63, 0x64] 256"
    by (rule cfg_load_ignores_corrupted_row [where e = "row_at 2 [8, 9]"])
      (simp add: row_at_valid, rule disjI1, rule exI [of _ 1], rule exI [of _ 1], simp add: row_at_def)
  also have "\<dots> = Inr [7]"
    using cfg_scan_newest [of "[row_at 1 [7]]" "[0x61, 0x62, 0x63, 0x64]"] unfolding c
    by (simp add: cfg_load_def) (simp add: row_at_def)
  finally show ?thesis .
qed

end
