(* ===== verification/Il_Hal.thy ===== *)
theory Il_Hal
  imports Prelude
begin

text \<open>
  The pin HAL of the interlock (\<^verbatim>\<open>src/node/interlock/il_hal.h\<close>,
  \<^verbatim>\<open>src/node/interlock/il_hal_rp2040.c\<close>): the ownership table of the GPIO pins.

  The table \<open>g_claims\<close> and its initialisation flag are the record \<open>hal\<close>; the SDK calls an operation
  makes are appended to \<open>h_calls\<close>.  The platform seam \<open>il_plat_*\<close> and the SDK's \<open>gpio_get\<close> are
  the fields of the record \<open>plat\<close>, an argument of the operations that use them.  A slot number is
  below 16, the width of \<open>il_slotmask_t\<close>.
\<close>

unbundle bit_operations_syntax

section \<open>Types\<close>

definition HAL_PIN_TABLE_SIZE :: nat where "HAL_PIN_TABLE_SIZE = 30"

type_synonym il_slotmask = u16

datatype hal_pin_mode =
    HAL_PIN_MODE_UNCLAIMED | HAL_PIN_MODE_GPIO_IN | HAL_PIN_MODE_GPIO_IN_PU
  | HAL_PIN_MODE_GPIO_IN_PD | HAL_PIN_MODE_GPIO_OUT | HAL_PIN_MODE_ADC_SCAN

datatype hal_pin_claim_status =
    HAL_PIN_CLAIM_OK | HAL_PIN_CLAIM_NO_SUCH_PIN | HAL_PIN_CLAIM_RESERVED | HAL_PIN_CLAIM_TAKEN
  | HAL_PIN_CLAIM_CAP_MISSING | HAL_PIN_CLAIM_BAD_MODE | HAL_PIN_CLAIM_VALUE_MISMATCH

record hal_claim =
  c_slot_mask :: il_slotmask
  c_mode :: hal_pin_mode
  c_ok_value :: u8
  c_err_value :: u8
  c_adc_channel :: u8
  c_open_drain :: u8

datatype gpio_call =
    Gpio_init u8 | Gpio_put u8 bool | Gpio_set_dir u8 bool | Gpio_pull_up u8 | Gpio_disable_pulls u8

record hal =
  g_claims :: "hal_claim list"
  g_claims_initialised :: bool
  h_calls :: "gpio_call list"

record plat =
  p_pin_reserved :: "u8 \<Rightarrow> bool"
  p_pin_cap :: "u8 \<Rightarrow> hal_pin_mode \<Rightarrow> bool"
  p_adc_channel :: "u8 \<Rightarrow> u8"
  p_adc_latest :: "u8 \<Rightarrow> u16"
  p_adc_stat :: "u8 \<Rightarrow> u8 \<Rightarrow> u16"
  p_gpio_get :: "u8 \<Rightarrow> bool"

section \<open>Operations\<close>

definition unclaimed :: hal_claim where
  "unclaimed = \<lparr>c_slot_mask = 0, c_mode = HAL_PIN_MODE_UNCLAIMED, c_ok_value = 0, c_err_value = 0,
     c_adc_channel = 0xFF, c_open_drain = 0\<rparr>"

definition ensure_initialised :: "hal \<Rightarrow> hal" where
  "ensure_initialised h =
     (if g_claims_initialised h then h
      else h\<lparr>g_claims := map (\<lambda>_. unclaimed) (g_claims h), g_claims_initialised := True\<rparr>)"

definition slot_bit :: "u8 \<Rightarrow> il_slotmask" where "slot_bit slot = push_bit (unat slot) 1"

definition claim_at :: "hal \<Rightarrow> u8 \<Rightarrow> hal_claim" where "claim_at h pid = g_claims h ! unat pid"

definition set_claim :: "hal \<Rightarrow> u8 \<Rightarrow> hal_claim \<Rightarrow> hal" where
  "set_claim h pid c = h\<lparr>g_claims := (g_claims h)[unat pid := c]\<rparr>"

definition is_input_mode :: "hal_pin_mode \<Rightarrow> bool" where
  "is_input_mode m \<longleftrightarrow> m = HAL_PIN_MODE_GPIO_IN \<or> m = HAL_PIN_MODE_GPIO_IN_PU \<or> m = HAL_PIN_MODE_GPIO_IN_PD"

definition hal_pin_claim :: "plat \<Rightarrow> u8 \<Rightarrow> u8 \<Rightarrow> hal_pin_mode \<Rightarrow> hal \<Rightarrow> hal_pin_claim_status \<times> hal" where
  "hal_pin_claim pl pid slot mode h0 =
     (let h = ensure_initialised h0; c = claim_at h pid in
      if unat pid \<ge> HAL_PIN_TABLE_SIZE then (HAL_PIN_CLAIM_NO_SUCH_PIN, h)
      else if \<not> is_input_mode mode then (HAL_PIN_CLAIM_BAD_MODE, h)
      else if p_pin_reserved pl pid then (HAL_PIN_CLAIM_RESERVED, h)
      else if \<not> p_pin_cap pl pid mode then (HAL_PIN_CLAIM_CAP_MISSING, h)
      else if c_slot_mask c \<noteq> 0 \<and> c_slot_mask c \<noteq> slot_bit slot then (HAL_PIN_CLAIM_TAKEN, h)
      else (HAL_PIN_CLAIM_OK,
            set_claim h pid (c\<lparr>c_slot_mask := slot_bit slot, c_mode := mode, c_ok_value := 0,
                               c_err_value := 0\<rparr>)))"

definition hal_pin_claim_adc :: "plat \<Rightarrow> u8 \<Rightarrow> u8 \<Rightarrow> hal \<Rightarrow> hal_pin_claim_status \<times> hal" where
  "hal_pin_claim_adc pl pid slot h0 =
     (let h = ensure_initialised h0; c = claim_at h pid; ch = p_adc_channel pl pid in
      if unat pid \<ge> HAL_PIN_TABLE_SIZE then (HAL_PIN_CLAIM_NO_SUCH_PIN, h)
      else if ch = 0xFF then (HAL_PIN_CLAIM_CAP_MISSING, h)
      else if p_pin_reserved pl pid then (HAL_PIN_CLAIM_RESERVED, h)
      else (HAL_PIN_CLAIM_OK,
            set_claim h pid (c\<lparr>c_slot_mask := c_slot_mask c OR slot_bit slot,
                               c_mode := HAL_PIN_MODE_ADC_SCAN, c_ok_value := 0, c_err_value := 0,
                               c_adc_channel := ch\<rparr>)))"

definition hal_pin_read_adc :: "plat \<Rightarrow> u8 \<Rightarrow> hal \<Rightarrow> u16" where
  "hal_pin_read_adc pl pid h0 =
     (let h = ensure_initialised h0; c = claim_at h pid in
      if unat pid \<ge> HAL_PIN_TABLE_SIZE then 0
      else if c_mode c \<noteq> HAL_PIN_MODE_ADC_SCAN \<or> c_adc_channel c = 0xFF then 0
      else p_adc_latest pl (c_adc_channel c))"

definition apply_calls :: "hal_claim \<Rightarrow> u8 \<Rightarrow> u8 \<Rightarrow> gpio_call list" where
  "apply_calls c pid value =
     (if c_open_drain c \<noteq> 0 then
        (if value \<noteq> 0
         then [Gpio_set_dir pid False, if c_open_drain c = 2 then Gpio_pull_up pid else Gpio_disable_pulls pid]
         else [Gpio_put pid False, Gpio_set_dir pid True])
      else [Gpio_put pid (value \<noteq> 0), Gpio_set_dir pid True])"

definition hal_pin_apply_output :: "u8 \<Rightarrow> u8 \<Rightarrow> hal \<Rightarrow> hal" where
  "hal_pin_apply_output pid value h = h\<lparr>h_calls := h_calls h @ apply_calls (claim_at h pid) pid value\<rparr>"

definition hal_pin_claim_output :: "plat \<Rightarrow> u8 \<Rightarrow> u8 \<Rightarrow> u8 \<Rightarrow> u8 \<Rightarrow> u8 \<Rightarrow> hal \<Rightarrow> hal_pin_claim_status \<times> hal" where
  "hal_pin_claim_output pl pid slot ok err od h0 =
     (let h = ensure_initialised h0; c = claim_at h pid in
      if unat pid \<ge> HAL_PIN_TABLE_SIZE then (HAL_PIN_CLAIM_NO_SUCH_PIN, h)
      else if ok > 1 \<or> err > 1 \<or> od > 2 then (HAL_PIN_CLAIM_BAD_MODE, h)
      else if ok = err then (HAL_PIN_CLAIM_VALUE_MISMATCH, h)
      else if p_pin_reserved pl pid then (HAL_PIN_CLAIM_RESERVED, h)
      else if \<not> p_pin_cap pl pid HAL_PIN_MODE_GPIO_OUT then (HAL_PIN_CLAIM_CAP_MISSING, h)
      else if c_slot_mask c \<noteq> 0 then
        (if c_mode c \<noteq> HAL_PIN_MODE_GPIO_OUT then (HAL_PIN_CLAIM_TAKEN, h)
         else if c_ok_value c \<noteq> ok \<or> c_err_value c \<noteq> err \<or> c_open_drain c \<noteq> od
         then (HAL_PIN_CLAIM_VALUE_MISMATCH, h)
         else (HAL_PIN_CLAIM_OK, set_claim h pid (c\<lparr>c_slot_mask := c_slot_mask c OR slot_bit slot\<rparr>)))
      else
        (let h1 = h\<lparr>h_calls := h_calls h @ [Gpio_init pid]\<rparr>;
             c1 = c\<lparr>c_open_drain := od, c_ok_value := ok, c_err_value := err\<rparr>;
             h2 = hal_pin_apply_output pid ok (set_claim h1 pid c1)
         in (HAL_PIN_CLAIM_OK,
             set_claim h2 pid (c1\<lparr>c_slot_mask := slot_bit slot, c_mode := HAL_PIN_MODE_GPIO_OUT\<rparr>))))"

text \<open>One row of the loop of \<open>hal_pin_release_slot\<close>: the new row and the SDK calls.\<close>

definition release_row :: "il_slotmask \<Rightarrow> u8 \<Rightarrow> hal_claim \<Rightarrow> hal_claim \<times> gpio_call list" where
  "release_row sb pid c =
     (if c_slot_mask c AND sb = 0 then (c, [])
      else (let m = c_slot_mask c AND NOT sb in
            if m = 0
            then (c\<lparr>c_slot_mask := m, c_mode := HAL_PIN_MODE_UNCLAIMED, c_ok_value := 0,
                    c_err_value := 0, c_open_drain := 0, c_adc_channel := 0xFF\<rparr>,
                  if c_mode c = HAL_PIN_MODE_GPIO_OUT then [Gpio_set_dir pid False, Gpio_disable_pulls pid]
                  else [])
            else (c\<lparr>c_slot_mask := m\<rparr>, [])))"

definition hal_pin_release_slot :: "u8 \<Rightarrow> hal \<Rightarrow> hal" where
  "hal_pin_release_slot slot h0 =
     (let h = ensure_initialised h0;
          rows = map (\<lambda>i. release_row (slot_bit slot) (word_of_nat i) (g_claims h ! i)) [0..<length (g_claims h)]
      in h\<lparr>g_claims := map fst rows, h_calls := h_calls h @ concat (map snd rows)\<rparr>)"

definition hal_pin_get_owners :: "u8 \<Rightarrow> hal \<Rightarrow> il_slotmask" where
  "hal_pin_get_owners pid h0 =
     (let h = ensure_initialised h0 in
      if unat pid \<ge> HAL_PIN_TABLE_SIZE then 0 else c_slot_mask (claim_at h pid))"

definition hal_pin_get_mode :: "u8 \<Rightarrow> hal \<Rightarrow> hal_pin_mode" where
  "hal_pin_get_mode pid h0 =
     (let h = ensure_initialised h0 in
      if unat pid \<ge> HAL_PIN_TABLE_SIZE then HAL_PIN_MODE_UNCLAIMED else c_mode (claim_at h pid))"

text \<open>\<open>while (m) { m &= m - 1; bits++; }\<close>\<close>

lemma and_dec_less: "m \<noteq> 0 \<Longrightarrow> unat (m AND (m - 1)) < unat (m :: u16)"
proof -
  assume "m \<noteq> 0"
  then have "0 < unat m" by (simp add: unat_gt_0)
  then have "unat (m - 1) < unat m" by (simp add: unat_dec_word)
  moreover have "unat (m AND (m - 1)) \<le> unat (m - 1)"
    by (simp only: word_le_nat_alt [symmetric]) (rule word_and_le1)
  ultimately show ?thesis by linarith
qed

function popcount_loop :: "u16 \<Rightarrow> u8 \<Rightarrow> u8" where
  "popcount_loop m bits = (if m = 0 then bits else popcount_loop (m AND (m - 1)) (bits + 1))"
  by auto

termination popcount_loop
  by (relation "measure (\<lambda>(m, bits). unat m)") (simp_all add: and_dec_less)

declare popcount_loop.simps [simp del]

definition row_consistent :: "hal_claim \<Rightarrow> bool" where
  "row_consistent c \<longleftrightarrow> c_slot_mask c = 0 \<or> c_mode c = HAL_PIN_MODE_GPIO_OUT \<or>
     c_mode c = HAL_PIN_MODE_ADC_SCAN \<or> \<not> popcount_loop (c_slot_mask c) 0 > 1"

definition hal_pin_check_consistency :: "hal \<Rightarrow> bool" where
  "hal_pin_check_consistency h0 = list_all row_consistent (g_claims (ensure_initialised h0))"

definition hal_pin_read :: "plat \<Rightarrow> u8 \<Rightarrow> u8" where
  "hal_pin_read pl pid = (if unat pid \<ge> HAL_PIN_TABLE_SIZE then 0 else if p_gpio_get pl pid then 1 else 0)"

definition drive_row :: "il_slotmask \<Rightarrow> il_slotmask \<Rightarrow> u8 \<Rightarrow> hal_claim \<Rightarrow> gpio_call list" where
  "drive_row veto managed pid c =
     (if c_slot_mask c = 0 \<or> c_mode c \<noteq> HAL_PIN_MODE_GPIO_OUT \<or> c_slot_mask c AND managed = 0 then []
      else apply_calls c pid (if c_slot_mask c AND veto \<noteq> 0 then c_err_value c else c_ok_value c))"

definition hal_pin_drive_outputs :: "il_slotmask \<Rightarrow> il_slotmask \<Rightarrow> hal \<Rightarrow> hal" where
  "hal_pin_drive_outputs veto managed h0 =
     (let h = ensure_initialised h0
      in h\<lparr>h_calls := h_calls h @
             concat (map (\<lambda>i. drive_row veto managed (word_of_nat i) (g_claims h ! i)) [0..<length (g_claims h)])\<rparr>)"

section \<open>Slot masks\<close>

lemma bit_slot_bit [simp]: "bit (slot_bit s) n \<longleftrightarrow> n = unat s \<and> n < 16"
  by (auto simp: slot_bit_def bit_simps)

lemma slot_bit_nz: "unat s < 16 \<Longrightarrow> slot_bit s \<noteq> 0"
proof
  assume "unat s < 16" "slot_bit s = 0"
  then show False using bit_slot_bit [of s "unat s"] by (simp del: bit_slot_bit)
qed

lemma and_slot_bit:
  assumes "unat s < 16"
  shows "m AND slot_bit s = 0 \<longleftrightarrow> \<not> bit m (unat s)"
proof
  assume "m AND slot_bit s = 0"
  then have "\<not> bit (m AND slot_bit s) (unat s)" by simp
  then show "\<not> bit m (unat s)" using assms by (simp add: bit_and_iff)
next
  assume "\<not> bit m (unat s)"
  then show "m AND slot_bit s = 0" by (intro bit_word_eqI) (auto simp: bit_and_iff)
qed

lemma or_slot_nz: "unat s < 16 \<Longrightarrow> m OR slot_bit s \<noteq> 0"
proof
  assume s: "unat s < 16" and z: "m OR slot_bit s = 0"
  from s have "bit (m OR slot_bit s) (unat s)" by (simp add: bit_or_iff)
  then show False unfolding z by simp
qed

lemma or_slot_and_nz: "unat s < 16 \<Longrightarrow> (m OR slot_bit s) AND slot_bit s \<noteq> 0"
  using slot_bit_nz by simp

lemma or_and_not_slot: "(m OR sb) AND NOT sb = m AND NOT (sb :: u16)"
  by (rule bit_word_eqI) (auto simp: bit_simps)

lemma and_not_absorb: "m AND sb = 0 \<Longrightarrow> m AND NOT sb = (m :: u16)"
  by (metis (no_types, lifting) and.right_neutral bit.conj_disj_distrib bit.disj_cancel_right or.right_neutral or.commute)

lemma slot_and_not_self: "sb AND NOT sb = (0 :: u16)"
  by simp

text \<open>A mask with one bit.\<close>

definition single_bit :: "u16 \<Rightarrow> bool" where "single_bit m \<longleftrightarrow> (\<exists>k<16. m = push_bit k 1)"

lemma single_bit_slot: "unat s < 16 \<Longrightarrow> single_bit (slot_bit s)"
  by (auto simp: single_bit_def slot_bit_def)

lemma single_bit_popcount:
  assumes "single_bit m"
  shows "popcount_loop m b = b + 1"
proof -
  obtain k where k: "k < 16" "m = push_bit k 1" using assms by (auto simp: single_bit_def)
  have "list_all (\<lambda>k. push_bit k 1 AND (push_bit k 1 - 1) = (0 :: u16)) [0..<16]" by code_simp
  then have z: "m AND (m - 1) = 0" using k by (auto simp: list_all_iff)
  have "bit m k" using k by (simp add: bit_simps)
  then have "m \<noteq> 0" by auto
  then show ?thesis using z by (simp add: popcount_loop.simps [of m] popcount_loop.simps [of 0])
qed

lemma single_bit_owner:
  assumes "single_bit m" "m AND slot_bit s \<noteq> 0" "unat s < 16"
  shows "m = slot_bit s"
proof -
  obtain k where k: "k < 16" "m = push_bit k 1" using assms by (auto simp: single_bit_def)
  have "bit m (unat s)" using assms(2,3) by (simp add: and_slot_bit)
  then have "k = unat s" using k by (simp add: bit_simps)
  then show ?thesis using k by (simp add: slot_bit_def)
qed

section \<open>The ownership invariant\<close>

text \<open>What the HAL relies on: a pin with an ADC channel is never offered for GPIO modes, and the
  frozen role of a pin gives it one direction.\<close>

definition plat_ok :: "plat \<Rightarrow> bool" where
  "plat_ok pl \<longleftrightarrow> (\<forall>g m. p_adc_channel pl g \<noteq> 0xFF \<longrightarrow>
     is_input_mode m \<or> m = HAL_PIN_MODE_GPIO_OUT \<longrightarrow> \<not> p_pin_cap pl g m) \<and>
     (\<forall>g m. is_input_mode m \<longrightarrow> \<not> (p_pin_cap pl g m \<and> p_pin_cap pl g HAL_PIN_MODE_GPIO_OUT))"

definition row_ok :: "plat \<Rightarrow> u8 \<Rightarrow> hal_claim \<Rightarrow> bool" where
  "row_ok pl pid c \<longleftrightarrow>
     (if c_slot_mask c = 0 then c = unclaimed
      else if is_input_mode (c_mode c)
      then p_pin_cap pl pid (c_mode c) \<and> single_bit (c_slot_mask c) \<and> c_ok_value c = 0 \<and>
           c_err_value c = 0 \<and> c_open_drain c = 0 \<and> c_adc_channel c = 0xFF
      else if c_mode c = HAL_PIN_MODE_GPIO_OUT
      then p_pin_cap pl pid HAL_PIN_MODE_GPIO_OUT \<and> c_ok_value c \<le> 1 \<and> c_err_value c \<le> 1 \<and>
           c_ok_value c \<noteq> c_err_value c \<and> c_open_drain c \<le> 2 \<and> c_adc_channel c = 0xFF
      else c_mode c = HAL_PIN_MODE_ADC_SCAN \<and> c_adc_channel c = p_adc_channel pl pid \<and>
           c_adc_channel c \<noteq> 0xFF \<and> c_ok_value c = 0 \<and> c_err_value c = 0 \<and> c_open_drain c = 0)"

definition hal_inv :: "plat \<Rightarrow> hal \<Rightarrow> bool" where [inv_defs]:
  "hal_inv pl h \<longleftrightarrow> length (g_claims h) = HAL_PIN_TABLE_SIZE \<and>
     (g_claims_initialised h \<longrightarrow> (\<forall>i<HAL_PIN_TABLE_SIZE. row_ok pl (word_of_nat i) (g_claims h ! i)))"

lemma row_ok_unclaimed [simp]: "row_ok pl pid unclaimed"
  by (simp add: row_ok_def unclaimed_def)

lemma input_mode_simps [simp]:
  "is_input_mode HAL_PIN_MODE_GPIO_IN" "is_input_mode HAL_PIN_MODE_GPIO_IN_PU"
  "is_input_mode HAL_PIN_MODE_GPIO_IN_PD" "\<not> is_input_mode HAL_PIN_MODE_GPIO_OUT"
  "\<not> is_input_mode HAL_PIN_MODE_ADC_SCAN" "\<not> is_input_mode HAL_PIN_MODE_UNCLAIMED"
  by (simp_all add: is_input_mode_def)

lemma hal_inv_init:
  "hal_inv pl h \<Longrightarrow> hal_inv pl (ensure_initialised h) \<and> g_claims_initialised (ensure_initialised h)"
  by (simp add: hal_inv_def ensure_initialised_def)

lemma hal_inv_rows:
  assumes "hal_inv pl h" "unat pid < HAL_PIN_TABLE_SIZE"
  shows "row_ok pl pid (claim_at (ensure_initialised h) pid)"
  using hal_inv_init [OF assms(1)] assms(2) by (auto simp: hal_inv_def claim_at_def)

lemma hal_inv_set:
  assumes "hal_inv pl h" "unat pid < HAL_PIN_TABLE_SIZE" "row_ok pl pid c"
  shows "hal_inv pl (set_claim h pid c)"
proof -
  have "row_ok pl (word_of_nat i) ((g_claims h)[unat pid := c] ! i)"
    if "i < HAL_PIN_TABLE_SIZE" "g_claims_initialised h" for i
    using that assms by (cases "i = unat pid") (auto simp: hal_inv_def)
  then show ?thesis using assms(1) by (simp add: hal_inv_def set_claim_def)
qed

lemma hal_inv_calls [simp]: "hal_inv pl (h\<lparr>h_calls := cs\<rparr>) = hal_inv pl h"
  by (simp add: hal_inv_def)

lemma hal_inv_apply [simp]: "hal_inv pl (hal_pin_apply_output p v h) = hal_inv pl h"
  by (simp add: hal_pin_apply_output_def)

section \<open>Claiming and releasing\<close>

text \<open>What remains of a row, and of the table, when a slot is released.\<close>

definition strip :: "il_slotmask \<Rightarrow> hal_claim \<Rightarrow> hal_claim" where
  "strip sb c = fst (release_row sb 0 c)"

definition strip_table :: "u8 \<Rightarrow> hal \<Rightarrow> hal_claim list" where
  "strip_table slot h = map (strip (slot_bit slot)) (g_claims (ensure_initialised h))"

lemma release_row_fst: "fst (release_row sb pid c) = strip sb c"
  by (simp add: strip_def release_row_def Let_def)

lemma release_slot_claims: "g_claims (hal_pin_release_slot slot h) = strip_table slot h"
  by (rule nth_equalityI)
     (simp_all add: hal_pin_release_slot_def strip_table_def Let_def release_row_fst)

lemma strip_id: "c_slot_mask c AND sb = 0 \<Longrightarrow> strip sb c = c"
  by (simp add: strip_def release_row_def)

lemma strip_all: "c_slot_mask c AND sb \<noteq> 0 \<Longrightarrow> c_slot_mask c AND NOT sb = 0 \<Longrightarrow> strip sb c = unclaimed"
  by (simp add: strip_def release_row_def unclaimed_def)

lemma strip_some:
  "c_slot_mask c AND sb \<noteq> 0 \<Longrightarrow> c_slot_mask c AND NOT sb \<noteq> 0 \<Longrightarrow>
     strip sb c = c\<lparr>c_slot_mask := c_slot_mask c AND NOT sb\<rparr>"
  by (simp add: strip_def release_row_def Let_def)

lemma strip_mask: "c_slot_mask (strip sb c) = c_slot_mask c AND NOT sb"
  by (simp add: strip_def release_row_def Let_def and_not_absorb)

lemma single_bit_cases:
  assumes "single_bit m" "unat s < 16"
  shows "m = slot_bit s \<or> m AND slot_bit s = 0"
  using single_bit_owner [OF assms(1) _ assms(2)] by blast

lemma row_ok_strip:
  assumes "row_ok pl pid c" "unat s < 16"
  shows "row_ok pl pid (strip (slot_bit s) c)"
proof (cases "c_slot_mask c AND slot_bit s = 0")
  case True
  then show ?thesis using assms(1) by (simp add: strip_id)
next
  case False
  show ?thesis
  proof (cases "c_slot_mask c AND NOT (slot_bit s) = 0")
    case True
    then show ?thesis using False by (simp add: strip_all)
  next
    case rest: False
    have "c_slot_mask c \<noteq> 0" using False by auto
    moreover have "\<not> is_input_mode (c_mode c)"
      using assms rest single_bit_cases [of "c_slot_mask c" s] False calculation
      by (auto simp: row_ok_def)
    ultimately show ?thesis using assms(1) rest False
      by (auto simp: strip_some row_ok_def split: if_splits)
  qed
qed

lemma hal_inv_release:
  assumes "hal_inv pl h" "unat s < 16"
  shows "hal_inv pl (hal_pin_release_slot s h)"
proof -
  note i = hal_inv_init [OF assms(1)]
  have "row_ok pl (word_of_nat j) (strip_table s h ! j)" if "j < HAL_PIN_TABLE_SIZE" for j
    using i that row_ok_strip [OF _ assms(2)] by (auto simp: hal_inv_def strip_table_def)
  moreover have "length (strip_table s h) = HAL_PIN_TABLE_SIZE"
    using i by (simp add: hal_inv_def strip_table_def)
  ultimately show ?thesis by (simp add: hal_inv_def release_slot_claims)
qed

text \<open>A granted claim changes only what belongs to the claiming slot: releasing the slot afterwards
  gives the same table as releasing it before.\<close>

lemma strip_set:
  assumes "hal_inv pl h" "g_claims_initialised h" "unat pid < HAL_PIN_TABLE_SIZE"
    "strip (slot_bit s) c = strip (slot_bit s) (claim_at h pid)"
  shows "strip_table s (set_claim h pid c) = strip_table s h"
  using assms
  by (auto simp: strip_table_def set_claim_def ensure_initialised_def claim_at_def hal_inv_def
      map_update list_update_same_conv)

lemma strip_table_init: "strip_table s (ensure_initialised h) = strip_table s h"
  by (simp add: strip_table_def ensure_initialised_def)

lemma strip_table_calls [simp]: "strip_table s (h\<lparr>h_calls := cs\<rparr>) = strip_table s h"
  by (simp add: strip_table_def ensure_initialised_def)

lemma single_bit_nz: "single_bit m \<Longrightarrow> m \<noteq> 0"
  using single_bit_popcount [of m 0] by (auto simp: popcount_loop.simps [of 0])

lemma hal_table_cong:
  assumes "g_claims h' = g_claims h" "g_claims_initialised h' = g_claims_initialised h"
  shows "hal_inv pl h' = hal_inv pl h" "strip_table s h' = strip_table s h"
  using assms by (simp_all add: hal_inv_def strip_table_def ensure_initialised_def)

text \<open>Adding a sharer to a row, or taking a free one, leaves what the others have.\<close>

lemma share_strip:
  assumes "c_slot_mask c' = c_slot_mask c OR slot_bit s" "unat s < 16"
    "c = unclaimed \<or> c_slot_mask c \<noteq> 0 \<and> c' = c\<lparr>c_slot_mask := c_slot_mask c'\<rparr>"
  shows "strip (slot_bit s) c' = strip (slot_bit s) c"
proof -
  have m: "c_slot_mask c' AND NOT (slot_bit s) = c_slot_mask c AND NOT (slot_bit s)"
    by (simp add: assms(1) or_and_not_slot)
  have own: "c_slot_mask c' AND slot_bit s \<noteq> 0"
    using or_slot_and_nz [OF assms(2)] by (simp add: assms(1))
  show ?thesis
  proof (cases "c_slot_mask c AND slot_bit s = 0")
    case True
    then have keep: "c_slot_mask c AND NOT (slot_bit s) = c_slot_mask c" by (rule and_not_absorb)
    show ?thesis
    proof (cases "c_slot_mask c = 0")
      case z: True
      then have "c = unclaimed" using assms(3) by auto
      then show ?thesis using own m z by (simp add: strip_all strip_id)
    next
      case nz: False
      then have c': "c' = c\<lparr>c_slot_mask := c_slot_mask c'\<rparr>" using assms(3) by (auto simp: unclaimed_def)
      have "strip (slot_bit s) c' = c'\<lparr>c_slot_mask := c_slot_mask c\<rparr>"
        using strip_some [OF own] m keep nz by simp
      also have "\<dots> = c" by (subst c') simp
      finally show ?thesis using True by (simp add: strip_id)
    qed
  next
    case False
    then have nz: "c_slot_mask c \<noteq> 0" by auto
    then have c': "c' = c\<lparr>c_slot_mask := c_slot_mask c'\<rparr>" using assms(3) by (auto simp: unclaimed_def)
    have "c_slot_mask c' = c_slot_mask c"
    proof (rule bit_word_eqI)
      fix n show "bit (c_slot_mask c') n = bit (c_slot_mask c) n"
        using False assms(2) by (auto simp: assms(1) bit_or_iff and_slot_bit)
    qed
    then show ?thesis using c' by simp
  qed
qed

locale hal_platform =
  fixes pl :: plat
  assumes platform: "plat_ok pl"
begin

lemma claim_input_ok:
  assumes inv: "hal_inv pl h" and s: "unat s < 16" and "hal_pin_claim pl pid s m h = (HAL_PIN_CLAIM_OK, h')"
  shows "hal_inv pl h'" "strip_table s h' = strip_table s h"
proof -
  let ?h = "ensure_initialised h" and ?c = "claim_at (ensure_initialised h) pid"
  have c: "unat pid < HAL_PIN_TABLE_SIZE" "is_input_mode m" "p_pin_cap pl pid m"
    "c_slot_mask ?c = 0 \<or> c_slot_mask ?c = slot_bit s"
    and h': "h' = set_claim ?h pid (?c\<lparr>c_slot_mask := slot_bit s, c_mode := m, c_ok_value := 0, c_err_value := 0\<rparr>)"
    using assms(3) by (auto simp: hal_pin_claim_def Let_def split: if_splits)
  note row = hal_inv_rows [OF inv c(1)] and i = hal_inv_init [OF inv]
  have chan: "p_adc_channel pl pid = 0xFF" using platform c(2,3) unfolding plat_ok_def by blast
  have sbit: "single_bit (slot_bit s)" "slot_bit s \<noteq> 0" using s by (simp_all add: single_bit_slot slot_bit_nz)
  have nout: "\<not> p_pin_cap pl pid HAL_PIN_MODE_GPIO_OUT" using platform c(2,3) unfolding plat_ok_def by blast
  have adc: "c_adc_channel ?c = 0xFF \<and> c_open_drain ?c = 0"
    using row chan nout by (auto simp: row_ok_def unclaimed_def split: if_splits)
  then show "hal_inv pl h'"
    unfolding h' by (intro hal_inv_set i [THEN conjunct1] c(1)) (use c sbit in \<open>simp add: row_ok_def\<close>)
  have "strip (slot_bit s) ?c = unclaimed"
    using c(4) sbit(2) row by (auto simp: strip_all strip_id row_ok_def)
  then show "strip_table s h' = strip_table s h"
    unfolding h' using strip_set [OF i [THEN conjunct1] i [THEN conjunct2] c(1)] sbit(2)
    by (simp add: strip_all strip_table_init)
qed

lemma claim_adc_ok:
  assumes inv: "hal_inv pl h" and s: "unat s < 16" and "hal_pin_claim_adc pl pid s h = (HAL_PIN_CLAIM_OK, h')"
  shows "hal_inv pl h'" "strip_table s h' = strip_table s h"
proof -
  let ?h = "ensure_initialised h" and ?c = "claim_at (ensure_initialised h) pid"
  have c: "unat pid < HAL_PIN_TABLE_SIZE" "p_adc_channel pl pid \<noteq> 0xFF"
    and h': "h' = set_claim ?h pid (?c\<lparr>c_slot_mask := c_slot_mask ?c OR slot_bit s,
        c_mode := HAL_PIN_MODE_ADC_SCAN, c_ok_value := 0, c_err_value := 0,
        c_adc_channel := p_adc_channel pl pid\<rparr>)"
    using assms(3) by (auto simp: hal_pin_claim_adc_def Let_def split: if_splits)
  note row = hal_inv_rows [OF inv c(1)] and i = hal_inv_init [OF inv]
  have nocap: "\<not> p_pin_cap pl pid m" if "is_input_mode m \<or> m = HAL_PIN_MODE_GPIO_OUT" for m
    using platform c(2) that unfolding plat_ok_def by blast
  have old: "c_slot_mask ?c = 0 \<and> ?c = unclaimed \<or>
      c_slot_mask ?c \<noteq> 0 \<and> c_mode ?c = HAL_PIN_MODE_ADC_SCAN \<and> c_adc_channel ?c = p_adc_channel pl pid \<and>
      c_ok_value ?c = 0 \<and> c_err_value ?c = 0 \<and> c_open_drain ?c = 0"
    using row nocap by (auto simp: row_ok_def split: if_splits)
  have nz: "c_slot_mask ?c OR slot_bit s \<noteq> 0" using or_slot_nz [OF s] .
  show "hal_inv pl h'"
    unfolding h'
    by (intro hal_inv_set i [THEN conjunct1] c(1)) (use c old nz in \<open>auto simp: row_ok_def unclaimed_def\<close>)
  have "strip (slot_bit s) (?c\<lparr>c_slot_mask := c_slot_mask ?c OR slot_bit s,
        c_mode := HAL_PIN_MODE_ADC_SCAN, c_ok_value := 0, c_err_value := 0,
        c_adc_channel := p_adc_channel pl pid\<rparr>) = strip (slot_bit s) ?c"
    by (rule share_strip) (use old s in \<open>auto simp: unclaimed_def\<close>)
  then show "strip_table s h' = strip_table s h"
    unfolding h' using strip_set [OF i [THEN conjunct1] i [THEN conjunct2] c(1)]
    by (simp add: strip_table_init)
qed

lemma claim_output_ok:
  assumes inv: "hal_inv pl h" and s: "unat s < 16"
    and "hal_pin_claim_output pl pid s ok err od h = (HAL_PIN_CLAIM_OK, h')"
  shows "hal_inv pl h'" "strip_table s h' = strip_table s h"
proof -
  let ?h = "ensure_initialised h" and ?c = "claim_at (ensure_initialised h) pid"
  let ?c1 = "?c\<lparr>c_open_drain := od, c_ok_value := ok, c_err_value := err\<rparr>"
  have c: "unat pid < HAL_PIN_TABLE_SIZE" "ok \<le> 1" "err \<le> 1" "od \<le> 2" "ok \<noteq> err"
    "p_pin_cap pl pid HAL_PIN_MODE_GPIO_OUT"
    using assms(3) by (auto simp: hal_pin_claim_output_def Let_def split: if_splits)
  note row = hal_inv_rows [OF inv c(1)] and i = hal_inv_init [OF inv]
  have "hal_inv pl h' \<and> strip_table s h' = strip_table s h"
  proof (cases "c_slot_mask ?c = 0")
    case True
    then have un: "?c = unclaimed" using row by (simp add: row_ok_def)
    let ?c2 = "?c1\<lparr>c_slot_mask := slot_bit s, c_mode := HAL_PIN_MODE_GPIO_OUT\<rparr>"
    have h': "g_claims h' = g_claims (set_claim ?h pid ?c2)"
        "g_claims_initialised h' = g_claims_initialised (set_claim ?h pid ?c2)"
      using assms(3) True by (auto simp: hal_pin_claim_output_def Let_def set_claim_def
          hal_pin_apply_output_def split: if_splits)
    have "row_ok pl pid ?c2" using c un slot_bit_nz [OF s] by (simp add: row_ok_def unclaimed_def)
    moreover have "strip (slot_bit s) ?c2 = strip (slot_bit s) ?c"
      by (rule share_strip) (use un s in \<open>simp_all add: unclaimed_def\<close>)
    ultimately show ?thesis
      unfolding hal_table_cong [OF h']
      using strip_set [OF i [THEN conjunct1] i [THEN conjunct2] c(1)] hal_inv_set i c(1)
      by (simp add: strip_table_init)
  next
    case False
    let ?c2 = "?c\<lparr>c_slot_mask := c_slot_mask ?c OR slot_bit s\<rparr>"
    have h': "h' = set_claim ?h pid ?c2" "c_mode ?c = HAL_PIN_MODE_GPIO_OUT"
      using assms(3) False by (auto simp: hal_pin_claim_output_def Let_def split: if_splits)
    have "row_ok pl pid ?c2"
      using row h'(2) False or_slot_nz [OF s, of "c_slot_mask ?c"] by (simp add: row_ok_def)
    moreover have "strip (slot_bit s) ?c2 = strip (slot_bit s) ?c"
      by (rule share_strip) (use False s in simp_all)
    ultimately show ?thesis
      unfolding h' using strip_set [OF i [THEN conjunct1] i [THEN conjunct2] c(1)] hal_inv_set i c(1)
      by (simp add: strip_table_init)
  qed
  then show "hal_inv pl h'" "strip_table s h' = strip_table s h" by auto
qed

text \<open>A refused claim changes nothing but the initialisation flag.\<close>

lemma claim_refused:
  assumes "st \<noteq> HAL_PIN_CLAIM_OK"
  shows "hal_pin_claim pl pid s m h = (st, h') \<Longrightarrow> h' = ensure_initialised h"
    and "hal_pin_claim_adc pl pid s h = (st, h') \<Longrightarrow> h' = ensure_initialised h"
    and "hal_pin_claim_output pl pid s ok err od h = (st, h') \<Longrightarrow> h' = ensure_initialised h"
  using assms
  by (auto simp: hal_pin_claim_def hal_pin_claim_adc_def hal_pin_claim_output_def Let_def split: if_splits)

lemma claim_inv:
  assumes "hal_inv pl h" "unat s < 16"
  shows "hal_pin_claim pl pid s m h = (st, h') \<Longrightarrow> hal_inv pl h' \<and> strip_table s h' = strip_table s h"
    and "hal_pin_claim_adc pl pid s h = (st, h') \<Longrightarrow> hal_inv pl h' \<and> strip_table s h' = strip_table s h"
    and "hal_pin_claim_output pl pid s ok err od h = (st, h') \<Longrightarrow>
      hal_inv pl h' \<and> strip_table s h' = strip_table s h"
  using claim_input_ok [OF assms] claim_adc_ok [OF assms] claim_output_ok [OF assms] claim_refused [of st]
    hal_inv_init [OF assms(1)] strip_table_init
  by (cases "st = HAL_PIN_CLAIM_OK"; metis)+

lemma consistent:
  assumes "hal_inv pl h"
  shows "hal_pin_check_consistency h"
proof -
  have "row_consistent c" if mem: "c \<in> set (g_claims (ensure_initialised h))" for c
  proof -
    obtain i where i: "i < HAL_PIN_TABLE_SIZE" "c = g_claims (ensure_initialised h) ! i"
      using mem hal_inv_init [OF assms] by (auto simp: hal_inv_def in_set_conv_nth)
    then have "row_ok pl (word_of_nat i) c" using hal_inv_init [OF assms] by (simp add: hal_inv_def)
    then show ?thesis
      by (auto simp: row_ok_def row_consistent_def single_bit_popcount split: if_splits)
  qed
  then show ?thesis by (simp add: hal_pin_check_consistency_def list_all_iff)
qed

end

section \<open>The firmware's platform seam\<close>

text \<open>\<^verbatim>\<open>src/app/bus_controller/main.c\<close>: the pins the interlock may bind, under the frozen \<open>hwio\<close> roles
  (\<open>roles\<close> is \<open>g_hwio_role\<close>), and the shared ADC area.\<close>

definition INTERLOCK_VETO_PIN :: u8 where "INTERLOCK_VETO_PIN = 0"
definition INTERLOCK_IN_PIN :: u8 where "INTERLOCK_IN_PIN = 1"
definition HIL_GPIO_BASE :: u8 where "HIL_GPIO_BASE = 2"
definition HIL_GPIO_COUNT :: u8 where "HIL_GPIO_COUNT = 8"
definition ADC0_GPIO :: u8 where "ADC0_GPIO = 26"
definition ADC_NCH :: u8 where "ADC_NCH = 3"
definition HWIO_ROLE_INPUT :: u8 where "HWIO_ROLE_INPUT = 1"
definition HWIO_ROLE_INPUT_PULLUP :: u8 where "HWIO_ROLE_INPUT_PULLUP = 2"
definition HWIO_ROLE_INPUT_PULLDOWN :: u8 where "HWIO_ROLE_INPUT_PULLDOWN = 3"
definition HWIO_ROLE_OUTPUT :: u8 where "HWIO_ROLE_OUTPUT = 4"

lemmas board_defs = INTERLOCK_VETO_PIN_def INTERLOCK_IN_PIN_def HIL_GPIO_BASE_def HIL_GPIO_COUNT_def
  ADC0_GPIO_def ADC_NCH_def HWIO_ROLE_INPUT_def HWIO_ROLE_INPUT_PULLUP_def HWIO_ROLE_INPUT_PULLDOWN_def
  HWIO_ROLE_OUTPUT_def

definition il_plat_pin_reserved :: "u8 \<Rightarrow> bool" where
  "il_plat_pin_reserved gpio \<longleftrightarrow>
     \<not> (gpio = INTERLOCK_VETO_PIN \<or> gpio = INTERLOCK_IN_PIN \<or>
        gpio \<ge> HIL_GPIO_BASE \<and> gpio < HIL_GPIO_BASE + HIL_GPIO_COUNT \<or>
        gpio \<ge> ADC0_GPIO \<and> gpio < ADC0_GPIO + ADC_NCH)"

definition il_plat_pin_cap :: "u8 list \<Rightarrow> u8 \<Rightarrow> hal_pin_mode \<Rightarrow> bool" where
  "il_plat_pin_cap roles gpio mode =
     (if mode = HAL_PIN_MODE_GPIO_OUT then
        (if gpio = INTERLOCK_VETO_PIN then True
         else if gpio \<ge> HIL_GPIO_BASE \<and> gpio < HIL_GPIO_BASE + HIL_GPIO_COUNT
         then roles ! unat (gpio - HIL_GPIO_BASE) = HWIO_ROLE_OUTPUT
         else False)
      else if gpio = INTERLOCK_IN_PIN then True
      else if gpio \<ge> HIL_GPIO_BASE \<and> gpio < HIL_GPIO_BASE + HIL_GPIO_COUNT
      then (let r = roles ! unat (gpio - HIL_GPIO_BASE) in
            r = HWIO_ROLE_INPUT \<or> r = HWIO_ROLE_INPUT_PULLUP \<or> r = HWIO_ROLE_INPUT_PULLDOWN)
      else False)"

definition il_plat_adc_channel :: "u8 \<Rightarrow> u8" where
  "il_plat_adc_channel gpio =
     (if gpio \<ge> ADC0_GPIO \<and> gpio < ADC0_GPIO + ADC_NCH then gpio - ADC0_GPIO else 0xFF)"

definition il_plat_adc_latest :: "u16 list \<Rightarrow> u8 \<Rightarrow> u16" where
  "il_plat_adc_latest latest ch = (if ch < ADC_NCH then latest ! unat ch else 0)"

record adc_wstat =
  w_min :: u16
  w_max :: u16
  w_avg :: u16
  w_rms :: u16

definition il_plat_adc_stat :: "u16 list \<Rightarrow> adc_wstat list \<Rightarrow> u8 \<Rightarrow> u8 \<Rightarrow> u16" where
  "il_plat_adc_stat latest win ch stat =
     (if ch \<ge> ADC_NCH then 0
      else if stat = 0 then latest ! unat ch
      else (let w = win ! unat ch in
            if stat = 1 then w_min w else if stat = 2 then w_max w
            else if stat = 3 then w_avg w else if stat = 4 then w_rms w else 0))"

definition bc_plat :: "u8 list \<Rightarrow> u16 list \<Rightarrow> adc_wstat list \<Rightarrow> (u8 \<Rightarrow> bool) \<Rightarrow> plat" where
  "bc_plat roles latest win get =
     \<lparr>p_pin_reserved = il_plat_pin_reserved, p_pin_cap = il_plat_pin_cap roles,
      p_adc_channel = il_plat_adc_channel, p_adc_latest = il_plat_adc_latest latest,
      p_adc_stat = il_plat_adc_stat latest win, p_gpio_get = get\<rparr>"

lemma bc_plat_ok: "plat_ok (bc_plat roles latest win get)"
proof -
  have "gpio = INTERLOCK_VETO_PIN \<or> gpio = INTERLOCK_IN_PIN \<or>
      gpio \<ge> HIL_GPIO_BASE \<and> gpio < HIL_GPIO_BASE + HIL_GPIO_COUNT \<Longrightarrow> il_plat_adc_channel gpio = 0xFF" for gpio
    by (auto simp: il_plat_adc_channel_def board_defs word_le_nat_alt word_less_nat_alt word_unat_eq_iff)
  moreover have "\<not> (2 :: u8) \<le> 1" by (simp add: word_le_nat_alt)
  ultimately show ?thesis
    by (auto simp: plat_ok_def bc_plat_def il_plat_pin_cap_def Let_def board_defs split: if_splits)
qed

interpretation bc: hal_platform "bc_plat roles latest win get" for roles latest win get
  by unfold_locales (rule bc_plat_ok)

section \<open>Properties of the pin HAL\<close>

datatype hal_cmd =
    Cmd_claim u8 u8 hal_pin_mode
  | Cmd_claim_adc u8 u8
  | Cmd_claim_output u8 u8 u8 u8 u8
  | Cmd_release u8
  | Cmd_drive il_slotmask il_slotmask

fun cmd_slot_ok :: "hal_cmd \<Rightarrow> bool" where
  "cmd_slot_ok (Cmd_claim pid s m) = (unat s < 16)"
| "cmd_slot_ok (Cmd_claim_adc pid s) = (unat s < 16)"
| "cmd_slot_ok (Cmd_claim_output pid s ok err od) = (unat s < 16)"
| "cmd_slot_ok (Cmd_release s) = (unat s < 16)"
| "cmd_slot_ok (Cmd_drive v m) = True"

fun hal_exec :: "plat \<Rightarrow> hal \<Rightarrow> hal_cmd \<Rightarrow> hal" where
  "hal_exec pl h (Cmd_claim pid s m) = snd (hal_pin_claim pl pid s m h)"
| "hal_exec pl h (Cmd_claim_adc pid s) = snd (hal_pin_claim_adc pl pid s h)"
| "hal_exec pl h (Cmd_claim_output pid s ok err od) = snd (hal_pin_claim_output pl pid s ok err od h)"
| "hal_exec pl h (Cmd_release s) = hal_pin_release_slot s h"
| "hal_exec pl h (Cmd_drive v m) = hal_pin_drive_outputs v m h"

lemma hal_inv_drive: "hal_inv pl h \<Longrightarrow> hal_inv pl (hal_pin_drive_outputs v m h)"
  using hal_inv_init [of pl h] by (simp add: hal_pin_drive_outputs_def Let_def)

context hal_platform
begin

lemma exec_inv: "hal_inv pl h \<Longrightarrow> cmd_slot_ok c \<Longrightarrow> hal_inv pl (hal_exec pl h c)"
  by (cases c; simp) (metis claim_inv prod.collapse hal_inv_release hal_inv_drive)+

lemma execs_inv: "hal_inv pl h \<Longrightarrow> list_all cmd_slot_ok cs \<Longrightarrow> hal_inv pl (foldl (hal_exec pl) h cs)"
  by (induction cs arbitrary: h) (auto intro: exec_inv)

end

lemma input_single_owner:
  assumes "hal_inv pl h" "unat pid < HAL_PIN_TABLE_SIZE" "is_input_mode (hal_pin_get_mode pid h)"
  shows "single_bit (hal_pin_get_owners pid h)"
  using hal_inv_rows [OF assms(1,2)] assms(2,3)
  by (auto simp: hal_pin_get_mode_def hal_pin_get_owners_def Let_def row_ok_def unclaimed_def split: if_splits)

definition hal0 :: hal where
  "hal0 = \<lparr>g_claims = replicate HAL_PIN_TABLE_SIZE unclaimed, g_claims_initialised = False, h_calls = []\<rparr>"

lemma hal_inv_hal0: "hal_inv pl hal0"
  by (simp add: hal0_def hal_inv_def)



fun call_pin :: "gpio_call \<Rightarrow> u8" where
  "call_pin (Gpio_init p) = p"
| "call_pin (Gpio_put p v) = p"
| "call_pin (Gpio_set_dir p d) = p"
| "call_pin (Gpio_pull_up p) = p"
| "call_pin (Gpio_disable_pulls p) = p"

lemma call_pin_apply: "c \<in> set (apply_calls r pid v) \<Longrightarrow> call_pin c = pid"
  by (auto simp: apply_calls_def split: if_splits)

lemma call_pin_drive: "c \<in> set (drive_row v m pid r) \<Longrightarrow> call_pin c = pid"
  by (auto simp: drive_row_def dest: call_pin_apply split: if_splits)

lemma filter_pin_concat:
  assumes "\<And>i c. i < n \<Longrightarrow> c \<in> set (f i) \<Longrightarrow> call_pin c = word_of_nat i" "j < n" "n \<le> 256"
  shows "filter (\<lambda>c. call_pin c = word_of_nat j) (concat (map f [0..<n])) = f j"
  using assms
proof (induction n)
  case 0
  then show ?case by simp
next
  case (Suc n)
  let ?P = "\<lambda>c. call_pin c = (word_of_nat j :: u8)"
  have inj: "(word_of_nat n :: u8) = word_of_nat j \<longleftrightarrow> n = j"
    using Suc.prems(2,3) by (auto simp: word_unat_eq_iff unat_of_nat)
  show ?case
  proof (cases "n = j")
    case True
    have "filter ?P (concat (map f [0..<n])) = []"
    proof (rule filter_False, rule ballI)
      fix c assume "c \<in> set (concat (map f [0..<n]))"
      then obtain i where i: "i < n" "c \<in> set (f i)" by auto
      then have "call_pin c = word_of_nat i" using Suc.prems(1) by auto
      then show "\<not> ?P c" using i(1) True Suc.prems(3) by (auto simp: word_unat_eq_iff unat_of_nat)
    qed
    moreover have "filter ?P (f n) = f n"
      using Suc.prems(1) [of n] True by (simp add: filter_id_conv)
    ultimately show ?thesis using True by simp
  next
    case False
    then have "filter ?P (f n) = []"
      using Suc.prems(1) [of n] inj by (auto simp: filter_empty_conv)
    moreover have "filter ?P (concat (map f [0..<n])) = f j"
      using Suc.IH Suc.prems False by auto
    ultimately show ?thesis by simp
  qed
qed

text \<open>The SDK calls one drive makes on a pin.\<close>

definition drive_calls :: "il_slotmask \<Rightarrow> il_slotmask \<Rightarrow> hal \<Rightarrow> gpio_call list" where
  "drive_calls v m h = drop (length (h_calls h)) (h_calls (hal_pin_drive_outputs v m h))"

lemma drive_calls_pin:
  assumes "hal_inv pl h" "unat pid < HAL_PIN_TABLE_SIZE"
  shows "filter (\<lambda>c. call_pin c = pid) (drive_calls v m h)
    = drive_row v m pid (claim_at (ensure_initialised h) pid)"
proof -
  let ?h = "ensure_initialised h"
  let ?f = "\<lambda>i. drive_row v m (word_of_nat i) (g_claims ?h ! i)"
  have len: "length (g_claims ?h) = HAL_PIN_TABLE_SIZE" and calls: "h_calls ?h = h_calls h"
    using assms(1) by (simp_all add: hal_inv_def ensure_initialised_def)
  have "drive_calls v m h = concat (map ?f [0..<HAL_PIN_TABLE_SIZE])"
    by (simp add: drive_calls_def hal_pin_drive_outputs_def Let_def len calls)
  moreover have "filter (\<lambda>c. call_pin c = word_of_nat (unat pid)) (concat (map ?f [0..<HAL_PIN_TABLE_SIZE]))
      = ?f (unat pid)"
    by (rule filter_pin_concat) (use assms(2) in \<open>auto simp: HAL_PIN_TABLE_SIZE_def dest: call_pin_drive\<close>)
  ultimately show ?thesis by (simp add: claim_at_def)
qed

text \<open>
  OR of vetoes.  One drive writes every managed output exactly once: the error level if any of
  the slots that own the pin vetoes, the OK level otherwise (on an open-drain pin: drive low or
  release); pins that are not claimed outputs of managed slots are not touched, and the table
  does not change.
\<close>

theorem hal_drive_or_of_vetoes:
  assumes "hal_inv pl h" and "unat pid < HAL_PIN_TABLE_SIZE"
    and "c = claim_at (ensure_initialised h) pid"
  shows "filter (\<lambda>k. call_pin k = pid) (drive_calls veto managed h) =
      (if c_mode c = HAL_PIN_MODE_GPIO_OUT \<and> (\<exists>s<16. bit (c_slot_mask c) s \<and> bit managed s)
       then apply_calls c pid (if \<exists>s<16. bit (c_slot_mask c) s \<and> bit veto s then c_err_value c else c_ok_value c)
       else []) \<and>
    g_claims (hal_pin_drive_outputs veto managed h) = g_claims (ensure_initialised h)"
proof -
  have bits: "(x :: u16) AND y = 0 \<longleftrightarrow> \<not> (\<exists>s<16. bit x s \<and> bit y s)" for x y
  proof
    assume z: "x AND y = 0"
    then have "\<not> bit (x AND y) s" for s by simp
    then show "\<not> (\<exists>s<16. bit x s \<and> bit y s)" by (auto simp: bit_and_iff)
  next
    assume "\<not> (\<exists>s<16. bit x s \<and> bit y s)"
    then show "x AND y = 0" by (intro bit_word_eqI) (auto simp: bit_and_iff)
  qed
  have "c_slot_mask c = 0 \<Longrightarrow> c_slot_mask c AND managed = 0" by simp
  then show ?thesis
    unfolding drive_calls_pin [OF assms(1,2)] assms(3) [symmetric]
    by (auto simp: drive_row_def bits hal_pin_drive_outputs_def Let_def)
qed

theorem hal_drive_or_of_vetoes_witness:
  "filter (\<lambda>k. call_pin k = 0) (drive_calls 4 0x3FF
      (snd (hal_pin_claim_output (bc_plat [] [] [] (\<lambda>_. True)) 0 2 1 0 0 hal0)))
    = [Gpio_put 0 False, Gpio_set_dir 0 True]"
proof -
  let ?pl = "bc_plat [] [] [] (\<lambda>_. True)"
  let ?h = "snd (hal_pin_claim_output ?pl 0 2 1 0 0 hal0)"
  have eq: "hal_pin_claim_output ?pl 0 2 1 0 0 hal0 = (HAL_PIN_CLAIM_OK, ?h)" by code_simp
  have inv: "hal_inv ?pl ?h" using bc.claim_output_ok(1) [OF hal_inv_hal0 _ eq] by simp
  have c: "c_mode (claim_at (ensure_initialised ?h) 0) = HAL_PIN_MODE_GPIO_OUT"
    "c_slot_mask (claim_at (ensure_initialised ?h) 0) = 4"
    "c_err_value (claim_at (ensure_initialised ?h) 0) = 0"
    "c_open_drain (claim_at (ensure_initialised ?h) 0) = 0" by code_simp+
  have b: "\<exists>s<16. bit (4 :: u16) s \<and> bit (0x3FF :: u16) s" "\<exists>s<16. bit (4 :: u16) s \<and> bit (4 :: u16) s"
    by (rule exI [of _ 2], simp)+
  show ?thesis
    using hal_drive_or_of_vetoes [OF inv _ refl, of 0 4 "0x3FF"] c b
    by (simp add: HAL_PIN_TABLE_SIZE_def apply_calls_def)
qed

end
