(* ===== verification/Boot_Cfg.thy ===== *)
theory Boot_Cfg
  imports Cbor Cfg_File Bus_Frame Il_Hal
begin

text \<open>
  The files a unit reads at boot: its identity \<^verbatim>\<open>idnt\<close> (\<^verbatim>\<open>src/node/boot_identity.c\<close>), the slave roster
  \<^verbatim>\<open>slvr\<close> (\<^verbatim>\<open>src/node/boot_roster.c\<close>), the pin roles \<^verbatim>\<open>hwio\<close> (\<^verbatim>\<open>src/node/boot_hwio.c\<close>) and the WiFi
  credentials \<^verbatim>\<open>neti\<close> (\<^verbatim>\<open>src/node/boot_netcfg.c\<close>), each one CBOR map in a row of the store.

  A reader takes the rows of the store and the address \<open>E\<close> of the end of its stack buffer and gives
  \<open>Ret\<close> the return code and \<open>*out\<close>, or \<open>UB\<close> when the CBOR reader leaves the buffer.  The contents of
  \<open>*out\<close> on an error return are those of the source for \<open>hwio\<close> (the caller uses them); the other callers
  do not read them, and there the model gives the zeroed struct.
\<close>

unbundle bit_operations_syntax

datatype 'a ret = Ret int 'a | UB

text \<open>The key comparison \<open>CBOR_KEY\<close> against a string literal.\<close>

definition key :: "string \<Rightarrow> u8 list" where
  "key s = map of_char s"

text \<open>Loading a file and running the reader of its contents on it.\<close>

definition with_file :: "cfg_entry list \<Rightarrow> string \<Rightarrow> 'a ret \<Rightarrow> (u8 list \<Rightarrow> 'a ret) \<Rightarrow> 'a ret" where
  "with_file region name missing k =
     (case cfg_load region (key name) CFG_FILE_MAX of Inl _ \<Rightarrow> missing | Inr buf \<Rightarrow> k buf)"

primrec finish :: "'a \<Rightarrow> ('s \<Rightarrow> 'a ret) \<Rightarrow> 's cres \<Rightarrow> 'a ret" where
  "finish dflt k (Got s r) = k s"
| "finish dflt k (Bad e) = Ret e dflt"
| "finish dflt k Undef = UB"

text \<open>A field read by \<open>cbor_uint\<close> or \<open>cbor_str\<close> and stored by \<open>upd\<close>.\<close>

definition field_with :: "(u8 list \<Rightarrow> 'v cres) \<Rightarrow> ('v \<Rightarrow> 's) \<Rightarrow> u8 list \<Rightarrow> 's cres" where
  "field_with rd upd r = cbind (rd r) (\<lambda>v. Got (upd v))"

lemma finish_cbind_Bad [simp]: "finish d k (err e (Bad x)) = Ret e d"
  by simp

lemma finish_Ret: "finish d k m = Ret c out \<longleftrightarrow> (\<exists>s r. m = Got s r \<and> k s = Ret c out) \<or> (m = Bad c \<and> out = d)"
  by (cases m) auto

lemma err_Got [simp]: "err e m = Got s r \<longleftrightarrow> m = Got s r"
  by (cases m) auto

lemma err_Bad: "err e m = Bad c \<longleftrightarrow> c = e \<and> (\<exists>x. m = Bad x)"
  by (cases m) auto

section \<open>Variants\<close>

definition VARIANT_BUS_CTRL_USB :: u8 where "VARIANT_BUS_CTRL_USB = 1"
definition VARIANT_BUS_CTRL_WIFI :: u8 where "VARIANT_BUS_CTRL_WIFI = 2"
definition VARIANT_SLAVE_RS485 :: u8 where "VARIANT_SLAVE_RS485 = 3"

definition variant_is_master :: "u8 \<Rightarrow> bool" where
  "variant_is_master v \<longleftrightarrow> v = VARIANT_BUS_CTRL_USB \<or> v = VARIANT_BUS_CTRL_WIFI"

definition variant_supported :: "u8 \<Rightarrow> bool" where
  "variant_supported v \<longleftrightarrow> v = VARIANT_BUS_CTRL_USB \<or> v = VARIANT_SLAVE_RS485"

lemmas variant_defs = VARIANT_BUS_CTRL_USB_def VARIANT_BUS_CTRL_WIFI_def VARIANT_SLAVE_RS485_def
  variant_is_master_def variant_supported_def

section \<open>Identity\<close>

definition IDENT_SCHEMA_VER :: u64 where "IDENT_SCHEMA_VER = 1"
definition IDENT_OK :: int where "IDENT_OK = 0"
definition IDENT_ERR_MISSING :: int where "IDENT_ERR_MISSING = -1"
definition IDENT_ERR_FORMAT :: int where "IDENT_ERR_FORMAT = -2"
definition IDENT_ERR_SCHEMA :: int where "IDENT_ERR_SCHEMA = -3"
definition IDENT_ERR_CHIP :: int where "IDENT_ERR_CHIP = -4"
definition IDENT_ERR_VARIANT :: int where "IDENT_ERR_VARIANT = -5"
definition IDENT_ERR_UUID :: int where "IDENT_ERR_UUID = -6"
definition IDENT_ERR_ADDR :: int where "IDENT_ERR_ADDR = -7"
definition CHIP_PICO :: u8 where "CHIP_PICO = 0"
definition CHIP_PICO2 :: u8 where "CHIP_PICO2 = 1"

lemmas ident_codes = IDENT_OK_def IDENT_ERR_MISSING_def IDENT_ERR_FORMAT_def IDENT_ERR_SCHEMA_def
  IDENT_ERR_CHIP_def IDENT_ERR_VARIANT_def IDENT_ERR_UUID_def IDENT_ERR_ADDR_def

record identity =
  id_chip :: u8
  id_variant :: u8
  id_addr :: u8
  id_baud :: u32
  id_uuid :: "u8 list"

text \<open>The locals of \<open>boot_read_identity\<close>.\<close>

record ident_vars =
  iv_v :: u64
  iv_ch :: u64
  iv_vr :: u64
  iv_ad :: u64
  iv_sp :: u64
  iv_uid :: "u8 list"
  iv_seen :: u8

definition ident_vars0 :: ident_vars where
  "ident_vars0 = \<lparr>iv_v = 0, iv_ch = NOT 0, iv_vr = NOT 0, iv_ad = NOT 0, iv_sp = 0, iv_uid = [], iv_seen = 0\<rparr>"

definition S_V :: u8 where "S_V = 1"
definition S_CH :: u8 where "S_CH = 2"
definition S_VR :: u8 where "S_VR = 4"
definition S_AD :: u8 where "S_AD = 8"
definition S_ID :: u8 where "S_ID = 16"

definition ident_field :: "u32 \<Rightarrow> ident_vars \<Rightarrow> u8 list \<Rightarrow> ident_vars cres" where
  "ident_field E s r =
     cbind (cbor_str E CBOR_TEXT r) (\<lambda>k.
       if k = key ''v'' then field_with cbor_uint (\<lambda>v. s\<lparr>iv_v := v, iv_seen := iv_seen s OR S_V\<rparr>)
       else if k = key ''ch'' then field_with cbor_uint (\<lambda>v. s\<lparr>iv_ch := v, iv_seen := iv_seen s OR S_CH\<rparr>)
       else if k = key ''vr'' then field_with cbor_uint (\<lambda>v. s\<lparr>iv_vr := v, iv_seen := iv_seen s OR S_VR\<rparr>)
       else if k = key ''ad'' then field_with cbor_uint (\<lambda>v. s\<lparr>iv_ad := v, iv_seen := iv_seen s OR S_AD\<rparr>)
       else if k = key ''sp'' then field_with cbor_uint (\<lambda>v. s\<lparr>iv_sp := v\<rparr>)
       else if k = key ''id'' then field_with (cbor_str E CBOR_BYTES) (\<lambda>u. s\<lparr>iv_uid := u, iv_seen := iv_seen s OR S_ID\<rparr>)
       else field_with (cbor_skip E) (\<lambda>_. s))"

definition identity0 :: identity where
  "identity0 = \<lparr>id_chip = 0, id_variant = 0, id_addr = 0, id_baud = 0, id_uuid = replicate 8 0\<rparr>"

text \<open>The checks behind the parse; \<open>chip\<close> is \<open>BUILD_CHIP\<close>, \<open>board\<close> this board's unique id (8 bytes).\<close>

definition ident_checks :: "u8 \<Rightarrow> u8 list \<Rightarrow> ident_vars \<Rightarrow> identity ret" where
  "ident_checks chip board s =
     (if iv_seen s \<noteq> (S_V OR S_CH OR S_VR OR S_AD OR S_ID) then Ret IDENT_ERR_FORMAT identity0
      else if iv_v s \<noteq> IDENT_SCHEMA_VER then Ret IDENT_ERR_SCHEMA identity0
      else if iv_ch s \<noteq> ucast chip then Ret IDENT_ERR_CHIP identity0
      else if \<not> variant_supported (ucast (iv_vr s)) then Ret IDENT_ERR_VARIANT identity0
      else if length (iv_uid s) \<noteq> 8 \<or> iv_uid s \<noteq> board then Ret IDENT_ERR_UUID identity0
      else if (if variant_is_master (ucast (iv_vr s)) then iv_ad s \<noteq> ucast BUS_ADDR_MASTER
               else iv_ad s < ucast BUS_ADDR_SLAVE_MIN \<or> iv_ad s > ucast BUS_ADDR_SLAVE_MAX)
        then Ret IDENT_ERR_ADDR identity0
      else Ret IDENT_OK \<lparr>id_chip = ucast (iv_ch s), id_variant = ucast (iv_vr s), id_addr = ucast (iv_ad s),
             id_baud = ucast (iv_sp s), id_uuid = iv_uid s\<rparr>)"

definition boot_read_identity :: "cfg_entry list \<Rightarrow> u32 \<Rightarrow> u8 \<Rightarrow> u8 list \<Rightarrow> identity ret" where
  "boot_read_identity region E chip board =
     with_file region ''idnt'' (Ret IDENT_ERR_MISSING identity0) (\<lambda>buf.
       finish identity0 (ident_checks chip board)
         (err IDENT_ERR_FORMAT (cbind (cbor_open CBOR_MAP buf) (\<lambda>np. cbor_loop (unat np) (ident_field E) ident_vars0))))"

section \<open>Roster\<close>

definition ROSTER_SCHEMA_VER :: u64 where "ROSTER_SCHEMA_VER = 1"
definition ROSTER_FILE_MAX :: nat where "ROSTER_FILE_MAX = 32"
definition ROSTER_OK :: int where "ROSTER_OK = 0"
definition ROSTER_ERR_MISSING :: int where "ROSTER_ERR_MISSING = -1"
definition ROSTER_ERR_FORMAT :: int where "ROSTER_ERR_FORMAT = -2"
definition ROSTER_ERR_SCHEMA :: int where "ROSTER_ERR_SCHEMA = -3"

record roster_slave =
  rs_addr :: u8
  rs_variant :: u8
  rs_flags :: u8

text \<open>\<open>out->s[0 .. n - 1]\<close> is the list \<open>rc_s\<close>.\<close>

record roster_cfg =
  rc_grant_period_ms :: u16
  rc_window_us :: u16
  rc_max_misses :: u8
  rc_tcp_retries :: u8
  rc_s :: "roster_slave list"

definition roster_cfg0 :: roster_cfg where
  "roster_cfg0 = \<lparr>rc_grant_period_ms = 0, rc_window_us = 0, rc_max_misses = 0, rc_tcp_retries = 0, rc_s = []\<rparr>"

record roster_vars =
  rv_v :: u64
  rv_p :: u64
  rv_w :: u64
  rv_m :: u64
  rv_r :: u64
  rv_got_v :: bool
  rv_s :: "roster_slave list"

definition roster_vars0 :: roster_vars where
  "roster_vars0 = \<lparr>rv_v = 0, rv_p = 0, rv_w = 0, rv_m = 0, rv_r = 0, rv_got_v = False, rv_s = []\<rparr>"

definition roster_tuple :: "u32 \<Rightarrow> roster_slave list \<Rightarrow> u8 list \<Rightarrow> roster_slave list cres" where
  "roster_tuple E s r =
     cbind (cbor_open CBOR_ARRAY r) (\<lambda>nf r. if nf < 3 then Bad 0 else
     cbind (cbor_uint r) (\<lambda>addr r. cbind (cbor_uint r) (\<lambda>variant r. cbind (cbor_uint r) (\<lambda>flags r.
     cbind (cbor_loop (unat nf - 3) (\<lambda>_. cbor_skip E) () r) (\<lambda>_. Got
       (if length s < ROSTER_FILE_MAX
        then s @ [\<lparr>rs_addr = ucast addr, rs_variant = ucast variant, rs_flags = ucast flags\<rparr>] else s))))))"

definition roster_field :: "u32 \<Rightarrow> roster_vars \<Rightarrow> u8 list \<Rightarrow> roster_vars cres" where
  "roster_field E s r =
     cbind (cbor_str E CBOR_TEXT r) (\<lambda>k.
       if k = key ''v'' then field_with cbor_uint (\<lambda>v. s\<lparr>rv_v := v, rv_got_v := True\<rparr>)
       else if k = key ''p'' then field_with cbor_uint (\<lambda>v. s\<lparr>rv_p := v\<rparr>)
       else if k = key ''w'' then field_with cbor_uint (\<lambda>v. s\<lparr>rv_w := v\<rparr>)
       else if k = key ''m'' then field_with cbor_uint (\<lambda>v. s\<lparr>rv_m := v\<rparr>)
       else if k = key ''r'' then field_with cbor_uint (\<lambda>v. s\<lparr>rv_r := v\<rparr>)
       else if k = key ''s'' then field_with
         (\<lambda>r. cbind (cbor_open CBOR_ARRAY r) (\<lambda>ns. cbor_loop (unat ns) (roster_tuple E) (rv_s s))) (\<lambda>l. s\<lparr>rv_s := l\<rparr>)
       else field_with (cbor_skip E) (\<lambda>_. s))"

definition roster_checks :: "roster_vars \<Rightarrow> roster_cfg ret" where
  "roster_checks s =
     (if \<not> rv_got_v s then Ret ROSTER_ERR_FORMAT roster_cfg0
      else if rv_v s \<noteq> ROSTER_SCHEMA_VER then Ret ROSTER_ERR_SCHEMA roster_cfg0
      else Ret ROSTER_OK \<lparr>rc_grant_period_ms = ucast (rv_p s), rc_window_us = ucast (rv_w s),
             rc_max_misses = ucast (rv_m s), rc_tcp_retries = ucast (rv_r s), rc_s = rv_s s\<rparr>)"

definition boot_read_roster :: "cfg_entry list \<Rightarrow> u32 \<Rightarrow> roster_cfg ret" where
  "boot_read_roster region E =
     with_file region ''slvr'' (Ret ROSTER_ERR_MISSING roster_cfg0) (\<lambda>buf.
       finish roster_cfg0 roster_checks
         (err ROSTER_ERR_FORMAT (cbind (cbor_open CBOR_MAP buf) (\<lambda>np. cbor_loop (unat np) (roster_field E) roster_vars0))))"

section \<open>Pin roles\<close>

definition HWIO_SCHEMA_VER :: u64 where "HWIO_SCHEMA_VER = 2"
definition HWIO_MODE_GPIO :: u8 where "HWIO_MODE_GPIO = 1"
definition HWIO_MODE_SERVO :: u8 where "HWIO_MODE_SERVO = 4"
definition HWIO_MODE_COUNTER :: u8 where "HWIO_MODE_COUNTER = 5"
definition HWIO_MODE_MAX :: u64 where "HWIO_MODE_MAX = 7"
definition HWIO_OK :: int where "HWIO_OK = 0"
definition HWIO_ERR_MISSING :: int where "HWIO_ERR_MISSING = -1"
definition HWIO_ERR_FORMAT :: int where "HWIO_ERR_FORMAT = -2"
definition HWIO_ERR_SCHEMA :: int where "HWIO_ERR_SCHEMA = -3"
definition HWIO_ERR_ROLE :: int where "HWIO_ERR_ROLE = -4"
definition HWIO_ADC_NCH :: nat where "HWIO_ADC_NCH = 3"
definition HWIO_LABEL_MAX :: nat where "HWIO_LABEL_MAX = 16"
definition HWIO_UNIT_MAX :: nat where "HWIO_UNIT_MAX = 8"

lemmas hwio_codes = HWIO_OK_def HWIO_ERR_MISSING_def HWIO_ERR_FORMAT_def HWIO_ERR_SCHEMA_def HWIO_ERR_ROLE_def

record hwio_adc =
  ha_label :: "u8 list"
  ha_unit :: "u8 list"
  ha_scale_num :: u32
  ha_scale_den :: u32

record hwio =
  hw_io_mode :: u8
  hw_pin :: "u8 list"
  hw_adc :: "hwio_adc list"

definition hwio_adc0 :: hwio_adc where
  "hwio_adc0 = \<lparr>ha_label = replicate HWIO_LABEL_MAX 0, ha_unit = replicate HWIO_UNIT_MAX 0, ha_scale_num = 0, ha_scale_den = 0\<rparr>"

text \<open>The zeroed struct with \<open>io_mode = HWIO_MODE_GPIO\<close>: every pin unused, every channel unlabelled.\<close>

definition hwio_default :: hwio where
  "hwio_default = \<lparr>hw_io_mode = HWIO_MODE_GPIO, hw_pin = replicate (unat HIL_GPIO_COUNT) 0, hw_adc = replicate HWIO_ADC_NCH hwio_adc0\<rparr>"

text \<open>Copy a text into a field of \<open>length dst\<close> bytes, cut to fit, with the closing \<open>NUL\<close>.\<close>

definition copy_text :: "u8 list \<Rightarrow> u8 list \<Rightarrow> u8 list" where
  "copy_text dst s = (let n = if length s \<ge> length dst then length dst - 1 else length s
     in take n s @ [0] @ drop (n + 1) dst)"

definition adc_field :: "u32 \<Rightarrow> hwio_adc \<Rightarrow> u8 list \<Rightarrow> hwio_adc cres" where
  "adc_field E a r =
     cbind (cbor_str E CBOR_TEXT r) (\<lambda>k.
       if k = key ''l'' then field_with (cbor_str E CBOR_TEXT) (\<lambda>s. a\<lparr>ha_label := copy_text (ha_label a) s\<rparr>)
       else if k = key ''u'' then field_with (cbor_str E CBOR_TEXT) (\<lambda>s. a\<lparr>ha_unit := copy_text (ha_unit a) s\<rparr>)
       else if k = key ''n'' then field_with cbor_uint (\<lambda>v. a\<lparr>ha_scale_num := ucast v\<rparr>)
       else if k = key ''d'' then field_with cbor_uint (\<lambda>v. a\<lparr>ha_scale_den := ucast v\<rparr>)
       else field_with (cbor_skip E) (\<lambda>_. a))"

definition parse_adc_entry :: "u32 \<Rightarrow> hwio_adc \<Rightarrow> u8 list \<Rightarrow> hwio_adc cres" where
  "parse_adc_entry E a r = err HWIO_ERR_FORMAT
     (cbind (cbor_open CBOR_MAP r) (\<lambda>np. cbor_loop (unat np) (adc_field E) a))"

record hwio_vars =
  hv_tmp :: hwio
  hv_v :: u64
  hv_seen_v :: bool

definition hwio_vars0 :: hwio_vars where
  "hwio_vars0 = \<lparr>hv_tmp = hwio_default, hv_v = 0, hv_seen_v = False\<rparr>"

text \<open>The bodies of the loops over the pins and over the channels; \<open>j\<close> is the loop counter.\<close>

definition pin_item :: "nat \<times> u8 list \<Rightarrow> u8 list \<Rightarrow> (nat \<times> u8 list) cres" where
  "pin_item = (\<lambda>(j, pin) r. cbind (err HWIO_ERR_FORMAT (cbor_uint r)) (\<lambda>b r.
     if b > 0xFF then Bad HWIO_ERR_ROLE else Got (j + 1, pin[j := ucast b]) r))"

definition adc_item :: "u32 \<Rightarrow> nat \<times> hwio_adc list \<Rightarrow> u8 list \<Rightarrow> (nat \<times> hwio_adc list) cres" where
  "adc_item E = (\<lambda>(j, adc) r.
     if j < HWIO_ADC_NCH then cbind (parse_adc_entry E (adc ! j) r) (\<lambda>a. Got (j + 1, adc[j := a]))
     else cbind (err HWIO_ERR_FORMAT (cbor_skip E r)) (\<lambda>_. Got (j + 1, adc)))"

definition hwio_field :: "u32 \<Rightarrow> hwio_vars \<Rightarrow> u8 list \<Rightarrow> hwio_vars cres" where
  "hwio_field E s r =
     cbind (err HWIO_ERR_FORMAT (cbor_str E CBOR_TEXT r)) (\<lambda>k r.
       if k = key ''v'' then cbind (err HWIO_ERR_FORMAT (cbor_uint r)) (\<lambda>v. Got (s\<lparr>hv_v := v, hv_seen_v := True\<rparr>))
       else if k = key ''m'' then cbind (err HWIO_ERR_FORMAT (cbor_uint r)) (\<lambda>m r.
         if m \<ge> HWIO_MODE_MAX then Bad HWIO_ERR_ROLE
         else Got (s\<lparr>hv_tmp := (hv_tmp s)\<lparr>hw_io_mode := ucast m\<rparr>\<rparr>) r)
       else if k = key ''io'' then cbind (err HWIO_ERR_FORMAT (cbor_open CBOR_ARRAY r)) (\<lambda>n r.
         if n > ucast HIL_GPIO_COUNT then Bad HWIO_ERR_ROLE
         else cbind (cbor_loop (unat n) pin_item (0, hw_pin (hv_tmp s)) r)
           (\<lambda>(j, pin). Got (s\<lparr>hv_tmp := (hv_tmp s)\<lparr>hw_pin := pin\<rparr>\<rparr>)))
       else if k = key ''ad'' then cbind (err HWIO_ERR_FORMAT (cbor_open CBOR_ARRAY r)) (\<lambda>n r.
         cbind (cbor_loop (unat n) (adc_item E) (0, hw_adc (hv_tmp s)) r)
           (\<lambda>(j, adc). Got (s\<lparr>hv_tmp := (hv_tmp s)\<lparr>hw_adc := adc\<rparr>\<rparr>)))
       else cbind (err HWIO_ERR_FORMAT (cbor_skip E r)) (\<lambda>_. Got s))"

definition hwio_checks :: "hwio_vars \<Rightarrow> hwio ret" where
  "hwio_checks s =
     (if \<not> hv_seen_v s then Ret HWIO_ERR_FORMAT hwio_default
      else if hv_v s \<noteq> HWIO_SCHEMA_VER then Ret HWIO_ERR_SCHEMA hwio_default
      else Ret HWIO_OK (hv_tmp s))"

definition boot_read_hwio :: "cfg_entry list \<Rightarrow> u32 \<Rightarrow> hwio ret" where
  "boot_read_hwio region E =
     with_file region ''hwio'' (Ret HWIO_ERR_MISSING hwio_default) (\<lambda>buf.
       finish hwio_default hwio_checks
         (cbind (err HWIO_ERR_FORMAT (cbor_open CBOR_MAP buf)) (\<lambda>np. cbor_loop (unat np) (hwio_field E) hwio_vars0)))"

section \<open>Network\<close>

definition NETI_SCHEMA_MIN :: u64 where "NETI_SCHEMA_MIN = 1"
definition NETI_SCHEMA_MAX :: u64 where "NETI_SCHEMA_MAX = 2"
definition NETI_SSID_MAX :: nat where "NETI_SSID_MAX = 33"
definition NETI_PASS_MAX :: nat where "NETI_PASS_MAX = 64"
definition NETI_AP_MAX :: nat where "NETI_AP_MAX = 4"
definition NETI_OK :: int where "NETI_OK = 0"
definition NETI_ERR_MISSING :: int where "NETI_ERR_MISSING = -1"
definition NETI_ERR_FORMAT :: int where "NETI_ERR_FORMAT = -2"
definition NETI_ERR_SCHEMA :: int where "NETI_ERR_SCHEMA = -3"

lemmas neti_codes = NETI_OK_def NETI_ERR_MISSING_def NETI_ERR_FORMAT_def NETI_ERR_SCHEMA_def

record netap =
  ap_ssid :: "u8 list"
  ap_pass :: "u8 list"

record netcfg =
  nc_n_ap :: nat
  nc_present :: bool
  nc_ip :: "u8 list"
  nc_port :: u16
  nc_ap :: "netap list"

definition netap0 :: netap where
  "netap0 = \<lparr>ap_ssid = replicate NETI_SSID_MAX 0, ap_pass = replicate NETI_PASS_MAX 0\<rparr>"

definition netcfg0 :: netcfg where
  "netcfg0 = \<lparr>nc_n_ap = 0, nc_present = False, nc_ip = replicate 4 0, nc_port = 0, nc_ap = replicate NETI_AP_MAX netap0\<rparr>"

definition ap_field :: "u32 \<Rightarrow> netap \<Rightarrow> u8 list \<Rightarrow> netap cres" where
  "ap_field E a r =
     cbind (cbor_str E CBOR_TEXT r) (\<lambda>k.
       if k = key ''ss'' then field_with (cbor_str E CBOR_TEXT) (\<lambda>s. a\<lparr>ap_ssid := copy_text (ap_ssid a) s\<rparr>)
       else if k = key ''pw'' then field_with (cbor_str E CBOR_TEXT) (\<lambda>s. a\<lparr>ap_pass := copy_text (ap_pass a) s\<rparr>)
       else field_with (cbor_skip E) (\<lambda>_. a))"

definition parse_ap :: "u32 \<Rightarrow> netap \<Rightarrow> u8 list \<Rightarrow> netap cres" where
  "parse_ap E a r = cbind (cbor_open CBOR_MAP r) (\<lambda>np. cbor_loop (unat np) (ap_field E) a)"

definition ap_item :: "u32 \<Rightarrow> nat \<times> netap list \<Rightarrow> u8 list \<Rightarrow> (nat \<times> netap list) cres" where
  "ap_item E = (\<lambda>(j, aps) r.
     if j < NETI_AP_MAX then cbind (parse_ap E (aps ! j) r) (\<lambda>a. Got (j + 1, aps[j := a]))
     else cbind (cbor_skip E r) (\<lambda>_. Got (j + 1, aps)))"

definition ap_count :: "u64 \<Rightarrow> nat" where
  "ap_count na = (if na > word_of_nat NETI_AP_MAX then NETI_AP_MAX else unat (ucast na :: u8))"

text \<open>The loop state is \<open>*out\<close> with \<open>v\<close> and \<open>seen_v\<close>.\<close>

definition net_field :: "u32 \<Rightarrow> netcfg \<times> u64 \<times> bool \<Rightarrow> u8 list \<Rightarrow> (netcfg \<times> u64 \<times> bool) cres" where
  "net_field E = (\<lambda>(out, v, seen_v) r.
     cbind (cbor_str E CBOR_TEXT r) (\<lambda>k r.
       if k = key ''v'' then cbind (cbor_uint r) (\<lambda>v. Got (out, v, True))
       else if k = key ''ip'' then cbind (cbor_str E CBOR_BYTES r) (\<lambda>s r.
         if length s \<noteq> 4 then Bad 0 else Got (out\<lparr>nc_ip := s\<rparr>, v, seen_v) r)
       else if k = key ''pt'' then cbind (cbor_uint r) (\<lambda>p. Got (out\<lparr>nc_port := ucast p\<rparr>, v, seen_v))
       else if k = key ''ss'' then cbind (cbor_str E CBOR_TEXT r) (\<lambda>s. Got
         (out\<lparr>nc_ap := (nc_ap out)[0 := (nc_ap out ! 0)\<lparr>ap_ssid := copy_text (ap_ssid (nc_ap out ! 0)) s\<rparr>],
              nc_n_ap := (if nc_n_ap out < 1 then 1 else nc_n_ap out)\<rparr>, v, seen_v))
       else if k = key ''pw'' then cbind (cbor_str E CBOR_TEXT r) (\<lambda>s. Got
         (out\<lparr>nc_ap := (nc_ap out)[0 := (nc_ap out ! 0)\<lparr>ap_pass := copy_text (ap_pass (nc_ap out ! 0)) s\<rparr>],
              nc_n_ap := (if nc_n_ap out < 1 then 1 else nc_n_ap out)\<rparr>, v, seen_v))
       else if k = key ''aps'' then cbind (cbor_open CBOR_ARRAY r) (\<lambda>na r.
         cbind (cbor_loop (unat na) (ap_item E) (0, nc_ap out) r) (\<lambda>(j, aps). Got
           (out\<lparr>nc_ap := aps, nc_n_ap := ap_count na\<rparr>, v, seen_v)))
       else cbind (cbor_skip E r) (\<lambda>_. Got (out, v, seen_v))))"

definition net_checks :: "netcfg \<times> u64 \<times> bool \<Rightarrow> netcfg ret" where
  "net_checks = (\<lambda>(out, v, seen_v).
     if \<not> seen_v then Ret NETI_ERR_FORMAT netcfg0
     else if v < NETI_SCHEMA_MIN \<or> v > NETI_SCHEMA_MAX then Ret NETI_ERR_SCHEMA netcfg0
     else if nc_n_ap out = 0 \<or> ap_ssid (nc_ap out ! 0) ! 0 = 0 then Ret NETI_ERR_FORMAT netcfg0
     else Ret NETI_OK (out\<lparr>nc_present := True\<rparr>))"

definition boot_parse_netcfg :: "u32 \<Rightarrow> u8 list \<Rightarrow> netcfg ret" where
  "boot_parse_netcfg E buf = finish netcfg0 net_checks
     (err NETI_ERR_FORMAT (cbind (cbor_open CBOR_MAP buf) (\<lambda>np. cbor_loop (unat np) (net_field E) (netcfg0, 0, False))))"

definition boot_read_netcfg :: "cfg_entry list \<Rightarrow> u32 \<Rightarrow> netcfg ret" where
  "boot_read_netcfg region E =
     with_file region ''neti'' (Ret NETI_ERR_MISSING netcfg0) (boot_parse_netcfg E)"

section \<open>Loops over the entries of a map\<close>

declare enc.simps [simp del]

lemma cbor_loop_0 [simp]: "cbor_loop 0 f s r = Got s r"
  by (subst cbor_loop.simps) simp

lemma cbor_loop_Suc [simp]: "cbor_loop (Suc n) f s r = cbind (f s r) (cbor_loop n f)"
  by (subst cbor_loop.simps) simp

lemma cbor_loop_inv:
  assumes step: "\<And>s r s' r'. P s \<Longrightarrow> f s r = Got s' r' \<Longrightarrow> P s'"
  shows "P s \<Longrightarrow> cbor_loop n f s r = Got s' r' \<Longrightarrow> P s'"
  by (induction n arbitrary: s r) (auto simp: cbind_Got dest: step)

lemma cbor_loop_enc:
  assumes step: "\<And>s x r. x \<in> set xs \<Longrightarrow> in_ram E (e x @ r) \<Longrightarrow> f s (e x @ r) = Got (g s x) r"
  shows "in_ram E (concat (map e xs) @ r) \<Longrightarrow> cbor_loop (length xs) f s (concat (map e xs) @ r) = Got (foldl g s xs) r"
  using step
proof (induction xs arbitrary: s)
  case (Cons x xs)
  have "in_ram E (concat (map e xs) @ r)" using in_ram_app [of E "e x"] Cons.prems(1) by simp
  with Cons show ?case by simp
qed simp

text \<open>The same loop, counted by the header of the map or of the array.\<close>

lemma map_loop_enc:
  assumes "\<And>s k v r. (k, v) \<in> set kvs \<Longrightarrow> in_ram E (enc k @ enc v @ r) \<Longrightarrow> f s (enc k @ enc v @ r) = Got (g s (k, v)) r"
    and "in_ram E (enc (C_map kvs))"
  shows "cbind (cbor_open CBOR_MAP (enc (C_map kvs))) (\<lambda>np. cbor_loop (unat np) f s) = Got (foldl g s kvs) []"
proof -
  let ?e = "\<lambda>(k, v). enc k @ enc v"
  have r: "in_ram E (concat (map ?e kvs) @ [])" using assms(2) by (simp add: in_ram_def enc.simps)
  have "length kvs \<le> length (concat (map ?e kvs))"
    using length_concat_ge [of kvs 1 ?e] enc_nonempty by (fastforce simp: Suc_le_eq)
  then have "unat (word_of_nat (length kvs) :: u64) = length kvs" using in_ramD [OF r] by (simp add: unat_of_nat)
  moreover have "cbor_loop (length kvs) f s (concat (map ?e kvs) @ []) = Got (foldl g s kvs) []"
    by (rule cbor_loop_enc) (use assms(1) r in auto)
  ultimately show ?thesis using cbor_open_enc(2) [of kvs "[]"] by simp
qed

lemma array_loop_enc:
  assumes "\<And>s x r. x \<in> set xs \<Longrightarrow> in_ram E (enc x @ r) \<Longrightarrow> f s (enc x @ r) = Got (g s x) r"
    and "in_ram E (enc (C_array xs) @ r)"
  shows "cbind (cbor_open CBOR_ARRAY (enc (C_array xs) @ r)) (\<lambda>n. cbor_loop (unat n) f s) = Got (foldl g s xs) r"
proof -
  have i: "in_ram E (concat (map enc xs) @ r)" using assms(2) by (simp add: in_ram_def enc.simps)
  have "length xs \<le> length (concat (map enc xs))"
    using length_concat_ge [of xs 1 enc] enc_nonempty by (fastforce simp: Suc_le_eq)
  then have "unat (word_of_nat (length xs) :: u64) = length xs" using in_ramD [OF i] by (simp add: unat_of_nat)
  then show ?thesis using cbor_loop_enc [of xs E enc f g r s] assms(1) i by simp
qed

section \<open>Reading back what was stored\<close>

text \<open>The row of a file \<open>name\<close> with the given contents.\<close>

definition stored :: "string \<Rightarrow> u8 list \<Rightarrow> cfg_entry" where
  "stored name data = \<lparr>ce_magic = CFG_STORE_MAGIC, ce_seq = 1, ce_name = key name, ce_len = word_of_nat (length data),
     ce_crc = entry_crc (key name) (word_of_nat (length data)) data, ce_data = data\<rparr>"

lemma with_file_stored:
  assumes "length data \<le> 240" and "key name ! 0 \<noteq> 0xFF"
  shows "with_file [stored name data] name m k = k data"
proof -
  have n: "unat (word_of_nat (length data) :: u8) = length data" using assms by (simp add: unat_of_nat)
  have "entry_valid (stored name data)"
    using assms n by (simp add: entry_valid_def stored_def CFG_STORE_DATA_MAX_def word_le_nat_alt)
  then have "cfg_scan (key name) None [stored name data] = Some (stored name data)" by (simp add: stored_def)
  then show ?thesis using assms n by (simp add: with_file_def cfg_load_def stored_def CFG_FILE_MAX_def)
qed

lemma in_ram_small: "length r \<le> 240 \<Longrightarrow> 240 \<le> unat E \<Longrightarrow> in_ram E r"
  by (simp add: in_ram_def)

text \<open>
  What an identity file means: its entries in order, an entry with a known key sets the field, every
  other entry is ignored.  The file is well typed when the known keys carry values of their kind.
\<close>

fun ident_entry :: "ident_vars \<Rightarrow> citem \<times> citem \<Rightarrow> ident_vars" where
  "ident_entry s (C_text k, C_uint v) =
     (if k = key ''v'' then s\<lparr>iv_v := v, iv_seen := iv_seen s OR S_V\<rparr>
      else if k = key ''ch'' then s\<lparr>iv_ch := v, iv_seen := iv_seen s OR S_CH\<rparr>
      else if k = key ''vr'' then s\<lparr>iv_vr := v, iv_seen := iv_seen s OR S_VR\<rparr>
      else if k = key ''ad'' then s\<lparr>iv_ad := v, iv_seen := iv_seen s OR S_AD\<rparr>
      else if k = key ''sp'' then s\<lparr>iv_sp := v\<rparr> else s)"
| "ident_entry s (C_text k, C_bytes u) =
     (if k = key ''id'' then s\<lparr>iv_uid := u, iv_seen := iv_seen s OR S_ID\<rparr> else s)"
| "ident_entry s _ = s"

fun ident_typed :: "citem \<times> citem \<Rightarrow> bool" where
  "ident_typed (C_text k, C_uint v) \<longleftrightarrow> k \<noteq> key ''id''"
| "ident_typed (C_text k, C_bytes u) \<longleftrightarrow> k \<notin> set (map key [''v'', ''ch'', ''vr'', ''ad'', ''sp''])"
| "ident_typed (C_text k, _) \<longleftrightarrow> k \<notin> set (map key [''v'', ''ch'', ''vr'', ''ad'', ''sp'', ''id''])"
| "ident_typed _ \<longleftrightarrow> False"

lemma skip_enc: "in_ram E (enc it @ r) \<Longrightarrow> cbor_skip E (enc it @ r) = Got () r"
  using skips_enc [of E it r 0] by (simp add: cbor_skip_def)

lemma key_simps [simp]:
  "key [] = []" "key (c # cs) = of_char c # key cs"
  by (simp_all add: key_def)

lemma ident_field_enc:
  assumes "ident_typed (k, v)" and m: "in_ram E (enc k @ enc v @ r)"
  shows "ident_field E s (enc k @ enc v @ r) = Got (ident_entry s (k, v)) r"
proof -
  obtain t where k: "k = C_text t" using assms(1) by (cases "(k, v)" rule: ident_typed.cases) auto
  have key: "cbor_str E CBOR_TEXT (enc (C_text t) @ enc v @ r) = Got t (enc v @ r)" using m k by simp
  have mv: "in_ram E (enc v @ r)" using m in_ram_app by blast
  have b: "cbor_str E CBOR_BYTES (enc v @ r) = Got u r" if "v = C_bytes u" for u using mv that by simp
  have u: "cbor_uint (enc v @ r) = Got x r" if "v = C_uint x" for x using that by simp
  show ?thesis
    unfolding k ident_field_def key using assms(1) skip_enc [OF mv] b u
    by (cases v) (simp_all add: k field_with_def)
qed

lemma read_identity_enc:
  assumes "list_all ident_typed kvs" and "length (enc (C_map kvs)) \<le> 240" and "240 \<le> unat E"
  shows "boot_read_identity [stored ''idnt'' (enc (C_map kvs))] E chip board
    = ident_checks chip board (foldl ident_entry ident_vars0 kvs)"
proof -
  have "cbind (cbor_open CBOR_MAP (enc (C_map kvs))) (\<lambda>np. cbor_loop (unat np) (ident_field E) ident_vars0)
      = Got (foldl ident_entry ident_vars0 kvs) []"
    using assms by (intro map_loop_enc in_ram_small) (auto simp: list_all_iff intro: ident_field_enc)
  then show ?thesis using assms by (simp add: boot_read_identity_def with_file_stored)
qed

text \<open>The identity file of a slave at address 5, written by a newer tool that adds an entry \<open>x\<close>.\<close>

definition slave_file :: "(citem \<times> citem) list" where
  "slave_file = [(C_text (key ''ad''), C_uint 5), (C_text (key ''x''), C_array [C_uint 1, C_bytes [9]]),
     (C_text (key ''v''), C_uint 1), (C_text (key ''ch''), C_uint 0), (C_text (key ''vr''), C_uint 3),
     (C_text (key ''id''), C_bytes [1, 2, 3, 4, 5, 6, 7, 8])]"

definition slave_identity :: identity where
  "slave_identity = \<lparr>id_chip = 0, id_variant = 3, id_addr = 5, id_baud = 0, id_uuid = [1, 2, 3, 4, 5, 6, 7, 8]\<rparr>"

lemma slave_file_facts:
  "list_all ident_typed slave_file" "length (enc (C_map slave_file)) \<le> 240"
  "ident_checks CHIP_PICO [1, 2, 3, 4, 5, 6, 7, 8] (foldl ident_entry ident_vars0 slave_file) = Ret IDENT_OK slave_identity"
  by code_simp+

text \<open>
  Reading an identity file: whatever the order of its entries and whatever unknown entries (of any
  shape) lie between them, the reader's verdict is that of the checks on the values the entries
  carry, a later entry overriding an earlier one with the same key.
\<close>

theorem identity_file_read:
  assumes "list_all ident_typed kvs" and "length (enc (C_map kvs)) \<le> 240" and "240 \<le> unat E"
  shows "boot_read_identity [stored ''idnt'' (enc (C_map kvs))] E chip board
    = ident_checks chip board (foldl ident_entry ident_vars0 kvs)"
  by (rule read_identity_enc) (use assms in simp_all)

theorem identity_file_read_witness:
  "boot_read_identity [stored ''idnt'' (enc (C_map slave_file))] 0x20040000 CHIP_PICO [1, 2, 3, 4, 5, 6, 7, 8]
    = Ret IDENT_OK slave_identity"
  using identity_file_read [OF slave_file_facts(1,2), of "0x20040000" CHIP_PICO "[1, 2, 3, 4, 5, 6, 7, 8]"]
  by (simp add: slave_file_facts(3))

lemma ident_checks_ok:
  assumes "ident_checks chip board s = Ret IDENT_OK out"
  shows "id_chip out = chip \<and> variant_supported (id_variant out) \<and> id_uuid out = board \<and>
    (if variant_is_master (id_variant out) then id_addr out = BUS_ADDR_MASTER
     else BUS_ADDR_SLAVE_MIN \<le> id_addr out \<and> id_addr out \<le> BUS_ADDR_SLAVE_MAX)"
proof -
  have addr: "(ucast (ad :: u64) :: u8) \<ge> 1 \<and> (ucast ad :: u8) \<le> 0x7E" if "ad \<noteq> 0" "ad \<le> 0x7E" for ad :: u64
  proof -
    have n: "1 \<le> unat ad" "unat ad \<le> 126" using that by (simp_all add: word_le_nat_alt Suc_le_eq unat_gt_0)
    then have "unat (ucast ad :: u8) = unat ad" by (simp add: unsigned_ucast_eq take_bit_eq_mod)
    then show ?thesis using n by (simp add: word_le_nat_alt)
  qed
  have c: "(ucast (ucast chip :: u64) :: u8) = chip" by (rule bit_word_eqI) (simp add: bit_simps)
  show ?thesis
    using assms addr [of "iv_ad s"] c
    by (auto simp: ident_checks_def ident_codes BUS_ADDR_MASTER_def BUS_ADDR_SLAVE_MIN_def BUS_ADDR_SLAVE_MAX_def
        not_less split: if_splits)
qed

lemma with_file_Ret:
  "with_file region name (Ret m d) k = Ret c out \<Longrightarrow> (\<exists>buf. length buf \<le> CFG_FILE_MAX \<and> k buf = Ret c out) \<or> (c = m \<and> out = d)"
  using cfg_load_bounded [of region "key name" CFG_FILE_MAX] by (fastforce simp: with_file_def split: sum.splits)



text \<open>
  The variant is checked after truncation to a byte: a file that names the variant 257 is accepted,
  as variant 1, and the unit comes up as bus controller.
\<close>

definition wide_variant_file :: "(citem \<times> citem) list" where
  "wide_variant_file = [(C_text (key ''v''), C_uint 1), (C_text (key ''ch''), C_uint 0), (C_text (key ''vr''), C_uint 257),
     (C_text (key ''ad''), C_uint 0), (C_text (key ''id''), C_bytes [1, 2, 3, 4, 5, 6, 7, 8])]"

theorem identity_variant_truncated:
  "boot_read_identity [stored ''idnt'' (enc (C_map wide_variant_file))] 0x20040000 CHIP_PICO [1, 2, 3, 4, 5, 6, 7, 8]
    = Ret IDENT_OK \<lparr>id_chip = 0, id_variant = VARIANT_BUS_CTRL_USB, id_addr = 0, id_baud = 0, id_uuid = [1, 2, 3, 4, 5, 6, 7, 8]\<rparr>"
proof -
  have f: "list_all ident_typed wide_variant_file" "length (enc (C_map wide_variant_file)) \<le> 240"
    "ident_checks CHIP_PICO [1, 2, 3, 4, 5, 6, 7, 8] (foldl ident_entry ident_vars0 wide_variant_file) =
       Ret IDENT_OK \<lparr>id_chip = 0, id_variant = VARIANT_BUS_CTRL_USB, id_addr = 0, id_baud = 0, id_uuid = [1, 2, 3, 4, 5, 6, 7, 8]\<rparr>"
    by code_simp+
  show ?thesis using read_identity_enc [OF f(1,2), of "0x20040000" CHIP_PICO "[1, 2, 3, 4, 5, 6, 7, 8]"] f(3) by simp
qed

section \<open>The roster is read back\<close>

definition roster_file :: "roster_cfg \<Rightarrow> (citem \<times> citem) list" where
  "roster_file c = [(C_text (key ''v''), C_uint 1), (C_text (key ''p''), C_uint (ucast (rc_grant_period_ms c))),
     (C_text (key ''w''), C_uint (ucast (rc_window_us c))), (C_text (key ''m''), C_uint (ucast (rc_max_misses c))),
     (C_text (key ''r''), C_uint (ucast (rc_tcp_retries c))),
     (C_text (key ''s''), C_array (map (\<lambda>s. C_array [C_uint (ucast (rs_addr s)), C_uint (ucast (rs_variant s)), C_uint (ucast (rs_flags s))]) (rc_s c)))]"

fun tuple_entry :: "roster_slave list \<Rightarrow> citem \<Rightarrow> roster_slave list" where
  "tuple_entry s (C_array (C_uint a # C_uint v # C_uint f # _)) =
     (if length s < ROSTER_FILE_MAX then s @ [\<lparr>rs_addr = ucast a, rs_variant = ucast v, rs_flags = ucast f\<rparr>] else s)"
| "tuple_entry s _ = s"

lemma roster_tuple_enc:
  assumes "in_ram E (enc (C_array (C_uint a # C_uint v # C_uint f # xs)) @ r)"
  shows "roster_tuple E s (enc (C_array (C_uint a # C_uint v # C_uint f # xs)) @ r)
    = Got (tuple_entry s (C_array (C_uint a # C_uint v # C_uint f # xs))) r"
proof -
  have i: "in_ram E (concat (map enc xs) @ r)" using assms by (simp add: in_ram_def enc.simps)
  have "length xs \<le> length (concat (map enc xs))"
    using length_concat_ge [of xs 1 enc] enc_nonempty by (fastforce simp: Suc_le_eq)
  then have n: "unat (word_of_nat (length xs) + 3 :: u64) = 3 + length xs"
    using in_ramD [OF i] by (simp add: unat_word_ariths unat_of_nat)
  then have "\<not> word_of_nat (length xs) + 3 < (3 :: u64)" by (simp add: word_less_nat_alt)
  moreover have "cbor_loop (length xs) (\<lambda>_. cbor_skip E) () (concat (map enc xs) @ r) = Got (foldl (\<lambda>s _. s) () xs) r"
    by (rule cbor_loop_enc [OF _ i]) (simp add: skip_enc)
  ultimately show ?thesis by (simp add: roster_tuple_def n add.commute [of 3])
qed

lemma ucast_back:
  "(ucast (ucast (b :: u8) :: u64) :: u8) = b" "(ucast (ucast (h :: u16) :: u64) :: u16) = h"
  by (rule bit_word_eqI, simp add: bit_simps)+

definition slave_tuple :: "roster_slave \<Rightarrow> citem" where
  "slave_tuple s = C_array [C_uint (ucast (rs_addr s)), C_uint (ucast (rs_variant s)), C_uint (ucast (rs_flags s))]"

lemma tuple_entry_slave:
  "length l < ROSTER_FILE_MAX \<Longrightarrow> tuple_entry l (slave_tuple s) = l @ [s]"
  by (simp add: slave_tuple_def ucast_back)

lemma foldl_tuples:
  "length l + length ss \<le> ROSTER_FILE_MAX \<Longrightarrow> foldl tuple_entry l (map slave_tuple ss) = l @ ss"
  by (induction ss arbitrary: l) (simp_all add: tuple_entry_slave)

fun roster_entry :: "roster_vars \<Rightarrow> citem \<times> citem \<Rightarrow> roster_vars" where
  "roster_entry s (C_text k, C_uint v) =
     (if k = key ''v'' then s\<lparr>rv_v := v, rv_got_v := True\<rparr>
      else if k = key ''p'' then s\<lparr>rv_p := v\<rparr> else if k = key ''w'' then s\<lparr>rv_w := v\<rparr>
      else if k = key ''m'' then s\<lparr>rv_m := v\<rparr> else if k = key ''r'' then s\<lparr>rv_r := v\<rparr> else s)"
| "roster_entry s (C_text k, C_array xs) = (if k = key ''s'' then s\<lparr>rv_s := foldl tuple_entry (rv_s s) xs\<rparr> else s)"
| "roster_entry s _ = s"

lemma roster_field_uint:
  assumes "k \<noteq> key ''s''" and m: "in_ram E (enc (C_text k) @ enc (C_uint v) @ r)"
  shows "roster_field E s (enc (C_text k) @ enc (C_uint v) @ r) = Got (roster_entry s (C_text k, C_uint v)) r"
  using assms skip_enc [of E "C_uint v" r] in_ram_app [of E "enc (C_text k)" "enc (C_uint v) @ r"]
  by (simp add: roster_field_def field_with_def)

lemma roster_field_slaves:
  assumes m: "in_ram E (enc (C_text (key ''s'')) @ enc (C_array (map slave_tuple ss)) @ r)"
  shows "roster_field E s (enc (C_text (key ''s'')) @ enc (C_array (map slave_tuple ss)) @ r)
    = Got (roster_entry s (C_text (key ''s''), C_array (map slave_tuple ss))) r"
proof -
  have m': "in_ram E (enc (C_array (map slave_tuple ss)) @ r)" using m in_ram_app by blast
  have "cbind (cbor_open CBOR_ARRAY (enc (C_array (map slave_tuple ss)) @ r)) (\<lambda>n. cbor_loop (unat n) (roster_tuple E) (rv_s s))
      = Got (foldl tuple_entry (rv_s s) (map slave_tuple ss)) r"
    by (rule array_loop_enc [OF _ m']) (auto simp: slave_tuple_def simp del: tuple_entry.simps intro: roster_tuple_enc)
  then show ?thesis using m by (simp add: roster_field_def field_with_def del: cbor_open_enc)
qed

text \<open>
  C32. The roster round trip: a roster of at most 32 slaves that fits one row, written as a \<^verbatim>\<open>slvr\<close> file,
  is read back field by field and slave by slave, in the same order.
\<close>

theorem roster_roundtrip:
  assumes "length (rc_s c) \<le> ROSTER_FILE_MAX" and "length (enc (C_map (roster_file c))) \<le> 240" and "240 \<le> unat E"
  shows "boot_read_roster [stored ''slvr'' (enc (C_map (roster_file c)))] E = Ret ROSTER_OK c"
proof -
  have "cbind (cbor_open CBOR_MAP (enc (C_map (roster_file c)))) (\<lambda>np. cbor_loop (unat np) (roster_field E) roster_vars0)
      = Got (foldl roster_entry roster_vars0 (roster_file c)) []"
  proof (rule map_loop_enc)
    fix s k v r assume "(k, v) \<in> set (roster_file c)" "in_ram E (enc k @ enc v @ r)"
    then show "roster_field E s (enc k @ enc v @ r) = Got (roster_entry s (k, v)) r"
      by (auto simp del: roster_entry.simps key_simps simp: roster_file_def slave_tuple_def [symmetric]
          intro!: roster_field_uint roster_field_slaves) (simp_all add: key_def)
  qed (use assms in \<open>auto intro: in_ram_small\<close>)
  moreover have "roster_checks (foldl roster_entry roster_vars0 (roster_file c)) = Ret ROSTER_OK c"
    using assms(1) foldl_tuples [of "[]" "rc_s c"]
    by (simp add: roster_file_def slave_tuple_def [symmetric] roster_vars0_def roster_checks_def ROSTER_SCHEMA_VER_def ucast_back)
  ultimately show ?thesis using assms by (simp add: boot_read_roster_def with_file_stored)
qed

definition two_slaves :: roster_cfg where
  "two_slaves = \<lparr>rc_grant_period_ms = 250, rc_window_us = 1200, rc_max_misses = 5, rc_tcp_retries = 2,
     rc_s = [\<lparr>rs_addr = 5, rs_variant = 3, rs_flags = 2\<rparr>, \<lparr>rs_addr = 0x41, rs_variant = 3, rs_flags = 2\<rparr>]\<rparr>"

theorem roster_roundtrip_witness:
  "boot_read_roster [stored ''slvr'' (enc (C_map (roster_file two_slaves)))] 0x20040000 = Ret ROSTER_OK two_slaves"
proof (rule roster_roundtrip)
  show "length (rc_s two_slaves) \<le> ROSTER_FILE_MAX" by (simp add: two_slaves_def ROSTER_FILE_MAX_def)
  show "length (enc (C_map (roster_file two_slaves))) \<le> 240" by code_simp
qed simp

section \<open>The pin roles and the credentials are well formed\<close>

text \<open>A fixed-size character array of \<open>n\<close> bytes whose last byte is the closing \<open>NUL\<close>.\<close>

definition terminated :: "nat \<Rightarrow> u8 list \<Rightarrow> bool" where
  "terminated n d \<longleftrightarrow> 0 < n \<and> length d = n \<and> d ! (n - 1) = 0"

lemma copy_text_terminated [simp]: "terminated n d \<Longrightarrow> terminated n (copy_text d s)"
proof -
  assume t: "terminated n d"
  have pos: "0 < n" using t by (simp add: terminated_def)
  consider "n \<le> length s" | "n = length s + 1" | "length s + 1 < n" by linarith
  then show ?thesis
  proof cases
    case 1
    then have "\<not> length s \<le> n - 1" using pos by simp
    then show ?thesis using t 1 by (simp add: terminated_def copy_text_def nth_append min_def)
  next
    case 3
    then have "n - 1 - length s = Suc (n - 2 - length s)" "Suc (length s + (n - 2 - length s)) = n - 1" "\<not> n - 1 < length s" by simp_all
    then show ?thesis using t 3 by (simp add: terminated_def copy_text_def nth_append)
  qed (use t in \<open>simp_all add: terminated_def copy_text_def nth_append min_def\<close>)
qed

lemma replicate_terminated [simp]: "0 < n \<Longrightarrow> terminated n (replicate n 0)"
  by (simp add: terminated_def)

definition adc_wf :: "hwio_adc \<Rightarrow> bool" where
  [inv_defs]: "adc_wf a \<longleftrightarrow> terminated HWIO_LABEL_MAX (ha_label a) \<and> terminated HWIO_UNIT_MAX (ha_unit a)"

definition hwio_wf :: "hwio \<Rightarrow> bool" where
  [inv_defs]: "hwio_wf h \<longleftrightarrow> unat (hw_io_mode h) < 7 \<and> length (hw_pin h) = unat HIL_GPIO_COUNT \<and>
     length (hw_adc h) = HWIO_ADC_NCH \<and> list_all adc_wf (hw_adc h)"

lemma hwio_default_wf: "hwio_wf hwio_default"
  by (simp add: inv_defs hwio_default_def hwio_adc0_def HWIO_MODE_GPIO_def HWIO_LABEL_MAX_def HWIO_UNIT_MAX_def list_all_iff)

lemma adc_field_wf: "adc_wf a \<Longrightarrow> adc_field E a r = Got a' r' \<Longrightarrow> adc_wf a'"
  by (auto simp: adc_field_def field_with_def cbind_Got inv_defs split: if_splits)

lemma parse_adc_entry_wf: "adc_wf a \<Longrightarrow> parse_adc_entry E a r = Got a' r' \<Longrightarrow> adc_wf a'"
  unfolding parse_adc_entry_def err_Got cbind_Got by (blast intro: cbor_loop_inv [of adc_wf] adc_field_wf)

lemma adc_items_wf:
  assumes "cbor_loop n (adc_item E) (j, adc) r = Got (j', adc') r'" "length adc = HWIO_ADC_NCH" "list_all adc_wf adc"
  shows "length adc' = HWIO_ADC_NCH \<and> list_all adc_wf adc'"
proof -
  have "(\<lambda>(j, a). length a = HWIO_ADC_NCH \<and> list_all adc_wf a) (j', adc')"
    using _ _ assms(1)
  proof (rule cbor_loop_inv)
    fix s r s' r'
    assume "(\<lambda>(j, a). length a = HWIO_ADC_NCH \<and> list_all adc_wf a) s" "adc_item E s r = Got s' r'"
    then show "(\<lambda>(j, a). length a = HWIO_ADC_NCH \<and> list_all adc_wf a) s'"
      by (cases s) (auto simp: adc_item_def cbind_Got list_all_length nth_list_update
          dest!: parse_adc_entry_wf [rotated] split: if_splits)
  qed (use assms in simp)
  then show ?thesis by simp
qed

lemma pin_items_len:
  assumes "cbor_loop n pin_item (j, pin) r = Got (j', pin') r'"
  shows "length pin' = length pin"
proof -
  have "(\<lambda>(j, p). length p = length pin) (j', pin')"
    using _ _ assms
    by (rule cbor_loop_inv) (auto simp: pin_item_def cbind_Got split: if_splits)
  then show ?thesis by simp
qed

lemma mode_small: "m < HWIO_MODE_MAX \<Longrightarrow> unat (ucast m :: u8) < 7"
proof -
  assume "m < HWIO_MODE_MAX"
  then have "unat m < 7" by (simp add: HWIO_MODE_MAX_def word_less_nat_alt)
  then show ?thesis by (simp add: unsigned_ucast_eq take_bit_eq_mod)
qed

lemma hwio_field_wf:
  assumes "hwio_wf (hv_tmp s)" and "hwio_field E s r = Got s' r'"
  shows "hwio_wf (hv_tmp s')"
  using assms mode_small
  by (auto simp: hwio_field_def cbind_Got hwio_wf_def not_le pin_items_len dest: adc_items_wf split: if_splits)

text \<open>
  The pin roles a unit comes up with are always safe and in range: unless the file is accepted, they
  are the default (GPIO mode, every pin unused), also when the file is damaged half-way through; an
  accepted file gives one of the seven modes, one byte per pin, and three channel annotations whose
  texts are terminated inside their fields.
\<close>

theorem hwio_safe:
  assumes "boot_read_hwio region E = Ret c out"
  shows "(c = HWIO_OK \<or> out = hwio_default) \<and> hwio_wf out"
proof -
  have f: "hwio_checks s = Ret c out \<Longrightarrow> hwio_wf (hv_tmp s) \<Longrightarrow> (c = HWIO_OK \<or> out = hwio_default) \<and> hwio_wf out" for s
    by (auto simp: hwio_checks_def hwio_default_wf split: if_splits)
  have "hwio_wf (hv_tmp s)" if "cbor_loop n (hwio_field E) hwio_vars0 r = Got s r'" for n r s r'
    by (rule cbor_loop_inv [of "\<lambda>s. hwio_wf (hv_tmp s)", OF _ _ that])
      (auto intro: hwio_field_wf simp: hwio_vars0_def hwio_default_wf)
  then show ?thesis
    using assms f unfolding boot_read_hwio_def
    by (auto dest!: with_file_Ret simp: finish_Ret cbind_Got hwio_default_wf)
qed

definition ap_wf :: "netap \<Rightarrow> bool" where
  [inv_defs]: "ap_wf a \<longleftrightarrow> terminated NETI_SSID_MAX (ap_ssid a) \<and> terminated NETI_PASS_MAX (ap_pass a)"

definition net_wf :: "netcfg \<Rightarrow> bool" where
  [inv_defs]: "net_wf c \<longleftrightarrow> nc_n_ap c \<le> NETI_AP_MAX \<and> length (nc_ip c) = 4 \<and> length (nc_ap c) = NETI_AP_MAX \<and> list_all ap_wf (nc_ap c)"

lemma netcfg0_wf: "net_wf netcfg0"
  by (simp add: inv_defs netcfg0_def netap0_def NETI_SSID_MAX_def NETI_PASS_MAX_def list_all_iff)

lemma ap_field_wf: "ap_wf a \<Longrightarrow> ap_field E a r = Got a' r' \<Longrightarrow> ap_wf a'"
  by (auto simp: ap_field_def field_with_def cbind_Got inv_defs split: if_splits)

lemma parse_ap_wf: "ap_wf a \<Longrightarrow> parse_ap E a r = Got a' r' \<Longrightarrow> ap_wf a'"
  unfolding parse_ap_def cbind_Got by (blast intro: cbor_loop_inv [of ap_wf] ap_field_wf)

lemma ap_items_wf:
  assumes "cbor_loop n (ap_item E) (j, aps) r = Got (j', aps') r'" "length aps = NETI_AP_MAX" "list_all ap_wf aps"
  shows "length aps' = NETI_AP_MAX \<and> list_all ap_wf aps'"
proof -
  have "(\<lambda>(j, a). length a = NETI_AP_MAX \<and> list_all ap_wf a) (j', aps')"
    using _ _ assms(1)
  proof (rule cbor_loop_inv)
    fix s r s' r'
    assume "(\<lambda>(j, a). length a = NETI_AP_MAX \<and> list_all ap_wf a) s" "ap_item E s r = Got s' r'"
    then show "(\<lambda>(j, a). length a = NETI_AP_MAX \<and> list_all ap_wf a) s'"
      by (cases s) (auto simp: ap_item_def cbind_Got list_all_length nth_list_update
          dest!: parse_ap_wf [rotated] split: if_splits)
  qed (use assms in simp)
  then show ?thesis by simp
qed

lemma ap_count_small: "ap_count na \<le> NETI_AP_MAX"
proof (cases "na > word_of_nat NETI_AP_MAX")
  case False
  then have "unat na \<le> 4" by (simp add: NETI_AP_MAX_def word_less_nat_alt not_less)
  then show ?thesis using False by (simp add: ap_count_def unsigned_ucast_eq take_bit_eq_mod NETI_AP_MAX_def)
qed (simp add: ap_count_def)

lemma ap_update_wf:
  assumes "length l = NETI_AP_MAX" "list_all ap_wf l"
  shows "list_all ap_wf (l[0 := (l ! 0)\<lparr>ap_ssid := copy_text (ap_ssid (l ! 0)) s\<rparr>])"
    and "list_all ap_wf (l[0 := (l ! 0)\<lparr>ap_pass := copy_text (ap_pass (l ! 0)) s\<rparr>])"
  using assms by (auto simp: list_all_length nth_list_update ap_wf_def NETI_AP_MAX_def)

lemma net_field_wf:
  assumes "net_wf (fst s)" and "net_field E s r = Got s' r'"
  shows "net_wf (fst s')"
proof -
  have one: "Suc 0 \<le> NETI_AP_MAX" by (simp add: NETI_AP_MAX_def)
  obtain out v seen where s: "s = (out, v, seen)" by (cases s)
  show ?thesis
    using assms one unfolding s net_field_def prod.case cbind_Got
    apply (elim exE conjE)
    apply (simp split: if_splits add: cbind_Got)
    apply (auto simp: net_wf_def ap_update_wf ap_count_small dest: ap_items_wf split: if_splits)
    done
qed

text \<open>
  C34. When the network file is accepted, there is a credential to try: between one and four access
  points, the first with a non-empty name, every name and pass phrase terminated inside its field,
  and a four-byte agent address.
\<close>

theorem netcfg_accepted:
  assumes "boot_parse_netcfg E buf = Ret NETI_OK out"
  shows "nc_present out \<and> 1 \<le> nc_n_ap out \<and> nc_n_ap out \<le> NETI_AP_MAX \<and> ap_ssid (nc_ap out ! 0) ! 0 \<noteq> 0 \<and> net_wf out"
proof -
  have inv: "net_wf (fst s)" if "cbor_loop n (net_field E) (netcfg0, 0, False) r = Got s r'" for n r s r'
    by (rule cbor_loop_inv [of "\<lambda>s. net_wf (fst s)", OF _ _ that]) (auto intro: net_field_wf simp: netcfg0_wf)
  obtain s where s: "net_wf (fst s)" "net_checks s = Ret NETI_OK out"
    using assms unfolding boot_parse_netcfg_def by (auto simp: finish_Ret err_Bad cbind_Got neti_codes dest: inv)
  then show ?thesis by (cases s) (auto simp: net_checks_def neti_codes net_wf_def split: if_splits)
qed

section \<open>Concrete files\<close>

definition pins_file :: "u8 list" where
  "pins_file = enc (C_map [(C_text (key ''v''), C_uint 2), (C_text (key ''m''), C_uint 1),
     (C_text (key ''io''), C_array [C_uint 4, C_uint 0x31])])"

definition bad_pins_file :: "u8 list" where
  "bad_pins_file = enc (C_map [(C_text (key ''v''), C_uint 2), (C_text (key ''io''), C_array [C_uint 4]), (C_text (key ''m''), C_uint 7)])"

lemma pins_small: "length pins_file \<le> 240" "length bad_pins_file \<le> 240"
  by code_simp+

lemma pins_read:
  "boot_read_hwio [stored ''hwio'' pins_file] 0x20040000 = Ret HWIO_OK (hwio_default\<lparr>hw_pin := [4, 0x31, 0, 0, 0, 0, 0, 0]\<rparr>)"
  "boot_read_hwio [stored ''hwio'' bad_pins_file] 0x20040000 = Ret HWIO_ERR_ROLE hwio_default"
  using pins_small by (simp_all add: boot_read_hwio_def with_file_stored) code_simp+

theorem hwio_safe_witness:
  "hwio_wf (hwio_default\<lparr>hw_pin := [4, 0x31, 0, 0, 0, 0, 0, 0]\<rparr>) \<and>
   (HWIO_ERR_ROLE = HWIO_OK \<or> hwio_default = hwio_default)"
  using hwio_safe [OF pins_read(1)] hwio_safe [OF pins_read(2)] by simp

definition net_file :: "u8 list" where
  "net_file = enc (C_map [(C_text (key ''v''), C_uint 2), (C_text (key ''aps''), C_array [C_map [(C_text (key ''ss''), C_text (key ''lab''))]])])"

definition net_result :: netcfg where
  "net_result = netcfg0\<lparr>nc_n_ap := 1, nc_present := True, nc_ap := (nc_ap netcfg0)[0 := netap0\<lparr>ap_ssid := key ''lab'' @ replicate 30 0\<rparr>]\<rparr>"

theorem netcfg_accepted_witness:
  "boot_parse_netcfg 0x20040000 net_file = Ret NETI_OK net_result \<and> net_wf net_result"
proof -
  have r: "boot_parse_netcfg 0x20040000 net_file = Ret NETI_OK net_result" by code_simp
  show ?thesis using r netcfg_accepted [OF r] by blast
qed

end
