(* ===== verification/Hil_Block.thy ===== *)
theory Hil_Block
  imports Boot_Cfg
begin

text \<open>
  The bench block GP2..GP9 of a node (\<^verbatim>\<open>src/app/bus_controller/main.c\<close>): the pin roles frozen at boot, the
  1 kHz samplers (edge counters, input debounce) and the servo bank.

  The globals of the block are the record \<open>hil\<close>; the calls into the SDK (GPIO and PIO set-up) are
  appended to its trace \<open>b_pins\<close>.  The level of all pins, \<open>sio_hw->gpio_in\<close>, is an argument of the samplers.
\<close>

unbundle bit_operations_syntax

definition HWIO_ROLE_UNUSED :: u8 where "HWIO_ROLE_UNUSED = 0"
definition HWIO_ROLE_OC :: u8 where "HWIO_ROLE_OC = 5"
definition HWIO_ROLE_OC_PU :: u8 where "HWIO_ROLE_OC_PU = 6"
definition HWIO_ROLE_MAX :: u8 where "HWIO_ROLE_MAX = 7"
definition SERVO_FRAME_US :: u32 where "SERVO_FRAME_US = 20000"
definition SERVO_MIN_US :: u16 where "SERVO_MIN_US = 500"
definition SERVO_MAX_US :: u16 where "SERVO_MAX_US = 2500"
definition SERVO_MAX :: u8 where "SERVO_MAX = HIL_GPIO_COUNT"

datatype pin_call =
    Pin_init u8 | Pin_put u8 bool | Pin_set_dir u8 bool | Pin_pull_up u8 | Pin_pull_down u8 | Pin_disable_pulls u8
  | Servo_start u8

record hil =
  b_io_mode :: u8
  b_hwio_pin :: "u8 list"
  b_hwio_role :: "u8 list"
  b_deb_depth :: "u8 list"
  b_gpio_sr :: "u16 list"
  b_gpio_raw :: u8
  b_gpio_deb :: u8
  b_gpio_ipol :: u8
  b_pulse_count :: "u32 list"
  b_pulse_mask :: u8
  b_pulse_edge :: "u8 list"
  b_pulse_last :: u8
  b_servo_n :: u8
  b_servo_us :: "u16 list"
  b_servo_frame :: "u32 list"
  b_servo_ready :: bool
  b_pins :: "pin_call list"

text \<open>The block before \<open>hwio_apply\<close>: zeroed globals and their initialisers.\<close>

definition hil0 :: hil where
  "hil0 = \<lparr>b_io_mode = HWIO_MODE_GPIO, b_hwio_pin = replicate 8 0, b_hwio_role = replicate 8 0, b_deb_depth = replicate 8 0,
     b_gpio_sr = replicate 8 0, b_gpio_raw = 0, b_gpio_deb = 0, b_gpio_ipol = 0, b_pulse_count = replicate 8 0, b_pulse_mask = 0,
     b_pulse_edge = replicate 8 0, b_pulse_last = 0, b_servo_n = 0, b_servo_us = replicate 8 1500, b_servo_frame = [],
     b_servo_ready = False, b_pins = []\<rparr>"

definition pin_calls :: "pin_call list \<Rightarrow> hil \<Rightarrow> hil" where
  "pin_calls cs h = h\<lparr>b_pins := b_pins h @ cs\<rparr>"

definition pin_of :: "nat \<Rightarrow> u8" where
  "pin_of i = HIL_GPIO_BASE + word_of_nat i"

section \<open>The servo bank\<close>

text \<open>
  \<open>servo_build\<close> sorts the channels by width with an insertion sort: channel \<open>i\<close> moves left past its neighbours
  while its width is strictly smaller.  The sorted prefix is kept with its last element first.
\<close>

fun servo_sink :: "u16 list \<Rightarrow> nat \<Rightarrow> nat list \<Rightarrow> nat list" where
  "servo_sink us i [] = [i]"
| "servo_sink us i (j # js) = (if us ! i < us ! j then j # servo_sink us i js else i # j # js)"

definition servo_order :: "u16 list \<Rightarrow> nat \<Rightarrow> nat list" where
  "servo_order us n = rev (foldl (\<lambda>acc i. servo_sink us i acc) [] [0..<n])"

text \<open>The words of a frame: \<open>[delay:24][levels:8]\<close>; channels that share a width drop in the same word.\<close>

fun servo_words :: "u16 list \<Rightarrow> u32 \<Rightarrow> u32 \<Rightarrow> nat list \<Rightarrow> u32 list" where
  "servo_words us lv prev [] = [push_bit 8 (SERVO_FRAME_US - prev)]"
| "servo_words us lv prev (i # is) =
     (let w = ucast (us ! i) in
      (if w > prev then [(lv AND 0xFF) OR push_bit 8 (w - prev)] else [])
      @ servo_words us (lv AND NOT (push_bit i 1)) (if w > prev then w else prev) is)"

definition servo_build :: "hil \<Rightarrow> hil" where
  "servo_build h =
     (let n = unat (b_servo_n h) in
      if n = 0 then h\<lparr>b_servo_frame := []\<rparr>
      else h\<lparr>b_servo_frame := servo_words (b_servo_us h) (push_bit n 1 - 1) 0 (servo_order (b_servo_us h) n)\<rparr>)"

definition servo_set_n :: "u8 \<Rightarrow> hil \<Rightarrow> hil" where
  "servo_set_n n h = (if n = 0 \<or> n > SERVO_MAX then h
     else (servo_build (pin_calls [Servo_start n] (h\<lparr>b_servo_n := n\<rparr>)))\<lparr>b_servo_ready := True\<rparr>)"

definition servo_stop_all :: "hil \<Rightarrow> hil" where
  "servo_stop_all h = (if b_servo_n h = 0 then h
     else pin_calls (map (\<lambda>i. Pin_init (pin_of i)) [0..<unat (b_servo_n h)])
       (h\<lparr>b_servo_ready := False, b_servo_n := 0, b_servo_frame := []\<rparr>))"

section \<open>Applying the frozen roles\<close>

definition apply_pin_gpio :: "nat \<Rightarrow> u8 \<Rightarrow> hil \<Rightarrow> hil" where
  "apply_pin_gpio idx role h =
     (let pin = pin_of idx in pin_calls
       (if role = HWIO_ROLE_INPUT \<or> role = HWIO_ROLE_UNUSED \<or> role = HWIO_ROLE_OC
        then [Pin_init pin, Pin_set_dir pin False, Pin_disable_pulls pin]
        else if role = HWIO_ROLE_INPUT_PULLUP \<or> role = HWIO_ROLE_OC_PU
        then [Pin_init pin, Pin_set_dir pin False, Pin_pull_up pin]
        else if role = HWIO_ROLE_INPUT_PULLDOWN then [Pin_init pin, Pin_set_dir pin False, Pin_pull_down pin]
        else if role = HWIO_ROLE_OUTPUT then [Pin_init pin, Pin_put pin False, Pin_set_dir pin True]
        else []) h)"

definition apply_pin_counter :: "(u8 \<Rightarrow> bool) \<Rightarrow> nat \<Rightarrow> u8 \<Rightarrow> hil \<Rightarrow> hil" where
  "apply_pin_counter gpio_get idx byte h =
     (let pin = pin_of idx; b = push_bit idx (1 :: u8) in
      if byte AND 1 = 0 then apply_pin_gpio idx HWIO_ROLE_UNUSED h
      else (let pull = drop_bit 1 byte AND 3; edge = drop_bit 3 byte AND 3;
                h1 = pin_calls [Pin_init pin, Pin_set_dir pin False,
                       if pull = 1 then Pin_pull_up pin else if pull = 2 then Pin_pull_down pin else Pin_disable_pulls pin] h
            in h1\<lparr>b_pulse_edge := (b_pulse_edge h1)[idx := if edge \<le> 2 then edge else 0],
                  b_pulse_last := (b_pulse_last h1 AND NOT b) OR (if gpio_get pin then b else 0),
                  b_pulse_mask := b_pulse_mask h1 OR b\<rparr>))"

definition gpio_pin :: "u8 \<Rightarrow> nat \<Rightarrow> hil \<Rightarrow> hil" where
  "gpio_pin byte i h =
     (let role = byte AND 0x0F; role = (if role \<ge> HWIO_ROLE_MAX then HWIO_ROLE_UNUSED else role)
      in apply_pin_gpio i role (h\<lparr>b_hwio_role := (b_hwio_role h)[i := role],
           b_deb_depth := (b_deb_depth h)[i := drop_bit 4 byte AND 0x0F], b_gpio_sr := (b_gpio_sr h)[i := 0]\<rparr>))"

definition hwio_apply :: "(u8 \<Rightarrow> bool) \<Rightarrow> hwio \<Rightarrow> hil \<Rightarrow> hil" where
  "hwio_apply gpio_get hw h =
     (let idxs = [0..<unat HIL_GPIO_COUNT];
          h1 = h\<lparr>b_io_mode := hw_io_mode hw, b_hwio_pin := map (\<lambda>i. hw_pin hw ! i) idxs,
                 b_hwio_role := map (\<lambda>_. HWIO_ROLE_UNUSED) idxs\<rparr> in
      if hw_io_mode hw = HWIO_MODE_GPIO then fold (\<lambda>i. gpio_pin (hw_pin hw ! i) i) idxs h1
      else if hw_io_mode hw = HWIO_MODE_COUNTER then fold (\<lambda>i. apply_pin_counter gpio_get i (hw_pin hw ! i)) idxs h1
      else if hw_io_mode hw = HWIO_MODE_SERVO then
        (let servo_n = length (takeWhile (\<lambda>i. hw_pin hw ! i AND 1 \<noteq> 0) idxs)
         in if servo_n \<noteq> 0 then servo_set_n (word_of_nat servo_n) h1 else h1)
      else fold (\<lambda>i. apply_pin_gpio i HWIO_ROLE_UNUSED) idxs h1)"

definition hil_role_of :: "u8 \<Rightarrow> hil \<Rightarrow> u8" where
  "hil_role_of pin h = (if pin \<ge> HIL_GPIO_BASE \<and> pin < HIL_GPIO_BASE + HIL_GPIO_COUNT
     then b_hwio_role h ! unat (pin - HIL_GPIO_BASE) else HWIO_ROLE_UNUSED)"

section \<open>The 1 kHz samplers\<close>

definition block_levels :: "u32 \<Rightarrow> u8" where
  "block_levels gpio_in = foldl (\<lambda>now i. if gpio_in AND push_bit (unat HIL_GPIO_BASE + i) 1 \<noteq> 0 then now OR push_bit i 1 else now)
     0 [0..<unat HIL_GPIO_COUNT]"

definition pulse_hit :: "u8 \<Rightarrow> u8 \<Rightarrow> u8 \<Rightarrow> u8 \<Rightarrow> bool" where
  "pulse_hit edge was now b \<longleftrightarrow>
     (let changed = now XOR was; rose = changed AND now; fell = changed AND NOT now in
      edge = 0 \<and> rose AND b \<noteq> 0 \<or> edge = 1 \<and> fell AND b \<noteq> 0 \<or> edge = 2 \<and> changed AND b \<noteq> 0)"

definition pulse_sample_1khz :: "u32 \<Rightarrow> hil \<Rightarrow> hil" where
  "pulse_sample_1khz gpio_in h =
     (if b_pulse_mask h = 0 then h
      else (let now = block_levels gpio_in in
        h\<lparr>b_pulse_count := map (\<lambda>i. if b_pulse_mask h AND push_bit i 1 = 0 then b_pulse_count h ! i
            else if pulse_hit (b_pulse_edge h ! i) (b_pulse_last h) now (push_bit i 1) then b_pulse_count h ! i + 1
            else b_pulse_count h ! i) [0..<unat HIL_GPIO_COUNT],
          b_pulse_last := now\<rparr>))"

text \<open>One pin of the debounce: the new debounced bitmap and the pin's shift register.\<close>

definition gpio_debounce :: "u8 \<Rightarrow> u8 \<Rightarrow> u16 \<Rightarrow> nat \<Rightarrow> u8 \<Rightarrow> u8 \<times> u16" where
  "gpio_debounce raw depth sr i deb =
     (let b = push_bit i (1 :: u8); rawbit = raw AND b \<noteq> 0 in
      if depth < 2 then (if rawbit then deb OR b else deb AND NOT b, sr)
      else (let m = push_bit (unat depth) (1 :: u16) - 1;
                sr' = (push_bit 1 sr OR (if rawbit then 1 else 0)) AND m
            in (if sr' = m then deb OR b else if sr' = 0 then deb AND NOT b else deb, sr')))"

definition gpio_sample_1khz :: "u32 \<Rightarrow> hil \<Rightarrow> hil" where
  "gpio_sample_1khz gpio_in h =
     (if b_io_mode h \<noteq> HWIO_MODE_GPIO then h
      else (let raw = block_levels gpio_in XOR b_gpio_ipol h;
                step = (\<lambda>i (deb, srs). case gpio_debounce raw (b_deb_depth h ! i) (srs ! i) i deb of (deb', sr') \<Rightarrow> (deb', srs[i := sr']));
                (deb, srs) = fold step [0..<unat HIL_GPIO_COUNT] (b_gpio_deb h, b_gpio_sr h)
            in h\<lparr>b_gpio_sr := srs, b_gpio_raw := raw, b_gpio_deb := deb\<rparr>))"

section \<open>What the servo bank drives\<close>

text \<open>
  The state machine of \<^verbatim>\<open>src/port/rp2040/servo_bank.pio\<close> runs at one cycle a microsecond: \<open>out pins, 8\<close>,
  \<open>out x, 24\<close> and then \<open>jmp x--\<close>, which is executed once more than the delay.  \<open>servo_level\<close> is the level
  of output \<open>i\<close> in microsecond \<open>t\<close> of the frame.
\<close>

definition servo_hold :: "u32 \<Rightarrow> nat" where
  "servo_hold w = unat (drop_bit 8 w) + 3"

fun servo_level :: "u32 list \<Rightarrow> nat \<Rightarrow> nat \<Rightarrow> bool" where
  "servo_level [] t i \<longleftrightarrow> False"
| "servo_level (w # ws) t i \<longleftrightarrow> (if t < servo_hold w then bit w i else servo_level ws (t - servo_hold w) i)"

definition servo_steps :: "u16 list \<Rightarrow> nat set \<Rightarrow> nat \<Rightarrow> nat \<Rightarrow> nat" where
  "servo_steps us S a b = card ((\<lambda>k. unat (us ! k)) ` S \<inter> {a<..b})"

lemma servo_sink_set: "set (servo_sink us i acc) = insert i (set acc)"
  by (induction acc) auto

lemma servo_sink_distinct: "distinct acc \<Longrightarrow> i \<notin> set acc \<Longrightarrow> distinct (servo_sink us i acc)"
  by (induction acc) (auto simp: servo_sink_set)

lemma servo_sink_sorted:
  "sorted_wrt (\<lambda>a b. us ! b \<le> us ! a) acc \<Longrightarrow> sorted_wrt (\<lambda>a b. us ! b \<le> us ! a) (servo_sink us i acc)"
  by (induction acc) (auto simp: servo_sink_set)

lemma servo_fold_props:
  "set (foldl (\<lambda>acc i. servo_sink us i acc) [] [0..<n]) = {..<n}
   \<and> distinct (foldl (\<lambda>acc i. servo_sink us i acc) [] [0..<n])
   \<and> sorted_wrt (\<lambda>a b. us ! b \<le> us ! a) (foldl (\<lambda>acc i. servo_sink us i acc) [] [0..<n])"
proof (induction n)
  case (Suc n)
  then show ?case by (simp add: servo_sink_set servo_sink_distinct servo_sink_sorted lessThan_Suc)
qed simp

lemma servo_order_set: "set (servo_order us n) = {..<n}"
  and servo_order_distinct: "distinct (servo_order us n)"
  and servo_order_sorted: "sorted_wrt (\<lambda>a b. us ! a \<le> us ! b) (servo_order us n)"
  using servo_fold_props [of us n] by (simp_all add: servo_order_def sorted_wrt_rev)

lemma servo_steps_cons:
  assumes "finite S" "\<And>k. k \<in> S \<Longrightarrow> unat (us ! j) \<le> unat (us ! k)" "p < unat (us ! j)" "unat (us ! j) \<le> b"
  shows "servo_steps us (insert j S) p b = Suc (servo_steps us S (unat (us ! j)) b)"
proof -
  have "(\<lambda>k. unat (us ! k)) ` insert j S \<inter> {p<..b} = insert (unat (us ! j)) ((\<lambda>k. unat (us ! k)) ` S \<inter> {unat (us ! j)<..b})"
    using assms(2-) by (fastforce simp: order_le_less)
  then show ?thesis using assms(1) by (simp add: servo_steps_def)
qed

lemma servo_steps_skip: "\<not> p < unat (us ! j) \<Longrightarrow> servo_steps us (insert j S) p b = servo_steps us S p b"
  unfolding servo_steps_def by (rule arg_cong [where f = card]) auto

lemma mask8_u32: "(0xFF :: u32) = Bit_Operations.mask 8"
  by (simp add: mask_eq_exp_minus_1)

lemma servo_word_bit: "i < 8 \<Longrightarrow> bit ((lv AND 0xFF) OR push_bit 8 d :: u32) i = bit lv i"
  unfolding mask8_u32 by (auto simp: bit_simps)

lemma servo_word_hold:
  assumes "unat d < 2 ^ 16"
  shows "servo_hold ((lv AND 0xFF) OR push_bit 8 d :: u32) = unat d + 3"
proof -
  have m: "d = take_bit 16 d"
    using assms by (intro word_unat_eq_iff [THEN iffD2]) (simp add: unsigned_take_bit_eq take_bit_nat_eq_self)
  have lo: "bit d k \<Longrightarrow> k < 16" for k by (subst (asm) m) (simp add: bit_simps)
  have "drop_bit 8 ((lv AND 0xFF) OR push_bit 8 d) = d"
    unfolding mask8_u32 by (rule bit_eqI) (auto simp: bit_simps dest: lo)
  then show ?thesis by (simp add: servo_hold_def)
qed

lemma servo_drop_bit:
  assumes "distinct (j # js)" "\<And>k. k < 8 \<Longrightarrow> bit lv k \<longleftrightarrow> k \<in> set (j # js)" "k < 8"
  shows "bit (lv AND NOT (push_bit j 1) :: u32) k \<longleftrightarrow> k \<in> set js"
  using assms by (auto simp: bit_simps)

lemma servo_words_fall:
  assumes w: "prev < (ucast (us ! j) :: u32)" and "i < 8"
  defines "h \<equiv> unat (us ! j) - unat prev + 3"
  shows "servo_level (servo_words us lv prev (j # js)) t i \<longleftrightarrow>
    (if t < h then bit lv i else servo_level (servo_words us (lv AND NOT (push_bit j 1)) (ucast (us ! j)) js) (t - h) i)"
proof -
  have sub: "unat (ucast (us ! j) - prev) = unat (us ! j) - unat prev"
    using w by (simp add: unat_sub word_less_nat_alt word_le_nat_alt)
  have "servo_hold ((lv AND 0xFF) OR push_bit 8 (ucast (us ! j) - prev)) = h"
    using servo_word_hold [of "ucast (us ! j) - prev" lv] sub
      le_less_trans [OF diff_le_self unat_u16_less, of "us ! j" "unat prev"] by (simp add: h_def)
  then show ?thesis using w \<open>i < 8\<close> by (simp add: Let_def servo_word_bit)
qed

text \<open>
  The words from any point of the loop: a channel that is still high stays so for the rest of its width, plus the
  three ticks each word costs the state machine.
\<close>

lemma servo_words_level:
  assumes "sorted_wrt (\<lambda>a b. us ! a \<le> us ! b) is" "distinct is" "\<And>k. k < 8 \<Longrightarrow> bit lv k \<longleftrightarrow> k \<in> set is"
    and "\<And>k. k \<in> set is \<Longrightarrow> prev \<le> ucast (us ! k)" "i < 8" "set is \<subseteq> {..<8}"
  shows "servo_level (servo_words us lv prev is) t i \<longleftrightarrow>
    i \<in> set is \<and> unat prev < unat (us ! i) \<and> t < unat (us ! i) - unat prev + 3 * servo_steps us (set is) (unat prev) (unat (us ! i))"
  using assms
proof (induction us lv prev "is" arbitrary: t rule: servo_words.induct)
  case (1 us lv prev)
  then show ?case by (simp add: bit_simps)
next
  case (2 us lv prev j js)
  let ?w = "ucast (us ! j) :: u32"
  note lv = servo_drop_bit [OF "2.prems"(2,3)]
  have ge: "unat (us ! j) \<le> unat (us ! k)" if "k \<in> set (j # js)" for k
    using "2.prems"(1) that by (auto simp: word_le_nat_alt)
  show ?case
  proof (cases "?w > prev")
    case False
    then have w: "?w = prev" using "2.prems"(4) [of j] by simp
    then have u: "unat prev = unat (us ! j)" by (simp flip: w)
    have "servo_level (servo_words us lv prev (j # js)) t i \<longleftrightarrow> i \<in> set js \<and> unat prev < unat (us ! i)
        \<and> t < unat (us ! i) - unat prev + 3 * servo_steps us (set js) (unat prev) (unat (us ! i))"
      using "2.IH" [OF refl, of t] False lv "2.prems" by (simp add: w)
    then show ?thesis using u by (auto simp: servo_steps_skip)
  next
    case True
    then have u: "unat prev < unat (us ! j)" by (simp add: word_less_nat_alt)
    let ?s = "servo_steps us (set js) (unat (us ! j)) (unat (us ! i))"
    have lvl: "servo_level (servo_words us lv prev (j # js)) t i \<longleftrightarrow> (if t < unat (us ! j) - unat prev + 3 then i \<in> set (j # js)
        else i \<in> set js \<and> unat (us ! j) < unat (us ! i)
          \<and> t - (unat (us ! j) - unat prev + 3) < unat (us ! i) - unat (us ! j) + 3 * ?s)"
      unfolding servo_words_fall [OF True "2.prems"(5)]
      using "2.IH" [OF refl] True lv "2.prems" ge by (simp add: word_le_nat_alt)
    have "servo_steps us (set (j # js)) (unat prev) (unat (us ! i)) = Suc ?s" if "i \<in> set (j # js)"
      using servo_steps_cons [of "set js" us j "unat prev" "unat (us ! i)"] ge [OF that] ge u by simp
    moreover have "?s = 0" if "unat (us ! i) = unat (us ! j)"
      by (simp add: servo_steps_def that)
    ultimately show ?thesis using lvl u ge [of i] by (cases "i \<in> set (j # js)") (auto simp: order_le_less split: if_splits)
  qed
qed

text \<open>
  C37. Every channel of the servo bank is raised at the start of the frame and falls exactly at its width, stretched by
  three microseconds for each distinct width up to its own: the state machine spends two cycles on the
  \<^verbatim>\<open>out\<close> instructions and one more than the delay on the loop.  Channels that are not armed stay low.
\<close>

theorem servo_frame_exact:
  assumes "0 < b_servo_n h" "b_servo_n h \<le> SERVO_MAX" "length (b_servo_us h) = 8" "0 \<notin> set (b_servo_us h)" "i < 8"
  shows "servo_level (b_servo_frame (servo_build h)) t i \<longleftrightarrow>
    i < unat (b_servo_n h)
    \<and> t < unat (b_servo_us h ! i)
        + 3 * length (remdups (filter (\<lambda>w. w \<le> b_servo_us h ! i) (take (unat (b_servo_n h)) (b_servo_us h))))"
proof -
  let ?us = "b_servo_us h" and ?n = "unat (b_servo_n h)"
  have n: "0 < ?n" "?n \<le> 8"
    using assms(1,2) by (simp_all add: SERVO_MAX_def HIL_GPIO_COUNT_def word_le_nat_alt unat_gt_0 word_neq_0_conv)
  have pos: "0 < unat (?us ! j)" if "j < ?n" for j
  proof -
    have "?us ! j \<in> set ?us" using assms(3) n(2) that by simp
    with assms(4) show ?thesis by (metis unat_gt_0)
  qed
  have lv: "bit (push_bit ?n 1 - 1 :: u32) k \<longleftrightarrow> k < ?n" if "k < 8" for k
    using n(2) that by (simp add: push_bit_eq_mult bit_mask_iff flip: mask_eq_exp_minus_1)
  have st: "set (take ?n ?us) = (\<lambda>k. ?us ! k) ` {..<?n}"
    using nth_image [of ?n ?us] assms(3) n(2) by (simp add: lessThan_atLeast0)
  have "(\<lambda>k. unat (?us ! k)) ` {..<?n} \<inter> {0<..unat (?us ! i)} = unat ` set (filter (\<lambda>w. w \<le> ?us ! i) (take ?n ?us))"
    unfolding set_filter st by (auto simp: word_le_nat_alt pos)
  then have "servo_steps ?us {..<?n} 0 (unat (?us ! i)) = length (remdups (filter (\<lambda>w. w \<le> ?us ! i) (take ?n ?us)))"
    unfolding servo_steps_def length_remdups_card_conv by (simp only: card_image [OF unat_inj_on])
  moreover have "b_servo_frame (servo_build h) = servo_words ?us (push_bit ?n 1 - 1) 0 (servo_order ?us ?n)"
    using n(1) by (simp add: servo_build_def Let_def)
  ultimately show ?thesis
    using servo_words_level [OF servo_order_sorted servo_order_distinct, of "push_bit ?n 1 - 1" ?us ?n 0 i t] n(2) lv pos assms(5)
    by (auto simp: servo_order_set)
qed

theorem servo_frame_exact_witness:
  "servo_level (b_servo_frame (servo_build (hil0\<lparr>b_servo_n := 3, b_servo_us := [1500, 1000, 1500, 900, 900, 900, 900, 900]\<rparr>))) 1505 2"
  using servo_frame_exact [of "hil0\<lparr>b_servo_n := 3, b_servo_us := [1500, 1000, 1500, 900, 900, 900, 900, 900]\<rparr>" 2 1505]
  by (simp add: SERVO_MAX_def HIL_GPIO_COUNT_def)

section \<open>Invariant of the block\<close>

text \<open>
  The arrays keep their length, the armed servos are at most the eight pins of the block with widths within one
  frame, and the frame fits \<open>g_servo_frame\<close> (nine words).  The frozen configuration (\<open>frozen\<close>) is what no
  operation after boot may change.
\<close>

definition hil_inv :: "hil \<Rightarrow> bool" where
  "hil_inv h \<longleftrightarrow> length (b_hwio_pin h) = 8 \<and> length (b_hwio_role h) = 8 \<and> length (b_deb_depth h) = 8 \<and> length (b_gpio_sr h) = 8
     \<and> length (b_pulse_count h) = 8 \<and> length (b_pulse_edge h) = 8 \<and> length (b_servo_us h) = 8
     \<and> b_servo_n h \<le> SERVO_MAX \<and> (\<forall>w \<in> set (b_servo_us h). SERVO_MIN_US \<le> w \<and> w \<le> SERVO_MAX_US)
     \<and> length (b_servo_frame h) \<le> 9"

definition frozen :: "hil \<Rightarrow> u8 \<times> u8 list \<times> u8 list \<times> u8 list" where
  "frozen h = (b_io_mode h, b_hwio_pin h, b_hwio_role h, b_deb_depth h)"

lemma hil0_inv: "hil_inv hil0"
  by (simp add: hil_inv_def hil0_def SERVO_MAX_def HIL_GPIO_COUNT_def SERVO_MIN_US_def SERVO_MAX_US_def)

lemma servo_words_length: "length (servo_words us lv prev is) \<le> Suc (length is)"
  by (induction us lv prev "is" rule: servo_words.induct) (auto simp: Let_def)

lemma servo_order_length: "length (servo_order us n) = n"
  using distinct_card [OF servo_order_distinct, of us n] by (simp add: servo_order_set)

lemma servo_build_inv:
  assumes "hil_inv h"
  shows "hil_inv (servo_build h)"
proof -
  have "unat (b_servo_n h) \<le> 8"
    using assms by (simp add: hil_inv_def SERVO_MAX_def HIL_GPIO_COUNT_def word_le_nat_alt)
  then show ?thesis
    using assms servo_words_length [of "b_servo_us h" "push_bit (unat (b_servo_n h)) 1 - 1" 0 "servo_order (b_servo_us h) (unat (b_servo_n h))"]
    by (simp add: hil_inv_def servo_build_def Let_def servo_order_length)
qed

lemma servo_build_frozen [simp]: "frozen (servo_build h) = frozen h"
  by (simp add: frozen_def servo_build_def Let_def)

lemma pin_calls_inv [simp]: "hil_inv (pin_calls cs h) = hil_inv h"
  by (simp add: hil_inv_def pin_calls_def)

lemma pin_calls_frozen [simp]: "frozen (pin_calls cs h) = frozen h"
  by (simp add: frozen_def pin_calls_def)

lemma servo_set_n_inv: "hil_inv h \<Longrightarrow> hil_inv (servo_set_n n h)"
proof (cases "n = 0 \<or> n > SERVO_MAX")
  case False
  assume "hil_inv h"
  with False have "hil_inv (servo_build (pin_calls [Servo_start n] (h\<lparr>b_servo_n := n\<rparr>)))"
    by (intro servo_build_inv) (simp add: hil_inv_def pin_calls_def linorder_not_less)
  with False show ?thesis by (simp add: servo_set_n_def hil_inv_def)
qed (simp add: servo_set_n_def)

lemma servo_stop_all_inv: "hil_inv h \<Longrightarrow> hil_inv (servo_stop_all h)"
  by (simp add: servo_stop_all_def hil_inv_def pin_calls_def)

lemma servo_stop_all_frozen [simp]: "frozen (servo_stop_all h) = frozen h"
  by (simp add: servo_stop_all_def frozen_def pin_calls_def)

lemma apply_pin_gpio_inv: "hil_inv h \<Longrightarrow> hil_inv (apply_pin_gpio i r h)"
  by (simp add: apply_pin_gpio_def Let_def)

lemma apply_pin_counter_inv: "hil_inv h \<Longrightarrow> hil_inv (apply_pin_counter g i byte h)"
  by (simp add: apply_pin_counter_def Let_def apply_pin_gpio_inv) (simp add: hil_inv_def pin_calls_def)

lemma gpio_pin_inv: "hil_inv h \<Longrightarrow> hil_inv (gpio_pin byte i h)"
  unfolding gpio_pin_def Let_def by (rule apply_pin_gpio_inv) (simp add: hil_inv_def)

lemma fold_inv: "P x \<Longrightarrow> (\<And>i y. P y \<Longrightarrow> P (f i y)) \<Longrightarrow> P (fold f is x)"
  by (induction "is" arbitrary: x) auto

lemma hwio_apply_inv:
  assumes "hil_inv h"
  shows "hil_inv (hwio_apply g hw h)"
proof -
  define h1 where "h1 = h\<lparr>b_io_mode := hw_io_mode hw, b_hwio_pin := map (\<lambda>i. hw_pin hw ! i) [0..<unat HIL_GPIO_COUNT],
      b_hwio_role := map (\<lambda>_. HWIO_ROLE_UNUSED) [0..<unat HIL_GPIO_COUNT]\<rparr>"
  have h1: "hil_inv h1" using assms by (simp add: hil_inv_def h1_def HIL_GPIO_COUNT_def)
  show ?thesis unfolding hwio_apply_def Let_def h1_def [symmetric]
    by (auto intro!: fold_inv [of hil_inv] h1 gpio_pin_inv apply_pin_counter_inv apply_pin_gpio_inv servo_set_n_inv)
qed

lemma pulse_sample_inv: "hil_inv h \<Longrightarrow> hil_inv (pulse_sample_1khz g h)"
  by (simp add: pulse_sample_1khz_def hil_inv_def Let_def HIL_GPIO_COUNT_def)

lemma pulse_sample_frozen [simp]: "frozen (pulse_sample_1khz g h) = frozen h"
  by (simp add: pulse_sample_1khz_def frozen_def Let_def)

lemma debounce_fold_length:
  "length (snd (fold (\<lambda>i (deb, srs). case gpio_debounce raw (d ! i) (srs ! i) i deb of (deb', sr') \<Rightarrow> (deb', srs[i := sr'])) is (deb0, srs0)))
   = length srs0"
  by (induction "is" arbitrary: deb0 srs0) (simp_all split: prod.splits)

lemma gpio_sample_inv:
  assumes "hil_inv h"
  shows "hil_inv (gpio_sample_1khz g h)"
proof -
  have "length (snd (fold (\<lambda>i (deb, srs). case gpio_debounce (block_levels g XOR b_gpio_ipol h) (b_deb_depth h ! i) (srs ! i) i deb of
      (deb', sr') \<Rightarrow> (deb', srs[i := sr'])) [0..<unat HIL_GPIO_COUNT] (b_gpio_deb h, b_gpio_sr h))) = 8"
    using assms by (simp add: debounce_fold_length hil_inv_def)
  then show ?thesis using assms
    by (auto simp: gpio_sample_1khz_def hil_inv_def Let_def split: prod.splits)
qed

lemma gpio_sample_frozen [simp]: "frozen (gpio_sample_1khz g h) = frozen h"
  by (simp add: gpio_sample_1khz_def frozen_def Let_def split: prod.splits)

section \<open>The edge counters\<close>

text \<open>The edges of the selected kind in a sequence of levels (0 rising, 1 falling, 2 both).\<close>

fun edges :: "u8 \<Rightarrow> bool \<Rightarrow> bool list \<Rightarrow> nat" where
  "edges kind p [] = 0"
| "edges kind p (q # qs) =
     (if kind = 0 \<and> \<not> p \<and> q \<or> kind = 1 \<and> p \<and> \<not> q \<or> kind = 2 \<and> p \<noteq> q then 1 else 0) + edges kind q qs"

lemma and_push_bit_1: "i < LENGTH('a) \<Longrightarrow> (x :: 'a :: len word) AND push_bit i 1 = 0 \<longleftrightarrow> \<not> bit x i"
  by (metis and_exp_eq_0_iff_not_bit push_bit_eq_mult mult_1)

lemma levels_fold_bit:
  "k < 8 \<Longrightarrow> n \<le> 8 \<Longrightarrow>
   bit (foldl (\<lambda>now i. if gpio_in AND push_bit (2 + i) (1 :: u32) \<noteq> 0 then now OR push_bit i (1 :: u8) else now) now0 [0..<n]) k
   \<longleftrightarrow> bit now0 k \<or> k < n \<and> bit gpio_in (2 + k)"
proof (induction n)
  case (Suc n)
  then show ?case by (auto simp: and_push_bit_1 bit_simps less_Suc_eq simp del: push_bit_of_1 add_2_eq_Suc push_bit_Suc)
qed simp

lemma block_levels_bit: "i < 8 \<Longrightarrow> bit (block_levels g) i = bit g (2 + i)"
  unfolding block_levels_def by (simp add: HIL_GPIO_BASE_def HIL_GPIO_COUNT_def levels_fold_bit del: push_bit_of_1 add_2_eq_Suc push_bit_Suc)

lemma pulse_hit_iff:
  "i < 8 \<Longrightarrow> pulse_hit kind was now (push_bit i 1) \<longleftrightarrow>
     kind = 0 \<and> \<not> bit was i \<and> bit now i \<or> kind = 1 \<and> bit was i \<and> \<not> bit now i \<or> kind = 2 \<and> bit was i \<noteq> bit now i"
  by (auto simp: pulse_hit_def Let_def and_push_bit_1 bit_simps simp del: push_bit_of_1)

lemma pulse_sample_step:
  assumes "i < 8" "bit (b_pulse_mask h) i"
  shows "b_pulse_count (pulse_sample_1khz g h) ! i
      = b_pulse_count h ! i + of_nat (edges (b_pulse_edge h ! i) (bit (b_pulse_last h) i) [bit g (2 + i)])"
    and "bit (b_pulse_last (pulse_sample_1khz g h)) i = bit g (2 + i)"
    and "b_pulse_mask (pulse_sample_1khz g h) = b_pulse_mask h"
    and "b_pulse_edge (pulse_sample_1khz g h) = b_pulse_edge h"
proof -
  have "b_pulse_mask h \<noteq> 0" using assms(2) by auto
  then show "b_pulse_count (pulse_sample_1khz g h) ! i
      = b_pulse_count h ! i + of_nat (edges (b_pulse_edge h ! i) (bit (b_pulse_last h) i) [bit g (2 + i)])"
    and "bit (b_pulse_last (pulse_sample_1khz g h)) i = bit g (2 + i)"
    and "b_pulse_mask (pulse_sample_1khz g h) = b_pulse_mask h"
    and "b_pulse_edge (pulse_sample_1khz g h) = b_pulse_edge h"
    using assms by (auto simp: pulse_sample_1khz_def Let_def HIL_GPIO_COUNT_def and_push_bit_1 pulse_hit_iff block_levels_bit
      simp del: push_bit_of_1 add_2_eq_Suc)
qed

text \<open>
  C. An enabled counter holds, modulo \<open>2 ^ 32\<close>, its previous total plus the number of edges of its kind in the
  sampled levels of its pin, for any sequence of 1 kHz samples.
\<close>

theorem pulse_count_exact:
  assumes "i < 8" "bit (b_pulse_mask h) i"
  shows "b_pulse_count (fold pulse_sample_1khz gs h) ! i
    = b_pulse_count h ! i + of_nat (edges (b_pulse_edge h ! i) (bit (b_pulse_last h) i) (map (\<lambda>g. bit g (2 + i)) gs))"
  using assms
proof (induction gs arbitrary: h)
  case (Cons g gs)
  then show ?case using pulse_sample_step [OF Cons.prems] by (simp add: add.assoc)
qed simp

theorem pulse_count_exact_witness:
  "b_pulse_count (fold pulse_sample_1khz [0x04, 0, 0x0C, 0x04] (hil0\<lparr>b_pulse_mask := 1, b_pulse_edge := [2, 0, 0, 0, 0, 0, 0, 0]\<rparr>)) ! 0 = 3"
proof -
  have "bit (4 :: u32) 2" "bit (0xC :: u32) 2" by (simp_all add: bit_numeral_rec)
  then show ?thesis
    using pulse_count_exact [of 0 "hil0\<lparr>b_pulse_mask := 1, b_pulse_edge := [2, 0, 0, 0, 0, 0, 0, 0]\<rparr>" "[0x04, 0, 0x0C, 0x04]"]
    by (simp add: hil0_def)
qed

end
