(* ===== verification/Adc_Service.thy ===== *)
theory Adc_Service
  imports Hil_Block
begin

text \<open>
  The central ADC service of \<^verbatim>\<open>src/app/bus_controller/main.c\<close>: the FIFO interrupt handler, its boxcar decimator, the
  three tiers of window statistics and the integer square root they use.

  The globals are the record \<open>adc\<close>; the samples an interrupt drains from the FIFO are an argument of the handler,
  each with the pin levels (\<open>sio_hw->gpio_in\<close>) at that moment, and so is the sticky overrun flag.  The fast-tick
  hooks \<open>kb0_on_fast_tick\<close> \<dots> are the weak no-ops of the file.
\<close>

unbundle bit_operations_syntax

section \<open>Integer square root\<close>

function isqrt_start :: "u32 \<Rightarrow> u32 \<Rightarrow> u32" where
  "isqrt_start x one = (if one > x then isqrt_start x (drop_bit 2 one) else one)"
  by auto

lemma drop_bit_2_less: "0 < (w :: u32) \<Longrightarrow> unat (drop_bit 2 w) < unat w"
  by (simp add: drop_bit_eq_div unat_div word_less_nat_alt)

termination isqrt_start
  by (relation "measure (\<lambda>(x, one). unat one)")
    (auto intro!: drop_bit_2_less intro: order.strict_trans1 [OF word_zero_le])

function isqrt_loop :: "u32 \<Rightarrow> u32 \<Rightarrow> u32 \<Rightarrow> u32" where
  "isqrt_loop x res one =
     (if one = 0 then res
      else if x \<ge> res + one then isqrt_loop (x - (res + one)) (drop_bit 1 (res + push_bit 1 one)) (drop_bit 2 one)
      else isqrt_loop x (drop_bit 1 res) (drop_bit 2 one))"
  by auto

termination isqrt_loop
  by (relation "measure (\<lambda>(x, res, one). unat one)") (auto simp: word_neq_0_conv intro!: drop_bit_2_less)

definition isqrt32 :: "u32 \<Rightarrow> u16" where
  "isqrt32 v = ucast (isqrt_loop v 0 (isqrt_start v (push_bit 30 1)))"

declare isqrt_start.simps [simp del] isqrt_loop.simps [simp del]

section \<open>State\<close>

definition ADC_BOXCAR :: nat where "ADC_BOXCAR = 16"
definition ADC_NWIN :: u8 where "ADC_NWIN = 3"
definition ADC_WIN_10HZ :: nat where "ADC_WIN_10HZ = 2"
definition g_adc_win_len :: "u16 list" where "g_adc_win_len = [16, 160, 1600]"

record adc_accum =
  a_min :: u16
  a_max :: u16
  a_sum :: u32
  a_sumsq :: u64
  a_count :: u16

record adc =
  g_adc_latest :: "u16 list"
  g_adc_decim_count :: u32
  g_adc_resyncs :: u32
  adc_acc :: "u32 list"
  adc_acc_n :: "u16 list"
  adc_phase :: u8
  g_win_acc :: "adc_accum list list"
  g_win_stat :: "adc_wstat list list"
  g_win_seq :: "u16 list"
  g_adc_win_sel :: u8

definition accum0 :: adc_accum where
  "accum0 = \<lparr>a_min = 0, a_max = 0, a_sum = 0, a_sumsq = 0, a_count = 0\<rparr>"

definition wstat0 :: adc_wstat where
  "wstat0 = \<lparr>w_min = 0, w_max = 0, w_avg = 0, w_rms = 0\<rparr>"

definition adc0 :: adc where
  "adc0 = \<lparr>g_adc_latest = [0, 0, 0], g_adc_decim_count = 0, g_adc_resyncs = 0, adc_acc = [0, 0, 0], adc_acc_n = [0, 0, 0],
     adc_phase = 0, g_win_acc = replicate 3 (replicate 3 accum0), g_win_stat = replicate 3 (replicate 3 wstat0),
     g_win_seq = [0, 0, 0], g_adc_win_sel = 0\<rparr>"

section \<open>The interrupt handler\<close>

text \<open>The statistics of one accumulator, and one channel of \<open>adc_win_close\<close>.\<close>

definition adc_finalize :: "adc_accum \<Rightarrow> adc_wstat" where
  "adc_finalize a =
     (let n = a_count a;
          avg = (if n \<noteq> 0 then a_sum a div ucast n else 0);
          nss = ucast n * a_sumsq a;
          ss = ucast (a_sum a) * ucast (a_sum a);
          var = (if n \<noteq> 0 \<and> nss > ss then ucast ((nss - ss) div (ucast n * ucast n :: u64)) else 0)
      in \<lparr>w_min = a_min a, w_max = a_max a, w_avg = ucast (avg :: u32), w_rms = isqrt32 var\<rparr>)"

definition adc_win_close_ch :: "nat \<Rightarrow> nat \<Rightarrow> adc \<Rightarrow> adc" where
  "adc_win_close_ch w ch s =
     s\<lparr>g_win_stat := (g_win_stat s)[ch := (g_win_stat s ! ch)[w := adc_finalize (g_win_acc s ! ch ! w)]],
       g_win_acc := (g_win_acc s)[ch := (g_win_acc s ! ch)[w := accum0]]\<rparr>"

definition adc_win_close :: "nat \<Rightarrow> adc \<Rightarrow> adc" where
  "adc_win_close w s0 =
     (let s = fold (adc_win_close_ch w) [0..<unat ADC_NCH] s0
      in s\<lparr>g_win_seq := (g_win_seq s)[w := g_win_seq s ! w + 1]\<rparr>)"

text \<open>Stage A: the boxcar; at the last channel of a decimated set the 1 kHz samplers run.\<close>

definition adc_boxcar :: "u32 \<Rightarrow> u16 \<Rightarrow> nat \<Rightarrow> adc \<times> hil \<Rightarrow> adc \<times> hil" where
  "adc_boxcar gpio_in raw ch = (\<lambda>(s, h).
     (let acc = adc_acc s ! ch + ucast raw; n = adc_acc_n s ! ch + 1 in
      if unat n \<ge> ADC_BOXCAR
      then (let s1 = s\<lparr>g_adc_latest := (g_adc_latest s)[ch := ucast (acc div of_nat ADC_BOXCAR)],
                       adc_acc := (adc_acc s)[ch := 0], adc_acc_n := (adc_acc_n s)[ch := 0]\<rparr>
            in if ch = unat ADC_NCH - 1
               then (s1\<lparr>g_adc_decim_count := g_adc_decim_count s1 + 1\<rparr>, gpio_sample_1khz gpio_in (pulse_sample_1khz gpio_in h))
               else (s1, h))
      else (s\<lparr>adc_acc := (adc_acc s)[ch := acc], adc_acc_n := (adc_acc_n s)[ch := n]\<rparr>, h)))"

text \<open>Stage B: fold the raw sample into every window tier.\<close>

definition accum_add :: "u16 \<Rightarrow> adc_accum \<Rightarrow> adc_accum" where
  "accum_add raw a =
     \<lparr>a_min = (if a_count a = 0 \<or> raw < a_min a then raw else a_min a),
      a_max = (if a_count a = 0 \<or> raw > a_max a then raw else a_max a),
      a_sum = a_sum a + ucast raw, a_sumsq = a_sumsq a + ucast (ucast raw * ucast raw :: u32), a_count = a_count a + 1\<rparr>"

definition adc_fold_windows :: "u16 \<Rightarrow> nat \<Rightarrow> adc \<Rightarrow> adc" where
  "adc_fold_windows raw ch s = s\<lparr>g_win_acc := (g_win_acc s)[ch := map (accum_add raw) (g_win_acc s ! ch)]\<rparr>"

definition adc_round_end :: "adc \<Rightarrow> adc" where
  "adc_round_end s =
     (let p = adc_phase s + 1 in
      if p \<ge> ADC_NCH
      then fold (\<lambda>w t. if a_count (g_win_acc t ! 0 ! w) \<ge> g_adc_win_len ! w then adc_win_close w t else t)
             [0..<unat ADC_NWIN] (s\<lparr>adc_phase := 0\<rparr>)
      else s\<lparr>adc_phase := p\<rparr>)"

definition adc_sample :: "u16 \<times> u32 \<Rightarrow> adc \<times> hil \<Rightarrow> adc \<times> hil" where
  "adc_sample = (\<lambda>(word, gpio_in) (s, h).
     (let raw = word AND 0x0FFF; ch = unat (adc_phase s); (s1, h1) = adc_boxcar gpio_in raw ch (s, h)
      in (adc_round_end (adc_fold_windows raw ch s1), h1)))"

definition adc_resync :: "adc \<Rightarrow> adc" where
  "adc_resync s = s\<lparr>adc_acc := map (\<lambda>_. 0) [0..<unat ADC_NCH], adc_acc_n := map (\<lambda>_. 0) [0..<unat ADC_NCH],
     adc_phase := 0, g_adc_resyncs := g_adc_resyncs s + 1\<rparr>"

definition adc_fifo_isr :: "bool \<Rightarrow> (u16 \<times> u32) list \<Rightarrow> adc \<times> hil \<Rightarrow> adc \<times> hil" where
  "adc_fifo_isr over samples sh =
     (let (s, h) = fold adc_sample samples sh in (if over then adc_resync s else s, h))"

section \<open>The square root is exact\<close>

text \<open>
  Invariant of \<open>isqrt_loop\<close> with \<open>m\<close> result bits to go: \<open>R\<close> holds the bits decided so far, \<open>res\<close> is \<open>R\<close> shifted
  up by \<open>m\<close> and \<open>x\<close> is the remainder.
\<close>

definition isqrt_inv :: "nat \<Rightarrow> nat \<Rightarrow> nat \<Rightarrow> u32 \<Rightarrow> u32 \<Rightarrow> u32 \<Rightarrow> bool" where
  "isqrt_inv v m R x res one \<longleftrightarrow>
     m \<le> 16 \<and> unat one = (if m = 0 then 0 else 4 ^ (m - 1)) \<and> 2 ^ m dvd R \<and> unat res = R * 2 ^ m \<and>
     R\<^sup>2 \<le> v \<and> v < (R + 2 ^ m)\<^sup>2 \<and> unat x = v - R\<^sup>2 \<and> v < 2 ^ 32"

lemma power_2_2: "((2 :: nat) ^ m)\<^sup>2 = 4 ^ m"
  by (simp add: power2_eq_square flip: power_mult_distrib)

lemma isqrt_inv_res:
  assumes "isqrt_inv v (Suc m) R x res one"
  shows "unat (res + one) = R * 2 ^ Suc m + 4 ^ m" "unat (res + push_bit 1 one) = R * 2 ^ Suc m + 2 * 4 ^ m"
proof -
  have "R\<^sup>2 \<le> v" "v < (2 ^ 16)\<^sup>2" using assms by (simp_all add: isqrt_inv_def)
  then have "R\<^sup>2 < (2 ^ 16)\<^sup>2" by (rule le_less_trans)
  then have "R < 2 ^ 16" by (rule power_less_imp_less_base) simp
  have m: "m \<le> 15" using assms by (simp add: isqrt_inv_def)
  have "R * 2 ^ Suc m < 2 ^ 31"
  proof (cases "m = 15")
    case True
    then have "R = 0" using \<open>R < 2 ^ 16\<close> assms nat_dvd_not_less [of R "2 ^ 16"] by (auto simp: isqrt_inv_def)
    then show ?thesis by simp
  next
    case False
    then have "(2 :: nat) ^ Suc m \<le> 2 ^ 15" using m by (intro power_increasing) auto
    then have "R * 2 ^ Suc m \<le> (2 ^ 16 - 1) * 2 ^ 15" using \<open>R < 2 ^ 16\<close> by (intro mult_le_mono) auto
    then show ?thesis by simp
  qed
  moreover have "(4 :: nat) ^ m \<le> 4 ^ 15" using m by (intro power_increasing) auto
  ultimately have b: "R * 2 ^ Suc m < 2 ^ 31" "(4 :: nat) ^ m \<le> 2 ^ 30" by simp_all
  have o2: "unat (push_bit 1 one) = 2 * 4 ^ m" and o1: "unat one = 4 ^ m" and r: "unat res = R * 2 ^ Suc m"
    using assms b(2) by (auto simp: isqrt_inv_def push_bit_eq_mult unat_word_ariths)
  show "unat (res + one) = R * 2 ^ Suc m + 4 ^ m" "unat (res + push_bit 1 one) = R * 2 ^ Suc m + 2 * 4 ^ m"
    using b unfolding unat_word_ariths(1) o1 o2 r by simp_all
qed

lemma isqrt_inv_step:
  assumes "isqrt_inv v (Suc m) R x res one"
  shows "\<exists>R'. isqrt_inv v m R' (if x \<ge> res + one then x - (res + one) else x)
    (if x \<ge> res + one then drop_bit 1 (res + push_bit 1 one) else drop_bit 1 res) (drop_bit 2 one)"
proof -
  note inv = assms [unfolded isqrt_inv_def]
  have sq: "(R + 2 ^ m)\<^sup>2 = R\<^sup>2 + (R * 2 ^ Suc m + 4 ^ m)"
    by (simp add: power2_sum power_2_2)
  have dvd: "2 ^ m dvd R" using inv by (metis dvd_mult_right power_Suc)
  have one': "unat (drop_bit 2 one) = (if m = 0 then 0 else 4 ^ (m - 1))"
    using inv by (cases m) (simp_all add: drop_bit_eq_div unat_div)
  have ge: "x \<ge> res + one \<longleftrightarrow> (R + 2 ^ m)\<^sup>2 \<le> v"
    unfolding word_le_nat_alt isqrt_inv_res(1) [OF assms] sq using inv by auto
  show ?thesis
  proof (cases "x \<ge> res + one")
    case True
    have "unat (x - (res + one)) = v - (R + 2 ^ m)\<^sup>2"
      using True inv isqrt_inv_res(1) [OF assms] sq by (simp add: unat_sub word_le_nat_alt)
    moreover have "unat (drop_bit 1 (res + push_bit 1 one)) = (R + 2 ^ m) * 2 ^ m"
      unfolding drop_bit_eq_div unat_div isqrt_inv_res(2) [OF assms]
      by (simp add: distrib_right distrib_left power_2_2 [unfolded power2_eq_square] div_add1_eq)
    moreover have "v < (R + 2 ^ m + 2 ^ m)\<^sup>2" using inv by (simp add: mult_2 add.assoc)
    ultimately have "isqrt_inv v m (R + 2 ^ m) (x - (res + one)) (drop_bit 1 (res + push_bit 1 one)) (drop_bit 2 one)"
      using True ge inv one' dvd by (simp add: isqrt_inv_def)
    with True show ?thesis by auto
  next
    case False
    have "unat (drop_bit 1 res) = R * 2 ^ m"
      using inv by (simp add: drop_bit_eq_div unat_div)
    then have "isqrt_inv v m R x (drop_bit 1 res) (drop_bit 2 one)"
      using False ge inv one' dvd by (simp add: isqrt_inv_def)
    with False show ?thesis by auto
  qed
qed

lemma isqrt_loop_correct:
  "isqrt_inv v m R x res one \<Longrightarrow> (unat (isqrt_loop x res one))\<^sup>2 \<le> v \<and> v < (unat (isqrt_loop x res one) + 1)\<^sup>2"
proof (induction m arbitrary: R x res one)
  case 0
  then show ?case by (simp add: isqrt_inv_def isqrt_loop.simps unat_eq_0)
next
  case (Suc m)
  then have "one \<noteq> 0" by (auto simp: isqrt_inv_def)
  with isqrt_inv_step [OF Suc.prems] Suc.IH show ?case
    by (subst (1 2) isqrt_loop.simps) (auto split: if_splits)
qed

lemma isqrt_start_correct:
  assumes "unat one = 4 ^ m" "m < 16" "unat v < 4 ^ Suc m"
  shows "\<exists>m'. isqrt_inv (unat v) m' 0 v 0 (isqrt_start v one)"
  using assms
proof (induction m arbitrary: one)
  case 0
  then have "unat (drop_bit 2 one) = 0" by (simp add: drop_bit_eq_div unat_div)
  then have z: "drop_bit 2 one = 0" by (simp add: unat_eq_0)
  show ?case
  proof (cases "one > v")
    case True
    then have "v = 0" using 0 by (simp add: word_less_nat_alt unat_eq_0)
    moreover have "isqrt_start v one = 0"
      using True z by (subst isqrt_start.simps) (simp add: isqrt_start.simps [of v 0])
    ultimately have "isqrt_inv (unat v) 0 0 v 0 (isqrt_start v one)" by (simp add: isqrt_inv_def)
    then show ?thesis by blast
  next
    case False
    with 0 have "isqrt_inv (unat v) 1 0 v 0 (isqrt_start v one)"
      by (simp add: isqrt_start.simps isqrt_inv_def power2_eq_square)
    then show ?thesis by blast
  qed
next
  case (Suc m)
  show ?case
  proof (cases "one > v")
    case True
    then have "isqrt_start v one = isqrt_start v (drop_bit 2 one)" by (simp add: isqrt_start.simps [of v one])
    moreover have "unat (drop_bit 2 one) = 4 ^ m" "unat v < 4 ^ Suc m"
      using True Suc.prems by (simp_all add: drop_bit_eq_div unat_div word_less_nat_alt)
    ultimately show ?thesis using Suc.IH [of "drop_bit 2 one"] Suc.prems(2) by simp
  next
    case False
    with Suc.prems have "isqrt_inv (unat v) (Suc (Suc m)) 0 v 0 (isqrt_start v one)"
      by (simp add: isqrt_start.simps isqrt_inv_def power_mult_distrib power_2_2)
    then show ?thesis by blast
  qed
qed

lemma isqrt32_bounds:
  "(unat (isqrt32 v))\<^sup>2 \<le> unat v \<and> unat v < (unat (isqrt32 v) + 1)\<^sup>2"
proof -
  have "unat (push_bit 30 1 :: u32) = 4 ^ 15" "unat v < 4 ^ Suc 15" by simp_all
  then obtain m where "isqrt_inv (unat v) m 0 v 0 (isqrt_start v (push_bit 30 1))"
    using isqrt_start_correct [of "push_bit 30 1" 15 v] by auto
  from isqrt_loop_correct [OF this] have r: "(unat (isqrt_loop v 0 (isqrt_start v (push_bit 30 1))))\<^sup>2 \<le> unat v
      \<and> unat v < (unat (isqrt_loop v 0 (isqrt_start v (push_bit 30 1))) + 1)\<^sup>2" .
  then have "(unat (isqrt_loop v 0 (isqrt_start v (push_bit 30 1))))\<^sup>2 < (2 ^ 16)\<^sup>2"
    by (rule conjunct1 [THEN le_less_trans]) simp
  then have "unat (isqrt_loop v 0 (isqrt_start v (push_bit 30 1))) < 2 ^ 16"
    by (rule power_less_imp_less_base) simp
  then have "unat (isqrt32 v) = unat (isqrt_loop v 0 (isqrt_start v (push_bit 30 1)))"
    by (simp add: isqrt32_def unsigned_ucast_eq take_bit_nat_eq_self)
  with r show ?thesis by simp
qed

text \<open>
  C37. \<open>isqrt32\<close> terminates on every input and returns the integer square root.
\<close>

theorem isqrt32_exact: "(unat (isqrt32 v))\<^sup>2 \<le> unat v \<and> unat v < (unat (isqrt32 v) + 1)\<^sup>2"
  by (rule isqrt32_bounds)

section \<open>Specification: windows as lists of samples\<close>

text \<open>
  What the service promises, on the samples themselves and with unbounded arithmetic: a channel's latest value is the
  mean of its last sixteen samples, and the statistics of a window are those of the samples it covers; the rms is the
  standard deviation, from the exact variance.
\<close>

definition sqsum :: "nat list \<Rightarrow> nat" where
  "sqsum xs = sum_list (map (\<lambda>x. x\<^sup>2) xs)"

definition variance_of :: "nat list \<Rightarrow> nat" where
  "variance_of xs = (length xs * sqsum xs - (sum_list xs)\<^sup>2) div (length xs)\<^sup>2"

definition window_stat :: "nat list \<Rightarrow> adc_wstat" where
  "window_stat xs = \<lparr>w_min = of_nat (Min (set xs)), w_max = of_nat (Max (set xs)), w_avg = of_nat (sum_list xs div length xs),
     w_rms = of_nat (GREATEST r. r\<^sup>2 \<le> variance_of xs)\<rparr>"

record adc_spec =
  sp_phase :: nat
  sp_box :: "nat \<Rightarrow> nat list"
  sp_latest :: "nat \<Rightarrow> nat"
  sp_hist :: "nat \<Rightarrow> nat \<Rightarrow> nat list"
  sp_stat :: "nat \<Rightarrow> nat \<Rightarrow> adc_wstat"
  sp_seq :: "nat \<Rightarrow> nat"
  sp_decim :: nat
  sp_resyncs :: nat

definition win_len :: "nat \<Rightarrow> nat" where
  "win_len w = [16, 160, 1600] ! w"

definition spec_box :: "nat \<Rightarrow> adc_spec \<Rightarrow> adc_spec" where
  "spec_box x sp =
     (let ch = sp_phase sp; box = sp_box sp ch @ [x] in
      if length box = 16
      then sp\<lparr>sp_latest := (sp_latest sp)(ch := sum_list box div 16), sp_box := (sp_box sp)(ch := []),
              sp_decim := sp_decim sp + (if ch = 2 then 1 else 0)\<rparr>
      else sp\<lparr>sp_box := (sp_box sp)(ch := box)\<rparr>)"

definition spec_hist :: "nat \<Rightarrow> adc_spec \<Rightarrow> nat \<Rightarrow> nat \<Rightarrow> nat list" where
  "spec_hist x sp c w = (if c = sp_phase sp then sp_hist sp c w @ [x] else sp_hist sp c w)"

text \<open>At the end of a round every full window is closed: its statistics are published and it starts again empty.\<close>

definition spec_close :: "nat \<Rightarrow> adc_spec \<Rightarrow> adc_spec" where
  "spec_close w sp =
     (if length (sp_hist sp 0 w) \<ge> win_len w
      then sp\<lparr>sp_hist := \<lambda>c v. if v = w then [] else sp_hist sp c v,
              sp_stat := \<lambda>c v. if v = w then window_stat (sp_hist sp c w) else sp_stat sp c v,
              sp_seq := (sp_seq sp)(w := sp_seq sp w + 1)\<rparr>
      else sp)"

definition spec_round :: "adc_spec \<Rightarrow> adc_spec" where
  "spec_round sp = (if sp_phase sp < 2 then sp\<lparr>sp_phase := sp_phase sp + 1\<rparr>
     else fold spec_close [0..<3] (sp\<lparr>sp_phase := 0\<rparr>))"

definition spec_sample :: "nat \<Rightarrow> adc_spec \<Rightarrow> adc_spec" where
  "spec_sample x sp = spec_round ((spec_box x sp)\<lparr>sp_hist := spec_hist x sp\<rparr>)"

definition spec_isr :: "bool \<Rightarrow> nat list \<Rightarrow> adc_spec \<Rightarrow> adc_spec" where
  "spec_isr over xs sp =
     (let sp' = fold spec_sample xs sp
      in if over then sp'\<lparr>sp_box := \<lambda>_. [], sp_phase := 0, sp_resyncs := sp_resyncs sp' + 1\<rparr> else sp')"

definition spec0 :: adc_spec where
  "spec0 = \<lparr>sp_phase = 0, sp_box = \<lambda>_. [], sp_latest = \<lambda>_. 0, sp_hist = \<lambda>_ _. [], sp_stat = \<lambda>_ _. wstat0, sp_seq = \<lambda>_. 0,
     sp_decim = 0, sp_resyncs = 0\<rparr>"

text \<open>
  How long the lists may get.  Channel 0 leads every round.  A window is closed at the end of the round that fills it;
  an overrun in the middle of a round restarts at channel 0, so that channel may be one sample over (\<open>slack\<close> 1) until
  the next round ends.
\<close>

definition spec_inv :: "nat \<Rightarrow> adc_spec \<Rightarrow> bool" where
  "spec_inv slack sp \<longleftrightarrow> sp_phase sp < 3 \<and>
     (\<forall>c < 3. length (sp_box sp c) < 16 \<and> (\<forall>x \<in> set (sp_box sp c). x < 4096)) \<and>
     (\<forall>w < 3. (\<forall>c < 3. length (sp_hist sp c w) + (if 0 < sp_phase sp \<and> sp_phase sp \<le> c then 1 else 0) \<le> length (sp_hist sp 0 w)
                 \<and> (c < sp_phase sp \<longrightarrow> sp_hist sp c w \<noteq> []) \<and> (\<forall>x \<in> set (sp_hist sp c w). x < 4096))
        \<and> length (sp_hist sp 0 w) + (if sp_phase sp = 0 then 1 else 0) \<le> win_len w + slack)"

section \<open>The handler refines it\<close>

definition acc_rel :: "adc_accum \<Rightarrow> nat list \<Rightarrow> bool" where
  "acc_rel a xs \<longleftrightarrow> unat (a_count a) = length xs \<and> unat (a_sum a) = sum_list xs \<and> unat (a_sumsq a) = sqsum xs
     \<and> (xs \<noteq> [] \<longrightarrow> unat (a_min a) = Min (set xs) \<and> unat (a_max a) = Max (set xs))"

definition adc_rel :: "adc \<Rightarrow> adc_spec \<Rightarrow> bool" where
  "adc_rel s sp \<longleftrightarrow> unat (adc_phase s) = sp_phase sp
     \<and> length (g_adc_latest s) = 3 \<and> length (adc_acc s) = 3 \<and> length (adc_acc_n s) = 3 \<and> length (g_win_acc s) = 3
     \<and> length (g_win_stat s) = 3 \<and> length (g_win_seq s) = 3
     \<and> (\<forall>c < 3. length (g_win_acc s ! c) = 3 \<and> length (g_win_stat s ! c) = 3
          \<and> unat (adc_acc s ! c) = sum_list (sp_box sp c) \<and> unat (adc_acc_n s ! c) = length (sp_box sp c)
          \<and> unat (g_adc_latest s ! c) = sp_latest sp c
          \<and> (\<forall>w < 3. acc_rel (g_win_acc s ! c ! w) (sp_hist sp c w) \<and> g_win_stat s ! c ! w = sp_stat sp c w))
     \<and> (\<forall>w < 3. g_win_seq s ! w = of_nat (sp_seq sp w))
     \<and> g_adc_decim_count s = of_nat (sp_decim sp) \<and> g_adc_resyncs s = of_nat (sp_resyncs sp)"

lemma sum_list_bound: "(\<forall>x \<in> set xs. x < b) \<Longrightarrow> sum_list xs \<le> length xs * (b - 1)"
  by (induction xs) auto

lemma sqsum_bound: "(\<forall>x \<in> set xs. x < 4096) \<Longrightarrow> sqsum xs \<le> length xs * 4095\<^sup>2"
proof (induction xs)
  case (Cons x xs)
  then have "x\<^sup>2 \<le> 4095\<^sup>2" by (intro power_mono) auto
  with Cons show ?case by (simp add: sqsum_def)
qed (simp add: sqsum_def)

lemma isqrt32_greatest: "unat (isqrt32 v) = (GREATEST r. r\<^sup>2 \<le> unat v)"
proof (rule Greatest_equality [symmetric])
  show "(unat (isqrt32 v))\<^sup>2 \<le> unat v" using isqrt32_bounds by blast
next
  fix r :: nat
  assume "r\<^sup>2 \<le> unat v"
  then have "r\<^sup>2 < (unat (isqrt32 v) + 1)\<^sup>2" using isqrt32_bounds [of v] by linarith
  then have "r < unat (isqrt32 v) + 1" by (rule power_less_imp_less_base) simp
  then show "r \<le> unat (isqrt32 v)" by simp
qed

lemma unat_ucast_u16_u64 [simp]: "unat (ucast (b :: u16) :: u64) = unat b"
  by (simp add: unsigned_ucast_eq take_bit_nat_eq_self order_less_trans [OF unat_u16_less])

lemma unat_ucast_u32_u64 [simp]: "unat (ucast (b :: u32) :: u64) = unat b"
  by (simp add: unsigned_ucast_eq take_bit_nat_eq_self order_less_trans [OF unat_u32_less])

text \<open>The variance fits 24 bits and the products of \<open>adc_win_close\<close> fit 64: no operation of it wraps.\<close>

lemma window_bounds:
  assumes "length xs \<le> 2000" "\<forall>x \<in> set xs. x < 4096"
  shows "sum_list xs \<le> length xs * 4095" "length xs * sqsum xs \<le> 2000 * (2000 * 4095\<^sup>2)" "(sum_list xs)\<^sup>2 \<le> 2000\<^sup>2 * 4095\<^sup>2"
    "variance_of xs \<le> 4095\<^sup>2"
proof -
  show s: "sum_list xs \<le> length xs * 4095" using sum_list_bound [OF assms(2)] by simp
  have q: "sqsum xs \<le> length xs * 4095\<^sup>2" by (rule sqsum_bound [OF assms(2)])
  also have "\<dots> \<le> 2000 * 4095\<^sup>2" using assms(1) by (rule mult_le_mono1)
  finally show "length xs * sqsum xs \<le> 2000 * (2000 * 4095\<^sup>2)" by (rule mult_le_mono [OF assms(1)])
  have "sum_list xs \<le> 2000 * 4095" using s assms(1) by simp
  then have "(sum_list xs)\<^sup>2 \<le> (2000 * 4095)\<^sup>2" by (rule power_mono) simp
  then show "(sum_list xs)\<^sup>2 \<le> 2000\<^sup>2 * 4095\<^sup>2" by (simp add: power_mult_distrib)
  have "length xs * sqsum xs - (sum_list xs)\<^sup>2 \<le> length xs * (length xs * 4095\<^sup>2)"
    by (rule le_trans [OF diff_le_self mult_le_mono2 [OF q]])
  then have "variance_of xs \<le> length xs * (length xs * 4095\<^sup>2) div (length xs)\<^sup>2"
    unfolding variance_of_def by (rule div_le_mono)
  also have "\<dots> \<le> 4095\<^sup>2" by (cases "xs = []") (simp_all add: power2_eq_square flip: mult.assoc)
  finally show "variance_of xs \<le> 4095\<^sup>2" .
qed

lemma finalize_variance:
  assumes "acc_rel a xs" "length xs \<le> 2000" "\<forall>x \<in> set xs. x < 4096"
  defines "n \<equiv> ucast (a_count a) :: u64" and "sm \<equiv> ucast (a_sum a) :: u64"
  shows "unat (if a_count a \<noteq> 0 \<and> n * a_sumsq a > sm * sm then ucast ((n * a_sumsq a - sm * sm) div (n * n)) else 0 :: u32) = variance_of xs"
proof -
  note b = window_bounds [OF assms(2,3)]
  have r: "unat n = length xs" "unat sm = sum_list xs" "unat (a_sumsq a) = sqsum xs" "a_count a = 0 \<longleftrightarrow> xs = []"
    using assms(1) by (auto simp: acc_rel_def n_def sm_def simp flip: unat_eq_0)
  have nss: "unat (n * a_sumsq a) = length xs * sqsum xs" and ss: "unat (sm * sm) = (sum_list xs)\<^sup>2"
    using b(2,3) by (simp_all add: unat_word_ariths r power2_eq_square)
  have nn: "unat (n * n) = (length xs)\<^sup>2"
    using mult_le_mono [OF assms(2,2)] by (simp add: unat_word_ariths r power2_eq_square)
  have "unat ((n * a_sumsq a - sm * sm) div (n * n)) = variance_of xs" if "n * a_sumsq a > sm * sm"
    using that by (simp add: unat_div unat_sub order_less_imp_le nss ss nn variance_of_def)
  moreover have "variance_of xs = 0" if "\<not> n * a_sumsq a > sm * sm"
    using that by (simp add: word_less_nat_alt nss ss variance_of_def)
  moreover have "variance_of [] = 0" by (simp add: variance_of_def)
  ultimately show ?thesis using b(4) r(4) by (auto simp: unsigned_ucast_eq take_bit_nat_eq_self)
qed

lemma of_nat_unat_word: "of_nat (unat (w :: 'a :: len word)) = w"
  by (simp add: word_unat_eq_iff unat_of_nat)

lemma isqrt32_of_nat: "unat v = x \<Longrightarrow> isqrt32 v = of_nat (GREATEST r. r\<^sup>2 \<le> x)"
  using of_nat_unat_word [of "isqrt32 v"] by (simp add: isqrt32_greatest)

lemma finalize_exact:
  assumes "acc_rel a xs" "xs \<noteq> []" "length xs \<le> 2000" "\<forall>x \<in> set xs. x < 4096"
  shows "adc_finalize a = window_stat xs"
proof -
  have r: "unat (a_count a) = length xs" "unat (a_sum a) = sum_list xs" "a_count a \<noteq> 0"
    "of_nat (Min (set xs)) = a_min a" "of_nat (Max (set xs)) = a_max a"
    using assms(1,2) of_nat_unat_word [of "a_min a"] of_nat_unat_word [of "a_max a"]
    by (auto simp: acc_rel_def)
  have "sum_list xs div length xs \<le> 4095"
    using window_bounds(1) [OF assms(3,4)] div_le_mono [of "sum_list xs" "length xs * 4095" "length xs"] assms(2) by simp
  then have "(ucast (a_sum a div ucast (a_count a)) :: u16) = of_nat (sum_list xs div length xs)"
    by (intro word_unat_eq_iff [THEN iffD2])
      (simp add: unsigned_ucast_eq unat_div r take_bit_nat_eq_self unat_of_nat)
  then show ?thesis
    unfolding adc_finalize_def window_stat_def Let_def isqrt32_of_nat [OF finalize_variance [OF assms(1,3,4)]]
    using r(3-5) by simp
qed

subsection \<open>The specification keeps its bounds\<close>

lemma win_len_bounds: "w < 3 \<Longrightarrow> 1 < win_len w \<and> win_len w \<le> 1600"
  by (auto simp: win_len_def less_Suc_eq numeral_3_eq_3)

lemma upt_3: "[0..<3] = [0, 1, 2 :: nat]"
  by (simp add: upt_rec)

lemma spec_close_phase [simp]: "sp_phase (spec_close w sp) = sp_phase sp" "sp_box (spec_close w sp) = sp_box sp"
  "sp_latest (spec_close w sp) = sp_latest sp" "sp_decim (spec_close w sp) = sp_decim sp" "sp_resyncs (spec_close w sp) = sp_resyncs sp"
  by (simp_all add: spec_close_def)

lemma spec_close_hist:
  "sp_hist (spec_close w sp) c v = (if v = w \<and> length (sp_hist sp 0 w) \<ge> win_len w then [] else sp_hist sp c v)"
  by (simp add: spec_close_def)

lemma spec_closes_keep [simp]: "sp_phase (fold spec_close ws sp) = sp_phase sp" "sp_box (fold spec_close ws sp) = sp_box sp"
  by (induction ws arbitrary: sp) simp_all

lemma spec_closes_hist:
  "v < 3 \<Longrightarrow> sp_hist (fold spec_close [0..<3] sp) c v = (if length (sp_hist sp 0 v) \<ge> win_len v then [] else sp_hist sp c v)"
  by (auto simp: upt_3 spec_close_hist less_Suc_eq numeral_3_eq_3)

lemma spec_box_hist [simp]: "sp_phase (spec_box x sp) = sp_phase sp" "sp_hist (spec_box x sp) = sp_hist sp"
  "sp_stat (spec_box x sp) = sp_stat sp" "sp_seq (spec_box x sp) = sp_seq sp" "sp_resyncs (spec_box x sp) = sp_resyncs sp"
  by (simp_all add: spec_box_def Let_def)

lemma spec_box_bounds:
  "spec_inv k sp \<Longrightarrow> x < 4096 \<Longrightarrow> c < 3 \<Longrightarrow>
   length (sp_box (spec_box x sp) c) < 16 \<and> (\<forall>y \<in> set (sp_box (spec_box x sp) c). y < 4096)"
  by (auto simp: spec_inv_def spec_box_def Let_def)

text \<open>The lists right after a sample of channel \<open>sp_phase\<close> has been added.\<close>

lemma spec_hist_bounds:
  assumes "spec_inv k sp" "x < 4096" "w < 3" "c < 3"
  shows "length (spec_hist x sp c w) + (if sp_phase sp < c then 1 else 0) \<le> length (spec_hist x sp 0 w)"
    and "c \<le> sp_phase sp \<Longrightarrow> spec_hist x sp c w \<noteq> []"
    and "\<forall>y \<in> set (spec_hist x sp c w). y < 4096"
    and "length (spec_hist x sp 0 w) \<le> win_len w + k"
proof -
  have h: "length (sp_hist sp c w) + (if 0 < sp_phase sp \<and> sp_phase sp \<le> c then 1 else 0) \<le> length (sp_hist sp 0 w)"
    "c < sp_phase sp \<Longrightarrow> sp_hist sp c w \<noteq> []" "\<forall>y \<in> set (sp_hist sp c w). y < 4096"
    "length (sp_hist sp 0 w) + (if sp_phase sp = 0 then 1 else 0) \<le> win_len w + k"
    using assms(1,3,4) unfolding spec_inv_def by blast+
  show "length (spec_hist x sp c w) + (if sp_phase sp < c then 1 else 0) \<le> length (spec_hist x sp 0 w)"
    and "c \<le> sp_phase sp \<Longrightarrow> spec_hist x sp c w \<noteq> []"
    and "\<forall>y \<in> set (spec_hist x sp c w). y < 4096"
    and "length (spec_hist x sp 0 w) \<le> win_len w + k"
    using h assms(2) by (auto simp: spec_hist_def split: if_splits)
qed

lemma spec_sample_inv:
  assumes "spec_inv k sp" "x < 4096"
  shows "spec_inv (if sp_phase sp = 2 then 0 else k) (spec_sample x sp)"
proof -
  note b = spec_box_bounds [OF assms] and h = spec_hist_bounds [OF assms]
  have p: "sp_phase sp < 3" using assms(1) by (simp add: spec_inv_def)
  have ne: "c \<le> sp_phase sp \<Longrightarrow> w < 3 \<Longrightarrow> spec_hist x sp c w \<noteq> []" for c w
    using h(2) [of w c] p by linarith
  show ?thesis
  proof (cases "sp_phase sp < 2")
    case True
    then show ?thesis using b h(1,3,4) ne
      by (auto simp: spec_inv_def spec_sample_def spec_round_def Suc_le_eq less_Suc_eq_le)
  next
    case False
    with p have p2: "sp_phase sp = 2" by simp
    then show ?thesis using b h(1,3,4)
      by (simp add: spec_inv_def spec_sample_def spec_round_def spec_closes_hist) (use h(3) win_len_bounds in \<open>auto simp: Suc_le_eq intro: Suc_lessD\<close>)
  qed
qed

lemma spec_inv_mono: "spec_inv j sp \<Longrightarrow> j \<le> k \<Longrightarrow> spec_inv k sp"
  unfolding spec_inv_def by (meson add_le_mono le_refl le_trans)

lemma spec_samples_inv:
  "spec_inv k sp \<Longrightarrow> (\<forall>x \<in> set xs. x < 4096) \<Longrightarrow> spec_inv k (fold spec_sample xs sp)"
proof (induction xs arbitrary: sp)
  case (Cons x xs)
  then have "spec_inv k (spec_sample x sp)"
    using spec_sample_inv [of k sp x] spec_inv_mono [of 0 "spec_sample x sp" k] by (auto split: if_splits)
  with Cons show ?case by simp
qed simp

text \<open>Three samples always complete a round, which takes the slack away.\<close>

lemma spec_samples_tight:
  "spec_inv k sp \<Longrightarrow> (\<forall>x \<in> set xs. x < 4096) \<Longrightarrow> 3 \<le> sp_phase sp + length xs \<Longrightarrow> spec_inv 0 (fold spec_sample xs sp)"
proof (induction xs arbitrary: sp)
  case Nil
  then show ?case by (simp add: spec_inv_def)
next
  case (Cons x xs)
  show ?case
  proof (cases "sp_phase sp = 2")
    case True
    then show ?thesis using spec_sample_inv [of k sp x] spec_samples_inv Cons.prems by auto
  next
    case False
    then have "sp_phase sp < 2" using Cons.prems(1) by (auto simp: spec_inv_def)
    then have "sp_phase (spec_sample x sp) = sp_phase sp + 1" by (simp add: spec_sample_def spec_round_def)
    then show ?thesis using False Cons spec_sample_inv [of k sp x] by auto
  qed
qed

lemma spec_inv_hist:
  assumes "spec_inv k sp" "w < 3" "c < 3"
  shows "length (sp_hist sp c w) \<le> length (sp_hist sp 0 w)" "length (sp_hist sp 0 w) \<le> win_len w + k"
    "\<forall>x \<in> set (sp_hist sp c w). x < 4096"
  using assms unfolding spec_inv_def by (meson add_leD1)+

lemma spec_resync_inv: "spec_inv 0 sp \<Longrightarrow> spec_inv 1 (sp\<lparr>sp_box := \<lambda>_. [], sp_phase := 0, sp_resyncs := r\<rparr>)"
  using spec_inv_hist [of 0 sp] by (simp add: spec_inv_def [of "Suc 0"])

lemma spec_isr_inv:
  assumes "spec_inv 1 sp" "\<forall>x \<in> set xs. x < 4096" "over \<Longrightarrow> 3 \<le> length xs"
  shows "spec_inv 1 (spec_isr over xs sp)"
proof (cases over)
  case True
  have "spec_inv 0 (fold spec_sample xs sp)" using spec_samples_tight [OF assms(1,2)] assms(3) True by simp
  from spec_resync_inv [OF this] True show ?thesis by (simp add: spec_isr_def Let_def)
next
  case False
  then show ?thesis using spec_samples_inv [OF assms(1,2)] by (simp add: spec_isr_def Let_def)
qed

subsection \<open>Simulation\<close>

lemma unat_if_less: "unat (if r < a then r else a) = min (unat r) (unat a)"
  and unat_if_greater: "unat (if a < r then r else a) = max (unat r) (unat a)"
  by (auto simp: word_less_nat_alt)

lemma acc_rel_add:
  assumes "acc_rel a xs" "unat raw < 4096" "length xs \<le> 2000" "\<forall>x \<in> set xs. x < 4096"
  shows "acc_rel (accum_add raw a) (xs @ [unat raw])"
proof -
  note b = sum_list_bound [OF assms(4)] and q = sqsum_bound [OF assms(4)]
  have "(unat raw)\<^sup>2 \<le> 4095\<^sup>2" using assms(2) by (intro power_mono) auto
  then have r2: "unat (ucast raw * ucast raw :: u32) = (unat raw)\<^sup>2" "(unat raw)\<^sup>2 \<le> 16769025"
    by (simp_all add: unat_word_ariths power2_eq_square)
  have c: "unat (a_count a + 1) = length xs + 1" "unat (a_sum a + ucast raw) = sum_list xs + unat raw"
    "unat (a_sumsq a + ucast (ucast raw * ucast raw :: u32)) = sqsum xs + (unat raw)\<^sup>2" "a_count a = 0 \<longleftrightarrow> xs = []"
    using assms(1-3) b q r2 by (auto simp: acc_rel_def unat_word_ariths simp flip: unat_eq_0)
  show ?thesis
    using assms(1) c by (cases "xs = []") (simp_all add: acc_rel_def accum_add_def sqsum_def unat_if_less unat_if_greater)
qed

lemma boxcar_rel:
  assumes "adc_rel s sp" "spec_inv k sp" "unat raw < 4096"
  shows "adc_rel (fst (adc_boxcar g raw (unat (adc_phase s)) (s, h))) (spec_box (unat raw) sp)"
proof -
  let ?c = "sp_phase sp"
  have c: "unat (adc_phase s) = ?c" "?c < 3" using assms(1,2) by (simp_all add: adc_rel_def spec_inv_def)
  then have box: "length (sp_box sp ?c) < 16" "\<forall>x \<in> set (sp_box sp ?c). x < 4096" using assms(2) by (simp_all add: spec_inv_def)
  have r: "unat (adc_acc s ! ?c) = sum_list (sp_box sp ?c)" "unat (adc_acc_n s ! ?c) = length (sp_box sp ?c)"
    using assms(1) c by (simp_all add: adc_rel_def)
  have sm: "sum_list (sp_box sp ?c) \<le> 15 * 4095" using sum_list_bound [OF box(2)] box(1) by simp
  have acc: "unat (adc_acc s ! ?c + ucast raw) = sum_list (sp_box sp ?c @ [unat raw])"
    "unat (adc_acc_n s ! ?c + 1) = length (sp_box sp ?c @ [unat raw])"
    using sm box(1) assms(3) r by (simp_all add: unat_word_ariths)
  have lat: "unat (ucast ((adc_acc s ! ?c + ucast raw) div 16) :: u16) = sum_list (sp_box sp ?c @ [unat raw]) div 16"
    using sm assms(3) acc(1) by (simp add: unsigned_ucast_eq unat_div take_bit_nat_eq_self)
  show ?thesis
    using assms(1) c acc lat box(1)
    by (simp add: adc_rel_def adc_boxcar_def spec_box_def ADC_BOXCAR_def ADC_NCH_def Let_def) auto
qed

lemma fold_windows_rel:
  assumes "adc_rel s sp" "spec_inv k sp0" "k \<le> 1" "unat raw < 4096" "sp_phase sp = sp_phase sp0" "sp_hist sp = sp_hist sp0"
  shows "adc_rel (adc_fold_windows raw (sp_phase sp0) s) (sp\<lparr>sp_hist := spec_hist (unat raw) sp0\<rparr>)"
proof -
  have "acc_rel (accum_add raw (g_win_acc s ! c ! w)) (sp_hist sp0 c w @ [unat raw])" if "c < 3" "w < 3" for c w
  proof (rule acc_rel_add)
    show "acc_rel (g_win_acc s ! c ! w) (sp_hist sp0 c w)" using assms(1,6) that by (simp add: adc_rel_def)
    show "length (sp_hist sp0 c w) \<le> 2000" "\<forall>x \<in> set (sp_hist sp0 c w). x < 4096"
      using spec_inv_hist [OF assms(2) that(2,1)] win_len_bounds [OF that(2)] assms(3) by simp_all
  qed (rule assms(4))
  moreover have "sp_phase sp0 < 3" using assms(2) by (simp add: spec_inv_def)
  ultimately show ?thesis using assms(1,5,6)
    by (auto simp: adc_rel_def adc_fold_windows_def spec_hist_def nth_list_update)
qed

lemma less_3_cases: "c < 3 \<Longrightarrow> c = 0 \<or> c = 1 \<or> c = (2 :: nat)"
  by auto

lemma win_close_nth:
  assumes "c < 3" "v < 3" "w < 3" "length (g_win_acc s) = 3" "length (g_win_stat s) = 3"
    and "\<forall>c < 3. length (g_win_acc s ! c) = 3 \<and> length (g_win_stat s ! c) = 3"
  shows "g_win_acc (adc_win_close w s) ! c ! v = (if v = w then accum0 else g_win_acc s ! c ! v)"
    and "g_win_stat (adc_win_close w s) ! c ! v = (if v = w then adc_finalize (g_win_acc s ! c ! w) else g_win_stat s ! c ! v)"
    and "length (g_win_acc (adc_win_close w s) ! c) = 3" "length (g_win_stat (adc_win_close w s) ! c) = 3"
  using less_3_cases [OF assms(1)] assms(2-6)
  by (elim disjE; simp add: adc_win_close_def adc_win_close_ch_def ADC_NCH_def upt_3)+

lemma win_close_keep:
  "length (g_win_acc (adc_win_close w s)) = length (g_win_acc s)" "length (g_win_stat (adc_win_close w s)) = length (g_win_stat s)"
  "g_win_seq (adc_win_close w s) = (g_win_seq s)[w := g_win_seq s ! w + 1]" "adc_phase (adc_win_close w s) = adc_phase s"
  "g_adc_latest (adc_win_close w s) = g_adc_latest s" "adc_acc (adc_win_close w s) = adc_acc s" "adc_acc_n (adc_win_close w s) = adc_acc_n s"
  "g_adc_decim_count (adc_win_close w s) = g_adc_decim_count s" "g_adc_resyncs (adc_win_close w s) = g_adc_resyncs s"
  by (simp_all add: adc_win_close_def adc_win_close_ch_def ADC_NCH_def upt_3)

definition closable :: "nat \<Rightarrow> adc_spec \<Rightarrow> bool" where
  "closable w sp \<longleftrightarrow> (\<forall>c < 3. sp_hist sp c w \<noteq> [] \<and> length (sp_hist sp c w) \<le> 2000 \<and> (\<forall>x \<in> set (sp_hist sp c w). x < 4096))"

lemma close_rel:
  assumes "adc_rel s sp" "w < 3" "closable w sp"
  shows "adc_rel (if a_count (g_win_acc s ! 0 ! w) \<ge> g_adc_win_len ! w then adc_win_close w s else s) (spec_close w sp)"
proof -
  have "acc_rel (g_win_acc s ! 0 ! w) (sp_hist sp 0 w)" using assms(1,2) by (simp add: adc_rel_def)
  then have due: "a_count (g_win_acc s ! 0 ! w) \<ge> g_adc_win_len ! w \<longleftrightarrow> length (sp_hist sp 0 w) \<ge> win_len w"
    using assms(2) by (auto simp: acc_rel_def word_le_nat_alt g_adc_win_len_def win_len_def less_Suc_eq numeral_3_eq_3)
  have fin: "adc_finalize (g_win_acc s ! c ! w) = window_stat (sp_hist sp c w)" if "c < 3" for c
    using assms that by (intro finalize_exact) (simp_all add: adc_rel_def closable_def)
  have "acc_rel accum0 []" by (simp add: acc_rel_def accum0_def sqsum_def)
  then show ?thesis
    using assms(1,2) due fin by (auto simp: adc_rel_def spec_close_def win_close_nth win_close_keep nth_list_update)
qed

lemma closable_other: "v \<noteq> w \<Longrightarrow> closable v sp \<Longrightarrow> closable v (spec_close w sp)"
  by (simp add: closable_def spec_close_hist)

lemma round_rel:
  assumes "adc_rel s sp" "sp_phase sp < 3" "sp_phase sp = 2 \<Longrightarrow> \<forall>w < 3. closable w sp"
  shows "adc_rel (adc_round_end s) (spec_round sp)"
proof (cases "sp_phase sp = 2")
  case True
  then have p: "adc_phase s + 1 \<ge> ADC_NCH" using assms(1) by (simp add: adc_rel_def ADC_NCH_def word_le_nat_alt unat_word_ariths)
  have r0: "adc_rel (s\<lparr>adc_phase := 0\<rparr>) (sp\<lparr>sp_phase := 0\<rparr>)" using assms(1) by (simp add: adc_rel_def)
  have c: "closable w (sp\<lparr>sp_phase := 0\<rparr>)" if "w < 3" for w using assms(3) True that by (simp add: closable_def)
  have "adc_rel (fold (\<lambda>w t. if a_count (g_win_acc t ! 0 ! w) \<ge> g_adc_win_len ! w then adc_win_close w t else t) [0..<3]
      (s\<lparr>adc_phase := 0\<rparr>)) (fold spec_close [0..<3] (sp\<lparr>sp_phase := 0\<rparr>))"
    unfolding upt_3 fold.simps comp_apply id_apply
    by (intro close_rel r0 closable_other c) simp_all
  then show ?thesis using True p by (simp add: adc_round_end_def spec_round_def Let_def ADC_NWIN_def)
next
  case False
  then have "sp_phase sp < 2" using assms(2) by simp
  moreover have "unat (adc_phase s + 1) = sp_phase sp + 1"
    using assms(1) calculation by (simp add: adc_rel_def unat_word_ariths)
  ultimately show ?thesis using assms(1) by (simp add: adc_rel_def adc_round_end_def spec_round_def Let_def ADC_NCH_def word_le_nat_alt)
qed

lemma unat_and_12: "unat (w AND 0x0FFF :: u16) < 4096"
  using word_and_le1 [of w "0x0FFF"] by (simp add: word_le_nat_alt)

lemma sample_rel:
  assumes "adc_rel s sp" "spec_inv k sp" "k \<le> 1"
  shows "adc_rel (fst (adc_sample (word, g) (s, h))) (spec_sample (unat (word AND 0x0FFF)) sp)"
proof -
  let ?raw = "word AND 0x0FFF :: u16"
  let ?x = "unat ?raw"
  have x: "?x < 4096" by (rule unat_and_12)
  have ph: "unat (adc_phase s) = sp_phase sp" "sp_phase sp < 3" using assms(1,2) by (simp_all add: adc_rel_def spec_inv_def)
  let ?s1 = "fst (adc_boxcar g ?raw (sp_phase sp) (s, h))"
  have "adc_rel ?s1 (spec_box ?x sp)" using boxcar_rel [OF assms(1,2) x] ph by simp
  then have "adc_rel (adc_fold_windows ?raw (sp_phase sp) ?s1) ((spec_box ?x sp)\<lparr>sp_hist := spec_hist ?x sp\<rparr>)"
    by (rule fold_windows_rel [OF _ assms(2,3) x]) simp_all
  moreover have "closable w ((spec_box ?x sp)\<lparr>sp_hist := spec_hist ?x sp\<rparr>)" if "sp_phase sp = 2" "w < 3" for w
    using spec_hist_bounds [OF assms(2) x that(2)] win_len_bounds [OF that(2)] assms(3) that(1)
    by (fastforce simp: closable_def)
  ultimately show ?thesis
    using round_rel [of "adc_fold_windows ?raw (sp_phase sp) ?s1" "(spec_box ?x sp)\<lparr>sp_hist := spec_hist ?x sp\<rparr>"] ph
    by (simp add: adc_sample_def spec_sample_def Let_def case_prod_unfold)
qed

lemma samples_rel:
  "adc_rel (fst sh) sp \<Longrightarrow> spec_inv 1 sp \<Longrightarrow>
   adc_rel (fst (fold adc_sample xs sh)) (fold spec_sample (map (\<lambda>(word, g). unat (word AND 0x0FFF)) xs) sp)"
proof (induction xs arbitrary: sh sp)
  case (Cons x xs)
  obtain word g s h where x: "x = (word, g)" "sh = (s, h)" by (cases x; cases sh)
  have "adc_rel (fst (adc_sample x sh)) (spec_sample (unat (word AND 0x0FFF)) sp)"
    using sample_rel [of s sp 1] Cons.prems by (simp add: x)
  moreover have "spec_inv 1 (spec_sample (unat (word AND 0x0FFF)) sp)"
    using spec_samples_inv [OF Cons.prems(2), of "[unat (word AND 0x0FFF)]"] by (simp add: unat_and_12)
  ultimately show ?case using Cons.IH by (simp add: x)
qed simp

lemma isr_rel:
  assumes "adc_rel (fst sh) sp" "spec_inv 1 sp" "over \<Longrightarrow> 3 \<le> length xs"
  shows "adc_rel (fst (adc_fifo_isr over xs sh)) (spec_isr over (map (\<lambda>(word, g). unat (word AND 0x0FFF)) xs) sp)"
    and "spec_inv 1 (spec_isr over (map (\<lambda>(word, g). unat (word AND 0x0FFF)) xs) sp)"
proof -
  have "adc_rel (adc_resync s) (sp\<lparr>sp_box := \<lambda>_. [], sp_phase := 0, sp_resyncs := sp_resyncs sp + 1\<rparr>)" if "adc_rel s sp" for s sp
    using that by (simp add: adc_rel_def adc_resync_def ADC_NCH_def)
  then show "adc_rel (fst (adc_fifo_isr over xs sh)) (spec_isr over (map (\<lambda>(word, g). unat (word AND 0x0FFF)) xs) sp)"
    using samples_rel [OF assms(1,2), of xs] by (simp add: adc_fifo_isr_def spec_isr_def Let_def case_prod_unfold)
  show "spec_inv 1 (spec_isr over (map (\<lambda>(word, g). unat (word AND 0x0FFF)) xs) sp)"
    using assms(2,3) by (intro spec_isr_inv) (auto simp: unat_and_12)
qed

lemma isrs_rel:
  assumes "adc_rel (fst sh) sp" "spec_inv 1 sp" "\<forall>(over, xs) \<in> set calls. over \<longrightarrow> 3 \<le> length xs"
  shows "adc_rel (fst (fold (\<lambda>(over, xs). adc_fifo_isr over xs) calls sh))
    (fold (\<lambda>(over, xs). spec_isr over (map (\<lambda>(word, g). unat (word AND 0x0FFF)) xs)) calls sp)"
  using assms
proof (induction calls arbitrary: sh sp)
  case (Cons call calls)
  obtain over xs where c: "call = (over, xs)" by (cases call)
  show ?case using Cons isr_rel [OF Cons.prems(1,2), of over xs] by (simp add: c)
qed simp

text \<open>
  C38. Over any sequence of interrupts the ADC service publishes, for every channel and window tier, exactly the minimum,
  maximum, mean and standard deviation of the samples the window covers, and as the latest value of a channel the mean
  of its last sixteen samples: no accumulator and no product of the fixed-width arithmetic ever wraps.  An interrupt
  that finds the overrun flag set has drained a full FIFO, hence at least three samples.
\<close>

theorem adc_windows_exact:
  assumes "\<forall>(over, xs) \<in> set calls. over \<longrightarrow> 3 \<le> length xs"
  shows "adc_rel (fst (fold (\<lambda>(over, xs). adc_fifo_isr over xs) calls (adc0, h)))
    (fold (\<lambda>(over, xs). spec_isr over (map (\<lambda>(word, g). unat (word AND 0x0FFF)) xs)) calls spec0)"
proof (rule isrs_rel [OF _ _ assms])
  show "adc_rel (fst (adc0, h)) spec0"
    by (auto simp: adc_rel_def adc0_def spec0_def acc_rel_def accum0_def sqsum_def less_Suc_eq numeral_3_eq_3)
  show "spec_inv 1 spec0" using win_len_bounds by (auto simp: spec_inv_def spec0_def Suc_le_eq)
qed

theorem adc_windows_exact_witness:
  "adc_rel (fst (fold (\<lambda>(over, xs). adc_fifo_isr over xs) [(True, [(5, 0), (6, 0), (7, 0), (9, 0)]), (False, [(8, 0)])] (adc0, hil0)))
    (fold (\<lambda>(over, xs). spec_isr over (map (\<lambda>(word, g). unat (word AND 0x0FFF)) xs))
       [(True, [(5 :: u16, 0 :: u32), (6, 0), (7, 0), (9, 0)]), (False, [(8, 0)])] spec0)"
  by (rule adc_windows_exact) simp

section \<open>Lock-free readers\<close>

text \<open>
  \<open>CMD_ADC_STATS\<close> copies the statistics of all channels between two reads of \<open>g_win_seq\<close> and takes the copy as coherent
  when the two agree.  The writer bumps the counter only after its last channel, so a copy taken on the other core while
  \<open>adc_win_close\<close> is between two channels passes the test and mixes two windows.
\<close>

definition stats_snapshot :: "nat \<Rightarrow> adc \<Rightarrow> u16 \<times> adc_wstat list" where
  "stats_snapshot w s = (g_win_seq s ! w, map (\<lambda>ch. g_win_stat s ! ch ! w) [0..<unat ADC_NCH])"

theorem stats_snapshot_torn:
  "\<exists>s. (let mid = adc_win_close_ch 0 0 s in
     g_win_seq mid ! 0 = g_win_seq s ! 0
     \<and> snd (stats_snapshot 0 mid) \<noteq> snd (stats_snapshot 0 s)
     \<and> snd (stats_snapshot 0 mid) \<noteq> snd (stats_snapshot 0 (adc_win_close 0 s)))"
proof -
  let ?a = "accum_add 5 accum0"
  let ?s = "adc0\<lparr>g_win_acc := [[?a, ?a, ?a], [?a, ?a, ?a], [?a, ?a, ?a]]\<rparr>"
  have "w_min (adc_finalize ?a) = 5" by (simp add: adc_finalize_def Let_def accum_add_def accum0_def)
  then have "adc_finalize ?a \<noteq> wstat0" by (auto simp: wstat0_def)
  then show ?thesis
    by (intro exI [of _ ?s])
      (simp add: Let_def stats_snapshot_def adc_win_close_def adc_win_close_ch_def adc0_def ADC_NCH_def upt_3)
qed

end
