(* ===== verification/Il_Types.thy ===== *)
theory Il_Types
  imports Il_Hal
begin

text \<open>
  The data model of the interlock framework (\<^verbatim>\<open>src/node/interlock/interlock.h\<close>): constants, the parsed
  instance of a slot, the parser's status codes, and the pin-name table
  (\<^verbatim>\<open>src/node/interlock/il_pin_table.c\<close>).

  Persisted fields stay bytes, as in the code, because the record survives resets and may hold
  any value; characters are bytes.
\<close>

section \<open>Constants\<close>

definition INTERLOCK_MAGIC :: u32 where "INTERLOCK_MAGIC = 0xCD51AC73"
definition INTERLOCK_MAX_SLOTS :: nat where "INTERLOCK_MAX_SLOTS = 10"
definition INTERLOCK_MAX_BOOT_ATTEMPTS :: u8 where "INTERLOCK_MAX_BOOT_ATTEMPTS = 3"
definition INTERLOCK_ID_NONE :: u8 where "INTERLOCK_ID_NONE = 0"
definition INTERLOCK_ID_NOOP :: u8 where "INTERLOCK_ID_NOOP = 1"
definition INTERLOCK_ID_DSL :: u8 where "INTERLOCK_ID_DSL = 2"
definition INTERLOCK_CRASHED_SLOT_NONE :: u8 where "INTERLOCK_CRASHED_SLOT_NONE = 0xFF"
definition INTERLOCK_PERSIST_VERSION :: u8 where "INTERLOCK_PERSIST_VERSION = 10"

definition IL_NAME_MAX :: nat where "IL_NAME_MAX = 16"
definition IL_DSL_MAX :: nat where "IL_DSL_MAX = 128"
definition IL_MAX_INPUTS :: nat where "IL_MAX_INPUTS = 7"
definition IL_MAX_WATCHES :: nat where "IL_MAX_WATCHES = 8"
definition IL_MAX_OUTPUTS :: nat where "IL_MAX_OUTPUTS = 2"

lemmas il_bounds = IL_NAME_MAX_def IL_DSL_MAX_def IL_MAX_INPUTS_def IL_MAX_WATCHES_def
  IL_MAX_OUTPUTS_def INTERLOCK_MAX_SLOTS_def

definition IL_PIN_MODE_IN :: u8 where "IL_PIN_MODE_IN = 0"
definition IL_PIN_MODE_IN_PU :: u8 where "IL_PIN_MODE_IN_PU = 1"
definition IL_PIN_MODE_IN_PD :: u8 where "IL_PIN_MODE_IN_PD = 2"
definition IL_PIN_MODE_OUT :: u8 where "IL_PIN_MODE_OUT = 3"
definition IL_PIN_MODE_ADC :: u8 where "IL_PIN_MODE_ADC = 4"
definition IL_PIN_MODE_VIRTUAL :: u8 where "IL_PIN_MODE_VIRTUAL = 5"
definition IL_PIN_MODE_ADC_STREAM :: u8 where "IL_PIN_MODE_ADC_STREAM = 6"

lemmas il_mode_defs = IL_PIN_MODE_IN_def IL_PIN_MODE_IN_PU_def IL_PIN_MODE_IN_PD_def
  IL_PIN_MODE_OUT_def IL_PIN_MODE_ADC_def IL_PIN_MODE_VIRTUAL_def IL_PIN_MODE_ADC_STREAM_def

definition IL_VIRT_T_SINCE_M2S :: u8 where "IL_VIRT_T_SINCE_M2S = 0xF0"
definition IL_VIRT_UPTIME :: u8 where "IL_VIRT_UPTIME = 0xF1"
definition IL_VIRT_STACK_HWM :: u8 where "IL_VIRT_STACK_HWM = 0xF2"
definition IL_VIRT_NODES_DEAD :: u8 where "IL_VIRT_NODES_DEAD = 0xF3"
definition IL_VIRT_ADC_BASE :: u8 where "IL_VIRT_ADC_BASE = 0xE0"
definition IL_VIRT_ADC_COUNT :: u8 where "IL_VIRT_ADC_COUNT = 12"

lemmas il_virt_defs = IL_VIRT_T_SINCE_M2S_def IL_VIRT_UPTIME_def IL_VIRT_STACK_HWM_def
  IL_VIRT_NODES_DEAD_def IL_VIRT_ADC_BASE_def IL_VIRT_ADC_COUNT_def

definition IL_OP_EQ :: u8 where "IL_OP_EQ = 0"
definition IL_OP_NE :: u8 where "IL_OP_NE = 1"
definition IL_OP_LT :: u8 where "IL_OP_LT = 2"
definition IL_OP_GT :: u8 where "IL_OP_GT = 3"
definition IL_OP_LE :: u8 where "IL_OP_LE = 4"
definition IL_OP_GE :: u8 where "IL_OP_GE = 5"

lemmas il_op_defs = IL_OP_EQ_def IL_OP_NE_def IL_OP_LT_def IL_OP_GT_def IL_OP_LE_def IL_OP_GE_def

definition IL_TF_UNEVALUATED :: u8 where "IL_TF_UNEVALUATED = 0"
definition IL_TF_TRUE :: u8 where "IL_TF_TRUE = 1"
definition IL_TF_FALSE :: u8 where "IL_TF_FALSE = 2"

lemmas il_tf_defs = IL_TF_UNEVALUATED_def IL_TF_TRUE_def IL_TF_FALSE_def

section \<open>A parsed interlock\<close>

record il_input =
  i_phys_id :: u8
  i_mode :: u8
  i_oversample_exp :: u8
  i_sh_cyc :: u8
  i_debounce_depth :: u8
  i_hyst :: u16

record il_watch =
  w_input_idx :: u8
  w_op :: u8
  w_threshold :: u16
  w_group :: u8

record il_output =
  o_phys_id :: u8
  o_ok_value :: u8
  o_err_value :: u8
  o_open_drain :: u8

record il_inst =
  n_name :: "u8 list"
  n_input_count :: u8
  n_watch_count :: u8
  n_output_count :: u8
  n_tf_state :: u8
  n_inputs :: "il_input list"
  n_watches :: "il_watch list"
  n_outputs :: "il_output list"

definition zero_input :: il_input where
  "zero_input = \<lparr>i_phys_id = 0, i_mode = 0, i_oversample_exp = 0, i_sh_cyc = 0,
     i_debounce_depth = 0, i_hyst = 0\<rparr>"

definition zero_watch :: il_watch where
  "zero_watch = \<lparr>w_input_idx = 0, w_op = 0, w_threshold = 0, w_group = 0\<rparr>"

definition zero_output :: il_output where
  "zero_output = \<lparr>o_phys_id = 0, o_ok_value = 0, o_err_value = 0, o_open_drain = 0\<rparr>"

text \<open>\<open>memset(inst, 0, sizeof(il_inst_t))\<close>\<close>

definition zero_inst :: il_inst where
  "zero_inst = \<lparr>n_name = replicate IL_NAME_MAX 0, n_input_count = 0, n_watch_count = 0,
     n_output_count = 0, n_tf_state = 0, n_inputs = replicate IL_MAX_INPUTS zero_input,
     n_watches = replicate IL_MAX_WATCHES zero_watch, n_outputs = replicate IL_MAX_OUTPUTS zero_output\<rparr>"

datatype il_parse_status =
    IL_PARSE_OK | IL_PARSE_UNEXPECTED_CHAR | IL_PARSE_UNEXPECTED_END | IL_PARSE_BAD_NUMBER
  | IL_PARSE_UNKNOWN_KEYWORD | IL_PARSE_UNKNOWN_PIN | IL_PARSE_UNKNOWN_MODE
  | IL_PARSE_TOO_MANY_INPUTS | IL_PARSE_TOO_MANY_WATCHES | IL_PARSE_TOO_MANY_OUTPUTS
  | IL_PARSE_NAME_TOO_LONG | IL_PARSE_DUPLICATE_PIN | IL_PARSE_WATCH_INPUT_UNDECL
  | IL_PARSE_OUTPUT_UNDECL | IL_PARSE_OUTPUT_VALUE_MISMATCH | IL_PARSE_MISSING_OUT_OK
  | IL_PARSE_MISSING_OUT_ERR | IL_PARSE_EMPTY | IL_PARSE_UNKNOWN_OP
  | IL_PARSE_OVERSAMPLE_OUT_OF_RANGE | IL_PARSE_SH_OUT_OF_RANGE | IL_PARSE_MODIFIER_ON_GPIO
  | IL_PARSE_THRESHOLD_OUT_OF_RANGE | IL_PARSE_HYST_NOT_ON_ADC | IL_PARSE_DEBOUNCE_NOT_ON_GPIO
  | IL_PARSE_DEBOUNCE_OUT_OF_RANGE | IL_PARSE_UNKNOWN_VIRTUAL | IL_PARSE_HYST_ON_EQ_NE

fun parse_code :: "il_parse_status \<Rightarrow> u8" where
  "parse_code IL_PARSE_OK = 0" | "parse_code IL_PARSE_UNEXPECTED_CHAR = 1"
| "parse_code IL_PARSE_UNEXPECTED_END = 2" | "parse_code IL_PARSE_BAD_NUMBER = 3"
| "parse_code IL_PARSE_UNKNOWN_KEYWORD = 4" | "parse_code IL_PARSE_UNKNOWN_PIN = 5"
| "parse_code IL_PARSE_UNKNOWN_MODE = 6" | "parse_code IL_PARSE_TOO_MANY_INPUTS = 7"
| "parse_code IL_PARSE_TOO_MANY_WATCHES = 8" | "parse_code IL_PARSE_TOO_MANY_OUTPUTS = 9"
| "parse_code IL_PARSE_NAME_TOO_LONG = 10" | "parse_code IL_PARSE_DUPLICATE_PIN = 11"
| "parse_code IL_PARSE_WATCH_INPUT_UNDECL = 12" | "parse_code IL_PARSE_OUTPUT_UNDECL = 13"
| "parse_code IL_PARSE_OUTPUT_VALUE_MISMATCH = 14" | "parse_code IL_PARSE_MISSING_OUT_OK = 15"
| "parse_code IL_PARSE_MISSING_OUT_ERR = 16" | "parse_code IL_PARSE_EMPTY = 17"
| "parse_code IL_PARSE_UNKNOWN_OP = 18" | "parse_code IL_PARSE_OVERSAMPLE_OUT_OF_RANGE = 19"
| "parse_code IL_PARSE_SH_OUT_OF_RANGE = 20" | "parse_code IL_PARSE_MODIFIER_ON_GPIO = 21"
| "parse_code IL_PARSE_THRESHOLD_OUT_OF_RANGE = 22" | "parse_code IL_PARSE_HYST_NOT_ON_ADC = 23"
| "parse_code IL_PARSE_DEBOUNCE_NOT_ON_GPIO = 24" | "parse_code IL_PARSE_DEBOUNCE_OUT_OF_RANGE = 25"
| "parse_code IL_PARSE_UNKNOWN_VIRTUAL = 26" | "parse_code IL_PARSE_HYST_ON_EQ_NE = 27"

section \<open>Characters and the pin-name table\<close>

abbreviation ch :: "char \<Rightarrow> u8" where "ch c \<equiv> of_char c"

definition lit :: "string \<Rightarrow> u8 list" where "lit s = map of_char s"

definition BOARD_PIN_ADC_NONE :: u8 where "BOARD_PIN_ADC_NONE = 0xFF"
definition IL_NGPIO :: nat where "IL_NGPIO = 30"

record board_pin =
  bp_gpio :: u8
  bp_adc_channel :: u8

definition to_lower :: "u8 \<Rightarrow> u8" where
  "to_lower a = (if ch (CHR ''A'') \<le> a \<and> a \<le> ch (CHR ''Z'') then a - ch (CHR ''A'') + ch (CHR ''a'') else a)"

definition ci_eq :: "u8 \<Rightarrow> u8 \<Rightarrow> bool" where "ci_eq a b \<longleftrightarrow> to_lower a = to_lower b"

definition is_digit :: "u8 \<Rightarrow> bool" where
  "is_digit c \<longleftrightarrow> ch (CHR ''0'') \<le> c \<and> c \<le> ch (CHR ''9'')"

definition digit_val :: "u8 \<Rightarrow> nat" where "digit_val c = unat (c - ch (CHR ''0''))"

definition parse_uint :: "u8 list \<Rightarrow> nat option" where
  "parse_uint s =
     (if s = [] \<or> length s > 3 then None
      else if list_all is_digit s then Some (foldl (\<lambda>v c. v * 10 + digit_val c) 0 s) else None)"

definition adc_channel_for_gpio :: "u8 \<Rightarrow> u8" where
  "adc_channel_for_gpio gpio = (if 26 \<le> gpio \<and> gpio \<le> 28 then gpio - 26 else BOARD_PIN_ADC_NONE)"

text \<open>\<open>None\<close> where the code returns a null pointer.  \<open>g_pins\<close> only caches the record returned.\<close>

definition board_pin_lookup :: "u8 list \<Rightarrow> board_pin option" where
  "board_pin_lookup label =
     (if length label < 3 then None
      else if ci_eq (label ! 0) (ch (CHR ''a'')) \<and>
        (ci_eq (label ! 1) (ch (CHR ''d'')) \<and> ci_eq (label ! 2) (ch (CHR ''c'')) \<or>
         ci_eq (label ! 1) (ch (CHR ''i'')) \<and> ci_eq (label ! 2) (ch (CHR ''n'')))
      then (case parse_uint (drop 3 label) of
              None \<Rightarrow> None
            | Some k \<Rightarrow> if k > 2 then None
                else Some \<lparr>bp_gpio = word_of_nat (26 + k), bp_adc_channel = word_of_nat k\<rparr>)
      else if ci_eq (label ! 0) (ch (CHR ''g'')) \<and> ci_eq (label ! 1) (ch (CHR ''p''))
      then (case parse_uint (drop 2 label) of
              None \<Rightarrow> None
            | Some n \<Rightarrow> if n \<ge> IL_NGPIO then None
                else Some \<lparr>bp_gpio = word_of_nat n, bp_adc_channel = adc_channel_for_gpio (word_of_nat n)\<rparr>)
      else None)"

lemma board_pin_lookup_range:
  assumes "board_pin_lookup label = Some bp"
  shows "unat (bp_gpio bp) < 30"
proof -
  have "unat (26 + word_of_nat k :: u8) < 30" if "\<not> 2 < k" for k
  proof -
    have "k = 0 \<or> k = 1 \<or> k = 2" using that by arith
    then show ?thesis by auto
  qed
  then show ?thesis
    using assms
    by (auto simp: board_pin_lookup_def unat_of_nat IL_NGPIO_def split: if_splits option.splits)
qed

end
