(* ===== verification/Il_Dsl.thy ===== *)
theory Il_Dsl
  imports Il_Types
begin

text \<open>
  The recursive-descent parser of the interlock language (\<^verbatim>\<open>src/node/interlock/interlock_dsl.c\<close>).

  The parser's position is the suffix of the text that is still to be read (\<open>p->text + p->pos\<close> up to
  \<open>p->len\<close>), so giving back a saved position is using the older suffix.  A section parser returns
  \<open>POk\<close> or \<open>PErr\<close> with the position it stopped at.  Identifier lengths are 8-bit in the code;
  \<open>tok\<close> is the part of an identifier such a length covers.
\<close>

unbundle bit_operations_syntax

datatype 'a pres = PErr il_parse_status "u8 list" | POk 'a "u8 list"

section \<open>Tokens\<close>

definition is_ws :: "u8 \<Rightarrow> bool" where
  "is_ws c \<longleftrightarrow> c = 0x20 \<or> c = 0x09 \<or> c = 0x0D \<or> c = 0x0A"

definition peek :: "u8 list \<Rightarrow> u8" where "peek r = (if r = [] then 0 else hd r)"

definition skip_ws :: "u8 list \<Rightarrow> u8 list" where "skip_ws r = dropWhile is_ws r"

definition is_ident_start :: "u8 \<Rightarrow> bool" where
  "is_ident_start c \<longleftrightarrow> ch (CHR ''a'') \<le> c \<and> c \<le> ch (CHR ''z'') \<or>
     ch (CHR ''A'') \<le> c \<and> c \<le> ch (CHR ''Z'') \<or> c = ch (CHR ''_'')"

definition is_ident_cont :: "u8 \<Rightarrow> bool" where
  "is_ident_cont c \<longleftrightarrow> is_ident_start c \<or> ch (CHR ''0'') \<le> c \<and> c \<le> ch (CHR ''9'')"

definition read_ident :: "u8 list \<Rightarrow> u8 list option \<times> u8 list" where
  "read_ident r0 =
     (let r = skip_ws r0 in
      if r = [] \<or> \<not> is_ident_start (hd r) then (None, r)
      else (Some (takeWhile is_ident_cont r), dropWhile is_ident_cont r))"

definition tok :: "u8 list \<Rightarrow> u8 list" where "tok s = take (length s mod 256) s"

definition is_hex :: "u8 \<Rightarrow> bool" where
  "is_hex c \<longleftrightarrow> ch (CHR ''0'') \<le> c \<and> c \<le> ch (CHR ''9'') \<or>
     ch (CHR ''a'') \<le> c \<and> c \<le> ch (CHR ''f'') \<or> ch (CHR ''A'') \<le> c \<and> c \<le> ch (CHR ''F'')"

definition hex_val :: "u8 \<Rightarrow> u32" where
  "hex_val c =
     (if ch (CHR ''0'') \<le> c \<and> c \<le> ch (CHR ''9'') then ucast (c - ch (CHR ''0''))
      else if ch (CHR ''a'') \<le> c \<and> c \<le> ch (CHR ''f'') then ucast (c - ch (CHR ''a'') + 10)
      else ucast (c - ch (CHR ''A'') + 10))"

definition read_number :: "u8 list \<Rightarrow> u16 option \<times> u8 list" where
  "read_number r0 =
     (let r = skip_ws r0 in
      if r = [] then (None, r)
      else if length r \<ge> 2 \<and> r ! 0 = ch (CHR ''0'') \<and> (r ! 1 = ch (CHR ''x'') \<or> r ! 1 = ch (CHR ''X''))
      then (let ds = takeWhile is_hex (drop 2 r); r' = dropWhile is_hex (drop 2 r) in
            if ds = [] then (None, r')
            else (Some (ucast (foldl (\<lambda>v c. push_bit 4 v OR hex_val c) 0 ds)), r'))
      else (let ds = takeWhile is_digit r; r' = dropWhile is_digit r in
            if ds = [] then (None, r')
            else (Some (ucast (foldl (\<lambda>v c. v * 10 + ucast (c - ch (CHR ''0''))) (0 :: u32) ds)), r')))"

definition consume_char :: "u8 \<Rightarrow> u8 list \<Rightarrow> bool \<times> u8 list" where
  "consume_char want r0 =
     (let r = skip_ws r0 in if r = [] \<or> hd r \<noteq> want then (False, r) else (True, tl r))"

definition is_param_mod :: "u8 list \<Rightarrow> u8 list \<Rightarrow> bool" where
  "is_param_mod s prefix \<longleftrightarrow> length s > length prefix \<and> take (length prefix) s = prefix \<and>
     list_all (\<lambda>c. ch (CHR ''0'') \<le> c \<and> c \<le> ch (CHR ''9'')) (drop (length prefix) s)"

fun param_value_from :: "u32 \<Rightarrow> u8 list \<Rightarrow> u16 option" where
  "param_value_from v [] = Some (ucast v)"
| "param_value_from v (c # cs) =
     (let v' = v * 10 + ucast (c - ch (CHR ''0'')) in
      if v' > 65535 then None else param_value_from v' cs)"

definition parse_param_mod_value :: "u8 list \<Rightarrow> u8 list \<Rightarrow> u16 option" where
  "parse_param_mod_value s prefix = param_value_from 0 (drop (length prefix) s)"

definition is_known_modifier :: "u8 list \<Rightarrow> bool" where
  "is_known_modifier s \<longleftrightarrow>
     s = lit ''in'' \<or> s = lit ''out'' \<or> s = lit ''adc'' \<or> s = lit ''up'' \<or> s = lit ''down'' \<or>
     is_param_mod s (lit ''oversample_'') \<or> is_param_mod s (lit ''sh_'') \<or>
     is_param_mod s (lit ''hyst_'') \<or> is_param_mod s (lit ''debounce_'')"

definition k_virt_pins :: "(u8 list \<times> u8) list" where
  "k_virt_pins =
     [(lit ''_t_since_m2s'', IL_VIRT_T_SINCE_M2S), (lit ''_uptime'', IL_VIRT_UPTIME),
      (lit ''_stack_hwm'', IL_VIRT_STACK_HWM), (lit ''_nodesdead'', IL_VIRT_NODES_DEAD),
      (lit ''_adc0min'', IL_VIRT_ADC_BASE + 0), (lit ''_adc0max'', IL_VIRT_ADC_BASE + 1),
      (lit ''_adc0avg'', IL_VIRT_ADC_BASE + 2), (lit ''_adc0rms'', IL_VIRT_ADC_BASE + 3),
      (lit ''_adc1min'', IL_VIRT_ADC_BASE + 4), (lit ''_adc1max'', IL_VIRT_ADC_BASE + 5),
      (lit ''_adc1avg'', IL_VIRT_ADC_BASE + 6), (lit ''_adc1rms'', IL_VIRT_ADC_BASE + 7),
      (lit ''_adc2min'', IL_VIRT_ADC_BASE + 8), (lit ''_adc2max'', IL_VIRT_ADC_BASE + 9),
      (lit ''_adc2avg'', IL_VIRT_ADC_BASE + 10), (lit ''_adc2rms'', IL_VIRT_ADC_BASE + 11)]"

definition virt_lookup :: "u8 list \<Rightarrow> u8" where
  "virt_lookup s = (case map_of k_virt_pins s of Some v \<Rightarrow> v | None \<Rightarrow> 0xFF)"

definition samplenum_to_exp :: "u16 \<Rightarrow> u8" where
  "samplenum_to_exp n = (if n = 1 then 0 else if n = 2 then 1 else if n = 4 then 2
     else if n = 8 then 3 else if n = 16 then 4 else 0xFF)"

section \<open>The \<open>cfg\<close> section\<close>

definition find_input_idx :: "il_inst \<Rightarrow> u8 \<Rightarrow> nat option" where
  "find_input_idx inst pid =
     find_idx (\<lambda>i. i_phys_id i = pid) (take (unat (n_input_count inst)) (n_inputs inst))"

definition find_output_idx :: "il_inst \<Rightarrow> u8 \<Rightarrow> nat option" where
  "find_output_idx inst pid =
     find_idx (\<lambda>i. o_phys_id i = pid) (take (unat (n_output_count inst)) (n_outputs inst))"

text \<open>The parenthesised pin list; \<open>n\<close> is \<open>n_pins\<close>.\<close>

function pin_list :: "u8 list \<Rightarrow> nat \<Rightarrow> u8 list list pres" where
  "pin_list r n =
     (if n \<ge> IL_MAX_INPUTS + IL_MAX_OUTPUTS then PErr IL_PARSE_TOO_MANY_INPUTS r
      else (case read_ident r of
        (None, r1) \<Rightarrow> PErr IL_PARSE_UNEXPECTED_CHAR r1
      | (Some s, r1) \<Rightarrow>
          (case consume_char (ch (CHR '','')) r1 of
             (True, r2) \<Rightarrow>
               (case pin_list r2 (Suc n) of
                  PErr st r3 \<Rightarrow> PErr st r3
                | POk ss r3 \<Rightarrow> POk (tok s # ss) r3)
           | (False, r2) \<Rightarrow>
               (case consume_char (ch (CHR '')'')) r2 of
                  (True, r3) \<Rightarrow> POk [tok s] r3
                | (False, r3) \<Rightarrow> PErr IL_PARSE_UNEXPECTED_CHAR r3))))"
  by auto

termination pin_list
  by (relation "measure (\<lambda>(r, n). IL_MAX_INPUTS + IL_MAX_OUTPUTS - n)") auto

declare pin_list.simps [simp del]

text \<open>The modifier list; \<open>n\<close> is \<open>mod_count\<close>.\<close>

function mod_list :: "u8 list \<Rightarrow> nat \<Rightarrow> u8 list list pres" where
  "mod_list r n =
     (if n \<ge> 4 then PErr IL_PARSE_UNKNOWN_MODE r
      else (case read_ident r of
        (None, r1) \<Rightarrow> PErr IL_PARSE_UNEXPECTED_CHAR r1
      | (Some s, pre_comma) \<Rightarrow>
          (case consume_char (ch (CHR '','')) pre_comma of
             (False, r2) \<Rightarrow> POk [tok s] r2
           | (True, r2) \<Rightarrow>
               (let r3 = skip_ws r2 in
                if peek r3 = ch (CHR ''('') then POk [tok s] pre_comma
                else if \<not> is_ident_start (peek r3) then POk [tok s] pre_comma
                else (case read_ident r3 of
                        (None, r4) \<Rightarrow> PErr IL_PARSE_UNEXPECTED_CHAR r4
                      | (Some ns, r4) \<Rightarrow>
                          (if \<not> is_known_modifier (tok ns) then POk [tok s] pre_comma
                           else (case mod_list r3 (Suc n) of
                                   PErr st r5 \<Rightarrow> PErr st r5
                                 | POk ss r5 \<Rightarrow> POk (tok s # ss) r5)))))))"
  by auto

termination mod_list
  by (relation "measure (\<lambda>(r, n). 4 - n)") auto

declare mod_list.simps [simp del]

record pin_cfg =
  g_mode :: u8
  g_is_input :: bool
  g_is_adc :: bool
  g_out_od :: u8
  g_oversample :: u8
  g_sh :: u8
  g_hyst :: u16
  g_debounce :: u8

definition cfg_mode :: "u8 list \<Rightarrow> pin_cfg option" where
  "cfg_mode m =
     (let g = \<lparr>g_mode = IL_PIN_MODE_IN, g_is_input = False, g_is_adc = False, g_out_od = 0,
               g_oversample = 0, g_sh = 4, g_hyst = 0, g_debounce = 0\<rparr> in
      if m = lit ''in'' then Some (g\<lparr>g_is_input := True\<rparr>)
      else if m = lit ''out'' then Some (g\<lparr>g_mode := IL_PIN_MODE_OUT\<rparr>)
      else if m = lit ''oc'' then Some (g\<lparr>g_mode := IL_PIN_MODE_OUT, g_out_od := 1\<rparr>)
      else if m = lit ''adc'' then Some (g\<lparr>g_mode := IL_PIN_MODE_ADC, g_is_input := True, g_is_adc := True\<rparr>)
      else None)"

definition cfg_qualifier :: "pin_cfg \<Rightarrow> u8 list \<Rightarrow> il_parse_status + pin_cfg" where
  "cfg_qualifier g m =
     (if g_is_adc g then
        (if is_param_mod m (lit ''oversample_'') then
           (case parse_param_mod_value m (lit ''oversample_'') of
              None \<Rightarrow> Inl IL_PARSE_OVERSAMPLE_OUT_OF_RANGE
            | Some n \<Rightarrow> if samplenum_to_exp n = 0xFF then Inl IL_PARSE_OVERSAMPLE_OUT_OF_RANGE
                else Inr (g\<lparr>g_oversample := samplenum_to_exp n\<rparr>))
         else if is_param_mod m (lit ''sh_'') then
           (case parse_param_mod_value m (lit ''sh_'') of
              None \<Rightarrow> Inl IL_PARSE_SH_OUT_OF_RANGE
            | Some n \<Rightarrow> if n > 63 then Inl IL_PARSE_SH_OUT_OF_RANGE else Inr (g\<lparr>g_sh := ucast n\<rparr>))
         else if is_param_mod m (lit ''hyst_'') then
           (case parse_param_mod_value m (lit ''hyst_'') of
              None \<Rightarrow> Inl IL_PARSE_THRESHOLD_OUT_OF_RANGE
            | Some n \<Rightarrow> Inr (g\<lparr>g_hyst := n\<rparr>))
         else if is_param_mod m (lit ''debounce_'') then Inl IL_PARSE_DEBOUNCE_NOT_ON_GPIO
         else Inl IL_PARSE_UNKNOWN_MODE)
      else if g_is_input g then
        (if m = lit ''up'' then Inr (g\<lparr>g_mode := IL_PIN_MODE_IN_PU\<rparr>)
         else if m = lit ''down'' then Inr (g\<lparr>g_mode := IL_PIN_MODE_IN_PD\<rparr>)
         else if is_param_mod m (lit ''debounce_'') then
           (case parse_param_mod_value m (lit ''debounce_'') of
              None \<Rightarrow> Inl IL_PARSE_DEBOUNCE_OUT_OF_RANGE
            | Some n \<Rightarrow> if n < 2 \<or> n > 15 then Inl IL_PARSE_DEBOUNCE_OUT_OF_RANGE
                else Inr (g\<lparr>g_debounce := ucast n\<rparr>))
         else if is_param_mod m (lit ''hyst_'') then Inl IL_PARSE_HYST_NOT_ON_ADC
         else if is_param_mod m (lit ''oversample_'') \<or> is_param_mod m (lit ''sh_'')
         then Inl IL_PARSE_MODIFIER_ON_GPIO
         else Inl IL_PARSE_UNKNOWN_MODE)
      else
        (if g_out_od g \<noteq> 0 \<and> m = lit ''up'' then Inr (g\<lparr>g_out_od := 2\<rparr>)
         else if is_param_mod m (lit ''hyst_'') then Inl IL_PARSE_HYST_NOT_ON_ADC
         else if is_param_mod m (lit ''debounce_'') then Inl IL_PARSE_DEBOUNCE_NOT_ON_GPIO
         else if is_param_mod m (lit ''oversample_'') \<or> is_param_mod m (lit ''sh_'')
         then Inl IL_PARSE_MODIFIER_ON_GPIO
         else Inl IL_PARSE_UNKNOWN_MODE))"

fun cfg_qualifiers :: "pin_cfg \<Rightarrow> u8 list list \<Rightarrow> il_parse_status + pin_cfg" where
  "cfg_qualifiers g [] = Inr g"
| "cfg_qualifiers g (m # ms) =
     (case cfg_qualifier g m of Inl st \<Rightarrow> Inl st | Inr g' \<Rightarrow> cfg_qualifiers g' ms)"

definition push_input :: "il_input \<Rightarrow> il_inst \<Rightarrow> il_inst" where
  "push_input i inst = inst\<lparr>n_inputs := (n_inputs inst)[unat (n_input_count inst) := i],
     n_input_count := n_input_count inst + 1\<rparr>"

definition push_output :: "il_output \<Rightarrow> il_inst \<Rightarrow> il_inst" where
  "push_output i inst = inst\<lparr>n_outputs := (n_outputs inst)[unat (n_output_count inst) := i],
     n_output_count := n_output_count inst + 1\<rparr>"

definition record_pin :: "pin_cfg \<Rightarrow> u8 list \<Rightarrow> il_inst \<Rightarrow> il_parse_status + il_inst" where
  "record_pin g label inst =
     (case board_pin_lookup label of
        None \<Rightarrow> Inl IL_PARSE_UNKNOWN_PIN
      | Some bp \<Rightarrow>
          (let pid = bp_gpio bp in
           if find_input_idx inst pid \<noteq> None then Inl IL_PARSE_DUPLICATE_PIN
           else if find_output_idx inst pid \<noteq> None then Inl IL_PARSE_DUPLICATE_PIN
           else if g_is_input g then
             (if unat (n_input_count inst) \<ge> IL_MAX_INPUTS then Inl IL_PARSE_TOO_MANY_INPUTS
              else Inr (push_input
                \<lparr>i_phys_id = pid, i_mode = g_mode g,
                 i_oversample_exp = (if g_is_adc g then g_oversample g else 0),
                 i_sh_cyc = (if g_is_adc g then g_sh g else 0),
                 i_debounce_depth = (if g_is_adc g then 0 else g_debounce g),
                 i_hyst = (if g_is_adc g then g_hyst g else 0)\<rparr> inst))
           else
             (if unat (n_output_count inst) \<ge> IL_MAX_OUTPUTS then Inl IL_PARSE_TOO_MANY_OUTPUTS
              else Inr (push_output
                \<lparr>o_phys_id = pid, o_ok_value = 0, o_err_value = 0, o_open_drain = g_out_od g\<rparr> inst))))"

fun record_pins :: "pin_cfg \<Rightarrow> u8 list list \<Rightarrow> il_inst \<Rightarrow> il_parse_status + il_inst" where
  "record_pins g [] inst = Inr inst"
| "record_pins g (l # ls) inst =
     (case record_pin g l inst of Inl st \<Rightarrow> Inl st | Inr inst' \<Rightarrow> record_pins g ls inst')"

text \<open>The head of a group: a pin list or one identifier, then a colon.\<close>

definition group_pins :: "u8 list \<Rightarrow> u8 list list pres" where
  "group_pins r =
     (case (case consume_char (ch (CHR ''('')) (skip_ws r) of
              (True, r1) \<Rightarrow> pin_list r1 0
            | (False, r1) \<Rightarrow>
                (case read_ident r1 of
                   (None, r2) \<Rightarrow> PErr IL_PARSE_UNEXPECTED_CHAR r2
                 | (Some s, r2) \<Rightarrow> POk [tok s] r2)) of
        PErr st r2 \<Rightarrow> PErr st r2
      | POk pins r2 \<Rightarrow>
          (case consume_char (ch (CHR '':'')) r2 of
             (True, r3) \<Rightarrow> POk pins r3
           | (False, r3) \<Rightarrow> PErr IL_PARSE_UNEXPECTED_CHAR r3))"

definition cfg_group :: "u8 list \<Rightarrow> il_inst \<Rightarrow> il_inst pres" where
  "cfg_group r inst =
     (case group_pins r of
        PErr st r1 \<Rightarrow> PErr st r1
      | POk pins r1 \<Rightarrow>
          (case mod_list r1 0 of
             PErr st r2 \<Rightarrow> PErr st r2
           | POk mods r2 \<Rightarrow>
               (case cfg_mode (hd mods) of
                  None \<Rightarrow> PErr IL_PARSE_UNKNOWN_MODE r2
                | Some g \<Rightarrow>
                    (case cfg_qualifiers g (tl mods) of
                       Inl st \<Rightarrow> PErr st r2
                     | Inr g' \<Rightarrow>
                         (case record_pins g' pins inst of
                            Inl st \<Rightarrow> PErr st r2
                          | Inr inst' \<Rightarrow> POk inst' r2)))))"

section \<open>Parsers consume\<close>

named_theorems consumes "bounds on what a parser leaves unread"

lemma skip_ws_len [consumes]: "length (skip_ws r) \<le> length r"
  by (simp add: skip_ws_def length_dropWhile_le)

lemma ident_start_cont: "is_ident_start c \<Longrightarrow> is_ident_cont c"
  by (simp add: is_ident_cont_def)

lemma read_ident_Some:
  assumes "read_ident r = (Some s, r')"
  shows "length r' < length r" "s \<noteq> []" "is_ident_start (hd s)" "list_all is_ident_cont s"
    "skip_ws r = s @ r'"
proof -
  let ?r = "skip_ws r"
  have r: "?r \<noteq> []" "is_ident_start (hd ?r)" "s = takeWhile is_ident_cont ?r" "r' = dropWhile is_ident_cont ?r"
    using assms by (auto simp: read_ident_def Let_def split: if_splits)
  then obtain c cs where c: "?r = c # cs" "is_ident_cont c" by (cases ?r) (auto simp: ident_start_cont)
  have "length r' \<le> length cs" using r(4) c by (simp add: length_dropWhile_le)
  then show "length r' < length r" using c skip_ws_len [of r] by simp
  show "s \<noteq> []" "is_ident_start (hd s)" using r c by auto
  show "list_all is_ident_cont s" unfolding r(3) by (metis list.pred_set set_takeWhileD)
  show "?r = s @ r'" by (simp add: r)
qed

lemma read_ident_None_len [consumes]: "read_ident r = (None, r') \<Longrightarrow> length r' \<le> length r"
  using skip_ws_len [of r] by (auto simp: read_ident_def Let_def split: if_splits)

lemma consume_True_len [consumes]: "consume_char c r = (True, r') \<Longrightarrow> length r' < length r"
  using skip_ws_len [of r] by (cases "skip_ws r") (auto simp: consume_char_def Let_def split: if_splits)

lemma consume_False_len [consumes]: "consume_char c r = (False, r') \<Longrightarrow> length r' \<le> length r"
  using skip_ws_len [of r] by (auto simp: consume_char_def Let_def split: if_splits)

lemma read_number_len [consumes]: "read_number r = (v, r') \<Longrightarrow> length r' \<le> length r"
proof -
  have "length (dropWhile is_hex (drop 2 (skip_ws r))) \<le> length r"
    using length_dropWhile_le [of is_hex "drop 2 (skip_ws r)"] skip_ws_len [of r] by simp
  moreover have "length (dropWhile is_digit (skip_ws r)) \<le> length r"
    using length_dropWhile_le [of is_digit "skip_ws r"] skip_ws_len [of r] by simp
  ultimately show "read_number r = (v, r') \<Longrightarrow> length r' \<le> length r"
    using skip_ws_len [of r] by (auto simp: read_number_def Let_def split: if_splits)
qed

lemma pin_list_len: "pin_list r n = POk ss r' \<Longrightarrow> length r' < length r \<and> ss \<noteq> []"
proof (induction r n arbitrary: ss r' rule: pin_list.induct)
  case (1 r n)
  from "1.prems" obtain s r1 where n: "\<not> n \<ge> IL_MAX_INPUTS + IL_MAX_OUTPUTS" and s: "read_ident r = (Some s, r1)"
    by (auto simp: pin_list.simps [of r n] split: if_splits prod.splits option.splits)
  obtain b r2 where b: "consume_char (ch (CHR '','')) r1 = (b, r2)" by force
  note l = read_ident_Some(1) [OF s]
  show ?case
  proof (cases b)
    case True
    then obtain ss' where t: "pin_list r2 (Suc n) = POk ss' r'" "ss = tok s # ss'"
      using "1.prems" n s b by (auto simp: pin_list.simps [of r n] split: pres.splits)
    then show ?thesis
      using "1.IH" [OF n s [symmetric] refl b [symmetric]] b True l
        consume_True_len [of "ch (CHR '','')" r1 r2] by fastforce
  next
    case False
    then show ?thesis
      using "1.prems" n s b l consume_False_len [of "ch (CHR '','')" r1 r2]
      by (auto simp: pin_list.simps [of r n] split: prod.splits bool.splits dest: consume_True_len)
  qed
qed

lemma mod_list_len: "mod_list r n = POk ss r' \<Longrightarrow> length r' < length r \<and> ss \<noteq> []"
proof (induction r n arbitrary: ss r' rule: mod_list.induct)
  case (1 r n)
  from "1.prems" obtain s r1 where n: "\<not> n \<ge> 4" and s: "read_ident r = (Some s, r1)"
    by (auto simp: mod_list.simps [of r n] split: if_splits prod.splits option.splits)
  obtain b r2 where b: "consume_char (ch (CHR '','')) r1 = (b, r2)" by force
  note l = read_ident_Some(1) [OF s]
  show ?case
  proof (cases "b \<and> peek (skip_ws r2) \<noteq> ch (CHR ''('') \<and> is_ident_start (peek (skip_ws r2)) \<and>
      (\<exists>ns r4. read_ident (skip_ws r2) = (Some ns, r4) \<and> is_known_modifier (tok ns))")
    case True
    then obtain ns r4 where t: "b" "peek (skip_ws r2) \<noteq> ch (CHR ''('')" "is_ident_start (peek (skip_ws r2))"
      "read_ident (skip_ws r2) = (Some ns, r4)" "is_known_modifier (tok ns)" by blast
    then obtain ss' where ss': "mod_list (skip_ws r2) (Suc n) = POk ss' r'" "ss = tok s # ss'"
      using "1.prems" n s b by (auto simp: mod_list.simps [of r n] Let_def split: pres.splits)
    have "length r' < length (skip_ws r2)"
      using "1.IH" [OF n s [symmetric] refl b [symmetric] _ refl _ _ t(4) [symmetric]] t ss'(1) by blast
    then show ?thesis using ss'(2) l b t(1) skip_ws_len [of r2] consume_True_len [of "ch (CHR '','')" r1 r2] by auto
  next
    case False
    then have "ss = [tok s] \<and> (r' = r1 \<or> r' = r2 \<and> \<not> b)"
      using "1.prems" n s b
      by (auto simp: mod_list.simps [of r n] Let_def split: prod.splits bool.splits if_splits option.splits pres.splits)
    then show ?thesis using l b consume_False_len [of "ch (CHR '','')" r1 r2] by auto
  qed
qed

lemma group_pins_len: "group_pins r = POk pins r' \<Longrightarrow> length r' < length r \<and> pins \<noteq> []"
  using skip_ws_len [of r]
  by (auto simp: group_pins_def split: prod.splits bool.splits option.splits pres.splits
      dest!: consume_True_len consume_False_len pin_list_len read_ident_Some(1))

lemma cfg_group_len: "cfg_group r inst = POk inst' r' \<Longrightarrow> length r' < length r"
  by (auto simp: cfg_group_def split: pres.splits option.splits sum.splits
      dest!: group_pins_len mod_list_len)

function parse_cfg :: "u8 list \<Rightarrow> il_inst \<Rightarrow> il_inst pres" where
  "parse_cfg r inst =
     (case cfg_group r inst of
        PErr st r1 \<Rightarrow> PErr st r1
      | POk inst' r1 \<Rightarrow>
          (case consume_char (ch (CHR '','')) r1 of
             (True, r2) \<Rightarrow> parse_cfg r2 inst'
           | (False, r2) \<Rightarrow> POk inst' r2))"
  by auto

termination parse_cfg
  by (relation "measure (\<lambda>(r, inst). length r)")
     (auto dest!: cfg_group_len consume_True_len [OF sym])

declare parse_cfg.simps [simp del]

section \<open>The \<open>watch\<close> sections\<close>

definition UNDERSCORE :: u8 where "UNDERSCORE = ch (CHR ''_'')"

text \<open>\<open>resolve_adc_stream\<close>: the index of the (possibly new) stream input.\<close>

definition adc_stat :: "u8 list \<Rightarrow> u8 option" where
  "adc_stat s = (if s = lit ''avg'' then Some 1 else if s = lit ''min'' then Some 2
     else if s = lit ''max'' then Some 3 else if s = lit ''rms'' then Some 4 else None)"

definition adc_win :: "u8 list \<Rightarrow> u8 option" where
  "adc_win s = (if s = lit ''khz1'' then Some 0 else if s = lit ''hz100'' then Some 1
     else if s = lit ''hz10'' then Some 2 else None)"

definition adc_operand :: "u8 list \<Rightarrow> il_parse_status + (u8 \<times> u8 \<times> u8)" where
  "adc_operand s =
     (let pin = takeWhile (\<lambda>c. c \<noteq> UNDERSCORE) s; rest = dropWhile (\<lambda>c. c \<noteq> UNDERSCORE) s in
      case board_pin_lookup pin of
        None \<Rightarrow> Inl IL_PARSE_UNKNOWN_PIN
      | Some bp \<Rightarrow>
          (if rest = [] then Inr (bp_adc_channel bp, 0, 0)
           else (let st = takeWhile (\<lambda>c. c \<noteq> UNDERSCORE) (tl rest);
                     rest2 = dropWhile (\<lambda>c. c \<noteq> UNDERSCORE) (tl rest) in
                 if rest2 = [] then Inl IL_PARSE_UNEXPECTED_CHAR
                 else (case adc_stat st of
                         None \<Rightarrow> Inl IL_PARSE_UNKNOWN_MODE
                       | Some stat \<Rightarrow>
                           (case adc_win (tl rest2) of
                              None \<Rightarrow> Inl IL_PARSE_UNKNOWN_MODE
                            | Some win \<Rightarrow> Inr (bp_adc_channel bp, stat, win))))))"

definition resolve_adc_stream :: "il_inst \<Rightarrow> u8 list \<Rightarrow> il_parse_status + (nat \<times> il_inst)" where
  "resolve_adc_stream inst s =
     (case adc_operand s of
        Inl st \<Rightarrow> Inl st
      | Inr (ain, stat, win) \<Rightarrow>
          (case find_idx (\<lambda>i. i_mode i = IL_PIN_MODE_ADC_STREAM \<and> i_phys_id i = ain \<and>
                   i_oversample_exp i = stat \<and> i_sh_cyc i = win)
                 (take (unat (n_input_count inst)) (n_inputs inst)) of
             Some i \<Rightarrow> Inr (i, inst)
           | None \<Rightarrow>
               (if unat (n_input_count inst) \<ge> IL_MAX_INPUTS then Inl IL_PARSE_TOO_MANY_INPUTS
                else Inr (unat (n_input_count inst),
                       push_input \<lparr>i_phys_id = ain, i_mode = IL_PIN_MODE_ADC_STREAM,
                         i_oversample_exp = stat, i_sh_cyc = win, i_debounce_depth = 0, i_hyst = 0\<rparr> inst))))"

definition resolve_operand :: "bool \<Rightarrow> u8 list \<Rightarrow> il_inst \<Rightarrow> il_parse_status + (nat \<times> il_inst)" where
  "resolve_operand adc_mode lbl inst =
     (if adc_mode then resolve_adc_stream inst (tok lbl)
      else if hd lbl = UNDERSCORE then
        (let vid = virt_lookup (tok lbl) in
         if vid = 0xFF then Inl IL_PARSE_UNKNOWN_VIRTUAL
         else (case find_input_idx inst vid of
                 Some i \<Rightarrow> Inr (i, inst)
               | None \<Rightarrow>
                   (if unat (n_input_count inst) \<ge> IL_MAX_INPUTS then Inl IL_PARSE_TOO_MANY_INPUTS
                    else Inr (unat (n_input_count inst),
                           push_input \<lparr>i_phys_id = vid, i_mode = IL_PIN_MODE_VIRTUAL,
                             i_oversample_exp = 0, i_sh_cyc = 0, i_debounce_depth = 0, i_hyst = 0\<rparr> inst))))
      else (case board_pin_lookup (tok lbl) of
              None \<Rightarrow> Inl IL_PARSE_UNKNOWN_PIN
            | Some bp \<Rightarrow>
                (case find_input_idx inst (bp_gpio bp) of
                   None \<Rightarrow> Inl IL_PARSE_WATCH_INPUT_UNDECL
                 | Some i \<Rightarrow> Inr (i, inst))))"

definition watch_op :: "u8 list \<Rightarrow> u8 option" where
  "watch_op s = (if s = lit ''eq'' then Some IL_OP_EQ else if s = lit ''ne'' then Some IL_OP_NE
     else if s = lit ''lt'' then Some IL_OP_LT else if s = lit ''gt'' then Some IL_OP_GT
     else if s = lit ''le'' then Some IL_OP_LE else if s = lit ''ge'' then Some IL_OP_GE else None)"

text \<open>The optional operator between the colons.\<close>

definition read_op :: "u8 list \<Rightarrow> u8 pres" where
  "read_op r0 =
     (let r = skip_ws r0 in
      if \<not> is_ident_start (peek r) then POk IL_OP_EQ r
      else (case read_ident r of
              (None, r1) \<Rightarrow> PErr IL_PARSE_UNEXPECTED_CHAR r1
            | (Some s, r1) \<Rightarrow>
                (case watch_op (tok s) of
                   None \<Rightarrow> PErr IL_PARSE_UNKNOWN_OP r1
                 | Some op \<Rightarrow>
                     (case consume_char (ch (CHR '':'')) r1 of
                        (True, r2) \<Rightarrow> POk op r2
                      | (False, r2) \<Rightarrow> PErr IL_PARSE_UNEXPECTED_CHAR r2))))"

definition push_watch :: "il_watch \<Rightarrow> il_inst \<Rightarrow> il_inst" where
  "push_watch w inst = inst\<lparr>n_watches := (n_watches inst)[unat (n_watch_count inst) := w],
     n_watch_count := n_watch_count inst + 1\<rparr>"

definition add_watch :: "nat \<Rightarrow> u8 \<Rightarrow> u16 \<Rightarrow> u8 \<Rightarrow> il_inst \<Rightarrow> il_parse_status + il_inst" where
  "add_watch idx op val grp inst =
     (if i_hyst (n_inputs inst ! idx) \<noteq> 0 \<and> (op = IL_OP_EQ \<or> op = IL_OP_NE) then Inl IL_PARSE_HYST_ON_EQ_NE
      else if unat (n_watch_count inst) \<ge> IL_MAX_WATCHES then Inl IL_PARSE_TOO_MANY_WATCHES
      else Inr (push_watch \<lparr>w_input_idx = word_of_nat idx, w_op = op, w_threshold = val, w_group = grp\<rparr> inst))"

definition watch_clause :: "bool \<Rightarrow> u8 list \<Rightarrow> il_inst \<Rightarrow> u8 \<Rightarrow> il_inst pres" where
  "watch_clause adc_mode r inst grp =
     (case read_ident r of
        (None, r1) \<Rightarrow> PErr IL_PARSE_UNEXPECTED_CHAR r1
      | (Some lbl, r1) \<Rightarrow>
          (case consume_char (ch (CHR '':'')) r1 of
             (False, r2) \<Rightarrow> PErr IL_PARSE_UNEXPECTED_CHAR r2
           | (True, r2) \<Rightarrow>
               (case read_op r2 of
                  PErr st r3 \<Rightarrow> PErr st r3
                | POk op r3 \<Rightarrow>
                    (case read_number r3 of
                       (None, r4) \<Rightarrow> PErr IL_PARSE_BAD_NUMBER r4
                     | (Some val, r4) \<Rightarrow>
                         (case resolve_operand adc_mode lbl inst of
                            Inl st \<Rightarrow> PErr st r4
                          | Inr (idx, inst1) \<Rightarrow>
                              (case add_watch idx op val grp inst1 of
                                 Inl st \<Rightarrow> PErr st r4
                               | Inr inst2 \<Rightarrow> POk inst2 r4))))))"

lemma read_op_len: "read_op r = POk op r' \<Longrightarrow> length r' \<le> length r"
  using skip_ws_len [of r]
  by (auto simp: read_op_def Let_def split: if_splits prod.splits option.splits bool.splits
      dest!: read_ident_Some(1) consume_True_len)

lemma watch_clause_len: "watch_clause m r inst g = POk inst' r' \<Longrightarrow> length r' < length r"
  by (auto simp: watch_clause_def split: prod.splits option.splits bool.splits pres.splits sum.splits
      dest!: read_ident_Some(1) consume_True_len read_op_len read_number_len)

function parse_watch :: "bool \<Rightarrow> u8 list \<Rightarrow> il_inst \<Rightarrow> u8 \<Rightarrow> il_inst pres" where
  "parse_watch adc_mode r inst cur_group =
     (case watch_clause adc_mode r inst cur_group of
        PErr st r1 \<Rightarrow> PErr st r1
      | POk inst' r1 \<Rightarrow>
          (case consume_char (ch (CHR '','')) r1 of
             (True, r2) \<Rightarrow> parse_watch adc_mode r2 inst' cur_group
           | (False, r2) \<Rightarrow>
               (case consume_char (ch (CHR ''|'')) r2 of
                  (True, r3) \<Rightarrow> parse_watch adc_mode r3 inst' (cur_group + 1)
                | (False, r3) \<Rightarrow> POk inst' r3)))"
  by auto

termination parse_watch
  by (relation "measure (\<lambda>(m, r, inst, g). length r)")
     (auto dest!: watch_clause_len consume_True_len [OF sym] consume_False_len [OF sym])

declare parse_watch.simps [simp del]

section \<open>The \<open>out_ok\<close> and \<open>out_err\<close> sections\<close>

definition set_output :: "bool \<Rightarrow> nat \<Rightarrow> u8 \<Rightarrow> il_inst \<Rightarrow> il_inst" where
  "set_output is_ok idx v inst =
     inst\<lparr>n_outputs := (n_outputs inst)[idx :=
       (if is_ok then (n_outputs inst ! idx)\<lparr>o_ok_value := v\<rparr> else (n_outputs inst ! idx)\<lparr>o_err_value := v\<rparr>)]\<rparr>"

definition out_item :: "bool \<Rightarrow> u8 list \<Rightarrow> il_inst \<Rightarrow> il_inst pres" where
  "out_item is_ok r inst =
     (case read_ident r of
        (None, r1) \<Rightarrow> PErr IL_PARSE_UNEXPECTED_CHAR r1
      | (Some lbl, r1) \<Rightarrow>
          (case consume_char (ch (CHR '':'')) r1 of
             (False, r2) \<Rightarrow> PErr IL_PARSE_UNEXPECTED_CHAR r2
           | (True, r2) \<Rightarrow>
               (case read_number r2 of
                  (None, r3) \<Rightarrow> PErr IL_PARSE_BAD_NUMBER r3
                | (Some val, r3) \<Rightarrow>
                    (if val > 1 then PErr IL_PARSE_BAD_NUMBER r3
                     else (case board_pin_lookup (tok lbl) of
                             None \<Rightarrow> PErr IL_PARSE_UNKNOWN_PIN r3
                           | Some bp \<Rightarrow>
                               (case find_output_idx inst (bp_gpio bp) of
                                  None \<Rightarrow> PErr IL_PARSE_OUTPUT_UNDECL r3
                                | Some idx \<Rightarrow> POk (set_output is_ok idx (ucast val) inst) r3))))))"

lemma out_item_len: "out_item b r inst = POk inst' r' \<Longrightarrow> length r' < length r"
  by (auto simp: out_item_def split: prod.splits option.splits bool.splits if_splits
      dest!: read_ident_Some(1) consume_True_len read_number_len)

function parse_out_block :: "bool \<Rightarrow> u8 list \<Rightarrow> il_inst \<Rightarrow> il_inst pres" where
  "parse_out_block is_ok r inst =
     (case out_item is_ok r inst of
        PErr st r1 \<Rightarrow> PErr st r1
      | POk inst' r1 \<Rightarrow>
          (case consume_char (ch (CHR '','')) r1 of
             (True, r2) \<Rightarrow> parse_out_block is_ok r2 inst'
           | (False, r2) \<Rightarrow> POk inst' r2))"
  by auto

termination parse_out_block
  by (relation "measure (\<lambda>(b, r, inst). length r)")
     (auto dest!: out_item_len consume_True_len [OF sym])

declare parse_out_block.simps [simp del]

lemma parse_cfg_len: "parse_cfg r inst = POk inst' r' \<Longrightarrow> length r' < length r"
proof (induction r inst rule: parse_cfg.induct)
  case (1 r inst)
  obtain inst1 r1 where g: "cfg_group r inst = POk inst1 r1"
    using "1.prems" by (auto simp: parse_cfg.simps [of r inst] split: pres.splits)
  obtain b r2 where b: "consume_char (ch (CHR '','')) r1 = (b, r2)" by force
  show ?case
    using "1.prems" "1.IH" [OF g b [symmetric]] cfg_group_len [OF g] b
      consume_True_len [of "ch (CHR '','')" r1 r2] consume_False_len [of "ch (CHR '','')" r1 r2]
    by (cases b) (auto simp: parse_cfg.simps [of r inst] g)
qed

lemma parse_watch_len: "parse_watch m r inst g = POk inst' r' \<Longrightarrow> length r' < length r"
proof (induction m r inst g rule: parse_watch.induct)
  case (1 m r inst g)
  obtain inst1 r1 where w: "watch_clause m r inst g = POk inst1 r1"
    using "1.prems" by (auto simp: parse_watch.simps [of m r inst g] split: pres.splits)
  obtain b r2 where b: "consume_char (ch (CHR '','')) r1 = (b, r2)" by force
  obtain b' r3 where b': "consume_char (ch (CHR ''|'')) r2 = (b', r3)" by force
  show ?case
    using "1.prems" "1.IH"(1) [OF w b [symmetric]] "1.IH"(2) [OF w b [symmetric] _ b' [symmetric]]
      watch_clause_len [OF w] b b'
      consume_True_len [of "ch (CHR '','')" r1 r2] consume_False_len [of "ch (CHR '','')" r1 r2]
      consume_True_len [of "ch (CHR ''|'')" r2 r3] consume_False_len [of "ch (CHR ''|'')" r2 r3]
    by (cases b; cases b') (auto simp: parse_watch.simps [of m r inst g] w)
qed

lemma parse_out_block_len: "parse_out_block k r inst = POk inst' r' \<Longrightarrow> length r' < length r"
proof (induction k r inst rule: parse_out_block.induct)
  case (1 k r inst)
  obtain inst1 r1 where g: "out_item k r inst = POk inst1 r1"
    using "1.prems" by (auto simp: parse_out_block.simps [of k r inst] split: pres.splits)
  obtain b r2 where b: "consume_char (ch (CHR '','')) r1 = (b, r2)" by force
  show ?case
    using "1.prems" "1.IH" [OF g b [symmetric]] out_item_len [OF g] b
      consume_True_len [of "ch (CHR '','')" r1 r2] consume_False_len [of "ch (CHR '','')" r1 r2]
    by (cases b) (auto simp: parse_out_block.simps [of k r inst] g)
qed

section \<open>The whole text\<close>

text \<open>One section behind a semicolon; the flags are \<open>seen_out_ok\<close> and \<open>seen_out_err\<close>.\<close>

type_synonym section_state = "il_inst \<times> bool \<times> bool"

definition section_body :: "bool \<Rightarrow> u8 list \<Rightarrow> u8 list \<Rightarrow> section_state \<Rightarrow> section_state pres" where
  "section_body adc_mode kw r st =
     (case st of (inst, seen_ok, seen_err) \<Rightarrow>
        if kw = lit ''cfg'' then
          (case parse_cfg r inst of PErr e r1 \<Rightarrow> PErr e r1 | POk i r1 \<Rightarrow> POk (i, seen_ok, seen_err) r1)
        else if kw = lit ''watch'' then
          (case parse_watch adc_mode r inst 0 of PErr e r1 \<Rightarrow> PErr e r1 | POk i r1 \<Rightarrow> POk (i, seen_ok, seen_err) r1)
        else if kw = lit ''out_ok'' then
          (case parse_out_block True r inst of PErr e r1 \<Rightarrow> PErr e r1 | POk i r1 \<Rightarrow> POk (i, True, seen_err) r1)
        else if kw = lit ''out_err'' then
          (case parse_out_block False r inst of PErr e r1 \<Rightarrow> PErr e r1 | POk i r1 \<Rightarrow> POk (i, seen_ok, True) r1)
        else PErr IL_PARSE_UNKNOWN_KEYWORD r)"

definition one_section :: "bool \<Rightarrow> u8 list \<Rightarrow> section_state \<Rightarrow> section_state pres" where
  "one_section adc_mode r st =
     (case read_ident r of
        (None, r1) \<Rightarrow> PErr IL_PARSE_UNEXPECTED_CHAR r1
      | (Some kw, r1) \<Rightarrow>
          (case consume_char (ch (CHR ''['')) r1 of
             (False, r2) \<Rightarrow> PErr IL_PARSE_UNEXPECTED_CHAR r2
           | (True, r2) \<Rightarrow>
               (case section_body adc_mode (tok kw) r2 st of
                  PErr e r3 \<Rightarrow> PErr e r3
                | POk st' r3 \<Rightarrow>
                    (case consume_char (ch (CHR '']'')) r3 of
                       (False, r4) \<Rightarrow> PErr IL_PARSE_UNEXPECTED_CHAR r4
                     | (True, r4) \<Rightarrow> POk st' r4))))"

lemma section_body_len: "section_body m kw r st = POk st' r' \<Longrightarrow> length r' < length r"
  by (auto simp: section_body_def split: prod.splits if_splits pres.splits
      dest: parse_cfg_len parse_watch_len parse_out_block_len)

lemma one_section_len: "one_section m r st = POk st' r' \<Longrightarrow> length r' < length r"
  by (auto simp: one_section_def split: prod.splits option.splits bool.splits pres.splits
      dest!: read_ident_Some(1) consume_True_len section_body_len)

function parse_sections :: "bool \<Rightarrow> u8 list \<Rightarrow> section_state \<Rightarrow> section_state pres" where
  "parse_sections adc_mode r st =
     (case consume_char (ch (CHR '';'')) r of
        (False, r1) \<Rightarrow> POk st r1
      | (True, r1) \<Rightarrow>
          (case one_section adc_mode r1 st of
             PErr e r2 \<Rightarrow> PErr e r2
           | POk st' r2 \<Rightarrow> parse_sections adc_mode r2 st'))"
  by auto

termination parse_sections
  by (relation "measure (\<lambda>(m, r, st). length r)")
     (auto dest!: one_section_len consume_True_len [OF sym])

declare parse_sections.simps [simp del]

text \<open>\<open>Inl (status, offset)\<close> on failure, the offset being \<open>None\<close> where the code leaves \<open>*err_offset\<close> alone.\<close>

definition parse_finish :: "il_inst \<Rightarrow> bool \<Rightarrow> bool \<Rightarrow> il_parse_status + il_inst" where
  "parse_finish inst seen_ok seen_err =
     (if unat (n_output_count inst) > 0 \<and> \<not> seen_ok then Inl IL_PARSE_MISSING_OUT_OK
      else if unat (n_output_count inst) > 0 \<and> \<not> seen_err then Inl IL_PARSE_MISSING_OUT_ERR
      else if list_ex (\<lambda>q. o_ok_value q = o_err_value q) (take (unat (n_output_count inst)) (n_outputs inst))
      then Inl IL_PARSE_OUTPUT_VALUE_MISMATCH
      else Inr (inst\<lparr>n_tf_state := IL_TF_UNEVALUATED\<rparr>))"

definition il_parse_impl :: "bool \<Rightarrow> u8 list \<Rightarrow> (il_parse_status \<times> nat option) + il_inst" where
  "il_parse_impl adc_mode text =
     (if text = [] then Inl (IL_PARSE_EMPTY, None)
      else (case read_ident text of
        (None, r) \<Rightarrow> Inl (IL_PARSE_UNEXPECTED_CHAR, Some (length text - length r))
      | (Some nm, r) \<Rightarrow>
          (if length (tok nm) \<ge> IL_NAME_MAX then Inl (IL_PARSE_NAME_TOO_LONG, Some (length text - length r))
           else
             (let inst = zero_inst\<lparr>n_name := tok nm @ drop (length (tok nm)) (n_name zero_inst)\<rparr> in
              case parse_sections adc_mode r (inst, False, False) of
                PErr st r1 \<Rightarrow> Inl (st, Some (length text - length r1))
              | POk (inst', seen_ok, seen_err) r1 \<Rightarrow>
                  (if skip_ws r1 \<noteq> [] then Inl (IL_PARSE_UNEXPECTED_CHAR, Some (length text - length (skip_ws r1)))
                   else (case parse_finish inst' seen_ok seen_err of
                           Inl st \<Rightarrow> Inl (st, None)
                         | Inr i \<Rightarrow> Inr i))))))"

definition il_parse :: "u8 list \<Rightarrow> (il_parse_status \<times> nat option) + il_inst" where
  "il_parse text = il_parse_impl False text"

definition il_parse_adc :: "u8 list \<Rightarrow> (il_parse_status \<times> nat option) + il_inst" where
  "il_parse_adc text = il_parse_impl True text"

definition gp1_il :: "u8 list" where
  "gp1_il = lit ''gp1il;cfg[(gp1):in,up,debounce_4,(gp0):oc,up];watch[gp1:1];watch[_nodesdead:0];out_ok[gp0:1];out_err[gp0:0]''"

section \<open>What the parser guarantees\<close>

definition ins :: "il_inst \<Rightarrow> il_input list" where "ins inst = take (unat (n_input_count inst)) (n_inputs inst)"
definition wts :: "il_inst \<Rightarrow> il_watch list" where "wts inst = take (unat (n_watch_count inst)) (n_watches inst)"
definition outs :: "il_inst \<Rightarrow> il_output list" where "outs inst = take (unat (n_output_count inst)) (n_outputs inst)"

definition gpio_input :: "il_input \<Rightarrow> bool" where
  "gpio_input i \<longleftrightarrow> i_mode i \<in> {IL_PIN_MODE_IN, IL_PIN_MODE_IN_PU, IL_PIN_MODE_IN_PD} \<and> unat (i_phys_id i) < 30 \<and>
     i_hyst i = 0 \<and> (i_debounce_depth i = 0 \<or> 2 \<le> unat (i_debounce_depth i) \<and> unat (i_debounce_depth i) \<le> 15)"

definition adc_input :: "il_input \<Rightarrow> bool" where
  "adc_input i \<longleftrightarrow> i_mode i = IL_PIN_MODE_ADC \<and> unat (i_phys_id i) < 30 \<and> i_debounce_depth i = 0 \<and>
     unat (i_oversample_exp i) \<le> 4 \<and> unat (i_sh_cyc i) \<le> 63"

definition virtual_input :: "il_input \<Rightarrow> bool" where
  "virtual_input i \<longleftrightarrow> i_mode i = IL_PIN_MODE_VIRTUAL \<and> i_phys_id i \<in> snd ` set k_virt_pins \<and>
     i_debounce_depth i = 0 \<and> i_hyst i = 0"

definition stream_input :: "il_input \<Rightarrow> bool" where
  "stream_input i \<longleftrightarrow> i_mode i = IL_PIN_MODE_ADC_STREAM \<and> unat (i_oversample_exp i) \<le> 4 \<and>
     unat (i_sh_cyc i) \<le> 2 \<and> i_debounce_depth i = 0 \<and> i_hyst i = 0"

definition input_ok :: "bool \<Rightarrow> il_input \<Rightarrow> bool" where
  "input_ok adc i \<longleftrightarrow> gpio_input i \<or> adc_input i \<or> (if adc then stream_input i else virtual_input i)"

definition watch_ok :: "il_input list \<Rightarrow> il_watch \<Rightarrow> bool" where
  "watch_ok is w \<longleftrightarrow> unat (w_input_idx w) < length is \<and> w_op w \<le> IL_OP_GE \<and> unat (w_group w) < IL_MAX_WATCHES \<and>
     (i_hyst (is ! unat (w_input_idx w)) \<noteq> 0 \<longrightarrow> w_op w \<noteq> IL_OP_EQ \<and> w_op w \<noteq> IL_OP_NE)"

definition output_ok :: "il_output \<Rightarrow> bool" where
  "output_ok q \<longleftrightarrow> unat (o_phys_id q) < 30 \<and> o_ok_value q \<le> 1 \<and> o_err_value q \<le> 1 \<and> o_open_drain q \<le> 2"

definition inst_inv :: "bool \<Rightarrow> il_inst \<Rightarrow> bool" where [inv_defs]:
  "inst_inv adc inst \<longleftrightarrow>
     length (n_inputs inst) = IL_MAX_INPUTS \<and> length (n_watches inst) = IL_MAX_WATCHES \<and>
     length (n_outputs inst) = IL_MAX_OUTPUTS \<and> length (n_name inst) = IL_NAME_MAX \<and>
     unat (n_input_count inst) \<le> IL_MAX_INPUTS \<and> unat (n_watch_count inst) \<le> IL_MAX_WATCHES \<and>
     unat (n_output_count inst) \<le> IL_MAX_OUTPUTS \<and>
     list_all (input_ok adc) (ins inst) \<and> list_all (watch_ok (ins inst)) (wts inst) \<and>
     list_all output_ok (outs inst) \<and>
     (\<not> adc \<longrightarrow> distinct (map i_phys_id (ins inst) @ map o_phys_id (outs inst)))"

definition inst_wf :: "il_inst \<Rightarrow> bool" where [inv_defs]:
  "inst_wf inst \<longleftrightarrow> inst_inv False inst \<and> list_all (\<lambda>q. o_ok_value q \<noteq> o_err_value q) (outs inst) \<and>
     n_tf_state inst = IL_TF_UNEVALUATED"

lemma length_ins: "inst_inv a inst \<Longrightarrow> length (ins inst) = unat (n_input_count inst)"
  by (simp add: inst_inv_def ins_def)

lemma length_wts: "inst_inv a inst \<Longrightarrow> length (wts inst) = unat (n_watch_count inst)"
  by (simp add: inst_inv_def wts_def)

lemma watch_ok_append: "watch_ok is w \<Longrightarrow> watch_ok (is @ js) w"
  by (auto simp: watch_ok_def nth_append)

lemma push_input_lists:
  assumes "inst_inv a inst" "unat (n_input_count inst) < IL_MAX_INPUTS"
  shows "ins (push_input i inst) = ins inst @ [i]" "wts (push_input i inst) = wts inst"
    "outs (push_input i inst) = outs inst"
    "unat (n_input_count (push_input i inst)) = unat (n_input_count inst) + 1"
  using assms unat_inc_u8 [of "n_input_count inst"]
  by (simp_all add: push_input_def ins_def wts_def outs_def inst_inv_def take_Suc_list_update il_bounds)

lemma push_output_lists:
  assumes "inst_inv a inst" "unat (n_output_count inst) < IL_MAX_OUTPUTS"
  shows "outs (push_output i inst) = outs inst @ [i]" "wts (push_output i inst) = wts inst"
    "ins (push_output i inst) = ins inst"
    "unat (n_output_count (push_output i inst)) = unat (n_output_count inst) + 1"
  using assms unat_inc_u8 [of "n_output_count inst"]
  by (simp_all add: push_output_def ins_def wts_def outs_def inst_inv_def take_Suc_list_update il_bounds)

lemma push_watch_lists:
  assumes "inst_inv a inst" "unat (n_watch_count inst) < IL_MAX_WATCHES"
  shows "wts (push_watch i inst) = wts inst @ [i]" "ins (push_watch i inst) = ins inst"
    "outs (push_watch i inst) = outs inst"
    "unat (n_watch_count (push_watch i inst)) = unat (n_watch_count inst) + 1"
  using assms unat_inc_u8 [of "n_watch_count inst"]
  by (simp_all add: push_watch_def ins_def wts_def outs_def inst_inv_def take_Suc_list_update il_bounds)

lemma push_input_inv:
  assumes "inst_inv a inst" "unat (n_input_count inst) < IL_MAX_INPUTS" "input_ok a i"
    "\<not> a \<Longrightarrow> i_phys_id i \<notin> set (map i_phys_id (ins inst) @ map o_phys_id (outs inst))"
  shows "inst_inv a (push_input i inst)"
proof -
  note l = push_input_lists [OF assms(1,2), of i]
  have "list_all (watch_ok (ins inst @ [i])) (wts inst)"
    using assms(1) watch_ok_append by (auto simp: inst_inv_def list_all_iff)
  moreover have "length (n_inputs (push_input i inst)) = IL_MAX_INPUTS"
    "length (n_watches (push_input i inst)) = IL_MAX_WATCHES"
    "length (n_outputs (push_input i inst)) = IL_MAX_OUTPUTS" "length (n_name (push_input i inst)) = IL_NAME_MAX"
    "n_watch_count (push_input i inst) = n_watch_count inst"
    "n_output_count (push_input i inst) = n_output_count inst"
    using assms(1) by (simp_all add: push_input_def inst_inv_def)
  ultimately show ?thesis using assms unfolding inst_inv_def l by auto
qed

lemma push_output_inv:
  assumes "inst_inv a inst" "unat (n_output_count inst) < IL_MAX_OUTPUTS" "output_ok i"
    "\<not> a \<Longrightarrow> o_phys_id i \<notin> set (map i_phys_id (ins inst) @ map o_phys_id (outs inst))"
  shows "inst_inv a (push_output i inst)"
proof -
  note l = push_output_lists [OF assms(1,2), of i]
  have "length (n_inputs (push_output i inst)) = IL_MAX_INPUTS"
    "length (n_watches (push_output i inst)) = IL_MAX_WATCHES"
    "length (n_outputs (push_output i inst)) = IL_MAX_OUTPUTS" "length (n_name (push_output i inst)) = IL_NAME_MAX"
    "n_watch_count (push_output i inst) = n_watch_count inst"
    "n_input_count (push_output i inst) = n_input_count inst"
    using assms(1) by (simp_all add: push_output_def inst_inv_def)
  then show ?thesis using assms unfolding inst_inv_def l by auto
qed

lemma push_watch_inv:
  assumes "inst_inv a inst" "unat (n_watch_count inst) < IL_MAX_WATCHES" "watch_ok (ins inst) w"
  shows "inst_inv a (push_watch w inst)"
proof -
  note l = push_watch_lists [OF assms(1,2), of w]
  have "length (n_inputs (push_watch w inst)) = IL_MAX_INPUTS"
    "length (n_watches (push_watch w inst)) = IL_MAX_WATCHES"
    "length (n_outputs (push_watch w inst)) = IL_MAX_OUTPUTS" "length (n_name (push_watch w inst)) = IL_NAME_MAX"
    "n_output_count (push_watch w inst) = n_output_count inst"
    "n_input_count (push_watch w inst) = n_input_count inst"
    using assms(1) by (simp_all add: push_watch_def inst_inv_def)
  then show ?thesis using assms unfolding inst_inv_def l by auto
qed

lemma set_output_inv:
  assumes "inst_inv a inst" "find_output_idx inst pid = Some idx" "v \<le> 1"
  shows "inst_inv a (set_output k idx v inst)"
proof -
  have idx: "idx < length (outs inst)"
    using find_idx_SomeD [OF assms(2) [unfolded find_output_idx_def]] by (simp add: outs_def)
  have nth: "n_outputs inst ! idx = outs inst ! idx" using idx by (simp add: outs_def)
  let ?q = "if k then (outs inst ! idx)\<lparr>o_ok_value := v\<rparr> else (outs inst ! idx)\<lparr>o_err_value := v\<rparr>"
  have o: "outs (set_output k idx v inst) = (outs inst)[idx := ?q]"
    by (simp add: outs_def set_output_def take_update_swap nth [unfolded outs_def])
  have "output_ok (outs inst ! idx)" using assms(1) idx by (simp add: inst_inv_def list_all_length)
  then have "output_ok ?q" using assms(3) by (simp add: output_ok_def)
  then have "list_all output_ok ((outs inst)[idx := ?q])"
    using assms(1) set_update_subset_insert [of "outs inst" idx ?q] by (auto simp: inst_inv_def list_all_iff)
  moreover have "map o_phys_id ((outs inst)[idx := ?q]) = map o_phys_id (outs inst)"
    by (rule nth_equalityI) (use idx in \<open>auto simp: nth_list_update\<close>)
  moreover have "ins (set_output k idx v inst) = ins inst" "wts (set_output k idx v inst) = wts inst"
    by (simp_all add: ins_def wts_def set_output_def)
  moreover have "length (n_inputs (set_output k idx v inst)) = IL_MAX_INPUTS"
    "length (n_watches (set_output k idx v inst)) = IL_MAX_WATCHES"
    "length (n_outputs (set_output k idx v inst)) = IL_MAX_OUTPUTS"
    "length (n_name (set_output k idx v inst)) = IL_NAME_MAX"
    "n_output_count (set_output k idx v inst) = n_output_count inst"
    "n_watch_count (set_output k idx v inst) = n_watch_count inst"
    "n_input_count (set_output k idx v inst) = n_input_count inst"
    using assms(1) by (simp_all add: set_output_def inst_inv_def)
  ultimately show ?thesis using assms(1) unfolding inst_inv_def o by simp
qed

definition cfg_ok :: "pin_cfg \<Rightarrow> bool" where
  "cfg_ok g \<longleftrightarrow>
     (if g_is_adc g then g_is_input g \<and> g_mode g = IL_PIN_MODE_ADC \<and> unat (g_oversample g) \<le> 4 \<and> unat (g_sh g) \<le> 63
      else if g_is_input g
      then g_mode g \<in> {IL_PIN_MODE_IN, IL_PIN_MODE_IN_PU, IL_PIN_MODE_IN_PD} \<and>
           (g_debounce g = 0 \<or> 2 \<le> unat (g_debounce g) \<and> unat (g_debounce g) \<le> 15)
      else g_out_od g \<le> 2)"

lemma cfg_mode_ok: "cfg_mode m = Some g \<Longrightarrow> cfg_ok g"
  by (auto simp: cfg_mode_def cfg_ok_def Let_def word_le_nat_alt split: if_splits)

lemma unat_ucast_u16_u8: "unat (n :: u16) < 256 \<Longrightarrow> unat (ucast n :: u8) = unat n"
  by (simp add: unsigned_ucast_eq take_bit_eq_mod)

lemma cfg_qualifier_ok:
  assumes "cfg_ok g" "cfg_qualifier g m = Inr g'"
  shows "cfg_ok g'"
proof -
  have "samplenum_to_exp n \<noteq> 0xFF \<Longrightarrow> unat (samplenum_to_exp n) \<le> 4" for n
    by (auto simp: samplenum_to_exp_def split: if_splits)
  moreover have "\<not> n > 63 \<Longrightarrow> unat (ucast n :: u8) \<le> 63" for n :: u16
    by (simp add: word_less_nat_alt unat_ucast_u16_u8)
  moreover have "\<not> n < 2 \<Longrightarrow> \<not> n > 15 \<Longrightarrow> 2 \<le> unat (ucast n :: u8) \<and> unat (ucast n :: u8) \<le> 15" for n :: u16
    by (simp add: word_less_nat_alt unat_ucast_u16_u8)
  ultimately show ?thesis
    using assms by (auto simp: cfg_ok_def cfg_qualifier_def split: if_splits option.splits)
qed

lemma cfg_qualifiers_ok: "cfg_ok g \<Longrightarrow> cfg_qualifiers g ms = Inr g' \<Longrightarrow> cfg_ok g'"
  by (induction ms arbitrary: g) (auto split: sum.splits dest: cfg_qualifier_ok)

lemma find_input_None: "find_input_idx inst pid = None \<longleftrightarrow> pid \<notin> set (map i_phys_id (ins inst))"
  by (auto simp: find_input_idx_def find_idx_None_set ins_def)

lemma find_output_None: "find_output_idx inst pid = None \<longleftrightarrow> pid \<notin> set (map o_phys_id (outs inst))"
  by (auto simp: find_output_idx_def find_idx_None_set outs_def)

lemma record_pin_inv:
  assumes "inst_inv a inst" "cfg_ok g" "record_pin g l inst = Inr inst'"
  shows "inst_inv a inst'"
proof -
  obtain bp where bp: "board_pin_lookup l = Some bp"
    using assms(3) by (auto simp: record_pin_def split: option.splits)
  let ?pid = "bp_gpio bp"
  have r: "unat ?pid < 30" by (rule board_pin_lookup_range [OF bp])
  have fresh: "?pid \<notin> set (map i_phys_id (ins inst) @ map o_phys_id (outs inst))"
    using assms(3) bp find_input_None [of inst ?pid] find_output_None [of inst ?pid]
    by (auto simp: record_pin_def Let_def split: if_splits)
  show ?thesis
  proof (cases "g_is_input g")
    case True
    let ?i = "\<lparr>i_phys_id = ?pid, i_mode = g_mode g,
                 i_oversample_exp = (if g_is_adc g then g_oversample g else 0),
                 i_sh_cyc = (if g_is_adc g then g_sh g else 0),
                 i_debounce_depth = (if g_is_adc g then 0 else g_debounce g),
                 i_hyst = (if g_is_adc g then g_hyst g else 0)\<rparr>"
    have "inst' = push_input ?i inst" "unat (n_input_count inst) < IL_MAX_INPUTS"
      using assms(3) bp True by (auto simp: record_pin_def Let_def split: if_splits)
    moreover have "input_ok a ?i"
      using assms(2) True r
      by (cases "g_is_adc g") (auto simp: input_ok_def gpio_input_def adc_input_def cfg_ok_def)
    ultimately show ?thesis using push_input_inv [OF assms(1)] fresh by simp
  next
    case False
    let ?q = "\<lparr>o_phys_id = ?pid, o_ok_value = 0, o_err_value = 0, o_open_drain = g_out_od g\<rparr>"
    have "inst' = push_output ?q inst" "unat (n_output_count inst) < IL_MAX_OUTPUTS"
      using assms(3) bp False by (auto simp: record_pin_def Let_def split: if_splits)
    moreover have "output_ok ?q"
      using assms(2) False r by (auto simp: output_ok_def cfg_ok_def split: if_splits)
    ultimately show ?thesis using push_output_inv [OF assms(1)] fresh by simp
  qed
qed

lemma record_pins_inv:
  "inst_inv a inst \<Longrightarrow> cfg_ok g \<Longrightarrow> record_pins g ls inst = Inr inst' \<Longrightarrow> inst_inv a inst'"
  by (induction ls arbitrary: inst) (auto split: sum.splits dest: record_pin_inv)

lemma cfg_group_inv: "inst_inv a inst \<Longrightarrow> cfg_group r inst = POk inst' r' \<Longrightarrow> inst_inv a inst'"
  by (auto simp: cfg_group_def split: pres.splits option.splits sum.splits
      dest: cfg_mode_ok cfg_qualifiers_ok record_pins_inv)

lemma parse_cfg_inv: "inst_inv a inst \<Longrightarrow> parse_cfg r inst = POk inst' r' \<Longrightarrow> inst_inv a inst'"
proof (induction r inst rule: parse_cfg.induct)
  case (1 r inst)
  obtain inst1 r1 where g: "cfg_group r inst = POk inst1 r1"
    using "1.prems"(2) by (auto simp: parse_cfg.simps [of r inst] split: pres.splits)
  obtain b r2 where b: "consume_char (ch (CHR '','')) r1 = (b, r2)" by force
  show ?case
    using "1.prems" "1.IH" [OF g b [symmetric]] cfg_group_inv [OF _ g] b
    by (cases b) (auto simp: parse_cfg.simps [of r inst] g)
qed

lemma virt_lookup_mem: "virt_lookup s \<noteq> 0xFF \<Longrightarrow> virt_lookup s \<in> snd ` set k_virt_pins"
  by (auto simp: virt_lookup_def split: option.splits dest!: map_of_SomeD intro: rev_image_eqI)

lemma virt_not_gpio: "v \<in> snd ` set k_virt_pins \<Longrightarrow> \<not> unat v < 30"
  by (auto simp: k_virt_pins_def il_virt_defs)

lemma outs_gpio: "inst_inv a inst \<Longrightarrow> q \<in> set (outs inst) \<Longrightarrow> unat (o_phys_id q) < 30"
  by (auto simp: inst_inv_def list_all_iff output_ok_def)

lemma find_input_len: "find_input_idx inst pid = Some i \<Longrightarrow> i < length (ins inst)"
  using find_idx_SomeD [of "\<lambda>i. i_phys_id i = pid" "ins inst" i] by (simp add: find_input_idx_def ins_def)

lemma adc_stat_le: "adc_stat s = Some v \<Longrightarrow> unat v \<le> 4"
  by (simp add: adc_stat_def split: if_splits)

lemma adc_win_le: "adc_win s = Some v \<Longrightarrow> unat v \<le> 2"
  by (simp add: adc_win_def split: if_splits)

lemma adc_operand_bounds:
  assumes "adc_operand s = Inr (ain, stat, win)"
  shows "unat stat \<le> 4" "unat win \<le> 2"
proof -
  define pin where "pin = takeWhile (\<lambda>c. c \<noteq> UNDERSCORE) s"
  define r where "r = dropWhile (\<lambda>c. c \<noteq> UNDERSCORE) s"
  define t where "t = takeWhile (\<lambda>c. c \<noteq> UNDERSCORE) (tl r)"
  define r2 where "r2 = dropWhile (\<lambda>c. c \<noteq> UNDERSCORE) (tl r)"
  have eq: "(case board_pin_lookup pin of None \<Rightarrow> Inl IL_PARSE_UNKNOWN_PIN
      | Some bp \<Rightarrow> (if r = [] then Inr (bp_adc_channel bp, 0, 0)
          else if r2 = [] then Inl IL_PARSE_UNEXPECTED_CHAR
          else (case adc_stat t of None \<Rightarrow> Inl IL_PARSE_UNKNOWN_MODE
            | Some stat \<Rightarrow> (case adc_win (tl r2) of None \<Rightarrow> Inl IL_PARSE_UNKNOWN_MODE
                | Some win \<Rightarrow> Inr (bp_adc_channel bp, stat, win))))) = Inr (ain, stat, win)"
    using assms unfolding adc_operand_def Let_def pin_def r_def t_def r2_def .
  then have "stat = 0 \<and> win = 0 \<or> adc_stat t = Some stat \<and> adc_win (tl r2) = Some win"
    by (cases "board_pin_lookup pin"; cases "r = []"; cases "r2 = []"; cases "adc_stat t"; cases "adc_win (tl r2)")
       simp_all
  then show "unat stat \<le> 4" "unat win \<le> 2" using adc_stat_le adc_win_le by auto
qed

lemma resolve_operand_inv:
  assumes inv: "inst_inv a inst" and r: "resolve_operand a lbl inst = Inr (idx, inst')"
  shows "inst_inv a inst'" "idx < length (ins inst')" "n_watch_count inst' = n_watch_count inst"
proof -
  have "inst_inv a inst' \<and> idx < length (ins inst') \<and> n_watch_count inst' = n_watch_count inst"
  proof (cases a)
    case True
    obtain ain stat win where o: "adc_operand (tok lbl) = Inr (ain, stat, win)"
      using r True by (auto simp: resolve_operand_def resolve_adc_stream_def split: sum.splits)
    let ?P = "\<lambda>i. i_mode i = IL_PIN_MODE_ADC_STREAM \<and> i_phys_id i = ain \<and> i_oversample_exp i = stat \<and> i_sh_cyc i = win"
    let ?i = "\<lparr>i_phys_id = ain, i_mode = IL_PIN_MODE_ADC_STREAM,
                         i_oversample_exp = stat, i_sh_cyc = win, i_debounce_depth = 0, i_hyst = 0\<rparr>"
    show ?thesis
    proof (cases "find_idx ?P (ins inst)")
      case None
      then have eq: "unat (n_input_count inst) < IL_MAX_INPUTS" "idx = unat (n_input_count inst)"
        "inst' = push_input ?i inst"
        using r True o by (auto simp: resolve_operand_def resolve_adc_stream_def ins_def split: if_splits)
      have "input_ok a ?i" using adc_operand_bounds [OF o] True by (simp add: input_ok_def stream_input_def)
      then have "inst_inv a inst'" unfolding eq(3) by (intro push_input_inv [OF inv eq(1)]) (use True in simp_all)
      then show ?thesis using push_input_lists [OF inv eq(1), of ?i] eq length_ins [OF inv]
        by (simp add: push_input_def)
    next
      case (Some i)
      then show ?thesis
        using r True o inv find_idx_SomeD [OF Some]
        by (auto simp: resolve_operand_def resolve_adc_stream_def ins_def)
    qed
  next
    case False
    show ?thesis
    proof (cases "hd lbl = UNDERSCORE")
      case u: True
      let ?v = "virt_lookup (tok lbl)"
      let ?i = "\<lparr>i_phys_id = ?v, i_mode = IL_PIN_MODE_VIRTUAL,
                 i_oversample_exp = 0, i_sh_cyc = 0, i_debounce_depth = 0, i_hyst = 0\<rparr>"
      have v: "?v \<in> snd ` set k_virt_pins"
        using r False u by (intro virt_lookup_mem) (auto simp: resolve_operand_def Let_def split: if_splits)
      show ?thesis
      proof (cases "find_input_idx inst ?v")
        case None
        then have eq: "unat (n_input_count inst) < IL_MAX_INPUTS" "idx = unat (n_input_count inst)"
          "inst' = push_input ?i inst"
          using r False u by (auto simp: resolve_operand_def Let_def split: if_splits)
        have fresh: "?v \<notin> set (map i_phys_id (ins inst) @ map o_phys_id (outs inst))"
          using None find_input_None [of inst ?v] outs_gpio [OF inv] virt_not_gpio [OF v] by auto
        have "inst_inv a inst'" unfolding eq(3)
          by (rule push_input_inv [OF inv eq(1)]) (use v False fresh in \<open>simp_all add: input_ok_def virtual_input_def\<close>)
        then show ?thesis using push_input_lists [OF inv eq(1), of ?i] eq length_ins [OF inv]
          by (simp add: push_input_def)
      next
        case (Some i)
        then show ?thesis using r False u inv find_input_len [OF Some]
          by (auto simp: resolve_operand_def Let_def split: if_splits)
      qed
    next
      case nu: False
      then show ?thesis using r False inv
        by (auto simp: resolve_operand_def split: option.splits dest: find_input_len)
    qed
  qed
  then show "inst_inv a inst'" "idx < length (ins inst')" "n_watch_count inst' = n_watch_count inst" by auto
qed

lemma watch_op_le: "watch_op s = Some v \<Longrightarrow> v \<le> IL_OP_GE"
  by (simp add: watch_op_def il_op_defs word_le_nat_alt split: if_splits)

lemma read_op_le: "read_op r = POk op r' \<Longrightarrow> op \<le> IL_OP_GE"
  by (auto simp: read_op_def Let_def il_op_defs [unfolded IL_OP_GE_def] split: if_splits prod.splits option.splits bool.splits
      dest: watch_op_le)

lemma add_watch_inv:
  assumes inv: "inst_inv a inst" and idx: "idx < length (ins inst)" and op: "op \<le> IL_OP_GE"
    and g: "unat grp \<le> unat (n_watch_count inst)" and r: "add_watch idx op val grp inst = Inr inst'"
  shows "inst_inv a inst'" "unat (n_watch_count inst') = unat (n_watch_count inst) + 1"
proof -
  let ?w = "\<lparr>w_input_idx = word_of_nat idx, w_op = op, w_threshold = val, w_group = grp\<rparr>"
  have lt: "unat (n_watch_count inst) < IL_MAX_WATCHES" and eq: "inst' = push_watch ?w inst"
    and h: "i_hyst (n_inputs inst ! idx) \<noteq> 0 \<longrightarrow> op \<noteq> IL_OP_EQ \<and> op \<noteq> IL_OP_NE"
    using r by (auto simp: add_watch_def split: if_splits)
  have "length (ins inst) \<le> 7" using inv by (simp add: inst_inv_def ins_def il_bounds)
  then have u: "unat (word_of_nat idx :: u8) = idx" using idx by (simp add: unat_of_nat)
  have "n_inputs inst ! idx = ins inst ! idx" using idx by (simp add: ins_def)
  then have "watch_ok (ins inst) ?w" using idx op g lt h by (simp add: watch_ok_def u)
  then show "inst_inv a inst'" unfolding eq by (rule push_watch_inv [OF inv lt])
  show "unat (n_watch_count inst') = unat (n_watch_count inst) + 1"
    unfolding eq by (rule push_watch_lists(4) [OF inv lt])
qed

lemma watch_clause_inv:
  assumes "inst_inv a inst" "unat g \<le> unat (n_watch_count inst)" "watch_clause a r inst g = POk inst' r'"
  shows "inst_inv a inst'" "unat (n_watch_count inst') = unat (n_watch_count inst) + 1"
proof -
  obtain lbl op r2 r3 val idx inst1 where c: "read_op r2 = POk op r3"
    "resolve_operand a lbl inst = Inr (idx, inst1)" "add_watch idx op val g inst1 = Inr inst'"
    using assms(3)
    by (auto simp: watch_clause_def split: prod.splits option.splits bool.splits pres.splits sum.splits)
  note i = resolve_operand_inv [OF assms(1) c(2)]
  have g1: "unat g \<le> unat (n_watch_count inst1)" using assms(2) i(3) by simp
  show "inst_inv a inst'" "unat (n_watch_count inst') = unat (n_watch_count inst) + 1"
    using add_watch_inv [OF i(1,2) read_op_le [OF c(1)] g1 c(3)] i(3) by simp_all
qed

lemma parse_watch_inv:
  "inst_inv a inst \<Longrightarrow> unat g \<le> unat (n_watch_count inst) \<Longrightarrow> parse_watch a r inst g = POk inst' r'
    \<Longrightarrow> inst_inv a inst'"
proof (induction a r inst g rule: parse_watch.induct)
  case (1 a r inst g)
  obtain inst1 r1 where w: "watch_clause a r inst g = POk inst1 r1"
    using "1.prems"(3) by (auto simp: parse_watch.simps [of a r inst g] split: pres.splits)
  note i = watch_clause_inv [OF "1.prems"(1,2) w]
  have "unat (n_watch_count inst1) \<le> 8" using i(1) by (simp add: inst_inv_def il_bounds)
  then have "unat (g + 1) = unat g + 1" using i(2) "1.prems"(2) by (intro unat_inc_u8) linarith
  then have g1: "unat g \<le> unat (n_watch_count inst1)" "unat (g + 1) \<le> unat (n_watch_count inst1)"
    using i(2) "1.prems"(2) by simp_all
  obtain b r2 where b: "consume_char (ch (CHR '','')) r1 = (b, r2)" by force
  obtain b' r3 where b': "consume_char (ch (CHR ''|'')) r2 = (b', r3)" by force
  show ?case
    using "1.prems"(3) "1.IH"(1) [OF w b [symmetric] _ i(1) g1(1)]
      "1.IH"(2) [OF w b [symmetric] _ b' [symmetric] _ i(1) g1(2)] i(1) b b'
    by (cases b; cases b') (auto simp: parse_watch.simps [of a r inst g] w)
qed

lemma out_item_inv:
  assumes "inst_inv a inst" "out_item k r inst = POk inst' r'"
  shows "inst_inv a inst'"
proof -
  obtain pid idx and val :: u16 where c: "\<not> val > 1" "find_output_idx inst pid = Some idx"
    "inst' = set_output k idx (ucast val) inst"
    using assms(2) by (auto simp: out_item_def split: prod.splits option.splits bool.splits if_splits)
  have "ucast val \<le> (1 :: u8)" using c(1) by (simp add: word_less_nat_alt word_le_nat_alt unat_ucast_u16_u8)
  then show ?thesis using set_output_inv [OF assms(1) c(2)] c(3) by simp
qed

lemma parse_out_block_inv: "inst_inv a inst \<Longrightarrow> parse_out_block k r inst = POk inst' r' \<Longrightarrow> inst_inv a inst'"
proof (induction k r inst rule: parse_out_block.induct)
  case (1 k r inst)
  obtain inst1 r1 where g: "out_item k r inst = POk inst1 r1"
    using "1.prems"(2) by (auto simp: parse_out_block.simps [of k r inst] split: pres.splits)
  obtain b r2 where b: "consume_char (ch (CHR '','')) r1 = (b, r2)" by force
  show ?case
    using "1.prems" "1.IH" [OF g b [symmetric]] out_item_inv [OF _ g] b
    by (cases b) (auto simp: parse_out_block.simps [of k r inst] g)
qed

lemma one_section_inv:
  assumes "inst_inv a inst" "one_section a r (inst, f1, f2) = POk (inst', g1, g2) r'"
  shows "inst_inv a inst'"
proof -
  obtain kw r2 r3 where "section_body a kw r2 (inst, f1, f2) = POk (inst', g1, g2) r3"
    using assms(2) by (auto simp: one_section_def split: prod.splits option.splits bool.splits pres.splits)
  then show ?thesis
    using assms(1)
    by (auto simp: section_body_def split: if_splits pres.splits
        dest: parse_cfg_inv parse_watch_inv [where g = 0, simplified] parse_out_block_inv)
qed

lemma parse_sections_inv:
  "inst_inv a inst \<Longrightarrow> parse_sections a r (inst, f1, f2) = POk (inst', g1, g2) r' \<Longrightarrow> inst_inv a inst'"
proof (induction a r "(inst, f1, f2)" arbitrary: inst f1 f2 rule: parse_sections.induct)
  case (1 a r)
  obtain b r1 where b: "consume_char (ch (CHR '';'')) r = (b, r1)" by force
  show ?case
  proof (cases b)
    case False
    then show ?thesis using "1.prems" b by (simp add: parse_sections.simps [of a r])
  next
    case True
    then obtain st r2 where s: "one_section a r1 (inst, f1, f2) = POk st r2"
      using "1.prems"(2) b by (auto simp: parse_sections.simps [of a r] split: pres.splits)
    obtain i2 e1 e2 where st: "st = (i2, e1, e2)" by (cases st)
    have "inst_inv a i2" using one_section_inv [OF "1.prems"(1)] s st by blast
    moreover have "parse_sections a r2 (i2, e1, e2) = POk (inst', g1, g2) r'"
      using "1.prems"(2) b True s st by (simp add: parse_sections.simps [of a r])
    ultimately show ?thesis using "1.hyps" [OF b [symmetric] _ s [unfolded st]] True by blast
  qed
qed

lemma tok_name_inv:
  assumes "length (tok nm) < IL_NAME_MAX"
  shows "inst_inv a (zero_inst\<lparr>n_name := tok nm @ drop (length (tok nm)) (n_name zero_inst)\<rparr>)"
  using assms by (simp add: inst_inv_def zero_inst_def ins_def wts_def outs_def il_bounds)

lemma parse_finish_inv:
  assumes "inst_inv a inst" "parse_finish inst f1 f2 = Inr inst'"
  shows "inst_inv a inst' \<and> list_all (\<lambda>q. o_ok_value q \<noteq> o_err_value q) (outs inst') \<and>
    n_tf_state inst' = IL_TF_UNEVALUATED"
proof -
  have "inst' = inst\<lparr>n_tf_state := IL_TF_UNEVALUATED\<rparr>"
    "list_all (\<lambda>q. o_ok_value q \<noteq> o_err_value q) (outs inst)"
    using assms(2) by (auto simp: parse_finish_def outs_def list_ex_iff list_all_iff split: if_splits)
  then show ?thesis using assms(1) by (simp add: inst_inv_def ins_def wts_def outs_def)
qed

lemma il_parse_impl_inv:
  assumes "il_parse_impl a text = Inr inst"
  shows "inst_inv a inst \<and> list_all (\<lambda>q. o_ok_value q \<noteq> o_err_value q) (outs inst) \<and>
    n_tf_state inst = IL_TF_UNEVALUATED"
proof -
  obtain nm r where nm: "read_ident text = (Some nm, r)" "length (tok nm) < IL_NAME_MAX"
    using assms by (auto simp: il_parse_impl_def split: if_splits prod.splits option.splits)
  let ?i = "zero_inst\<lparr>n_name := tok nm @ drop (length (tok nm)) (n_name zero_inst)\<rparr>"
  obtain inst1 f1 f2 r1 where s: "parse_sections a r (?i, False, False) = POk (inst1, f1, f2) r1"
    "parse_finish inst1 f1 f2 = Inr inst"
    using assms nm by (auto simp: il_parse_impl_def Let_def split: if_splits pres.splits sum.splits)
  show ?thesis
    by (rule parse_finish_inv [OF parse_sections_inv [OF tok_name_inv [OF nm(2)] s(1)] s(2)])
qed

lemma il_parse_wf: "il_parse text = Inr inst \<Longrightarrow> inst_wf inst"
  using il_parse_impl_inv [of False "text" inst] by (simp add: il_parse_def inst_wf_def)

text \<open>The interlock the firmware arms into slot 0, as parsed.\<close>

definition gp1_inst :: il_inst where
  "gp1_inst =
     \<lparr>n_name = lit ''gp1il'' @ replicate 11 0, n_input_count = 2, n_watch_count = 2, n_output_count = 1,
      n_tf_state = 0,
      n_inputs =
        [\<lparr>i_phys_id = 1, i_mode = 1, i_oversample_exp = 0, i_sh_cyc = 0, i_debounce_depth = 4, i_hyst = 0\<rparr>,
         \<lparr>i_phys_id = 0xF3, i_mode = 5, i_oversample_exp = 0, i_sh_cyc = 0, i_debounce_depth = 0, i_hyst = 0\<rparr>]
        @ replicate 5 zero_input,
      n_watches =
        [\<lparr>w_input_idx = 0, w_op = 0, w_threshold = 1, w_group = 0\<rparr>,
         \<lparr>w_input_idx = 1, w_op = 0, w_threshold = 0, w_group = 0\<rparr>] @ replicate 6 zero_watch,
      n_outputs = [\<lparr>o_phys_id = 0, o_ok_value = 1, o_err_value = 0, o_open_drain = 2\<rparr>, zero_output]\<rparr>"

lemma gp1_parse: "il_parse gp1_il = Inr gp1_inst"
  by code_simp

text \<open>
  C24. Every text the parser accepts yields a well-formed interlock: counts within the arrays, every
  watch names a declared input, has one of the six operators and an OR-group below 8, no
  hysteresis on equality tests, debounce depths 0 or 2..15 and only on GPIO inputs, hysteresis only
  on ADC inputs, all pins distinct and on the board, output levels 0 or 1 and different, and the
  interlock unevaluated.  (The parser terminates on every text: it is a total function.)
\<close>

theorem il_parse_well_formed:
  assumes "il_parse text = Inr inst"
  shows "inst_wf inst"
  using assms by (rule il_parse_wf)

theorem il_parse_well_formed_witness: "inst_wf gp1_inst"
  by (rule il_parse_well_formed [OF gp1_parse])

text \<open>
  The built-in safety interlock of the firmware parses: two inputs (GP1 with pull-up and debounce
  depth 4, the dead-node counter), both conditions ANDed in one group, and one output, GP0, as an
  open-drain line that is released when OK and driven low on a trip.
\<close>

theorem builtin_interlock_parses:
  "\<exists>inst. il_parse gp1_il = Inr inst \<and>
     map i_phys_id (ins inst) = [1, IL_VIRT_NODES_DEAD] \<and> map i_mode (ins inst) = [IL_PIN_MODE_IN_PU, IL_PIN_MODE_VIRTUAL] \<and>
     map i_debounce_depth (ins inst) = [4, 0] \<and>
     map (\<lambda>w. (w_input_idx w, w_op w, w_threshold w, w_group w)) (wts inst) = [(0, IL_OP_EQ, 1, 0), (1, IL_OP_EQ, 0, 0)] \<and>
     map (\<lambda>q. (o_phys_id q, o_ok_value q, o_err_value q, o_open_drain q)) (outs inst) = [(0, 1, 0, 2)]"
  by (intro exI [of _ gp1_inst] conjI gp1_parse)
     (simp_all add: gp1_inst_def ins_def wts_def outs_def il_mode_defs il_virt_defs il_op_defs)

end
