(* ===== verification/Interlock.thy ===== *)
theory Interlock
  imports Il_Dsl
begin

text \<open>
  The interlock framework (\<^verbatim>\<open>src/node/interlock/interlock.c\<close>): the record that survives resets, boot
  decision, slot administration, evaluation and the per-tick supervision.

  All file-level state is the record \<open>il\<close> (the pin HAL's table included); what the code reads from
  outside during a call (clock, pins, ADC area, the counters behind the virtual inputs, the
  registers the panic record stores) is the record \<open>env\<close>, sampled once per call.  \<open>il_panic\<close> does not
  return: an operation that can panic yields \<open>Panicked s\<close> with the state the reboot will find.
  \<open>sizeof(interlock_persist_t)\<close> is 2856: 8 bytes of header, 10 slots of 4, 24 of crash record, 10
  instances of 148, 10 lengths of 2, 10 texts of 128 and the fingerprint.
\<close>

unbundle bit_operations_syntax

section \<open>State\<close>

definition SHELL_STATUS_OK :: u8 where "SHELL_STATUS_OK = 0"
definition SHELL_STATUS_BAD_ARGS :: u8 where "SHELL_STATUS_BAD_ARGS = 2"
definition SHELL_STATUS_BUSY :: u8 where "SHELL_STATUS_BUSY = 5"

lemmas shell_defs = SHELL_STATUS_OK_def SHELL_STATUS_BAD_ARGS_def SHELL_STATUS_BUSY_def

definition INTERLOCK_SLOT_EMPTY :: u8 where "INTERLOCK_SLOT_EMPTY = 0"
definition INTERLOCK_SLOT_ARMED :: u8 where "INTERLOCK_SLOT_ARMED = 1"
definition INTERLOCK_SLOT_POISONED :: u8 where "INTERLOCK_SLOT_POISONED = 2"

lemmas slot_state_defs = INTERLOCK_SLOT_EMPTY_def INTERLOCK_SLOT_ARMED_def INTERLOCK_SLOT_POISONED_def
lemmas slot_id_defs = INTERLOCK_ID_NONE_def INTERLOCK_ID_NOOP_def INTERLOCK_ID_DSL_def

definition PANIC_NONE :: u8 where "PANIC_NONE = 0"
definition PANIC_PERSIST_MAGIC_BAD :: u8 where "PANIC_PERSIST_MAGIC_BAD = 2"
definition PANIC_PERSIST_VERSION_BAD :: u8 where "PANIC_PERSIST_VERSION_BAD = 3"
definition PANIC_PERSIST_SIZE_BAD :: u8 where "PANIC_PERSIST_SIZE_BAD = 4"

definition sizeof_interlock_persist :: u16 where "sizeof_interlock_persist = 2856"
definition IL_GRACE_MS :: u32 where "IL_GRACE_MS = 250"
definition g_interlock_count :: u8 where "g_interlock_count = 1"
definition IL_STATUS_BUFFER_VERSION :: u8 where "IL_STATUS_BUFFER_VERSION = 3"
definition IL_STATUS_SLOT_NAME_MAX :: nat where "IL_STATUS_SLOT_NAME_MAX = 8"

record slot_persist =
  sp_state :: u8
  sp_id :: u8
  sp_boot_counter :: u8
  sp_latched :: u8

record crash_record =
  cr_last_pc :: u32
  cr_last_lr :: u32
  cr_last_rstsr :: u32
  cr_last_crashed_slot :: u8
  cr_panic_code :: u8
  cr_panic_arg :: u32
  cr_panic_sp :: u32

record persist =
  pe_magic :: u32
  pe_version :: u8
  pe_reserved :: u8
  pe_self_size :: u16
  pe_slots :: "slot_persist list"
  pe_crash :: crash_record
  pe_inst :: "il_inst list"
  pe_dsl_len :: "u16 list"
  pe_dsl_text :: "u8 list list"
  pe_cfg_fingerprint :: u32

record status_slot =
  ss_state :: u8
  ss_id :: u8
  ss_tf :: u8
  ss_bc :: u8
  ss_name :: "u8 list"
  ss_veto_mask :: u8

record status_buffer =
  sb_version :: u8
  sb_num_slots :: u8
  sb_status_seq :: u16
  sb_crash_panic_code :: u8
  sb_stack_hwm :: u16
  sb_slots :: "status_slot list"
  sb_input_vals :: "u16 list list"

record il =
  il_persist :: persist
  il_active_slot :: u8
  il_clear_request :: u8
  il_grace_until :: u32
  il_status :: status_buffer
  il_shift_reg :: "u16 list list"
  il_debounced :: "u8 list list"
  il_last_pass :: "u8 list list"
  il_repush :: bool
  il_hal :: hal

record env =
  e_plat :: plat
  e_millis :: u32
  e_stack_hwm :: u16
  e_last_m2s_rx_ms :: u32
  e_nodes_dead :: u8
  e_pc :: u32
  e_sp :: u32

datatype 'a outcome = Panicked il | Returned 'a il

definition slot_of :: "il \<Rightarrow> nat \<Rightarrow> slot_persist" where "slot_of s i = pe_slots (il_persist s) ! i"
definition inst_of :: "il \<Rightarrow> nat \<Rightarrow> il_inst" where "inst_of s i = pe_inst (il_persist s) ! i"

definition set_slot :: "nat \<Rightarrow> slot_persist \<Rightarrow> il \<Rightarrow> il" where
  "set_slot i sp s = s\<lparr>il_persist := (il_persist s)\<lparr>pe_slots := (pe_slots (il_persist s))[i := sp]\<rparr>\<rparr>"

definition set_inst :: "nat \<Rightarrow> il_inst \<Rightarrow> il \<Rightarrow> il" where
  "set_inst i v s = s\<lparr>il_persist := (il_persist s)\<lparr>pe_inst := (pe_inst (il_persist s))[i := v]\<rparr>\<rparr>"

section \<open>Requests, grace window, runtime state\<close>

definition interlock_request_global_clear :: "il \<Rightarrow> il" where
  "interlock_request_global_clear s = s\<lparr>il_clear_request := 1\<rparr>"

definition il_in_grace :: "env \<Rightarrow> il \<Rightarrow> bool" where
  "il_in_grace e s \<longleftrightarrow> 0 < sint (il_grace_until s - e_millis e)"

definition interlock_begin_grace :: "env \<Rightarrow> il \<Rightarrow> il" where
  "interlock_begin_grace e s = s\<lparr>il_grace_until := e_millis e + IL_GRACE_MS\<rparr>"

definition clear_slot_runtime :: "nat \<Rightarrow> il \<Rightarrow> il" where
  "clear_slot_runtime i s =
     s\<lparr>il_shift_reg := (il_shift_reg s)[i := replicate IL_MAX_INPUTS 0],
       il_debounced := (il_debounced s)[i := replicate IL_MAX_INPUTS 0],
       il_last_pass := (il_last_pass s)[i := replicate IL_MAX_WATCHES 0]\<rparr>"

definition saturate16 :: "u32 \<Rightarrow> u16" where "saturate16 v = (if v > 65535 then 65535 else ucast v)"

definition read_virtual_input :: "env \<Rightarrow> u8 \<Rightarrow> u16" where
  "read_virtual_input e virt_id =
     (if virt_id = IL_VIRT_T_SINCE_M2S then saturate16 ((e_millis e - e_last_m2s_rx_ms e) div 1000)
      else if virt_id = IL_VIRT_UPTIME then saturate16 (e_millis e div 1000)
      else if virt_id = IL_VIRT_STACK_HWM then e_stack_hwm e
      else if virt_id = IL_VIRT_NODES_DEAD then ucast (e_nodes_dead e)
      else if virt_id \<ge> IL_VIRT_ADC_BASE \<and> virt_id < IL_VIRT_ADC_BASE + IL_VIRT_ADC_COUNT
      then (let off = virt_id - IL_VIRT_ADC_BASE in p_adc_stat (e_plat e) (off div 4) (off mod 4 + 1))
      else 0)"

section \<open>Boot\<close>

definition slot_valid :: "persist \<Rightarrow> nat \<Rightarrow> bool" where
  "slot_valid p i \<longleftrightarrow>
     (let s = pe_slots p ! i; L = pe_dsl_len p ! i in
      \<not> sp_state s > INTERLOCK_SLOT_POISONED \<and>
      (sp_id s = INTERLOCK_ID_NONE \<or> sp_id s = INTERLOCK_ID_NOOP \<or> sp_id s = INTERLOCK_ID_DSL) \<and>
      \<not> (sp_state s = INTERLOCK_SLOT_ARMED \<and> sp_id s = INTERLOCK_ID_NONE) \<and>
      \<not> (sp_state s = INTERLOCK_SLOT_ARMED \<and> sp_id s = INTERLOCK_ID_DSL \<and> (L = 0 \<or> unat L \<ge> IL_DSL_MAX)))"

definition persist_is_valid :: "persist \<Rightarrow> bool" where
  "persist_is_valid p \<longleftrightarrow>
     pe_magic p = INTERLOCK_MAGIC \<and> pe_version p = INTERLOCK_PERSIST_VERSION \<and>
     pe_self_size p = sizeof_interlock_persist \<and> list_all (slot_valid p) [0..<INTERLOCK_MAX_SLOTS] \<and>
     \<not> (cr_last_crashed_slot (pe_crash p) \<noteq> INTERLOCK_CRASHED_SLOT_NONE \<and>
        unat (cr_last_crashed_slot (pe_crash p)) \<ge> INTERLOCK_MAX_SLOTS)"

definition il_panic :: "env \<Rightarrow> u8 \<Rightarrow> u32 \<Rightarrow> il \<Rightarrow> il" where
  "il_panic e code arg s = s\<lparr>il_persist := (il_persist s)\<lparr>pe_crash :=
     \<lparr>cr_last_pc = e_pc e, cr_last_lr = 0, cr_last_rstsr = 0, cr_last_crashed_slot = il_active_slot s,
      cr_panic_code = code, cr_panic_arg = arg, cr_panic_sp = e_sp e\<rparr>\<rparr>\<rparr>"

definition verify_persist :: "persist \<Rightarrow> (u8 \<times> u32) option" where
  "verify_persist p =
     (if pe_magic p \<noteq> INTERLOCK_MAGIC then Some (PANIC_PERSIST_MAGIC_BAD, pe_magic p)
      else if pe_version p \<noteq> INTERLOCK_PERSIST_VERSION then Some (PANIC_PERSIST_VERSION_BAD, ucast (pe_version p))
      else if pe_self_size p \<noteq> sizeof_interlock_persist then Some (PANIC_PERSIST_SIZE_BAD, ucast (pe_self_size p))
      else None)"

definition verify_persist_or_panic :: "env \<Rightarrow> il \<Rightarrow> 'a outcome \<Rightarrow> 'a outcome" where
  "verify_persist_or_panic e s k =
     (case verify_persist (il_persist s) of Some (code, arg) \<Rightarrow> Panicked (il_panic e code arg s) | None \<Rightarrow> k)"

definition empty_slot :: slot_persist where
  "empty_slot = \<lparr>sp_state = INTERLOCK_SLOT_EMPTY, sp_id = INTERLOCK_ID_NONE, sp_boot_counter = 0, sp_latched = 0\<rparr>"

definition persist_cold_init :: persist where
  "persist_cold_init =
     \<lparr>pe_magic = INTERLOCK_MAGIC, pe_version = INTERLOCK_PERSIST_VERSION, pe_reserved = 0,
      pe_self_size = sizeof_interlock_persist, pe_slots = replicate INTERLOCK_MAX_SLOTS empty_slot,
      pe_crash = \<lparr>cr_last_pc = 0, cr_last_lr = 0, cr_last_rstsr = 0,
        cr_last_crashed_slot = INTERLOCK_CRASHED_SLOT_NONE, cr_panic_code = PANIC_NONE, cr_panic_arg = 0,
        cr_panic_sp = 0\<rparr>,
      pe_inst = replicate INTERLOCK_MAX_SLOTS zero_inst, pe_dsl_len = replicate INTERLOCK_MAX_SLOTS 0,
      pe_dsl_text = replicate INTERLOCK_MAX_SLOTS (replicate IL_DSL_MAX 0), pe_cfg_fingerprint = 0\<rparr>"

definition boot_slot :: "slot_persist \<Rightarrow> slot_persist" where
  "boot_slot s =
     (if sp_state s = INTERLOCK_SLOT_ARMED then
        (if sp_boot_counter s \<ge> INTERLOCK_MAX_BOOT_ATTEMPTS then s\<lparr>sp_state := INTERLOCK_SLOT_POISONED\<rparr>
         else s\<lparr>sp_boot_counter := sp_boot_counter s + 1\<rparr>)
      else s)"

definition interlock_boot_decide :: "persist \<Rightarrow> persist" where
  "interlock_boot_decide p =
     (if \<not> persist_is_valid p then persist_cold_init else p\<lparr>pe_slots := map boot_slot (pe_slots p)\<rparr>)"

section \<open>Slot administration\<close>

definition interlock_armed_count :: "il \<Rightarrow> u8" where
  "interlock_armed_count s =
     word_of_nat (length (filter (\<lambda>i. sp_state (slot_of s i) = INTERLOCK_SLOT_ARMED) [0..<INTERLOCK_MAX_SLOTS]))"

definition interlock_summary_flags :: "il \<Rightarrow> u8" where
  "interlock_summary_flags s =
     (let sb = il_status s in
      if list_ex (\<lambda>i. ss_state (sb_slots sb ! i) = INTERLOCK_SLOT_ARMED \<and> ss_tf (sb_slots sb ! i) = IL_TF_FALSE)
           [0..<min (unat (sb_num_slots sb)) INTERLOCK_MAX_SLOTS]
      then 1 else 0)"

definition interlock_request_repush :: "il \<Rightarrow> il" where
  "interlock_request_repush s = s\<lparr>il_repush := True\<rparr>"

definition interlock_take_repush :: "il \<Rightarrow> bool \<times> il" where
  "interlock_take_repush s = (il_repush s, s\<lparr>il_repush := False\<rparr>)"

definition interlock_set_slot_tf :: "u8 \<Rightarrow> u8 \<Rightarrow> il \<Rightarrow> il" where
  "interlock_set_slot_tf slot tf s =
     (if unat slot \<ge> INTERLOCK_MAX_SLOTS then s
      else set_inst (unat slot) ((inst_of s (unat slot))\<lparr>n_tf_state := tf\<rparr>) s)"

text \<open>The compiled-in registry has one entry, \<open>noop\<close> (id 1): its init and terminate do nothing.\<close>

definition noop_tick :: "u8 \<Rightarrow> il \<Rightarrow> il" where
  "noop_tick slot s = interlock_set_slot_tf slot IL_TF_TRUE s"

definition interlock_arm_slot_compiled :: "env \<Rightarrow> u8 \<Rightarrow> u8 \<Rightarrow> il \<Rightarrow> u8 outcome" where
  "interlock_arm_slot_compiled e slot ilid s =
     verify_persist_or_panic e s
       (let i = unat slot in
        if i \<ge> INTERLOCK_MAX_SLOTS then Returned SHELL_STATUS_BAD_ARGS s
        else if ilid = INTERLOCK_ID_NONE then Returned SHELL_STATUS_BAD_ARGS s
        else if ilid = INTERLOCK_ID_DSL then Returned SHELL_STATUS_BAD_ARGS s
        else if ilid > g_interlock_count then Returned SHELL_STATUS_BAD_ARGS s
        else if sp_state (slot_of s i) = INTERLOCK_SLOT_ARMED then Returned SHELL_STATUS_BUSY s
        else
          (let s1 = set_slot i \<lparr>sp_state = INTERLOCK_SLOT_ARMED, sp_id = ilid, sp_boot_counter = 0, sp_latched = 0\<rparr> s;
               s2 = clear_slot_runtime i (set_inst i zero_inst s1)
           in Returned SHELL_STATUS_OK (s2\<lparr>il_active_slot := INTERLOCK_CRASHED_SLOT_NONE\<rparr>)))"

definition interlock_arm_slot_noop :: "env \<Rightarrow> u8 \<Rightarrow> il \<Rightarrow> u8 outcome" where
  "interlock_arm_slot_noop e slot s = interlock_arm_slot_compiled e slot INTERLOCK_ID_NOOP s"

definition interlock_disarm_slot :: "env \<Rightarrow> u8 \<Rightarrow> il \<Rightarrow> u8 outcome" where
  "interlock_disarm_slot e slot s =
     verify_persist_or_panic e s
       (let i = unat slot; sp = slot_of s i in
        if i \<ge> INTERLOCK_MAX_SLOTS then Returned SHELL_STATUS_BAD_ARGS s
        else
          (let s0 = (if sp_state sp = INTERLOCK_SLOT_ARMED \<and> sp_id sp \<noteq> INTERLOCK_ID_NONE \<and>
                        sp_id sp \<noteq> INTERLOCK_ID_DSL \<and> sp_id sp \<le> g_interlock_count
                     then s\<lparr>il_active_slot := INTERLOCK_CRASHED_SLOT_NONE\<rparr> else s);
               s1 = s0\<lparr>il_hal := hal_pin_release_slot slot (il_hal s0)\<rparr>;
               s2 = set_inst i zero_inst (set_slot i empty_slot s1);
               s3 = s2\<lparr>il_persist := (il_persist s2)\<lparr>pe_dsl_len := (pe_dsl_len (il_persist s2))[i := 0]\<rparr>\<rparr>
           in Returned SHELL_STATUS_OK (clear_slot_runtime i s3)))"

definition map_input_mode :: "u8 \<Rightarrow> hal_pin_mode" where
  "map_input_mode m =
     (if m = IL_PIN_MODE_IN then HAL_PIN_MODE_GPIO_IN
      else if m = IL_PIN_MODE_IN_PU then HAL_PIN_MODE_GPIO_IN_PU
      else if m = IL_PIN_MODE_IN_PD then HAL_PIN_MODE_GPIO_IN_PD
      else if m = IL_PIN_MODE_ADC then HAL_PIN_MODE_ADC_SCAN
      else HAL_PIN_MODE_UNCLAIMED)"

definition claim_input :: "plat \<Rightarrow> u8 \<Rightarrow> il_input \<Rightarrow> hal \<Rightarrow> hal_pin_claim_status \<times> hal" where
  "claim_input pl slot i h =
     (if i_mode i = IL_PIN_MODE_VIRTUAL then (HAL_PIN_CLAIM_OK, h)
      else if i_mode i = IL_PIN_MODE_ADC then hal_pin_claim_adc pl (i_phys_id i) slot h
      else if map_input_mode (i_mode i) = HAL_PIN_MODE_UNCLAIMED then (HAL_PIN_CLAIM_BAD_MODE, h)
      else hal_pin_claim pl (i_phys_id i) slot (map_input_mode (i_mode i)) h)"

definition claim_output :: "plat \<Rightarrow> u8 \<Rightarrow> il_output \<Rightarrow> hal \<Rightarrow> hal_pin_claim_status \<times> hal" where
  "claim_output pl slot q h =
     hal_pin_claim_output pl (o_phys_id q) slot (o_ok_value q) (o_err_value q) (o_open_drain q) h"

fun claim_all :: "('a \<Rightarrow> hal \<Rightarrow> hal_pin_claim_status \<times> hal) \<Rightarrow> 'a list \<Rightarrow> hal \<Rightarrow> hal_pin_claim_status \<times> hal" where
  "claim_all f [] h = (HAL_PIN_CLAIM_OK, h)"
| "claim_all f (x # xs) h =
     (case f x h of (st, h') \<Rightarrow> if st \<noteq> HAL_PIN_CLAIM_OK then (st, h') else claim_all f xs h')"

definition claim_inst_pins :: "plat \<Rightarrow> u8 \<Rightarrow> il_inst \<Rightarrow> hal \<Rightarrow> hal_pin_claim_status \<times> hal" where
  "claim_inst_pins pl slot inst h =
     (case claim_all (claim_input pl slot) (ins inst) h of (st, h1) \<Rightarrow>
        if st \<noteq> HAL_PIN_CLAIM_OK then (st, hal_pin_release_slot slot h1)
        else (case claim_all (claim_output pl slot) (outs inst) h1 of (st2, h2) \<Rightarrow>
                if st2 \<noteq> HAL_PIN_CLAIM_OK then (st2, hal_pin_release_slot slot h2)
                else (HAL_PIN_CLAIM_OK, h2)))"

fun claim_code :: "hal_pin_claim_status \<Rightarrow> u8" where
  "claim_code HAL_PIN_CLAIM_OK = 0" | "claim_code HAL_PIN_CLAIM_NO_SUCH_PIN = 1"
| "claim_code HAL_PIN_CLAIM_RESERVED = 2" | "claim_code HAL_PIN_CLAIM_TAKEN = 3"
| "claim_code HAL_PIN_CLAIM_CAP_MISSING = 4" | "claim_code HAL_PIN_CLAIM_BAD_MODE = 5"
| "claim_code HAL_PIN_CLAIM_VALUE_MISMATCH = 6"

text \<open>Storing the parsed instance and its text into the surviving record and arming the slot.\<close>

definition commit_dsl :: "nat \<Rightarrow> il_inst \<Rightarrow> u8 list \<Rightarrow> il \<Rightarrow> il" where
  "commit_dsl i parsed txt s =
     (let s1 = set_inst i parsed s; p = il_persist s1;
          p1 = p\<lparr>pe_dsl_len := (pe_dsl_len p)[i := word_of_nat (length txt)],
                 pe_dsl_text := (pe_dsl_text p)[i := (txt @ drop (length txt) (pe_dsl_text p ! i))[length txt := 0]]\<rparr>;
          s2 = set_slot i \<lparr>sp_state = INTERLOCK_SLOT_ARMED, sp_id = INTERLOCK_ID_DSL, sp_boot_counter = 0,
                           sp_latched = 0\<rparr> (s1\<lparr>il_persist := p1\<rparr>)
      in clear_slot_runtime i s2)"

definition interlock_set_slot_dsl :: "env \<Rightarrow> u8 \<Rightarrow> u8 list \<Rightarrow> il \<Rightarrow> (u8 \<times> u8 list) outcome" where
  "interlock_set_slot_dsl e slot txt s =
     verify_persist_or_panic e s
       (let i = unat slot in
        if i \<ge> INTERLOCK_MAX_SLOTS then Returned (SHELL_STATUS_BAD_ARGS, [0, 0, 0]) s
        else if txt = [] \<or> length txt \<ge> IL_DSL_MAX then Returned (SHELL_STATUS_BAD_ARGS, [0, 0, 0]) s
        else if sp_state (slot_of s i) = INTERLOCK_SLOT_ARMED then Returned (SHELL_STATUS_BUSY, [0, 0, 0]) s
        else (case il_parse txt of
          Inl (pst, off) \<Rightarrow>
            (let err_off = (case off of None \<Rightarrow> 0 | Some n \<Rightarrow> (word_of_nat n :: u16)) in
             Returned (SHELL_STATUS_BAD_ARGS,
               [parse_code pst, ucast (err_off AND 0xFF), ucast (drop_bit 8 err_off AND 0xFF)]) s)
        | Inr parsed \<Rightarrow>
            (case claim_inst_pins (e_plat e) slot parsed (il_hal s) of (cs, h) \<Rightarrow>
               if cs \<noteq> HAL_PIN_CLAIM_OK
               then Returned (SHELL_STATUS_BUSY, [0xFF, claim_code cs, 0]) (s\<lparr>il_hal := h\<rparr>)
               else Returned (SHELL_STATUS_OK, [0, 0, 0]) (commit_dsl i parsed txt (s\<lparr>il_hal := h\<rparr>)))))"

definition poison :: "nat \<Rightarrow> il \<Rightarrow> il" where
  "poison i s = set_slot i ((slot_of s i)\<lparr>sp_state := INTERLOCK_SLOT_POISONED\<rparr>) s"

definition restore_slot :: "env \<Rightarrow> nat \<Rightarrow> il \<Rightarrow> il" where
  "restore_slot e i s =
     (let sp = slot_of s i in
      if sp_state sp \<noteq> INTERLOCK_SLOT_ARMED then s
      else if sp_id sp \<noteq> INTERLOCK_ID_DSL then
        clear_slot_runtime i
          (if sp_id sp \<noteq> INTERLOCK_ID_NONE \<and> sp_id sp \<le> g_interlock_count
           then s\<lparr>il_active_slot := INTERLOCK_CRASHED_SLOT_NONE\<rparr> else s)
      else
        (let L = unat (pe_dsl_len (il_persist s) ! i) in
         if L = 0 \<or> L \<ge> IL_DSL_MAX then poison i s
         else (case il_parse (take L (pe_dsl_text (il_persist s) ! i)) of
           Inl _ \<Rightarrow> poison i s
         | Inr parsed \<Rightarrow>
             (case claim_inst_pins (e_plat e) (word_of_nat i) parsed (il_hal s) of (cs, h) \<Rightarrow>
                if cs \<noteq> HAL_PIN_CLAIM_OK then poison i (s\<lparr>il_hal := h\<rparr>)
                else clear_slot_runtime i
                       (set_inst i (parsed\<lparr>n_tf_state := IL_TF_UNEVALUATED\<rparr>) (s\<lparr>il_hal := h\<rparr>))))))"

definition interlock_warm_restore :: "env \<Rightarrow> il \<Rightarrow> unit outcome" where
  "interlock_warm_restore e s =
     verify_persist_or_panic e s (Returned () (fold (restore_slot e) [0..<INTERLOCK_MAX_SLOTS] s))"

text \<open>Recording which configuration the armed slots came from.\<close>

definition set_fingerprint :: "u32 \<Rightarrow> il \<Rightarrow> il" where
  "set_fingerprint fp s = s\<lparr>il_persist := (il_persist s)\<lparr>pe_cfg_fingerprint := fp\<rparr>\<rparr>"

section \<open>Evaluation\<close>

text \<open>The AND of the clauses of each group, ORed over the groups.\<close>

definition il_dnf_result :: "il_inst \<Rightarrow> bool list \<Rightarrow> bool" where
  "il_dnf_result inst wpass =
     (let n = unat (n_watch_count inst); grp = (\<lambda>i. unat (w_group (n_watches inst ! i))) in
      if n = 0 then True
      else (let max_group = foldl (\<lambda>m i. if grp i > m then grp i else m) 0 [0..<n] in
            list_ex (\<lambda>g. let members = filter (\<lambda>i. grp i = g) [0..<n] in
                           members \<noteq> [] \<and> list_all ((!) wpass) members) [0..<Suc max_group]))"

text \<open>One input: the value, the shift register and the debounced level.\<close>

definition debounce :: "u8 \<Rightarrow> u16 \<Rightarrow> u16 \<Rightarrow> u8 \<Rightarrow> u16 \<times> u8" where
  "debounce depth raw sr deb =
     (let mask = (push_bit (unat depth) 1 - 1 :: u16);
          sr' = (push_bit 1 sr OR (raw AND 1)) AND mask
      in (sr', if sr' = mask then 1 else if sr' = 0 then 0 else deb))"

definition read_input :: "env \<Rightarrow> hal \<Rightarrow> il_input \<Rightarrow> u16 \<Rightarrow> u8 \<Rightarrow> u16 \<times> u16 \<times> u8" where
  "read_input e h i sr deb =
     (if i_mode i = IL_PIN_MODE_ADC then (hal_pin_read_adc (e_plat e) (i_phys_id i) h, sr, deb)
      else if i_mode i = IL_PIN_MODE_VIRTUAL then (read_virtual_input e (i_phys_id i), sr, deb)
      else
        (let raw = (ucast (hal_pin_read (e_plat e) (i_phys_id i)) AND 1 :: u16) in
         if i_debounce_depth i \<ge> 2
         then (case debounce (i_debounce_depth i) raw sr deb of (sr', deb') \<Rightarrow> (ucast deb', sr', deb'))
         else (raw, sr, deb)))"

text \<open>The threshold a watch compares with, relaxed by the hysteresis once it passes.\<close>

definition eff_threshold :: "u8 \<Rightarrow> u16 \<Rightarrow> u16 \<Rightarrow> bool \<Rightarrow> u16" where
  "eff_threshold op t hyst lastp =
     (if hyst \<noteq> 0 \<and> lastp then
        (if op = IL_OP_GT \<or> op = IL_OP_GE then (if t > hyst then t - hyst else 0)
         else if op = IL_OP_LT \<or> op = IL_OP_LE
         then (let sm = (ucast t + ucast hyst :: u32) in if sm > 65535 then 65535 else ucast sm)
         else t)
      else t)"

definition compare :: "u8 \<Rightarrow> u16 \<Rightarrow> u16 \<Rightarrow> u16 \<Rightarrow> bool" where
  "compare op v t teff =
     (if op = IL_OP_EQ then v = t else if op = IL_OP_NE then v \<noteq> t else if op = IL_OP_LT then v < teff
      else if op = IL_OP_GT then v > teff else if op = IL_OP_LE then v \<le> teff
      else if op = IL_OP_GE then v \<ge> teff else False)"

definition watch_pass :: "il_inst \<Rightarrow> u16 list \<Rightarrow> u8 list \<Rightarrow> nat \<Rightarrow> bool" where
  "watch_pass inst vals lastp i =
     (let w = n_watches inst ! i; idx = unat (w_input_idx w); t = w_threshold w;
          hyst = i_hyst (n_inputs inst ! idx)
      in compare (w_op w) (vals ! idx) t (eff_threshold (w_op w) t hyst (lastp ! i \<noteq> 0)))"

text \<open>\<open>eval_slot\<close>: the input snapshot, the new instance and the new rows of the runtime arrays.\<close>

definition eval_slot ::
    "env \<Rightarrow> hal \<Rightarrow> il_inst \<Rightarrow> u16 list \<Rightarrow> u8 list \<Rightarrow> u8 list \<Rightarrow> u16 list \<times> il_inst \<times> u16 list \<times> u8 list \<times> u8 list" where
  "eval_slot e h inst sr deb lastp =
     (let n = unat (n_input_count inst); nw = unat (n_watch_count inst);
          reads = map (\<lambda>i. read_input e h (n_inputs inst ! i) (sr ! i) (deb ! i)) [0..<n];
          vals = map fst reads @ replicate (IL_MAX_INPUTS - n) 0;
          wpass = map (watch_pass inst vals lastp) [0..<nw]
      in (vals,
          inst\<lparr>n_tf_state := (if il_dnf_result inst wpass then IL_TF_TRUE else IL_TF_FALSE)\<rparr>,
          map (fst \<circ> snd) reads @ drop n sr,
          map (snd \<circ> snd) reads @ drop n deb,
          map (\<lambda>b. if b then 1 else 0) wpass @ drop nw lastp))"

section \<open>The tick\<close>

definition tick_clear :: "env \<Rightarrow> il \<Rightarrow> il" where
  "tick_clear e s =
     (if il_clear_request s \<noteq> 0
      then interlock_begin_grace e
             (s\<lparr>il_clear_request := 0,
                il_persist := (il_persist s)\<lparr>pe_slots := map (\<lambda>sp. sp\<lparr>sp_latched := 0\<rparr>) (pe_slots (il_persist s))\<rparr>\<rparr>)
      else s)"

definition tick_eval_slot :: "env \<Rightarrow> nat \<Rightarrow> il \<Rightarrow> il" where
  "tick_eval_slot e i s =
     (let sp = slot_of s i in
      if sp_state sp \<noteq> INTERLOCK_SLOT_ARMED then s
      else if sp_id sp = INTERLOCK_ID_DSL then
        (case eval_slot e (il_hal s) (inst_of s i) (il_shift_reg s ! i) (il_debounced s ! i) (il_last_pass s ! i) of
           (vals, inst, sr, deb, lastp) \<Rightarrow>
             (set_inst i inst s)\<lparr>il_active_slot := word_of_nat i,
               il_shift_reg := (il_shift_reg s)[i := sr], il_debounced := (il_debounced s)[i := deb],
               il_last_pass := (il_last_pass s)[i := lastp],
               il_status := (il_status s)\<lparr>sb_input_vals := (sb_input_vals (il_status s))[i := vals]\<rparr>\<rparr>)
      else if sp_id sp \<noteq> INTERLOCK_ID_NONE \<and> sp_id sp \<le> g_interlock_count
      then noop_tick (word_of_nat i) (s\<lparr>il_active_slot := word_of_nat i\<rparr>)
      else s)"

definition tick_eval :: "env \<Rightarrow> il \<Rightarrow> il" where
  "tick_eval e s = (fold (tick_eval_slot e) [0..<INTERLOCK_MAX_SLOTS] s)\<lparr>il_active_slot := INTERLOCK_CRASHED_SLOT_NONE\<rparr>"

definition tick_latch :: "env \<Rightarrow> il \<Rightarrow> il" where
  "tick_latch e s =
     (if il_in_grace e s then s
      else s\<lparr>il_persist := (il_persist s)\<lparr>pe_slots :=
        map (\<lambda>(sp, inst). if sp_state sp = INTERLOCK_SLOT_ARMED \<and> n_tf_state inst = IL_TF_FALSE
                           then sp\<lparr>sp_latched := 1\<rparr> else sp)
            (zip (pe_slots (il_persist s)) (pe_inst (il_persist s)))\<rparr>\<rparr>)"

definition slot_vetoes :: "il \<Rightarrow> nat \<Rightarrow> bool" where
  "slot_vetoes s i \<longleftrightarrow> sp_state (slot_of s i) = INTERLOCK_SLOT_ARMED \<and> sp_latched (slot_of s i) \<noteq> 0"

definition veto_mask :: "il \<Rightarrow> il_slotmask" where
  "veto_mask s = foldl (\<lambda>m i. if slot_vetoes s i then m OR push_bit i 1 else m) 0 [0..<INTERLOCK_MAX_SLOTS]"

definition managed_mask :: il_slotmask where "managed_mask = push_bit INTERLOCK_MAX_SLOTS 1 - 1"

definition c_name :: "nat \<Rightarrow> u8 list \<Rightarrow> u8 list" where
  "c_name n nm = (let t = takeWhile (\<lambda>c. c \<noteq> 0) (take n nm) in t @ replicate (n - length t) 0)"

definition status_slot_of :: "il \<Rightarrow> il_slotmask \<Rightarrow> nat \<Rightarrow> status_slot" where
  "status_slot_of s veto i =
     (let sp = slot_of s i in
      \<lparr>ss_state = sp_state sp, ss_id = sp_id sp,
       ss_tf = (if sp_state sp = INTERLOCK_SLOT_ARMED then n_tf_state (inst_of s i) else IL_TF_UNEVALUATED),
       ss_bc = sp_boot_counter sp,
       ss_name = (if sp_state sp = INTERLOCK_SLOT_ARMED \<and> sp_id sp = INTERLOCK_ID_DSL
                  then take IL_STATUS_SLOT_NAME_MAX (n_name (inst_of s i))
                  else if sp_state sp = INTERLOCK_SLOT_ARMED \<and> sp_id sp \<noteq> INTERLOCK_ID_NONE \<and> sp_id sp \<le> g_interlock_count
                  then c_name IL_STATUS_SLOT_NAME_MAX (lit ''noop'' @ [0])
                  else replicate IL_STATUS_SLOT_NAME_MAX 0),
       ss_veto_mask = ucast (drop_bit i veto AND 1)\<rparr>)"

definition slot_changed :: "il \<Rightarrow> il_slotmask \<Rightarrow> nat \<Rightarrow> bool" where
  "slot_changed s veto i \<longleftrightarrow>
     (let old = sb_slots (il_status s) ! i; new = status_slot_of s veto i in
      ss_state old \<noteq> ss_state new \<or> ss_tf old \<noteq> ss_tf new)"

definition tick_status :: "env \<Rightarrow> il_slotmask \<Rightarrow> il \<Rightarrow> il" where
  "tick_status e veto s =
     s\<lparr>il_status := (il_status s)\<lparr>sb_version := IL_STATUS_BUFFER_VERSION,
        sb_num_slots := word_of_nat INTERLOCK_MAX_SLOTS,
        sb_status_seq := sb_status_seq (il_status s)
          + word_of_nat (length (filter (slot_changed s veto) [0..<INTERLOCK_MAX_SLOTS])),
        sb_crash_panic_code := cr_panic_code (pe_crash (il_persist s)),
        sb_stack_hwm := e_stack_hwm e,
        sb_slots := map (status_slot_of s veto) [0..<INTERLOCK_MAX_SLOTS]\<rparr>\<rparr>"

definition interlock_tick_all :: "env \<Rightarrow> il \<Rightarrow> unit outcome" where
  "interlock_tick_all e s =
     verify_persist_or_panic e s
       (let s1 = tick_latch e (tick_eval e (tick_clear e s));
            veto = veto_mask s1;
            s2 = s1\<lparr>il_hal := hal_pin_drive_outputs veto managed_mask (il_hal s1)\<rparr>
        in Returned () (tick_status e veto s2))"

section \<open>Reports\<close>

definition interlock_get_slot :: "env \<Rightarrow> u8 \<Rightarrow> il \<Rightarrow> slot_persist option outcome" where
  "interlock_get_slot e slot s =
     verify_persist_or_panic e s
       (Returned (if unat slot \<ge> INTERLOCK_MAX_SLOTS then None else Some (slot_of s (unat slot))) s)"

definition interlock_get_crash :: "env \<Rightarrow> il \<Rightarrow> crash_record outcome" where
  "interlock_get_crash e s = verify_persist_or_panic e s (Returned (pe_crash (il_persist s)) s)"

definition le32_bytes :: "u32 \<Rightarrow> u8 list" where
  "le32_bytes v = [ucast v, ucast (drop_bit 8 v), ucast (drop_bit 16 v), ucast (drop_bit 24 v)]"

definition status_v2_slot :: "il \<Rightarrow> nat \<Rightarrow> u8 list" where
  "status_v2_slot s i =
     (let sp = slot_of s i;
          tf = (if sp_id sp = INTERLOCK_ID_DSL then n_tf_state (inst_of s i) else 0);
          nm = (if sp_id sp = INTERLOCK_ID_DSL then n_name (inst_of s i)
                else if sp_id sp = INTERLOCK_ID_NOOP then lit ''noop'' @ [0] else [0])
      in [sp_state sp, sp_id sp, sp_boot_counter sp, tf] @ c_name IL_NAME_MAX nm)"

definition interlock_build_status_v2 :: "env \<Rightarrow> il \<Rightarrow> u8 list outcome" where
  "interlock_build_status_v2 e s =
     verify_persist_or_panic e s
       (let c = pe_crash (il_persist s) in
        Returned ([2, word_of_nat INTERLOCK_MAX_SLOTS]
          @ concat (map (status_v2_slot s) [0..<INTERLOCK_MAX_SLOTS])
          @ le32_bytes (cr_last_pc c) @ le32_bytes (cr_last_lr c) @ le32_bytes (cr_last_rstsr c)
          @ [cr_last_crashed_slot c]) s)"

text \<open>The boot line: the characters written so far are the accumulator, \<open>cap\<close> the buffer's size.\<close>

fun emit_str :: "nat \<Rightarrow> u8 list \<Rightarrow> u8 list \<Rightarrow> u8 list" where
  "emit_str cap dst [] = dst"
| "emit_str cap dst (c # cs) = (if length dst + 1 < cap then emit_str cap (dst @ [c]) cs else dst)"

definition hex_digit :: "u32 \<Rightarrow> u8" where "hex_digit v = lit ''0123456789abcdef'' ! unat (v AND 0xF)"

definition emit_hex32 :: "nat \<Rightarrow> u8 list \<Rightarrow> u32 \<Rightarrow> u8 list" where
  "emit_hex32 cap dst v =
     (if length dst + 10 \<ge> cap then dst
      else dst @ lit ''0x'' @ map (\<lambda>i. hex_digit (drop_bit (i * 4) v)) [7, 6, 5, 4, 3, 2, 1, 0])"

fun dec_digits :: "nat \<Rightarrow> nat \<Rightarrow> u8 list" where
  "dec_digits 0 v = []"
| "dec_digits (Suc n) v = (if v > 0 then (ch (CHR ''0'') + word_of_nat (v mod 10)) # dec_digits n (v div 10) else [])"

definition emit_dec_small :: "nat \<Rightarrow> u8 list \<Rightarrow> u8 \<Rightarrow> u8 list" where
  "emit_dec_small cap dst v =
     emit_str cap dst (rev (if v = 0 then [ch (CHR ''0'')] else dec_digits 4 (unat v)))"

definition slot_state_char :: "u8 \<Rightarrow> u8" where
  "slot_state_char st =
     (if st = INTERLOCK_SLOT_EMPTY then ch (CHR ''E'') else if st = INTERLOCK_SLOT_ARMED then ch (CHR ''A'')
      else if st = INTERLOCK_SLOT_POISONED then ch (CHR ''P'') else ch (CHR ''?''))"

definition boot_line_slot :: "nat \<Rightarrow> il \<Rightarrow> nat \<Rightarrow> u8 list \<Rightarrow> u8 list" where
  "boot_line_slot cap s i p =
     (let sp = slot_of s i;
          p = emit_str cap p (lit '' sl'');
          p = emit_dec_small cap p (word_of_nat i);
          p = emit_str cap p (lit ''='');
          p = (if length p + 1 < cap then p @ [slot_state_char (sp_state sp)] else p);
          p = emit_str cap p (lit '':'');
          p = emit_dec_small cap p (sp_id sp);
          p = emit_str cap p (lit '':'')
      in emit_dec_small cap p (sp_boot_counter sp))"

definition interlock_format_boot_line :: "nat \<Rightarrow> il \<Rightarrow> u8 list" where
  "interlock_format_boot_line cap s =
     (if cap = 0 then []
      else
        (let c = pe_crash (il_persist s);
             p = emit_str cap [] (lit ''[BOOT_IL]'');
             p = fold (boot_line_slot cap s) [0..<INTERLOCK_MAX_SLOTS] p;
             p = emit_hex32 cap (emit_str cap p (lit '' pc='')) (cr_last_pc c);
             p = emit_hex32 cap (emit_str cap p (lit '' lr='')) (cr_last_lr c);
             p = emit_hex32 cap (emit_str cap p (lit '' rs='')) (cr_last_rstsr c);
             p = emit_str cap p (lit '' cs='');
             p = (if cr_last_crashed_slot c = INTERLOCK_CRASHED_SLOT_NONE
                  then (if length p + 1 < cap then p @ [ch (CHR ''-'')] else p)
                  else emit_dec_small cap p (cr_last_crashed_slot c))
         in if cr_panic_code c \<noteq> PANIC_NONE
            then (let p = emit_dec_small cap (emit_str cap p (lit '' pn='')) (cr_panic_code c);
                      p = emit_hex32 cap (emit_str cap p (lit '' pa='')) (cr_panic_arg c)
                  in emit_hex32 cap (emit_str cap p (lit '' psp='')) (cr_panic_sp c))
            else p))"

section \<open>Shape of the state\<close>

definition rows :: "nat \<Rightarrow> 'a list list \<Rightarrow> bool" where
  "rows n xss \<longleftrightarrow> length xss = INTERLOCK_MAX_SLOTS \<and> list_all (\<lambda>xs. length xs = n) xss"

definition persist_shape :: "persist \<Rightarrow> bool" where [inv_defs]:
  "persist_shape p \<longleftrightarrow> length (pe_slots p) = INTERLOCK_MAX_SLOTS \<and> length (pe_inst p) = INTERLOCK_MAX_SLOTS \<and>
     length (pe_dsl_len p) = INTERLOCK_MAX_SLOTS \<and> rows IL_DSL_MAX (pe_dsl_text p)"

definition il_shape :: "il \<Rightarrow> bool" where [inv_defs]:
  "il_shape s \<longleftrightarrow> persist_shape (il_persist s) \<and> rows IL_MAX_INPUTS (il_shift_reg s) \<and>
     rows IL_MAX_INPUTS (il_debounced s) \<and> rows IL_MAX_WATCHES (il_last_pass s) \<and>
     length (sb_slots (il_status s)) = INTERLOCK_MAX_SLOTS \<and> rows IL_MAX_INPUTS (sb_input_vals (il_status s))"

lemma rows_update: "rows n xss \<Longrightarrow> length xs = n \<Longrightarrow> rows n (xss[i := xs])"
  using set_update_subset_insert [of xss i xs] by (auto simp: rows_def list_all_iff)

lemma rows_nth: "rows n xss \<Longrightarrow> i < INTERLOCK_MAX_SLOTS \<Longrightarrow> length (xss ! i) = n"
  by (simp add: rows_def list_all_length)

lemma slot_sel [simp]:
  "slot_of (s\<lparr>il_active_slot := a\<rparr>) = slot_of s" "inst_of (s\<lparr>il_active_slot := a\<rparr>) = inst_of s"
  "slot_of (s\<lparr>il_hal := h\<rparr>) = slot_of s" "inst_of (s\<lparr>il_hal := h\<rparr>) = inst_of s"
  "slot_of (set_inst i v s) = slot_of s" "inst_of (set_slot i sp s) = inst_of s"
  "slot_of (clear_slot_runtime i s) = slot_of s" "inst_of (clear_slot_runtime i s) = inst_of s"
  "slot_of (s\<lparr>il_status := b\<rparr>) = slot_of s" "inst_of (s\<lparr>il_status := b\<rparr>) = inst_of s"
  "slot_of (s\<lparr>il_grace_until := g\<rparr>) = slot_of s" "inst_of (s\<lparr>il_grace_until := g\<rparr>) = inst_of s"
  by (simp_all add: slot_of_def inst_of_def set_inst_def set_slot_def clear_slot_runtime_def fun_eq_iff)

lemma shape_lengths:
  assumes "il_shape s"
  shows "length (pe_slots (il_persist s)) = INTERLOCK_MAX_SLOTS"
    "length (pe_inst (il_persist s)) = INTERLOCK_MAX_SLOTS"
    "length (pe_dsl_len (il_persist s)) = INTERLOCK_MAX_SLOTS"
  using assms by (simp_all add: il_shape_def persist_shape_def)

lemma slot_of_set_slot:
  "il_shape s \<Longrightarrow> i < INTERLOCK_MAX_SLOTS \<Longrightarrow> slot_of (set_slot i sp s) j = (if j = i then sp else slot_of s j)"
  by (simp add: slot_of_def set_slot_def shape_lengths)

lemma inst_of_set_inst:
  "il_shape s \<Longrightarrow> i < INTERLOCK_MAX_SLOTS \<Longrightarrow> inst_of (set_inst i v s) j = (if j = i then v else inst_of s j)"
  by (simp add: inst_of_def set_inst_def shape_lengths)

section \<open>The evaluation phase\<close>

text \<open>Evaluating a slot touches nothing but that slot's instance, its runtime rows and its row of
  the status buffer.\<close>

definition same_frame :: "il \<Rightarrow> il \<Rightarrow> bool" where
  "same_frame s s' \<longleftrightarrow> pe_slots (il_persist s') = pe_slots (il_persist s) \<and> il_hal s' = il_hal s \<and>
     il_grace_until s' = il_grace_until s \<and> il_clear_request s' = il_clear_request s \<and>
     pe_dsl_len (il_persist s') = pe_dsl_len (il_persist s) \<and> pe_dsl_text (il_persist s') = pe_dsl_text (il_persist s) \<and>
     pe_magic (il_persist s') = pe_magic (il_persist s) \<and> pe_version (il_persist s') = pe_version (il_persist s) \<and>
     pe_self_size (il_persist s') = pe_self_size (il_persist s) \<and> pe_crash (il_persist s') = pe_crash (il_persist s)"

definition same_slot :: "nat \<Rightarrow> il \<Rightarrow> il \<Rightarrow> bool" where
  "same_slot j s s' \<longleftrightarrow> inst_of s' j = inst_of s j \<and> il_shift_reg s' ! j = il_shift_reg s ! j \<and>
     il_debounced s' ! j = il_debounced s ! j \<and> il_last_pass s' ! j = il_last_pass s ! j"

lemma eval_slot_lengths:
  assumes "eval_slot e h inst sr deb lastp = (vals, inst', sr', deb', lastp')"
    "unat (n_input_count inst) \<le> IL_MAX_INPUTS" "unat (n_watch_count inst) \<le> IL_MAX_WATCHES"
    "length sr = IL_MAX_INPUTS" "length deb = IL_MAX_INPUTS" "length lastp = IL_MAX_WATCHES"
  shows "length vals = IL_MAX_INPUTS" "length sr' = IL_MAX_INPUTS" "length deb' = IL_MAX_INPUTS"
    "length lastp' = IL_MAX_WATCHES" "\<exists>tf. inst' = inst\<lparr>n_tf_state := tf\<rparr> \<and> (tf = IL_TF_TRUE \<or> tf = IL_TF_FALSE)"
  using assms by (auto simp: eval_slot_def Let_def)

definition inst_bounded :: "il_inst \<Rightarrow> bool" where
  "inst_bounded inst \<longleftrightarrow> unat (n_input_count inst) \<le> IL_MAX_INPUTS \<and> unat (n_watch_count inst) \<le> IL_MAX_WATCHES"

definition dsl_armed :: "il \<Rightarrow> nat \<Rightarrow> bool" where
  "dsl_armed s i \<longleftrightarrow> sp_state (slot_of s i) = INTERLOCK_SLOT_ARMED \<and> sp_id (slot_of s i) = INTERLOCK_ID_DSL"

text \<open>What the condition of slot \<open>i\<close> evaluates to, on the inputs of \<open>e\<close>, in state \<open>s\<close>.\<close>

definition slot_tf :: "env \<Rightarrow> il \<Rightarrow> nat \<Rightarrow> u8" where
  "slot_tf e s i =
     (if dsl_armed s i
      then n_tf_state (fst (snd (eval_slot e (il_hal s) (inst_of s i) (il_shift_reg s ! i) (il_debounced s ! i)
             (il_last_pass s ! i))))
      else if sp_state (slot_of s i) = INTERLOCK_SLOT_ARMED \<and> sp_id (slot_of s i) \<noteq> INTERLOCK_ID_NONE \<and>
        sp_id (slot_of s i) \<le> g_interlock_count then IL_TF_TRUE
      else n_tf_state (inst_of s i))"

text \<open>Its shift registers, debounced levels and last results after the evaluation.\<close>

definition runtime :: "il \<Rightarrow> nat \<Rightarrow> u16 list \<times> u8 list \<times> u8 list" where
  "runtime s i = (il_shift_reg s ! i, il_debounced s ! i, il_last_pass s ! i)"

definition slot_rt :: "env \<Rightarrow> il \<Rightarrow> nat \<Rightarrow> u16 list \<times> u8 list \<times> u8 list" where
  "slot_rt e s i =
     (if dsl_armed s i
      then snd (snd (eval_slot e (il_hal s) (inst_of s i) (il_shift_reg s ! i) (il_debounced s ! i) (il_last_pass s ! i)))
      else runtime s i)"

lemma eval_step:
  assumes "il_shape s" "i < INTERLOCK_MAX_SLOTS" "dsl_armed s i \<Longrightarrow> inst_bounded (inst_of s i)"
  shows "il_shape (tick_eval_slot e i s)" "same_frame s (tick_eval_slot e i s)"
    "j \<noteq> i \<Longrightarrow> same_slot j s (tick_eval_slot e i s)"
    "inst_of (tick_eval_slot e i s) i = (inst_of s i)\<lparr>n_tf_state := slot_tf e s i\<rparr>"
    "runtime (tick_eval_slot e i s) i = slot_rt e s i"
proof -
  obtain vals inst' sr' deb' lastp' where ev:
    "eval_slot e (il_hal s) (inst_of s i) (il_shift_reg s ! i) (il_debounced s ! i) (il_last_pass s ! i)
       = (vals, inst', sr', deb', lastp')" by (metis prod_cases5)
  have len: "length (il_shift_reg s ! i) = IL_MAX_INPUTS" "length (il_debounced s ! i) = IL_MAX_INPUTS"
    "length (il_last_pass s ! i) = IL_MAX_WATCHES"
    using assms(1,2) by (simp_all add: il_shape_def rows_nth)
  note l = eval_slot_lengths [OF ev _ _ len] and bnd = assms(3) [unfolded inst_bounded_def dsl_armed_def]
  have small: "unat (word_of_nat i :: u8) = i"
    using assms(2) by (simp add: unat_of_nat INTERLOCK_MAX_SLOTS_def)
  have nth: "i < length (pe_inst (il_persist s))" using assms(1,2) by (simp add: shape_lengths)
  have tf: "inst' = (inst_of s i)\<lparr>n_tf_state := n_tf_state inst'\<rparr>"
    using ev by (auto simp: eval_slot_def Let_def)
  let ?s = "tick_eval_slot e i s"
  show "il_shape ?s" using assms(1) ev l bnd
    by (auto simp: tick_eval_slot_def Let_def il_shape_def persist_shape_def set_inst_def rows_update
        noop_tick_def interlock_set_slot_tf_def)
  show "same_frame s ?s" using ev
    by (simp add: tick_eval_slot_def Let_def same_frame_def set_inst_def noop_tick_def interlock_set_slot_tf_def)
  show "j \<noteq> i \<Longrightarrow> same_slot j s ?s" using ev small
    by (simp add: tick_eval_slot_def Let_def same_slot_def inst_of_def set_inst_def noop_tick_def
        interlock_set_slot_tf_def)
  show "inst_of ?s i = (inst_of s i)\<lparr>n_tf_state := slot_tf e s i\<rparr>"
  proof (cases "dsl_armed s i")
    case True
    then have "inst_of ?s i = inst'" using ev nth
      by (simp add: tick_eval_slot_def Let_def inst_of_def set_inst_def dsl_armed_def)
    then show ?thesis using tf ev True by (simp add: slot_tf_def)
  next
    case False
    then show ?thesis
      using small nth assms(2) by (auto simp: tick_eval_slot_def Let_def inst_of_def set_inst_def noop_tick_def
          interlock_set_slot_tf_def slot_tf_def dsl_armed_def)
  qed
  have "i < length (il_shift_reg s)" "i < length (il_debounced s)" "i < length (il_last_pass s)"
    using assms(1,2) by (simp_all add: il_shape_def rows_def)
  then show "runtime ?s i = slot_rt e s i" using ev
    by (simp add: tick_eval_slot_def Let_def slot_rt_def runtime_def dsl_armed_def noop_tick_def set_inst_def
        interlock_set_slot_tf_def)
qed

text \<open>All slots: each condition is evaluated as in the state before the phase.\<close>

lemma slot_tf_cong:
  "same_frame s s' \<Longrightarrow> same_slot j s s' \<Longrightarrow> slot_tf e s' j = slot_tf e s j \<and> dsl_armed s' j = dsl_armed s j \<and>
     slot_rt e s' j = slot_rt e s j"
  by (simp add: slot_tf_def slot_rt_def runtime_def dsl_armed_def same_frame_def same_slot_def slot_of_def)

lemma same_frame_trans: "same_frame s t \<Longrightarrow> same_frame t u \<Longrightarrow> same_frame s u"
  by (simp add: same_frame_def)

lemma same_slot_trans: "same_slot j s t \<Longrightarrow> same_slot j t u \<Longrightarrow> same_slot j s u"
  by (simp add: same_slot_def)

lemma same_refl: "same_frame s s" "same_slot j s s"
  by (simp_all add: same_frame_def same_slot_def)

lemma eval_fold:
  assumes "il_shape s" "\<And>i. i < INTERLOCK_MAX_SLOTS \<Longrightarrow> dsl_armed s i \<Longrightarrow> inst_bounded (inst_of s i)"
    "k \<le> INTERLOCK_MAX_SLOTS" and t: "t = fold (tick_eval_slot e) [0..<k] s"
  shows "il_shape t \<and> same_frame s t \<and> (\<forall>j\<ge>k. same_slot j s t) \<and>
    (\<forall>j<k. inst_of t j = (inst_of s j)\<lparr>n_tf_state := slot_tf e s j\<rparr> \<and> runtime t j = slot_rt e s j)"
  using assms(3) unfolding t
proof (induction k)
  case 0
  show ?case using assms(1) by (simp add: same_refl)
next
  case (Suc k)
  let ?t = "fold (tick_eval_slot e) [0..<k] s"
  have ih: "il_shape ?t" "same_frame s ?t" "\<And>j. k \<le> j \<Longrightarrow> same_slot j s ?t"
    "\<And>j. j < k \<Longrightarrow> inst_of ?t j = (inst_of s j)\<lparr>n_tf_state := slot_tf e s j\<rparr> \<and> runtime ?t j = slot_rt e s j"
    using Suc by auto
  have k: "k < INTERLOCK_MAX_SLOTS" using Suc.prems by simp
  have c: "slot_tf e ?t k = slot_tf e s k" "dsl_armed ?t k = dsl_armed s k"
    "slot_rt e ?t k = slot_rt e s k"
    using slot_tf_cong [OF ih(2) ih(3)] by simp_all
  have i: "inst_of ?t k = inst_of s k" using ih(3) [of k] by (simp add: same_slot_def)
  have b: "dsl_armed ?t k \<Longrightarrow> inst_bounded (inst_of ?t k)" using c i assms(2) [OF k] by simp
  note st = eval_step [OF ih(1) k b, where e = e]
  have "same_slot j s (tick_eval_slot e k ?t)" if "Suc k \<le> j" for j
    using that by (intro same_slot_trans [OF ih(3) st(3)]) auto
  moreover have "inst_of (tick_eval_slot e k ?t) j = (inst_of s j)\<lparr>n_tf_state := slot_tf e s j\<rparr> \<and>
      runtime (tick_eval_slot e k ?t) j = slot_rt e s j" if "j < Suc k" for j
  proof (cases "j = k")
    case True
    then show ?thesis using st(4,5) i c by simp
  next
    case False
    then show ?thesis using st(3) [OF _ False] ih(4) [of j] that by (simp add: same_slot_def runtime_def)
  qed
  ultimately show ?case using st(1,2) same_frame_trans [OF ih(2)] by simp
qed

end
