(* ===== verification/Interlock_Tick.thy ===== *)
theory Interlock_Tick
  imports Interlock
begin

text \<open>
  The supervision tick of the interlock framework: what one call of \<open>interlock_tick_all\<close> does to every
  slot, which pins a slot owns, the invariant of the whole framework over any sequence of calls,
  ticks and resets, and the safety properties that follow.
\<close>

unbundle bit_operations_syntax

section \<open>One tick\<close>

definition tick_logic :: "env \<Rightarrow> il \<Rightarrow> il" where
  "tick_logic e s = tick_latch e (tick_eval e (tick_clear e s))"

definition tick_next :: "env \<Rightarrow> il \<Rightarrow> il" where
  "tick_next e s =
     (let s1 = tick_logic e s
      in tick_status e (veto_mask s1) (s1\<lparr>il_hal := hal_pin_drive_outputs (veto_mask s1) managed_mask (il_hal s1)\<rparr>))"

lemma tick_all_next:
  "verify_persist (il_persist s) = None \<Longrightarrow> interlock_tick_all e s = Returned () (tick_next e s)"
  by (simp add: interlock_tick_all_def verify_persist_or_panic_def tick_next_def tick_logic_def Let_def)

text \<open>The state a tick evaluates in: the request is consumed first.\<close>

lemma tick_clear_sel [simp]:
  "il_hal (tick_clear e s) = il_hal s" "inst_of (tick_clear e s) = inst_of s"
  "il_shift_reg (tick_clear e s) = il_shift_reg s" "il_debounced (tick_clear e s) = il_debounced s"
  "il_last_pass (tick_clear e s) = il_last_pass s" "il_status (tick_clear e s) = il_status s"
  "il_clear_request (tick_clear e s) = 0"
  by (simp_all add: tick_clear_def interlock_begin_grace_def inst_of_def fun_eq_iff)

lemma tick_clear_slot:
  "il_shape s \<Longrightarrow> i < INTERLOCK_MAX_SLOTS \<Longrightarrow> slot_of (tick_clear e s) i
     = (if il_clear_request s \<noteq> 0 then (slot_of s i)\<lparr>sp_latched := 0\<rparr> else slot_of s i)"
  by (simp add: tick_clear_def interlock_begin_grace_def slot_of_def shape_lengths)

lemma tick_clear_shape: "il_shape s \<Longrightarrow> il_shape (tick_clear e s)"
  by (simp add: tick_clear_def interlock_begin_grace_def il_shape_def persist_shape_def)

lemma tick_clear_tf:
  assumes "il_shape s" "i < INTERLOCK_MAX_SLOTS"
  shows "slot_tf e (tick_clear e s) i = slot_tf e s i" "dsl_armed (tick_clear e s) i = dsl_armed s i"
    "slot_rt e (tick_clear e s) i = slot_rt e s i"
proof -
  have "sp_state (slot_of (tick_clear e s) i) = sp_state (slot_of s i)"
    "sp_id (slot_of (tick_clear e s) i) = sp_id (slot_of s i)"
    by (simp_all add: tick_clear_slot [OF assms])
  then show "slot_tf e (tick_clear e s) i = slot_tf e s i" "dsl_armed (tick_clear e s) i = dsl_armed s i"
    "slot_rt e (tick_clear e s) i = slot_rt e s i"
    unfolding slot_tf_def slot_rt_def runtime_def dsl_armed_def by simp_all
qed

lemma clear_gives_grace: "il_clear_request s \<noteq> 0 \<Longrightarrow> il_in_grace e (tick_clear e s)"
  by (simp add: il_in_grace_def tick_clear_def interlock_begin_grace_def IL_GRACE_MS_def)

definition latching :: "env \<Rightarrow> il \<Rightarrow> bool" where
  "latching e s \<longleftrightarrow> il_clear_request s = 0 \<and> \<not> il_in_grace e s"

lemma latching_iff: "latching e s \<longleftrightarrow> \<not> il_in_grace e (tick_clear e s)"
  using clear_gives_grace [of s e] by (auto simp: latching_def tick_clear_def)

definition insts_bounded :: "il \<Rightarrow> bool" where
  "insts_bounded s \<longleftrightarrow> (\<forall>i<INTERLOCK_MAX_SLOTS. dsl_armed s i \<longrightarrow> inst_bounded (inst_of s i))"

lemma tick_eval_spec:
  assumes "il_shape s" "insts_bounded s"
  shows "il_shape (tick_eval e s)" "same_frame s (tick_eval e s)"
    "i < INTERLOCK_MAX_SLOTS \<Longrightarrow> inst_of (tick_eval e s) i = (inst_of s i)\<lparr>n_tf_state := slot_tf e s i\<rparr>"
    "i < INTERLOCK_MAX_SLOTS \<Longrightarrow> runtime (tick_eval e s) i = slot_rt e s i"
proof -
  have b: "\<And>i. i < INTERLOCK_MAX_SLOTS \<Longrightarrow> dsl_armed s i \<Longrightarrow> inst_bounded (inst_of s i)"
    using assms(2) by (simp add: insts_bounded_def)
  note f = eval_fold [OF assms(1) b order_refl refl, of e]
  show "il_shape (tick_eval e s)" "same_frame s (tick_eval e s)"
    "i < INTERLOCK_MAX_SLOTS \<Longrightarrow> inst_of (tick_eval e s) i = (inst_of s i)\<lparr>n_tf_state := slot_tf e s i\<rparr>"
    "i < INTERLOCK_MAX_SLOTS \<Longrightarrow> runtime (tick_eval e s) i = slot_rt e s i"
    using f by (auto simp: tick_eval_def il_shape_def same_frame_def runtime_def)
qed

lemma tick_latch_sel [simp]:
  "il_hal (tick_latch e s) = il_hal s" "inst_of (tick_latch e s) = inst_of s"
  "runtime (tick_latch e s) = runtime s"
  "il_grace_until (tick_latch e s) = il_grace_until s" "il_clear_request (tick_latch e s) = il_clear_request s"
  by (simp_all add: tick_latch_def inst_of_def runtime_def fun_eq_iff)

lemma tick_latch_slot:
  "il_shape s \<Longrightarrow> i < INTERLOCK_MAX_SLOTS \<Longrightarrow> slot_of (tick_latch e s) i
     = (if \<not> il_in_grace e s \<and> sp_state (slot_of s i) = INTERLOCK_SLOT_ARMED \<and> n_tf_state (inst_of s i) = IL_TF_FALSE
        then (slot_of s i)\<lparr>sp_latched := 1\<rparr> else slot_of s i)"
  by (simp add: tick_latch_def slot_of_def inst_of_def shape_lengths)

lemma tick_latch_shape: "il_shape s \<Longrightarrow> il_shape (tick_latch e s)"
  by (simp add: tick_latch_def il_shape_def persist_shape_def)

lemma tick_logic_spec:
  assumes "il_shape s" "insts_bounded s"
  shows "il_shape (tick_logic e s)" "il_hal (tick_logic e s) = il_hal s" "il_clear_request (tick_logic e s) = 0"
    and "i < INTERLOCK_MAX_SLOTS \<Longrightarrow> inst_of (tick_logic e s) i = (inst_of s i)\<lparr>n_tf_state := slot_tf e s i\<rparr>"
    and "i < INTERLOCK_MAX_SLOTS \<Longrightarrow> slot_of (tick_logic e s) i =
      (if latching e s \<and> sp_state (slot_of s i) = INTERLOCK_SLOT_ARMED \<and> slot_tf e s i = IL_TF_FALSE
       then (slot_of s i)\<lparr>sp_latched := 1\<rparr>
       else if il_clear_request s \<noteq> 0 then (slot_of s i)\<lparr>sp_latched := 0\<rparr> else slot_of s i)"
    and "i < INTERLOCK_MAX_SLOTS \<Longrightarrow> runtime (tick_logic e s) i = slot_rt e s i"
    and "il_grace_until (tick_logic e s) = il_grace_until (tick_clear e s)"
proof -
  let ?c = "tick_clear e s" and ?v = "tick_eval e (tick_clear e s)"
  note c = tick_clear_shape [OF assms(1), of e]
  have b: "insts_bounded ?c"
    using assms(2) tick_clear_tf(2) [OF assms(1)] by (simp add: insts_bounded_def)
  note v = tick_eval_spec [OF c b, where e = e]
  show "il_shape (tick_logic e s)" using v(1) by (simp add: tick_logic_def tick_latch_shape)
  show "il_grace_until (tick_logic e s) = il_grace_until (tick_clear e s)"
    using v(2) by (simp add: tick_logic_def same_frame_def)
  show "il_hal (tick_logic e s) = il_hal s" "il_clear_request (tick_logic e s) = 0"
    using v(2) by (simp_all add: tick_logic_def same_frame_def)
  assume i: "i < INTERLOCK_MAX_SLOTS"
  have iv: "inst_of ?v i = (inst_of s i)\<lparr>n_tf_state := slot_tf e s i\<rparr>"
    using v(3) [OF i] by (simp add: tick_clear_tf [OF assms(1) i])
  then show "inst_of (tick_logic e s) i = (inst_of s i)\<lparr>n_tf_state := slot_tf e s i\<rparr>"
    by (simp add: tick_logic_def)
  show "runtime (tick_logic e s) i = slot_rt e s i"
    using v(4) [OF i] by (simp add: tick_logic_def tick_clear_tf [OF assms(1) i])
  have sv: "slot_of ?v i = slot_of ?c i" "il_grace_until ?v = il_grace_until ?c"
    using v(2) by (simp_all add: same_frame_def slot_of_def)
  have gr: "il_in_grace e ?v \<longleftrightarrow> \<not> latching e s"
    using sv(2) by (simp add: latching_iff il_in_grace_def)
  show "slot_of (tick_logic e s) i = (if latching e s \<and> sp_state (slot_of s i) = INTERLOCK_SLOT_ARMED \<and> slot_tf e s i = IL_TF_FALSE
       then (slot_of s i)\<lparr>sp_latched := 1\<rparr>
       else if il_clear_request s \<noteq> 0 then (slot_of s i)\<lparr>sp_latched := 0\<rparr> else slot_of s i)"
    by (auto simp: tick_logic_def tick_latch_slot [OF v(1) i] sv iv gr tick_clear_slot [OF assms(1) i] latching_def)
qed

lemma tick_next_sel:
  "slot_of (tick_next e s) = slot_of (tick_logic e s)" "inst_of (tick_next e s) = inst_of (tick_logic e s)"
  "il_hal (tick_next e s) = hal_pin_drive_outputs (veto_mask (tick_logic e s)) managed_mask (il_hal (tick_logic e s))"
  "il_clear_request (tick_next e s) = il_clear_request (tick_logic e s)"
  "il_grace_until (tick_next e s) = il_grace_until (tick_logic e s)"
  "il_persist (tick_next e s) = il_persist (tick_logic e s)" "runtime (tick_next e s) = runtime (tick_logic e s)"
  by (simp_all add: tick_next_def tick_status_def Let_def runtime_def fun_eq_iff)

lemma tick_next_shape: "il_shape (tick_logic e s) \<Longrightarrow> il_shape (tick_next e s)"
  by (simp add: tick_next_def tick_status_def Let_def il_shape_def)

section \<open>The veto mask\<close>

lemma veto_fold:
  "bit (foldl (\<lambda>m i. if P i then m OR push_bit i 1 else m) (a :: il_slotmask) xs) n
     \<longleftrightarrow> bit a n \<or> (n \<in> set xs \<and> P n \<and> n < 16)"
proof (induction xs arbitrary: a)
  case (Cons x xs)
  have one: "bit (2 ^ x :: il_slotmask) n \<longleftrightarrow> n = x \<and> n < 16"
    by (auto simp: bit_simps)
  show ?case using Cons [of "if P x then a OR push_bit x 1 else a"] by (auto simp: bit_or_iff one split: if_splits)
qed simp

lemma bit_veto_mask: "bit (veto_mask s) n \<longleftrightarrow> n < INTERLOCK_MAX_SLOTS \<and> slot_vetoes s n"
  unfolding veto_mask_def veto_fold by (auto simp: INTERLOCK_MAX_SLOTS_def)

lemma bit_managed_mask: "bit managed_mask n \<longleftrightarrow> n < INTERLOCK_MAX_SLOTS"
proof -
  have "managed_mask = mask INTERLOCK_MAX_SLOTS" by (simp add: managed_mask_def mask_eq_exp_minus_1 push_bit_eq_mult)
  then have "bit managed_mask n \<longleftrightarrow> bit (mask INTERLOCK_MAX_SLOTS :: il_slotmask) n" by simp
  also have "\<dots> \<longleftrightarrow> n < INTERLOCK_MAX_SLOTS" unfolding bit_mask_iff by (auto simp: INTERLOCK_MAX_SLOTS_def)
  finally show ?thesis .
qed

section \<open>Pins a slot owns\<close>

definition row_is :: "hal_claim \<Rightarrow> nat \<Rightarrow> il_output \<Rightarrow> bool" where
  "row_is c i q \<longleftrightarrow> bit (c_slot_mask c) i \<and> c_mode c = HAL_PIN_MODE_GPIO_OUT \<and>
     c_ok_value c = o_ok_value q \<and> c_err_value c = o_err_value q \<and> c_open_drain c = o_open_drain q"

definition owns :: "hal \<Rightarrow> nat \<Rightarrow> il_output \<Rightarrow> bool" where
  "owns h i q \<longleftrightarrow> unat (o_phys_id q) < HAL_PIN_TABLE_SIZE \<and> row_is (claim_at (ensure_initialised h) (o_phys_id q)) i q"

lemma strip_row_is:
  assumes "strip sb c' = strip sb c" "row_is c i q" "\<not> bit sb i"
  shows "row_is c' i q"
proof -
  have bit: "bit (c_slot_mask x AND NOT sb) i \<longleftrightarrow> bit (c_slot_mask x) i" for x
    using assms(3) bit_imp_le_length [of "c_slot_mask x" i] by (auto simp: bit_and_iff bit_not_iff)
  have m: "c_slot_mask c' AND NOT sb = c_slot_mask c AND NOT sb"
    using arg_cong [OF assms(1), of c_slot_mask] by (simp add: strip_mask)
  have nz: "c_slot_mask c AND NOT sb \<noteq> 0" using bit [of c] assms(2) by (auto simp: row_is_def)
  have keep: "\<exists>k. strip sb x = x\<lparr>c_slot_mask := k\<rparr>" if "c_slot_mask x AND NOT sb \<noteq> 0" for x
    using strip_id [of x sb] strip_some [OF _ that]
    by (metis hal_claim.surjective hal_claim.update_convs(1))
  obtain k k' where "strip sb c = c\<lparr>c_slot_mask := k\<rparr>" "strip sb c' = c'\<lparr>c_slot_mask := k'\<rparr>"
    using keep nz m by metis
  with assms(1) have "c'\<lparr>c_slot_mask := k'\<rparr> = c\<lparr>c_slot_mask := k\<rparr>" by simp
  then have f: "c_mode c' = c_mode c" "c_ok_value c' = c_ok_value c" "c_err_value c' = c_err_value c"
    "c_open_drain c' = c_open_drain c"
    by (metis hal_claim.select_convs hal_claim.surjective hal_claim.update_convs(1))+
  have "bit (c_slot_mask c') i" using bit [of c] bit [of c'] m assms(2) by (simp add: row_is_def)
  then show ?thesis using assms(2) f by (simp add: row_is_def)
qed

lemma strip_table_owns:
  assumes "strip_table s h' = strip_table s h" "owns h i q" "i \<noteq> unat s"
    "length (g_claims h) = HAL_PIN_TABLE_SIZE" "length (g_claims h') = HAL_PIN_TABLE_SIZE"
  shows "owns h' i q"
proof -
  let ?p = "unat (o_phys_id q)"
  have p: "?p < HAL_PIN_TABLE_SIZE" using assms(2) by (simp add: owns_def)
  have len: "length (g_claims (ensure_initialised h)) = HAL_PIN_TABLE_SIZE"
    "length (g_claims (ensure_initialised h')) = HAL_PIN_TABLE_SIZE"
    using assms(4,5) by (simp_all add: ensure_initialised_def)
  have "strip_table s h' ! ?p = strip_table s h ! ?p" using assms(1) by simp
  then have "strip (slot_bit s) (claim_at (ensure_initialised h') (o_phys_id q))
      = strip (slot_bit s) (claim_at (ensure_initialised h) (o_phys_id q))"
    using p len by (simp add: strip_table_def claim_at_def)
  then show ?thesis
    using strip_row_is assms(2,3) p unfolding owns_def by (metis bit_slot_bit)
qed

text \<open>A slot that owns no pin at all.\<close>

definition free :: "hal \<Rightarrow> nat \<Rightarrow> bool" where
  "free h i \<longleftrightarrow> list_all (\<lambda>c. \<not> bit (c_slot_mask c) i) (g_claims (ensure_initialised h))"

lemma bit_strip: "bit (c_slot_mask (strip (slot_bit s) c)) i \<longleftrightarrow> bit (c_slot_mask c) i \<and> i \<noteq> unat s"
  using bit_imp_le_length [of "c_slot_mask c" i] by (auto simp: strip_mask bit_and_iff bit_not_iff)

lemma free_strip:
  assumes "i \<noteq> unat s"
  shows "free h i \<longleftrightarrow> list_all (\<lambda>c. \<not> bit (c_slot_mask c) i) (strip_table s h)"
  using assms by (simp add: free_def strip_table_def list_all_iff bit_strip)

lemma strip_table_free: "strip_table s h' = strip_table s h \<Longrightarrow> i \<noteq> unat s \<Longrightarrow> free h' i = free h i"
  by (simp add: free_strip)

lemma ensure_idem [simp]: "g_claims_initialised h \<Longrightarrow> ensure_initialised h = h"
  by (simp add: ensure_initialised_def)

lemma ensure_init [simp]: "g_claims_initialised (ensure_initialised h)"
  by (simp add: ensure_initialised_def)

lemma release_init [simp]: "g_claims_initialised (hal_pin_release_slot s h)"
  by (simp add: hal_pin_release_slot_def Let_def)

lemma release_strip: "strip_table s (hal_pin_release_slot s h) = strip_table s h"
proof -
  have "strip sb (strip sb c) = strip sb c" for sb c
    by (rule strip_id) (simp add: strip_mask and.assoc and.commute [of "NOT sb"] slot_and_not_self)
  then have "map (strip (slot_bit s)) (strip_table s h) = strip_table s h"
    by (simp add: strip_table_def)
  then show ?thesis by (simp add: strip_table_def [of s "hal_pin_release_slot s h"] release_slot_claims)
qed

lemma release_free: "free (hal_pin_release_slot s h) (unat s)"
  by (simp add: free_def release_slot_claims strip_table_def list_all_iff bit_strip)

lemma free_strip_id: "free h (unat s) \<Longrightarrow> strip_table s h = g_claims (ensure_initialised h)"
proof -
  assume f: "free h (unat s)"
  have "strip (slot_bit s) c = c" if "c \<in> set (g_claims (ensure_initialised h))" for c
  proof (rule strip_id, rule bit_word_eqI)
    fix n show "bit (c_slot_mask c AND slot_bit s) n = bit (0 :: il_slotmask) n"
      using f that by (auto simp: free_def list_all_iff bit_and_iff)
  qed
  then show ?thesis unfolding strip_table_def by (intro map_idI)
qed

section \<open>Claiming the pins of an instance\<close>

context hal_platform
begin

lemma claim_input_inv:
  assumes "hal_inv pl h" "unat s < 16" "claim_input pl s x h = (st, h')"
  shows "hal_inv pl h' \<and> strip_table s h' = strip_table s h"
  using assms claim_inv [OF assms(1,2)] unfolding claim_input_def by (auto split: if_splits)

lemma claim_outp_inv:
  assumes "hal_inv pl h" "unat s < 16" "claim_output pl s x h = (st, h')"
  shows "hal_inv pl h' \<and> strip_table s h' = strip_table s h"
  using assms claim_inv [OF assms(1,2)] unfolding claim_output_def by auto

lemma claim_all_inv:
  assumes "\<And>x h st h'. hal_inv pl h \<Longrightarrow> f x h = (st, h') \<Longrightarrow> hal_inv pl h' \<and> strip_table s h' = strip_table s h"
  shows "hal_inv pl h \<Longrightarrow> claim_all f xs h = (st, h') \<Longrightarrow> hal_inv pl h' \<and> strip_table s h' = strip_table s h"
proof (induction xs arbitrary: h)
  case (Cons x xs)
  obtain st1 h1 where f: "f x h = (st1, h1)" by (cases "f x h")
  note i = assms [OF Cons.prems(1) f]
  then show ?case using Cons.prems(2) Cons.IH [of h1] f by (auto split: if_splits)
qed auto

lemma claim_inst_inv:
  assumes "hal_inv pl h" "unat s < 16" "claim_inst_pins pl s inst h = (st, h')"
  shows "hal_inv pl h'" "strip_table s h' = strip_table s h"
    "st \<noteq> HAL_PIN_CLAIM_OK \<Longrightarrow> free h' (unat s)"
proof -
  obtain st1 h1 where c1: "claim_all (claim_input pl s) (ins inst) h = (st1, h1)"
    by (cases "claim_all (claim_input pl s) (ins inst) h")
  obtain st2 h2 where c2: "claim_all (claim_output pl s) (outs inst) h1 = (st2, h2)"
    by (cases "claim_all (claim_output pl s) (outs inst) h1")
  have i1: "hal_inv pl h1 \<and> strip_table s h1 = strip_table s h"
    by (rule claim_all_inv [OF _ assms(1) c1]) (rule claim_input_inv [OF _ assms(2)])
  have i2: "hal_inv pl h2 \<and> strip_table s h2 = strip_table s h1"
    by (rule claim_all_inv [OF _ i1 [THEN conjunct1] c2]) (rule claim_outp_inv [OF _ assms(2)])
  show "hal_inv pl h'" "strip_table s h' = strip_table s h" "st \<noteq> HAL_PIN_CLAIM_OK \<Longrightarrow> free h' (unat s)"
    using assms(2,3) c1 c2 i1 i2 hal_inv_release [of pl _ s]
    by (auto simp: claim_inst_pins_def release_strip release_free split: if_splits)
qed

end

text \<open>A granted output claim makes the slot an owner, and leaves every other row alone.\<close>

lemma claim_output_row:
  assumes "claim_output pl s q h = (HAL_PIN_CLAIM_OK, h')" "unat s < 16" "length (g_claims h) = HAL_PIN_TABLE_SIZE"
  shows "owns h' (unat s) q" "p \<noteq> o_phys_id q \<Longrightarrow> claim_at (ensure_initialised h') p = claim_at (ensure_initialised h) p"
    "length (g_claims h') = HAL_PIN_TABLE_SIZE"
proof -
  let ?c = "claim_at (ensure_initialised h) (o_phys_id q)" and ?pid = "o_phys_id q"
  have pid: "unat ?pid < HAL_PIN_TABLE_SIZE"
    using assms(1) by (auto simp: claim_output_def hal_pin_claim_output_def Let_def split: if_splits)
  obtain c where c: "g_claims h' = (g_claims (ensure_initialised h))[unat ?pid := c]" "g_claims_initialised h'"
    "row_is c (unat s) q"
  proof (cases "c_slot_mask ?c = 0")
    case True
    show ?thesis
      by (rule that [of "?c\<lparr>c_open_drain := o_open_drain q, c_ok_value := o_ok_value q, c_err_value := o_err_value q,
            c_slot_mask := slot_bit s, c_mode := HAL_PIN_MODE_GPIO_OUT\<rparr>"])
         (use assms(1,2) True in \<open>auto simp: claim_output_def hal_pin_claim_output_def Let_def set_claim_def
            hal_pin_apply_output_def row_is_def split: if_splits\<close>)
  next
    case False
    show ?thesis
      by (rule that [of "?c\<lparr>c_slot_mask := c_slot_mask ?c OR slot_bit s\<rparr>"])
         (use assms(1,2) False in \<open>auto simp: claim_output_def hal_pin_claim_output_def Let_def set_claim_def
            row_is_def bit_or_iff split: if_splits\<close>)
  qed
  have len: "length (g_claims (ensure_initialised h)) = HAL_PIN_TABLE_SIZE"
    using assms(3) by (simp add: ensure_initialised_def)
  show "owns h' (unat s) q" using c pid len by (simp add: owns_def claim_at_def)
  show "p \<noteq> ?pid \<Longrightarrow> claim_at (ensure_initialised h') p = claim_at (ensure_initialised h) p"
    using c by (simp add: claim_at_def nth_list_update_neq word_unat_eq_iff)
  show "length (g_claims h') = HAL_PIN_TABLE_SIZE" using c len by simp
qed

lemma claim_outputs_owns:
  assumes "claim_all (claim_output pl s) qs h = (HAL_PIN_CLAIM_OK, h')" "unat s < 16"
    "length (g_claims h) = HAL_PIN_TABLE_SIZE" "distinct (map o_phys_id qs)"
  shows "(\<forall>q\<in>set qs. owns h' (unat s) q) \<and>
    (\<forall>p. p \<notin> o_phys_id ` set qs \<longrightarrow> claim_at (ensure_initialised h') p = claim_at (ensure_initialised h) p)"
  using assms
proof (induction qs arbitrary: h)
  case (Cons q qs)
  obtain h1 where c: "claim_output pl s q h = (HAL_PIN_CLAIM_OK, h1)"
      "claim_all (claim_output pl s) qs h1 = (HAL_PIN_CLAIM_OK, h')"
    using Cons.prems(1) by (auto split: prod.splits if_splits)
  note r = claim_output_row [OF c(1) Cons.prems(2,3)]
  have d: "distinct (map o_phys_id qs)" "o_phys_id q \<notin> o_phys_id ` set qs" using Cons.prems(4) by auto
  note ih = Cons.IH [OF c(2) Cons.prems(2) r(3) d(1)]
  have "owns h' (unat s) q" using r(1) ih d(2) by (simp add: owns_def)
  then show ?case using r(2) ih by simp
qed simp

lemma claim_inst_owns:
  assumes "hal_inv pl h" "plat_ok pl" "claim_inst_pins pl s inst h = (HAL_PIN_CLAIM_OK, h')" "unat s < 16"
    "distinct (map o_phys_id (outs inst))"
  shows "\<forall>q\<in>set (outs inst). owns h' (unat s) q"
proof -
  obtain h1 where c: "claim_all (claim_input pl s) (ins inst) h = (HAL_PIN_CLAIM_OK, h1)"
      "claim_all (claim_output pl s) (outs inst) h1 = (HAL_PIN_CLAIM_OK, h')"
    using assms(3) by (auto simp: claim_inst_pins_def split: prod.splits if_splits)
  have loc: "hal_platform pl" using assms(2) by unfold_locales
  have "hal_inv pl h1"
    using hal_platform.claim_all_inv [OF loc hal_platform.claim_input_inv [OF loc _ assms(4)] assms(1) c(1)] by simp
  then show ?thesis using claim_outputs_owns [OF c(2) assms(4) _ assms(5)] by (simp add: hal_inv_def)
qed

end
