(* ===== verification/Interlock_Safe.thy ===== *)
theory Interlock_Safe
  imports Interlock_Tick
begin

text \<open>
  The interlock framework over time: its invariant, the step relation of all its entry points
  (ticks, arming, disarming, clear requests, warm resets), and the safety properties.
\<close>

unbundle bit_operations_syntax

section \<open>The invariant\<close>

text \<open>The environments of one board: the pin roles are fixed at boot, everything that is read varies.\<close>

definition on_board :: "u8 list \<Rightarrow> env \<Rightarrow> bool" where
  "on_board roles e \<longleftrightarrow> (\<exists>latest win get. e_plat e = bc_plat roles latest win get)"

definition board_inv :: "u8 list \<Rightarrow> hal \<Rightarrow> bool" where
  "board_inv roles h \<longleftrightarrow> hal_inv (bc_plat roles [] [] (\<lambda>_. False)) h"

lemma board_inv_env:
  assumes "on_board roles e"
  shows "hal_inv (e_plat e) h = board_inv roles h"
proof -
  have "p_pin_cap (e_plat e) = p_pin_cap (bc_plat roles [] [] (\<lambda>_. False))"
    "p_adc_channel (e_plat e) = p_adc_channel (bc_plat roles [] [] (\<lambda>_. False))"
    using assms by (auto simp: on_board_def bc_plat_def)
  then have "row_ok (e_plat e) = row_ok (bc_plat roles [] [] (\<lambda>_. False))"
    unfolding row_ok_def by (intro ext) (simp only:)
  then show ?thesis unfolding board_inv_def hal_inv_def by (simp only:)
qed

lemma on_board_ok: "on_board roles e \<Longrightarrow> plat_ok (e_plat e)"
  by (auto simp: on_board_def bc_plat_ok)

lemma on_board_loc: "on_board roles e \<Longrightarrow> hal_platform (e_plat e)"
  using on_board_ok by unfold_locales

definition slot_good :: "il \<Rightarrow> nat \<Rightarrow> bool" where
  "slot_good s i \<longleftrightarrow>
     (if dsl_armed s i
      then inst_inv False (inst_of s i) \<and> list_all (owns (il_hal s) i) (outs (inst_of s i))
      else free (il_hal s) i)"

definition il_inv :: "u8 list \<Rightarrow> il \<Rightarrow> bool" where [inv_defs]:
  "il_inv roles s \<longleftrightarrow> il_shape s \<and> persist_is_valid (il_persist s) \<and> board_inv roles (il_hal s) \<and>
     (\<forall>i<INTERLOCK_MAX_SLOTS. slot_good s i)"

lemma il_invD:
  assumes "il_inv roles s"
  shows "il_shape s" "persist_is_valid (il_persist s)" "board_inv roles (il_hal s)"
    "i < INTERLOCK_MAX_SLOTS \<Longrightarrow> slot_good s i"
  using assms by (simp_all add: il_inv_def)

lemma valid_verify: "persist_is_valid p \<Longrightarrow> verify_persist p = None"
  by (simp add: persist_is_valid_def verify_persist_def)

lemma il_inv_bounded: "il_inv roles s \<Longrightarrow> insts_bounded s"
  by (auto simp: il_inv_def insts_bounded_def slot_good_def inst_bounded_def inst_inv_def split: if_splits)

lemma length_table: "board_inv roles h \<Longrightarrow> length (g_claims h) = HAL_PIN_TABLE_SIZE"
  by (simp add: board_inv_def hal_inv_def)

definition header_same :: "persist \<Rightarrow> persist \<Rightarrow> bool" where
  "header_same p p' \<longleftrightarrow> pe_magic p' = pe_magic p \<and> pe_version p' = pe_version p \<and> pe_self_size p' = pe_self_size p \<and>
     pe_crash p' = pe_crash p"

text \<open>While the slots are restored one after the other at boot, the slots not reached yet own nothing.\<close>

definition inv_upto :: "u8 list \<Rightarrow> nat \<Rightarrow> il \<Rightarrow> bool" where
  "inv_upto roles k s \<longleftrightarrow> il_shape s \<and> persist_is_valid (il_persist s) \<and> board_inv roles (il_hal s) \<and>
     (\<forall>i<INTERLOCK_MAX_SLOTS. if i < k then slot_good s i else free (il_hal s) i)"

lemma inv_upto_all: "il_inv roles s \<longleftrightarrow> inv_upto roles INTERLOCK_MAX_SLOTS s"
  by (simp add: il_inv_def inv_upto_def)

lemma inv_uptoD:
  assumes "inv_upto roles k s"
  shows "il_shape s" "persist_is_valid (il_persist s)" "board_inv roles (il_hal s)"
    "i < INTERLOCK_MAX_SLOTS \<Longrightarrow> if i < k then slot_good s i else free (il_hal s) i"
  using assms by (simp_all add: inv_upto_def)

text \<open>An operation on slot \<open>i\<close> keeps the invariant when it leaves the other slots, and their pins, alone.\<close>

lemma upto_change:
  assumes inv: "inv_upto roles k s" and i: "unat slot = i" "i < INTERLOCK_MAX_SLOTS"
    and m: "i < m" "\<And>j. j \<noteq> i \<Longrightarrow> j < m \<longleftrightarrow> j < k"
    and h: "header_same (il_persist s) (il_persist s')" "il_shape s'" "board_inv roles (il_hal s')"
    and others: "\<And>j. j \<noteq> i \<Longrightarrow> slot_of s' j = slot_of s j \<and> inst_of s' j = inst_of s j \<and>
      pe_dsl_len (il_persist s') ! j = pe_dsl_len (il_persist s) ! j"
    and pins: "strip_table slot (il_hal s') = strip_table slot (il_hal s)"
    and own: "slot_valid (il_persist s') i" "slot_good s' i"
  shows "inv_upto roles m s'"
proof -
  note d = inv_uptoD [OF inv]
  note len = length_table [OF d(3)] length_table [OF h(3)]
  have "slot_valid (il_persist s') j" if "j < INTERLOCK_MAX_SLOTS" for j
  proof (cases "j = i")
    case False
    then show ?thesis
      using others [OF False] d(2) that by (simp add: persist_is_valid_def slot_valid_def slot_of_def list_all_iff Let_def)
  qed (use own in simp)
  then have "persist_is_valid (il_persist s')"
    using d(2) h(1) by (simp add: persist_is_valid_def list_all_iff header_same_def)
  moreover have "if j < m then slot_good s' j else free (il_hal s') j" if j: "j < INTERLOCK_MAX_SLOTS" for j
  proof (cases "j = i")
    case False
    then have ne: "j \<noteq> unat slot" using i by simp
    show ?thesis
      using others [OF False] d(4) [OF j] strip_table_owns [OF pins _ ne len] strip_table_free [OF pins ne] m(2) [OF False]
      by (auto simp: slot_good_def dsl_armed_def list_all_iff split: if_splits)
  qed (use own m(1) in simp)
  ultimately show ?thesis using h by (simp add: inv_upto_def)
qed

lemma il_inv_change:
  assumes inv: "il_inv roles s" and i: "unat slot = i" "i < INTERLOCK_MAX_SLOTS"
    and h: "header_same (il_persist s) (il_persist s')" "il_shape s'" "board_inv roles (il_hal s')"
    and others: "\<And>j. j \<noteq> i \<Longrightarrow> slot_of s' j = slot_of s j \<and> inst_of s' j = inst_of s j \<and>
      pe_dsl_len (il_persist s') ! j = pe_dsl_len (il_persist s) ! j"
    and pins: "strip_table slot (il_hal s') = strip_table slot (il_hal s)"
    and own: "slot_valid (il_persist s') i" "slot_good s' i"
  shows "il_inv roles s'"
  unfolding inv_upto_all
  by (rule upto_change [OF inv [unfolded inv_upto_all] i i(2) refl h others pins own])

section \<open>Every operation keeps it\<close>

lemma clear_runtime_sel [simp]:
  "il_persist (clear_slot_runtime i s) = il_persist s" "il_hal (clear_slot_runtime i s) = il_hal s"
  by (simp_all add: clear_slot_runtime_def)

lemma clear_runtime_shape: "il_shape s \<Longrightarrow> il_shape (clear_slot_runtime i s)"
  by (simp add: il_shape_def clear_slot_runtime_def rows_update)

lemma set_sel [simp]:
  "il_hal (set_slot i sp s) = il_hal s" "il_hal (set_inst i v s) = il_hal s"
  "pe_dsl_len (il_persist (set_slot i sp s)) = pe_dsl_len (il_persist s)"
  "pe_dsl_len (il_persist (set_inst i v s)) = pe_dsl_len (il_persist s)"
  "pe_slots (il_persist (set_slot i sp s)) = (pe_slots (il_persist s))[i := sp]"
  "pe_slots (il_persist (set_inst i v s)) = pe_slots (il_persist s)"
  by (simp_all add: set_slot_def set_inst_def)

lemma set_shape: "il_shape s \<Longrightarrow> il_shape (set_slot i sp s)" "il_shape s \<Longrightarrow> il_shape (set_inst i v s)"
  by (simp_all add: il_shape_def persist_shape_def set_slot_def set_inst_def)

lemma header_set [simp]:
  "header_same p (il_persist (set_slot i sp s)) = header_same p (il_persist s)"
  "header_same p (il_persist (set_inst i v s)) = header_same p (il_persist s)"
  "header_same p p"
  by (simp_all add: header_same_def set_slot_def set_inst_def)

lemma shape_active [simp]: "il_shape (s\<lparr>il_active_slot := a\<rparr>) = il_shape s" "il_shape (s\<lparr>il_hal := h\<rparr>) = il_shape s"
  by (simp_all add: il_shape_def)

lemma arm_inv:
  assumes inv: "il_inv roles s"
  shows "\<exists>r s'. interlock_arm_slot_compiled e slot n s = Returned r s' \<and> il_inv roles s'"
proof -
  note d = il_invD [OF inv]
  let ?i = "unat slot"
  let ?sp = "\<lparr>sp_state = INTERLOCK_SLOT_ARMED, sp_id = n, sp_boot_counter = 0, sp_latched = 0\<rparr>"
  let ?s = "(clear_slot_runtime ?i (set_inst ?i zero_inst (set_slot ?i ?sp s)))\<lparr>il_active_slot := INTERLOCK_CRASHED_SLOT_NONE\<rparr>"
  have "il_inv roles ?s"
    if i: "?i < INTERLOCK_MAX_SLOTS" and n: "n \<noteq> INTERLOCK_ID_NONE" "n \<noteq> INTERLOCK_ID_DSL" "\<not> n > g_interlock_count"
      and st: "sp_state (slot_of s ?i) \<noteq> INTERLOCK_SLOT_ARMED"
  proof (rule il_inv_change [OF inv refl i])
    have "n = INTERLOCK_ID_NOOP" using n
      by (simp add: slot_id_defs g_interlock_count_def) unat_arith
    then show "slot_valid (il_persist ?s) ?i" using i d(1) n
      by (simp add: slot_valid_def shape_lengths slot_state_defs slot_id_defs Let_def)
    have "free (il_hal s) ?i" using d(4) [OF i] st by (simp add: slot_good_def dsl_armed_def)
    then show "slot_good ?s ?i" using n i d(1)
      by (simp add: slot_good_def dsl_armed_def slot_of_set_slot)
    show "il_shape ?s" using d(1) by (simp add: clear_runtime_shape set_shape)
    fix j assume "j \<noteq> ?i"
    then show "slot_of ?s j = slot_of s j \<and> inst_of ?s j = inst_of s j \<and>
        pe_dsl_len (il_persist ?s) ! j = pe_dsl_len (il_persist s) ! j"
      using d(1) i by (simp add: slot_of_set_slot inst_of_set_inst set_shape)
  qed (use d in simp_all)
  then show ?thesis
    using inv unfolding interlock_arm_slot_compiled_def verify_persist_or_panic_def valid_verify [OF d(2)]
    by (auto simp: Let_def)
qed

lemma release_board:
  assumes "board_inv roles h" "unat s < INTERLOCK_MAX_SLOTS"
  shows "board_inv roles (hal_pin_release_slot s h)"
  using assms hal_inv_release by (simp add: board_inv_def INTERLOCK_MAX_SLOTS_def)

lemma disarm_inv:
  assumes inv: "il_inv roles s"
  shows "\<exists>r s'. interlock_disarm_slot e slot s = Returned r s' \<and> il_inv roles s'"
proof -
  note d = il_invD [OF inv]
  let ?i = "unat slot"
  define s1 where "s1 = (\<lambda>s0 :: il. s0\<lparr>il_hal := hal_pin_release_slot slot (il_hal s0)\<rparr>)"
  define s2 where "s2 = (\<lambda>s0. set_inst ?i zero_inst (set_slot ?i empty_slot (s1 s0)))"
  define s3 where "s3 = (\<lambda>s0. clear_slot_runtime ?i ((s2 s0)\<lparr>il_persist := (il_persist (s2 s0))
    \<lparr>pe_dsl_len := (pe_dsl_len (il_persist (s2 s0)))[?i := 0]\<rparr>\<rparr>))"
  have "il_inv roles (s3 (s\<lparr>il_active_slot := a\<rparr>))" if i: "?i < INTERLOCK_MAX_SLOTS" for a
  proof (rule il_inv_change [OF inv refl i])
    let ?s = "s3 (s\<lparr>il_active_slot := a\<rparr>)"
    have hal: "il_hal ?s = hal_pin_release_slot slot (il_hal s)" by (simp add: s3_def s2_def s1_def)
    have slots: "pe_slots (il_persist ?s) = (pe_slots (il_persist s))[?i := empty_slot]"
      "pe_inst (il_persist ?s) = (pe_inst (il_persist s))[?i := zero_inst]"
      "pe_dsl_len (il_persist ?s) = (pe_dsl_len (il_persist s))[?i := 0]"
      by (simp_all add: s3_def s2_def s1_def) (simp_all add: set_inst_def set_slot_def)
    then show "slot_valid (il_persist ?s) ?i" using i d(1)
      by (simp add: slot_valid_def shape_lengths empty_slot_def slot_state_defs slot_id_defs Let_def)
    show "slot_good ?s ?i" using slots i d(1)
      by (simp add: slot_good_def dsl_armed_def slot_of_def shape_lengths hal release_free empty_slot_def slot_state_defs)
    have "il_shape (s2 (s\<lparr>il_active_slot := a\<rparr>))" using d(1) by (simp add: s2_def s1_def set_shape)
    then show "il_shape ?s" unfolding s3_def by (intro clear_runtime_shape) (simp add: il_shape_def persist_shape_def)
    show "header_same (il_persist s) (il_persist ?s)"
      by (simp add: s3_def s2_def s1_def header_same_def set_slot_def set_inst_def)
    show "board_inv roles (il_hal ?s)" using d(3) i by (simp add: hal release_board)
    show "strip_table slot (il_hal ?s) = strip_table slot (il_hal s)" by (simp add: hal release_strip)
    fix j assume "j \<noteq> ?i"
    then show "slot_of ?s j = slot_of s j \<and> inst_of ?s j = inst_of s j \<and>
        pe_dsl_len (il_persist ?s) ! j = pe_dsl_len (il_persist s) ! j"
      using slots by (simp add: slot_of_def inst_of_def)
  qed
  then have all: "\<And>a. ?i < INTERLOCK_MAX_SLOTS \<Longrightarrow> il_inv roles (s3 (s\<lparr>il_active_slot := a\<rparr>))"
    "?i < INTERLOCK_MAX_SLOTS \<Longrightarrow> il_inv roles (s3 s)"
    by (auto dest: meta_spec [of _ "il_active_slot s"])
  show ?thesis
    using inv all unfolding interlock_disarm_slot_def verify_persist_or_panic_def valid_verify [OF d(2)]
    by (simp add: Let_def s3_def s2_def s1_def)
qed

text \<open>Storing an instance whose pins have been claimed.\<close>

lemma commit_sel:
  "il_hal (commit_dsl i inst dsl s) = il_hal s"
  "pe_slots (il_persist (commit_dsl i inst dsl s)) = (pe_slots (il_persist s))[i :=
     \<lparr>sp_state = INTERLOCK_SLOT_ARMED, sp_id = INTERLOCK_ID_DSL, sp_boot_counter = 0, sp_latched = 0\<rparr>]"
  "pe_inst (il_persist (commit_dsl i inst dsl s)) = (pe_inst (il_persist s))[i := inst]"
  "pe_dsl_len (il_persist (commit_dsl i inst dsl s)) = (pe_dsl_len (il_persist s))[i := word_of_nat (length dsl)]"
  "header_same (il_persist s) (il_persist (commit_dsl i inst dsl s))"
  by (simp_all add: commit_dsl_def Let_def set_slot_def set_inst_def header_same_def)

lemma commit_shape:
  assumes "il_shape s" "length dsl < IL_DSL_MAX" "i < INTERLOCK_MAX_SLOTS"
  shows "il_shape (commit_dsl i inst dsl s)"
proof -
  have "length (pe_dsl_text (il_persist s) ! i) = IL_DSL_MAX"
    using assms by (simp add: il_shape_def persist_shape_def rows_nth)
  then show ?thesis using assms
    by (simp add: commit_dsl_def Let_def il_shape_def persist_shape_def set_slot_def set_inst_def
        clear_slot_runtime_def rows_update)
qed

lemma parse_good:
  "il_parse dsl = Inr inst \<Longrightarrow> inst_inv False inst \<and> distinct (map o_phys_id (outs inst))"
  using il_parse_wf [of dsl inst] by (simp add: inst_wf_def inst_inv_def)

lemma commit_inv:
  assumes inv: "il_inv roles s" and e: "on_board roles e" and i: "unat slot < INTERLOCK_MAX_SLOTS"
    and dsl: "dsl \<noteq> []" "length dsl < IL_DSL_MAX" "il_parse dsl = Inr inst"
    and claim: "claim_inst_pins (e_plat e) slot inst (il_hal s) = (HAL_PIN_CLAIM_OK, h)"
  shows "il_inv roles (commit_dsl (unat slot) inst dsl (s\<lparr>il_hal := h\<rparr>))"
proof (rule il_inv_change [OF inv refl i])
  note d = il_invD [OF inv] and loc = on_board_loc [OF e]
  let ?i = "unat slot" and ?s = "commit_dsl (unat slot) inst dsl (s\<lparr>il_hal := h\<rparr>)"
  have sl: "unat slot < 16" using i by (simp add: INTERLOCK_MAX_SLOTS_def)
  have hi: "hal_inv (e_plat e) (il_hal s)" using d(3) by (simp add: board_inv_env [OF e])
  note c = hal_platform.claim_inst_inv [OF loc hi sl claim]
  show "header_same (il_persist s) (il_persist ?s)" using commit_sel(5) [of "s\<lparr>il_hal := h\<rparr>"] by simp
  show "il_shape ?s" using d(1) by (intro commit_shape dsl i) simp
  show "board_inv roles (il_hal ?s)" using c(1) by (simp add: commit_sel board_inv_env [OF e])
  show "strip_table slot (il_hal ?s) = strip_table slot (il_hal s)" using c(2) by (simp add: commit_sel)
  have L: "unat (word_of_nat (length dsl) :: u16) = length dsl"
    using dsl(2) by (simp add: unat_of_nat IL_DSL_MAX_def)
  then have "(word_of_nat (length dsl) :: u16) \<noteq> 0" using dsl(1) by (metis length_0_conv unat_0)
  then show "slot_valid (il_persist ?s) ?i" using i d(1) L dsl(2)
    by (simp add: slot_valid_def commit_sel shape_lengths slot_state_defs slot_id_defs Let_def)
  have "list_all (owns h ?i) (outs inst)"
    using claim_inst_owns [OF hi on_board_ok [OF e] claim sl] parse_good [OF dsl(3)] by (simp add: list_all_iff)
  then show "slot_good ?s ?i" using i d(1) parse_good [OF dsl(3)]
    by (simp add: slot_good_def dsl_armed_def slot_of_def inst_of_def commit_sel shape_lengths)
  fix j assume "j \<noteq> ?i"
  then show "slot_of ?s j = slot_of s j \<and> inst_of ?s j = inst_of s j \<and>
      pe_dsl_len (il_persist ?s) ! j = pe_dsl_len (il_persist s) ! j"
    by (simp add: slot_of_def inst_of_def commit_sel)
qed

text \<open>A refused claim gives the pins back.\<close>

lemma refused_inv:
  assumes inv: "il_inv roles s" and e: "on_board roles e" and i: "unat slot < INTERLOCK_MAX_SLOTS"
    and claim: "claim_inst_pins (e_plat e) slot inst (il_hal s) = (st, h)" "st \<noteq> HAL_PIN_CLAIM_OK"
    and idle: "\<not> dsl_armed s (unat slot)"
  shows "il_inv roles (s\<lparr>il_hal := h\<rparr>)" "g_claims (ensure_initialised h) = g_claims (ensure_initialised (il_hal s))"
proof -
  note d = il_invD [OF inv] and loc = on_board_loc [OF e]
  have sl: "unat slot < 16" using i by (simp add: INTERLOCK_MAX_SLOTS_def)
  have hi: "hal_inv (e_plat e) (il_hal s)" using d(3) by (simp add: board_inv_env [OF e])
  note c = hal_platform.claim_inst_inv [OF loc hi sl claim(1)]
  have f: "free (il_hal s) (unat slot)" "free h (unat slot)"
    using d(4) [OF i] idle c(3) claim(2) by (simp_all add: slot_good_def)
  show "g_claims (ensure_initialised h) = g_claims (ensure_initialised (il_hal s))"
    using c(2) f by (simp add: free_strip_id)
  have v: "slot_valid (il_persist s) (unat slot)" using d(2) i by (simp add: persist_is_valid_def list_all_iff)
  show "il_inv roles (s\<lparr>il_hal := h\<rparr>)"
    by (rule il_inv_change [OF inv refl i])
       (use c d(1-3) f v idle in \<open>auto simp: board_inv_env [OF e] slot_good_def dsl_armed_def\<close>)
qed

lemma set_dsl_inv:
  assumes inv: "il_inv roles s" and e: "on_board roles e"
  shows "\<exists>r s'. interlock_set_slot_dsl e slot dsl s = Returned r s' \<and> il_inv roles s'"
proof -
  note d = il_invD [OF inv]
  obtain st h where c: "\<And>inst. il_parse dsl = Inr inst \<Longrightarrow>
      claim_inst_pins (e_plat e) slot inst (il_hal s) = (st, h)"
    by (cases "il_parse dsl"; cases "claim_inst_pins (e_plat e) slot (projr (il_parse dsl)) (il_hal s)") auto
  note com = commit_inv [OF inv e] and ref = refused_inv(1) [OF inv e]
  show ?thesis
    using inv c com [of slot dsl _ h] ref [of slot _ st h]
    unfolding interlock_set_slot_dsl_def verify_persist_or_panic_def valid_verify [OF d(2)]
    by (cases "il_parse dsl") (auto simp: Let_def dsl_armed_def split: if_splits)
qed

section \<open>Boot\<close>

definition zero_status :: status_buffer where
  "zero_status = \<lparr>sb_version = 0, sb_num_slots = 0, sb_status_seq = 0, sb_crash_panic_code = 0, sb_stack_hwm = 0,
     sb_slots = replicate INTERLOCK_MAX_SLOTS \<lparr>ss_state = 0, ss_id = 0, ss_tf = 0, ss_bc = 0,
       ss_name = replicate IL_STATUS_SLOT_NAME_MAX 0, ss_veto_mask = 0\<rparr>,
     sb_input_vals = replicate INTERLOCK_MAX_SLOTS (replicate IL_MAX_INPUTS 0)\<rparr>"

text \<open>RAM as the C start-up code leaves it: everything but the surviving record is zero.\<close>

definition il0 :: "persist \<Rightarrow> il" where
  "il0 p = \<lparr>il_persist = p, il_active_slot = INTERLOCK_CRASHED_SLOT_NONE, il_clear_request = 0, il_grace_until = 0,
     il_status = zero_status, il_shift_reg = replicate INTERLOCK_MAX_SLOTS (replicate IL_MAX_INPUTS 0),
     il_debounced = replicate INTERLOCK_MAX_SLOTS (replicate IL_MAX_INPUTS 0),
     il_last_pass = replicate INTERLOCK_MAX_SLOTS (replicate IL_MAX_WATCHES 0), il_repush = False, il_hal = hal0\<rparr>"

text \<open>A reset: the surviving record is judged, then the armed slots are re-claimed.\<close>

definition il_reset :: "env \<Rightarrow> persist \<Rightarrow> unit outcome" where
  "il_reset e p = interlock_warm_restore e (il0 (interlock_boot_decide p))"

lemma cold_init_valid: "persist_is_valid persist_cold_init" "persist_shape persist_cold_init"
  by (simp_all add: persist_is_valid_def persist_cold_init_def persist_shape_def rows_def list_all_iff slot_valid_def
      empty_slot_def slot_state_defs slot_id_defs Let_def)

lemma boot_slot_sel [simp]:
  "sp_id (boot_slot sp) = sp_id sp" "sp_latched (boot_slot sp) = sp_latched sp"
  "sp_state (boot_slot sp) = (if sp_state sp = INTERLOCK_SLOT_ARMED \<and> sp_boot_counter sp \<ge> INTERLOCK_MAX_BOOT_ATTEMPTS
     then INTERLOCK_SLOT_POISONED else sp_state sp)"
  by (simp_all add: boot_slot_def)

lemma boot_decide_ok:
  assumes "persist_shape p"
  shows "persist_is_valid (interlock_boot_decide p)" "persist_shape (interlock_boot_decide p)"
proof -
  have "slot_valid (p\<lparr>pe_slots := map boot_slot (pe_slots p)\<rparr>) i" if "slot_valid p i" "i < INTERLOCK_MAX_SLOTS" for i
    using assms that by (auto simp: slot_valid_def persist_shape_def Let_def slot_state_defs)
  then show "persist_is_valid (interlock_boot_decide p)" "persist_shape (interlock_boot_decide p)"
    using assms cold_init_valid
    by (auto simp: interlock_boot_decide_def persist_is_valid_def persist_shape_def list_all_iff)
qed

lemma free_hal0: "free hal0 i"
  by (simp add: free_def hal0_def ensure_initialised_def unclaimed_def list_all_iff)

lemma il0_upto: "persist_shape p \<Longrightarrow> persist_is_valid p \<Longrightarrow> inv_upto roles 0 (il0 p)"
  by (simp add: inv_upto_def il0_def il_shape_def zero_status_def rows_def list_all_iff board_inv_def hal_inv_hal0 free_hal0)

lemma poison_upto:
  assumes inv: "inv_upto roles i s" and i: "i < INTERLOCK_MAX_SLOTS"
    and h: "board_inv roles h" "strip_table (word_of_nat i) h = strip_table (word_of_nat i) (il_hal s)" "free h i"
  shows "inv_upto roles (Suc i) (poison i (s\<lparr>il_hal := h\<rparr>))"
proof (rule upto_change [OF inv _ i])
  note d = inv_uptoD [OF inv]
  let ?s = "poison i (s\<lparr>il_hal := h\<rparr>)"
  show "unat (word_of_nat i :: u8) = i" using i by (simp add: unat_of_nat INTERLOCK_MAX_SLOTS_def)
  have sl: "slot_of ?s i = (slot_of s i)\<lparr>sp_state := INTERLOCK_SLOT_POISONED\<rparr>"
    using d(1) i by (simp add: poison_def slot_of_set_slot)
  have "slot_valid (il_persist s) i" using d(2) i by (simp add: persist_is_valid_def list_all_iff)
  then show "slot_valid (il_persist ?s) i" using sl
    by (auto simp: slot_valid_def slot_of_def poison_def slot_state_defs Let_def)
  show "slot_good ?s i" using sl h(3) by (simp add: slot_good_def dsl_armed_def slot_state_defs poison_def)
  show "il_shape ?s" using d(1) by (simp add: poison_def set_shape)
  fix j assume "j \<noteq> i"
  then show "slot_of ?s j = slot_of s j \<and> inst_of ?s j = inst_of s j \<and>
      pe_dsl_len (il_persist ?s) ! j = pe_dsl_len (il_persist s) ! j" "j < Suc i \<longleftrightarrow> j < i"
    using d(1) i by (simp_all add: poison_def slot_of_set_slot less_Suc_eq)
qed (use h in \<open>simp_all add: poison_def\<close>)

lemma restore_step:
  assumes inv: "inv_upto roles i s" and i: "i < INTERLOCK_MAX_SLOTS" and e: "on_board roles e"
  shows "inv_upto roles (Suc i) (restore_slot e i s)"
proof -
  note d = inv_uptoD [OF inv] and loc = on_board_loc [OF e]
  let ?w = "word_of_nat i :: u8"
  have w: "unat ?w = i" "unat ?w < 16" using i by (simp_all add: unat_of_nat INTERLOCK_MAX_SLOTS_def)
  have fr: "free (il_hal s) i" using d(4) [OF i] by simp
  have hi: "hal_inv (e_plat e) (il_hal s)" using d(3) by (simp add: board_inv_env [OF e])
  have v: "slot_valid (il_persist s) i" using d(2) i by (simp add: persist_is_valid_def list_all_iff)
  have poison: "inv_upto roles (Suc i) (poison i s)" using poison_upto [OF inv i d(3) refl fr] by simp
  have keep: "inv_upto roles (Suc i) (clear_slot_runtime i (s\<lparr>il_active_slot := a\<rparr>))" "inv_upto roles (Suc i) s"
    if "\<not> dsl_armed s i" for a
    using that by (auto intro!: upto_change [OF inv w(1) i] simp: d fr v slot_good_def dsl_armed_def clear_runtime_shape)
  then have keep': "inv_upto roles (Suc i) (clear_slot_runtime i s)" if "\<not> dsl_armed s i"
    using keep(1) [OF that, of "il_active_slot s"] by simp
  have claim: "inv_upto roles (Suc i) (if st \<noteq> HAL_PIN_CLAIM_OK then poison i (s\<lparr>il_hal := h\<rparr>)
      else clear_slot_runtime i (set_inst i (inst\<lparr>n_tf_state := IL_TF_UNEVALUATED\<rparr>) (s\<lparr>il_hal := h\<rparr>)))"
    if arm: "dsl_armed s i" and dsl: "il_parse dsl = Inr inst"
      and c: "claim_inst_pins (e_plat e) ?w inst (il_hal s) = (st, h)" for dsl inst st h
  proof -
    note ci = hal_platform.claim_inst_inv [OF loc hi w(2) c, unfolded w(1) board_inv_env [OF e]]
    let ?s = "clear_slot_runtime i (set_inst i (inst\<lparr>n_tf_state := IL_TF_UNEVALUATED\<rparr>) (s\<lparr>il_hal := h\<rparr>))"
    have "inv_upto roles (Suc i) ?s" if st: "st = HAL_PIN_CLAIM_OK"
    proof (rule upto_change [OF inv w(1) i])
      have "list_all (owns h i) (outs inst)"
        using claim_inst_owns [OF hi on_board_ok [OF e] c [unfolded st] w(2)] parse_good [OF dsl] w(1)
        by (simp add: list_all_iff)
      moreover have "inst_of ?s i = inst\<lparr>n_tf_state := IL_TF_UNEVALUATED\<rparr>"
        using d(1) i by (simp add: inst_of_set_inst)
      ultimately show "slot_good ?s i" using parse_good [OF dsl] arm
        by (simp add: slot_good_def dsl_armed_def inst_inv_def outs_def ins_def wts_def)
      show "il_shape ?s" using d(1) by (simp add: clear_runtime_shape set_shape)
      fix j assume "j \<noteq> i"
      then show "slot_of ?s j = slot_of s j \<and> inst_of ?s j = inst_of s j \<and>
          pe_dsl_len (il_persist ?s) ! j = pe_dsl_len (il_persist s) ! j" "j < Suc i \<longleftrightarrow> j < i"
        using d(1) i by (simp_all add: inst_of_set_inst less_Suc_eq)
    qed (use ci v in \<open>simp_all add: slot_valid_def\<close>)
    then show ?thesis using poison_upto [OF inv i ci(1,2)] ci(3) by simp
  qed
  show ?thesis
    using poison keep keep' claim unfolding restore_slot_def dsl_armed_def
    by (auto simp: Let_def split: sum.splits prod.splits)
qed

lemma restore_inv:
  assumes "inv_upto roles 0 s" "on_board roles e"
  shows "\<exists>s'. interlock_warm_restore e s = Returned () s' \<and> il_inv roles s'"
proof -
  have "k \<le> INTERLOCK_MAX_SLOTS \<Longrightarrow> inv_upto roles k (fold (restore_slot e) [0..<k] s)" for k
    by (induction k) (use assms restore_step in auto)
  then show ?thesis
    using valid_verify [OF inv_uptoD(2) [OF assms(1)]]
    by (simp add: interlock_warm_restore_def verify_persist_or_panic_def inv_upto_all)
qed

lemma reset_inv:
  assumes "persist_shape p" "on_board roles e"
  shows "\<exists>s. il_reset e p = Returned () s \<and> il_inv roles s"
  unfolding il_reset_def using restore_inv il0_upto boot_decide_ok assms by blast

section \<open>The tick keeps it\<close>

lemma drive_table [simp]:
  "ensure_initialised (hal_pin_drive_outputs v m h) = hal_pin_drive_outputs v m h"
  "g_claims (hal_pin_drive_outputs v m h) = g_claims (ensure_initialised h)"
  by (simp_all add: hal_pin_drive_outputs_def Let_def)

lemma drive_owns: "owns (hal_pin_drive_outputs v m h) i q = owns h i q" "free (hal_pin_drive_outputs v m h) i = free h i"
  by (simp_all add: owns_def free_def claim_at_def)

lemma tick_logic_persist:
  assumes "il_shape s" "insts_bounded s"
  shows "header_same (il_persist s) (il_persist (tick_logic e s))"
    "pe_dsl_len (il_persist (tick_logic e s)) = pe_dsl_len (il_persist s)"
    "pe_dsl_text (il_persist (tick_logic e s)) = pe_dsl_text (il_persist s)"
proof -
  have b: "insts_bounded (tick_clear e s)"
    using assms(2) tick_clear_tf(2) [OF assms(1)] by (simp add: insts_bounded_def)
  note v = tick_eval_spec(2) [OF tick_clear_shape [OF assms(1)] b]
  have c: "header_same (il_persist s) (il_persist (tick_clear e s))"
    "pe_dsl_len (il_persist (tick_clear e s)) = pe_dsl_len (il_persist s)"
    "pe_dsl_text (il_persist (tick_clear e s)) = pe_dsl_text (il_persist s)"
    by (simp_all add: tick_clear_def interlock_begin_grace_def header_same_def)
  show "header_same (il_persist s) (il_persist (tick_logic e s))"
    "pe_dsl_len (il_persist (tick_logic e s)) = pe_dsl_len (il_persist s)"
    "pe_dsl_text (il_persist (tick_logic e s)) = pe_dsl_text (il_persist s)"
    using v [of e] c by (simp_all add: tick_logic_def tick_latch_def same_frame_def header_same_def)
qed

lemma tick_slot_same:
  assumes "il_shape s" "insts_bounded s" "i < INTERLOCK_MAX_SLOTS"
  shows "sp_state (slot_of (tick_logic e s) i) = sp_state (slot_of s i)"
    "sp_id (slot_of (tick_logic e s) i) = sp_id (slot_of s i)"
    "sp_boot_counter (slot_of (tick_logic e s) i) = sp_boot_counter (slot_of s i)"
  by (simp_all add: tick_logic_spec(5) [OF assms])

lemma inst_inv_tf: "inst_inv a (inst\<lparr>n_tf_state := tf\<rparr>) = inst_inv a inst" "outs (inst\<lparr>n_tf_state := tf\<rparr>) = outs inst"
  by (simp_all add: inst_inv_def outs_def ins_def wts_def)

lemma tick_inv:
  assumes "il_inv roles s"
  shows "interlock_tick_all e s = Returned () (tick_next e s)" "il_inv roles (tick_next e s)"
proof -
  note d = il_invD [OF assms] and b = il_inv_bounded [OF assms]
  note t = tick_logic_spec [OF d(1) b] and p = tick_logic_persist [OF d(1) b] and ss = tick_slot_same [OF d(1) b]
  show "interlock_tick_all e s = Returned () (tick_next e s)"
    by (rule tick_all_next [OF valid_verify [OF d(2)]])
  have "slot_valid (il_persist (tick_logic e s)) i" if "i < INTERLOCK_MAX_SLOTS" for i
  proof -
    have "slot_valid (il_persist s) i" using d(2) that by (simp add: persist_is_valid_def list_all_iff)
    then show ?thesis using ss [OF that, of e] p(2) [of e] by (simp add: slot_valid_def slot_of_def Let_def)
  qed
  then have v: "persist_is_valid (il_persist (tick_next e s))"
    using d(2) p(1) [of e] by (simp add: persist_is_valid_def list_all_iff header_same_def tick_next_sel)
  have "board_inv roles (il_hal (tick_next e s))"
    using d(3) t(2) [of e] hal_inv_drive by (simp add: board_inv_def tick_next_sel)
  moreover have "slot_good (tick_next e s) i" if "i < INTERLOCK_MAX_SLOTS" for i
    using d(4) [OF that] ss [OF that, of e] t(4) [OF that, of e]
    by (auto simp: slot_good_def dsl_armed_def tick_next_sel t(2) drive_owns list_all_iff inst_inv_tf split: if_splits)
  ultimately show "il_inv roles (tick_next e s)"
    using v tick_next_shape [OF t(1)] by (simp add: il_inv_def)
qed

section \<open>The framework as a state machine\<close>

text \<open>Everything the firmware does to the framework: the tick of the safety core, the two requests of
  other cores, the shell's arming and disarming, the boot code's note of the configuration, and resets between calls.\<close>

inductive il_step :: "u8 list \<Rightarrow> il \<Rightarrow> il \<Rightarrow> bool" for roles where
  tick: "on_board roles e \<Longrightarrow> interlock_tick_all e s = Returned () s' \<Longrightarrow> il_step roles s s'"
| arm: "on_board roles e \<Longrightarrow> interlock_arm_slot_compiled e slot n s = Returned r s' \<Longrightarrow> il_step roles s s'"
| disarm: "on_board roles e \<Longrightarrow> interlock_disarm_slot e slot s = Returned r s' \<Longrightarrow> il_step roles s s'"
| set_dsl: "on_board roles e \<Longrightarrow> interlock_set_slot_dsl e slot dsl s = Returned r s' \<Longrightarrow> il_step roles s s'"
| clear: "il_step roles s (interlock_request_global_clear s)"
| grace: "on_board roles e \<Longrightarrow> il_step roles s (interlock_begin_grace e s)"
| fingerprint: "il_step roles s (set_fingerprint fp s)"
| reset: "on_board roles e \<Longrightarrow> il_reset e (il_persist s) = Returned () s' \<Longrightarrow> il_step roles s s'"

text \<open>Reachable: from a power-up with any contents of the surviving memory.\<close>

inductive il_reach :: "u8 list \<Rightarrow> il \<Rightarrow> bool" for roles where
  power_up: "persist_shape p \<Longrightarrow> on_board roles e \<Longrightarrow> il_reset e p = Returned () s \<Longrightarrow> il_reach roles s"
| step: "il_reach roles s \<Longrightarrow> il_step roles s s' \<Longrightarrow> il_reach roles s'"

lemma request_inv:
  "il_inv roles s \<Longrightarrow> il_inv roles (interlock_request_global_clear s)"
  "il_inv roles s \<Longrightarrow> il_inv roles (interlock_begin_grace e s)"
proof -
  have "slot_of (interlock_request_global_clear s) = slot_of s" "inst_of (interlock_request_global_clear s) = inst_of s"
    "slot_of (interlock_begin_grace e s) = slot_of s" "inst_of (interlock_begin_grace e s) = inst_of s"
    by (simp_all add: interlock_request_global_clear_def interlock_begin_grace_def slot_of_def inst_of_def fun_eq_iff)
  moreover have "il_hal (interlock_request_global_clear s) = il_hal s" "il_hal (interlock_begin_grace e s) = il_hal s"
    by (simp_all add: interlock_request_global_clear_def interlock_begin_grace_def)
  ultimately have "slot_good (interlock_request_global_clear s) = slot_good s"
    "slot_good (interlock_begin_grace e s) = slot_good s"
    unfolding slot_good_def dsl_armed_def by (simp_all only:)
  then show "il_inv roles s \<Longrightarrow> il_inv roles (interlock_request_global_clear s)"
    "il_inv roles s \<Longrightarrow> il_inv roles (interlock_begin_grace e s)"
    by (simp_all add: il_inv_def il_shape_def interlock_request_global_clear_def interlock_begin_grace_def)
qed

lemma fingerprint_inv: "il_inv roles s \<Longrightarrow> il_inv roles (set_fingerprint fp s)"
proof -
  have "slot_of (set_fingerprint fp s) = slot_of s" "inst_of (set_fingerprint fp s) = inst_of s" "il_hal (set_fingerprint fp s) = il_hal s"
    by (simp_all add: set_fingerprint_def slot_of_def inst_of_def fun_eq_iff)
  then have "slot_good (set_fingerprint fp s) = slot_good s" unfolding slot_good_def dsl_armed_def by (simp only:)
  moreover have "slot_valid (il_persist (set_fingerprint fp s)) = slot_valid (il_persist s)"
    unfolding slot_valid_def by (simp add: set_fingerprint_def)
  ultimately show "il_inv roles s \<Longrightarrow> il_inv roles (set_fingerprint fp s)"
    by (simp add: il_inv_def persist_is_valid_def)
      (simp add: set_fingerprint_def il_shape_def persist_shape_def)
qed

lemma step_inv: "il_step roles s s' \<Longrightarrow> il_inv roles s \<Longrightarrow> il_inv roles s'"
proof (induction rule: il_step.induct)
  case (tick e s s')
  then show ?case using tick_inv [of roles s e] by simp
next
  case (arm e slot n s r s')
  then show ?case using arm_inv [of roles s e slot n] by auto
next
  case (disarm e slot s r s')
  then show ?case using disarm_inv [of roles s e slot] by auto
next
  case (set_dsl e slot dsl s r s')
  then show ?case using set_dsl_inv [of roles s e slot dsl] by auto
next
  case (reset e s s')
  then have "persist_shape (il_persist s)" by (simp add: il_inv_def il_shape_def)
  from reset_inv [OF this reset(1)] show ?case using reset by auto
qed (simp_all add: request_inv fingerprint_inv)

lemma reach_inv: "il_reach roles s \<Longrightarrow> il_inv roles s"
proof (induction rule: il_reach.induct)
  case (power_up p e s)
  then show ?case using reset_inv [of p roles e] by auto
qed (rule step_inv)

end
