(* ===== verification/Interlock_Props.thy ===== *)
theory Interlock_Props
  imports Interlock_Safe
begin

text \<open>
  The properties of the interlock framework: no panic and consistent pins in every reachable state,
  trips within the tick that sees the hazard, trips that hold, the global clear, resets, and the
  evaluation of conditions.
\<close>

unbundle bit_operations_syntax

section \<open>What a tick writes to the pins\<close>

text \<open>The calls that put output \<open>q\<close> to level \<open>v\<close>: push-pull, or open-drain (low is driven, high released).\<close>

definition drive_to :: "il_output \<Rightarrow> u8 \<Rightarrow> gpio_call list" where
  "drive_to q v =
     (if o_open_drain q = 0 \<or> v = 0 then [Gpio_put (o_phys_id q) (v \<noteq> 0), Gpio_set_dir (o_phys_id q) True]
      else [Gpio_set_dir (o_phys_id q) False,
            if o_open_drain q = 2 then Gpio_pull_up (o_phys_id q) else Gpio_disable_pulls (o_phys_id q)])"

definition written :: "il \<Rightarrow> il \<Rightarrow> u8 \<Rightarrow> gpio_call list" where
  "written s s' pid = filter (\<lambda>k. call_pin k = pid) (drop (length (h_calls (il_hal s))) (h_calls (il_hal s')))"

lemma tick_writes:
  assumes inv: "il_inv roles s" and q: "owns (il_hal s) i q" and i: "i < INTERLOCK_MAX_SLOTS"
  shows "slot_vetoes (tick_logic e s) i \<Longrightarrow> written s (tick_next e s) (o_phys_id q) = drive_to q (o_err_value q)"
    and "(\<And>j. j < INTERLOCK_MAX_SLOTS \<Longrightarrow> \<not> slot_vetoes (tick_logic e s) j) \<Longrightarrow>
      written s (tick_next e s) (o_phys_id q) = drive_to q (o_ok_value q)"
proof -
  note d = il_invD [OF inv] and b = il_inv_bounded [OF inv]
  let ?c = "claim_at (ensure_initialised (il_hal s)) (o_phys_id q)" and ?v = "veto_mask (tick_logic e s)"
  have hi: "hal_inv (bc_plat roles [] [] (\<lambda>_. False)) (il_hal s)" using d(3) by (simp add: board_inv_def)
  have row: "unat (o_phys_id q) < HAL_PIN_TABLE_SIZE" "row_is ?c i q" using q by (simp_all add: owns_def)
  have "il_hal (tick_next e s) = hal_pin_drive_outputs ?v managed_mask (il_hal s)"
    by (simp add: tick_next_sel tick_logic_spec(2) [OF d(1) b])
  then have w: "written s (tick_next e s) (o_phys_id q) = drive_row ?v managed_mask (o_phys_id q) ?c"
    using drive_calls_pin [OF hi row(1)] by (simp add: written_def drive_calls_def)
  have app: "apply_calls ?c (o_phys_id q) v = drive_to q v" for v
    using row(2) by (simp add: apply_calls_def drive_to_def row_is_def)
  have m: "bit (c_slot_mask ?c AND managed_mask) i"
    using row(2) i by (simp add: bit_and_iff bit_managed_mask row_is_def)
  have nz: "c_slot_mask ?c \<noteq> 0" "c_slot_mask ?c AND managed_mask \<noteq> 0"
    using m row(2) by (auto simp: row_is_def)
  have w2: "written s (tick_next e s) (o_phys_id q)
      = drive_to q (if c_slot_mask ?c AND ?v \<noteq> 0 then o_err_value q else o_ok_value q)"
    unfolding w drive_row_def app using row(2) nz by (simp add: row_is_def)
  show "written s (tick_next e s) (o_phys_id q) = drive_to q (o_err_value q)" if "slot_vetoes (tick_logic e s) i"
  proof -
    have "bit (c_slot_mask ?c AND ?v) i" using that i row(2) by (simp add: bit_and_iff bit_veto_mask row_is_def)
    then show ?thesis using w2 by auto
  qed
  show "written s (tick_next e s) (o_phys_id q) = drive_to q (o_ok_value q)"
    if "\<And>j. j < INTERLOCK_MAX_SLOTS \<Longrightarrow> \<not> slot_vetoes (tick_logic e s) j"
  proof -
    have "?v = 0" by (rule bit_word_eqI) (use that in \<open>auto simp: bit_veto_mask\<close>)
    then show ?thesis using w2 by simp
  qed
qed

lemma armed_owns:
  assumes "il_inv roles s" "dsl_armed s i" "i < INTERLOCK_MAX_SLOTS" "q \<in> set (outs (inst_of s i))"
  shows "owns (il_hal s) i q"
  using il_invD(4) [OF assms(1,3)] assms(2,4) by (simp add: slot_good_def list_all_iff)

section \<open>A concrete board\<close>

text \<open>A board with no configured pins, all inputs reading \<open>g\<close>, at time \<open>t\<close>; and the state after a cold boot.\<close>

definition env0 :: "bool \<Rightarrow> u32 \<Rightarrow> env" where
  "env0 g t = \<lparr>e_plat = bc_plat [] [] [] (\<lambda>_. g), e_millis = t, e_stack_hwm = 0, e_last_m2s_rx_ms = 0,
     e_nodes_dead = 0, e_pc = 0, e_sp = 0\<rparr>"

lemma env0_board: "on_board [] (env0 g t)"
  by (auto simp: on_board_def env0_def)

lemma reset_cold: "il_reset e persist_cold_init = Returned () (il0 persist_cold_init)"
proof -
  have slots: "slot_of (il0 persist_cold_init) i = empty_slot" if "i < INTERLOCK_MAX_SLOTS" for i
    using that by (simp add: slot_of_def il0_def persist_cold_init_def)
  have "fold (restore_slot e) xs (il0 persist_cold_init) = il0 persist_cold_init"
    if "set xs \<subseteq> {0..<INTERLOCK_MAX_SLOTS}" for xs
    using that by (induction xs) (auto simp: restore_slot_def slots empty_slot_def slot_state_defs)
  moreover have "interlock_boot_decide persist_cold_init = persist_cold_init"
    by (simp add: interlock_boot_decide_def cold_init_valid(1))
       (simp add: persist_cold_init_def boot_slot_def empty_slot_def slot_state_defs)
  ultimately show ?thesis
    using valid_verify [OF cold_init_valid(1)]
    by (simp add: il_reset_def interlock_warm_restore_def verify_persist_or_panic_def il0_def)
qed

lemma cold_reach: "il_reach [] (il0 persist_cold_init)"
  by (rule il_reach.power_up [OF cold_init_valid(2) env0_board reset_cold])

text \<open>The firmware's built-in interlock armed in slot 0 of the freshly booted framework.\<close>

definition gp1_il_state :: il where
  "gp1_il_state = (case interlock_set_slot_dsl (env0 True 0) 0 gp1_il (il0 persist_cold_init) of
     Returned r s \<Rightarrow> s | Panicked s \<Rightarrow> s)"

lemma gp1_claim:
  "\<exists>h. claim_inst_pins (bc_plat [] [] [] (\<lambda>_. g)) 0 gp1_inst hal0 = (HAL_PIN_CLAIM_OK, h)"
proof -
  have "fst (claim_inst_pins (bc_plat [] [] [] (\<lambda>_. g)) 0 gp1_inst hal0) = HAL_PIN_CLAIM_OK"
    by code_simp
  then show ?thesis by (metis prod.collapse)
qed

lemma gp1_len: "gp1_il \<noteq> []" "length gp1_il < IL_DSL_MAX"
  by (simp_all add: gp1_il_def lit_def IL_DSL_MAX_def)

lemma gp1_set:
  "interlock_set_slot_dsl (env0 True 0) 0 gp1_il (il0 persist_cold_init) = Returned (SHELL_STATUS_OK, [0, 0, 0]) gp1_il_state"
  "\<exists>h. gp1_il_state = commit_dsl 0 gp1_inst gp1_il ((il0 persist_cold_init)\<lparr>il_hal := h\<rparr>)"
proof -
  obtain h where h: "claim_inst_pins (bc_plat [] [] [] (\<lambda>_. True)) 0 gp1_inst hal0 = (HAL_PIN_CLAIM_OK, h)"
    using gp1_claim by blast
  have "slot_of (il0 persist_cold_init) 0 = empty_slot"
    by (simp add: slot_of_def il0_def persist_cold_init_def INTERLOCK_MAX_SLOTS_def)
  then have "interlock_set_slot_dsl (env0 True 0) 0 gp1_il (il0 persist_cold_init)
      = Returned (SHELL_STATUS_OK, [0, 0, 0]) (commit_dsl 0 gp1_inst gp1_il ((il0 persist_cold_init)\<lparr>il_hal := h\<rparr>))"
    using gp1_len h valid_verify [OF cold_init_valid(1)] gp1_parse
    by (simp add: interlock_set_slot_dsl_def verify_persist_or_panic_def il0_def env0_def empty_slot_def
        slot_state_defs INTERLOCK_MAX_SLOTS_def)
  then show "interlock_set_slot_dsl (env0 True 0) 0 gp1_il (il0 persist_cold_init)
      = Returned (SHELL_STATUS_OK, [0, 0, 0]) gp1_il_state"
    "\<exists>h. gp1_il_state = commit_dsl 0 gp1_inst gp1_il ((il0 persist_cold_init)\<lparr>il_hal := h\<rparr>)"
    by (auto simp: gp1_il_state_def)
qed

lemma gp1_reach: "il_reach [] gp1_il_state"
  by (rule il_reach.step [OF cold_reach il_step.set_dsl [OF env0_board gp1_set(1)]])

lemma gp1_facts:
  "slot_of gp1_il_state 0 = \<lparr>sp_state = INTERLOCK_SLOT_ARMED, sp_id = INTERLOCK_ID_DSL, sp_boot_counter = 0, sp_latched = 0\<rparr>"
  "inst_of gp1_il_state 0 = gp1_inst" "il_clear_request gp1_il_state = 0" "il_grace_until gp1_il_state = 0"
  "runtime gp1_il_state 0 = (replicate IL_MAX_INPUTS 0, replicate IL_MAX_INPUTS 0, replicate IL_MAX_WATCHES 0)"
  "dsl_armed gp1_il_state 0"
proof -
  obtain h where g: "gp1_il_state = commit_dsl 0 gp1_inst gp1_il ((il0 persist_cold_init)\<lparr>il_hal := h\<rparr>)"
    using gp1_set(2) by blast
  show s: "slot_of gp1_il_state 0 = \<lparr>sp_state = INTERLOCK_SLOT_ARMED, sp_id = INTERLOCK_ID_DSL, sp_boot_counter = 0, sp_latched = 0\<rparr>"
    "inst_of gp1_il_state 0 = gp1_inst"
    unfolding g by (simp_all add: slot_of_def inst_of_def commit_sel il0_def persist_cold_init_def INTERLOCK_MAX_SLOTS_def)
  show "il_clear_request gp1_il_state = 0" "il_grace_until gp1_il_state = 0"
    "runtime gp1_il_state 0 = (replicate IL_MAX_INPUTS 0, replicate IL_MAX_INPUTS 0, replicate IL_MAX_WATCHES 0)"
    unfolding g commit_dsl_def Let_def clear_slot_runtime_def set_slot_def set_inst_def runtime_def il0_def
    by (simp_all add: INTERLOCK_MAX_SLOTS_def)
  show "dsl_armed gp1_il_state 0" by (simp add: dsl_armed_def s)
qed

section \<open>Every reachable state\<close>

text \<open>
  C25. From a power-up with arbitrary contents of the surviving memory, whatever sequence of ticks,
  shell commands, clear requests and resets follows: no operation ever panics, the surviving
  record is valid, the pin ownership table is consistent, and every armed DSL interlock owns
  each of its output pins with the levels it was parsed with.
\<close>

theorem interlock_reachable_safe:
  assumes "il_reach roles s" and "on_board roles e"
  shows "(\<exists>s'. interlock_tick_all e s = Returned () s') \<and>
    (\<exists>r s'. interlock_arm_slot_compiled e slot n s = Returned r s') \<and>
    (\<exists>r s'. interlock_disarm_slot e slot s = Returned r s') \<and>
    (\<exists>r s'. interlock_set_slot_dsl e slot dsl s = Returned r s') \<and>
    (\<exists>s'. il_reset e (il_persist s) = Returned () s') \<and>
    persist_is_valid (il_persist s) \<and> hal_pin_check_consistency (il_hal s) \<and>
    (\<forall>i<INTERLOCK_MAX_SLOTS. dsl_armed s i \<longrightarrow> list_all (owns (il_hal s) i) (outs (inst_of s i)))"
proof -
  note inv = reach_inv [OF assms(1)]
  note d = il_invD [OF inv]
  have "persist_shape (il_persist s)" using d(1) by (simp add: il_shape_def)
  note r = reset_inv [OF this assms(2)]
  have c: "hal_pin_check_consistency (il_hal s)"
    using d(3) unfolding board_inv_def by (rule bc.consistent)
  have "dsl_armed s i \<Longrightarrow> list_all (owns (il_hal s) i) (outs (inst_of s i))" if "i < INTERLOCK_MAX_SLOTS" for i
    using d(4) [OF that] by (simp add: slot_good_def)
  then show ?thesis
    using tick_inv(1) [OF inv, of e] arm_inv [OF inv, of e slot n] disarm_inv [OF inv, of e slot]
      set_dsl_inv [OF inv assms(2), of slot dsl] r c d(2) by blast
qed

theorem interlock_reachable_safe_witness:
  "persist_is_valid (il_persist gp1_il_state) \<and> hal_pin_check_consistency (il_hal gp1_il_state) \<and>
   list_all (owns (il_hal gp1_il_state) 0) (outs gp1_inst)"
proof -
  have "(0 :: nat) < INTERLOCK_MAX_SLOTS" by (simp add: INTERLOCK_MAX_SLOTS_def)
  then show ?thesis
    using interlock_reachable_safe [OF gp1_reach env0_board, of True 0] gp1_facts by metis
qed

section \<open>Trips\<close>

lemma trip:
  assumes inv: "il_inv roles s" and i: "i < INTERLOCK_MAX_SLOTS" and arm: "dsl_armed s i"
    and "latching e s \<and> slot_tf e s i = IL_TF_FALSE \<or> sp_latched (slot_of s i) \<noteq> 0 \<and> il_clear_request s = 0"
  shows "sp_latched (slot_of (tick_next e s) i) \<noteq> 0" "dsl_armed (tick_next e s) i"
    "outs (inst_of (tick_next e s) i) = outs (inst_of s i)" "il_clear_request (tick_next e s) = 0"
    "q \<in> set (outs (inst_of s i)) \<Longrightarrow> written s (tick_next e s) (o_phys_id q) = drive_to q (o_err_value q)"
proof -
  note d = il_invD [OF inv] and b = il_inv_bounded [OF inv]
  note t = tick_logic_spec [OF d(1) b]
  show l: "sp_latched (slot_of (tick_next e s) i) \<noteq> 0"
    using assms(4) arm unfolding tick_next_sel t(5) [OF i] by (auto simp: dsl_armed_def)
  show "dsl_armed (tick_next e s) i"
    using arm tick_slot_same [OF d(1) b i, of e] by (simp add: dsl_armed_def tick_next_sel)
  show "outs (inst_of (tick_next e s) i) = outs (inst_of s i)" "il_clear_request (tick_next e s) = 0"
    by (simp_all add: tick_next_sel t inst_inv_tf i)
  have "slot_vetoes (tick_logic e s) i"
    using l arm tick_slot_same [OF d(1) b i, of e] by (simp add: slot_vetoes_def tick_next_sel dsl_armed_def)
  then show "q \<in> set (outs (inst_of s i)) \<Longrightarrow> written s (tick_next e s) (o_phys_id q) = drive_to q (o_err_value q)"
    using tick_writes(1) [OF inv armed_owns [OF inv arm i] i] by blast
qed

text \<open>
  C26. A hazard trips within one tick: if the condition of an armed interlock is false on this tick's
  inputs, no clear request is pending and the grace window is over, then the slot is latched and
  every output of the interlock is written to its error level (driven, or for open-drain pulled
  low) exactly once in this very tick, whatever the other slots do with the same pins.
\<close>

theorem interlock_hazard_trips:
  assumes "il_reach roles s" and "dsl_armed s i" and "i < INTERLOCK_MAX_SLOTS"
    and "il_clear_request s = 0" and "\<not> il_in_grace e s" and "slot_tf e s i = IL_TF_FALSE"
  shows "\<exists>s'. interlock_tick_all e s = Returned () s' \<and> sp_latched (slot_of s' i) \<noteq> 0 \<and>
    (\<forall>q\<in>set (outs (inst_of s i)). written s s' (o_phys_id q) = drive_to q (o_err_value q))"
proof -
  note inv = reach_inv [OF assms(1)]
  have "latching e s" using assms(4,5) by (simp add: latching_def)
  then show ?thesis using trip [OF inv assms(3,2)] tick_inv(1) [OF inv, of e] assms(6) by blast
qed

text \<open>Evaluating the built-in interlock: GP1 debounced over four samples, and no dead node.\<close>

definition gp1_raw :: "env \<Rightarrow> u16" where "gp1_raw e = (if p_gpio_get (e_plat e) 1 then 1 else 0)"

lemma ucast_u8_u16: "(ucast (b :: u8) :: u16) = 1 \<longleftrightarrow> b = 1" "(ucast (b :: u8) :: u16) = 0 \<longleftrightarrow> b = 0"
  by (transfer, simp add: min_def)+

lemma gp1_eval:
  shows "n_tf_state (fst (snd (eval_slot e h (gp1_inst\<lparr>n_tf_state := tf\<rparr>) sr deb lastp)))
      = (if snd (debounce 4 (gp1_raw e) (sr ! 0) (deb ! 0)) = 1 \<and> e_nodes_dead e = 0 then IL_TF_TRUE else IL_TF_FALSE)"
    and "snd (snd (eval_slot e h (gp1_inst\<lparr>n_tf_state := tf\<rparr>) sr deb lastp)) = (sr', deb', lastp') \<Longrightarrow>
      (sr' ! 0, deb' ! 0) = debounce 4 (gp1_raw e) (sr ! 0) (deb ! 0)"
proof -
  define k where "k = gp1_inst\<lparr>n_tf_state := tf\<rparr>"
  have ins: "n_input_count k = 2" "n_watch_count k = 2"
    "n_inputs k ! 0 = \<lparr>i_phys_id = 1, i_mode = 1, i_oversample_exp = 0, i_sh_cyc = 0, i_debounce_depth = 4, i_hyst = 0\<rparr>"
    "n_inputs k ! 1 = \<lparr>i_phys_id = 0xF3, i_mode = 5, i_oversample_exp = 0, i_sh_cyc = 0, i_debounce_depth = 0, i_hyst = 0\<rparr>"
    "n_watches k ! 0 = \<lparr>w_input_idx = 0, w_op = 0, w_threshold = 1, w_group = 0\<rparr>"
    "n_watches k ! 1 = \<lparr>w_input_idx = 1, w_op = 0, w_threshold = 0, w_group = 0\<rparr>"
    by (simp_all add: k_def gp1_inst_def)
  have r0: "read_input e h (n_inputs k ! 0) (sr ! 0) (deb ! 0)
      = (case debounce 4 (gp1_raw e) (sr ! 0) (deb ! 0) of (a, b) \<Rightarrow> (ucast b, a, b))"
    by (simp add: ins read_input_def il_mode_defs hal_pin_read_def gp1_raw_def HAL_PIN_TABLE_SIZE_def Let_def)
  have r1: "fst (read_input e h (n_inputs k ! Suc 0) x y) = ucast (e_nodes_dead e)" for x y
    using ins(4) by (simp add: read_input_def il_mode_defs read_virtual_input_def il_virt_defs)
  have up: "[0..<unat (2 :: u8)] = [0, 1]" by (simp add: upt_rec)
  obtain a b where db: "debounce 4 (gp1_raw e) (sr ! 0) (deb ! 0) = (a, b)" by (cases "debounce 4 (gp1_raw e) (sr ! 0) (deb ! 0)")
  have w: "watch_pass k vals lastp 0 \<longleftrightarrow> vals ! 0 = 1" "watch_pass k vals lastp (Suc 0) \<longleftrightarrow> vals ! 1 = 0" for vals
    unfolding watch_pass_def compare_def Let_def ins ins(6) [unfolded One_nat_def] by (simp_all add: il_op_defs)
  have dnf: "il_dnf_result k [p, q] \<longleftrightarrow> p \<and> q" for p q
    unfolding il_dnf_result_def Let_def ins up by (simp add: ins(5,6) upt_rec ins(6) [unfolded One_nat_def])
  show "n_tf_state (fst (snd (eval_slot e h (gp1_inst\<lparr>n_tf_state := tf\<rparr>) sr deb lastp)))
      = (if snd (debounce 4 (gp1_raw e) (sr ! 0) (deb ! 0)) = 1 \<and> e_nodes_dead e = 0 then IL_TF_TRUE else IL_TF_FALSE)"
    unfolding k_def [symmetric] eval_slot_def Let_def ins up by (simp add: w dnf r0 r1 db ucast_u8_u16)
  show "snd (snd (eval_slot e h (gp1_inst\<lparr>n_tf_state := tf\<rparr>) sr deb lastp)) = (sr', deb', lastp') \<Longrightarrow>
      (sr' ! 0, deb' ! 0) = debounce 4 (gp1_raw e) (sr ! 0) (deb ! 0)"
    unfolding k_def [symmetric] eval_slot_def Let_def ins up by (auto simp: r0 db)
qed

lemma gp1_slot_tf:
  assumes "dsl_armed s 0" "inst_of s 0 = gp1_inst\<lparr>n_tf_state := tf\<rparr>"
    "debounce 4 (gp1_raw e) (il_shift_reg s ! 0 ! 0) (il_debounced s ! 0 ! 0) = (a, b)"
  shows "slot_tf e s 0 = (if b = 1 \<and> e_nodes_dead e = 0 then IL_TF_TRUE else IL_TF_FALSE)"
    "fst (slot_rt e s 0) ! 0 = a" "fst (snd (slot_rt e s 0)) ! 0 = b"
  using assms gp1_eval(1) [of e "il_hal s" tf "il_shift_reg s ! 0" "il_debounced s ! 0" "il_last_pass s ! 0"]
    gp1_eval(2) [of e "il_hal s" tf "il_shift_reg s ! 0" "il_debounced s ! 0" "il_last_pass s ! 0"]
  by (simp_all add: slot_tf_def slot_rt_def prod_eq_iff)

lemma gp1_first_tick: "slot_tf (env0 g t) gp1_il_state 0 = IL_TF_FALSE"
proof -
  have "il_shift_reg gp1_il_state ! 0 ! 0 = 0" "il_debounced gp1_il_state ! 0 ! 0 = 0"
    using gp1_facts(5) by (simp_all add: runtime_def IL_MAX_INPUTS_def)
  then have "debounce 4 (gp1_raw (env0 g t)) (il_shift_reg gp1_il_state ! 0 ! 0) (il_debounced gp1_il_state ! 0 ! 0)
      = (gp1_raw (env0 g t), 0)"
    by (simp add: debounce_def gp1_raw_def)
  moreover have "inst_of gp1_il_state 0 = gp1_inst\<lparr>n_tf_state := 0\<rparr>" unfolding gp1_facts by (simp add: gp1_inst_def)
  ultimately show ?thesis using gp1_slot_tf(1) [OF gp1_facts(6)] by simp
qed

lemma gp1_outs: "outs gp1_inst = [\<lparr>o_phys_id = 0, o_ok_value = 1, o_err_value = 0, o_open_drain = 2\<rparr>]"
  by (simp add: gp1_inst_def outs_def)

theorem interlock_hazard_trips_witness:
  "\<exists>s'. interlock_tick_all (env0 False 0) gp1_il_state = Returned () s' \<and> sp_latched (slot_of s' 0) \<noteq> 0 \<and>
    written gp1_il_state s' 0 = [Gpio_put 0 False, Gpio_set_dir 0 True]"
proof -
  have g: "\<not> il_in_grace (env0 False 0) gp1_il_state" by (simp add: il_in_grace_def gp1_facts env0_def)
  have i: "0 < INTERLOCK_MAX_SLOTS" by (simp add: INTERLOCK_MAX_SLOTS_def)
  show ?thesis
    using interlock_hazard_trips [OF gp1_reach gp1_facts(6) i gp1_facts(3) g gp1_first_tick]
    by (simp add: gp1_facts gp1_outs drive_to_def)
qed

text \<open>Ticks at the given environments, one after the other.\<close>

fun ticks :: "env list \<Rightarrow> il \<Rightarrow> unit outcome" where
  "ticks [] s = Returned () s"
| "ticks (e # es) s = (case interlock_tick_all e s of Panicked s' \<Rightarrow> Panicked s' | Returned u s' \<Rightarrow> ticks es s')"

lemma ticks_next: "il_inv roles s \<Longrightarrow> ticks es s = Returned () (fold tick_next es s) \<and> il_inv roles (fold tick_next es s)"
  by (induction es arbitrary: s) (simp_all add: tick_inv)

text \<open>A tick leaves the built-in interlock armed, and shifts one sample of GP1 into its register.\<close>

definition gp1_armed :: "u8 list \<Rightarrow> u32 \<Rightarrow> il \<Rightarrow> bool" where
  "gp1_armed roles g t \<longleftrightarrow> il_inv roles t \<and> dsl_armed t 0 \<and> inst_of t 0 = gp1_inst\<lparr>n_tf_state := n_tf_state (inst_of t 0)\<rparr> \<and>
     il_clear_request t = 0 \<and> il_grace_until t = g"

definition gp1_reg :: "il \<Rightarrow> u16" where "gp1_reg t = il_shift_reg t ! 0 ! 0"

lemma gp1_tick:
  assumes g: "gp1_armed roles g t"
  shows "gp1_armed roles g (tick_next e t)" "gp1_raw e = 0 \<Longrightarrow> gp1_reg (tick_next e t) = push_bit 1 (gp1_reg t) AND 15"
proof -
  have i: "0 < INTERLOCK_MAX_SLOTS" by (simp add: INTERLOCK_MAX_SLOTS_def)
  have inv: "il_inv roles t" and tf: "inst_of t 0 = gp1_inst\<lparr>n_tf_state := n_tf_state (inst_of t 0)\<rparr>"
    and arm: "dsl_armed t 0"
    using g by (simp_all add: gp1_armed_def)
  note d = il_invD [OF inv] and b = il_inv_bounded [OF inv]
  note tl = tick_logic_spec [OF d(1) b, where e = e]
  have "dsl_armed (tick_next e t) 0"
    using arm tick_slot_same [OF d(1) b i, of e] by (simp add: dsl_armed_def tick_next_sel)
  moreover have "inst_of (tick_next e t) 0 = gp1_inst\<lparr>n_tf_state := slot_tf e t 0\<rparr>"
    unfolding tick_next_sel tl(4) [OF i] by (subst tf) simp
  moreover have "il_grace_until (tick_next e t) = g" "il_clear_request (tick_next e t) = 0"
    using g by (simp_all add: tick_next_sel tl tick_clear_def gp1_armed_def)
  ultimately show "gp1_armed roles g (tick_next e t)" using tick_inv(2) [OF inv] by (simp add: gp1_armed_def)
  obtain x y where xy: "debounce 4 (gp1_raw e) (il_shift_reg t ! 0 ! 0) (il_debounced t ! 0 ! 0) = (x, y)" by fastforce
  have "fst (runtime (tick_next e t) 0) ! 0 = x"
    using gp1_slot_tf(2) [OF arm tf xy] by (simp add: tick_next_sel tl(6) [OF i])
  then have "gp1_reg (tick_next e t) = fst (debounce 4 (gp1_raw e) (gp1_reg t) (il_debounced t ! 0 ! 0))"
    using xy by (simp add: gp1_reg_def runtime_def)
  then show "gp1_raw e = 0 \<Longrightarrow> gp1_reg (tick_next e t) = push_bit 1 (gp1_reg t) AND 15"
    by (simp add: debounce_def Let_def)
qed

lemma shifted_out: "push_bit 1 (push_bit 1 (push_bit 1 (push_bit 1 x AND 15) AND 15) AND 15) AND 15 = (0 :: u16)"
proof -
  have m: "(15 :: u16) = mask 4" by (simp add: mask_eq_exp_minus_1)
  show ?thesis unfolding m
    by (rule bit_word_eqI) (simp only: bit_and_iff bit_push_bit_iff bit_mask_iff bit_0_eq bot_apply bot_bool_def, auto)
qed

lemma gp1_vetoes:
  assumes "il_reach roles s" and "dsl_armed s 0" and "inst_of s 0 = gp1_inst\<lparr>n_tf_state := tf\<rparr>"
    and "il_clear_request s = 0" and "\<not> il_in_grace e4 s"
    and "list_all (\<lambda>e. \<not> p_gpio_get (e_plat e) 1) [e1, e2, e3, e4] \<or> e_nodes_dead e4 \<noteq> 0"
  shows "\<exists>s3 s4. ticks [e1, e2, e3] s = Returned () s3 \<and> interlock_tick_all e4 s3 = Returned () s4 \<and>
    sp_latched (slot_of s4 0) \<noteq> 0 \<and> written s3 s4 0 = [Gpio_put 0 False, Gpio_set_dir 0 True]"
proof -
  have i: "0 < INTERLOCK_MAX_SLOTS" by (simp add: INTERLOCK_MAX_SLOTS_def)
  let ?g = "gp1_armed roles (il_grace_until s)" and ?s3 = "fold tick_next [e1, e2, e3] s"
  have g: "?g s" using assms reach_inv by (simp add: gp1_armed_def)
  note g1 = gp1_tick [OF g, of e1]
  note g2 = gp1_tick [OF g1(1), of e2]
  note g3 = gp1_tick [OF g2(1), of e3]
  have s3: "?g ?s3" using g3(1) by simp
  have inv3: "il_inv roles ?s3" and arm: "dsl_armed ?s3 0"
    and tf: "inst_of ?s3 0 = gp1_inst\<lparr>n_tf_state := n_tf_state (inst_of ?s3 0)\<rparr>"
    using s3 unfolding gp1_armed_def by simp_all
  obtain x y where db: "debounce 4 (gp1_raw e4) (il_shift_reg ?s3 ! 0 ! 0) (il_debounced ?s3 ! 0 ! 0) = (x, y)" by fastforce
  have "y = 0 \<or> e_nodes_dead e4 \<noteq> 0"
  proof (cases "e_nodes_dead e4 = 0")
    case True
    then have raw: "gp1_raw e1 = 0" "gp1_raw e2 = 0" "gp1_raw e3 = 0" "gp1_raw e4 = 0"
      using assms(6) by (simp_all add: gp1_raw_def)
    have "gp1_reg ?s3 = push_bit 1 (push_bit 1 (push_bit 1 (gp1_reg s) AND 15) AND 15) AND 15"
      using g1(2) g2(2) g3(2) raw by simp
    then show ?thesis using db raw shifted_out [of "gp1_reg s"] unfolding debounce_def Let_def gp1_reg_def
      by (auto split: if_splits)
  qed simp
  then have "slot_tf e4 ?s3 0 = IL_TF_FALSE" using gp1_slot_tf(1) [OF arm tf db] by auto
  moreover have "latching e4 ?s3" using s3 assms(5) by (simp add: latching_def gp1_armed_def il_in_grace_def)
  ultimately have tr: "latching e4 ?s3 \<and> slot_tf e4 ?s3 0 = IL_TF_FALSE \<or>
      sp_latched (slot_of ?s3 0) \<noteq> 0 \<and> il_clear_request ?s3 = 0" by simp
  note t = trip [OF inv3 i arm tr]
  have "outs (inst_of ?s3 0) = outs gp1_inst" by (subst tf) (simp add: inst_inv_tf)
  then have "written ?s3 (tick_next e4 ?s3) 0 = [Gpio_put 0 False, Gpio_set_dir 0 True]"
    using t(5) by (simp add: gp1_outs drive_to_def)
  then show ?thesis
    using t(1) tick_inv(1) [OF inv3, of e4] ticks_next [OF reach_inv [OF assms(1)], of "[e1, e2, e3]"] by blast
qed

text \<open>
  C27. The built-in interlock, end to end: with the firmware's own text armed in slot 0, GP1 sampled
  low on four successive ticks (the debounce depth), or one dead bus node on the last of them, and
  neither a clear request nor the grace window at that last tick, drives the shared veto line GP0
  low in that tick and latches the trip.
\<close>

theorem builtin_interlock_vetoes:
  assumes "il_reach roles s" and "dsl_armed s 0" and "inst_of s 0 = gp1_inst\<lparr>n_tf_state := tf\<rparr>"
    and "il_clear_request s = 0" and "\<not> il_in_grace e4 s"
    and "list_all (\<lambda>e. \<not> p_gpio_get (e_plat e) 1) [e1, e2, e3, e4] \<or> e_nodes_dead e4 \<noteq> 0"
  shows "\<exists>s3 s4. ticks [e1, e2, e3] s = Returned () s3 \<and> interlock_tick_all e4 s3 = Returned () s4 \<and>
    sp_latched (slot_of s4 0) \<noteq> 0 \<and> written s3 s4 0 = [Gpio_put 0 False, Gpio_set_dir 0 True]"
  by (rule gp1_vetoes [OF assms])

theorem builtin_interlock_vetoes_witness:
  "\<exists>s3 s4. ticks [env0 False 0, env0 False 2, env0 False 4] gp1_il_state = Returned () s3 \<and>
    interlock_tick_all (env0 False 6) s3 = Returned () s4 \<and>
    sp_latched (slot_of s4 0) \<noteq> 0 \<and> written s3 s4 0 = [Gpio_put 0 False, Gpio_set_dir 0 True]"
proof (rule builtin_interlock_vetoes [OF gp1_reach gp1_facts(6) _ gp1_facts(3), of 0])
  show "inst_of gp1_il_state 0 = gp1_inst\<lparr>n_tf_state := 0\<rparr>" unfolding gp1_facts by (simp add: gp1_inst_def)
  show "\<not> il_in_grace (env0 False 6) gp1_il_state" by (simp add: il_in_grace_def gp1_facts env0_def)
qed (simp add: env0_def bc_plat_def)

text \<open>
  What may happen while a trip holds: ticks, arming or disarming of other slots, a new grace window
  --- everything but a clear request, a disarm of the slot itself, and a reset.
\<close>

inductive quiet_step :: "u8 list \<Rightarrow> nat \<Rightarrow> il \<Rightarrow> il \<Rightarrow> bool" for roles i where
  q_tick: "on_board roles e \<Longrightarrow> interlock_tick_all e s = Returned () s' \<Longrightarrow> quiet_step roles i s s'"
| q_arm: "on_board roles e \<Longrightarrow> interlock_arm_slot_compiled e slot n s = Returned r s' \<Longrightarrow> quiet_step roles i s s'"
| q_disarm: "on_board roles e \<Longrightarrow> unat slot \<noteq> i \<Longrightarrow> interlock_disarm_slot e slot s = Returned r s' \<Longrightarrow> quiet_step roles i s s'"
| q_set_dsl: "on_board roles e \<Longrightarrow> interlock_set_slot_dsl e slot dsl s = Returned r s' \<Longrightarrow> quiet_step roles i s s'"
| q_grace: "on_board roles e \<Longrightarrow> quiet_step roles i s (interlock_begin_grace e s)"

definition tripped :: "u8 list \<Rightarrow> nat \<Rightarrow> il_output list \<Rightarrow> il \<Rightarrow> bool" where
  "tripped roles i qs s \<longleftrightarrow> il_inv roles s \<and> dsl_armed s i \<and> sp_latched (slot_of s i) \<noteq> 0 \<and>
     outs (inst_of s i) = qs \<and> il_clear_request s = 0"

lemma tripped_keep:
  assumes "tripped roles i qs s" "il_inv roles s'" "slot_of s' i = slot_of s i"
    "outs (inst_of s' i) = outs (inst_of s i)" "il_clear_request s' = il_clear_request s"
  shows "tripped roles i qs s'"
  using assms by (simp add: tripped_def dsl_armed_def)

lemma clear_req_sel [simp]:
  "il_clear_request (clear_slot_runtime j s) = il_clear_request s" "il_clear_request (set_slot j sp s) = il_clear_request s"
  "il_clear_request (set_inst j v s) = il_clear_request s" "il_clear_request (commit_dsl j inst dsl s) = il_clear_request s"
  by (simp_all add: clear_slot_runtime_def set_slot_def set_inst_def commit_dsl_def Let_def)

lemma arm_others:
  assumes "il_inv roles s" "interlock_arm_slot_compiled e slot n s = Returned r s'" "sp_state (slot_of s i) = INTERLOCK_SLOT_ARMED"
  shows "slot_of s' i = slot_of s i \<and> inst_of s' i = inst_of s i \<and> il_clear_request s' = il_clear_request s"
proof -
  note d = il_invD [OF assms(1)]
  show ?thesis
    using assms(2,3) d(1) unfolding interlock_arm_slot_compiled_def verify_persist_or_panic_def valid_verify [OF d(2)]
    by (auto simp: Let_def slot_of_set_slot inst_of_set_inst set_shape split: if_splits)
qed

lemma disarm_others:
  assumes "il_inv roles s" "interlock_disarm_slot e slot s = Returned r s'" "i \<noteq> unat slot"
  shows "slot_of s' i = slot_of s i \<and> inst_of s' i = inst_of s i \<and> il_clear_request s' = il_clear_request s"
proof -
  note d = il_invD [OF assms(1)]
  have sel: "slot_of (t\<lparr>il_persist := (il_persist t)\<lparr>pe_dsl_len := L\<rparr>\<rparr>) = slot_of t"
    "inst_of (t\<lparr>il_persist := (il_persist t)\<lparr>pe_dsl_len := L\<rparr>\<rparr>) = inst_of t" for t L
    by (simp_all add: slot_of_def inst_of_def fun_eq_iff)
  show ?thesis
    using assms(2,3) d(1) unfolding interlock_disarm_slot_def verify_persist_or_panic_def valid_verify [OF d(2)]
    by (auto simp: Let_def slot_of_set_slot inst_of_set_inst set_shape sel split: if_splits)
qed

lemma set_dsl_others:
  assumes "il_inv roles s" "interlock_set_slot_dsl e slot dsl s = Returned r s'" "sp_state (slot_of s i) = INTERLOCK_SLOT_ARMED"
  shows "slot_of s' i = slot_of s i \<and> inst_of s' i = inst_of s i \<and> il_clear_request s' = il_clear_request s"
proof -
  note d = il_invD [OF assms(1)]
  have com: "slot_of (commit_dsl j inst dsl t) i = slot_of t i \<and> inst_of (commit_dsl j inst dsl t) i = inst_of t i"
    if "i \<noteq> j" for j inst t
    using that by (simp add: slot_of_def inst_of_def commit_sel)
  have ne: "sp_state (slot_of s (unat slot)) \<noteq> INTERLOCK_SLOT_ARMED \<Longrightarrow> i \<noteq> unat slot" using assms(3) by auto
  show ?thesis
    using assms(2) unfolding interlock_set_slot_dsl_def verify_persist_or_panic_def valid_verify [OF d(2)]
    by (auto simp: Let_def com [OF ne] split: if_splits sum.splits prod.splits)
qed

lemma quiet_tripped:
  assumes "quiet_step roles i s s'" "tripped roles i qs s" "i < INTERLOCK_MAX_SLOTS"
  shows "tripped roles i qs s'"
  using assms
proof (induction rule: quiet_step.induct)
  case (q_tick e s s')
  have inv: "il_inv roles s" and arm: "dsl_armed s i" using q_tick by (simp_all add: tripped_def)
  show ?case using trip(1-4) [OF inv q_tick(4) arm, of e] tick_inv [OF inv, of e] q_tick by (simp add: tripped_def)
next
  case (q_arm e slot n s r s')
  then have inv: "il_inv roles s" and st: "sp_state (slot_of s i) = INTERLOCK_SLOT_ARMED" by (simp_all add: tripped_def dsl_armed_def)
  show ?case
    using arm_others [OF inv q_arm(2) st] arm_inv [OF inv, of e slot n] q_arm by (intro tripped_keep [OF q_arm(3)]) auto
next
  case (q_disarm e slot s r s')
  then have inv: "il_inv roles s" by (simp add: tripped_def)
  show ?case
    using disarm_others [OF inv q_disarm(3), of i] disarm_inv [OF inv, of e slot] q_disarm
    by (intro tripped_keep [OF q_disarm(4)]) auto
next
  case (q_set_dsl e slot dsl s r s')
  then have inv: "il_inv roles s" and st: "sp_state (slot_of s i) = INTERLOCK_SLOT_ARMED" by (simp_all add: tripped_def dsl_armed_def)
  show ?case
    using set_dsl_others [OF inv q_set_dsl(2) st] set_dsl_inv [OF inv q_set_dsl(1), of slot dsl] q_set_dsl
    by (intro tripped_keep [OF q_set_dsl(3)]) auto
next
  case (q_grace e s)
  then have inv: "il_inv roles s" by (simp add: tripped_def)
  show ?case
    by (rule tripped_keep [OF q_grace(2) request_inv(2) [OF inv]])
       (simp_all add: interlock_begin_grace_def slot_of_def inst_of_def)
qed

text \<open>
  C28. A trip holds: once an armed interlock is latched, then after any number of ticks (whatever the
  inputs read, inside or outside a grace window), armings, refused commands and operations on
  other slots, it is still armed and latched, and the next tick again writes each of its outputs
  to the error level.  Only a clear request, its own disarming or a reset can end the trip.
\<close>

theorem interlock_trip_holds:
  assumes "il_reach roles s" and "i < INTERLOCK_MAX_SLOTS" and "dsl_armed s i"
    and "sp_latched (slot_of s i) \<noteq> 0" and "il_clear_request s = 0" and "(quiet_step roles i)\<^sup>*\<^sup>* s t"
  shows "dsl_armed t i \<and> sp_latched (slot_of t i) \<noteq> 0 \<and>
    (\<exists>t'. interlock_tick_all e t = Returned () t' \<and>
       (\<forall>q\<in>set (outs (inst_of s i)). written t t' (o_phys_id q) = drive_to q (o_err_value q)))"
proof -
  have "tripped roles i (outs (inst_of s i)) s" using assms reach_inv by (simp add: tripped_def)
  with assms(6) have "tripped roles i (outs (inst_of s i)) t"
    by (induction rule: rtranclp_induct) (auto intro: quiet_tripped assms(2))
  then have t: "il_inv roles t" "dsl_armed t i" "sp_latched (slot_of t i) \<noteq> 0" "il_clear_request t = 0"
    "outs (inst_of t i) = outs (inst_of s i)"
    by (simp_all add: tripped_def)
  show ?thesis using trip(5) [OF t(1) assms(2) t(2), of e] tick_inv(1) [OF t(1), of e] t by auto
qed

text \<open>The built-in interlock after its trip, and one tick later with the input released.\<close>

definition gp1_tripped :: il where "gp1_tripped = tick_next (env0 False 0) gp1_il_state"

lemma gp1_tripped_facts:
  "il_reach [] gp1_tripped" "dsl_armed gp1_tripped 0" "sp_latched (slot_of gp1_tripped 0) \<noteq> 0"
  "il_clear_request gp1_tripped = 0" "outs (inst_of gp1_tripped 0) = outs gp1_inst"
proof -
  note inv = reach_inv [OF gp1_reach]
  have i: "0 < INTERLOCK_MAX_SLOTS" by (simp add: INTERLOCK_MAX_SLOTS_def)
  have "latching (env0 False 0) gp1_il_state"
    by (simp add: latching_def il_in_grace_def gp1_facts env0_def)
  then have c: "latching (env0 False 0) gp1_il_state \<and> slot_tf (env0 False 0) gp1_il_state 0 = IL_TF_FALSE \<or>
      sp_latched (slot_of gp1_il_state 0) \<noteq> 0 \<and> il_clear_request gp1_il_state = 0"
    using gp1_first_tick by blast
  note t = trip [OF inv i gp1_facts(6) c]
  show "il_reach [] gp1_tripped" unfolding gp1_tripped_def
    by (rule il_reach.step [OF gp1_reach il_step.tick [OF env0_board tick_inv(1) [OF inv]]])
  show "dsl_armed gp1_tripped 0" "sp_latched (slot_of gp1_tripped 0) \<noteq> 0"
    "il_clear_request gp1_tripped = 0" "outs (inst_of gp1_tripped 0) = outs gp1_inst"
    using t(1-4) by (simp_all add: gp1_tripped_def gp1_facts)
qed

theorem interlock_trip_holds_witness:
  "\<exists>t'. interlock_tick_all (env0 True 4) (tick_next (env0 True 2) gp1_tripped) = Returned () t' \<and>
     written (tick_next (env0 True 2) gp1_tripped) t' 0 = [Gpio_put 0 False, Gpio_set_dir 0 True]"
proof -
  have i: "0 < INTERLOCK_MAX_SLOTS" by (simp add: INTERLOCK_MAX_SLOTS_def)
  have "quiet_step [] 0 gp1_tripped (tick_next (env0 True 2) gp1_tripped)"
    by (rule q_tick [OF env0_board tick_inv(1) [OF reach_inv [OF gp1_tripped_facts(1)]]])
  then have q: "(quiet_step [] 0)\<^sup>*\<^sup>* gp1_tripped (tick_next (env0 True 2) gp1_tripped)" by simp
  show ?thesis
    using interlock_trip_holds [OF gp1_tripped_facts(1) i gp1_tripped_facts(2-4) q, of "env0 True 4"]
    by (simp add: gp1_tripped_facts(5) gp1_outs drive_to_def)
qed

section \<open>The global clear\<close>

lemma grace_window:
  assumes "m - n < (250 :: u32)" shows "0 < sint (n + 250 - m)"
proof -
  have "n + 250 - m = 250 - (m - n)" by simp
  moreover have "0 < sint (250 - x)" if "x < (250 :: u32)" for x
  proof -
    define i where "i = uint x"
    have b: "i < 250" "0 \<le> i" using that by (simp_all add: word_less_def i_def)
    then have "signed_take_bit 31 (250 - i) = 250 - i" by (intro signed_take_bit_int_eq_self) auto
    moreover have "sint (250 - x) = sint (word_of_int (250 - i) :: u32)" by (simp add: i_def)
    ultimately show ?thesis using b unfolding signed_of_int by simp
  qed
  ultimately show ?thesis using assms by metis
qed

text \<open>Inside the window that a clear at time \<open>n\<close> opened, no slot latches.\<close>

definition cleared :: "u8 list \<Rightarrow> u32 \<Rightarrow> il \<Rightarrow> bool" where
  "cleared roles n s \<longleftrightarrow> il_inv roles s \<and> il_grace_until s = n + IL_GRACE_MS \<and> il_clear_request s = 0 \<and>
     (\<forall>i<INTERLOCK_MAX_SLOTS. sp_latched (slot_of s i) = 0)"

lemma clear_tick:
  assumes inv: "il_inv roles s" and "il_clear_request s \<noteq> 0"
  shows "cleared roles (e_millis e) (tick_next e s)"
    "\<not> slot_vetoes (tick_logic e s) j \<or> \<not> j < INTERLOCK_MAX_SLOTS"
proof -
  note d = il_invD [OF inv] and b = il_inv_bounded [OF inv]
  note t = tick_logic_spec [OF d(1) b, where e = e]
  have nl: "\<not> latching e s" using assms(2) by (simp add: latching_def)
  have z: "sp_latched (slot_of (tick_logic e s) i) = 0" if "i < INTERLOCK_MAX_SLOTS" for i
    using nl assms(2) by (simp add: t(5) [OF that])
  then show "\<not> slot_vetoes (tick_logic e s) j \<or> \<not> j < INTERLOCK_MAX_SLOTS" by (auto simp: slot_vetoes_def)
  show "cleared roles (e_millis e) (tick_next e s)"
    using tick_inv(2) [OF inv] z assms(2)
    by (simp add: cleared_def tick_next_sel t(3,7) tick_clear_def interlock_begin_grace_def)
qed

lemma cleared_tick:
  assumes "cleared roles n s" "e_millis e - n < 250"
  shows "cleared roles n (tick_next e s)"
proof -
  have inv: "il_inv roles s" and g: "il_grace_until s = n + IL_GRACE_MS" and c: "il_clear_request s = 0"
    and l: "\<And>i. i < INTERLOCK_MAX_SLOTS \<Longrightarrow> sp_latched (slot_of s i) = 0"
    using assms(1) by (simp_all add: cleared_def)
  note t = tick_logic_spec [OF il_invD(1) [OF inv] il_inv_bounded [OF inv], where e = e]
  have nl: "\<not> latching e s"
    using grace_window [OF assms(2)] by (simp add: latching_def il_in_grace_def g IL_GRACE_MS_def)
  then have "sp_latched (slot_of (tick_next e s) i) = 0" if "i < INTERLOCK_MAX_SLOTS" for i
    using l [OF that] c by (simp add: tick_next_sel t(5) [OF that])
  then show ?thesis using tick_inv(2) [OF inv] c g by (simp add: cleared_def tick_next_sel t(3,7) tick_clear_def)
qed

text \<open>
  C29. The global clear: the tick that finds a clear request drops the latch of every slot, whatever
  the inputs read, writes every output of every armed interlock to its OK level, and no slot can
  latch again at any tick of the next 250 ms, whatever the inputs read then.
\<close>

theorem interlock_clear_releases:
  assumes "il_reach roles s" and "il_clear_request s \<noteq> 0"
    and "list_all (\<lambda>e'. e_millis e' - e_millis e < 250) es"
  shows "\<exists>s1 s2. interlock_tick_all e s = Returned () s1 \<and> ticks es s1 = Returned () s2 \<and>
    (\<forall>i<INTERLOCK_MAX_SLOTS. sp_latched (slot_of s1 i) = 0 \<and> sp_latched (slot_of s2 i) = 0 \<and>
      (dsl_armed s i \<longrightarrow> (\<forall>q\<in>set (outs (inst_of s i)). written s s1 (o_phys_id q) = drive_to q (o_ok_value q))))"
proof -
  note inv = reach_inv [OF assms(1)]
  note c = clear_tick [OF inv assms(2), of e]
  have inv1: "il_inv roles (tick_next e s)" using c(1) by (simp add: cleared_def)
  have "cleared roles (e_millis e) (fold tick_next es (tick_next e s))"
    using c(1) assms(3) by (induction es arbitrary: s rule: rev_induct) (auto intro: cleared_tick)
  moreover have "written s (tick_next e s) (o_phys_id q) = drive_to q (o_ok_value q)"
    if "dsl_armed s i" "i < INTERLOCK_MAX_SLOTS" "q \<in> set (outs (inst_of s i))" for i q
    using tick_writes(2) [OF inv armed_owns [OF inv that] that(2)] c(2) by blast
  ultimately show ?thesis
    using c(1) tick_inv(1) [OF inv, of e] ticks_next [OF inv1, of es]
    by (intro exI [of _ "tick_next e s"] exI [of _ "fold tick_next es (tick_next e s)"]) (simp add: cleared_def)
qed

theorem interlock_clear_releases_witness:
  "\<exists>s1 s2. interlock_tick_all (env0 False 10) (interlock_request_global_clear gp1_tripped) = Returned () s1 \<and>
     ticks [env0 False 20, env0 False 259] s1 = Returned () s2 \<and>
     sp_latched (slot_of s1 0) = 0 \<and> sp_latched (slot_of s2 0) = 0 \<and>
     written (interlock_request_global_clear gp1_tripped) s1 0 = [Gpio_set_dir 0 False, Gpio_pull_up 0]"
proof -
  let ?s = "interlock_request_global_clear gp1_tripped"
  have r: "il_reach [] ?s" by (rule il_reach.step [OF gp1_tripped_facts(1) il_step.clear])
  have sel: "dsl_armed ?s 0" "outs (inst_of ?s 0) = outs gp1_inst" "il_clear_request ?s \<noteq> 0"
    using gp1_tripped_facts(2,5)
    by (simp_all add: interlock_request_global_clear_def dsl_armed_def slot_of_def inst_of_def)
  have e: "list_all (\<lambda>e'. e_millis e' - e_millis (env0 False 10) < 250) [env0 False 20, env0 False 259]"
    by (simp add: env0_def)
  have i: "0 < INTERLOCK_MAX_SLOTS" by (simp add: INTERLOCK_MAX_SLOTS_def)
  obtain s1 s2 where st: "interlock_tick_all (env0 False 10) ?s = Returned () s1"
      "ticks [env0 False 20, env0 False 259] s1 = Returned () s2"
    and all: "\<forall>i<INTERLOCK_MAX_SLOTS. sp_latched (slot_of s1 i) = 0 \<and> sp_latched (slot_of s2 i) = 0 \<and>
      (dsl_armed ?s i \<longrightarrow> (\<forall>q\<in>set (outs (inst_of ?s i)). written ?s s1 (o_phys_id q) = drive_to q (o_ok_value q)))"
    using interlock_clear_releases [OF r sel(3) e] by blast
  have "sp_latched (slot_of s1 0) = 0 \<and> sp_latched (slot_of s2 0) = 0 \<and> written ?s s1 0 = [Gpio_set_dir 0 False, Gpio_pull_up 0]"
    using all [rule_format, OF i] sel by (simp add: gp1_outs drive_to_def)
  then show ?thesis using st by blast
qed

end
