(* ===== verification/Interlock_Boot.thy ===== *)
theory Interlock_Boot
  imports Interlock_Props Boot_Cfg
begin

text \<open>
  Bringing the interlock up (\<^verbatim>\<open>interlock_thread2_start\<close> of \<^verbatim>\<open>src/app/bus_controller/main.c\<close>): the armed set that
  survived a warm reset is restored, the configured interlocks \<^verbatim>\<open>ilc1 .. ilc9\<close> are re-armed when their
  files changed, and the built-in interlock is armed in slot 0 unless it was preserved.  Starting
  the tick task is left out; the GPIO set-up of GP1 ahead of it has no effect on the model's state.
\<close>

unbundle bit_operations_syntax

primrec obind :: "'a outcome \<Rightarrow> ('a \<Rightarrow> il \<Rightarrow> 'b outcome) \<Rightarrow> 'b outcome" where
  "obind (Returned x s) k = k x s"
| "obind (Panicked s) k = Panicked s"

fun ofold :: "('x \<Rightarrow> 'a \<Rightarrow> il \<Rightarrow> 'a outcome) \<Rightarrow> 'x list \<Rightarrow> 'a \<Rightarrow> il \<Rightarrow> 'a outcome" where
  "ofold f [] a s = Returned a s"
| "ofold f (x # xs) a s = obind (f x a s) (ofold f xs)"

section \<open>The configured interlocks\<close>

definition ilc_name :: "nat \<Rightarrow> u8 list" where
  "ilc_name slot = key ''ilc'' @ [0x30 + word_of_nat slot]"

text \<open>The file of a slot; absent and empty files count as none.\<close>

definition ilc_load :: "cfg_entry list \<Rightarrow> nat \<Rightarrow> u8 list option" where
  "ilc_load region slot =
     (case cfg_load region (ilc_name slot) CFG_FILE_MAX of
        Inl _ \<Rightarrow> None | Inr buf \<Rightarrow> if buf = [] then None else Some buf)"

definition fnv_step :: "u32 \<Rightarrow> u32 \<Rightarrow> u32" where
  "fnv_step fp b = (fp XOR b) * 16777619"

definition interlock_cfg_fingerprint :: "cfg_entry list \<Rightarrow> u32" where
  "interlock_cfg_fingerprint region =
     fold (\<lambda>slot fp. case ilc_load region slot of None \<Rightarrow> fp
        | Some buf \<Rightarrow> foldl (\<lambda>fp b. fnv_step fp (ucast b)) (fnv_step fp (word_of_nat (slot + 1))) buf)
       [1..<INTERLOCK_MAX_SLOTS] 2166136261"

text \<open>The results: the number of configured interlocks armed (\<open>g_ilcf_rc\<close>) and the first failure (\<open>g_il_armfail\<close>).\<close>

record boot_diag =
  bd_ilcf_rc :: nat
  bd_armfail :: u32

definition arm_failure :: "nat \<Rightarrow> u8 \<Rightarrow> u8 list \<Rightarrow> u32" where
  "arm_failure slot st er = push_bit 24 (word_of_nat slot) OR push_bit 16 (ucast st) OR push_bit 8 (ucast (er ! 0)) OR ucast (er ! 1)"

definition arm_cfg_slot :: "env \<Rightarrow> cfg_entry list \<Rightarrow> nat \<Rightarrow> boot_diag \<Rightarrow> il \<Rightarrow> boot_diag outcome" where
  "arm_cfg_slot e region slot d s =
     (case ilc_load region slot of None \<Rightarrow> Returned d s
      | Some buf \<Rightarrow> obind (interlock_set_slot_dsl e (word_of_nat slot) buf s) (\<lambda>(st, er).
          Returned (if st = SHELL_STATUS_OK then d\<lparr>bd_ilcf_rc := bd_ilcf_rc d + 1\<rparr>
                    else if bd_armfail d = 0 then d\<lparr>bd_armfail := arm_failure slot st er\<rparr> else d)))"

definition drop_slot :: "env \<Rightarrow> nat \<Rightarrow> unit \<Rightarrow> il \<Rightarrow> unit outcome" where
  "drop_slot e slot _ s = obind (interlock_disarm_slot e (word_of_nat slot) s) (\<lambda>_. Returned ())"

definition rearm_config :: "env \<Rightarrow> cfg_entry list \<Rightarrow> il \<Rightarrow> boot_diag outcome" where
  "rearm_config e region s =
     obind (ofold (drop_slot e) [1..<INTERLOCK_MAX_SLOTS] () s) (\<lambda>_ s.
     obind (ofold (arm_cfg_slot e region) [1..<INTERLOCK_MAX_SLOTS] \<lparr>bd_ilcf_rc = 0, bd_armfail = 0\<rparr> s) (\<lambda>d s.
     Returned d (set_fingerprint (interlock_cfg_fingerprint region) s)))"

definition builtin_preserved :: "il \<Rightarrow> bool" where
  "builtin_preserved s \<longleftrightarrow> sp_state (slot_of s 0) = INTERLOCK_SLOT_ARMED \<and>
     pe_dsl_len (il_persist s) ! 0 = word_of_nat (length gp1_il) \<and>
     take (length gp1_il) (pe_dsl_text (il_persist s) ! 0) = gp1_il"

definition arm_builtin :: "env \<Rightarrow> boot_diag \<Rightarrow> il \<Rightarrow> boot_diag outcome" where
  "arm_builtin e d s =
     (if builtin_preserved s then Returned d s
      else obind (interlock_disarm_slot e 0 s) (\<lambda>_ s.
        obind (interlock_set_slot_dsl e 0 gp1_il s) (\<lambda>(st, er).
          Returned (if st \<noteq> SHELL_STATUS_OK \<and> bd_armfail d = 0 then d\<lparr>bd_armfail := arm_failure 0 st er\<rparr> else d))))"

definition interlock_thread2_start :: "env \<Rightarrow> cfg_entry list \<Rightarrow> il \<Rightarrow> boot_diag outcome" where
  "interlock_thread2_start e region s =
     obind (interlock_warm_restore e s) (\<lambda>_ s.
     obind (if interlock_cfg_fingerprint region \<noteq> pe_cfg_fingerprint (il_persist s) \<or> interlock_armed_count s = 0
            then rearm_config e region s
            else Returned \<lparr>bd_ilcf_rc = unat (interlock_armed_count s), bd_armfail = 0\<rparr> s) (\<lambda>d s.
     obind (arm_builtin e d s) (\<lambda>d s. Returned d (interlock_begin_grace e s))))"

text \<open>A reset of the unit, up to the moment the tick task starts.\<close>

definition boot_interlock :: "env \<Rightarrow> cfg_entry list \<Rightarrow> persist \<Rightarrow> boot_diag outcome" where
  "boot_interlock e region p = interlock_thread2_start e region (il0 (interlock_boot_decide p))"

section \<open>Status report\<close>

definition IL_STATUS_WIRE_VER :: u8 where "IL_STATUS_WIRE_VER = 1"

fun pack_slots :: "il \<Rightarrow> u8 \<Rightarrow> nat list \<Rightarrow> u8 list \<Rightarrow> u8 \<Rightarrow> u8 list \<times> u8" where
  "pack_slots s cap [] out cnt = (out, cnt)"
| "pack_slots s cap (i # is) out cnt =
     (if \<not> word_of_nat (length out) + 4 \<le> cap then (out, cnt)
      else if sp_state (slot_of s i) = INTERLOCK_SLOT_EMPTY then pack_slots s cap is out cnt
      else pack_slots s cap is
        (out @ [word_of_nat i, sp_state (slot_of s i), n_tf_state (inst_of s i), sp_latched (slot_of s i)]) (cnt + 1))"

definition any_latched :: "il \<Rightarrow> bool" where
  "any_latched s \<longleftrightarrow> list_ex (\<lambda>i. sp_state (slot_of s i) = INTERLOCK_SLOT_ARMED \<and> sp_latched (slot_of s i) \<noteq> 0) [0..<INTERLOCK_MAX_SLOTS]"

definition gpio_level :: "env \<Rightarrow> u8 \<Rightarrow> u8" where
  "gpio_level e pin = (if p_gpio_get (e_plat e) pin then 1 else 0)"

definition il_status_pack :: "env \<Rightarrow> il \<Rightarrow> u8 \<Rightarrow> u8 list" where
  "il_status_pack e s cap =
     (if cap < 3 then []
      else (let (out, cnt) = pack_slots s cap [0..<INTERLOCK_MAX_SLOTS]
                  [IL_STATUS_WIRE_VER, if any_latched s then 1 else 0, 0] 0;
                out = out[2 := cnt]
            in if word_of_nat (length out) + 2 \<le> cap
               then out @ [gpio_level e INTERLOCK_VETO_PIN, gpio_level e INTERLOCK_IN_PIN]
               else out))"

section \<open>Other slots\<close>

text \<open>What a slot consists of in the surviving record.\<close>

definition slot_row :: "il \<Rightarrow> nat \<Rightarrow> slot_persist \<times> il_inst \<times> u16 \<times> u8 list" where
  "slot_row s i = (slot_of s i, inst_of s i, pe_dsl_len (il_persist s) ! i, pe_dsl_text (il_persist s) ! i)"

lemmas row_defs = slot_row_def slot_of_def inst_of_def set_slot_def set_inst_def clear_slot_runtime_def poison_def

lemma restore_other: "j \<noteq> i \<Longrightarrow> slot_row (restore_slot e i s) j = slot_row s j"
  by (auto simp: restore_slot_def Let_def row_defs split: sum.split prod.split)

lemma set_dsl_other:
  "interlock_set_slot_dsl e slot dsl s = Returned r s' \<Longrightarrow> j \<noteq> unat slot \<Longrightarrow> slot_row s' j = slot_row s j"
  by (auto simp: interlock_set_slot_dsl_def verify_persist_or_panic_def Let_def row_defs commit_dsl_def
      split: sum.splits prod.splits option.splits if_splits)

lemma disarm_other:
  "interlock_disarm_slot e slot s = Returned r s' \<Longrightarrow> j \<noteq> unat slot \<Longrightarrow> slot_row s' j = slot_row s j"
  by (auto simp: interlock_disarm_slot_def verify_persist_or_panic_def Let_def row_defs
      split: prod.splits option.splits if_splits)

lemma fingerprint_row [simp]: "slot_row (set_fingerprint fp s) = slot_row s" "slot_row (interlock_begin_grace e s) = slot_row s"
  by (simp_all add: set_fingerprint_def row_defs interlock_begin_grace_def fun_eq_iff)

section \<open>Total correctness of the boot steps\<close>

text \<open>\<open>wp m Q\<close>: the operation does not panic, and its result and final state satisfy \<open>Q\<close>.\<close>

definition wp :: "'a outcome \<Rightarrow> ('a \<Rightarrow> il \<Rightarrow> bool) \<Rightarrow> bool" where
  "wp m Q \<longleftrightarrow> (\<exists>x s. m = Returned x s \<and> Q x s)"

lemma wp_Returned [simp]: "wp (Returned x s) Q = Q x s"
  by (simp add: wp_def)

lemma wp_bind: "wp m (\<lambda>x s. wp (k x s) Q) \<Longrightarrow> wp (obind m k) Q"
  by (auto simp: wp_def)

lemma wp_mono: "wp m P \<Longrightarrow> (\<And>x s. P x s \<Longrightarrow> Q x s) \<Longrightarrow> wp m Q"
  by (auto simp: wp_def)

lemma wp_ofold:
  assumes "\<And>i a s. m \<le> i \<Longrightarrow> i < n \<Longrightarrow> I i a s \<Longrightarrow> wp (f i a s) (I (Suc i))"
  shows "I m a s \<Longrightarrow> m \<le> n \<Longrightarrow> wp (ofold f [m..<n] a s) (I n)"
  using assms
proof (induction "n - m" arbitrary: m a s)
  case (Suc k)
  then have "[m..<n] = m # [Suc m..<n]" by (simp add: upt_conv_Cons)
  moreover have "wp (f m a s) (\<lambda>a s. wp (ofold f [Suc m..<n] a s) (I n))"
    using Suc by (intro wp_mono [OF Suc.prems(3) [of m a s]]) simp_all
  ultimately show ?case by (simp add: wp_bind)
qed simp

text \<open>What no boot step on another slot touches: the row of the slot, and the pending clear request.\<close>

definition keeps :: "nat \<Rightarrow> il \<Rightarrow> il \<Rightarrow> bool" where
  "keeps j s s' \<longleftrightarrow> slot_row s' j = slot_row s j \<and> il_clear_request s' = il_clear_request s"

lemma keeps_trans: "keeps j s s' \<Longrightarrow> keeps j s' s'' \<Longrightarrow> keeps j s s''"
  and keeps_refl [simp]: "keeps j s s"
  and keeps_frame [simp]: "keeps j s (set_fingerprint fp t) = keeps j s t" "keeps j s (interlock_begin_grace e t) = keeps j s t"
  by (auto simp: keeps_def) (auto simp: set_fingerprint_def interlock_begin_grace_def)

lemma restore_keeps: "j \<noteq> i \<Longrightarrow> keeps j s (restore_slot e i s)"
  unfolding keeps_def
  by (simp add: restore_other) (auto simp: restore_slot_def Let_def row_defs split: sum.split prod.split)

lemma restores_keep: "j \<notin> set is \<Longrightarrow> keeps j s (fold (restore_slot e) is s)"
  by (induction "is" arbitrary: s) (auto intro: keeps_trans restore_keeps)

lemma wp_disarm:
  assumes "il_inv roles s" "i < INTERLOCK_MAX_SLOTS"
  shows "wp (interlock_disarm_slot e (word_of_nat i) s) (\<lambda>_ s'. il_inv roles s' \<and> (\<forall>j. j \<noteq> i \<longrightarrow> keeps j s s') \<and>
    slot_of s' i = empty_slot \<and> pe_cfg_fingerprint (il_persist s') = pe_cfg_fingerprint (il_persist s) \<and>
    il_clear_request s' = il_clear_request s)"
proof -
  have i: "unat (word_of_nat i :: u8) = i" using assms(2) by (simp add: unat_of_nat INTERLOCK_MAX_SLOTS_def)
  note d = il_invD [OF assms(1)]
  obtain r s' where s': "interlock_disarm_slot e (word_of_nat i) s = Returned r s'" "il_inv roles s'"
    using disarm_inv [OF assms(1)] by blast
  have f: "slot_of s' i = empty_slot" "pe_cfg_fingerprint (il_persist s') = pe_cfg_fingerprint (il_persist s)"
    "il_clear_request s' = il_clear_request s"
    using s'(1) d(1) assms(2) i
    by (auto simp: interlock_disarm_slot_def verify_persist_or_panic_def valid_verify [OF d(2)] Let_def row_defs
        il_shape_def persist_shape_def split: if_splits)
  then show ?thesis using s' disarm_other [OF s'(1)] i by (simp add: wp_def keeps_def)
qed

text \<open>A slot armed from a text.\<close>

definition armed_with :: "u8 list \<Rightarrow> il \<Rightarrow> nat \<Rightarrow> bool" where
  "armed_with dsl s i \<longleftrightarrow> dsl_armed s i \<and> pe_dsl_len (il_persist s) ! i = word_of_nat (length dsl) \<and>
     take (length dsl) (pe_dsl_text (il_persist s) ! i) = dsl \<and> length dsl < IL_DSL_MAX"

lemma armed_with_keeps: "keeps i s s' \<Longrightarrow> armed_with dsl s' i = armed_with dsl s i"
  by (simp add: armed_with_def keeps_def slot_row_def dsl_armed_def)

lemma wp_set_dsl:
  assumes "il_inv roles s" "i < INTERLOCK_MAX_SLOTS" "on_board roles e"
  shows "wp (interlock_set_slot_dsl e (word_of_nat i) dsl s) (\<lambda>(st, er) s'. il_inv roles s' \<and> (\<forall>j. j \<noteq> i \<longrightarrow> keeps j s s') \<and>
    (if st = SHELL_STATUS_OK then armed_with dsl s' i \<and> sp_latched (slot_of s' i) = 0 else keeps i s s') \<and>
    il_clear_request s' = il_clear_request s)"
proof -
  have i: "unat (word_of_nat i :: u8) = i" using assms(2) by (simp add: unat_of_nat INTERLOCK_MAX_SLOTS_def)
  note d = il_invD [OF assms(1)]
  obtain st er s' where s': "interlock_set_slot_dsl e (word_of_nat i) dsl s = Returned (st, er) s'" "il_inv roles s'"
    using set_dsl_inv [OF assms(1,3)] by fastforce
  have c: "il_clear_request s' = il_clear_request s"
    using s'(1) by (auto simp: interlock_set_slot_dsl_def verify_persist_or_panic_def Let_def row_defs commit_dsl_def
      split: sum.splits prod.splits option.splits if_splits)
  have len: "length (pe_dsl_text (il_persist s) ! i) = IL_DSL_MAX" "i < length (pe_dsl_text (il_persist s))"
    using d(1) assms(2) by (auto simp: il_shape_def persist_shape_def rows_def list_all_iff)
  have "if st = SHELL_STATUS_OK then armed_with dsl s' i \<and> sp_latched (slot_of s' i) = 0 else keeps i s s'"
    using s'(1) d(1) assms(2) i len c
    by (auto simp: interlock_set_slot_dsl_def verify_persist_or_panic_def valid_verify [OF d(2)] Let_def row_defs
        commit_dsl_def keeps_def armed_with_def dsl_armed_def SHELL_STATUS_OK_def SHELL_STATUS_BAD_ARGS_def SHELL_STATUS_BUSY_def
        il_shape_def persist_shape_def split: sum.splits prod.splits if_splits)
  then show ?thesis using s' c set_dsl_other [OF s'(1)] i by (simp add: wp_def keeps_def)
qed

section \<open>Re-arming from the files\<close>

text \<open>A configured slot is empty, or armed from the file the flash holds for it now.\<close>

definition cfg_slot_ok :: "cfg_entry list \<Rightarrow> il \<Rightarrow> nat \<Rightarrow> bool" where
  "cfg_slot_ok region s j \<longleftrightarrow> slot_of s j = empty_slot \<or> (\<exists>buf. ilc_load region j = Some buf \<and> armed_with buf s j)"

lemma keeps_slot: "keeps j s s' \<Longrightarrow> slot_of s' j = slot_of s j" "keeps j s s' \<Longrightarrow> dsl_armed s' j = dsl_armed s j"
  by (simp_all add: keeps_def slot_row_def dsl_armed_def)

lemma cfg_slot_ok_keeps: "keeps j s s' \<Longrightarrow> cfg_slot_ok region s' j = cfg_slot_ok region s j"
  by (simp add: cfg_slot_ok_def armed_with_keeps keeps_slot)

lemma empty_not_armed: "slot_of s j = empty_slot \<Longrightarrow> \<not> dsl_armed s j"
  by (simp add: dsl_armed_def empty_slot_def slot_state_defs)

lemma wp_drops:
  assumes "il_inv roles s"
  shows "wp (ofold (drop_slot e) [1..<INTERLOCK_MAX_SLOTS] () s) (\<lambda>_ s'. il_inv roles s' \<and> keeps 0 s s' \<and>
    (\<forall>j. 1 \<le> j \<longrightarrow> j < INTERLOCK_MAX_SLOTS \<longrightarrow> slot_of s' j = empty_slot))"
proof (rule wp_ofold [where I = "\<lambda>k _ s'. il_inv roles s' \<and> keeps 0 s s' \<and> (\<forall>j. 1 \<le> j \<longrightarrow> j < k \<longrightarrow> slot_of s' j = empty_slot)"])
  fix i a t
  assume i: "1 \<le> i" "i < INTERLOCK_MAX_SLOTS"
    and I: "il_inv roles t \<and> keeps 0 s t \<and> (\<forall>j. 1 \<le> j \<longrightarrow> j < i \<longrightarrow> slot_of t j = empty_slot)"
  have "slot_of t' j = empty_slot"
    if "\<forall>j. j \<noteq> i \<longrightarrow> keeps j t t'" "slot_of t' i = empty_slot" "1 \<le> j" "j < Suc i" for t' j
    using that I keeps_slot(1) [of j t t'] by (cases "j = i") auto
  note e = this
  have inv: "il_inv roles t" and k: "keeps 0 s t" using I by simp_all
  show "wp (drop_slot e i a t) (\<lambda>_ s'. il_inv roles s' \<and> keeps 0 s s' \<and> (\<forall>j. 1 \<le> j \<longrightarrow> j < Suc i \<longrightarrow> slot_of s' j = empty_slot))"
    unfolding drop_slot_def
    by (rule wp_bind, rule wp_mono [OF wp_disarm [OF inv i(2)]]) (use e i(1) keeps_trans [OF k] in simp)
qed (use assms in \<open>simp_all add: INTERLOCK_MAX_SLOTS_def\<close>)

definition arm_inv :: "u8 list \<Rightarrow> cfg_entry list \<Rightarrow> il \<Rightarrow> nat \<Rightarrow> boot_diag \<Rightarrow> il \<Rightarrow> bool" where
  "arm_inv roles region s k d s' \<longleftrightarrow> il_inv roles s' \<and> keeps 0 s s' \<and>
     (\<forall>j. 1 \<le> j \<longrightarrow> j < k \<longrightarrow> cfg_slot_ok region s' j) \<and>
     (\<forall>j. k \<le> j \<longrightarrow> j < INTERLOCK_MAX_SLOTS \<longrightarrow> slot_of s' j = empty_slot) \<and>
     bd_ilcf_rc d = length (filter (dsl_armed s') [1..<k])"

lemma arm_inv_step:
  assumes I: "arm_inv roles region s i d t" and i: "1 \<le> i" "i < INTERLOCK_MAX_SLOTS"
    and t: "il_inv roles t'" "\<forall>j. j \<noteq> i \<longrightarrow> keeps j t t'"
    and ok: "if b then ilc_load region i = Some buf \<and> armed_with buf t' i else keeps i t t'"
    and rc: "bd_ilcf_rc d' = (if b then bd_ilcf_rc d + 1 else bd_ilcf_rc d)"
  shows "arm_inv roles region s (Suc i) d' t'"
proof -
  have k: "keeps 0 s t'" using I i(1) t(2) keeps_trans [of 0 s t] by (simp add: arm_inv_def)
  have e: "slot_of t i = empty_slot" using I i by (simp add: arm_inv_def)
  have self: "cfg_slot_ok region t' i" "dsl_armed t' i = b"
    using ok e keeps_slot [of i t t'] empty_not_armed [of t i]
    by (auto simp: cfg_slot_ok_def armed_with_def split: if_splits)
  have other: "dsl_armed t' j = dsl_armed t j" "cfg_slot_ok region t' j = cfg_slot_ok region t j" "slot_of t' j = slot_of t j"
    if "j \<noteq> i" for j
    using that t(2) keeps_slot cfg_slot_ok_keeps by blast+
  have "filter (dsl_armed t') [1..<i] = filter (dsl_armed t) [1..<i]"
    using other(1) by (intro filter_cong) auto
  then have "length (filter (dsl_armed t') [1..<Suc i]) = bd_ilcf_rc d'"
    using I i(1) self(2) rc by (simp add: arm_inv_def)
  moreover have "cfg_slot_ok region t' j" if "1 \<le> j" "j < Suc i" for j
    using that I self(1) other(2) by (cases "j = i") (auto simp: arm_inv_def)
  moreover have "slot_of t' j = empty_slot" if "Suc i \<le> j" "j < INTERLOCK_MAX_SLOTS" for j
    using that I other(3) by (auto simp: arm_inv_def)
  ultimately show ?thesis using t(1) k unfolding arm_inv_def by simp
qed

lemma wp_arm_cfg:
  assumes I: "arm_inv roles region s i d t" and i: "1 \<le> i" "i < INTERLOCK_MAX_SLOTS" and e: "on_board roles e"
  shows "wp (arm_cfg_slot e region i d t) (arm_inv roles region s (Suc i))"
proof (cases "ilc_load region i")
  case None
  then show ?thesis
    using arm_inv_step [OF I i, of t False undefined d] I by (simp add: arm_cfg_slot_def arm_inv_def)
next
  case (Some buf)
  have inv: "il_inv roles t" using I by (simp add: arm_inv_def)
  have "wp (interlock_set_slot_dsl e (word_of_nat i) buf t) (\<lambda>(st, er) t'. arm_inv roles region s (Suc i)
      (if st = SHELL_STATUS_OK then d\<lparr>bd_ilcf_rc := bd_ilcf_rc d + 1\<rparr>
       else if bd_armfail d = 0 then d\<lparr>bd_armfail := arm_failure i st er\<rparr> else d) t')"
  proof (rule wp_mono [OF wp_set_dsl [OF inv i(2) e]], clarify)
    fix st er t'
    assume "il_inv roles t'" "\<forall>j. j \<noteq> i \<longrightarrow> keeps j t t'" "if st = SHELL_STATUS_OK then armed_with buf t' i \<and> sp_latched (slot_of t' i) = 0 else keeps i t t'"
    then show "arm_inv roles region s (Suc i)
      (if st = SHELL_STATUS_OK then d\<lparr>bd_ilcf_rc := bd_ilcf_rc d + 1\<rparr>
       else if bd_armfail d = 0 then d\<lparr>bd_armfail := arm_failure i st er\<rparr> else d) t'"
      using Some by (intro arm_inv_step [OF I i, where b = "st = SHELL_STATUS_OK" and buf = buf]) auto
  qed
  then show ?thesis unfolding arm_cfg_slot_def Some option.case by (intro wp_bind) (erule wp_mono, auto)
qed

lemma wp_rearm:
  assumes "il_inv roles s" "on_board roles e"
  shows "wp (rearm_config e region s) (\<lambda>d s'. arm_inv roles region s INTERLOCK_MAX_SLOTS d s' \<and>
    pe_cfg_fingerprint (il_persist s') = interlock_cfg_fingerprint region)"
proof -
  have fp: "arm_inv roles region s n d (set_fingerprint x t)" if "arm_inv roles region s n d t" for n d t x
  proof -
    have k: "keeps j t (set_fingerprint x t)" for j by simp
    have "dsl_armed (set_fingerprint x t) = dsl_armed t" using keeps_slot(2) [OF k] by blast
    then show ?thesis
      using that fingerprint_inv [of roles t x] keeps_slot(1) [OF k] cfg_slot_ok_keeps [OF k]
      by (simp add: arm_inv_def)
  qed
  have start: "arm_inv roles region s 1 \<lparr>bd_ilcf_rc = 0, bd_armfail = 0\<rparr> t"
    if "il_inv roles t" "keeps 0 s t" "\<forall>j. 1 \<le> j \<longrightarrow> j < INTERLOCK_MAX_SLOTS \<longrightarrow> slot_of t j = empty_slot" for t
    using that by (simp add: arm_inv_def)
  have "wp (ofold (arm_cfg_slot e region) [1..<INTERLOCK_MAX_SLOTS] \<lparr>bd_ilcf_rc = 0, bd_armfail = 0\<rparr> t)
      (arm_inv roles region s INTERLOCK_MAX_SLOTS)"
    if "il_inv roles t" "keeps 0 s t" "\<forall>j. 1 \<le> j \<longrightarrow> j < INTERLOCK_MAX_SLOTS \<longrightarrow> slot_of t j = empty_slot" for t
    by (rule wp_ofold) (use start [OF that] wp_arm_cfg assms(2) in \<open>auto simp: INTERLOCK_MAX_SLOTS_def\<close>)
  note arm = this
  show ?thesis
    unfolding rearm_config_def
    by (rule wp_bind, rule wp_mono [OF wp_drops [OF assms(1)]], rule wp_bind, rule wp_mono [OF arm])
      (simp_all add: fp, simp add: set_fingerprint_def)
qed

section \<open>The built-in interlock\<close>

lemma preserved_armed: "armed_with gp1_il s 0 \<Longrightarrow> builtin_preserved s"
  by (simp add: armed_with_def builtin_preserved_def dsl_armed_def)

lemma wp_builtin:
  assumes inv: "il_inv roles s" and e: "on_board roles e"
  shows "wp (arm_builtin e d s) (\<lambda>d' s'. il_inv roles s' \<and> (\<forall>j. j \<noteq> 0 \<longrightarrow> keeps j s s') \<and> bd_ilcf_rc d' = bd_ilcf_rc d \<and>
    (builtin_preserved s \<longrightarrow> s' = s) \<and> (\<not> builtin_preserved s \<longrightarrow> (armed_with gp1_il s' 0 \<or> slot_of s' 0 = empty_slot) \<and> sp_latched (slot_of s' 0) = 0) \<and>
    pe_cfg_fingerprint (il_persist s') = pe_cfg_fingerprint (il_persist s))"
proof (cases "builtin_preserved s")
  case False
  have z: "0 < INTERLOCK_MAX_SLOTS" by (simp add: INTERLOCK_MAX_SLOTS_def)
  have fp: "wp (interlock_set_slot_dsl e 0 gp1_il t) (\<lambda>_ t'. pe_cfg_fingerprint (il_persist t') = pe_cfg_fingerprint (il_persist t))"
    if "il_inv roles t" for t
    using set_dsl_inv [OF that e, of 0 gp1_il]
    by (auto simp: wp_def interlock_set_slot_dsl_def verify_persist_or_panic_def Let_def row_defs commit_dsl_def
        split: sum.splits prod.splits option.splits if_splits)
  have set: "wp (interlock_set_slot_dsl e 0 gp1_il t) (\<lambda>_ t'. il_inv roles t' \<and> (\<forall>j. j \<noteq> 0 \<longrightarrow> keeps j t t') \<and>
      (armed_with gp1_il t' 0 \<or> slot_of t' 0 = empty_slot) \<and> sp_latched (slot_of t' 0) = 0 \<and> pe_cfg_fingerprint (il_persist t') = pe_cfg_fingerprint (il_persist t))"
    if t: "il_inv roles t" "slot_of t 0 = empty_slot" for t
  proof -
    obtain st er t' where r: "interlock_set_slot_dsl e 0 gp1_il t = Returned (st, er) t'" "il_inv roles t'"
      "\<forall>j. j \<noteq> 0 \<longrightarrow> keeps j t t'" "if st = SHELL_STATUS_OK then armed_with gp1_il t' 0 \<and> sp_latched (slot_of t' 0) = 0 else keeps 0 t t'"
      using wp_set_dsl [OF t(1) z e, of gp1_il] by (auto simp: wp_def)
    then have "(armed_with gp1_il t' 0 \<or> slot_of t' 0 = empty_slot) \<and> sp_latched (slot_of t' 0) = 0"
      using t(2) keeps_slot(1) [of 0 t t'] by (cases "st = SHELL_STATUS_OK") (simp_all add: empty_slot_def)
    then show ?thesis using r(1-3) fp [OF t(1)] by (simp add: wp_def)
  qed
  have dis: "interlock_disarm_slot e 0 s = interlock_disarm_slot e (word_of_nat 0) s" by simp
  show ?thesis
    unfolding arm_builtin_def if_not_P [OF False] dis
  proof (rule wp_bind, rule wp_mono [OF wp_disarm [OF inv z]], rule wp_bind)
    fix x t
    assume a: "il_inv roles t \<and> (\<forall>j. j \<noteq> 0 \<longrightarrow> keeps j s t) \<and> slot_of t 0 = empty_slot \<and>
      pe_cfg_fingerprint (il_persist t) = pe_cfg_fingerprint (il_persist s) \<and> il_clear_request t = il_clear_request s"
    have k: "keeps j s t'" if "j \<noteq> 0" "keeps j t t'" for j t' using a that keeps_trans by blast
    have t: "il_inv roles t" "slot_of t 0 = empty_slot" using a by simp_all
    show "wp (interlock_set_slot_dsl e 0 gp1_il t) (\<lambda>x s'. wp ((case x of (st, er) \<Rightarrow> Returned
         (if st \<noteq> SHELL_STATUS_OK \<and> bd_armfail d = 0 then d\<lparr>bd_armfail := arm_failure 0 st er\<rparr> else d)) s')
       (\<lambda>d' s'. il_inv roles s' \<and> (\<forall>j. j \<noteq> 0 \<longrightarrow> keeps j s s') \<and> bd_ilcf_rc d' = bd_ilcf_rc d \<and>
         (builtin_preserved s \<longrightarrow> s' = s) \<and> (\<not> builtin_preserved s \<longrightarrow> (armed_with gp1_il s' 0 \<or> slot_of s' 0 = empty_slot) \<and> sp_latched (slot_of s' 0) = 0) \<and>
         pe_cfg_fingerprint (il_persist s') = pe_cfg_fingerprint (il_persist s)))"
      by (rule wp_mono [OF set [OF t]]) (use a k False in \<open>auto split: prod.split\<close>)
  qed
qed (use inv in \<open>simp add: arm_builtin_def\<close>)

lemma gp1_claims:
  "\<exists>h. claim_inst_pins (bc_plat roles latest win get) 0 gp1_inst hal0 = (HAL_PIN_CLAIM_OK, h)"
proof -
  have "fst (claim_inst_pins (bc_plat roles latest win get) 0 gp1_inst hal0) = HAL_PIN_CLAIM_OK"
    by code_simp
  then show ?thesis by (metis prod.collapse)
qed

lemma gp1_unevaluated: "gp1_inst\<lparr>n_tf_state := IL_TF_UNEVALUATED\<rparr> = gp1_inst"
  by (simp add: gp1_inst_def IL_TF_UNEVALUATED_def)

text \<open>Restoring slot 0, the first slot to claim its pins.\<close>

lemma restore_builtin:
  assumes "persist_shape p" "on_board roles e" "armed_with gp1_il (il0 p) 0"
  shows "armed_with gp1_il (restore_slot e 0 (il0 p)) 0 \<and> slot_of (restore_slot e 0 (il0 p)) 0 = slot_of (il0 p) 0 \<and>
    inst_of (restore_slot e 0 (il0 p)) 0 = gp1_inst \<and> il_clear_request (restore_slot e 0 (il0 p)) = 0"
proof -
  obtain latest win get where pl: "e_plat e = bc_plat roles latest win get" using assms(2) by (auto simp: on_board_def)
  obtain h where h: "claim_inst_pins (e_plat e) 0 gp1_inst hal0 = (HAL_PIN_CLAIM_OK, h)" using gp1_claims pl by metis
  have L: "unat (word_of_nat (length gp1_il) :: u16) = length gp1_il" "length gp1_il \<noteq> 0"
    using gp1_len by (simp_all add: unat_of_nat IL_DSL_MAX_def)
  have r: "restore_slot e 0 (il0 p) = clear_slot_runtime 0 (set_inst 0 gp1_inst ((il0 p)\<lparr>il_hal := h\<rparr>))"
    using assms(3) h gp1_len L gp1_parse gp1_unevaluated
    by (simp add: restore_slot_def armed_with_def dsl_armed_def slot_of_def il0_def slot_id_defs)
  show ?thesis unfolding r using assms(1,3)
    by (simp add: armed_with_def dsl_armed_def row_defs il0_def persist_shape_def INTERLOCK_MAX_SLOTS_def)
qed

section \<open>Booting\<close>

lemma boot_bind: "boot_interlock e region p = obind (il_reset e p) (\<lambda>_ s.
     obind (if interlock_cfg_fingerprint region \<noteq> pe_cfg_fingerprint (il_persist s) \<or> interlock_armed_count s = 0
            then rearm_config e region s
            else Returned \<lparr>bd_ilcf_rc = unat (interlock_armed_count s), bd_armfail = 0\<rparr> s) (\<lambda>d s.
     obind (arm_builtin e d s) (\<lambda>d s. Returned d (interlock_begin_grace e s))))"
  by (simp add: boot_interlock_def il_reset_def interlock_thread2_start_def)

text \<open>
  The outcome of a boot from the restored state \<open>s\<close>, where \<open>c\<close> says whether the configured slots are re-armed:
  slot 0 is kept if it holds the built-in interlock, else it is armed with it or empty; every configured slot
  holds its current file or is empty, respectively is kept.
\<close>

definition booted :: "u8 list \<Rightarrow> cfg_entry list \<Rightarrow> il \<Rightarrow> bool \<Rightarrow> boot_diag \<Rightarrow> il \<Rightarrow> bool" where
  "booted roles region s c d s' \<longleftrightarrow> il_inv roles s' \<and>
     (builtin_preserved s \<longrightarrow> keeps 0 s s') \<and> (\<not> builtin_preserved s \<longrightarrow> (armed_with gp1_il s' 0 \<or> slot_of s' 0 = empty_slot) \<and> sp_latched (slot_of s' 0) = 0) \<and>
     (c \<longrightarrow> (\<forall>j. 1 \<le> j \<longrightarrow> j < INTERLOCK_MAX_SLOTS \<longrightarrow> cfg_slot_ok region s' j) \<and>
        bd_ilcf_rc d = length (filter (dsl_armed s') [1..<INTERLOCK_MAX_SLOTS]) \<and>
        pe_cfg_fingerprint (il_persist s') = interlock_cfg_fingerprint region) \<and>
     (\<not> c \<longrightarrow> (\<forall>j. 1 \<le> j \<longrightarrow> j < INTERLOCK_MAX_SLOTS \<longrightarrow> keeps j s s'))"

lemma booted_grace:
  assumes t: "keeps 0 s t" "c \<longrightarrow> arm_inv roles region s INTERLOCK_MAX_SLOTS d t \<and> pe_cfg_fingerprint (il_persist t) = interlock_cfg_fingerprint region"
      "\<not> c \<longrightarrow> t = s"
    and b: "il_inv roles s'" "\<forall>j. j \<noteq> 0 \<longrightarrow> keeps j t s'" "bd_ilcf_rc d' = bd_ilcf_rc d" "builtin_preserved t \<longrightarrow> s' = t"
      "\<not> builtin_preserved t \<longrightarrow> (armed_with gp1_il s' 0 \<or> slot_of s' 0 = empty_slot) \<and> sp_latched (slot_of s' 0) = 0"
      "pe_cfg_fingerprint (il_persist s') = pe_cfg_fingerprint (il_persist t)"
  shows "booted roles region s c d' (interlock_begin_grace e s')"
proof -
  let ?g = "interlock_begin_grace e s'"
  have pres: "builtin_preserved t = builtin_preserved s"
    using t(1) by (simp add: builtin_preserved_def keeps_def slot_row_def)
  have g: "keeps j s' ?g" for j by simp
  note row = keeps_slot [OF g] armed_with_keeps [OF g]
  have other: "dsl_armed ?g j = dsl_armed t j" "cfg_slot_ok region ?g j = cfg_slot_ok region t j" "keeps j t ?g" if "j \<noteq> 0" for j
    using b that keeps_slot(2) [of j t s'] cfg_slot_ok_keeps [of j t s'] cfg_slot_ok_keeps [OF g] row(2) by auto
  have flt: "filter (dsl_armed ?g) [1..<INTERLOCK_MAX_SLOTS] = filter (dsl_armed t) [1..<INTERLOCK_MAX_SLOTS]"
    by (rule filter_cong) (auto simp: other(1))
  have fp: "pe_cfg_fingerprint (il_persist ?g) = pe_cfg_fingerprint (il_persist t)" using b by (simp add: interlock_begin_grace_def)
  have cf: "c \<longrightarrow> (\<forall>j. 1 \<le> j \<longrightarrow> j < INTERLOCK_MAX_SLOTS \<longrightarrow> cfg_slot_ok region ?g j) \<and>
      bd_ilcf_rc d' = length (filter (dsl_armed ?g) [1..<INTERLOCK_MAX_SLOTS]) \<and>
      pe_cfg_fingerprint (il_persist ?g) = interlock_cfg_fingerprint region"
    unfolding flt fp using t(2) b(3) other(2) by (auto simp: arm_inv_def)
  have "builtin_preserved s \<longrightarrow> keeps 0 s ?g" using b(4) t(1) pres by auto
  moreover have "\<not> builtin_preserved s \<longrightarrow> (armed_with gp1_il ?g 0 \<or> slot_of ?g 0 = empty_slot) \<and> sp_latched (slot_of ?g 0) = 0"
    using b(5) pres row by simp
  moreover have "\<not> c \<longrightarrow> (\<forall>j. 1 \<le> j \<longrightarrow> j < INTERLOCK_MAX_SLOTS \<longrightarrow> keeps j s ?g)" using t(3) other(3) by auto
  ultimately show ?thesis using cf request_inv(2) [OF b(1)] unfolding booted_def by blast
qed

lemma wp_boot:
  assumes r: "il_reset e p = Returned () s" and inv: "il_inv roles s" and e: "on_board roles e"
    and changed: "interlock_cfg_fingerprint region \<noteq> pe_cfg_fingerprint (il_persist s) \<or> interlock_armed_count s = 0 \<longleftrightarrow> c"
  shows "wp (boot_interlock e region p) (booted roles region s c)"
proof -
  let ?mid = "\<lambda>d t. il_inv roles t \<and> keeps 0 s t \<and> (c \<longrightarrow> arm_inv roles region s INTERLOCK_MAX_SLOTS d t \<and>
      pe_cfg_fingerprint (il_persist t) = interlock_cfg_fingerprint region) \<and> (\<not> c \<longrightarrow> t = s)"
  have mid: "wp (if c then rearm_config e region s
      else Returned \<lparr>bd_ilcf_rc = unat (interlock_armed_count s), bd_armfail = 0\<rparr> s) ?mid"
    using inv wp_mono [OF wp_rearm [OF inv e, of region], of ?mid] by (auto simp: arm_inv_def)
  show ?thesis
    unfolding boot_bind r obind.simps changed
  proof (rule wp_bind, rule wp_mono [OF mid], rule wp_bind)
    fix d t
    assume m: "?mid d t"
    then have inv: "il_inv roles t" by simp
    show "wp (arm_builtin e d t) (\<lambda>d s'. wp (Returned d (interlock_begin_grace e s')) (booted roles region s c))"
      by (rule wp_mono [OF wp_builtin [OF inv e]], unfold wp_Returned) (rule booted_grace [of s t c], use m in simp_all)
  qed
qed

lemma restores_fp: "pe_cfg_fingerprint (il_persist (fold (restore_slot e) is s)) = pe_cfg_fingerprint (il_persist s)"
proof (induction "is" arbitrary: s)
  case (Cons i "is")
  have "pe_cfg_fingerprint (il_persist (restore_slot e i s)) = pe_cfg_fingerprint (il_persist s)"
    by (auto simp: restore_slot_def Let_def row_defs split: sum.split prod.split)
  with Cons show ?case by simp
qed simp

lemma reset_fp:
  assumes "persist_is_valid p" "il_reset e p = Returned () s"
  shows "pe_cfg_fingerprint (il_persist s) = pe_cfg_fingerprint p"
  using assms restores_fp [of e "[0..<INTERLOCK_MAX_SLOTS]"]
  by (auto simp: il_reset_def interlock_warm_restore_def verify_persist_or_panic_def interlock_boot_decide_def il0_def
      split: option.splits)

section \<open>What a reset keeps, and what it changes\<close>

text \<open>Slot 0 after the reset, before the configured slots are looked at.\<close>

lemma reset_builtin:
  assumes p: "persist_shape p" "persist_is_valid p" and e: "on_board roles e" and a: "armed_with gp1_il (il0 p) 0"
    and c: "sp_boot_counter (pe_slots p ! 0) < INTERLOCK_MAX_BOOT_ATTEMPTS" and r: "il_reset e p = Returned () s"
  shows "armed_with gp1_il s 0 \<and> sp_latched (slot_of s 0) = sp_latched (pe_slots p ! 0) \<and> inst_of s 0 = gp1_inst \<and>
    sp_boot_counter (slot_of s 0) = sp_boot_counter (pe_slots p ! 0) + 1 \<and> il_clear_request s = 0"
proof -
  let ?p = "interlock_boot_decide p" and ?t = "restore_slot e 0 (il0 (interlock_boot_decide p))"
  have dec: "?p = p\<lparr>pe_slots := map boot_slot (pe_slots p)\<rparr>" using p(2) by (simp add: interlock_boot_decide_def)
  have s0: "pe_slots ?p ! 0 = boot_slot (pe_slots p ! 0)" using p(1) by (simp add: dec persist_shape_def INTERLOCK_MAX_SLOTS_def)
  have armed: "armed_with gp1_il (il0 ?p) 0"
    using a s0 c by (simp add: armed_with_def dsl_armed_def slot_of_def il0_def dec not_le [symmetric])
  have b: "boot_slot (pe_slots p ! 0) = (pe_slots p ! 0)\<lparr>sp_boot_counter := sp_boot_counter (pe_slots p ! 0) + 1\<rparr>"
    using a c by (simp add: boot_slot_def armed_with_def dsl_armed_def slot_of_def il0_def not_le [symmetric])
  have sp: "slot_of (il0 ?p) 0 = (pe_slots p ! 0)\<lparr>sp_boot_counter := sp_boot_counter (pe_slots p ! 0) + 1\<rparr>"
    using s0 b by (simp add: slot_of_def il0_def)
  have "[0..<INTERLOCK_MAX_SLOTS] = 0 # [1..<INTERLOCK_MAX_SLOTS]" by (simp add: INTERLOCK_MAX_SLOTS_def upt_conv_Cons)
  then have "s = fold (restore_slot e) [1..<INTERLOCK_MAX_SLOTS] ?t"
    using r valid_verify [OF boot_decide_ok(1) [OF p(1)]]
    by (simp add: il_reset_def interlock_warm_restore_def verify_persist_or_panic_def il0_def)
  then have k: "keeps 0 ?t s" using restores_keep [of 0 "[1..<INTERLOCK_MAX_SLOTS]"] by simp
  then have "slot_of s 0 = slot_of ?t 0" "inst_of s 0 = inst_of ?t 0" "il_clear_request s = il_clear_request ?t"
    by (simp_all add: keeps_def slot_row_def)
  then show ?thesis
    using restore_builtin [OF boot_decide_ok(2) [OF p(1)] e armed] armed_with_keeps [OF k] sp by simp
qed

lemma reach_persist: "il_reach roles s \<Longrightarrow> persist_shape (il_persist s) \<and> persist_is_valid (il_persist s)"
  using reach_inv by (auto simp: il_inv_def il_shape_def)

text \<open>The text and the state of a slot are in the surviving record.\<close>

lemma armed_with_il0: "armed_with dsl (il0 (il_persist s)) i = armed_with dsl s i"
  by (simp add: armed_with_def dsl_armed_def slot_of_def il0_def)

lemma boot_total:
  assumes "il_reach roles s" "on_board roles e"
  obtains s1 c where "il_reset e (il_persist s) = Returned () s1" "il_inv roles s1"
    "interlock_cfg_fingerprint region \<noteq> pe_cfg_fingerprint (il_persist s1) \<or> interlock_armed_count s1 = 0 \<longleftrightarrow> c"
    "wp (boot_interlock e region (il_persist s)) (booted roles region s1 c)"
  using reset_inv [of "il_persist s" roles e] reach_persist [OF assms(1)] assms(2) wp_boot by metis



section \<open>Concrete boots\<close>

text \<open>The built-in interlock, armed at a cold boot and then tripped by GP1 (\<open>gp1_tripped\<close>), is reset.\<close>

lemma gp1_tripped_slot: "armed_with gp1_il gp1_tripped 0" "sp_boot_counter (slot_of gp1_tripped 0) = 0"
proof -
  note inv = reach_inv [OF gp1_reach]
  note d = il_invD [OF inv] and b = il_inv_bounded [OF inv]
  have z: "0 < INTERLOCK_MAX_SLOTS" by (simp add: INTERLOCK_MAX_SLOTS_def)
  obtain h where g: "gp1_il_state = commit_dsl 0 gp1_inst gp1_il ((il0 persist_cold_init)\<lparr>il_hal := h\<rparr>)" using gp1_set(2) by blast
  have tx: "pe_dsl_len (il_persist gp1_il_state) ! 0 = word_of_nat (length gp1_il)"
    "take (length gp1_il) (pe_dsl_text (il_persist gp1_il_state) ! 0) = gp1_il"
    unfolding g using gp1_len by (simp_all add: commit_dsl_def Let_def row_defs il0_def persist_cold_init_def INTERLOCK_MAX_SLOTS_def)
  note p = tick_logic_persist [OF d(1) b, of "env0 False 0"]
  show "armed_with gp1_il gp1_tripped 0"
    using gp1_tripped_facts(2) gp1_len tx p by (simp add: armed_with_def gp1_tripped_def tick_next_sel)
  show "sp_boot_counter (slot_of gp1_tripped 0) = 0"
    using tick_slot_same [OF d(1) b z, of "env0 False 0"] gp1_facts(1) by (simp add: gp1_tripped_def tick_next_sel)
qed



text \<open>
  The limit of the guarantee above: at the fourth warm reset since the slot was armed, the boot guard poisons slot
  0, and the boot code arms the built-in interlock anew, without its latch.
\<close>

theorem builtin_latch_lost:
  assumes "persist_shape p" "persist_is_valid p" "on_board roles e" "sp_state (pe_slots p ! 0) = INTERLOCK_SLOT_ARMED"
    and "sp_boot_counter (pe_slots p ! 0) \<ge> INTERLOCK_MAX_BOOT_ATTEMPTS"
  shows "\<exists>d s'. boot_interlock e region p = Returned d s' \<and> sp_latched (slot_of s' 0) = 0"
proof -
  obtain s1 where r: "il_reset e p = Returned () s1" "il_inv roles s1" using reset_inv assms(1,3) by blast
  have z: "0 < length (pe_slots p)" using assms(1) by (simp add: persist_shape_def INTERLOCK_MAX_SLOTS_def)
  have "sp_state (pe_slots (interlock_boot_decide p) ! 0) = INTERLOCK_SLOT_POISONED"
    using assms(2,4,5) z by (simp add: interlock_boot_decide_def)
  then have skip: "restore_slot e 0 (il0 (interlock_boot_decide p)) = il0 (interlock_boot_decide p)"
    "sp_state (slot_of (il0 (interlock_boot_decide p)) 0) = INTERLOCK_SLOT_POISONED"
    by (simp_all add: restore_slot_def slot_of_def il0_def slot_state_defs)
  have "[0..<INTERLOCK_MAX_SLOTS] = 0 # [1..<INTERLOCK_MAX_SLOTS]" by (simp add: INTERLOCK_MAX_SLOTS_def upt_conv_Cons)
  then have "s1 = fold (restore_slot e) [1..<INTERLOCK_MAX_SLOTS] (il0 (interlock_boot_decide p))"
    using r(1) valid_verify [OF boot_decide_ok(1) [OF assms(1)]] skip(1)
    by (simp add: il_reset_def interlock_warm_restore_def verify_persist_or_panic_def il0_def)
  then have "keeps 0 (il0 (interlock_boot_decide p)) s1" using restores_keep [of 0 "[1..<INTERLOCK_MAX_SLOTS]"] by simp
  then have "\<not> builtin_preserved s1" using keeps_slot(1) skip(2) by (simp add: builtin_preserved_def slot_state_defs)
  then show ?thesis using wp_boot [OF r assms(3) refl, of region] by (auto simp: wp_def booted_def)
qed

text \<open>
  The configured interlocks claim their pins before the built-in one: a configured interlock that binds GP0 as
  a push-pull output keeps the built-in interlock from being armed, which leaves only a diagnostic code.
\<close>

definition rogue :: "u8 list" where
  "rogue = lit ''x;cfg[(gp1):in,up,(gp0):out];watch[gp1:1];out_ok[gp0:1];out_err[gp0:0]''"

theorem config_blocks_builtin:
  "case obind (interlock_set_slot_dsl (env0 True 0) 1 rogue (il0 persist_cold_init))
       (\<lambda>_. arm_builtin (env0 True 0) \<lparr>bd_ilcf_rc = 1, bd_armfail = 0\<rparr>) of
     Returned d s \<Rightarrow> dsl_armed s 1 \<and> \<not> dsl_armed s 0 \<and> bd_armfail d \<noteq> 0 | Panicked s \<Rightarrow> False"
  by code_simp

section \<open>The status report\<close>

definition slot_report :: "il \<Rightarrow> nat \<Rightarrow> u8 list" where
  "slot_report s i = [word_of_nat i, sp_state (slot_of s i), n_tf_state (inst_of s i), sp_latched (slot_of s i)]"

definition used_slots :: "il \<Rightarrow> nat list" where
  "used_slots s = filter (\<lambda>i. sp_state (slot_of s i) \<noteq> INTERLOCK_SLOT_EMPTY) [0..<INTERLOCK_MAX_SLOTS]"

lemma room: "n + k < 256 \<Longrightarrow> word_of_nat n + word_of_nat k \<le> (cap :: u8) \<longleftrightarrow> n + k \<le> unat cap"
  by (simp add: word_le_nat_alt unat_of_nat flip: of_nat_add)

lemma pack_slots_all:
  assumes "length out + 4 * length is + 2 \<le> unat cap"
  shows "pack_slots s cap is out cnt = (let us = filter (\<lambda>i. sp_state (slot_of s i) \<noteq> INTERLOCK_SLOT_EMPTY) is
    in (out @ concat (map (slot_report s) us), cnt + word_of_nat (length us)))"
  using assms
proof (induction "is" arbitrary: out cnt)
  case (Cons i "is")
  have "word_of_nat (length out) + 4 \<le> cap"
    using room [of "length out" 4 cap] Cons.prems unat_u8_le [of cap] by (simp del: unat_u8_le)
  then show ?case using Cons by (simp add: Let_def slot_report_def)
qed simp

lemma pack_slots_bound:
  assumes "length out \<le> unat cap" "unat cap < 252"
  shows "length (fst (pack_slots s cap is out cnt)) \<le> unat cap \<and> length out \<le> length (fst (pack_slots s cap is out cnt))"
  using assms
proof (induction "is" arbitrary: out cnt)
  case (Cons i "is")
  have "word_of_nat (length out) + 4 \<le> cap \<longleftrightarrow> length out + 4 \<le> unat cap"
    using room [of "length out" 4 cap] Cons.prems by simp
  then show ?case
    using Cons.IH [of out cnt] Cons.prems
      Cons.IH [of "out @ [word_of_nat i, sp_state (slot_of s i), n_tf_state (inst_of s i), sp_latched (slot_of s i)]" "cnt + 1"]
    by auto
qed simp

lemma status_pack_all:
  assumes c: "45 \<le> unat cap"
  shows "il_status_pack e s cap =
      [IL_STATUS_WIRE_VER, if any_latched s then 1 else 0, word_of_nat (length (used_slots s))]
      @ concat (map (slot_report s) (used_slots s))
      @ [gpio_level e INTERLOCK_VETO_PIN, gpio_level e INTERLOCK_IN_PIN]"
    and "length (il_status_pack e s cap) \<le> 45"
proof -
  have len: "length (concat (map (slot_report s) us)) = 4 * length us" for us by (induction us) (simp_all add: slot_report_def)
  have u: "length (used_slots s) \<le> 10"
    unfolding used_slots_def using length_filter_le [of _ "[0..<INTERLOCK_MAX_SLOTS]"] by (simp add: INTERLOCK_MAX_SLOTS_def)
  have "word_of_nat (length (used_slots s) * 4 + 3) + (2 :: u8) \<le> cap"
    using room [of "length (used_slots s) * 4 + 3" 2 cap] u c by simp
  then have r: "4 * word_of_nat (length (used_slots s)) + 3 + (2 :: u8) \<le> cap" by (simp add: ac_simps)
  have "\<not> cap < 3" using c by (simp add: word_less_nat_alt)
  then show eq: "il_status_pack e s cap = [IL_STATUS_WIRE_VER, if any_latched s then 1 else 0, word_of_nat (length (used_slots s))]
      @ concat (map (slot_report s) (used_slots s))
      @ [gpio_level e INTERLOCK_VETO_PIN, gpio_level e INTERLOCK_IN_PIN]"
    using c r len [of "used_slots s"] pack_slots_all [of "[IL_STATUS_WIRE_VER, if any_latched s then 1 else 0, 0]" "[0..<INTERLOCK_MAX_SLOTS]" cap s 0]
    unfolding il_status_pack_def used_slots_def [symmetric] Let_def
    by (simp add: INTERLOCK_MAX_SLOTS_def used_slots_def [symmetric] ac_simps)
  show "length (il_status_pack e s cap) \<le> 45" unfolding eq using u len by simp
qed

lemma status_pack_small:
  assumes c: "unat cap < 252"
  shows "length (il_status_pack e s cap) \<le> unat cap"
proof (cases "cap < 3")
  case False
  let ?h = "[IL_STATUS_WIRE_VER, if any_latched s then 1 else 0, 0 :: u8]"
  have "length ?h \<le> unat cap" using False by (simp add: word_less_nat_alt)
  from pack_slots_bound [OF this c, of s "[0..<INTERLOCK_MAX_SLOTS]" 0] obtain out cnt
    where p: "pack_slots s cap [0..<INTERLOCK_MAX_SLOTS] ?h 0 = (out, cnt)" "length out \<le> unat cap"
    by (cases "pack_slots s cap [0..<INTERLOCK_MAX_SLOTS] ?h 0") simp
  have "word_of_nat (length out) + 2 \<le> cap \<longleftrightarrow> length out + 2 \<le> unat cap" using room [of "length out" 2 cap] p(2) c by simp
  then show ?thesis using False p by (simp add: il_status_pack_def Let_def)
qed (simp add: il_status_pack_def)

text \<open>
  The status report never exceeds the caller's buffer, and a buffer of 45 bytes holds it
  completely: version, whether any armed slot is latched, the number of slots in use, four bytes
  for each of them in order, and the levels of the veto line and of GP1.
\<close>

theorem status_pack_fits:
  "length (il_status_pack e s cap) \<le> unat cap \<and>
   (45 \<le> unat cap \<longrightarrow> il_status_pack e s cap =
      [IL_STATUS_WIRE_VER, if any_latched s then 1 else 0, word_of_nat (length (used_slots s))]
      @ concat (map (slot_report s) (used_slots s))
      @ [gpio_level e INTERLOCK_VETO_PIN, gpio_level e INTERLOCK_IN_PIN])"
  using status_pack_all [of cap e s] status_pack_small [of cap e s] by (cases "45 \<le> unat cap") auto

theorem status_pack_fits_witness:
  "il_status_pack (env0 True 0) (il0 persist_cold_init) 64 = [1, 0, 0, 1, 1]"
proof -
  have "used_slots (il0 persist_cold_init) = []" "\<not> any_latched (il0 persist_cold_init)"
    by (simp_all add: used_slots_def any_latched_def list_ex_iff slot_of_def il0_def persist_cold_init_def empty_slot_def slot_state_defs)
  then show ?thesis
    using status_pack_fits [of "env0 True 0" "il0 persist_cold_init" 64]
    by (simp add: IL_STATUS_WIRE_VER_def gpio_level_def) (simp add: env0_def bc_plat_def)
qed

end
