(* ===== verification/Node_Cmd.thy ===== *)
theory Node_Cmd
  imports Adc_Service Interlock_Boot Bus_Node
begin

text \<open>
  The operate commands of a node (\<^verbatim>\<open>src/app/bus_controller/main.c\<close>): \<open>node_cmd_dispatch\<close>, shared by the
  controller's application core and the slave's bus responder, the PWM test source, the reply sinks and the I2C service.

  The state \<open>nd\<close> joins the bench block, the ADC service and the interlock with the queues of the seam between the
  cores; a FreeRTOS queue is a list with the depth it is created with, and \<open>xQueueSend\<close> with a zero timeout drops the
  item when the queue is full.  What the SDK reads from the hardware is an argument (\<open>dev\<close>); its writes are recorded.
\<close>

unbundle bit_operations_syntax

section \<open>Constants\<close>

definition SHELL_OK :: u8 where "SHELL_OK = 0"
definition SHELL_UNKNOWN_CMD :: u8 where "SHELL_UNKNOWN_CMD = 1"
definition SHELL_BAD_ARGS :: u8 where "SHELL_BAD_ARGS = 2"
definition SHELL_IO_ERROR :: u8 where "SHELL_IO_ERROR = 3"
definition BUS_ADDR_APPCORE :: u8 where "BUS_ADDR_APPCORE = 0xFB"
definition APPCORE_ARGS_MAX :: nat where "APPCORE_ARGS_MAX = 64"
definition APPCORE_PAY_MAX :: nat where "APPCORE_PAY_MAX = 96"
definition HIL_I2C_MAX_LEN :: nat where "HIL_I2C_MAX_LEN = 64"
definition PWM_TEST_PIN :: u8 where "PWM_TEST_PIN = 22"
definition UP_Q_DEPTH :: nat where "UP_Q_DEPTH = 16"
definition I2C_Q_DEPTH :: nat where "I2C_Q_DEPTH = 8"
definition DOWN_Q_DEPTH :: nat where "DOWN_Q_DEPTH = 8"

definition NODE_CMD_ECHO :: u16 where "NODE_CMD_ECHO = 0x0001"
definition CMD_GPIO_CONFIG :: u16 where "CMD_GPIO_CONFIG = 0x0100"
definition CMD_GPIO_WRITE :: u16 where "CMD_GPIO_WRITE = 0x0101"
definition CMD_GPIO_READ :: u16 where "CMD_GPIO_READ = 0x0102"
definition CMD_IO_MODE :: u16 where "CMD_IO_MODE = 0x0103"
definition CMD_ADC_READ :: u16 where "CMD_ADC_READ = 0x0104"
definition CMD_ADC_STATS :: u16 where "CMD_ADC_STATS = 0x0105"
definition CMD_SERVO_SET_ALL :: u16 where "CMD_SERVO_SET_ALL = 0x0106"
definition CMD_PULSE_READ :: u16 where "CMD_PULSE_READ = 0x0107"
definition CMD_PULSE_CLEAR :: u16 where "CMD_PULSE_CLEAR = 0x0108"
definition CMD_PWM_TEST :: u16 where "CMD_PWM_TEST = 0x0109"
definition CMD_I2C_SCAN :: u16 where "CMD_I2C_SCAN = 0x010C"
definition CMD_I2C_WRITE :: u16 where "CMD_I2C_WRITE = 0x010D"
definition CMD_I2C_READ :: u16 where "CMD_I2C_READ = 0x010E"
definition CMD_I2C_WRITE_READ :: u16 where "CMD_I2C_WRITE_READ = 0x010F"
definition CMD_SERVO_STOP :: u16 where "CMD_SERVO_STOP = 0x0110"
definition CMD_GPIO_READ_ALL :: u16 where "CMD_GPIO_READ_ALL = 0x0111"
definition CMD_ADC_WIN_SEL :: u16 where "CMD_ADC_WIN_SEL = 0x0113"
definition CMD_PULSE_READCLR :: u16 where "CMD_PULSE_READCLR = 0x0114"
definition CMD_GPIO_IPOL :: u16 where "CMD_GPIO_IPOL = 0x0115"
definition CMD_BENCH_BB :: u16 where "CMD_BENCH_BB = 0x0116"
definition CMD_INTERLOCK_CLEAR :: u16 where "CMD_INTERLOCK_CLEAR = 0x0210"
definition CMD_INTERLOCK_STATUS :: u16 where "CMD_INTERLOCK_STATUS = 0x0211"

lemmas cmd_defs = NODE_CMD_ECHO_def CMD_GPIO_CONFIG_def CMD_GPIO_WRITE_def CMD_GPIO_READ_def CMD_IO_MODE_def CMD_ADC_READ_def
  CMD_ADC_STATS_def CMD_SERVO_SET_ALL_def CMD_PULSE_READ_def CMD_PULSE_CLEAR_def CMD_PWM_TEST_def CMD_I2C_SCAN_def
  CMD_I2C_WRITE_def CMD_I2C_READ_def CMD_I2C_WRITE_READ_def CMD_SERVO_STOP_def CMD_GPIO_READ_ALL_def CMD_ADC_WIN_SEL_def
  CMD_PULSE_READCLR_def CMD_GPIO_IPOL_def CMD_BENCH_BB_def CMD_INTERLOCK_CLEAR_def CMD_INTERLOCK_STATUS_def

section \<open>State\<close>

datatype sink_kind = SINK_USB | SINK_BUS | SINK_ENGINE

record reply_sink =
  rs_kind :: sink_kind
  rs_dest :: u8
  rs_req_id :: u16

datatype i2c_op = I2C_OP_SCAN | I2C_OP_WRITE | I2C_OP_READ | I2C_OP_WRITE_READ

record i2c_req =
  iq_sink :: reply_sink
  iq_op :: i2c_op
  iq_addr :: u8
  iq_rlen :: nat
  iq_data :: "u8 list"

record appcore_rep =
  ar_dest :: u8
  ar_opcode :: u16
  ar_payload :: "u8 list"

datatype pwm_state = Pwm_off | Pwm_on u8 u16 u16

record nd =
  nd_hil :: hil
  nd_adc :: adc
  nd_il :: il
  nd_pwm :: pwm_state
  nd_i2c_q :: "i2c_req list option"
  nd_up_q :: "appcore_rep list"
  nd_bb_gpio_raw :: "u32 option"
  nd_bb_gpio_deb :: "u32 option"
  nd_bb_cnt :: "u32 option list"

text \<open>What the code reads from the SDK: the clock, the function selected on GP22 and its PWM slice.\<close>

record dev =
  d_env :: env
  d_clk_sys :: u32
  d_pwm_func :: u8
  d_pwm_slice :: u8

definition gpio_get :: "dev \<Rightarrow> u8 \<Rightarrow> bool" where
  "gpio_get d pin = p_gpio_get (e_plat (d_env d)) pin"

definition x_queue_send :: "nat \<Rightarrow> 'a \<Rightarrow> 'a list \<Rightarrow> 'a list" where
  "x_queue_send depth x q = (if length q < depth then q @ [x] else q)"

section \<open>PWM test source\<close>

text \<open>\<open>None\<close> is a division by zero, which C leaves undefined.\<close>

definition pwm_test_set :: "u32 \<Rightarrow> u32 \<Rightarrow> u8 \<Rightarrow> pwm_state option" where
  "pwm_test_set fsys freq_hz duty_pct =
     (if freq_hz = 0 \<or> duty_pct = 0 then Some Pwm_off
      else (let duty = (if duty_pct > 100 then 100 else duty_pct) in
        if freq_hz * 65536 = 0 then None
        else (let dv = fsys div (freq_hz * 65536) + 1; dv = (if dv > 255 then 255 else dv) in
          if dv * freq_hz = 0 then None
          else (let top = fsys div (dv * freq_hz); top = (if top < 2 then 2 else top); top = (if top > 65536 then 65536 else top)
                in Some (Pwm_on (ucast dv) (ucast (top - 1)) (ucast (top * ucast duty div 100)))))))"

section \<open>The commands\<close>

type_synonym reply = "u8 \<times> u8 list \<times> nd"

definition bad_args :: "nd \<Rightarrow> reply" where
  "bad_args s = (SHELL_BAD_ARGS, [], s)"

definition gpio_write_calls :: "u8 \<Rightarrow> u8 \<Rightarrow> u8 \<Rightarrow> pin_call list" where
  "gpio_write_calls role pin level =
     (if role = HWIO_ROLE_OUTPUT then [Pin_put pin (level \<noteq> 0)]
      else if level = 0 then [Pin_put pin False, Pin_set_dir pin True]
      else [Pin_set_dir pin False, if role = HWIO_ROLE_OC_PU then Pin_pull_up pin else Pin_disable_pulls pin])"

definition cmd_gpio_write :: "u8 list \<Rightarrow> nd \<Rightarrow> reply" where
  "cmd_gpio_write args s =
     (if b_io_mode (nd_hil s) \<noteq> HWIO_MODE_GPIO then bad_args s
      else if length args < 3 then bad_args s
      else (let port = args ! 0; pin = args ! 1; level = args ! 2; role = hil_role_of pin (nd_hil s) in
        if port \<noteq> 0 \<or> level > 1 then bad_args s
        else if role = HWIO_ROLE_OUTPUT \<or> role = HWIO_ROLE_OC \<or> role = HWIO_ROLE_OC_PU
        then (SHELL_OK, [], s\<lparr>nd_hil := pin_calls (gpio_write_calls role pin level) (nd_hil s)\<rparr>)
        else bad_args s))"

definition cmd_gpio_read :: "dev \<Rightarrow> u8 list \<Rightarrow> u8 \<Rightarrow> nd \<Rightarrow> reply" where
  "cmd_gpio_read d args cap s =
     (if b_io_mode (nd_hil s) \<noteq> HWIO_MODE_GPIO then bad_args s
      else if length args < 2 \<or> cap < 1 then bad_args s
      else (let port = args ! 0; pin = args ! 1 in
        if port \<noteq> 0 \<or> pin < HIL_GPIO_BASE \<or> pin \<ge> HIL_GPIO_BASE + HIL_GPIO_COUNT then bad_args s
        else (let inv = drop_bit (unat (pin - HIL_GPIO_BASE)) (b_gpio_ipol (nd_hil s)) AND 1
              in (SHELL_OK, [(if gpio_get d pin then 1 else 0) XOR inv], s))))"

definition cmd_gpio_ipol :: "u8 list \<Rightarrow> u8 \<Rightarrow> nd \<Rightarrow> reply" where
  "cmd_gpio_ipol args cap s =
     (if b_io_mode (nd_hil s) \<noteq> HWIO_MODE_GPIO then bad_args s
      else (let h = (if length args \<ge> 1 then (nd_hil s)\<lparr>b_gpio_ipol := args ! 0\<rparr> else nd_hil s)
            in (SHELL_OK, if cap \<ge> 1 then [b_gpio_ipol h] else [], s\<lparr>nd_hil := h\<rparr>)))"

definition cmd_gpio_read_all :: "u8 \<Rightarrow> nd \<Rightarrow> reply" where
  "cmd_gpio_read_all cap s =
     (if b_io_mode (nd_hil s) \<noteq> HWIO_MODE_GPIO then bad_args s
      else if cap < 2 then bad_args s
      else (SHELL_OK, [b_gpio_raw (nd_hil s), b_gpio_deb (nd_hil s)], s))"

definition slot_value :: "u32 option \<Rightarrow> u32" where
  "slot_value p = (case p of Some v \<Rightarrow> v | None \<Rightarrow> 0)"

definition cmd_bench_bb :: "u8 \<Rightarrow> nd \<Rightarrow> reply" where
  "cmd_bench_bb cap s =
     (if cap < 3 + HIL_GPIO_COUNT * 4 then bad_args s
      else (SHELL_OK, [if nd_bb_gpio_raw s \<noteq> None \<and> nd_bb_gpio_deb s \<noteq> None then 1 else 0,
                       ucast (slot_value (nd_bb_gpio_raw s)), ucast (slot_value (nd_bb_gpio_deb s))]
                      @ concat (map (\<lambda>i. le32_bytes (slot_value (nd_bb_cnt s ! i))) [0..<unat HIL_GPIO_COUNT]), s))"

definition cmd_io_mode :: "u8 \<Rightarrow> nd \<Rightarrow> reply" where
  "cmd_io_mode cap s =
     (if cap < 2 + HIL_GPIO_COUNT then bad_args s
      else (SHELL_OK, [b_io_mode (nd_hil s), HIL_GPIO_COUNT] @ map (\<lambda>i. b_hwio_pin (nd_hil s) ! i) [0..<unat HIL_GPIO_COUNT], s))"

definition cmd_pwm_test :: "dev \<Rightarrow> u8 list \<Rightarrow> u8 \<Rightarrow> nd \<Rightarrow> reply option" where
  "cmd_pwm_test d args cap s =
     (if length args < 5 then Some (bad_args s)
      else (let f = ucast (args ! 0) OR push_bit 8 (ucast (args ! 1)) OR push_bit 16 (ucast (args ! 2)) OR push_bit 24 (ucast (args ! 3))
            in case pwm_test_set (d_clk_sys d) f (args ! 4) of
                 None \<Rightarrow> None
               | Some p \<Rightarrow> Some (SHELL_OK, if cap \<ge> 4
                    then [PWM_TEST_PIN, d_pwm_func d, if gpio_get d PWM_TEST_PIN then 1 else 0, d_pwm_slice d] else [],
                    s\<lparr>nd_pwm := p\<rparr>)))"

definition cmd_adc_read :: "u8 \<Rightarrow> nd \<Rightarrow> reply" where
  "cmd_adc_read cap s =
     (if cap < 2 * ADC_NCH then bad_args s
      else (SHELL_OK, concat (map (\<lambda>i. [lo8 (g_adc_latest (nd_adc s) ! i), hi8 (g_adc_latest (nd_adc s) ! i)]) [0..<unat ADC_NCH])
              @ (if cap \<ge> 2 * ADC_NCH + 8
                 then le32_bytes (g_adc_decim_count (nd_adc s)) @ le32_bytes (g_adc_resyncs (nd_adc s)) else []), s))"

definition cmd_adc_win_sel :: "u8 list \<Rightarrow> u8 \<Rightarrow> nd \<Rightarrow> reply" where
  "cmd_adc_win_sel args cap s =
     (let a = (if length args \<ge> 1 \<and> args ! 0 < ADC_NWIN then (nd_adc s)\<lparr>g_adc_win_sel := args ! 0\<rparr> else nd_adc s)
      in (SHELL_OK, if cap \<ge> 1 then [g_adc_win_sel a] else [], s\<lparr>nd_adc := a\<rparr>))"

text \<open>The snapshot is taken in one state: the handler on the ADC's own core.  A reader on the other core may see a torn
  one, \<open>stats_snapshot_torn\<close>.\<close>

definition cmd_adc_stats :: "u8 \<Rightarrow> nd \<Rightarrow> reply" where
  "cmd_adc_stats cap s =
     (let w = (if g_adc_win_sel (nd_adc s) \<ge> ADC_NWIN then 0 else g_adc_win_sel (nd_adc s)) in
      if cap < ADC_NCH * 10 then bad_args s
      else (let (seq, st) = stats_snapshot (unat w) (nd_adc s)
            in (SHELL_OK, concat (map (\<lambda>c. concat (map (\<lambda>f. [lo8 f, hi8 f]) [seq, w_min c, w_max c, w_avg c, w_rms c])) st), s)))"

definition cmd_pulse_read :: "u8 \<Rightarrow> nd \<Rightarrow> reply" where
  "cmd_pulse_read cap s =
     (if b_io_mode (nd_hil s) \<noteq> HWIO_MODE_COUNTER then bad_args s
      else if cap < HIL_GPIO_COUNT * 4 then bad_args s
      else (SHELL_OK, concat (map (\<lambda>i. le32_bytes (b_pulse_count (nd_hil s) ! i)) [0..<unat HIL_GPIO_COUNT]), s))"

definition clear_counts :: "u8 \<Rightarrow> hil \<Rightarrow> hil" where
  "clear_counts m h = h\<lparr>b_pulse_count := map (\<lambda>i. if m AND push_bit i 1 \<noteq> 0 then 0 else b_pulse_count h ! i) [0..<unat HIL_GPIO_COUNT]\<rparr>"

definition cmd_pulse_clear :: "u8 list \<Rightarrow> nd \<Rightarrow> reply" where
  "cmd_pulse_clear args s =
     (if b_io_mode (nd_hil s) \<noteq> HWIO_MODE_COUNTER then bad_args s
      else (SHELL_OK, [], s\<lparr>nd_hil := clear_counts (if length args \<ge> 1 then args ! 0 else 0xFF) (nd_hil s)\<rparr>))"

definition cmd_pulse_readclr :: "u8 \<Rightarrow> nd \<Rightarrow> reply" where
  "cmd_pulse_readclr cap s =
     (if b_io_mode (nd_hil s) \<noteq> HWIO_MODE_COUNTER then bad_args s
      else if cap < HIL_GPIO_COUNT * 4 then bad_args s
      else (SHELL_OK, concat (map (\<lambda>i. le32_bytes (b_pulse_count (nd_hil s) ! i)) [0..<unat HIL_GPIO_COUNT]),
            s\<lparr>nd_hil := (nd_hil s)\<lparr>b_pulse_count := map (\<lambda>_. 0) [0..<unat HIL_GPIO_COUNT]\<rparr>\<rparr>))"

definition clamp_us :: "u16 \<Rightarrow> u16" where
  "clamp_us us = (let us = (if us < SERVO_MIN_US then SERVO_MIN_US else us) in if us > SERVO_MAX_US then SERVO_MAX_US else us)"

definition cmd_servo_set_all :: "u8 list \<Rightarrow> nd \<Rightarrow> reply" where
  "cmd_servo_set_all args s =
     (if b_io_mode (nd_hil s) \<noteq> HWIO_MODE_SERVO then bad_args s
      else if length args < 2 then bad_args s
      else (let cnt = min (length args div 2) (unat (b_servo_n (nd_hil s)));
                us = fold (\<lambda>i us. us[i := clamp_us (le16 (args ! (i * 2)) (args ! (i * 2 + 1)))]) [0..<cnt] (b_servo_us (nd_hil s))
            in (SHELL_OK, [], s\<lparr>nd_hil := servo_build ((nd_hil s)\<lparr>b_servo_us := us\<rparr>)\<rparr>)))"

definition cmd_servo_stop :: "nd \<Rightarrow> reply" where
  "cmd_servo_stop s =
     (if b_io_mode (nd_hil s) \<noteq> HWIO_MODE_SERVO then bad_args s
      else (SHELL_OK, [], s\<lparr>nd_hil := servo_stop_all (nd_hil s)\<rparr>))"

text \<open>The I2C commands only enqueue; \<open>i2c_service_task\<close> replies later through the sink.\<close>

definition i2c_enqueue :: "i2c_req \<Rightarrow> nd \<Rightarrow> reply" where
  "i2c_enqueue r s = (SHELL_ASYNC, [], s\<lparr>nd_i2c_q := map_option (x_queue_send I2C_Q_DEPTH r) (nd_i2c_q s)\<rparr>)"

definition cmd_i2c :: "u16 \<Rightarrow> u8 list \<Rightarrow> reply_sink \<Rightarrow> nd \<Rightarrow> reply" where
  "cmd_i2c cmd args sink s =
     (if nd_i2c_q s = None then (CMD_NOT_MINE, [], s)
      else if cmd = CMD_I2C_SCAN
      then i2c_enqueue \<lparr>iq_sink = sink, iq_op = I2C_OP_SCAN, iq_addr = 0, iq_rlen = 0, iq_data = []\<rparr> s
      else if cmd = CMD_I2C_WRITE
      then (if length args < 1 then bad_args s
            else i2c_enqueue \<lparr>iq_sink = sink, iq_op = I2C_OP_WRITE, iq_addr = args ! 0, iq_rlen = 0,
                   iq_data = take HIL_I2C_MAX_LEN (drop 1 args)\<rparr> s)
      else if cmd = CMD_I2C_READ
      then (if length args < 2 then bad_args s
            else i2c_enqueue \<lparr>iq_sink = sink, iq_op = I2C_OP_READ, iq_addr = args ! 0,
                   iq_rlen = min (unat (args ! 1)) HIL_I2C_MAX_LEN, iq_data = []\<rparr> s)
      else (if length args < 2 then bad_args s
            else i2c_enqueue \<lparr>iq_sink = sink, iq_op = I2C_OP_WRITE_READ, iq_addr = args ! 0,
                   iq_rlen = min (unat (args ! 1)) HIL_I2C_MAX_LEN, iq_data = take HIL_I2C_MAX_LEN (drop 2 args)\<rparr> s))"

text \<open>The switch.  The result is \<open>None\<close> only for the division by zero of \<open>pwm_test_set\<close>.\<close>

definition cmd_bench :: "dev \<Rightarrow> u16 \<Rightarrow> u8 list \<Rightarrow> u8 \<Rightarrow> nd \<Rightarrow> reply option" where
  "cmd_bench d cmd args cap s =
     (if cmd = CMD_GPIO_WRITE then Some (cmd_gpio_write args s)
      else if cmd = CMD_GPIO_READ then Some (cmd_gpio_read d args cap s)
      else if cmd = CMD_GPIO_IPOL then Some (cmd_gpio_ipol args cap s)
      else if cmd = CMD_GPIO_READ_ALL then Some (cmd_gpio_read_all cap s)
      else if cmd = CMD_BENCH_BB then Some (cmd_bench_bb cap s)
      else if cmd = CMD_IO_MODE then Some (cmd_io_mode cap s)
      else if cmd = CMD_PULSE_READ then Some (cmd_pulse_read cap s)
      else if cmd = CMD_PULSE_CLEAR then Some (cmd_pulse_clear args s)
      else if cmd = CMD_PULSE_READCLR then Some (cmd_pulse_readclr cap s)
      else if cmd = CMD_SERVO_SET_ALL then Some (cmd_servo_set_all args s)
      else if cmd = CMD_SERVO_STOP then Some (cmd_servo_stop s)
      else if cmd = CMD_GPIO_CONFIG then Some (bad_args s)
      else None)"

definition node_cmd_dispatch :: "dev \<Rightarrow> u16 \<Rightarrow> u8 list \<Rightarrow> u8 \<Rightarrow> reply_sink \<Rightarrow> nd \<Rightarrow> reply option" where
  "node_cmd_dispatch d cmd args cap sink s =
     (if cmd = NODE_CMD_ECHO then Some (SHELL_OK, take (unat cap) args, s)
      else if cmd_bench d cmd args cap s \<noteq> None then cmd_bench d cmd args cap s
      else if cmd = CMD_INTERLOCK_CLEAR then Some (SHELL_OK, [], s\<lparr>nd_il := interlock_request_global_clear (nd_il s)\<rparr>)
      else if cmd = CMD_INTERLOCK_STATUS then Some (SHELL_OK, il_status_pack (d_env d) (nd_il s) cap, s)
      else if cmd = CMD_PWM_TEST then cmd_pwm_test d args cap s
      else if cmd = CMD_ADC_READ then Some (cmd_adc_read cap s)
      else if cmd = CMD_ADC_WIN_SEL then Some (cmd_adc_win_sel args cap s)
      else if cmd = CMD_ADC_STATS then Some (cmd_adc_stats cap s)
      else if cmd = CMD_I2C_SCAN \<or> cmd = CMD_I2C_WRITE \<or> cmd = CMD_I2C_READ \<or> cmd = CMD_I2C_WRITE_READ
      then Some (cmd_i2c cmd args sink s)
      else Some (CMD_NOT_MINE, [], s))"

section \<open>Replies and the I2C service\<close>

definition reply_sink_send :: "reply_sink \<Rightarrow> u8 \<Rightarrow> u8 list \<Rightarrow> nd \<Rightarrow> nd" where
  "reply_sink_send k status res s =
     (if rs_kind k = SINK_ENGINE then s
      else s\<lparr>nd_up_q := x_queue_send UP_Q_DEPTH
        \<lparr>ar_dest = (if rs_kind k = SINK_BUS then rs_dest k else BUS_ADDR_APPCORE), ar_opcode = OP_SHELL_REPLY,
         ar_payload = take APPCORE_PAY_MAX ([lo8 (rs_req_id k), hi8 (rs_req_id k), status] @ res)\<rparr> (nd_up_q s)\<rparr>)"

text \<open>The bus: \<open>i2c_write\<close> and \<open>i2c_read\<close> are the SDK's timed transfers, whose result is the number of bytes or a
  negative error code; a read also gives the bytes.\<close>

record i2c_bus =
  i2c_write :: "u8 \<Rightarrow> u8 list \<Rightarrow> int"
  i2c_read :: "u8 \<Rightarrow> nat \<Rightarrow> int \<times> u8 list"

definition i2c_read_reply :: "i2c_bus \<Rightarrow> i2c_req \<Rightarrow> u8 \<times> u8 list" where
  "i2c_read_reply b q = (case i2c_read b (iq_addr q) (iq_rlen q) of (ret, buf) \<Rightarrow>
     if ret = int (iq_rlen q) then (SHELL_OK, take (iq_rlen q) buf) else (SHELL_IO_ERROR, []))"

definition i2c_result :: "i2c_bus \<Rightarrow> i2c_req \<Rightarrow> u8 \<times> u8 list" where
  "i2c_result b q = (case iq_op q of
     I2C_OP_SCAN \<Rightarrow> (SHELL_OK, filter (\<lambda>a. fst (i2c_read b a 1) \<ge> 0) (map of_nat [0x08..<0x78]))
   | I2C_OP_WRITE \<Rightarrow> (if i2c_write b (iq_addr q) (iq_data q) = int (length (iq_data q)) then SHELL_OK else SHELL_IO_ERROR, [])
   | I2C_OP_READ \<Rightarrow> i2c_read_reply b q
   | I2C_OP_WRITE_READ \<Rightarrow>
       (if i2c_write b (iq_addr q) (iq_data q) \<noteq> int (length (iq_data q)) then (SHELL_IO_ERROR, []) else i2c_read_reply b q))"

definition i2c_exec :: "i2c_bus \<Rightarrow> i2c_req \<Rightarrow> nd \<Rightarrow> nd" where
  "i2c_exec b q s = (case i2c_result b q of (st, res) \<Rightarrow> reply_sink_send (iq_sink q) st res s)"

text \<open>One turn of \<open>i2c_service_task\<close>; it blocks on an empty queue.\<close>

definition i2c_service_step :: "i2c_bus \<Rightarrow> nd \<Rightarrow> nd" where
  "i2c_service_step b s = (case nd_i2c_q s of Some (q # qs) \<Rightarrow> i2c_exec b q (s\<lparr>nd_i2c_q := Some qs\<rparr>) | _ \<Rightarrow> s)"

section \<open>What a command may do\<close>

text \<open>The pin a recorded call drives, and the pins the frozen roles let a command drive.\<close>

definition drive_pin :: "pin_call \<Rightarrow> u8 option" where
  "drive_pin c = (case c of Pin_put p _ \<Rightarrow> Some p | Pin_set_dir p True \<Rightarrow> Some p | Servo_start p \<Rightarrow> Some p | _ \<Rightarrow> None)"

definition drivable :: "u8 \<Rightarrow> hil \<Rightarrow> bool" where
  "drivable p h \<longleftrightarrow> b_io_mode h = HWIO_MODE_GPIO \<and> hil_role_of p h \<in> {HWIO_ROLE_OUTPUT, HWIO_ROLE_OC, HWIO_ROLE_OC_PU}"

text \<open>
  A reply fits the caller's buffer; the command kept the invariant and the frozen configuration of the block, touched
  the interlock at most by requesting the global clear, and drove no pin the frozen roles do not let it drive.
\<close>

definition pins_ok :: "hil \<Rightarrow> hil \<Rightarrow> bool" where
  "pins_ok h h' \<longleftrightarrow> (\<exists>cs. b_pins h' = b_pins h @ cs \<and> (\<forall>c \<in> set cs. \<forall>p. drive_pin c = Some p \<longrightarrow> drivable p h))"

definition cmd_ok :: "nd \<Rightarrow> u8 \<Rightarrow> reply \<Rightarrow> bool" where
  "cmd_ok s cap r = (case r of (st, out, s') \<Rightarrow>
     length out \<le> unat cap \<and> hil_inv (nd_hil s') \<and> frozen (nd_hil s') = frozen (nd_hil s)
     \<and> (nd_il s' = nd_il s \<or> nd_il s' = interlock_request_global_clear (nd_il s)) \<and> pins_ok (nd_hil s) (nd_hil s'))"

lemma pins_ok_same: "b_pins h' = b_pins h \<Longrightarrow> pins_ok h h'"
  by (simp add: pins_ok_def)

lemma cmd_ok_hil:
  assumes "hil_inv h'" "frozen h' = frozen (nd_hil s)" "pins_ok (nd_hil s) h'" "length out \<le> unat cap"
  shows "cmd_ok s cap (st, out, s\<lparr>nd_hil := h'\<rparr>)"
  using assms by (simp add: cmd_ok_def)

lemma cmd_ok_read: "hil_inv (nd_hil s) \<Longrightarrow> length out \<le> unat cap \<Longrightarrow> cmd_ok s cap (st, out, s)"
  by (simp add: cmd_ok_def pins_ok_same)

lemma cmd_ok_bad: "hil_inv (nd_hil s) \<Longrightarrow> cmd_ok s cap (bad_args s)"
  by (simp add: bad_args_def cmd_ok_read)

lemma concat_const_length: "(\<And>x. length (f x) = k) \<Longrightarrow> length (concat (map f xs)) = length xs * k"
  by (induction xs) simp_all

lemma le32_bytes_length [simp]: "length (le32_bytes v) = 4"
  by (simp add: le32_bytes_def)

lemma gpio_write_ok:
  assumes "hil_inv (nd_hil s)"
  shows "cmd_ok s cap (cmd_gpio_write args s)"
proof -
  have "pins_ok h (pin_calls (gpio_write_calls r p lv) h)" if "drivable p h" for h r p lv
    using that by (auto simp: pins_ok_def pin_calls_def gpio_write_calls_def drive_pin_def split: if_splits bool.splits)
  then show ?thesis using assms
    by (auto simp: cmd_gpio_write_def Let_def drivable_def intro!: cmd_ok_bad cmd_ok_hil)
qed

lemma clamp_us_range: "SERVO_MIN_US \<le> clamp_us us \<and> clamp_us us \<le> SERVO_MAX_US"
  by (simp add: clamp_us_def Let_def SERVO_MIN_US_def SERVO_MAX_US_def not_less)

lemma servo_widths:
  "length us = 8 \<Longrightarrow> (\<forall>w \<in> set us. SERVO_MIN_US \<le> w \<and> w \<le> SERVO_MAX_US) \<Longrightarrow>
   length (fold (\<lambda>i us. us[i := clamp_us (f i)]) is us) = 8
   \<and> (\<forall>w \<in> set (fold (\<lambda>i us. us[i := clamp_us (f i)]) is us). SERVO_MIN_US \<le> w \<and> w \<le> SERVO_MAX_US)"
proof (induction "is" arbitrary: us)
  case (Cons i "is")
  have "\<forall>w \<in> set (us[i := clamp_us (f i)]). SERVO_MIN_US \<le> w \<and> w \<le> SERVO_MAX_US"
    using Cons.prems(2) set_update_subset_insert [of us i "clamp_us (f i)"] clamp_us_range by blast
  then have "length (fold (\<lambda>i us. us[i := clamp_us (f i)]) is (us[i := clamp_us (f i)])) = 8
    \<and> (\<forall>w \<in> set (fold (\<lambda>i us. us[i := clamp_us (f i)]) is (us[i := clamp_us (f i)])). SERVO_MIN_US \<le> w \<and> w \<le> SERVO_MAX_US)"
    by (intro Cons.IH) (simp_all add: Cons.prems(1))
  then show ?case by simp
qed simp

lemma frozen_servo_us [simp]: "frozen (h\<lparr>b_servo_us := us\<rparr>) = frozen h"
  by (simp add: frozen_def)

lemma servo_build_pins [simp]: "b_pins (servo_build h) = b_pins h"
  by (simp add: servo_build_def Let_def)

lemma servo_set_ok:
  assumes "hil_inv (nd_hil s)"
  shows "cmd_ok s cap (cmd_servo_set_all args s)"
proof -
  let ?us = "\<lambda>n. fold (\<lambda>i us. us[i := clamp_us (le16 (args ! (i * 2)) (args ! (i * 2 + 1)))]) [0..<n] (b_servo_us (nd_hil s))"
  have "hil_inv ((nd_hil s)\<lparr>b_servo_us := ?us n\<rparr>)" for n
    using assms servo_widths [of "b_servo_us (nd_hil s)" "\<lambda>i. le16 (args ! (i * 2)) (args ! (i * 2 + 1))" "[0..<n]"]
    by (simp add: hil_inv_def)
  then show ?thesis using assms
    unfolding cmd_servo_set_all_def Let_def
    by (auto simp: servo_build_pins frozen_servo_us intro!: cmd_ok_bad cmd_ok_hil pins_ok_same servo_build_inv)
qed

lemma servo_stop_pins: "pins_ok h (servo_stop_all h)"
  by (auto simp: pins_ok_def servo_stop_all_def pin_calls_def drive_pin_def)

lemma servo_stop_ok: "hil_inv (nd_hil s) \<Longrightarrow> cmd_ok s cap (cmd_servo_stop s)"
  by (auto simp: cmd_servo_stop_def intro!: cmd_ok_bad cmd_ok_hil servo_stop_all_inv servo_stop_pins)

lemma set_ipol [simp]: "hil_inv (h\<lparr>b_gpio_ipol := x\<rparr>) = hil_inv h" "frozen (h\<lparr>b_gpio_ipol := x\<rparr>) = frozen h"
  by (simp_all add: hil_inv_def frozen_def)

lemma ipol_ok: "hil_inv (nd_hil s) \<Longrightarrow> cmd_ok s cap (cmd_gpio_ipol args cap s)"
  by (simp add: cmd_gpio_ipol_def Let_def cmd_ok_bad) (auto simp: cmd_ok_def pins_ok_same Suc_le_eq unat_gt_0)

lemma pulse_clear_ok: "hil_inv (nd_hil s) \<Longrightarrow> cmd_ok s cap (cmd_pulse_clear args s)"
  by (auto simp: cmd_pulse_clear_def clear_counts_def HIL_GPIO_COUNT_def hil_inv_def frozen_def intro!: cmd_ok_bad cmd_ok_hil pins_ok_same)

lemma pulse_readclr_ok: "hil_inv (nd_hil s) \<Longrightarrow> cmd_ok s cap (cmd_pulse_readclr cap s)"
  by (auto simp: cmd_pulse_readclr_def HIL_GPIO_COUNT_def hil_inv_def frozen_def concat_const_length not_less word_le_nat_alt
      intro!: cmd_ok_bad cmd_ok_hil pins_ok_same)

lemma reads_ok:
  assumes "hil_inv (nd_hil s)"
  shows "cmd_ok s cap (cmd_gpio_read d args cap s)" "cmd_ok s cap (cmd_gpio_read_all cap s)" "cmd_ok s cap (cmd_bench_bb cap s)"
    "cmd_ok s cap (cmd_io_mode cap s)" "cmd_ok s cap (cmd_pulse_read cap s)" "cmd_ok s cap (cmd_adc_read cap s)"
    "cmd_ok s cap (cmd_adc_stats cap s)"
  using assms
  by (auto simp: cmd_gpio_read_def cmd_gpio_read_all_def cmd_bench_bb_def cmd_io_mode_def cmd_pulse_read_def cmd_adc_read_def
      cmd_adc_stats_def stats_snapshot_def Let_def HIL_GPIO_COUNT_def ADC_NCH_def upt_3 concat_const_length not_less word_le_nat_alt
      Suc_le_eq unat_gt_0 intro!: cmd_ok_bad cmd_ok_read)

lemma win_sel_ok: "hil_inv (nd_hil s) \<Longrightarrow> cmd_ok s cap (cmd_adc_win_sel args cap s)"
  by (auto simp: cmd_adc_win_sel_def cmd_ok_def pins_ok_same Suc_le_eq unat_gt_0 Let_def)

lemma i2c_ok: "hil_inv (nd_hil s) \<Longrightarrow> cmd_ok s cap (cmd_i2c cmd args sink s)"
  by (simp add: cmd_i2c_def i2c_enqueue_def cmd_ok_bad) (simp add: cmd_ok_def pins_ok_same)

lemma pwm_ok: "hil_inv (nd_hil s) \<Longrightarrow> cmd_pwm_test d args cap s = Some r \<Longrightarrow> cmd_ok s cap r"
  by (auto simp: cmd_pwm_test_def Let_def cmd_ok_def bad_args_def pins_ok_same word_le_nat_alt split: if_splits option.splits)

lemma bench_ok: "hil_inv (nd_hil s) \<Longrightarrow> cmd_bench d cmd args cap s = Some r \<Longrightarrow> cmd_ok s cap r"
  unfolding cmd_bench_def
  by (auto split: if_splits intro: gpio_write_ok reads_ok ipol_ok pulse_clear_ok pulse_readclr_ok servo_set_ok servo_stop_ok cmd_ok_bad)

lemma clear_ok: "hil_inv (nd_hil s) \<Longrightarrow> cmd_ok s cap (SHELL_OK, [], s\<lparr>nd_il := interlock_request_global_clear (nd_il s)\<rparr>)"
  by (simp add: cmd_ok_def pins_ok_same)

lemma status_pack_len: "length (il_status_pack e s cap) \<le> unat cap"
  using status_pack_all(2) [of cap e s] status_pack_small [of cap e s] by (cases "45 \<le> unat cap") auto

lemma dispatch_ok:
  "hil_inv (nd_hil s) \<Longrightarrow> node_cmd_dispatch d cmd args cap sink s = Some r \<Longrightarrow> cmd_ok s cap r"
  unfolding node_cmd_dispatch_def
  by (auto simp del: not_None_eq split: if_splits
      intro: bench_ok clear_ok pwm_ok reads_ok win_sel_ok i2c_ok cmd_ok_read status_pack_len)


lemma power2_dvd_mult:
  "2 ^ (k + m) dvd a * b \<Longrightarrow> 0 < a \<Longrightarrow> a < 2 ^ k \<Longrightarrow> (2 :: nat) ^ m dvd b"
proof (induction k arbitrary: a)
  case (Suc k)
  show ?case
  proof (cases "even a")
    case True
    then obtain c where c: "a = 2 * c" by (rule evenE)
    then have "2 ^ (k + m) dvd c * b" using Suc.prems(1) by (simp add: mult.assoc)
    then show ?thesis using Suc.IH [of c] Suc.prems(2,3) c by simp
  next
    case False
    then have "coprime a (2 ^ (Suc k + m))" by simp
    then have "2 ^ (Suc k + m) dvd b" using Suc.prems(1) by (simp add: coprime_commute coprime_dvd_mult_right_iff)
    then show ?thesis using dvd_trans [OF le_imp_power_dvd [of m "Suc k + m" 2]] by simp
  qed
qed simp

lemma word_mult_eq_0: "(a * b :: u32) = 0 \<longleftrightarrow> 2 ^ 32 dvd unat a * unat b"
  by (simp add: word_unat_eq_iff unat_word_ariths dvd_eq_mod_eq_0)

lemma pwm_none: "pwm_test_set fsys f dt = None \<longleftrightarrow> f \<noteq> 0 \<and> dt \<noteq> 0 \<and> f * 65536 = 0"
proof -
  have "dv * f \<noteq> 0" if f: "f * 65536 \<noteq> 0" and dv: "dv = (if fsys div (f * 65536) + 1 > 255 then 255 else fsys div (f * 65536) + 1)" for dv
  proof
    assume "dv * f = 0"
    then have d: "2 ^ (8 + 24) dvd unat dv * unat f" by (simp add: word_mult_eq_0)
    have "0 < unat (f * 65536)" using f unat_gt_0 by blast
    moreover have "unat (f * 65536) mod 65536 = 0" by (simp add: unat_word_ariths mod_mod_cancel)
    ultimately have "65536 \<le> unat (f * 65536)" by (metis dvd_imp_le mod_0_imp_dvd)
    then have "unat fsys div unat (f * 65536) \<le> 65535"
      using div_le_mono2 [of 65536 "unat (f * 65536)" "unat fsys"] div_le_mono [of "unat fsys" 4294967295 65536]
        unat_u32_less [of fsys] by linarith
    then have "unat (fsys div (f * 65536) + 1) = unat fsys div unat (f * 65536) + 1"
      by (simp add: unat_word_ariths unat_div)
    then have "0 < unat dv" "unat dv < 2 ^ 8" by (auto simp: dv word_less_nat_alt split: if_splits)
    from power2_dvd_mult [OF d this] have "2 ^ 32 dvd unat f * 65536"
      by (auto elim!: dvdE)
    with f show False by (simp add: word_mult_eq_0)
  qed
  then show ?thesis by (auto simp: pwm_test_set_def Let_def)
qed

lemma push_bit_byte_0: "n \<le> 24 \<Longrightarrow> push_bit n (ucast (b :: u8) :: u32) = 0 \<longleftrightarrow> b = 0"
proof
  assume n: "n \<le> 24" and z: "push_bit n (ucast b :: u32) = 0"
  have "\<not> bit b k" for k
  proof
    assume "bit b k"
    moreover from this have "k < 8" using bit_imp_le_length by fastforce
    ultimately have "bit (push_bit n (ucast b :: u32)) (n + k)" using n by (simp add: bit_simps)
    then show False by (simp add: z)
  qed
  then show "b = 0" by (simp add: bit_eq_iff)
qed simp

lemma freq_bytes:
  fixes a b c e :: u8
  defines "f \<equiv> ucast a OR push_bit 8 (ucast b) OR push_bit 16 (ucast c) OR push_bit 24 (ucast e) :: u32"
  shows "f * 65536 = 0 \<longleftrightarrow> a = 0 \<and> b = 0" "f = 0 \<longleftrightarrow> a = 0 \<and> b = 0 \<and> c = 0 \<and> e = 0"
proof -
  have big: "32 \<le> n \<Longrightarrow> push_bit n (w :: u32) = 0" for n w by (rule bit_word_eqI) (simp add: bit_simps)
  have "f * 65536 = push_bit 16 f" by (simp add: push_bit_eq_mult)
  also have "\<dots> = push_bit 16 (ucast a) OR push_bit 24 (ucast b)" by (simp add: f_def push_bit_or big)
  finally show "f * 65536 = 0 \<longleftrightarrow> a = 0 \<and> b = 0" by (simp only: or_eq_0_iff push_bit_byte_0)
  show "f = 0 \<longleftrightarrow> a = 0 \<and> b = 0 \<and> c = 0 \<and> e = 0"
    unfolding f_def or_eq_0_iff using push_bit_byte_0 [of 0] by (simp add: push_bit_byte_0)
qed

lemma pwm_test_none:
  "cmd_pwm_test d args cap s = None \<longleftrightarrow>
   5 \<le> length args \<and> args ! 0 = 0 \<and> args ! 1 = 0 \<and> (args ! 2 \<noteq> 0 \<or> args ! 3 \<noteq> 0) \<and> args ! 4 \<noteq> 0"
proof -
  have "cmd_pwm_test d args cap s = None \<longleftrightarrow> 5 \<le> length args \<and> pwm_test_set (d_clk_sys d)
      (ucast (args ! 0) OR push_bit 8 (ucast (args ! 1)) OR push_bit 16 (ucast (args ! 2)) OR push_bit 24 (ucast (args ! 3))) (args ! 4) = None"
    by (simp add: cmd_pwm_test_def Let_def not_less split: option.split)
  then show ?thesis unfolding pwm_none freq_bytes by blast
qed

text \<open>
  C40. Every command is answered: the dispatch is defined unless the PWM command asks for a frequency that is a non-zero
  multiple of \<open>65536\<close>, where \<open>freq_hz * 65536u\<close> wraps to zero and divides.
\<close>

theorem dispatch_total:
  "node_cmd_dispatch d cmd args cap sink s = None \<longleftrightarrow>
   cmd = CMD_PWM_TEST \<and> 5 \<le> length args \<and> args ! 0 = 0 \<and> args ! 1 = 0 \<and> (args ! 2 \<noteq> 0 \<or> args ! 3 \<noteq> 0) \<and> args ! 4 \<noteq> 0"
proof (cases "cmd = CMD_PWM_TEST")
  case True
  have "cmd_bench d CMD_PWM_TEST args cap s = None" by (simp add: cmd_bench_def cmd_defs)
  then have "node_cmd_dispatch d CMD_PWM_TEST args cap sink s = cmd_pwm_test d args cap s"
    by (simp add: node_cmd_dispatch_def cmd_defs)
  then show ?thesis unfolding True using pwm_test_none by simp
next
  case False
  have if_Some: "(if c then Some x else y) = None \<longleftrightarrow> \<not> c \<and> y = None" for c and x :: reply and y by simp
  from False have "node_cmd_dispatch d cmd args cap sink s \<noteq> None" unfolding node_cmd_dispatch_def
    by (cases "cmd_bench d cmd args cap s") (simp_all add: if_Some del: not_None_eq split_paired_Ex split del: if_split)
  with False show ?thesis by simp
qed

text \<open>A node whose block is a GPIO bank with GP2 an output and GP3 open-drain.\<close>

definition nd_bench :: nd where
  "nd_bench = \<lparr>nd_hil = hil0\<lparr>b_hwio_role := [HWIO_ROLE_OUTPUT, HWIO_ROLE_OC, 0, 0, 0, 0, 0, 0]\<rparr>, nd_adc = adc0, nd_il = il0 persist_cold_init,
     nd_pwm = Pwm_off, nd_i2c_q = Some [], nd_up_q = [], nd_bb_gpio_raw = None, nd_bb_gpio_deb = None, nd_bb_cnt = replicate 8 None\<rparr>"

definition dev0 :: dev where
  "dev0 = \<lparr>d_env = env0 True 0, d_clk_sys = 125000000, d_pwm_func = 4, d_pwm_slice = 3\<rparr>"

definition sink0 :: reply_sink where
  "sink0 = \<lparr>rs_kind = SINK_BUS, rs_dest = 0, rs_req_id = 7\<rparr>"

lemma bench_write:
  "node_cmd_dispatch dev0 CMD_GPIO_WRITE [0, 3, 0] 96 sink0 nd_bench
   = Some (SHELL_OK, [], nd_bench\<lparr>nd_hil := pin_calls [Pin_put 3 False, Pin_set_dir 3 True] (nd_hil nd_bench)\<rparr>)"
  by (simp add: node_cmd_dispatch_def cmd_bench_def cmd_gpio_write_def gpio_write_calls_def hil_role_of_def nd_bench_def hil0_def Let_def
      cmd_defs board_defs HWIO_ROLE_OC_def HWIO_MODE_GPIO_def)


theorem dispatch_total_witness:
  "node_cmd_dispatch dev0 CMD_PWM_TEST [0, 0, 1, 0, 50] 96 sink0 nd_bench = None
   \<and> node_cmd_dispatch dev0 CMD_PWM_TEST [1, 0, 1, 0, 50] 96 sink0 nd_bench \<noteq> None"
  using dispatch_total [of dev0 CMD_PWM_TEST "[0, 0, 1, 0, 50]" 96 sink0 nd_bench]
    dispatch_total [of dev0 CMD_PWM_TEST "[1, 0, 1, 0, 50]" 96 sink0 nd_bench] by simp

section \<open>The I2C service answers\<close>

definition i2c_answer :: "i2c_bus \<Rightarrow> i2c_req \<Rightarrow> appcore_rep" where
  "i2c_answer b q = \<lparr>ar_dest = (if rs_kind (iq_sink q) = SINK_BUS then rs_dest (iq_sink q) else BUS_ADDR_APPCORE),
     ar_opcode = OP_SHELL_REPLY,
     ar_payload = take APPCORE_PAY_MAX ([lo8 (rs_req_id (iq_sink q)), hi8 (rs_req_id (iq_sink q)), fst (i2c_result b q)] @ snd (i2c_result b q))\<rparr>"

definition answered :: "i2c_req \<Rightarrow> bool" where
  "answered q \<longleftrightarrow> rs_kind (iq_sink q) \<noteq> SINK_ENGINE"

lemma i2c_exec_up:
  "length (nd_up_q s) < UP_Q_DEPTH \<Longrightarrow>
   i2c_exec b q s = s\<lparr>nd_up_q := nd_up_q s @ (if answered q then [i2c_answer b q] else [])\<rparr>"
  by (simp add: i2c_exec_def reply_sink_send_def x_queue_send_def i2c_answer_def answered_def case_prod_unfold)

text \<open>
  As long as the up queue has room, the I2C service drains its queue in order and answers every request whose sink
  takes replies exactly once, with the request's own id and the result of its transfer.
\<close>

theorem i2c_served_in_order:
  assumes "nd_i2c_q s = Some q" "length (nd_up_q s) + length q \<le> UP_Q_DEPTH"
  shows "(i2c_service_step b ^^ length q) s
    = s\<lparr>nd_i2c_q := Some [], nd_up_q := nd_up_q s @ map (i2c_answer b) (filter answered q)\<rparr>"
  using assms
proof (induction q arbitrary: s)
  case (Cons r q)
  let ?s = "s\<lparr>nd_i2c_q := Some q, nd_up_q := nd_up_q s @ (if answered r then [i2c_answer b r] else [])\<rparr>"
  have "i2c_service_step b s = ?s"
    using Cons.prems i2c_exec_up [of "s\<lparr>nd_i2c_q := Some q\<rparr>" b r] by (simp add: i2c_service_step_def)
  then have "(i2c_service_step b ^^ length (r # q)) s = (i2c_service_step b ^^ length q) ?s"
    by (simp add: funpow_swap1)
  then show ?case using Cons.IH [of ?s] Cons.prems by simp
qed simp

definition scan_req :: i2c_req where
  "scan_req = \<lparr>iq_sink = sink0, iq_op = I2C_OP_WRITE, iq_addr = 0x20, iq_rlen = 0, iq_data = [1, 2]\<rparr>"

theorem i2c_served_in_order_witness:
  "nd_up_q (i2c_service_step \<lparr>i2c_write = \<lambda>a d. int (length d), i2c_read = \<lambda>a n. (int n, replicate n 0)\<rparr> (nd_bench\<lparr>nd_i2c_q := Some [scan_req]\<rparr>))
   = [\<lparr>ar_dest = 0, ar_opcode = OP_SHELL_REPLY, ar_payload = [7, 0, SHELL_OK]\<rparr>]"
  using i2c_served_in_order [of "nd_bench\<lparr>nd_i2c_q := Some [scan_req]\<rparr>" "[scan_req]"
      "\<lparr>i2c_write = \<lambda>a d. int (length d), i2c_read = \<lambda>a n. (int n, replicate n 0)\<rparr>"]
  by (simp add: nd_bench_def scan_req_def sink0_def answered_def i2c_answer_def i2c_result_def UP_Q_DEPTH_def APPCORE_PAY_MAX_def lo8_def hi8_def)

text \<open>
  A request that finds the queue full is dropped, yet the caller is told \<open>SHELL_ASYNC\<close> and sends no reply of its own:
  the issuer never hears of it.
\<close>

theorem i2c_request_lost:
  assumes "nd_i2c_q s = Some q" "length q = I2C_Q_DEPTH"
  shows "node_cmd_dispatch d CMD_I2C_SCAN args cap sink s = Some (SHELL_ASYNC, [], s)"
proof -
  have "cmd_bench d CMD_I2C_SCAN args cap s = None" by (simp add: cmd_bench_def cmd_defs)
  then show ?thesis using assms
    by (simp add: node_cmd_dispatch_def cmd_defs cmd_i2c_def i2c_enqueue_def x_queue_send_def)
qed

text \<open>At full duty and a frequency below eight hertz the level wraps to zero: the output is always low instead of always high.\<close>

theorem pwm_full_duty_low: "pwm_test_set 125000000 1 100 = Some (Pwm_on 255 65535 0)"
  by (simp add: pwm_test_set_def Let_def)

end
