(* ===== verification/Bus_Master.thy ===== *)
theory Bus_Master
  imports Bus_Pool Host_Link Node_Cmd
begin

text \<open>
  The bus controller's own state and handlers (\<^verbatim>\<open>src/app/bus_controller/main.c\<close>): the commissioned roster and
  its liveness, what the host's messages and shell commands do, and the poll slot with the delivery of a node's frames.

  The globals of the file are grouped into records; arrays with a count are lists.  The handlers run under
  \<open>g_lock\<close>, so each is one step.  The clock and the words heard on the line are arguments, the words sent are the
  acts of \<open>bus_phy.h\<close>.
\<close>

unbundle bit_operations_syntax

section \<open>Constants\<close>

definition FLAG_ENABLED :: u8 where "FLAG_ENABLED = 0x02"
definition ST_UNKNOWN :: u8 where "ST_UNKNOWN = 0"
definition ST_ALIVE :: u8 where "ST_ALIVE = 1"
definition ST_DEAD :: u8 where "ST_DEAD = 2"
definition T_WINDOW_MAX_US :: u32 where "T_WINDOW_MAX_US = 12000"
definition ROUTE_USB :: u8 where "ROUTE_USB = 0"
definition ROUTE_BUS :: u8 where "ROUTE_BUS = 1"

definition CMD_ECHO :: u16 where "CMD_ECHO = 0x0001"
definition CMD_BUS_REGISTER_SLAVE :: u16 where "CMD_BUS_REGISTER_SLAVE = 0x0160"
definition CMD_BUS_LIST_SLAVES :: u16 where "CMD_BUS_LIST_SLAVES = 0x0162"
definition CMD_BUS_SET_POLL :: u16 where "CMD_BUS_SET_POLL = 0x0163"
definition CMD_BUS_POLL_ENABLE :: u16 where "CMD_BUS_POLL_ENABLE = 0x0164"
definition CMD_BUS_CLEAR_ROSTER :: u16 where "CMD_BUS_CLEAR_ROSTER = 0x0165"
definition CMD_BUS_POLL_STATS :: u16 where "CMD_BUS_POLL_STATS = 0x0166"
definition CMD_BUS_MEASURE_TA :: u16 where "CMD_BUS_MEASURE_TA = 0x0167"
definition CMD_BUS_CYCLE_MODE :: u16 where "CMD_BUS_CYCLE_MODE = 0x0168"
definition CMD_BUS_MSG_INJECT :: u16 where "CMD_BUS_MSG_INJECT = 0x0169"
definition CMD_BUS_SET_DEADLINE :: u16 where "CMD_BUS_SET_DEADLINE = 0x016A"
definition CMD_BUS_SET_PACE :: u16 where "CMD_BUS_SET_PACE = 0x016B"
definition CMD_BUS_UPLINK_FORCE :: u16 where "CMD_BUS_UPLINK_FORCE = 0x016C"
definition CMD_APP_ECHO :: u16 where "CMD_APP_ECHO = 0x0300"
definition CMD_APP_ECHO_TO :: u16 where "CMD_APP_ECHO_TO = 0x0301"
definition CMD_APP_IL_CLEAR :: u16 where "CMD_APP_IL_CLEAR = 0x0302"
definition CMD_APP_PP_START :: u16 where "CMD_APP_PP_START = 0x0303"
definition CMD_APP_PP_STOP :: u16 where "CMD_APP_PP_STOP = 0x0304"
definition CMD_APP_PP_READ :: u16 where "CMD_APP_PP_READ = 0x0305"

definition OP_DBG_LOG :: u16 where "OP_DBG_LOG = 0x0010"
definition OP_BUS_SLAVE_DOWN :: u16 where "OP_BUS_SLAVE_DOWN = 0x0015"
definition OP_BUS_SLAVE_UP :: u16 where "OP_BUS_SLAVE_UP = 0x0016"
definition OP_BUS_SLAVE_FLAGGED :: u16 where "OP_BUS_SLAVE_FLAGGED = 0x0017"
definition OP_BUS_CMD_ACK :: u16 where "OP_BUS_CMD_ACK = 0x0018"
definition OP_BUS_CMD_NAK :: u16 where "OP_BUS_CMD_NAK = 0x0019"
definition OP_BUS_FEEDBACK :: u16 where "OP_BUS_FEEDBACK = 0x001C"

lemmas st_defs = ST_UNKNOWN_def ST_ALIVE_def ST_DEAD_def
lemmas shell_cmd_defs = CMD_ECHO_def CMD_BUS_REGISTER_SLAVE_def CMD_BUS_LIST_SLAVES_def CMD_BUS_SET_POLL_def
  CMD_BUS_POLL_ENABLE_def CMD_BUS_CLEAR_ROSTER_def CMD_BUS_POLL_STATS_def CMD_BUS_MEASURE_TA_def CMD_BUS_CYCLE_MODE_def
  CMD_BUS_MSG_INJECT_def CMD_BUS_SET_DEADLINE_def CMD_BUS_SET_PACE_def CMD_BUS_UPLINK_FORCE_def CMD_APP_PP_START_def
  CMD_APP_PP_STOP_def CMD_APP_PP_READ_def

section \<open>State\<close>

record slave =
  sl_addr :: u8
  sl_class_id :: u32
  sl_flags :: u8
  sl_state :: u8
  sl_misses :: u8
  sl_last_seen_ms :: u32
  sl_summary :: u8
  sl_announced_state :: u8
  sl_announced_summary :: u8

text \<open>The one injected command in flight; \<open>g_cmd_body[0 .. g_cmd_len - 1]\<close> is the list \<open>c_body\<close>.\<close>

record cmd_slot =
  c_pending :: bool
  c_slave :: u8
  c_op :: u16
  c_req_id :: u16
  c_body :: "u8 list"
  c_is_orig :: bool
  c_host_req :: u16
  c_orig_seq :: u16

record poll_st =
  g_poll_period_ms :: u16
  g_poll_max_misses :: u8
  g_poll_tcp_retries :: u8
  g_poll_enabled :: u8
  g_poll_total :: u32
  g_poll_alive :: u32
  g_poll_miss :: u32
  g_last_ta_us :: u16
  g_meas_ta_us :: u16
  g_miss_silent :: u32
  g_miss_partial :: u32
  g_bus_msgs :: u32

text \<open>The cyclic engine.  \<open>y_fb\<close> is \<open>g_fb_buf[1 .. g_fb_n - 1]\<close>, the feedback gathered in this cycle behind the
  slot of the count; \<open>y_minslack\<close> is an \<open>int32_t\<close>, read with \<open>sint\<close>; the three time stamps are the static locals of
  \<open>bus_run_cycle\<close>.\<close>

record cycle_st =
  y_mode :: u8
  y_last :: u32
  y_min :: u32
  y_max :: u32
  y_deadline_us :: u32
  y_overruns :: u32
  y_minslack :: u32
  y_slow_addr :: u8
  y_slow_us :: u32
  y_pace_us :: u32
  y_slowpoll_div :: u32
  y_revives :: u32
  y_nodes_dead :: u8
  g_il_nodes_dead :: u8
  y_dirty :: bool
  y_rebuilds :: u32
  y_dead_cursor :: u8
  y_dead_tick :: u32
  y_collecting :: bool
  y_fb :: "u8 list"
  y_fb_rec :: u8
  y_fb_frames :: u32
  y_fb_drops :: u32
  y_corr_relayed :: u32
  y_seen_ex :: u32
  y_last_ex_ms :: u32
  y_last_notify_ms :: u32

record pp_st =
  g_pp_master :: u32
  g_pp_slave :: u32
  g_pp_slave_seen :: u32
  g_pp_run :: bool
  g_pp_addr :: u8
  g_pp_kicks :: u32

record uplink_st =
  g_uplink_mode :: u8
  g_uplink_active :: bool
  g_host_connected :: bool
  g_uplink_force :: u8
  g_uplink_force_until :: u32
  g_n_ap :: u8

record appcore_cmd =
  ac_req_id :: u16
  ac_cmd :: u16
  ac_route :: u8
  ac_bus_src :: u8
  ac_args :: "u8 list"

record orig_req =
  or_addr :: u8
  or_host_req_id :: u16
  or_bytes :: "u8 list"

record master =
  b_plane :: plane
  b_pool_n :: u16
  b_pool_selftest :: u16
  b_pp_selftest :: bool
  b_roster :: "slave list"
  b_cursor :: u8
  b_cmd :: cmd_slot
  b_poll :: poll_st
  b_cyc :: cycle_st
  b_pp :: pp_st
  b_up :: uplink_st
  b_hl :: host_link
  b_bc :: bus_asm
  b_bus_seq :: u8
  b_down_q :: "appcore_cmd list"
  b_orig_q :: "orig_req list"
  b_identity_refused :: bool
  b_nd :: nd

section \<open>Helpers of the bus thread\<close>

definition pp_kick :: "master \<Rightarrow> master" where
  "pp_kick m =
     (let c = \<lparr>ac_req_id = 0, ac_cmd = CMD_APP_ECHO_TO, ac_route = ROUTE_USB, ac_bus_src = 0, ac_args = [g_pp_addr (b_pp m), 0x70, 0x70]\<rparr>
      in if length (b_down_q m) < DOWN_Q_DEPTH
         then m\<lparr>b_down_q := b_down_q m @ [c], b_pp := (b_pp m)\<lparr>g_pp_kicks := g_pp_kicks (b_pp m) + 1\<rparr>\<rparr>
         else m)"

definition data_frame :: "u8 \<Rightarrow> u8 \<Rightarrow> u8 list \<Rightarrow> u8 \<Rightarrow> bus_frame" where
  "data_frame dest ty p seq = \<lparr>f_dest = dest, f_src = BUS_ADDR_MASTER, f_type = ty, f_seq = seq, f_len = word_of_nat (length p),
     f_payload = p @ replicate (BUS_PAYLOAD_MAX - length p) 0\<rparr>"

definition bus_send :: "u8 \<Rightarrow> u8 \<Rightarrow> u8 list \<Rightarrow> master \<Rightarrow> phy_act list \<times> master" where
  "bus_send dest ty p m =
     ([Phy_rx_flush, Phy_send_words (bus_frame_encode (data_frame dest ty p (b_bus_seq m)))],
      m\<lparr>b_bus_seq := b_bus_seq m + 1, b_poll := (b_poll m)\<lparr>g_bus_msgs := g_bus_msgs (b_poll m) + 1\<rparr>\<rparr>)"

definition roster_find :: "u8 \<Rightarrow> slave list \<Rightarrow> nat option" where
  "roster_find addr ros = find_idx (\<lambda>s. sl_addr s = addr) ros"

text \<open>The loop of \<open>next_enabled_addr\<close>, with the number of turns it has left.\<close>

fun next_enabled_from :: "nat \<Rightarrow> slave list \<Rightarrow> u8 \<Rightarrow> u8 \<times> u8" where
  "next_enabled_from 0 ros c = (0xFF, c)"
| "next_enabled_from (Suc n) ros c =
     (let s = ros ! unat c; c' = word_of_nat ((unat c + 1) mod length ros)
      in if sl_flags s AND FLAG_ENABLED \<noteq> 0 then (sl_addr s, c') else next_enabled_from n ros c')"

definition next_enabled_addr :: "master \<Rightarrow> u8 \<times> master" where
  "next_enabled_addr m = (case next_enabled_from (length (b_roster m)) (b_roster m) (b_cursor m) of (addr, c) \<Rightarrow> (addr, m\<lparr>b_cursor := c\<rparr>))"

definition mark_alive :: "u8 \<Rightarrow> u32 \<Rightarrow> slave list \<Rightarrow> slave list" where
  "mark_alive addr now ros = (case roster_find addr ros of None \<Rightarrow> ros
     | Some i \<Rightarrow> ros[i := (ros ! i)\<lparr>sl_misses := 0, sl_last_seen_ms := now, sl_state := ST_ALIVE\<rparr>])"

definition mark_miss :: "u8 \<Rightarrow> u8 \<Rightarrow> slave list \<Rightarrow> slave list" where
  "mark_miss max_misses addr ros = (case roster_find addr ros of None \<Rightarrow> ros
     | Some i \<Rightarrow> (let s = ros ! i; ms = (if sl_misses s < 0xFF then sl_misses s + 1 else sl_misses s)
         in ros[i := s\<lparr>sl_misses := ms, sl_state := (if sl_state s \<noteq> ST_DEAD \<and> ms \<ge> max_misses then ST_DEAD else sl_state s)\<rparr>]))"

text \<open>One pending edge per call: the scan stops at the first edge it tries to report.\<close>

fun liveness_scan :: "slave list \<Rightarrow> host_link \<Rightarrow> slave list \<times> host_link" where
  "liveness_scan [] h = ([], h)"
| "liveness_scan (s # ss) h =
     (if sl_state s \<noteq> sl_announced_state s \<and> sl_state s = ST_DEAD then
        (case host_link_s2m (sl_addr s) OP_BUS_SLAVE_DOWN [sl_addr s] h of (rc, h') \<Rightarrow>
           ((if rc = 0 then s\<lparr>sl_announced_state := ST_DEAD\<rparr> else s) # ss, h'))
      else if sl_state s \<noteq> sl_announced_state s \<and> sl_state s = ST_ALIVE \<and> sl_announced_state s = ST_DEAD then
        (case host_link_s2m (sl_addr s) OP_BUS_SLAVE_UP (sl_addr s # wr_u32 (sl_class_id s)) h of (rc, h') \<Rightarrow>
           ((if rc = 0 then s\<lparr>sl_announced_state := ST_ALIVE\<rparr> else s) # ss, h'))
      else (let s' = s\<lparr>sl_announced_state := sl_state s\<rparr> in
        if sl_summary s' \<noteq> sl_announced_summary s' then
          (case host_link_s2m (sl_addr s') OP_BUS_SLAVE_FLAGGED [sl_addr s', sl_summary s'] h of (rc, h') \<Rightarrow>
             ((if rc = 0 then s'\<lparr>sl_announced_summary := sl_summary s'\<rparr> else s') # ss, h'))
        else (case liveness_scan ss h of (ss', h') \<Rightarrow> (s' # ss', h'))))"

definition emit_liveness_edges :: "master \<Rightarrow> master" where
  "emit_liveness_edges m = (case liveness_scan (b_roster m) (b_hl m) of (ros, h) \<Rightarrow> m\<lparr>b_roster := ros, b_hl := h\<rparr>)"

section \<open>Callbacks of the host link\<close>

definition on_bus_msg :: "u8 \<Rightarrow> u16 \<Rightarrow> u8 list \<Rightarrow> master \<Rightarrow> master" where
  "on_bus_msg dest opcode body m =
     (if dest = BUS_ADDR_APPCORE then
        (if opcode \<noteq> Host_Link.OP_SHELL_EXEC \<or> length body < 4 then m
         else m\<lparr>b_down_q := x_queue_send DOWN_Q_DEPTH \<lparr>ac_req_id = le16 (body ! 0) (body ! 1), ac_cmd = le16 (body ! 2) (body ! 3),
                ac_route = ROUTE_USB, ac_bus_src = 0, ac_args = take APPCORE_ARGS_MAX (drop 4 body)\<rparr> (b_down_q m)\<rparr>)
      else if c_pending (b_cmd m) then m
      else (let body = take BUS_PAYLOAD_MAX body in
        m\<lparr>b_cmd := (b_cmd m)\<lparr>c_slave := dest, c_op := opcode, c_body := body,
            c_req_id := (if opcode = OP_BUS_EXEC \<and> length body \<ge> 4 then le16 (body ! 2) (body ! 3)
                         else if length body \<ge> 2 then le16 (body ! 0) (body ! 1) else 0),
            c_is_orig := False, c_pending := True\<rparr>\<rparr>))"

definition shell_reply :: "u16 \<Rightarrow> u8 \<Rightarrow> u8 list \<Rightarrow> master \<Rightarrow> master" where
  "shell_reply req_id st res m = m\<lparr>b_hl := snd (host_link_shell_reply req_id st res (b_hl m))\<rparr>"

definition le32 :: "u8 \<Rightarrow> u8 \<Rightarrow> u8 \<Rightarrow> u8 \<Rightarrow> u32" where
  "le32 a b c d = ucast a OR push_bit 8 (ucast b) OR push_bit 16 (ucast c) OR push_bit 24 (ucast d)"

definition cmd_clear_roster :: "master \<Rightarrow> master" where
  "cmd_clear_roster m = m\<lparr>b_roster := [], b_cursor := 0, b_cyc := (b_cyc m)\<lparr>y_dirty := True\<rparr>, b_cmd := (b_cmd m)\<lparr>c_pending := False\<rparr>\<rparr>"

definition new_slave :: "u8 \<Rightarrow> u32 \<Rightarrow> u8 \<Rightarrow> slave" where
  "new_slave addr class_id flags = \<lparr>sl_addr = addr, sl_class_id = class_id, sl_flags = flags, sl_state = 0, sl_misses = 0,
     sl_last_seen_ms = 0, sl_summary = 0, sl_announced_state = 0, sl_announced_summary = 0\<rparr>"

definition cmd_register_slave :: "u8 list \<Rightarrow> master \<Rightarrow> master" where
  "cmd_register_slave args m =
     (if length args \<ge> 6 \<and> length (b_roster m) < ROSTER_MAX
      then m\<lparr>b_roster := b_roster m @ [new_slave (args ! 0) (le32 (args ! 1) (args ! 2) (args ! 3) (args ! 4)) (args ! 5)],
             b_cyc := (b_cyc m)\<lparr>y_dirty := True\<rparr>\<rparr>
      else m)"

definition list_row :: "u32 \<Rightarrow> slave \<Rightarrow> u8 list" where
  "list_row now s =
     (let ago32 = (if sl_last_seen_ms s = 0 then 0xFFFF else now - sl_last_seen_ms s);
          ago = (if ago32 > 0xFFFF then 0xFFFF else ucast ago32 :: u16)
      in [sl_addr s] @ wr_u32 (sl_class_id s) @ [sl_flags s, sl_state s, sl_misses s] @ wr_u16 ago)"

definition cmd_list_slaves :: "u32 \<Rightarrow> master \<Rightarrow> u8 list" where
  "cmd_list_slaves now m = (let n = word_of_nat (length (b_roster m)) in [n, n] @ concat (map (list_row now) (b_roster m)))"

definition cmd_poll_stats :: "master \<Rightarrow> u8 list" where
  "cmd_poll_stats m =
     (let p = b_poll m; y = b_cyc m; s = b_plane m
      in wr_u32 (g_poll_total p) @ wr_u32 (g_poll_alive p) @ wr_u32 (g_poll_miss p) @ wr_u16 (g_meas_ta_us p)
         @ [ucast (b_pool_selftest m), ucast (b_pool_n m), word_of_nat (length (g_nodes s))] @ wr_u16 (g_pool_avail s)
         @ [if b_pp_selftest m then 1 else 0] @ wr_u32 (y_last y) @ wr_u32 (y_min y) @ wr_u32 (y_max y) @ wr_u32 (y_overruns y)
         @ wr_u32 (y_minslack y) @ [y_slow_addr y] @ wr_u16 (ucast (y_slow_us y)) @ wr_u16 (g_pool_low s) @ wr_u32 (g_pool_exhausted s)
         @ wr_u32 (y_revives y) @ [y_nodes_dead y] @ wr_u32 (y_pace_us y) @ wr_u32 (y_fb_frames y) @ wr_u32 (y_fb_drops y)
         @ wr_u32 (y_corr_relayed y) @ wr_u32 (g_corr_full s) @ wr_u32 (y_rebuilds y) @ [g_uplink_mode (b_up m), g_n_ap (b_up m)]
         @ wr_u32 (g_bus_msgs p) @ wr_u32 (h_tx_msgs (b_hl m)) @ wr_u32 (h_rx_msgs (b_hl m))
         @ wr_u32 (g_miss_silent p) @ wr_u32 (g_miss_partial p))"

text \<open>The injection loop: \<open>cnt - i\<close> copies are left.\<close>

fun inject :: "nat \<Rightarrow> u8 \<Rightarrow> u8 \<Rightarrow> u8 list \<Rightarrow> u8 \<Rightarrow> plane \<Rightarrow> u8 \<times> plane" where
  "inject 0 i addr pl sent s = (sent, s)"
| "inject (Suc n) i addr pl sent s = (case bus_msg_send addr pl (0xDEAD0000 OR ucast i) s of (ok, s') \<Rightarrow>
     if ok then inject n (i + 1) addr pl (sent + 1) s' else (sent, s'))"

definition cmd_msg_inject :: "u8 list \<Rightarrow> master \<Rightarrow> u8 \<times> master" where
  "cmd_msg_inject args m =
     (if length args \<ge> 2 then
        (case inject (unat (args ! 1)) 0 (args ! 0) (drop 2 args) 0 (b_plane m) of (sent, s) \<Rightarrow> (sent, m\<lparr>b_plane := s\<rparr>))
      else (0, m))"

definition cmd_pp_read :: "master \<Rightarrow> u8 list" where
  "cmd_pp_read m = wr_u32 (g_pp_master (b_pp m)) @ wr_u32 (g_pp_slave_seen (b_pp m)) @ wr_u32 (g_pp_slave (b_pp m))"

definition cmd_set_poll :: "u8 list \<Rightarrow> master \<Rightarrow> master" where
  "cmd_set_poll args m = (if length args \<ge> 4
     then m\<lparr>b_poll := (b_poll m)\<lparr>g_poll_period_ms := le16 (args ! 0) (args ! 1), g_poll_max_misses := args ! 2, g_poll_tcp_retries := args ! 3\<rparr>\<rparr> else m)"

definition cmd_set_deadline :: "u8 list \<Rightarrow> master \<Rightarrow> master" where
  "cmd_set_deadline args m =
     (let y = (if length args \<ge> 4 then (b_cyc m)\<lparr>y_deadline_us := le32 (args ! 0) (args ! 1) (args ! 2) (args ! 3)\<rparr> else b_cyc m)
      in m\<lparr>b_cyc := y\<lparr>y_overruns := 0, y_minslack := 0x7FFFFFFF\<rparr>\<rparr>)"

definition cmd_set_pace :: "u8 list \<Rightarrow> master \<Rightarrow> master" where
  "cmd_set_pace args m =
     (let y = (if length args \<ge> 4 then (b_cyc m)\<lparr>y_pace_us := le32 (args ! 0) (args ! 1) (args ! 2) (args ! 3)\<rparr> else b_cyc m);
          y = (if length args \<ge> 8 then y\<lparr>y_slowpoll_div := le32 (args ! 4) (args ! 5) (args ! 6) (args ! 7)\<rparr> else y)
      in m\<lparr>b_cyc := y\<rparr>)"

definition cmd_uplink_force :: "u32 \<Rightarrow> u8 list \<Rightarrow> master \<Rightarrow> master" where
  "cmd_uplink_force now args m =
     (let fm = (if length args \<ge> 1 then args ! 0 else 0xFF);
          dur = (if length args \<ge> 5 then le32 (args ! 1) (args ! 2) (args ! 3) (args ! 4) else 0)
      in m\<lparr>b_up := (b_up m)\<lparr>g_uplink_force_until := now + dur, g_uplink_force := fm\<rparr>\<rparr>)"

definition cmd_pp_start :: "u8 list \<Rightarrow> master \<Rightarrow> master" where
  "cmd_pp_start args m =
     (let p = (if length args \<ge> 1 then (b_pp m)\<lparr>g_pp_addr := args ! 0\<rparr> else b_pp m)
      in pp_kick (m\<lparr>b_pp := p\<lparr>g_pp_master := 0, g_pp_slave_seen := 0, g_pp_kicks := 0, g_pp_run := True\<rparr>\<rparr>))"

text \<open>A command that is not the controller's own goes to the dispatcher it shares with the slaves.\<close>

definition shell_default :: "dev \<Rightarrow> u16 \<Rightarrow> u16 \<Rightarrow> u8 list \<Rightarrow> master \<Rightarrow> master option" where
  "shell_default d req_id cmd args m =
     (case node_cmd_dispatch d cmd args 64 \<lparr>rs_kind = SINK_USB, rs_dest = 0, rs_req_id = req_id\<rparr> (b_nd m) of
        None \<Rightarrow> None
      | Some (st, out, n) \<Rightarrow>
          (let m' = m\<lparr>b_nd := n\<rparr> in
           if st = SHELL_ASYNC then Some m'
           else if st \<noteq> CMD_NOT_MINE then Some (shell_reply req_id st out m')
           else Some (shell_reply req_id SHELL_UNKNOWN_CMD [] m')))"

definition on_local_shell :: "dev \<Rightarrow> u32 \<Rightarrow> u16 \<Rightarrow> u16 \<Rightarrow> u8 list \<Rightarrow> master \<Rightarrow> master option" where
  "on_local_shell d now req_id cmd args m =
     (let ok = (\<lambda>r m. Some (shell_reply req_id SHELL_OK r m)) in
      if cmd = CMD_ECHO then ok args m
      else if cmd = CMD_BUS_CLEAR_ROSTER then ok [] (cmd_clear_roster m)
      else if cmd = CMD_BUS_REGISTER_SLAVE then ok [0] (cmd_register_slave args m)
      else if cmd = CMD_BUS_SET_POLL then ok [] (cmd_set_poll args m)
      else if cmd = CMD_BUS_LIST_SLAVES then ok (cmd_list_slaves now m) m
      else if cmd = CMD_BUS_POLL_ENABLE then
        ok [] (if length args \<ge> 1 then m\<lparr>b_poll := (b_poll m)\<lparr>g_poll_enabled := args ! 0\<rparr>\<rparr> else m)
      else if cmd = CMD_BUS_POLL_STATS then ok (cmd_poll_stats m) m
      else if cmd = CMD_BUS_MEASURE_TA then ok [] (m\<lparr>b_poll := (b_poll m)\<lparr>g_meas_ta_us := g_last_ta_us (b_poll m)\<rparr>\<rparr>)
      else if cmd = CMD_BUS_CYCLE_MODE then
        ok [] (if length args \<ge> 1 then m\<lparr>b_cyc := (b_cyc m)\<lparr>y_mode := (if args ! 0 \<noteq> 0 then 1 else 0), y_min := 0, y_max := 0\<rparr>\<rparr> else m)
      else if cmd = CMD_BUS_MSG_INJECT then (case cmd_msg_inject args m of (sent, m') \<Rightarrow> ok [sent] m')
      else if cmd = CMD_BUS_SET_DEADLINE then ok [] (cmd_set_deadline args m)
      else if cmd = CMD_BUS_SET_PACE then ok [] (cmd_set_pace args m)
      else if cmd = CMD_BUS_UPLINK_FORCE then ok [] (cmd_uplink_force now args m)
      else if cmd = CMD_APP_PP_START then ok [] (cmd_pp_start args m)
      else if cmd = CMD_APP_PP_STOP then ok [] (m\<lparr>b_pp := (b_pp m)\<lparr>g_pp_run := False\<rparr>\<rparr>)
      else if cmd = CMD_APP_PP_READ then ok (cmd_pp_read m) m
      else shell_default d req_id cmd args m)"

section \<open>The poll slot\<close>

text \<open>The relay of a correlated reply \<open>[wire req][status][..]\<close> to the requester.\<close>

definition relay_orig :: "u16 \<Rightarrow> u8 list \<Rightarrow> master \<Rightarrow> master" where
  "relay_orig host_req rb m =
     (let n = length rb;
          m1 = (if n \<ge> 7 then m\<lparr>b_pp := (b_pp m)\<lparr>g_pp_slave_seen := le32 (rb ! (n - 4)) (rb ! (n - 3)) (rb ! (n - 2)) (rb ! (n - 1))\<rparr>\<rparr> else m);
          rb1 = (if n \<ge> 7 then take (n - 4) rb else rb)
      in if g_pp_run (b_pp m1) then m1
         else m1\<lparr>b_hl := snd (host_link_s2m BUS_ADDR_APPCORE Host_Link.OP_SHELL_REPLY
                (if length rb1 \<ge> 2 then [lo8 host_req, hi8 host_req] @ drop 2 rb1 else rb1) (b_hl m1))\<rparr>)"

definition batch_feedback :: "u8 \<Rightarrow> u8 list \<Rightarrow> cycle_st \<Rightarrow> cycle_st" where
  "batch_feedback addr rb y =
     (if 1 + length (y_fb y) + 2 + length rb \<le> BUS_PAYLOAD_MAX
      then y\<lparr>y_fb := y_fb y @ [addr, word_of_nat (length rb)] @ rb, y_fb_rec := y_fb_rec y + 1\<rparr>
      else y\<lparr>y_fb_drops := y_fb_drops y + 1\<rparr>)"

definition frame_data :: "bus_frame \<Rightarrow> u8 list" where
  "frame_data rf = take (unat (f_len rf)) (f_payload rf)"

definition is_shell_reply :: "bus_frame \<Rightarrow> bool" where
  "is_shell_reply rf \<longleftrightarrow> f_type rf AND BUS_FT_MASK = BUS_FT_DATA \<and> 2 \<le> f_len rf \<and>
     f_payload rf ! 0 = lo8 Host_Link.OP_SHELL_REPLY \<and> f_payload rf ! 1 = hi8 Host_Link.OP_SHELL_REPLY"

text \<open>A reply that carries the id of an outstanding command is relayed to its requester; any other is feedback.\<close>

definition corr_match :: "u8 \<Rightarrow> u8 list \<Rightarrow> plane \<Rightarrow> (bool \<times> u16) option \<times> plane" where
  "corr_match addr rb s = (if length rb \<ge> 2 then corr_take (le16 (rb ! 0) (rb ! 1)) addr s else (None, s))"

definition deliver_reply :: "u8 \<Rightarrow> u8 list \<Rightarrow> master \<Rightarrow> master" where
  "deliver_reply addr rb m =
     (case corr_match addr rb (b_plane m) of
        (Some (is_orig, host_req), s) \<Rightarrow>
          (let m = m\<lparr>b_plane := s, b_cyc := (b_cyc m)\<lparr>y_corr_relayed := y_corr_relayed (b_cyc m) + 1\<rparr>\<rparr>
           in if is_orig then relay_orig host_req rb m
              else m\<lparr>b_hl := snd (host_link_s2m addr Host_Link.OP_SHELL_REPLY rb (b_hl m))\<rparr>)
      | (None, s) \<Rightarrow>
          (let m = m\<lparr>b_plane := s\<rparr>
           in if y_collecting (b_cyc m) then m\<lparr>b_cyc := batch_feedback addr rb (b_cyc m)\<rparr>
              else m\<lparr>b_hl := snd (host_link_s2m addr Host_Link.OP_SHELL_REPLY rb (b_hl m))\<rparr>))"

definition handle_slot_frame :: "u8 \<Rightarrow> bus_frame \<Rightarrow> master \<Rightarrow> master" where
  "handle_slot_frame addr rf m =
     (if is_shell_reply rf then deliver_reply addr (drop 2 (frame_data rf)) m
      else if f_type rf AND BUS_FT_MASK = BUS_FT_NO_MESSAGE then
        (case roster_find addr (b_roster m) of
           Some i \<Rightarrow> if 1 \<le> f_len rf then m\<lparr>b_roster := (b_roster m)[i := (b_roster m ! i)\<lparr>sl_summary := f_payload rf ! 0\<rparr>]\<rparr> else m
         | None \<Rightarrow> m)
      else m)"

text \<open>
  What happens on the line during a slot: one record per pass of the drain loop, with the words that wait in the receive
  ring, whether the interrupt has seen a word of this slot (\<open>g_slot_first\<close>), and the time since the POLL when the
  budget is tested.  A list that ends leaves the loop, as spending the budget does.  \<open>se_ta\<close> is the turnaround the
  interrupt measured and \<open>se_end\<close> the time of the final test.
\<close>

record slot_pass =
  sp_words :: "u16 list"
  sp_first :: bool
  sp_elapsed :: u32

record slot_env =
  se_passes :: "slot_pass list"
  se_ta :: u32
  se_end :: u32

datatype slot_result = SLOT_NO_RESPONSE | SLOT_OK | SLOT_BABBLE

fun drain_words :: "u8 \<Rightarrow> u16 list \<Rightarrow> bool \<Rightarrow> master \<Rightarrow> bool \<times> master" where
  "drain_words addr [] from m = (from, m)"
| "drain_words addr (w # ws) from m =
     (case bus_asm_feed (b_bc m) w of
        (None, a) \<Rightarrow> drain_words addr ws from (m\<lparr>b_bc := a\<rparr>)
      | (Some rf, a) \<Rightarrow> if f_src rf = addr then drain_words addr ws True (handle_slot_frame addr rf (m\<lparr>b_bc := a\<rparr>))
                       else drain_words addr ws from (m\<lparr>b_bc := a\<rparr>))"

definition master_rx_hook :: "u32 \<Rightarrow> master \<Rightarrow> master" where
  "master_rx_hook ta m = m\<lparr>b_poll := (b_poll m)\<lparr>g_last_ta_us := (if ta > 0xFFFF then 0xFFFF else ucast ta)\<rparr>\<rparr>"

fun slot_loop :: "u8 \<Rightarrow> u32 \<Rightarrow> slot_pass list \<Rightarrow> bool \<Rightarrow> master \<Rightarrow> bool \<times> bool \<times> master" where
  "slot_loop addr ta [] first m = (first, False, m)"
| "slot_loop addr ta (p # ps) first m =
     (let m1 = (if sp_first p \<and> \<not> first then master_rx_hook ta m else m);
          first1 = (first \<or> sp_first p);
          (from, m2) = drain_words addr (sp_words p) False m1
      in if from \<or> \<not> first1 then (first1, from, m2)
         else if sp_elapsed p \<ge> T_WINDOW_MAX_US then (first1, from, m2)
         else slot_loop addr ta ps first1 m2)"

definition bus_poll_slot :: "u8 \<Rightarrow> slot_env \<Rightarrow> master \<Rightarrow> slot_result \<times> phy_act list \<times> master" where
  "bus_poll_slot addr e m =
     (let (acts, m1) = bus_send addr BUS_FT_POLL [] m;
          (first, from, m2) = slot_loop addr (se_ta e) (se_passes e) False m1
      in if \<not> from then
           (SLOT_NO_RESPONSE, acts,
            m2\<lparr>b_poll := (if first then (b_poll m2)\<lparr>g_miss_partial := g_miss_partial (b_poll m2) + 1\<rparr>
                          else (b_poll m2)\<lparr>g_miss_silent := g_miss_silent (b_poll m2) + 1\<rparr>)\<rparr>)
         else (if se_end e \<ge> T_WINDOW_MAX_US then SLOT_BABBLE else SLOT_OK, acts, m2))"

end
