(* ===== verification/Bus_Run.thy ===== *)
theory Bus_Run
  imports Bus_Master
begin

text \<open>
  The bus thread (\<^verbatim>\<open>src/app/bus_controller/main.c\<close>): one cycle of the cyclic engine \<open>bus_run_cycle\<close>, the
  per-slot state machine it replaced, and one iteration of \<open>bus_control_task\<close>.

  What the cycle does not control is the argument \<open>cycle_env\<close>: the words of every slot, the clock, and the messages the
  producers on both cores attach while the cycle runs (before each list it takes and before each poll).
\<close>

unbundle bit_operations_syntax

section \<open>One cycle\<close>

record cycle_env =
  ce_prod :: "nat \<Rightarrow> (u8 \<times> u8 list \<times> u32) list"
  ce_poll_prod :: "nat \<Rightarrow> (u8 \<times> u8 list \<times> u32) list"
  ce_slot :: "nat \<Rightarrow> slot_env"
  ce_slot_us :: "nat \<Rightarrow> u32"
  ce_now :: "nat \<Rightarrow> u32"
  ce_probe :: "nat \<Rightarrow> slot_env"
  ce_probe_now :: u32
  ce_ex_ms :: u32
  ce_ct :: u32
  ce_over_ms :: u32

definition roster_pairs :: "slave list \<Rightarrow> (u8 \<times> bool) list" where
  "roster_pairs ros = map (\<lambda>s. (sl_addr s, sl_flags s AND FLAG_ENABLED \<noteq> 0)) ros"

definition cycle_rebuild :: "master \<Rightarrow> master" where
  "cycle_rebuild m =
     (if y_dirty (b_cyc m)
      then m\<lparr>b_plane := bus_rebuild (roster_pairs (b_roster m)) (b_plane m),
             b_cyc := (b_cyc m)\<lparr>y_dirty := False, y_rebuilds := y_rebuilds (b_cyc m) + 1\<rparr>\<rparr>
      else m)"

definition cycle_stage_cmd :: "master \<Rightarrow> master" where
  "cycle_stage_cmd m =
     (if c_pending (b_cmd m) then
        (let c = b_cmd m; fr = [lo8 (c_op c), hi8 (c_op c)] @ take (BUS_PAYLOAD_MAX - 2) (c_body c);
             s = snd (corr_add (c_req_id c) (c_slave c) False (c_req_id c) (b_plane m))
         in m\<lparr>b_cmd := c\<lparr>c_pending := False\<rparr>, b_plane := snd (bus_msg_send (c_slave c) fr (0xC1000000 OR ucast (c_req_id c)) s)\<rparr>)
      else m)"

definition producers :: "(u8 \<times> u8 list \<times> u32) list \<Rightarrow> master \<Rightarrow> master" where
  "producers ms m = m\<lparr>b_plane := snd (send_all ms (b_plane m))\<rparr>"

text \<open>The private chain of a node's buffers: sent unless the node is dead, recovered in any case.\<close>

fun send_bufs :: "u8 \<Rightarrow> bool \<Rightarrow> nat list \<Rightarrow> master \<Rightarrow> phy_act list \<times> master" where
  "send_bufs addr dead [] m = ([], m)"
| "send_bufs addr dead (b # bs) m =
     (let (acts, m1) = (if dead then ([], m) else bus_send addr BUS_FT_DATA (tb_payload (g_bufs (b_plane m) ! b)) m);
          (acts', m2) = send_bufs addr dead bs (m1\<lparr>b_plane := pool_recover b (b_plane m1)\<rparr>)
      in (acts @ acts', m2))"

text \<open>The message pass over the given nodes; the second result are the marked ones.\<close>

fun msg_pass :: "cycle_env \<Rightarrow> nat list \<Rightarrow> master \<Rightarrow> phy_act list \<times> nat list \<times> master" where
  "msg_pass e [] m = ([], [], m)"
| "msg_pass e (i # is) m =
     (let m0 = producers (ce_prod e i) m;
          (bs, s) = take_list i (b_plane m0);
          n = g_nodes s ! i;
          (acts, m1) = send_bufs (bn_addr n) (bn_dead n) bs (m0\<lparr>b_plane := s\<rparr>);
          (acts', marked, m2) = msg_pass e is m1
      in (acts @ acts', (if bs \<noteq> [] \<and> \<not> bn_dead n then [i] else []) @ marked, m2))"

definition set_node :: "nat \<Rightarrow> bus_node \<Rightarrow> master \<Rightarrow> master" where
  "set_node i n m = m\<lparr>b_plane := (b_plane m)\<lparr>g_nodes := (g_nodes (b_plane m))[i := n]\<rparr>\<rparr>"

definition sweep_miss :: "nat \<Rightarrow> master \<Rightarrow> master" where
  "sweep_miss i m =
     (let n = g_nodes (b_plane m) ! i; mm = g_poll_max_misses (b_poll m);
          n' = (if bn_miss n < 0xFF then n\<lparr>bn_miss := bn_miss n + 1, bn_dead := (if bn_miss n + 1 \<ge> mm then True else bn_dead n)\<rparr> else n)
      in set_node i n' (m\<lparr>b_poll := (b_poll m)\<lparr>g_poll_total := g_poll_total (b_poll m) + 1, g_poll_miss := g_poll_miss (b_poll m) + 1\<rparr>,
                         b_roster := mark_miss mm (bn_addr n) (b_roster m)\<rparr>))"

definition sweep_alive :: "nat \<Rightarrow> u32 \<Rightarrow> master \<Rightarrow> master" where
  "sweep_alive i now m =
     (let n = g_nodes (b_plane m) ! i
      in set_node i (n\<lparr>bn_miss := 0\<rparr>)
           (m\<lparr>b_poll := (b_poll m)\<lparr>g_poll_total := g_poll_total (b_poll m) + 1, g_poll_alive := g_poll_alive (b_poll m) + 1,
                g_meas_ta_us := g_last_ta_us (b_poll m)\<rparr>,
              b_roster := mark_alive (bn_addr n) now (b_roster m)\<rparr>))"

text \<open>The sweep keeps the slowest slot so far, as a pair of its time and its node.\<close>

fun sweep :: "cycle_env \<Rightarrow> nat list \<Rightarrow> nat list \<Rightarrow> u32 \<times> u8 \<Rightarrow> master \<Rightarrow> phy_act list \<times> (u32 \<times> u8) \<times> master" where
  "sweep e marked [] slow m = ([], slow, m)"
| "sweep e marked (i # is) slow m =
     (let m0 = producers (ce_poll_prod e i) m; n = g_nodes (b_plane m0) ! i in
      if bn_dead n \<or> i \<in> set marked then sweep e marked is slow m0
      else (let (sr, acts, m1) = bus_poll_slot (bn_addr n) (ce_slot e i) m0;
                slow' = (if ce_slot_us e i > fst slow then (ce_slot_us e i, bn_addr n) else slow);
                m2 = (if sr = SLOT_NO_RESPONSE then sweep_miss i m1 else sweep_alive i (ce_now e i) m1);
                (acts', slow'', m3) = sweep e marked is slow' m2
            in (acts @ acts', slow'', m3)))"

text \<open>The dead node to probe: the first from the cursor, round robin.\<close>

definition dead_candidate :: "master \<Rightarrow> nat option" where
  "dead_candidate m = (let ns = g_nodes (b_plane m)
     in find (\<lambda>i. bn_dead (ns ! i)) (map (\<lambda>k. (unat (y_dead_cursor (b_cyc m)) + k) mod length ns) [0..<length ns]))"

definition probe_result :: "nat \<Rightarrow> slot_result \<Rightarrow> u32 \<Rightarrow> master \<Rightarrow> master" where
  "probe_result i sr now m =
     (let n = g_nodes (b_plane m) ! i; p = (b_poll m)\<lparr>g_poll_total := g_poll_total (b_poll m) + 1\<rparr>
      in if sr \<noteq> SLOT_NO_RESPONSE
         then set_node i (n\<lparr>bn_dead := False, bn_miss := 0\<rparr>)
           (m\<lparr>b_poll := p\<lparr>g_poll_alive := g_poll_alive p + 1\<rparr>, b_roster := mark_alive (bn_addr n) now (b_roster m),
              b_cyc := (b_cyc m)\<lparr>y_revives := y_revives (b_cyc m) + 1\<rparr>\<rparr>)
         else m\<lparr>b_poll := p\<lparr>g_poll_miss := g_poll_miss p + 1\<rparr>\<rparr>)"

definition dead_probe :: "cycle_env \<Rightarrow> master \<Rightarrow> phy_act list \<times> master" where
  "dead_probe e m =
     (let y = b_cyc m; t = y_dead_tick y + 1 in
      if y_slowpoll_div y = 0 then ([], m)
      else if t < y_slowpoll_div y then ([], m\<lparr>b_cyc := y\<lparr>y_dead_tick := t\<rparr>\<rparr>)
      else (let m1 = m\<lparr>b_cyc := y\<lparr>y_dead_tick := 0\<rparr>\<rparr> in
        case dead_candidate m1 of
          None \<Rightarrow> ([], m1)
        | Some i \<Rightarrow>
            (let nn = length (g_nodes (b_plane m1));
                 m2 = m1\<lparr>b_cyc := (b_cyc m1)\<lparr>y_dead_cursor := word_of_nat ((i + 1) mod nn)\<rparr>\<rparr>;
                 (sr, acts, m3) = bus_poll_slot (bn_addr (g_nodes (b_plane m2) ! i)) (ce_probe e i) m2
             in (acts, probe_result i sr (ce_probe_now e) m3))))"

definition dead_count :: "plane \<Rightarrow> u8" where
  "dead_count s = word_of_nat (length (filter bn_dead (g_nodes s)))"

definition publish_dead :: "master \<Rightarrow> master" where
  "publish_dead m = m\<lparr>b_cyc := (b_cyc m)\<lparr>y_nodes_dead := dead_count (b_plane m), g_il_nodes_dead := dead_count (b_plane m)\<rparr>\<rparr>"

fun dec_nat :: "nat \<Rightarrow> u8 list" where
  "dec_nat n = (if n < 10 then [0x30 + word_of_nat n] else dec_nat (n div 10) @ [0x30 + word_of_nat (n mod 10)])"

declare dec_nat.simps [simp del]

definition hex_digit :: "u8 \<Rightarrow> u8" where
  "hex_digit d = (if d < 10 then 0x30 + d else 0x41 + (d - 10))"

definition hex2 :: "u8 \<Rightarrow> u8 list" where
  "hex2 b = [hex_digit (drop_bit 4 b), hex_digit (b AND 0xF)]"

definition ascii :: "string \<Rightarrow> u8 list" where
  "ascii t = map of_char t"

definition exhausted_text :: "u32 \<Rightarrow> u16 \<Rightarrow> u8 list" where
  "exhausted_text ex low = take 47 (ascii ''[pool-exhausted] n='' @ dec_nat (unat ex) @ ascii '' low='' @ dec_nat (unat low))"

definition notify_exhausted :: "cycle_env \<Rightarrow> master \<Rightarrow> master" where
  "notify_exhausted e m =
     (let y = b_cyc m; ex = g_pool_exhausted (b_plane m) in
      if g_uplink_active (b_up m) \<and> ex \<noteq> y_seen_ex y \<and> ce_ex_ms e - y_last_ex_ms y \<ge> 100
      then m\<lparr>b_cyc := y\<lparr>y_last_ex_ms := ce_ex_ms e, y_seen_ex := ex\<rparr>,
             b_hl := snd (host_link_s2m 1 OP_DBG_LOG (exhausted_text ex (g_pool_low (b_plane m))) (b_hl m))\<rparr>
      else m)"

definition overrun_text :: "u32 \<Rightarrow> u32 \<Rightarrow> u8 \<Rightarrow> u32 \<Rightarrow> u8 list" where
  "overrun_text ct dl sa su = take 63 (ascii ''[overrun] cycle='' @ dec_nat (unat ct) @ ascii ''us deadline='' @ dec_nat (unat dl)
     @ ascii ''us slow=0x'' @ hex2 sa @ ascii ''/'' @ dec_nat (unat su) @ ascii ''us'')"

definition cycle_stats :: "cycle_env \<Rightarrow> u32 \<times> u8 \<Rightarrow> master \<Rightarrow> master" where
  "cycle_stats e slow m =
     (let ct = ce_ct e; y = b_cyc m; slack = y_deadline_us y - ct;
          y = y\<lparr>y_last := ct, y_max := (if ct > y_max y then ct else y_max y), y_min := (if y_min y = 0 \<or> ct < y_min y then ct else y_min y),
                y_slow_addr := snd slow, y_slow_us := fst slow, y_minslack := (if sint slack < sint (y_minslack y) then slack else y_minslack y)\<rparr>
      in if ct > y_deadline_us y then
           (let y = y\<lparr>y_overruns := y_overruns y + 1\<rparr> in
            if g_uplink_active (b_up m) \<and> ce_over_ms e - y_last_notify_ms y \<ge> 100
            then m\<lparr>b_cyc := y\<lparr>y_last_notify_ms := ce_over_ms e\<rparr>,
                   b_hl := snd (host_link_s2m 1 OP_DBG_LOG (overrun_text ct (y_deadline_us y) (snd slow) (fst slow)) (b_hl m))\<rparr>
            else m\<lparr>b_cyc := y\<rparr>)
         else m\<lparr>b_cyc := y\<rparr>)"

definition emit_feedback :: "master \<Rightarrow> master" where
  "emit_feedback m =
     (let y = (b_cyc m)\<lparr>y_collecting := False\<rparr> in
      if g_uplink_active (b_up m) \<and> y_fb_rec y > 0
      then m\<lparr>b_hl := snd (host_link_s2m 1 OP_BUS_FEEDBACK (y_fb_rec y # y_fb y) (b_hl m)), b_cyc := y\<lparr>y_fb_frames := y_fb_frames y + 1\<rparr>\<rparr>
      else m\<lparr>b_cyc := y\<rparr>)"

definition cycle_open :: "master \<Rightarrow> master" where
  "cycle_open m = (let m = cycle_stage_cmd (cycle_rebuild m)
     in m\<lparr>b_plane := bus_pingpong_swap (b_plane m), b_cyc := (b_cyc m)\<lparr>y_fb := [], y_fb_rec := 0, y_collecting := True\<rparr>\<rparr>)"

definition cycle_close :: "cycle_env \<Rightarrow> u32 \<times> u8 \<Rightarrow> master \<Rightarrow> master" where
  "cycle_close e slow m =
     (let m = cycle_stats e slow (notify_exhausted e (publish_dead m));
          m = (if g_pp_run (b_pp m) \<and> g_pp_kicks (b_pp m) = g_pp_master (b_pp m) then pp_kick m else m)
      in emit_feedback m)"

definition bus_run_cycle :: "cycle_env \<Rightarrow> master \<Rightarrow> phy_act list \<times> master" where
  "bus_run_cycle e m =
     (let m0 = cycle_open m;
          is = [0..<length (g_nodes (b_plane m0))];
          (acts1, marked, m1) = msg_pass e is m0;
          (acts2, slow, m2) = sweep e marked is (0, 0) m1;
          (acts3, m3) = dead_probe e m2
      in (acts1 @ acts2 @ acts3, cycle_close e slow m3))"

section \<open>The per-slot state machine\<close>

definition CMD_COLLECT_TRIES :: u8 where "CMD_COLLECT_TRIES = 15"
definition BUS_FT_NAK :: u8 where "BUS_FT_NAK = 0x04"

datatype bus_state = BS_SWEEP | BS_CMD_INJECT | BS_CMD_COLLECT

record ctl =
  t_state :: bus_state
  t_collect_slave :: u8
  t_collect_tries :: u8
  t_collect_is_orig :: bool
  t_collect_host :: u16

text \<open>What one iteration hears: the words of a \<open>bus_recv\<close> before it times out, or the slot of the sweep.\<close>

record iter_env =
  it_now :: u32
  it_words :: "u16 list"
  it_slot :: slot_env
  it_seen_ms :: u32
  it_cycle :: cycle_env

fun bus_recv :: "u16 list \<Rightarrow> master \<Rightarrow> bus_frame option \<times> master" where
  "bus_recv [] m = (None, m)"
| "bus_recv (w # ws) m = (case bus_asm_feed (b_bc m) w of
     (None, a) \<Rightarrow> bus_recv ws (m\<lparr>b_bc := a\<rparr>) | (Some rf, a) \<Rightarrow> (Some rf, m\<lparr>b_bc := a\<rparr>))"

definition promote_orig :: "master \<Rightarrow> master" where
  "promote_orig m = (if c_pending (b_cmd m) then m else case b_orig_q m of [] \<Rightarrow> m
     | r # q \<Rightarrow> (let c = b_cmd m; sr = c_orig_seq c + 1; sr = (if sr = 0 then sr + 1 else sr)
         in m\<lparr>b_orig_q := q, b_cmd := c\<lparr>c_orig_seq := sr, c_slave := or_addr r, c_op := Host_Link.OP_SHELL_EXEC,
                c_body := [lo8 sr, hi8 sr, lo8 CMD_APP_ECHO, hi8 CMD_APP_ECHO] @ take (BUS_PAYLOAD_MAX - 4) (or_bytes r),
                c_req_id := sr, c_is_orig := True, c_host_req := or_host_req_id r, c_pending := True\<rparr>\<rparr>))"

definition inject_step :: "iter_env \<Rightarrow> ctl \<Rightarrow> master \<Rightarrow> phy_act list \<times> ctl \<times> master" where
  "inject_step e t m =
     (let c = b_cmd m; p = [lo8 (c_op c), hi8 (c_op c)] @ take (BUS_PAYLOAD_MAX - 2) (c_body c);
          (acts, m1) = bus_send (c_slave c) BUS_FT_DATA p m;
          (got, m2) = bus_recv (it_words e) m1;
          m3 = (case got of
                  None \<Rightarrow> m2
                | Some rf \<Rightarrow>
                    if f_src rf \<noteq> c_slave c then m2
                    else (let m2 = m2\<lparr>b_roster := mark_alive (c_slave c) (it_now e) (b_roster m2)\<rparr>;
                              cls = f_type rf AND BUS_FT_MASK
                          in if \<not> c_is_orig c \<and> (cls = BUS_FT_ACK \<or> cls = BUS_FT_NAK)
                             then m2\<lparr>b_hl := snd (host_link_s2m (c_slave c) (if cls = BUS_FT_NAK then OP_BUS_CMD_NAK else OP_BUS_CMD_ACK)
                                    [c_slave c, lo8 (c_req_id c), hi8 (c_req_id c)] (b_hl m2))\<rparr>
                             else m2))
      in (acts, t\<lparr>t_state := BS_CMD_COLLECT, t_collect_slave := c_slave c, t_collect_tries := CMD_COLLECT_TRIES,
                  t_collect_is_orig := c_is_orig c, t_collect_host := c_host_req c\<rparr>,
          m3\<lparr>b_cmd := (b_cmd m3)\<lparr>c_pending := False\<rparr>\<rparr>))"

definition try_again :: "ctl \<Rightarrow> ctl" where
  "try_again t = (let k = t_collect_tries t - 1 in t\<lparr>t_collect_tries := k, t_state := (if k = 0 then BS_SWEEP else t_state t)\<rparr>)"

definition collect_frame :: "bus_frame \<Rightarrow> ctl \<Rightarrow> master \<Rightarrow> ctl \<times> master" where
  "collect_frame rf t m =
     (if is_shell_reply rf then
        (t\<lparr>t_state := BS_SWEEP, t_collect_is_orig := False\<rparr>,
         (if t_collect_is_orig t then relay_orig (t_collect_host t) (drop 2 (frame_data rf)) m
          else m\<lparr>b_hl := snd (host_link_s2m (t_collect_slave t) Host_Link.OP_SHELL_REPLY (drop 2 (frame_data rf)) (b_hl m))\<rparr>))
      else if f_type rf AND BUS_FT_MASK = BUS_FT_NO_MESSAGE then
        (try_again t,
         (case roster_find (t_collect_slave t) (b_roster m) of
            Some i \<Rightarrow> if 1 \<le> f_len rf then m\<lparr>b_roster := (b_roster m)[i := (b_roster m ! i)\<lparr>sl_summary := f_payload rf ! 0\<rparr>]\<rparr> else m
          | None \<Rightarrow> m))
      else (try_again t, m))"

definition collect_step :: "iter_env \<Rightarrow> ctl \<Rightarrow> master \<Rightarrow> phy_act list \<times> ctl \<times> master" where
  "collect_step e t m =
     (let pp_round = (t_collect_is_orig t \<and> g_pp_run (b_pp m));
          (acts, m1) = bus_send (t_collect_slave t) BUS_FT_POLL [] m;
          (got, m2) = bus_recv (it_words e) m1;
          (t', m3) = (case got of
             Some rf \<Rightarrow> if f_src rf = t_collect_slave t
                then collect_frame rf t (m2\<lparr>b_roster := mark_alive (t_collect_slave t) (it_now e) (b_roster m2)\<rparr>)
                else (try_again t, m2)
           | None \<Rightarrow> (try_again t, m2))
      in (acts, t', if pp_round \<and> t_state t' = BS_SWEEP then pp_kick m3 else m3))"

definition sweep_step :: "iter_env \<Rightarrow> master \<Rightarrow> phy_act list \<times> master" where
  "sweep_step e m =
     (let (addr, m1) = (if g_poll_enabled (b_poll m) \<noteq> 0 then next_enabled_addr m else (0xFF, m)) in
      if addr = 0xFF then ([], m1)
      else (let (sr, acts, m2) = bus_poll_slot addr (it_slot e) m1;
                p = (b_poll m2)\<lparr>g_poll_total := g_poll_total (b_poll m2) + 1\<rparr>
            in (acts,
                if sr = SLOT_NO_RESPONSE
                then m2\<lparr>b_poll := p\<lparr>g_poll_miss := g_poll_miss p + 1\<rparr>, b_roster := mark_miss (g_poll_max_misses p) addr (b_roster m2)\<rparr>
                else m2\<lparr>b_poll := p\<lparr>g_poll_alive := g_poll_alive p + 1, g_meas_ta_us := g_last_ta_us p\<rparr>,
                        b_roster := mark_alive addr (it_seen_ms e) (b_roster m2)\<rparr>)))"

text \<open>One iteration of the bus thread, in the mode the host has chosen.\<close>

definition bus_control_step :: "iter_env \<Rightarrow> ctl \<Rightarrow> master \<Rightarrow> phy_act list \<times> ctl \<times> master" where
  "bus_control_step e t m =
     (if b_identity_refused m then ([], t, m)
      else if y_mode (b_cyc m) \<noteq> 0 then (case bus_run_cycle (it_cycle e) m of (acts, m') \<Rightarrow> (acts, t, emit_liveness_edges m'))
      else (let m1 = (if t_state t = BS_SWEEP then promote_orig m else m);
                t1 = (if t_state t = BS_SWEEP \<and> c_pending (b_cmd m1) then t\<lparr>t_state := BS_CMD_INJECT\<rparr> else t);
                (acts, t2, m2) = (case t_state t1 of
                    BS_CMD_INJECT \<Rightarrow> inject_step e t1 m1
                  | BS_CMD_COLLECT \<Rightarrow> collect_step e t1 m1
                  | BS_SWEEP \<Rightarrow> (case sweep_step e m1 of (acts, m') \<Rightarrow> (acts, t1, m')))
            in (acts, t2, emit_liveness_edges m2)))"

section \<open>Long messages never reach the host\<close>

lemma s2m_too_long:
  "COMM_PAYLOAD_MAX < length p \<Longrightarrow> length p < 256 \<Longrightarrow> host_link_s2m addr op p h = (-1, h)"
  by (simp add: host_link_s2m_def emit_s2m_def frame_encode_s2m_def frame_encode_common_def unat_of_nat)

text \<open>
  A feedback batch of more than 128 bytes is lost as a whole: the batch buffer holds 240 bytes, but a frame of the
  host link carries at most 128, so the send fails; the link is unchanged and the frame is counted as emitted.
\<close>

theorem feedback_batch_lost:
  assumes "COMM_PAYLOAD_MAX \<le> length (y_fb (b_cyc m))" "length (y_fb (b_cyc m)) < BUS_PAYLOAD_MAX" "g_uplink_active (b_up m)" "0 < y_fb_rec (b_cyc m)"
  shows "b_hl (emit_feedback m) = b_hl m \<and> y_fb_frames (b_cyc (emit_feedback m)) = y_fb_frames (b_cyc m) + 1
    \<and> y_fb_drops (b_cyc (emit_feedback m)) = y_fb_drops (b_cyc m)"
  using assms s2m_too_long [of "y_fb_rec (b_cyc m) # y_fb (b_cyc m)"]
  by (simp add: emit_feedback_def Let_def BUS_PAYLOAD_MAX_def)

section \<open>Every liveness edge is reported\<close>

definition state_edge :: "slave \<Rightarrow> bool" where
  "state_edge s \<longleftrightarrow> sl_state s \<noteq> sl_announced_state s \<and> (sl_state s = ST_DEAD \<or> sl_state s = ST_ALIVE \<and> sl_announced_state s = ST_DEAD)"

definition pending_edges :: "slave list \<Rightarrow> nat" where
  "pending_edges ros = (\<Sum>s\<leftarrow>ros. (if state_edge s then 1 else 0) + (if sl_summary s \<noteq> sl_announced_summary s then 1 else 0))"

definition edge_msg :: "slave \<Rightarrow> u16 \<times> u8 list" where
  "edge_msg s = (if state_edge s
     then (if sl_state s = ST_DEAD then (OP_BUS_SLAVE_DOWN, [sl_addr s]) else (OP_BUS_SLAVE_UP, sl_addr s # wr_u32 (sl_class_id s)))
     else (OP_BUS_SLAVE_FLAGGED, [sl_addr s, sl_summary s]))"

text \<open>The scan reports the first pending edge, and only that one.\<close>

lemma scan_spec:
  "liveness_scan ros h = (ros', h') \<Longrightarrow>
   (if pending_edges ros = 0 then h' = h \<and> pending_edges ros' = 0
    else \<exists>s \<in> set ros. (state_edge s \<or> sl_summary s \<noteq> sl_announced_summary s)
      \<and> (case host_link_s2m (sl_addr s) (fst (edge_msg s)) (snd (edge_msg s)) h of (rc, h1) \<Rightarrow>
          h' = h1 \<and> pending_edges ros' = (if rc = 0 then pending_edges ros - 1 else pending_edges ros)))"
proof (induction ros arbitrary: ros')
  case (Cons s ss)
  show ?case
  proof (cases "state_edge s \<or> sl_summary s \<noteq> sl_announced_summary s")
    case True
    then have "case host_link_s2m (sl_addr s) (fst (edge_msg s)) (snd (edge_msg s)) h of (rc, h1) \<Rightarrow>
          h' = h1 \<and> pending_edges ros' = (if rc = 0 then pending_edges (s # ss) - 1 else pending_edges (s # ss))"
      using Cons.prems by (auto simp: state_edge_def edge_msg_def pending_edges_def Let_def st_defs split: if_splits prod.splits)
    moreover have "pending_edges (s # ss) \<noteq> 0" using True by (auto simp: pending_edges_def)
    ultimately show ?thesis using True by (auto split: prod.splits)
  next
    case False
    then obtain ss' where ss: "liveness_scan ss h = (ss', h')" "ros' = s\<lparr>sl_announced_state := sl_state s\<rparr> # ss'"
      using Cons.prems by (auto simp: state_edge_def Let_def st_defs split: if_splits prod.splits)
    have "pending_edges (s # ss) = pending_edges ss" "pending_edges ros' = pending_edges ss'"
      using False ss(2) by (simp_all add: pending_edges_def state_edge_def)
    then show ?thesis using Cons.IH [OF ss(1)] by (auto split: if_splits)
  qed
qed (simp add: pending_edges_def)

lemma edge_msg_short: "length (snd (edge_msg s)) \<le> 5"
  by (simp add: edge_msg_def wr_u32_def)

text \<open>
  C7. Deferred, never dropped: as long as some node has died, come back or changed its summary since the host was told,
  every call of \<open>emit_liveness_edges\<close> that finds 28 free bytes in the transmit ring appends exactly the frame of one such
  edge and leaves one edge less; without room nothing is forgotten; with nothing to report nothing is sent.
\<close>

theorem liveness_edges_reported:
  assumes "link_inv (b_hl m)"
  shows "if pending_edges (b_roster m) = 0
    then b_hl (emit_liveness_edges m) = b_hl m \<and> pending_edges (b_roster (emit_liveness_edges m)) = 0
    else \<exists>s \<in> set (b_roster m). (state_edge s \<or> sl_summary s \<noteq> sl_announced_summary s) \<and>
      (if length (s2m_frame (sl_addr s) (fst (edge_msg s)) (snd (edge_msg s)) (h_seq (b_hl m))) \<le> room (h_tx (b_hl m))
       then ring_items (h_tx (b_hl (emit_liveness_edges m)))
              = ring_items (h_tx (b_hl m)) @ s2m_frame (sl_addr s) (fst (edge_msg s)) (snd (edge_msg s)) (h_seq (b_hl m))
            \<and> pending_edges (b_roster (emit_liveness_edges m)) = pending_edges (b_roster m) - 1
       else room (h_tx (b_hl m)) < 28 \<and> ring_items (h_tx (b_hl (emit_liveness_edges m))) = ring_items (h_tx (b_hl m))
            \<and> pending_edges (b_roster (emit_liveness_edges m)) = pending_edges (b_roster m))"
proof -
  obtain ros h where sc: "liveness_scan (b_roster m) (b_hl m) = (ros, h)" by fastforce
  have m': "b_hl (emit_liveness_edges m) = h" "b_roster (emit_liveness_edges m) = ros" by (simp_all add: emit_liveness_edges_def sc)
  show ?thesis
  proof (cases "pending_edges (b_roster m) = 0")
    case True
    then show ?thesis using scan_spec [OF sc] by (simp add: m')
  next
    case False
    obtain s where s: "s \<in> set (b_roster m)" "state_edge s \<or> sl_summary s \<noteq> sl_announced_summary s"
      "case host_link_s2m (sl_addr s) (fst (edge_msg s)) (snd (edge_msg s)) (b_hl m) of (rc, h1) \<Rightarrow>
          h = h1 \<and> pending_edges ros = (if rc = 0 then pending_edges (b_roster m) - 1 else pending_edges (b_roster m))"
      using scan_spec [OF sc] False by auto
    let ?f = "s2m_frame (sl_addr s) (fst (edge_msg s)) (snd (edge_msg s)) (h_seq (b_hl m))"
    have l: "length (snd (edge_msg s)) \<le> COMM_PAYLOAD_MAX" "length ?f \<le> 28"
      using edge_msg_short [of s] s2m_frame_length [of "sl_addr s" "fst (edge_msg s)" "snd (edge_msg s)" "h_seq (b_hl m)"]
      by (simp_all add: COMM_PAYLOAD_MAX_def)
    obtain tx where "length ?f \<le> room (h_tx (b_hl m)) \<Longrightarrow>
       emit_s2m (sl_addr s) (fst (edge_msg s)) (snd (edge_msg s)) (b_hl m)
         = (0, (b_hl m)\<lparr>h_tx := tx, h_seq := h_seq (b_hl m) + 1, h_tx_msgs := h_tx_msgs (b_hl m) + 1\<rparr>) \<and> ring_items tx = ring_items (h_tx (b_hl m)) @ ?f"
      "\<not> length ?f \<le> room (h_tx (b_hl m)) \<Longrightarrow>
       emit_s2m (sl_addr s) (fst (edge_msg s)) (snd (edge_msg s)) (b_hl m) = (-1, (b_hl m)\<lparr>h_tx := tx\<rparr>) \<and> ring_items tx = ring_items (h_tx (b_hl m))"
      by (rule emit_spec [OF assms l(1), of "sl_addr s" "fst (edge_msg s)"]) auto
    then show ?thesis using s False l(2) by (cases "length ?f \<le> room (h_tx (b_hl m))") (auto simp: m' host_link_s2m_def intro!: bexI [of _ s])
  qed
qed

section \<open>What a slot and the passes keep\<close>

text \<open>The part of a node the message plane never touches, and the part of the state the liveness logic reads.\<close>

definition node_view :: "bus_node \<Rightarrow> u8 \<times> bool \<times> u8" where
  "node_view n = (bn_addr n, bn_dead n, bn_miss n)"

definition nodev :: "plane \<Rightarrow> (u8 \<times> bool \<times> u8) list" where
  "nodev s = map node_view (g_nodes s)"

definition cfg_view :: "master \<Rightarrow> u8 \<times> bool" where
  "cfg_view m = (g_poll_max_misses (b_poll m), y_dirty (b_cyc m))"

lemma nodev_nth: "i < length (g_nodes s) \<Longrightarrow> nodev s ! i = node_view (g_nodes s ! i)"
  by (simp add: nodev_def)

lemma nodev_update: "node_view n = node_view (g_nodes s ! i) \<Longrightarrow> map node_view ((g_nodes s)[i := n]) = nodev s"
  by (cases "i < length (g_nodes s)") (simp_all add: nodev_def map_update list_update_beyond list_update_same_conv)

lemma send_nodev [simp]: "nodev (snd (bus_msg_send d p t s)) = nodev s"
proof -
  have "nodev (s'\<lparr>g_bufs := x, g_nodes := (g_nodes s')[i := node_push f b (g_nodes s' ! i)]\<rparr>) = nodev s'" for s' x i f b
    using nodev_update [of "node_push f b (g_nodes s' ! i)" s' i] by (simp add: node_push_def node_view_def nodev_def)
  moreover have "nodev (pool_recover b s') = nodev s'" "nodev (s'\<lparr>g_bufs := x\<rparr>) = nodev s'" "nodev (s'\<lparr>g_pool_exhausted := y\<rparr>) = nodev s'" for b s' x y
    by (simp_all add: pool_recover_def nodev_def)
  moreover have "nodev (snd (pool_grab s)) = nodev s" by (simp add: pool_grab_def Let_def nodev_def split: list.split)
  ultimately show ?thesis by (auto simp: bus_msg_send_def Let_def split: prod.split option.split)
qed

lemma send_all_keeps:
  "nodev (snd (send_all ms s)) = nodev s \<and> (plane_inv N held s \<longrightarrow> plane_inv N held (snd (send_all ms s)))"
proof (induction ms arbitrary: s)
  case (Cons m ms)
  obtain d p t where m: "m = (d, p, t)" by (metis prod_cases3)
  have "snd (send_all (m # ms) s) = snd (send_all ms (snd (bus_msg_send d p t s)))" by (simp add: m split: prod.split)
  then show ?case using Cons.IH [of "snd (bus_msg_send d p t s)"] send_inv [of N held s d p t] by simp
qed simp

lemma send_all_active:
  assumes "plane_inv N held s" "i < length (g_nodes s)"
  shows "g_active_idx (snd (send_all ms s)) = g_active_idx s
    \<and> list_msgs (g_active_idx s) i (snd (send_all ms s)) = list_msgs (g_active_idx s) i s
    \<and> length (g_nodes (snd (send_all ms s))) = length (g_nodes s)"
  using assms
proof (induction ms arbitrary: s)
  case (Cons m ms)
  obtain d p t ok s1 where m: "m = (d, p, t)" "bus_msg_send d p t s = (ok, s1)" by (metis prod_cases3 prod.exhaust)
  note sh = send_shape [OF Cons.prems(1) m(2)]
  have inv: "plane_inv N held s1" using send_inv [OF Cons.prems(1), of d p t] m(2) by simp
  have a: "g_active_idx s < 2" "g_active_idx s \<noteq> fill_idx s" using Cons.prems(1) by (auto simp: plane_inv_def fill_idx_def)
  have len: "length (g_nodes s1) = length (g_nodes s)" using sh map_eq_imp_length_eq by metis
  have "list_msgs (g_active_idx s) i s1 = list_msgs (g_active_idx s) i s"
    using send_msgs [OF Cons.prems a(1) m(2)] a(2) by simp
  moreover have "snd (send_all (m # ms) s) = snd (send_all ms s1)" by (simp add: m split: prod.split)
  ultimately show ?case using Cons.IH [OF inv] sh len Cons.prems(2) by simp
qed simp

lemma corr_keeps:
  "nodev (snd (corr_add r a io h s)) = nodev s" "nodev (snd (corr_take r a s)) = nodev s"
  "g_nodes (snd (corr_add r a io h s)) = g_nodes s" "g_nodes (snd (corr_take r a s)) = g_nodes s"
  by (auto simp: corr_add_def corr_take_def nodev_def split: option.split)

lemma relay_keeps: "b_plane (relay_orig h rb m) = b_plane m" "b_cyc (relay_orig h rb m) = b_cyc m" "b_poll (relay_orig h rb m) = b_poll m"
  "b_up (relay_orig h rb m) = b_up m" "b_cmd (relay_orig h rb m) = b_cmd m"
  "b_identity_refused (relay_orig h rb m) = b_identity_refused m"
  by (simp_all add: relay_orig_def Let_def)

lemma batch_dirty [simp]: "y_dirty (batch_feedback a rb y) = y_dirty y"
  by (simp add: batch_feedback_def)

lemma deliver_keeps:
  "nodev (b_plane (deliver_reply a rb m)) = nodev (b_plane m) \<and> cfg_view (deliver_reply a rb m) = cfg_view m
   \<and> (plane_inv N held (b_plane m) \<longrightarrow> plane_inv N held (b_plane (deliver_reply a rb m)))"
proof -
  obtain hit s where c: "corr_match a rb (b_plane m) = (hit, s)" by fastforce
  have s: "nodev s = nodev (b_plane m)" "plane_inv N held (b_plane m) \<longrightarrow> plane_inv N held s"
    using corr_keeps(2) [of "le16 (rb ! 0) (rb ! 1)" a "b_plane m"] corr_inv(2) [of N held "b_plane m" "le16 (rb ! 0) (rb ! 1)" a] c
    by (auto simp: corr_match_def split: if_splits)
  have "b_plane (deliver_reply a rb m) = s" "cfg_view (deliver_reply a rb m) = cfg_view m"
    by (auto simp: deliver_reply_def c Let_def relay_keeps cfg_view_def split: option.split)
  then show ?thesis using s by simp
qed

lemma frame_keeps:
  "nodev (b_plane (handle_slot_frame a rf m)) = nodev (b_plane m) \<and> cfg_view (handle_slot_frame a rf m) = cfg_view m
   \<and> (plane_inv N held (b_plane m) \<longrightarrow> plane_inv N held (b_plane (handle_slot_frame a rf m)))"
  using deliver_keeps [of a "drop 2 (frame_data rf)" m N held]
  by (auto simp: handle_slot_frame_def cfg_view_def split: option.split)

lemma drain_keeps:
  "drain_words a ws fr m = (fr', m') \<Longrightarrow> nodev (b_plane m') = nodev (b_plane m) \<and> cfg_view m' = cfg_view m
   \<and> (plane_inv N held (b_plane m) \<longrightarrow> plane_inv N held (b_plane m'))"
proof (induction a ws fr m rule: drain_words.induct)
  case (2 a w ws fr m)
  have up: "cfg_view (m\<lparr>b_bc := x\<rparr>) = cfg_view m" for x by (simp add: cfg_view_def)
  obtain r x where f: "bus_asm_feed (b_bc m) w = (r, x)" by fastforce
  show ?case
  proof (cases r)
    case None
    then show ?thesis using 2 f up by simp
  next
    case (Some rf)
    then show ?thesis using "2.IH"(2,3) [OF f [symmetric] Some] "2.prems" f up frame_keeps [of a rf "m\<lparr>b_bc := x\<rparr>" N held]
      by (cases "f_src rf = a") auto
  qed
qed simp

lemma slot_loop_keeps:
  "slot_loop a ta ps first m = (first', fr, m') \<Longrightarrow> nodev (b_plane m') = nodev (b_plane m) \<and> cfg_view m' = cfg_view m
   \<and> (plane_inv N held (b_plane m) \<longrightarrow> plane_inv N held (b_plane m'))"
proof (induction ps arbitrary: first m)
  case (Cons p ps)
  let ?m1 = "if sp_first p \<and> \<not> first then master_rx_hook ta m else m"
  have m1: "b_plane ?m1 = b_plane m" "cfg_view ?m1 = cfg_view m" by (simp_all add: master_rx_hook_def cfg_view_def)
  obtain from1 m2 where d: "drain_words a (sp_words p) False ?m1 = (from1, m2)" by fastforce
  then show ?case using Cons.prems Cons.IH [of "first \<or> sp_first p" m2] drain_keeps [OF d, of N held] m1
    by (auto simp: Let_def split: if_splits)
qed simp

lemma slot_keeps:
  assumes "bus_poll_slot a e m = (sr, acts, m')"
  shows "nodev (b_plane m') = nodev (b_plane m) \<and> cfg_view m' = cfg_view m \<and> (plane_inv N held (b_plane m) \<longrightarrow> plane_inv N held (b_plane m'))"
proof -
  obtain acts1 m1 where s: "bus_send a BUS_FT_POLL [] m = (acts1, m1)" by fastforce
  then have m1: "b_plane m1 = b_plane m" "cfg_view m1 = cfg_view m" by (auto simp: bus_send_def cfg_view_def)
  obtain first from1 m2 where l: "slot_loop a (se_ta e) (se_passes e) False m1 = (first, from1, m2)" by (metis prod_cases3)
  have "b_plane m' = b_plane m2" "cfg_view m' = cfg_view m2"
    using assms by (auto simp: bus_poll_slot_def s l Let_def cfg_view_def split: if_splits)
  then show ?thesis using slot_loop_keeps [OF l, of N held] m1 by simp
qed

text \<open>A node that says nothing during the slot is a miss.\<close>

definition mute :: "slot_env \<Rightarrow> bool" where
  "mute e \<longleftrightarrow> (\<forall>p \<in> set (se_passes e). sp_words p = [])"

lemma slot_loop_mute: "\<forall>p \<in> set ps. sp_words p = [] \<Longrightarrow> \<not> fst (snd (slot_loop a ta ps first m))"
  by (induction ps arbitrary: first m) (simp_all add: Let_def)

lemma slot_mute: "mute e \<Longrightarrow> fst (bus_poll_slot a e m) = SLOT_NO_RESPONSE"
proof -
  assume e: "mute e"
  obtain first fr m2 where l: "slot_loop a (se_ta e) (se_passes e) False (snd (bus_send a BUS_FT_POLL [] m)) = (first, fr, m2)" by (metis prod_cases3)
  then have "\<not> fr" using slot_loop_mute [of "se_passes e" a "se_ta e" False "snd (bus_send a BUS_FT_POLL [] m)"] e by (simp add: mute_def)
  then show ?thesis using l by (simp add: bus_poll_slot_def bus_send_def)
qed

section \<open>A cycle delivers what was attached\<close>

fun msg_frames :: "u8 \<Rightarrow> (u8 \<times> u8 list) list \<Rightarrow> phy_act list" where
  "msg_frames seq [] = []"
| "msg_frames seq ((a, p) # ms) = [Phy_rx_flush, Phy_send_words (bus_frame_encode (data_frame a BUS_FT_DATA p seq))] @ msg_frames (seq + 1) ms"

lemma msg_frames_append: "msg_frames q (xs @ ys) = msg_frames q xs @ msg_frames (q + word_of_nat (length xs)) ys"
  by (induction q xs rule: msg_frames.induct) (simp_all add: add.assoc)

lemma send_bufs_spec:
  "send_bufs a dead bs m = (acts, m') \<Longrightarrow>
   acts = (if dead then [] else msg_frames (b_bus_seq m) (map (\<lambda>b. (a, tb_payload (g_bufs (b_plane m) ! b))) bs))
   \<and> b_plane m' = fold pool_recover bs (b_plane m) \<and> b_bus_seq m' = b_bus_seq m + (if dead then 0 else word_of_nat (length bs))
   \<and> cfg_view m' = cfg_view m"
proof (induction bs arbitrary: m acts)
  case (Cons b bs)
  obtain acts1 m1 where s: "(if dead then ([], m) else bus_send a BUS_FT_DATA (tb_payload (g_bufs (b_plane m) ! b)) m) = (acts1, m1)" by fastforce
  obtain acts2 where r: "send_bufs a dead bs (m1\<lparr>b_plane := pool_recover b (b_plane m1)\<rparr>) = (acts2, m')" "acts = acts1 @ acts2"
    using Cons.prems s by (auto split: prod.splits)
  have m1: "b_plane m1 = b_plane m" "cfg_view m1 = cfg_view m" using s by (auto simp: bus_send_def cfg_view_def split: if_splits)
  have g: "g_bufs (pool_recover b x) = g_bufs x" "cfg_view (x'\<lparr>b_plane := y\<rparr>) = cfg_view x'" for x y and x' :: master
    by (simp_all add: pool_recover_def cfg_view_def)
  show ?case using Cons.IH [OF r(1)] r(2) s m1 by (cases dead) (auto simp: g bus_send_def add.assoc)
qed simp

definition active_msgs :: "nat \<Rightarrow> plane \<Rightarrow> (u8 \<times> u8 list) list" where
  "active_msgs i s = (if bn_dead (g_nodes s ! i) then [] else map (Pair (bn_addr (g_nodes s ! i))) (list_msgs (g_active_idx s) i s))"

lemma take_list_keeps:
  assumes "take_list i s = (bs, s')"
  shows "nodev s' = nodev s" "g_active_idx s' = g_active_idx s" "g_bufs s' = g_bufs s" "length (g_nodes s') = length (g_nodes s)"
    "j \<noteq> i \<Longrightarrow> g_nodes s' ! j = g_nodes s ! j" "bs = bn_list (g_nodes s ! i) ! g_active_idx s"
  using assms nodev_update [of "(g_nodes s ! i)\<lparr>bn_list := (bn_list (g_nodes s ! i))[g_active_idx s := []]\<rparr>" s i]
  by (auto simp: take_list_def Let_def nodev_def node_view_def)

lemma nodev_length: "nodev s' = nodev s \<Longrightarrow> length (g_nodes s') = length (g_nodes s)"
  by (metis length_map nodev_def)

lemma view_eq:
  assumes "nodev s' = nodev s" "i < length (g_nodes s)"
  shows "bn_dead (g_nodes s' ! i) = bn_dead (g_nodes s ! i) \<and> bn_addr (g_nodes s' ! i) = bn_addr (g_nodes s ! i) \<and> bn_miss (g_nodes s' ! i) = bn_miss (g_nodes s ! i)"
  using nodev_nth [of i s] nodev_nth [of i s'] nodev_length [OF assms(1)] assms by (simp add: node_view_def)

text \<open>One node of the message pass.\<close>

lemma pass_node:
  assumes inv: "plane_inv N [] (b_plane m)" and i: "i < length (g_nodes (b_plane m))"
    and t: "take_list i (b_plane (producers ps m)) = (bs, s)"
    and f: "send_bufs (bn_addr (g_nodes s ! i)) (bn_dead (g_nodes s ! i)) bs ((producers ps m)\<lparr>b_plane := s\<rparr>) = (acts, m')"
  shows "plane_inv N [] (b_plane m') \<and> nodev (b_plane m') = nodev (b_plane m) \<and> cfg_view m' = cfg_view m
    \<and> g_active_idx (b_plane m') = g_active_idx (b_plane m)
    \<and> acts = msg_frames (b_bus_seq m) (active_msgs i (b_plane m))
    \<and> b_bus_seq m' = b_bus_seq m + word_of_nat (length (active_msgs i (b_plane m)))
    \<and> (bs \<noteq> [] \<longleftrightarrow> bn_list (g_nodes (b_plane m) ! i) ! g_active_idx (b_plane m) \<noteq> [])
    \<and> (\<forall>j < length (g_nodes (b_plane m)). j \<noteq> i \<longrightarrow> list_msgs (g_active_idx (b_plane m)) j (b_plane m') = list_msgs (g_active_idx (b_plane m)) j (b_plane m))"
proof -
  let ?s0 = "b_plane m" and ?s1 = "snd (send_all ps (b_plane m))" and ?a = "g_active_idx (b_plane m)"
  have p: "b_plane (producers ps m) = ?s1" "b_bus_seq (producers ps m) = b_bus_seq m" by (simp_all add: producers_def)
  have inv1: "plane_inv N [] ?s1" "nodev ?s1 = nodev ?s0" using send_all_keeps inv by auto
  have act: "g_active_idx ?s1 = ?a" "length (g_nodes ?s1) = length (g_nodes ?s0)" "\<And>j. j < length (g_nodes ?s0) \<Longrightarrow> list_msgs ?a j ?s1 = list_msgs ?a j ?s0"
    using send_all_active [OF inv] i by auto
  note tk = take_list_keeps [OF t [unfolded p]]
  note sb = send_bufs_spec [OF f]
  have pl: "b_plane m' = fold pool_recover bs s" using sb by simp
  have "plane_inv N (bs @ []) s" using take_inv [OF inv1(1) _ t [unfolded p]] i act(2) by simp
  then have "plane_inv N [] (b_plane m')" using recover_all_inv [of N bs "[]" s] pl by simp
  moreover have "nodev (b_plane m') = nodev ?s0" using pl tk(1) inv1(2) by (simp add: nodev_def)
  moreover have "cfg_view m' = cfg_view m" using sb by (simp add: producers_def cfg_view_def)
  moreover have "g_active_idx (b_plane m') = ?a" using pl tk(2) act(1) by simp
  moreover have msgs: "map (\<lambda>b. tb_payload (g_bufs s ! b)) bs = list_msgs ?a i ?s0"
    using act(3) [OF i] tk(3,6) act(1) by (simp add: list_msgs_def)
  moreover have v: "bn_dead (g_nodes s ! i) = bn_dead (g_nodes ?s0 ! i)" "bn_addr (g_nodes s ! i) = bn_addr (g_nodes ?s0 ! i)"
    using view_eq [of s ?s0 i] tk(1) inv1(2) i by simp_all
  moreover have am: "active_msgs i ?s0 = (if bn_dead (g_nodes ?s0 ! i) then [] else map (\<lambda>b. (bn_addr (g_nodes ?s0 ! i), tb_payload (g_bufs s ! b))) bs)"
    using msgs [symmetric] by (simp add: active_msgs_def comp_def)
  moreover have "list_msgs ?a j (b_plane m') = list_msgs ?a j ?s0" if "j < length (g_nodes ?s0)" "j \<noteq> i" for j
    using act(3) [OF that(1)] tk(3) tk(5) [OF that(2)] by (simp add: list_msgs_def pl)
  moreover have "bs \<noteq> [] \<longleftrightarrow> bn_list (g_nodes ?s0 ! i) ! ?a \<noteq> []" using msgs by (metis list_msgs_def map_is_Nil_conv)
  ultimately show ?thesis using sb by (auto simp: p)
qed

lemma msg_pass_spec:
  assumes "plane_inv N [] (b_plane m)" "\<forall>i \<in> set is. i < length (g_nodes (b_plane m))" "distinct is" "msg_pass e is m = (acts, marked, m')"
  shows "plane_inv N [] (b_plane m') \<and> nodev (b_plane m') = nodev (b_plane m) \<and> cfg_view m' = cfg_view m
    \<and> acts = msg_frames (b_bus_seq m) (concat (map (\<lambda>i. active_msgs i (b_plane m)) is))
    \<and> set marked = {i \<in> set is. \<not> bn_dead (g_nodes (b_plane m) ! i) \<and> bn_list (g_nodes (b_plane m) ! i) ! g_active_idx (b_plane m) \<noteq> []}"
  using assms
proof (induction "is" arbitrary: m acts marked)
  case (Cons i "is")
  let ?m0 = "producers (ce_prod e i) m"
  obtain bs s where t: "take_list i (b_plane ?m0) = (bs, s)" by fastforce
  obtain acts1 m1 where f: "send_bufs (bn_addr (g_nodes s ! i)) (bn_dead (g_nodes s ! i)) bs (?m0\<lparr>b_plane := s\<rparr>) = (acts1, m1)" by fastforce
  obtain acts2 mk where r: "msg_pass e is m1 = (acts2, mk, m')" "acts = acts1 @ acts2" "marked = (if bs \<noteq> [] \<and> \<not> bn_dead (g_nodes s ! i) then [i] else []) @ mk"
    using Cons.prems(4) t f by (auto simp: Let_def split: prod.splits)
  have i: "i < length (g_nodes (b_plane m))" using Cons.prems(2) by simp
  note n = pass_node [OF Cons.prems(1) i t f]
  have len: "length (g_nodes (b_plane m1)) = length (g_nodes (b_plane m))" using n nodev_length by blast
  have v: "bn_dead (g_nodes (b_plane m1) ! j) = bn_dead (g_nodes (b_plane m) ! j)" "bn_addr (g_nodes (b_plane m1) ! j) = bn_addr (g_nodes (b_plane m) ! j)"
    if "j < length (g_nodes (b_plane m))" for j using view_eq [OF _ that] n by blast+
  have same: "active_msgs j (b_plane m1) = active_msgs j (b_plane m)"
    "bn_list (g_nodes (b_plane m1) ! j) ! g_active_idx (b_plane m1) \<noteq> [] \<longleftrightarrow> bn_list (g_nodes (b_plane m) ! j) ! g_active_idx (b_plane m) \<noteq> []"
    if "j \<in> set is" for j
  proof -
    have j: "j < length (g_nodes (b_plane m))" "j \<noteq> i" using that Cons.prems(2,3) by auto
    then have l: "list_msgs (g_active_idx (b_plane m)) j (b_plane m1) = list_msgs (g_active_idx (b_plane m)) j (b_plane m)" using n by blast
    show "active_msgs j (b_plane m1) = active_msgs j (b_plane m)" using l v [OF j(1)] n by (simp add: active_msgs_def)
    show "bn_list (g_nodes (b_plane m1) ! j) ! g_active_idx (b_plane m1) \<noteq> [] \<longleftrightarrow> bn_list (g_nodes (b_plane m) ! j) ! g_active_idx (b_plane m) \<noteq> []"
      using l n by (metis list_msgs_def map_is_Nil_conv)
  qed
  have IH: "plane_inv N [] (b_plane m') \<and> nodev (b_plane m') = nodev (b_plane m1) \<and> cfg_view m' = cfg_view m1
    \<and> acts2 = msg_frames (b_bus_seq m1) (concat (map (\<lambda>i. active_msgs i (b_plane m1)) is))
    \<and> set mk = {i \<in> set is. \<not> bn_dead (g_nodes (b_plane m1) ! i) \<and> bn_list (g_nodes (b_plane m1) ! i) ! g_active_idx (b_plane m1) \<noteq> []}"
    by (rule Cons.IH [OF _ _ _ r(1)]) (use n len Cons.prems in auto)
  have c: "map (\<lambda>i. active_msgs i (b_plane m1)) is = map (\<lambda>i. active_msgs i (b_plane m)) is" using same(1) by simp
  have "acts = msg_frames (b_bus_seq m) (concat (map (\<lambda>i. active_msgs i (b_plane m)) (i # is)))"
    using IH n r(2) c by (simp add: msg_frames_append)
  moreover have "bn_dead (g_nodes s ! i) = bn_dead (g_nodes (b_plane m) ! i)"
    using take_list_keeps(1) [OF t] send_all_keeps [of "ce_prod e i" "b_plane m" N "[]"] i view_eq [of s "b_plane m" i] by (simp add: producers_def)
  moreover have "set mk = {j \<in> set is. \<not> bn_dead (g_nodes (b_plane m) ! j) \<and> bn_list (g_nodes (b_plane m) ! j) ! g_active_idx (b_plane m) \<noteq> []}"
    using IH same(2) v Cons.prems(2) by auto
  ultimately show ?case using IH n r(3) by auto
qed simp

section \<open>The sweep and the probe\<close>

definition only_polls :: "phy_act list \<Rightarrow> bool" where
  "only_polls acts \<longleftrightarrow> (\<forall>ws. Phy_send_words ws \<in> set acts \<longrightarrow> (\<exists>a q. ws = bus_frame_encode (data_frame a BUS_FT_POLL [] q)))"

lemma only_polls_simps [simp]: "only_polls []" "only_polls (xs @ ys) \<longleftrightarrow> only_polls xs \<and> only_polls ys"
  by (auto simp: only_polls_def)

lemma slot_polls: "bus_poll_slot a e m = (sr, acts, m') \<Longrightarrow> only_polls acts"
proof -
  assume b: "bus_poll_slot a e m = (sr, acts, m')"
  then have "acts = [Phy_rx_flush, Phy_send_words (bus_frame_encode (data_frame a BUS_FT_POLL [] (b_bus_seq m)))]"
    by (auto simp: bus_poll_slot_def bus_send_def Let_def split: prod.splits if_splits)
  then show ?thesis unfolding only_polls_def by auto
qed

definition miss_view :: "u8 \<Rightarrow> u8 \<times> bool \<times> u8 \<Rightarrow> u8 \<times> bool \<times> u8" where
  "miss_view mm v = (case v of (a, d, k) \<Rightarrow> if k < 0xFF then (a, k + 1 \<ge> mm \<or> d, k + 1) else (a, d, k))"

lemma set_node_view: "nodev (b_plane (set_node i n m)) = (nodev (b_plane m))[i := node_view n]"
  by (simp add: set_node_def nodev_def map_update)

lemma set_node_inv:
  assumes "plane_inv N held (b_plane m)" "i < length (g_nodes (b_plane m))" "bn_list n = bn_list (g_nodes (b_plane m) ! i)"
  shows "plane_inv N held (b_plane (set_node i n m))"
proof -
  have q: "queued ((b_plane m)\<lparr>g_nodes := (g_nodes (b_plane m))[i := n]\<rparr>) = queued (b_plane m)"
    using assms(2,3) by (simp add: queued_def map_update) (metis list_update_id nth_map)
  have "length (bn_list n) = 2" using assms node_at by metis
  then show ?thesis using assms(1) q
    by (auto simp: set_node_def plane_inv_def dest!: set_update_subset_insert [THEN subsetD])
qed

lemma sweep_miss_spec:
  assumes "i < length (g_nodes (b_plane m))"
  shows "nodev (b_plane (sweep_miss i m)) = (nodev (b_plane m))[i := miss_view (g_poll_max_misses (b_poll m)) (nodev (b_plane m) ! i)]"
    "cfg_view (sweep_miss i m) = cfg_view m" "plane_inv N held (b_plane m) \<Longrightarrow> plane_inv N held (b_plane (sweep_miss i m))"
proof -
  show "nodev (b_plane (sweep_miss i m)) = (nodev (b_plane m))[i := miss_view (g_poll_max_misses (b_poll m)) (nodev (b_plane m) ! i)]"
    using assms by (simp add: sweep_miss_def Let_def set_node_view nodev_nth node_view_def miss_view_def)
  show "cfg_view (sweep_miss i m) = cfg_view m" by (simp add: sweep_miss_def Let_def set_node_def cfg_view_def)
  show "plane_inv N held (b_plane (sweep_miss i m))" if "plane_inv N held (b_plane m)"
    unfolding sweep_miss_def Let_def by (rule set_node_inv) (use that assms in simp_all)
qed

lemma sweep_alive_spec:
  assumes "i < length (g_nodes (b_plane m))"
  shows "\<exists>v. nodev (b_plane (sweep_alive i now m)) = (nodev (b_plane m))[i := v]"
    "cfg_view (sweep_alive i now m) = cfg_view m" "plane_inv N held (b_plane m) \<Longrightarrow> plane_inv N held (b_plane (sweep_alive i now m))"
proof -
  show "\<exists>v. nodev (b_plane (sweep_alive i now m)) = (nodev (b_plane m))[i := v]"
    by (rule exI [of _ "node_view ((g_nodes (b_plane m) ! i)\<lparr>bn_miss := 0\<rparr>)"]) (simp add: sweep_alive_def Let_def set_node_view)
  show "cfg_view (sweep_alive i now m) = cfg_view m" by (simp add: sweep_alive_def Let_def set_node_def cfg_view_def)
  show "plane_inv N held (b_plane (sweep_alive i now m))" if "plane_inv N held (b_plane m)"
    unfolding sweep_alive_def Let_def by (rule set_node_inv) (use that assms in simp_all)
qed

lemma producers_keeps:
  "nodev (b_plane (producers ps m)) = nodev (b_plane m)" "cfg_view (producers ps m) = cfg_view m"
  "plane_inv N held (b_plane m) \<Longrightarrow> plane_inv N held (b_plane (producers ps m))"
  using send_all_keeps by (simp_all add: producers_def cfg_view_def)

definition swept :: "cycle_env \<Rightarrow> nat list \<Rightarrow> nat list \<Rightarrow> u8 \<Rightarrow> (u8 \<times> bool \<times> u8) list \<Rightarrow> (u8 \<times> bool \<times> u8) list \<Rightarrow> bool" where
  "swept e marked is mm vs vs' \<longleftrightarrow> length vs' = length vs \<and> (\<forall>j < length vs.
     ((j \<notin> set is \<or> fst (snd (vs ! j)) \<or> j \<in> set marked) \<longrightarrow> vs' ! j = vs ! j) \<and>
     ((j \<in> set is \<and> \<not> fst (snd (vs ! j)) \<and> j \<notin> set marked \<and> mute (ce_slot e j)) \<longrightarrow> vs' ! j = miss_view mm (vs ! j)))"

lemma sweep_spec:
  assumes "plane_inv N [] (b_plane m)" "\<forall>i \<in> set is. i < length (g_nodes (b_plane m))" "distinct is" "sweep e marked is slow m = (acts, slow', m')"
  shows "plane_inv N [] (b_plane m') \<and> cfg_view m' = cfg_view m \<and> only_polls acts
    \<and> swept e marked is (g_poll_max_misses (b_poll m)) (nodev (b_plane m)) (nodev (b_plane m'))"
  using assms
proof (induction "is" arbitrary: m acts slow)
  case Nil
  then show ?case by (simp add: swept_def)
next
  case (Cons i "is")
  let ?m0 = "producers (ce_poll_prod e i) m" and ?mm = "g_poll_max_misses (b_poll m)"
  let ?n = "g_nodes (b_plane ?m0) ! i"
  have i: "i < length (g_nodes (b_plane m))" using Cons.prems(2) by simp
  note p = producers_keeps [where ps = "ce_poll_prod e i" and m = m]
  have len: "length (g_nodes (b_plane ?m0)) = length (g_nodes (b_plane m))" using nodev_length [OF p(1)] .
  have mm: "g_poll_max_misses (b_poll x) = ?mm" if "cfg_view x = cfg_view m" for x using that by (simp add: cfg_view_def)
  have dd: "fst (snd (nodev (b_plane m) ! i)) = bn_dead ?n" using p(1) nodev_nth [of i "b_plane ?m0"] i len by (simp add: node_view_def)
  have ln: "length (nodev (b_plane m)) = length (g_nodes (b_plane m))" by (simp add: nodev_def)
  show ?case
  proof (cases "bn_dead ?n \<or> i \<in> set marked")
    case True
    then have r: "sweep e marked is slow ?m0 = (acts, slow', m')" using Cons.prems(4) by (simp add: Let_def)
    have "plane_inv N [] (b_plane m') \<and> cfg_view m' = cfg_view ?m0 \<and> only_polls acts
      \<and> swept e marked is (g_poll_max_misses (b_poll ?m0)) (nodev (b_plane ?m0)) (nodev (b_plane m'))"
      by (rule Cons.IH [OF _ _ _ r]) (use Cons.prems p(3) len in auto)
    then show ?thesis using True dd p mm [OF p(2)] by (auto simp: swept_def)
  next
    case False
    obtain sr acts1 m1 where b: "bus_poll_slot (bn_addr ?n) (ce_slot e i) ?m0 = (sr, acts1, m1)" by (metis prod_cases3)
    let ?m2 = "if sr = SLOT_NO_RESPONSE then sweep_miss i m1 else sweep_alive i (ce_now e i) m1"
    obtain sl acts2 where r: "sweep e marked is sl ?m2 = (acts2, slow', m')" "acts = acts1 @ acts2"
      using Cons.prems(4) False b by (auto simp: Let_def split: prod.splits if_splits)
    note k = slot_keeps [OF b, of N "[]"]
    have m1: "nodev (b_plane m1) = nodev (b_plane m)" "cfg_view m1 = cfg_view m" "plane_inv N [] (b_plane m1)" "length (g_nodes (b_plane m1)) = length (g_nodes (b_plane m))"
      using k p Cons.prems(1) nodev_length [of "b_plane m1" "b_plane m"] by simp_all
    have i1: "i < length (g_nodes (b_plane m1))" using i m1 by simp
    obtain v where v: "nodev (b_plane ?m2) = (nodev (b_plane m))[i := v]" "mute (ce_slot e i) \<Longrightarrow> v = miss_view ?mm (nodev (b_plane m) ! i)"
    proof (cases "sr = SLOT_NO_RESPONSE")
      case True
      then show thesis using that sweep_miss_spec(1) [OF i1] m1 mm [OF m1(2)] by simp
    next
      case False
      then have "\<not> mute (ce_slot e i)" using slot_mute [of "ce_slot e i" "bn_addr ?n" ?m0] b by auto
      then show thesis using that sweep_alive_spec(1) [OF i1, of "ce_now e i"] m1 False by auto
    qed
    have m2: "cfg_view ?m2 = cfg_view m" "plane_inv N [] (b_plane ?m2)"
      using sweep_miss_spec(2,3) [OF i1] sweep_alive_spec(2,3) [OF i1] m1 by auto
    have l2: "length (g_nodes (b_plane ?m2)) = length (g_nodes (b_plane m))" using arg_cong [OF v(1), of length] by (simp add: nodev_def)
    have IH: "plane_inv N [] (b_plane m') \<and> cfg_view m' = cfg_view ?m2 \<and> only_polls acts2
      \<and> swept e marked is (g_poll_max_misses (b_poll ?m2)) (nodev (b_plane ?m2)) (nodev (b_plane m'))"
      by (rule Cons.IH [OF _ _ _ r(1)]) (use Cons.prems m2 l2 in auto)
    have "i \<notin> set is" using Cons.prems(3) by simp
    then have "swept e marked (i # is) ?mm (nodev (b_plane m)) (nodev (b_plane m'))"
      using IH v False dd i ln unfolding mm [OF m2(1)] swept_def v(1)
      by (auto simp: nth_list_update)
    then show ?thesis using IH m2(1) slot_polls [OF b] r(2) by simp
  qed
qed

lemma candidate_dead:
  assumes "dead_candidate m = Some i"
  shows "i < length (g_nodes (b_plane m))" "bn_dead (g_nodes (b_plane m) ! i)"
proof -
  let ?ns = "g_nodes (b_plane m)"
  have "i \<in> set (map (\<lambda>k. (unat (y_dead_cursor (b_cyc m)) + k) mod length ?ns) [0..<length ?ns])" and d: "bn_dead (?ns ! i)"
    using assms find_Some_iff [of "\<lambda>i. bn_dead (?ns ! i)" "map (\<lambda>k. (unat (y_dead_cursor (b_cyc m)) + k) mod length ?ns) [0..<length ?ns]" i]
    by (auto simp: dead_candidate_def Let_def)
  then show "i < length ?ns" by (cases "?ns = []") auto
  show "bn_dead (?ns ! i)" by (rule d)
qed

lemma probe_result_spec:
  assumes "i < length (g_nodes (b_plane m))"
  shows "cfg_view (probe_result i sr now m) = cfg_view m" "plane_inv N held (b_plane m) \<Longrightarrow> plane_inv N held (b_plane (probe_result i sr now m))"
    "\<exists>v. nodev (b_plane (probe_result i sr now m)) = (nodev (b_plane m))[i := v] \<and> (sr = SLOT_NO_RESPONSE \<longrightarrow> v = nodev (b_plane m) ! i)"
proof -
  show "cfg_view (probe_result i sr now m) = cfg_view m" by (simp add: probe_result_def Let_def set_node_def cfg_view_def)
  show "plane_inv N held (b_plane (probe_result i sr now m))" if "plane_inv N held (b_plane m)"
  proof (cases "sr = SLOT_NO_RESPONSE")
    case False
    then show ?thesis unfolding probe_result_def Let_def by (simp, intro set_node_inv) (use that assms in simp_all)
  qed (simp add: probe_result_def Let_def that)
  show "\<exists>v. nodev (b_plane (probe_result i sr now m)) = (nodev (b_plane m))[i := v] \<and> (sr = SLOT_NO_RESPONSE \<longrightarrow> v = nodev (b_plane m) ! i)"
  proof (cases "sr = SLOT_NO_RESPONSE")
    case True
    then show ?thesis by (intro exI [of _ "nodev (b_plane m) ! i"]) (simp add: probe_result_def Let_def)
  next
    case False
    then show ?thesis
      by (intro exI [of _ "node_view ((g_nodes (b_plane m) ! i)\<lparr>bn_dead := False, bn_miss := 0\<rparr>)"])
        (simp add: probe_result_def Let_def set_node_view)
  qed
qed

lemma probe_spec:
  assumes inv: "plane_inv N [] (b_plane m)" and p: "dead_probe e m = (acts, m')"
  shows "plane_inv N [] (b_plane m') \<and> cfg_view m' = cfg_view m \<and> only_polls acts \<and> length (nodev (b_plane m')) = length (nodev (b_plane m))
    \<and> (\<forall>j < length (nodev (b_plane m)). \<not> fst (snd (nodev (b_plane m) ! j)) \<or> mute (ce_probe e j) \<longrightarrow> nodev (b_plane m') ! j = nodev (b_plane m) ! j)"
proof -
  let ?t = "m\<lparr>b_cyc := (b_cyc m)\<lparr>y_dead_tick := 0\<rparr>\<rparr>"
  show ?thesis
  proof (cases "y_slowpoll_div (b_cyc m) = 0 \<or> y_dead_tick (b_cyc m) + 1 < y_slowpoll_div (b_cyc m) \<or> dead_candidate ?t = None")
    case True
    then have "b_plane m' = b_plane m" "cfg_view m' = cfg_view m" "acts = []"
      using p by (auto simp: dead_probe_def Let_def cfg_view_def split: if_splits option.splits)
    then show ?thesis using inv by simp
  next
    case False
    then obtain i where c: "dead_candidate ?t = Some i" by auto
    let ?m2 = "m\<lparr>b_cyc := (b_cyc m)\<lparr>y_dead_tick := 0, y_dead_cursor := word_of_nat ((i + 1) mod length (g_nodes (b_plane m)))\<rparr>\<rparr>"
    obtain sr acts1 m3 where b: "bus_poll_slot (bn_addr (g_nodes (b_plane m) ! i)) (ce_probe e i) ?m2 = (sr, acts1, m3)" by (metis prod_cases3)
    have r: "acts = acts1" "m' = probe_result i sr (ce_probe_now e) m3" using p False c b by (simp_all add: dead_probe_def Let_def)
    have k: "nodev (b_plane m3) = nodev (b_plane m)" "cfg_view m3 = cfg_view m" "plane_inv N [] (b_plane m3)"
      using slot_keeps [OF b, of N "[]"] inv by (simp_all add: cfg_view_def)
    have i: "i < length (g_nodes (b_plane m))" "bn_dead (g_nodes (b_plane m) ! i)" using candidate_dead [OF c] by simp_all
    then have i3: "i < length (g_nodes (b_plane m3))" using nodev_length [OF k(1)] by simp
    obtain v where v: "nodev (b_plane m') = (nodev (b_plane m))[i := v]" "sr = SLOT_NO_RESPONSE \<Longrightarrow> v = nodev (b_plane m) ! i"
      using probe_result_spec(3) [OF i3, of sr "ce_probe_now e"] r(2) k(1) by auto
    have "mute (ce_probe e i) \<Longrightarrow> sr = SLOT_NO_RESPONSE" using slot_mute [of "ce_probe e i"] b by (metis fst_conv)
    moreover have "fst (snd (nodev (b_plane m) ! i))" using i nodev_nth [of i "b_plane m"] by (simp add: node_view_def)
    ultimately have "\<forall>j < length (nodev (b_plane m)). \<not> fst (snd (nodev (b_plane m) ! j)) \<or> mute (ce_probe e j) \<longrightarrow> nodev (b_plane m') ! j = nodev (b_plane m) ! j"
      using v nth_list_update [of i "nodev (b_plane m)"] i(1) by (metis length_map nodev_def)
    then show ?thesis using probe_result_spec(1,2) [OF i3] k r slot_polls [OF b] v(1) by simp
  qed
qed

text \<open>Opening and closing a cycle.\<close>

lemma stage_keeps:
  "nodev (b_plane (cycle_stage_cmd m)) = nodev (b_plane m)" "cfg_view (cycle_stage_cmd m) = cfg_view m"
  "plane_inv N held (b_plane m) \<Longrightarrow> plane_inv N held (b_plane (cycle_stage_cmd m))"
  by (simp_all add: cycle_stage_cmd_def Let_def cfg_view_def corr_keeps send_inv corr_inv)

lemma open_keeps:
  "plane_inv N held (b_plane m) \<Longrightarrow> plane_inv N held (b_plane (cycle_open m))"
  "\<not> y_dirty (b_cyc m) \<Longrightarrow> nodev (b_plane (cycle_open m)) = nodev (b_plane m)"
  "g_poll_max_misses (b_poll (cycle_open m)) = g_poll_max_misses (b_poll m)" "\<not> y_dirty (b_cyc (cycle_open m))"
  "b_bus_seq (cycle_open m) = b_bus_seq m"
proof -
  have sw: "nodev (bus_pingpong_swap s) = nodev s" for s by (simp add: bus_pingpong_swap_def nodev_def)
  show "plane_inv N held (b_plane (cycle_open m))" if "plane_inv N held (b_plane m)"
    unfolding cycle_open_def Let_def using that by (simp add: swap_inv stage_keeps(3) cycle_rebuild_def rebuild_inv)
  show "nodev (b_plane (cycle_open m)) = nodev (b_plane m)" if "\<not> y_dirty (b_cyc m)"
    using that by (simp add: cycle_open_def Let_def sw stage_keeps(1) cycle_rebuild_def)
  show "g_poll_max_misses (b_poll (cycle_open m)) = g_poll_max_misses (b_poll m)" "\<not> y_dirty (b_cyc (cycle_open m))"
      "b_bus_seq (cycle_open m) = b_bus_seq m"
    by (simp_all add: cycle_open_def cycle_stage_cmd_def cycle_rebuild_def Let_def)
qed

lemma close_steps:
  "b_plane (emit_feedback m) = b_plane m" "cfg_view (emit_feedback m) = cfg_view m" "g_il_nodes_dead (b_cyc (emit_feedback m)) = g_il_nodes_dead (b_cyc m)"
  "b_plane (pp_kick m) = b_plane m" "cfg_view (pp_kick m) = cfg_view m" "b_cyc (pp_kick m) = b_cyc m"
  "b_plane (notify_exhausted e m) = b_plane m" "cfg_view (notify_exhausted e m) = cfg_view m"
  "g_il_nodes_dead (b_cyc (notify_exhausted e m)) = g_il_nodes_dead (b_cyc m)"
  "b_plane (publish_dead m) = b_plane m" "cfg_view (publish_dead m) = cfg_view m" "g_il_nodes_dead (b_cyc (publish_dead m)) = dead_count (b_plane m)"
  by (simp_all add: emit_feedback_def pp_kick_def notify_exhausted_def publish_dead_def Let_def cfg_view_def)

lemma stats_keeps:
  "b_plane (cycle_stats e slow m) = b_plane m" "cfg_view (cycle_stats e slow m) = cfg_view m"
  "g_il_nodes_dead (b_cyc (cycle_stats e slow m)) = g_il_nodes_dead (b_cyc m)"
  by (simp_all add: cycle_stats_def Let_def cfg_view_def split del: if_split cong: if_cong) (simp_all split: if_split)

lemma close_keeps:
  "b_plane (cycle_close e slow m) = b_plane m" "cfg_view (cycle_close e slow m) = cfg_view m"
  "g_il_nodes_dead (b_cyc (cycle_close e slow m)) = dead_count (b_plane m)"
  by (simp_all add: cycle_close_def Let_def close_steps stats_keeps)

text \<open>One whole cycle: what it sends, and what it makes of each node.\<close>

definition commanded :: "nat \<Rightarrow> plane \<Rightarrow> bool" where
  "commanded i s \<longleftrightarrow> bn_list (g_nodes s ! i) ! g_active_idx s \<noteq> []"

lemma cycle_spec:
  assumes inv: "plane_inv N [] (b_plane m)" and r: "bus_run_cycle e m = (acts, m')"
  defines "s \<equiv> b_plane (cycle_open m)"
  shows "plane_inv N [] (b_plane m')" "cfg_view m' = (g_poll_max_misses (b_poll m), False)" "g_il_nodes_dead (b_cyc m') = dead_count (b_plane m')"
    "\<exists>polls. only_polls polls \<and> acts = msg_frames (b_bus_seq m) (concat (map (\<lambda>i. active_msgs i s) [0..<length (g_nodes s)])) @ polls"
    "length (g_nodes (b_plane m')) = length (g_nodes s)"
    "j < length (g_nodes s) \<Longrightarrow> \<not> bn_dead (g_nodes s ! j) \<Longrightarrow> commanded j s \<Longrightarrow> nodev (b_plane m') ! j = nodev s ! j"
    "j < length (g_nodes s) \<Longrightarrow> bn_dead (g_nodes s ! j) \<Longrightarrow> mute (ce_probe e j) \<Longrightarrow> nodev (b_plane m') ! j = nodev s ! j"
    "j < length (g_nodes s) \<Longrightarrow> \<not> bn_dead (g_nodes s ! j) \<Longrightarrow> \<not> commanded j s \<Longrightarrow> mute (ce_slot e j) \<Longrightarrow> mute (ce_probe e j) \<Longrightarrow>
       nodev (b_plane m') ! j = miss_view (g_poll_max_misses (b_poll m)) (nodev s ! j)"
proof -
  let ?is = "[0..<length (g_nodes s)]" and ?mm = "g_poll_max_misses (b_poll m)"
  obtain acts1 marked m1 where a: "msg_pass e ?is (cycle_open m) = (acts1, marked, m1)" by (metis prod_cases3)
  obtain acts2 slow m2 where b: "sweep e marked ?is (0, 0) m1 = (acts2, slow, m2)" by (metis prod_cases3)
  obtain acts3 m3 where c: "dead_probe e m2 = (acts3, m3)" by fastforce
  have m': "acts = acts1 @ acts2 @ acts3" "m' = cycle_close e slow m3"
    using r a b c by (simp_all add: bus_run_cycle_def Let_def s_def)
  have inv0: "plane_inv N [] s" unfolding s_def by (rule open_keeps(1) [OF inv])
  note P = msg_pass_spec [OF inv0 [unfolded s_def] _ _ a]
  have p: "plane_inv N [] (b_plane m1)" "nodev (b_plane m1) = nodev s" "cfg_view m1 = (?mm, False)"
      "acts1 = msg_frames (b_bus_seq m) (concat (map (\<lambda>i. active_msgs i s) ?is))"
      "set marked = {i \<in> set ?is. \<not> bn_dead (g_nodes s ! i) \<and> commanded i s}"
    using P open_keeps(3,4,5) [of m] by (simp_all add: s_def cfg_view_def commanded_def)
  have len1: "length (g_nodes (b_plane m1)) = length (g_nodes s)" using nodev_length [OF p(2)] .
  have mm1: "g_poll_max_misses (b_poll m1) = ?mm" using p(3) by (simp add: cfg_view_def)
  have sw: "plane_inv N [] (b_plane m2)" "cfg_view m2 = cfg_view m1" "only_polls acts2" "swept e marked ?is ?mm (nodev s) (nodev (b_plane m2))"
    using sweep_spec [OF p(1) _ _ b] len1 mm1 p(2) by auto
  have len2: "length (nodev (b_plane m2)) = length (nodev s)" using sw(4) by (simp add: swept_def)
  note pr = probe_spec [OF sw(1) c]
  show "plane_inv N [] (b_plane m')" "cfg_view m' = (?mm, False)" "g_il_nodes_dead (b_cyc m') = dead_count (b_plane m')"
    using pr sw(2) p(3) by (simp_all add: m' close_keeps)
  show "\<exists>polls. only_polls polls \<and> acts = msg_frames (b_bus_seq m) (concat (map (\<lambda>i. active_msgs i s) ?is)) @ polls"
    using sw(3) pr m'(1) p(4) by (intro exI [of _ "acts2 @ acts3"]) simp
  show "length (g_nodes (b_plane m')) = length (g_nodes s)" using pr len2 by (simp add: m' close_keeps nodev_def)
  fix j assume j: "j < length (g_nodes s)"
  have jv: "j < length (nodev s)" "fst (snd (nodev s ! j)) = bn_dead (g_nodes s ! j)"
    using j nodev_nth [OF j] by (simp_all add: nodev_def node_view_def)
  have fin: "nodev (b_plane m') ! j = nodev (b_plane m2) ! j" if "\<not> fst (snd (nodev (b_plane m2) ! j)) \<or> mute (ce_probe e j)"
    using pr jv(1) len2 that by (simp add: m' close_keeps)
  have mark: "j \<in> set marked \<longleftrightarrow> \<not> bn_dead (g_nodes s ! j) \<and> commanded j s" using p(5) j by simp
  note S = sw(4) [unfolded swept_def, THEN conjunct2, rule_format, OF jv(1)]
  show "nodev (b_plane m') ! j = nodev s ! j" if "\<not> bn_dead (g_nodes s ! j)" "commanded j s"
    using S mark that fin jv(2) by auto
  show "nodev (b_plane m') ! j = nodev s ! j" if "bn_dead (g_nodes s ! j)" "mute (ce_probe e j)"
    using S that fin jv(2) by auto
  show "nodev (b_plane m') ! j = miss_view ?mm (nodev s ! j)"
    if "\<not> bn_dead (g_nodes s ! j)" "\<not> commanded j s" "mute (ce_slot e j)" "mute (ce_probe e j)"
    using S that fin jv(2) mark j by auto
qed

section \<open>A silent node is declared dead\<close>

text \<open>Consecutive cycles in which node \<open>i\<close> neither is sent a command nor says a word.\<close>

fun run_cycles :: "cycle_env list \<Rightarrow> master \<Rightarrow> master" where
  "run_cycles [] m = m"
| "run_cycles (e # es) m = run_cycles es (snd (bus_run_cycle e m))"

fun silent :: "nat \<Rightarrow> cycle_env list \<Rightarrow> master \<Rightarrow> bool" where
  "silent i [] m \<longleftrightarrow> True"
| "silent i (e # es) m \<longleftrightarrow> mute (ce_slot e i) \<and> mute (ce_probe e i) \<and> \<not> commanded i (b_plane (cycle_open m))
     \<and> silent i es (snd (bus_run_cycle e m))"

definition doomed :: "nat \<Rightarrow> nat \<Rightarrow> master \<Rightarrow> bool" where
  "doomed i k m \<longleftrightarrow> bn_dead (g_nodes (b_plane m) ! i)
     \<or> bn_miss (g_nodes (b_plane m) ! i) < 0xFF \<and> unat (g_poll_max_misses (b_poll m)) \<le> unat (bn_miss (g_nodes (b_plane m) ! i)) + k"

lemma silent_cycle:
  assumes "plane_inv N [] (b_plane m)" "\<not> y_dirty (b_cyc m)" "i < length (g_nodes (b_plane m))" "silent i (e # es) m" "doomed i (Suc k) m"
  defines "m' \<equiv> snd (bus_run_cycle e m)"
  shows "plane_inv N [] (b_plane m')" "\<not> y_dirty (b_cyc m')" "i < length (g_nodes (b_plane m'))"
    "doomed i k m'" "k = 0 \<Longrightarrow> bn_dead (g_nodes (b_plane m') ! i)" "g_il_nodes_dead (b_cyc m') = dead_count (b_plane m')"
proof -
  obtain acts where r: "bus_run_cycle e m = (acts, m')" unfolding m'_def by (metis prod.collapse)
  let ?s = "b_plane (cycle_open m)" and ?n = "g_nodes (b_plane m) ! i" and ?n' = "g_nodes (b_plane m') ! i" and ?mm = "g_poll_max_misses (b_poll m)"
  note C = cycle_spec [OF assms(1) r]
  have nv: "nodev ?s = nodev (b_plane m)" by (rule open_keeps(2) [OF assms(2)])
  have i: "i < length (g_nodes ?s)" using nodev_length [OF nv] assms(3) by simp
  have d: "bn_dead (g_nodes ?s ! i) = bn_dead ?n" using view_eq [OF nv assms(3)] by simp
  have q: "mute (ce_slot e i)" "mute (ce_probe e i)" "\<not> commanded i ?s" using assms(4) by simp_all
  show inv: "plane_inv N [] (b_plane m')" "\<not> y_dirty (b_cyc m')" "g_il_nodes_dead (b_cyc m') = dead_count (b_plane m')"
    using C(1,2,3) by (simp_all add: cfg_view_def)
  show i': "i < length (g_nodes (b_plane m'))" using C(5) i by simp
  have mm: "g_poll_max_misses (b_poll m') = ?mm" using C(2) by (simp add: cfg_view_def)
  have n: "node_view ?n' = (if bn_dead ?n then node_view ?n else miss_view ?mm (node_view ?n))"
    using C(7,8) [OF i] q d nv nodev_nth [OF assms(3)] nodev_nth [OF i'] by simp
  have "bn_dead ?n' \<or> bn_miss ?n' < 0xFF \<and> unat ?mm \<le> unat (bn_miss ?n') + k \<and> k \<noteq> 0"
  proof (cases "bn_dead ?n")
    case True
    then show ?thesis using n by (simp add: node_view_def)
  next
    case False
    then have b: "bn_miss ?n < 0xFF" "unat ?mm \<le> unat (bn_miss ?n) + Suc k" using assms(5) by (auto simp: doomed_def)
    then have u: "unat (bn_miss ?n + 1) = unat (bn_miss ?n) + 1" by (intro unat_inc_u8) (simp add: word_less_nat_alt)
    have v: "bn_dead ?n' \<longleftrightarrow> ?mm \<le> bn_miss ?n + 1" "bn_miss ?n' = bn_miss ?n + 1" using n False b(1) by (auto simp: node_view_def miss_view_def)
    show ?thesis
    proof (cases "bn_dead ?n'")
      case False
      then have "\<not> unat ?mm \<le> unat (bn_miss ?n) + 1" using v(1) u by (simp add: word_le_nat_alt)
      then have "unat (bn_miss ?n) + 1 < 255" "k \<noteq> 0" using unat_u8_le [of ?mm] b(2) by linarith+
      then show ?thesis using b(2) u v(2) by (simp add: word_less_nat_alt)
    qed simp
  qed
  then show "doomed i k m'" "k = 0 \<Longrightarrow> bn_dead ?n'" by (auto simp: doomed_def mm)
qed

lemma dead_count_pos:
  assumes "plane_inv N held s" "i < length (g_nodes s)" "bn_dead (g_nodes s ! i)"
  shows "0 < dead_count s"
proof -
  have "length (g_nodes s) \<le> 16" using assms(1) by (simp add: plane_inv_def ROSTER_MAX_def)
  then have "length (filter bn_dead (g_nodes s)) \<le> 16" using length_filter_le le_trans by blast
  moreover have "filter bn_dead (g_nodes s) \<noteq> []" using assms(2,3) by (auto simp: filter_empty_conv)
  ultimately show ?thesis by (simp add: dead_count_def word_less_nat_alt unat_of_nat)
qed

lemma silent_dies:
  assumes "plane_inv N [] (b_plane m)" "\<not> y_dirty (b_cyc m)" "i < length (g_nodes (b_plane m))" "silent i es m" "es \<noteq> []" "doomed i (length es) m"
  shows "bn_dead (g_nodes (b_plane (run_cycles es m)) ! i) \<and> 0 < g_il_nodes_dead (b_cyc (run_cycles es m))"
  using assms
proof (induction es arbitrary: m)
  case (Cons e es)
  let ?m = "snd (bus_run_cycle e m)"
  have D: "doomed i (Suc (length es)) m" using Cons.prems(6) by simp
  note C = silent_cycle [OF Cons.prems(1-4) D]
  show ?case
  proof (cases "es = []")
    case True
    then show ?thesis using C dead_count_pos [OF C(1) C(3)] by simp
  next
    case False
    then show ?thesis using Cons.IH [OF C(1-3) _ False C(4)] Cons.prems(4) by simp
  qed
qed simp

text \<open>
  C2. A node that says nothing is declared dead: after \<open>g_poll_max_misses\<close> consecutive cycles in which it was polled
  (not commanded) and no word was heard, from any reachable state of the message plane and whatever the producers and the
  other nodes do meanwhile, its dead flag is set and the count of dead nodes the interlock reads is positive.
\<close>

theorem silent_node_declared_dead:
  assumes "plane_inv N [] (b_plane m)" "\<not> y_dirty (b_cyc m)" "i < length (g_nodes (b_plane m))" "bn_miss (g_nodes (b_plane m) ! i) < 0xFF"
    "silent i es m" "es \<noteq> []" "unat (g_poll_max_misses (b_poll m)) \<le> length es"
  shows "bn_dead (g_nodes (b_plane (run_cycles es m)) ! i) \<and> 0 < g_il_nodes_dead (b_cyc (run_cycles es m))"
  using assms by (intro silent_dies) (auto simp: doomed_def)

text \<open>
  A node that is sent a command in every cycle is never polled, so whatever it does it is never declared dead: a
  cycle that commands a live node leaves its dead flag and its miss count as they were.
\<close>

theorem commanded_node_not_watched:
  assumes "plane_inv N [] (b_plane m)" "\<not> y_dirty (b_cyc m)" "i < length (g_nodes (b_plane m))" "\<not> bn_dead (g_nodes (b_plane m) ! i)"
    "commanded i (b_plane (cycle_open m))"
  shows "\<not> bn_dead (g_nodes (b_plane (snd (bus_run_cycle e m))) ! i)
    \<and> bn_miss (g_nodes (b_plane (snd (bus_run_cycle e m))) ! i) = bn_miss (g_nodes (b_plane m) ! i)"
proof -
  obtain acts m' where r: "bus_run_cycle e m = (acts, m')" by fastforce
  note C = cycle_spec [OF assms(1) r]
  have nv: "nodev (b_plane (cycle_open m)) = nodev (b_plane m)" by (rule open_keeps(2) [OF assms(2)])
  note v = view_eq [OF nv assms(3)]
  have i: "i < length (g_nodes (b_plane (cycle_open m)))" using nodev_length [OF nv] assms(3) by simp
  have "nodev (b_plane m') ! i = nodev (b_plane m) ! i" using C(6) [OF i] v assms(4,5) nv by simp
  then show ?thesis using nodev_nth [OF assms(3)] nodev_nth [of i "b_plane m'"] C(5) i assms(4) r by (simp add: node_view_def)
qed

section \<open>Messages are delivered in the next cycle\<close>

lemma send_index:
  assumes "plane_inv N held s"
  shows "node_index_of d' (snd (bus_msg_send d p t s)) = node_index_of d' s"
proof -
  have "map bn_addr (g_nodes (snd (bus_msg_send d p t s))) = map bn_addr (g_nodes s)"
    using send_shape [OF assms, of d p t] by (metis prod.collapse)
  moreover have f: "find_idx (\<lambda>n. bn_addr n = d') ns = find_idx (\<lambda>a. a = d') (map bn_addr ns)" for ns
    by (induction ns) simp_all
  ultimately show ?thesis unfolding node_index_of_def f by simp
qed

definition to_node :: "nat \<Rightarrow> plane \<Rightarrow> (u8 \<times> u8 list \<times> u32) list \<Rightarrow> u8 list list" where
  "to_node i s ms = map (\<lambda>(d, p, t). take BUS_PAYLOAD_MAX p) (filter (\<lambda>(d, p, t). node_index_of d s = Some i) ms)"

lemma send_all_fill:
  assumes "plane_inv N held s" "i < length (g_nodes s)" "length ms \<le> length (g_pool_free s)" "\<forall>m \<in> set ms. node_index_of (fst m) s \<noteq> None"
  shows "list_msgs (fill_idx s) i (snd (send_all ms s)) = rev (to_node i s ms) @ list_msgs (fill_idx s) i s
    \<and> g_active_idx (snd (send_all ms s)) = g_active_idx s"
  using assms
proof (induction ms arbitrary: s)
  case (Cons m ms)
  obtain d p t where m: "m = (d, p, t)" by (metis prod_cases3)
  obtain s1 where e: "bus_msg_send d p t s = (True, s1)"
  proof -
    have "g_pool_free s \<noteq> []" using Cons.prems(3) by auto
    then have "fst (bus_msg_send d p t s)" using send_result [of d p t s] Cons.prems(4) m by simp
    then show thesis using that by (metis (full_types) prod.collapse)
  qed
  note sh = send_shape [OF Cons.prems(1) e]
  have s1: "plane_inv N held s1" "node_index_of d' s1 = node_index_of d' s" for d'
    using send_inv [OF Cons.prems(1), of d p t] send_index [OF Cons.prems(1), of d' d p t] e by simp_all
  have f: "fill_idx s1 = fill_idx s" using sh by (simp add: fill_idx_def)
  have "i < length (g_nodes s1)" using sh Cons.prems(2) map_eq_imp_length_eq by metis
  then have IH: "list_msgs (fill_idx s) i (snd (send_all ms s1)) = rev (to_node i s1 ms) @ list_msgs (fill_idx s) i s1
      \<and> g_active_idx (snd (send_all ms s1)) = g_active_idx s1"
    using Cons.IH [OF s1(1)] sh Cons.prems(3,4) s1(2) f by auto
  have "to_node i s1 ms = to_node i s ms" by (simp add: to_node_def s1(2))
  moreover have "list_msgs (fill_idx s) i s1 = (if node_index_of d s = Some i then take BUS_PAYLOAD_MAX p # list_msgs (fill_idx s) i s else list_msgs (fill_idx s) i s)"
    using send_msgs [OF Cons.prems(1,2) _ e, of "fill_idx s"] by simp
  moreover have "snd (send_all (m # ms) s) = snd (send_all ms s1)" by (simp add: m e split: prod.split)
  ultimately show ?case using IH sh by (auto simp: to_node_def m)
qed (simp add: to_node_def)


section \<open>Replies reach their requester\<close>


text \<open>
  A command to an address that is not in the node table takes a row of the correlation table for good: the row is
  taken before the send fails, and nothing but a reply from that address gives it back.
\<close>

theorem unknown_node_leaks_correlation:
  assumes "c_pending (b_cmd m)" "node_index_of (c_slave (b_cmd m)) (b_plane m) = None" "\<exists>c \<in> set (g_corr (b_plane m)). \<not> cc_used c"
  shows "length (filter cc_used (g_corr (b_plane (cycle_stage_cmd m)))) = length (filter cc_used (g_corr (b_plane m))) + 1
    \<and> g_nodes (b_plane (cycle_stage_cmd m)) = g_nodes (b_plane m)"
proof -
  let ?s = "b_plane m" and ?c = "b_cmd m"
  obtain i where i: "find_idx (\<lambda>c. \<not> cc_used c) (g_corr ?s) = Some i"
    using assms(3) find_idx_None_set [of "\<lambda>c. \<not> cc_used c" "g_corr ?s"] by auto
  let ?r = "\<lparr>cc_req = c_req_id ?c, cc_host_req = c_req_id ?c, cc_addr = c_slave ?c, cc_is_orig = False, cc_used = True\<rparr>"
  have a: "snd (corr_add (c_req_id ?c) (c_slave ?c) False (c_req_id ?c) ?s) = ?s\<lparr>g_corr := (g_corr ?s)[i := ?r]\<rparr>" (is "?x = ?s1")
    by (simp add: corr_add_def i)
  have none: "node_index_of (c_slave ?c) ?s1 = None" using assms(2) by (simp add: node_index_of_def)
  have keep: "g_corr (snd (bus_msg_send d p t ?s1)) = g_corr ?s1 \<and> g_nodes (snd (bus_msg_send d p t ?s1)) = g_nodes ?s1"
    if "node_index_of d ?s1 = None" for d p t
    using that by (auto simp: bus_msg_send_def pool_grab_def pool_recover_def node_index_of_def Let_def split: list.split option.split)
  have len: "length (filter cc_used ((g_corr ?s)[i := ?r])) = length (filter cc_used (g_corr ?s)) + 1"
    using find_idx_SomeD [OF i] length_filter_update [of i "g_corr ?s" cc_used ?r] by simp
  show ?thesis using assms(1) keep [OF none] len by (simp add: cycle_stage_cmd_def Let_def a)
qed

section \<open>The per-slot machine always returns to the sweep\<close>

fun run_control :: "iter_env list \<Rightarrow> ctl \<Rightarrow> master \<Rightarrow> ctl \<times> master" where
  "run_control [] t m = (t, m)"
| "run_control (e # es) t m = (case bus_control_step e t m of (acts, t', m') \<Rightarrow> run_control es t' m')"

definition per_slot :: "master \<Rightarrow> bool" where
  "per_slot m \<longleftrightarrow> \<not> b_identity_refused m \<and> y_mode (b_cyc m) = 0"

lemma recv_keeps: "bus_recv ws m = (r, m') \<Longrightarrow> per_slot m' = per_slot m"
proof (induction ws m rule: bus_recv.induct)
  case (2 w ws m)
  have "per_slot (m\<lparr>b_bc := a\<rparr>) = per_slot m" for a by (simp add: per_slot_def)
  then show ?case using 2 by (auto split: prod.splits option.splits)
qed simp

lemma collect_frame_keeps: "collect_frame rf t m = (t', m') \<Longrightarrow> per_slot m \<Longrightarrow>
  per_slot m' \<and> (t_state t' = BS_SWEEP \<or> t' = try_again t)"
  by (auto simp: collect_frame_def per_slot_def relay_keeps split: if_splits option.splits)

lemma collect_step_spec:
  assumes "per_slot m" "t_state t = BS_CMD_COLLECT" "0 < t_collect_tries t" "bus_control_step e t m = (acts, t', m')"
  shows "per_slot m' \<and> (t_state t' = BS_SWEEP
    \<or> t_state t' = BS_CMD_COLLECT \<and> 0 < t_collect_tries t' \<and> t_collect_tries t' = t_collect_tries t - 1)"
proof -
  obtain m1 where s: "collect_step e t m = (acts, t', m1)" "m' = emit_liveness_edges m1"
    using assms by (auto simp: bus_control_step_def per_slot_def Let_def split: prod.splits)
  obtain acts1 m2 where b: "bus_send (t_collect_slave t) BUS_FT_POLL [] m = (acts1, m2)" by fastforce
  obtain r m3 where g: "bus_recv (it_words e) m2 = (r, m3)" by fastforce
  have p3: "per_slot m3" "per_slot (m3\<lparr>b_roster := x\<rparr>)" for x
    using assms(1) b recv_keeps [OF g] by (auto simp: per_slot_def bus_send_def)
  have again: "t_state (try_again t) = BS_SWEEP \<or> t_state (try_again t) = BS_CMD_COLLECT \<and> 0 < t_collect_tries (try_again t)
      \<and> t_collect_tries (try_again t) = t_collect_tries t - 1"
    using assms(2) by (auto simp: try_again_def Let_def word_gt_0)
  obtain t1 m4 where c: "(case r of
             Some rf \<Rightarrow> if f_src rf = t_collect_slave t
                then collect_frame rf t (m3\<lparr>b_roster := mark_alive (t_collect_slave t) (it_now e) (b_roster m3)\<rparr>)
                else (try_again t, m3)
           | None \<Rightarrow> (try_again t, m3)) = (t1, m4)" by fastforce
  have p4: "per_slot m4 \<and> (t_state t1 = BS_SWEEP \<or> t1 = try_again t)"
    using c p3 collect_frame_keeps by (fastforce split: option.splits if_splits)
  have f: "t' = t1" "m1 = (if t_collect_is_orig t \<and> g_pp_run (b_pp m) \<and> t_state t1 = BS_SWEEP then pp_kick m4 else m4)"
    using s(1) by (auto simp: collect_step_def Let_def b g c)
  have "per_slot (pp_kick x) = per_slot x" "per_slot (emit_liveness_edges x) = per_slot x" for x
    by (simp_all add: per_slot_def pp_kick_def emit_liveness_edges_def Let_def split: prod.split)
  then show ?thesis using p4 again f s(2) by auto
qed

text \<open>
  C8. Once a command is injected the per-slot machine polls for its reply at most \<open>CMD_COLLECT_TRIES\<close> times: whatever is
  heard on the line, the machine is back at the sweep after that many iterations.
\<close>

theorem collect_terminates:
  assumes "per_slot m" "t_state t = BS_CMD_COLLECT" "0 < t_collect_tries t" "unat (t_collect_tries t) \<le> length es"
  shows "\<exists>k \<le> unat (t_collect_tries t). t_state (fst (run_control (take k es) t m)) = BS_SWEEP"
  using assms
proof (induction es arbitrary: t m)
  case Nil
  then show ?case by (simp add: word_less_nat_alt)
next
  case (Cons e es)
  obtain acts t' m' where s: "bus_control_step e t m = (acts, t', m')" by (metis prod_cases3)
  note S = collect_step_spec [OF Cons.prems(1-3) s]
  show ?case
  proof (cases "t_state t' = BS_SWEEP")
    case True
    then show ?thesis using Cons.prems(3) by (intro exI [of _ 1]) (simp add: s word_less_nat_alt)
  next
    case False
    have u: "unat (t_collect_tries t') = unat (t_collect_tries t) - 1" "0 < unat (t_collect_tries t)"
      using S False Cons.prems(3) unat_dec_word [of "t_collect_tries t"] by (simp_all add: word_less_nat_alt)
    obtain k where "k \<le> unat (t_collect_tries t')" "t_state (fst (run_control (take k es) t' m')) = BS_SWEEP"
    proof -
      have "per_slot m'" "t_state t' = BS_CMD_COLLECT" "0 < t_collect_tries t'" using S False by auto
      moreover have "unat (t_collect_tries t') \<le> length es" unfolding u(1) using Cons.prems(4) by simp
      ultimately show thesis using Cons.IH [of m' t'] that by blast
    qed
    then show ?thesis using u by (intro exI [of _ "Suc k"]) (simp add: s)
  qed
qed

section \<open>A controller with two nodes\<close>

definition demo_slave :: "u8 \<Rightarrow> slave" where
  "demo_slave a = (new_slave a 7 FLAG_ENABLED)\<lparr>sl_state := ST_DEAD, sl_announced_state := ST_ALIVE\<rparr>"

definition demo_poll :: poll_st where
  "demo_poll = \<lparr>g_poll_period_ms = 500, g_poll_max_misses = 1, g_poll_tcp_retries = 2, g_poll_enabled = 1, g_poll_total = 0, g_poll_alive = 0,
     g_poll_miss = 0, g_last_ta_us = 0, g_meas_ta_us = 0, g_miss_silent = 0, g_miss_partial = 0, g_bus_msgs = 0\<rparr>"

definition demo_cyc :: cycle_st where
  "demo_cyc = \<lparr>y_mode = 1, y_last = 0, y_min = 0, y_max = 0, y_deadline_us = 5000, y_overruns = 0, y_minslack = 0x7FFFFFFF, y_slow_addr = 0,
     y_slow_us = 0, y_pace_us = 0, y_slowpoll_div = 200, y_revives = 0, y_nodes_dead = 0, g_il_nodes_dead = 0, y_dirty = False, y_rebuilds = 0,
     y_dead_cursor = 0, y_dead_tick = 0, y_collecting = False, y_fb = [], y_fb_rec = 0, y_fb_frames = 0, y_fb_drops = 0, y_corr_relayed = 0,
     y_seen_ex = 0, y_last_ex_ms = 0, y_last_notify_ms = 0\<rparr>"

definition demo_cmd :: cmd_slot where
  "demo_cmd = \<lparr>c_pending = False, c_slave = 0, c_op = 0, c_req_id = 0, c_body = [], c_is_orig = False, c_host_req = 0, c_orig_seq = 0\<rparr>"

definition demo_master :: master where
  "demo_master = \<lparr>b_plane = ready_plane, b_pool_n = 24, b_pool_selftest = 24, b_pp_selftest = True, b_roster = [demo_slave 9, demo_slave 5],
     b_cursor = 0, b_cmd = demo_cmd, b_poll = demo_poll, b_cyc = demo_cyc,
     b_pp = \<lparr>g_pp_master = 0, g_pp_slave = 0, g_pp_slave_seen = 0, g_pp_run = False, g_pp_addr = 9, g_pp_kicks = 0\<rparr>,
     b_up = \<lparr>g_uplink_mode = 0, g_uplink_active = False, g_host_connected = False, g_uplink_force = 0xFF, g_uplink_force_until = 0, g_n_ap = 0\<rparr>,
     b_hl = host_link_init demo_cfg, b_bc = bus_asm_init asm0 0 False, b_bus_seq = 0, b_down_q = [], b_orig_q = [],
     b_identity_refused = False, b_nd = nd_bench\<rparr>"

definition mute_env :: cycle_env where
  "mute_env = \<lparr>ce_prod = (\<lambda>_. []), ce_poll_prod = (\<lambda>_. []), ce_slot = (\<lambda>_. \<lparr>se_passes = [], se_ta = 0, se_end = 0\<rparr>), ce_slot_us = (\<lambda>_. 0),
     ce_now = (\<lambda>_. 0), ce_probe = (\<lambda>_. \<lparr>se_passes = [], se_ta = 0, se_end = 0\<rparr>), ce_probe_now = 0, ce_ex_ms = 0, ce_ct = 100, ce_over_ms = 0\<rparr>"

lemma demo_nodes:
  "g_nodes (b_plane demo_master) = [fresh_node 5 True, fresh_node 9 True]" "queued (b_plane demo_master) = []"
  "plane_inv 24 [] (b_plane demo_master)"
  using plane_with_inv(2) [of "[(9, True), (5, True)]"]
  by (simp_all add: demo_master_def ready_inv)
    (simp_all add: ready_plane_def plane_with_def bus_nodetable_build_def fresh_node_def ROSTER_MAX_def)

lemma demo_simps:
  "\<not> y_dirty (b_cyc demo_master)" "\<not> c_pending (b_cmd demo_master)" "b_poll demo_master = demo_poll" "b_bus_seq demo_master = 0"
  "b_roster demo_master = [demo_slave 9, demo_slave 5]" "b_hl demo_master = host_link_init demo_cfg" "\<not> b_identity_refused demo_master"
  by (simp_all add: demo_master_def demo_cyc_def demo_cmd_def)

lemma demo_open: "g_nodes (b_plane (cycle_open demo_master)) = [fresh_node 5 True, fresh_node 9 True]"
  by (simp add: cycle_open_def cycle_stage_cmd_def cycle_rebuild_def demo_simps bus_pingpong_swap_def demo_nodes(1))

lemma demo_not_commanded: "i < 2 \<Longrightarrow> \<not> commanded i (b_plane (cycle_open demo_master))"
proof -
  assume i: "i < 2"
  have "g_active_idx (b_plane (cycle_open demo_master)) < 2" using open_keeps(1) [OF demo_nodes(3)] by (simp add: plane_inv_def)
  then show ?thesis using i by (auto simp: commanded_def demo_open fresh_node_def less_2_cases_iff)
qed

theorem silent_node_declared_dead_witness:
  "bn_dead (g_nodes (b_plane (run_cycles [mute_env] demo_master)) ! 1) \<and> 0 < g_il_nodes_dead (b_cyc (run_cycles [mute_env] demo_master))"
  by (rule silent_node_declared_dead [OF demo_nodes(3)])
    (simp_all add: demo_simps demo_nodes(1) fresh_node_def demo_not_commanded mute_def mute_env_def demo_poll_def)

theorem liveness_edges_reported_witness:
  "pending_edges (b_roster demo_master) = 2 \<and> pending_edges (b_roster (emit_liveness_edges demo_master)) = 1"
proof -
  have inv: "link_inv (b_hl demo_master)" using link_reach_inv [OF demo_reach] by (simp add: demo_simps)
  have two: "pending_edges (b_roster demo_master) = 2"
    by (simp add: pending_edges_def demo_simps demo_slave_def new_slave_def state_edge_def st_defs)
  have "28 \<le> room (h_tx (b_hl demo_master))" by (simp add: demo_simps host_link_init_def frame_ring_init_def frame_ring_free_def frame_ring_used_def HOST_LINK_TX_RING_SIZE_def)
  then show ?thesis using liveness_edges_reported [OF inv] two by (auto split: if_splits)
qed


definition demo_reply :: bus_frame where
  "demo_reply = \<lparr>f_dest = 0, f_src = 9, f_type = BUS_FT_DATA, f_seq = 1, f_len = 5, f_payload = [0x11, 0, 7, 0, 0] @ replicate 235 0\<rparr>"

definition demo_asked :: master where
  "demo_asked = demo_master\<lparr>b_plane := snd (corr_add 7 9 False 7 ready_plane)\<rparr>"

lemma init_corr: "g_corr (snd (bus_pool_init c s)) = g_corr s"
proof -
  have g: "g_corr (snd (pool_grab s)) = g_corr s" for s by (simp add: pool_grab_def Let_def split: list.split)
  have "g_corr (snd (grab_all k s)) = g_corr s" for k s
  proof (induction k arbitrary: s)
    case (Suc k)
    obtain r s1 where r: "pool_grab s = (r, s1)" by fastforce
    then show ?case using g [of s] Suc [of s1] by (cases r; cases "grab_all k s1") simp_all
  qed simp
  moreover define s1 where "s1 = fold pool_recover [0..<min c BUS_POOL_N] (s\<lparr>g_pool_free := [], g_pool_avail := 0\<rparr>)"
  moreover obtain got s3 where "grab_all (unat (g_pool_avail s1)) (s1\<lparr>g_pool_low := g_pool_avail s1\<rparr>) = (got, s3)" by fastforce
  moreover obtain extra s4 where "pool_grab s3 = (extra, s4)" by fastforce
  ultimately have "g_corr s4 = g_corr s" "snd (bus_pool_init c s) = fold pool_recover got s4"
    using g [of s3] by (force simp: s1_def dest: arg_cong [where f = "\<lambda>x. g_corr (snd x)"], simp add: bus_pool_init_def Let_def)
  then show ?thesis by simp
qed

lemma asked_take: "corr_take 7 9 (b_plane demo_asked) = (Some (False, 7), snd (corr_take 7 9 (b_plane demo_asked)))"
proof -
  have "g_corr ready_plane = replicate 8 \<lparr>cc_req = 0, cc_host_req = 0, cc_addr = 0, cc_is_orig = False, cc_used = False\<rparr>"
    by (simp add: ready_plane_def plane_with_def init_corr) (simp add: plane0_def CMDCORR_MAX_def)
  then have "find_idx (\<lambda>c. \<not> cc_used c) (g_corr ready_plane) = Some 0" by (simp add: numeral_nat)
  then show ?thesis using \<open>g_corr ready_plane = _\<close> by (simp add: demo_asked_def corr_add_def corr_take_def numeral_nat)
qed


theorem collect_terminates_witness:
  "\<exists>k \<le> 15. t_state (fst (run_control (take k (replicate 15 \<lparr>it_now = 0, it_words = [], it_slot = ce_slot mute_env 0, it_seen_ms = 0, it_cycle = mute_env\<rparr>))
     \<lparr>t_state = BS_CMD_COLLECT, t_collect_slave = 9, t_collect_tries = 15, t_collect_is_orig = False, t_collect_host = 0\<rparr>
     (demo_master\<lparr>b_cyc := demo_cyc\<lparr>y_mode := 0\<rparr>\<rparr>))) = BS_SWEEP"
  using collect_terminates [of "demo_master\<lparr>b_cyc := demo_cyc\<lparr>y_mode := 0\<rparr>\<rparr>"
    "\<lparr>t_state = BS_CMD_COLLECT, t_collect_slave = 9, t_collect_tries = 15, t_collect_is_orig = False, t_collect_host = 0\<rparr>"
    "replicate 15 \<lparr>it_now = 0, it_words = [], it_slot = ce_slot mute_env 0, it_seen_ms = 0, it_cycle = mute_env\<rparr>"]
  by (simp add: per_slot_def demo_simps)

end
