(* ===== verification/Uplink.thy ===== *)
theory Uplink
  imports Bus_Run
begin

text \<open>
  The uplink thread (\<^verbatim>\<open>src/app/bus_controller/main.c\<close>): the pumps that feed the host link from USB or WiFi
  and drain it, what entering an uplink mode does to the link and the roster, and the supervisor's choice of a transport.

  The bytes a transport delivers, its state and the clock are arguments.
\<close>

unbundle bit_operations_syntax

section \<open>The pumps\<close>

text \<open>The bytes from the host, each with whatever the link calls back; \<open>None\<close> is the undefined division of the PWM command.\<close>

definition upcall_step :: "dev \<Rightarrow> u32 \<Rightarrow> upcall option \<Rightarrow> master \<Rightarrow> master option" where
  "upcall_step d now u m = (case u of None \<Rightarrow> Some m
     | Some (On_bus_msg dest op body) \<Rightarrow> Some (on_bus_msg dest op body m)
     | Some (On_local_shell req cmd args) \<Rightarrow> on_local_shell d now req cmd args m)"

fun feed_host :: "dev \<Rightarrow> u32 \<Rightarrow> u8 list \<Rightarrow> master \<Rightarrow> master option" where
  "feed_host d now [] m = Some m"
| "feed_host d now (b # bs) m = (case host_link_feed b (b_hl m) of (u, h) \<Rightarrow>
     case upcall_step d now u (m\<lparr>b_hl := h\<rparr>) of None \<Rightarrow> None | Some m' \<Rightarrow> feed_host d now bs m')"

definition relay_up :: "appcore_rep list \<Rightarrow> host_link \<Rightarrow> host_link" where
  "relay_up ups h = foldl (\<lambda>h r. snd (host_link_s2m (ar_dest r) (ar_opcode r) (ar_payload r) h)) h ups"

definition drain_up :: "(appcore_rep list \<Rightarrow> host_link \<Rightarrow> host_link) \<Rightarrow> master \<Rightarrow> master" where
  "drain_up f m = m\<lparr>b_hl := f (nd_up_q (b_nd m)) (b_hl m), b_nd := (b_nd m)\<lparr>nd_up_q := []\<rparr>\<rparr>"

definition usb_pump :: "dev \<Rightarrow> u32 \<Rightarrow> u8 list \<Rightarrow> master \<Rightarrow> (u8 list \<times> master) option" where
  "usb_pump d now bs m = (case feed_host d now bs m of None \<Rightarrow> None
     | Some m1 \<Rightarrow> (let m2 = drain_up relay_up (m1\<lparr>b_hl := host_link_tick now True (b_hl m1)\<rparr>);
                      (out, h) = host_link_tx_drain 64 (b_hl m2)
                  in Some (out, m2\<lparr>b_hl := h\<rparr>)))"

definition standalone_pump :: "u32 \<Rightarrow> master \<Rightarrow> master" where
  "standalone_pump now m =
     (let m1 = drain_up (\<lambda>_ h. h) (m\<lparr>b_hl := host_link_tick now False (b_hl m)\<rparr>)
      in m1\<lparr>b_hl := snd (host_link_tx_drain 64 (b_hl m1))\<rparr>)"

text \<open>WiFi: the frames go out before the datagram \<open>bs\<close> is read; \<open>wrote\<close> says whether the socket took them, and the flag
  of the result whether the link lives.\<close>

definition wifi_pump :: "dev \<Rightarrow> u32 \<Rightarrow> bool \<Rightarrow> bool \<Rightarrow> u8 list \<Rightarrow> master \<Rightarrow> (bool \<times> u8 list \<times> master) option" where
  "wifi_pump d now link_up wrote bs m =
     (if \<not> link_up then Some (False, [], m)
      else (let m1 = drain_up relay_up (m\<lparr>b_hl := host_link_tick now True (b_hl m)\<rparr>);
                (out, h) = host_link_tx_drain 256 (b_hl m1); m2 = m1\<lparr>b_hl := h\<rparr>
            in if out \<noteq> [] \<and> \<not> wrote then Some (False, out, m2)
               else (case feed_host d now (take 128 bs) m2 of None \<Rightarrow> None | Some m3 \<Rightarrow> Some (True, out, m3))))"

section \<open>Entering an uplink mode\<close>

text \<open>\<open>rc\<close> is the result code of \<open>boot_read_roster\<close> with the structure it filled.\<close>

definition bc_load_cfg_roster :: "int \<times> roster_cfg \<Rightarrow> master \<Rightarrow> master" where
  "bc_load_cfg_roster rc m =
     (let m = m\<lparr>b_roster := [], b_cursor := 0\<rparr>; off = m\<lparr>b_poll := (b_poll m)\<lparr>g_poll_enabled := 0\<rparr>\<rparr> in
      if b_identity_refused m then off
      else case rc of (r, c) \<Rightarrow>
          if r \<noteq> ROSTER_OK then off else
          (let ros = map (\<lambda>s. new_slave (rs_addr s) (ucast (rs_variant s)) (rs_flags s)) (take ROSTER_MAX (rc_s c)); p = b_poll m
           in m\<lparr>b_roster := ros,
                b_poll := p\<lparr>g_poll_period_ms := (if rc_grant_period_ms c \<noteq> 0 then rc_grant_period_ms c else g_poll_period_ms p),
                  g_poll_max_misses := (if rc_max_misses c \<noteq> 0 then rc_max_misses c else g_poll_max_misses p),
                  g_poll_tcp_retries := (if rc_tcp_retries c \<noteq> 0 then rc_tcp_retries c else g_poll_tcp_retries p),
                  g_poll_enabled := (if ros \<noteq> [] then 1 else 0)\<rparr>\<rparr>))"

text \<open>The boot banner.  \<open>boot_info\<close> holds what it reports and the controller's state does not: the crash slot, the results of
  the boot readers and the credentials (SSID and passphrase without the closing \<open>NUL\<close>).\<close>

record boot_info =
  bi_boot_count :: u32
  bi_last_cause :: nat
  bi_id_rc :: int
  bi_hwio_rc :: int
  bi_ilcf_rc :: int
  bi_il_armfail :: u32
  bi_bus_baud :: u32
  bi_neti_rc :: int
  bi_ssid0 :: "u8 list"
  bi_ip :: "u8 list"
  bi_port :: u16
  bi_pwlen :: nat

definition RST_NAME :: "string list" where
  "RST_NAME = [''POWER'', ''WDT'', ''PANIC'', ''STACK'', ''MALLOC'']"

definition dec_int :: "int \<Rightarrow> u8 list" where
  "dec_int k = (if k < 0 then 0x2D # dec_nat (nat (- k)) else dec_nat (nat k))"

definition hex8 :: "u32 \<Rightarrow> u8 list" where
  "hex8 w = concat (map (\<lambda>k. hex2 (ucast (drop_bit k w))) [24, 16, 8, 0])"

definition banner_text :: "boot_info \<Rightarrow> master \<Rightarrow> u8 list" where
  "banner_text b m = ascii ''[boot] bus_controller boot#'' @ dec_nat (unat (bi_boot_count b)) @ ascii '' rst='' @ ascii (RST_NAME ! bi_last_cause b)
     @ ascii '' ident='' @ dec_int (bi_id_rc b) @ (if b_identity_refused m then ascii '' REFUSED'' else []) @ ascii '' hwio='' @ dec_int (bi_hwio_rc b)
     @ ascii '' il='' @ dec_int (bi_ilcf_rc b) @ ascii '' ilfail=0x'' @ hex8 (bi_il_armfail b) @ ascii '' slvr='' @ dec_nat (length (b_roster m))
     @ ascii '' baud='' @ dec_nat (unat (bi_bus_baud b)) @ ascii '' neti='' @ dec_int (bi_neti_rc b) @ ascii '' pool='' @ dec_nat (unat (b_pool_selftest m))
     @ ascii ''/'' @ dec_nat (unat (b_pool_n m)) @ ascii '' nodes='' @ dec_nat (length (g_nodes (b_plane m)))"

definition wifi_text :: "boot_info \<Rightarrow> master \<Rightarrow> u8 list" where
  "wifi_text b m = ascii '' aps='' @ dec_nat (unat (g_n_ap (b_up m))) @ ascii '' ssid0='' @ bi_ssid0 b @ ascii '' '' @ dec_nat (unat (bi_ip b ! 0)) @ ascii ''.''
     @ dec_nat (unat (bi_ip b ! 1)) @ ascii ''.'' @ dec_nat (unat (bi_ip b ! 2)) @ ascii ''.'' @ dec_nat (unat (bi_ip b ! 3)) @ ascii '':''
     @ dec_nat (unat (bi_port b)) @ ascii '' pwlen='' @ dec_nat (bi_pwlen b)"

definition boot_banner :: "boot_info \<Rightarrow> master \<Rightarrow> u8 list" where
  "boot_banner b m =
     (let t = banner_text b m; t = (if bi_neti_rc b = NETI_OK \<and> length t < 200 then t @ wifi_text b m else t)
      in if length t < 200 then t else take 199 t @ [0])"

definition bc_emit_boot_banner :: "boot_info \<Rightarrow> master \<Rightarrow> master" where
  "bc_emit_boot_banner b m = m\<lparr>b_hl := snd (host_link_s2m 1 OP_DBG_LOG (boot_banner b m) (b_hl m))\<rparr>"

definition uplink_enter :: "int \<times> roster_cfg \<Rightarrow> boot_info \<Rightarrow> bool \<Rightarrow> master \<Rightarrow> master" where
  "uplink_enter rc b active m =
     (let m = bc_load_cfg_roster rc (m\<lparr>b_hl := host_link_reset_boot (b_hl m), b_cmd := (b_cmd m)\<lparr>c_pending := False\<rparr>\<rparr>);
          m = m\<lparr>b_up := (b_up m)\<lparr>g_host_connected := active, g_uplink_active := active\<rparr>\<rparr>
      in if active then bc_emit_boot_banner b m else m)"

definition UPL_STANDALONE :: u8 where "UPL_STANDALONE = 0"
definition UPL_USB :: u8 where "UPL_USB = 1"
definition UPL_WIFI :: u8 where "UPL_WIFI = 2"
definition UPLINK_DEBOUNCE :: u8 where "UPLINK_DEBOUNCE = 10"

text \<open>The transport the supervisor wants: USB, else WiFi (\<open>wifi\<close>: joined with a socket), else none; a force window
  overrides it until it expires.\<close>

definition uplink_desired :: "bool \<Rightarrow> bool \<Rightarrow> u32 \<Rightarrow> uplink_st \<Rightarrow> u8 \<times> uplink_st" where
  "uplink_desired usb wifi now u =
     (let desired = (if usb then UPL_USB else if wifi then UPL_WIFI else UPL_STANDALONE) in
      if g_uplink_force u \<noteq> 0xFF then
        (if sint (now - g_uplink_force_until u) < 0 then (g_uplink_force u, u) else (desired, u\<lparr>g_uplink_force := 0xFF\<rparr>))
      else (desired, u))"

text \<open>The debounce: \<open>want\<close> and \<open>want_n\<close> are the supervisor's locals; the flag says whether the switch was committed.\<close>

definition uplink_debounce :: "u8 \<Rightarrow> u8 \<times> u8 \<Rightarrow> u8 \<Rightarrow> bool \<times> (u8 \<times> u8)" where
  "uplink_debounce mode w desired =
     (if desired \<noteq> mode then
        (let w = (if desired = fst w then (fst w, snd w + 1) else (desired, 1))
         in if snd w \<ge> UPLINK_DEBOUNCE then (True, (fst w, 0)) else (False, w))
      else (False, (desired, 0)))"

definition uplink_select :: "int \<times> roster_cfg \<Rightarrow> boot_info \<Rightarrow> bool \<Rightarrow> bool \<Rightarrow> u32 \<Rightarrow> u8 \<times> u8 \<Rightarrow> master \<Rightarrow> (u8 \<times> u8) \<times> master" where
  "uplink_select rc b usb wifi now w m =
     (let (desired, u) = uplink_desired usb wifi now (b_up m); m = m\<lparr>b_up := u\<rparr>;
          (commit, w') = uplink_debounce (g_uplink_mode u) w desired
      in (w', if commit then uplink_enter rc b (desired \<noteq> UPL_STANDALONE) (m\<lparr>b_up := u\<lparr>g_uplink_mode := desired\<rparr>\<rparr>) else m))"

section \<open>The debounce of the transport\<close>

text \<open>The iteration of the supervisor at which a switch away from \<open>mode\<close> is committed, for the sequence of the modes it wants.\<close>

fun first_commit :: "u8 \<Rightarrow> u8 \<times> u8 \<Rightarrow> u8 list \<Rightarrow> nat option" where
  "first_commit mode w [] = None"
| "first_commit mode w (d # ds) = (case uplink_debounce mode w d of (commit, w') \<Rightarrow>
     if commit then Some 0 else map_option Suc (first_commit mode w' ds))"

text \<open>How long the last wanted mode has been wanted.\<close>

definition streak :: "u8 \<Rightarrow> u8 list \<Rightarrow> nat" where
  "streak mode h = length (takeWhile (\<lambda>d. d = last h \<and> d \<noteq> mode) (rev h))"

lemma streak_Nil [simp]: "streak mode [] = 0"
  by (simp add: streak_def)

lemma streak_snoc: "streak mode (h @ [d]) = (if d = mode then 0 else if h \<noteq> [] \<and> last h = d then streak mode h + 1 else 1)"
proof (cases "h = []")
  case False
  then obtain xs x where h: "h = xs @ [x]" by (metis rev_exhaust)
  then show ?thesis by (auto simp: streak_def intro!: arg_cong [of _ _ length] takeWhile_cong)
qed (simp add: streak_def)

lemma le_takeWhile: "n \<le> length (takeWhile P xs) \<longleftrightarrow> n \<le> length xs \<and> (\<forall>j < n. P (xs ! j))"
proof (induction xs arbitrary: n)
  case (Cons x xs)
  then show ?case by (cases n) (auto simp: less_Suc_eq_0_disj)
qed auto

lemma streak_10: "10 \<le> streak mode h \<longleftrightarrow> 10 \<le> length h \<and> last h \<noteq> mode \<and> (\<forall>j < 10. h ! (length h - 1 - j) = last h)"
proof -
  have "10 \<le> streak mode h \<longleftrightarrow> 10 \<le> length h \<and> (\<forall>j < 10. h ! (length h - 1 - j) = last h \<and> h ! (length h - 1 - j) \<noteq> mode)"
    unfolding streak_def le_takeWhile by (simp add: rev_nth cong: conj_cong)
  moreover have "(\<forall>j < 10. f j = l \<and> f j \<noteq> mode) \<longleftrightarrow> l \<noteq> mode \<and> (\<forall>j < 10. f j = l)" for f :: "nat \<Rightarrow> u8" and l
    by (metis zero_less_numeral)
  ultimately show ?thesis by simp
qed

lemma find_upt_Suc: "find P [0..<Suc n] = (if P 0 then Some 0 else map_option Suc (find (\<lambda>k. P (Suc k)) [0..<n]))"
proof -
  have f: "find P (map Suc xs) = map_option Suc (find (\<lambda>k. P (Suc k)) xs)" for xs by (induction xs) simp_all
  have "[0..<Suc n] = 0 # map Suc [0..<n]" by (simp add: map_Suc_upt upt_conv_Cons del: upt_Suc)
  then show ?thesis by (simp add: f)
qed

lemma debounce_step:
  assumes "unat (snd w) = streak mode h" "streak mode h < 10" "h \<noteq> [] \<and> 0 < streak mode h \<longrightarrow> fst w = last h" "uplink_debounce mode w d = (c, w')"
  shows "c \<longleftrightarrow> 10 \<le> streak mode (h @ [d])"
    "\<not> c \<Longrightarrow> unat (snd w') = streak mode (h @ [d]) \<and> (0 < streak mode (h @ [d]) \<longrightarrow> fst w' = d)"
proof -
  have u: "unat (snd w + 1) = unat (snd w) + 1" using assms(1,2) by (intro unat_inc_u8) simp
  have "(c \<longleftrightarrow> 10 \<le> streak mode (h @ [d])) \<and> (\<not> c \<longrightarrow> unat (snd w') = streak mode (h @ [d]) \<and> (0 < streak mode (h @ [d]) \<longrightarrow> fst w' = d))"
  proof (cases "d = mode")
    case True
    then show ?thesis using assms(4) by (auto simp: uplink_debounce_def streak_snoc)
  next
    case False
    obtain x k where xk: "(if d = fst w then (fst w, snd w + 1) else (d, 1)) = (x, k)" by (metis prod.exhaust)
    have st: "h = [] \<or> last h \<noteq> d \<Longrightarrow> fst w = d \<Longrightarrow> streak mode h = 0" "h \<noteq> [] \<Longrightarrow> last h = d \<Longrightarrow> fst w \<noteq> d \<Longrightarrow> streak mode h = 0"
      using assms(3) by auto
    have x: "x = d" using xk by (auto split: if_splits)
    have "unat k = (if d = fst w then streak mode h + 1 else 1)" using xk u assms(1) by (auto split: if_splits)
    also have "\<dots> = streak mode (h @ [d])" using False st by (simp add: streak_snoc)
    finally have k: "unat k = streak mode (h @ [d])" .
    have "uplink_debounce mode w d = (if UPLINK_DEBOUNCE \<le> k then (True, (x, 0)) else (False, (x, k)))"
      unfolding uplink_debounce_def xk using False by simp
    then have "c \<longleftrightarrow> 10 \<le> unat k" "\<not> c \<Longrightarrow> w' = (x, k)"
      using assms(4) by (simp_all add: UPLINK_DEBOUNCE_def word_le_nat_alt split: if_splits)
    then show ?thesis using k x by simp
  qed
  then show "c \<longleftrightarrow> 10 \<le> streak mode (h @ [d])" "\<not> c \<Longrightarrow> unat (snd w') = streak mode (h @ [d]) \<and> (0 < streak mode (h @ [d]) \<longrightarrow> fst w' = d)"
    by blast+
qed

lemma first_commit_streak:
  "unat (snd w) = streak mode h \<Longrightarrow> streak mode h < 10 \<Longrightarrow> h \<noteq> [] \<and> 0 < streak mode h \<longrightarrow> fst w = last h \<Longrightarrow>
   first_commit mode w ds = find (\<lambda>k. 10 \<le> streak mode (h @ take (Suc k) ds)) [0..<length ds]"
proof (induction ds arbitrary: w h)
  case (Cons d ds)
  obtain c w' where w': "uplink_debounce mode w d = (c, w')" by (cases "uplink_debounce mode w d")
  note D = debounce_step [OF Cons.prems w']
  show ?case
  proof (cases c)
    case True
    then show ?thesis using D(1) w' by (simp add: find_upt_Suc del: upt_Suc)
  next
    case False
    then have "first_commit mode w' ds = find (\<lambda>k. 10 \<le> streak mode ((h @ [d]) @ take (Suc k) ds)) [0..<length ds]"
      using D by (intro Cons.IH) auto
    then show ?thesis using False D(1) w' by (simp add: find_upt_Suc del: upt_Suc)
  qed
qed simp

text \<open>
  C16. The supervisor leaves a transport exactly when another one has been wanted in ten iterations running: the first
  commit happens at the first iteration that ends ten equal wishes different from the current mode, never earlier and never
  later, so a short drop of USB or WiFi never switches the uplink.
\<close>

theorem uplink_switch_debounced:
  "first_commit mode (x, 0) ds = find (\<lambda>k. 9 \<le> k \<and> ds ! k \<noteq> mode \<and> (\<forall>j < 10. ds ! (k - j) = ds ! k)) [0..<length ds]"
proof -
  have "first_commit mode (x, 0) ds = find (\<lambda>k. 10 \<le> streak mode (take (Suc k) ds)) [0..<length ds]"
    using first_commit_streak [of "(x, 0)" mode "[]" ds] by simp
  also have "\<dots> = find (\<lambda>k. 9 \<le> k \<and> ds ! k \<noteq> mode \<and> (\<forall>j < 10. ds ! (k - j) = ds ! k)) [0..<length ds]"
  proof (rule find_cong [OF refl])
    fix k assume "k \<in> set [0..<length ds]"
    then have k: "k < length ds" by simp
    then have "last (take (Suc k) ds) = ds ! k" by (simp add: take_Suc_conv_app_nth)
    then show "10 \<le> streak mode (take (Suc k) ds) \<longleftrightarrow> 9 \<le> k \<and> ds ! k \<noteq> mode \<and> (\<forall>j < 10. ds ! (k - j) = ds ! k)"
      unfolding streak_10 using k by auto
  qed
  finally show ?thesis .
qed

theorem uplink_switch_debounced_witness: "first_commit UPL_USB (UPL_USB, 0) (replicate 3 UPL_WIFI @ UPL_USB # replicate 11 UPL_STANDALONE) = Some 13"
  unfolding uplink_switch_debounced by code_simp

text \<open>
  Entering an uplink mode restores the commissioned roster but not the node table: the cycle goes on with the nodes the
  previous session registered, since the reload does not mark the table as stale.
\<close>

theorem reload_keeps_node_table:
  assumes "\<not> y_dirty (b_cyc m)"
  shows "nodev (b_plane (cycle_open (uplink_enter rc b active m))) = nodev (b_plane m)"
proof -
  have "b_plane (uplink_enter rc b active m) = b_plane m \<and> b_cyc (uplink_enter rc b active m) = b_cyc m"
    by (simp add: uplink_enter_def bc_load_cfg_roster_def bc_emit_boot_banner_def Let_def split: prod.split)
  then show ?thesis using open_keeps(2) [of "uplink_enter rc b active m"] assms by simp
qed


section \<open>The boot banner\<close>

lemma dec_nat_nonempty: "1 \<le> length (dec_nat n)"
  by (subst dec_nat.simps) simp

lemma dec_int_nonempty: "1 \<le> length (dec_int k)"
  using dec_nat_nonempty by (simp add: dec_int_def)

lemma ascii_length [simp]: "length (ascii t) = length t"
  by (simp add: ascii_def)

lemma banner_lengths:
  assumes "bi_last_cause b < 5"
  shows "112 \<le> length (banner_text b m)" "31 \<le> length (wifi_text b m)"
proof -
  have r: "3 \<le> length (RST_NAME ! bi_last_cause b)"
    using assms by (simp add: RST_NAME_def less_Suc_eq numeral_eq_Suc) auto
  have h: "length (hex8 w) = 8" for w by (simp add: hex8_def hex2_def)
  show "112 \<le> length (banner_text b m)"
    using dec_nat_nonempty [of "unat (bi_boot_count b)"] dec_int_nonempty [of "bi_id_rc b"] dec_int_nonempty [of "bi_hwio_rc b"] dec_int_nonempty [of "bi_ilcf_rc b"]
      dec_nat_nonempty [of "length (b_roster m)"] dec_nat_nonempty [of "unat (bi_bus_baud b)"] dec_int_nonempty [of "bi_neti_rc b"]
      dec_nat_nonempty [of "unat (b_pool_selftest m)"] dec_nat_nonempty [of "unat (b_pool_n m)"] dec_nat_nonempty [of "length (g_nodes (b_plane m))"] r
    by (simp add: banner_text_def h)
  show "31 \<le> length (wifi_text b m)"
    using dec_nat_nonempty [of "unat (g_n_ap (b_up m))"] dec_nat_nonempty [of "unat (bi_ip b ! 0)"] dec_nat_nonempty [of "unat (bi_ip b ! 1)"]
      dec_nat_nonempty [of "unat (bi_ip b ! 2)"] dec_nat_nonempty [of "unat (bi_ip b ! 3)"] dec_nat_nonempty [of "unat (bi_port b)"] dec_nat_nonempty [of "bi_pwlen b"]
    by (simp add: wifi_text_def)
qed

lemma banner_length: "length (boot_banner b m) \<le> 200"
  by (auto simp: boot_banner_def Let_def)

text \<open>
  A controller with WiFi credentials never announces its boot banner: with the credentials the text has at least 143
  bytes, more than the 128 a frame of the host link carries, so the send fails and the link is unchanged.
\<close>

theorem wifi_banner_lost:
  assumes "bi_last_cause b < 5" "bi_neti_rc b = NETI_OK"
  shows "bc_emit_boot_banner b m = m"
proof -
  have "COMM_PAYLOAD_MAX < length (boot_banner b m)"
    using banner_lengths [OF assms(1), of m] assms(2) by (auto simp: boot_banner_def Let_def COMM_PAYLOAD_MAX_def)
  then have "host_link_s2m 1 OP_DBG_LOG (boot_banner b m) (b_hl m) = (-1, b_hl m)"
    using banner_length [of b m] by (intro s2m_too_long) simp_all
  then show ?thesis by (simp add: bc_emit_boot_banner_def)
qed

definition wifi_boot :: boot_info where
  "wifi_boot = \<lparr>bi_boot_count = 1, bi_last_cause = 0, bi_id_rc = 0, bi_hwio_rc = 0, bi_ilcf_rc = 1, bi_il_armfail = 0, bi_bus_baud = 460800,
     bi_neti_rc = NETI_OK, bi_ssid0 = ascii ''lab'', bi_ip = [10, 0, 0, 1], bi_port = 7447, bi_pwlen = 8\<rparr>"

theorem wifi_banner_lost_witness: "bc_emit_boot_banner wifi_boot demo_master = demo_master"
  by (rule wifi_banner_lost) (simp_all add: wifi_boot_def)

end
