(* ===== verification/Master_Inv.thy ===== *)
theory Master_Inv
  imports Uplink
begin

text \<open>
  The invariant of the whole bus controller: the message plane, the host link, the frame assembler, the roster with its
  cursor, the command slot, the queues between the cores and the bench block stay consistent under every step of the bus
  thread, the uplink thread and the application core, in any order and whatever arrives from the host or on the bus.
\<close>

unbundle bit_operations_syntax

definition master_inv :: "nat \<Rightarrow> master \<Rightarrow> bool" where
  "master_inv N m \<longleftrightarrow> plane_inv N [] (b_plane m) \<and> link_inv (b_hl m) \<and> asm_inv (b_bc m) \<and> length (b_roster m) \<le> ROSTER_MAX
     \<and> unat (b_cursor m) < max 1 (length (b_roster m)) \<and> length (c_body (b_cmd m)) \<le> BUS_PAYLOAD_MAX \<and> length (b_down_q m) \<le> DOWN_Q_DEPTH
     \<and> length (y_fb (b_cyc m)) < BUS_PAYLOAD_MAX \<and> hil_inv (nd_hil (b_nd m)) \<and> (\<forall>r \<in> set (nd_up_q (b_nd m)). length (ar_payload r) \<le> APPCORE_PAY_MAX)"

section \<open>One field at a time\<close>

lemma inv_any [simp]:
  "master_inv N (m\<lparr>b_poll := p\<rparr>) = master_inv N m" "master_inv N (m\<lparr>b_pp := q\<rparr>) = master_inv N m" "master_inv N (m\<lparr>b_up := u\<rparr>) = master_inv N m"
  "master_inv N (m\<lparr>b_bus_seq := k\<rparr>) = master_inv N m" "master_inv N (m\<lparr>b_orig_q := r\<rparr>) = master_inv N m"
  by (simp_all add: master_inv_def)

lemma inv_upd:
  "master_inv N m \<Longrightarrow> plane_inv N [] s \<Longrightarrow> master_inv N (m\<lparr>b_plane := s\<rparr>)"
  "master_inv N m \<Longrightarrow> link_inv h \<Longrightarrow> master_inv N (m\<lparr>b_hl := h\<rparr>)"
  "master_inv N m \<Longrightarrow> asm_inv a \<Longrightarrow> master_inv N (m\<lparr>b_bc := a\<rparr>)"
  "master_inv N m \<Longrightarrow> length ros = length (b_roster m) \<Longrightarrow> master_inv N (m\<lparr>b_roster := ros\<rparr>)"
  "master_inv N m \<Longrightarrow> length (y_fb y) < BUS_PAYLOAD_MAX \<Longrightarrow> master_inv N (m\<lparr>b_cyc := y\<rparr>)"
  "master_inv N m \<Longrightarrow> length (c_body c) \<le> BUS_PAYLOAD_MAX \<Longrightarrow> master_inv N (m\<lparr>b_cmd := c\<rparr>)"
  "master_inv N m \<Longrightarrow> length dq \<le> DOWN_Q_DEPTH \<Longrightarrow> master_inv N (m\<lparr>b_down_q := dq\<rparr>)"
  "master_inv N m \<Longrightarrow> hil_inv (nd_hil n) \<Longrightarrow> \<forall>r \<in> set (nd_up_q n). length (ar_payload r) \<le> APPCORE_PAY_MAX \<Longrightarrow> master_inv N (m\<lparr>b_nd := n\<rparr>)"
  by (simp_all add: master_inv_def)

lemma inv_parts:
  assumes "master_inv N m"
  shows "plane_inv N [] (b_plane m)" "link_inv (b_hl m)" "asm_inv (b_bc m)" "length (y_fb (b_cyc m)) < BUS_PAYLOAD_MAX"
    "length (c_body (b_cmd m)) \<le> BUS_PAYLOAD_MAX" "length (b_down_q m) \<le> DOWN_Q_DEPTH" "hil_inv (nd_hil (b_nd m))"
    "\<forall>r \<in> set (nd_up_q (b_nd m)). length (ar_payload r) \<le> APPCORE_PAY_MAX"
  using assms by (simp_all add: master_inv_def)

lemma inv_s2m: "master_inv N m \<Longrightarrow> length p < 256 \<Longrightarrow> master_inv N (m\<lparr>b_hl := snd (host_link_s2m a op p (b_hl m))\<rparr>)"
  by (intro inv_upd(2) s2m_link_inv inv_parts(2))

lemma inv_cyc: "master_inv N m \<Longrightarrow> y_fb y = y_fb (b_cyc m) \<Longrightarrow> master_inv N (m\<lparr>b_cyc := y\<rparr>)"
  using inv_parts(4) by (intro inv_upd(5)) simp_all

lemma inv_nodes:
  assumes "master_inv N m" "i < length (g_nodes (b_plane m))" "bn_list n = bn_list (g_nodes (b_plane m) ! i)"
  shows "master_inv N (set_node i n m)"
proof -
  have "plane_inv N [] (b_plane (set_node i n m))" by (rule set_node_inv [OF inv_parts(1) [OF assms(1)] assms(2,3)])
  from inv_upd(1) [OF assms(1) this] show ?thesis by (simp add: set_node_def)
qed

lemma marks_length [simp]: "length (mark_alive a now ros) = length ros" "length (mark_miss mm a ros) = length ros"
  by (simp_all add: mark_alive_def mark_miss_def Let_def split: option.split)

section \<open>The bus thread\<close>

lemma send_master_inv: "master_inv N m \<Longrightarrow> bus_send d ty p m = (acts, m') \<Longrightarrow> master_inv N m'"
  by (auto simp: bus_send_def)

lemma pp_kick_inv: "master_inv N m \<Longrightarrow> master_inv N (pp_kick m)"
  using inv_upd(7) [of N m] by (simp add: pp_kick_def Let_def DOWN_Q_DEPTH_def)

lemma relay_inv: "master_inv N m \<Longrightarrow> length rb < 256 \<Longrightarrow> master_inv N (relay_orig hr rb m)"
proof -
  assume m: "master_inv N m" and l: "length rb < 256"
  let ?m = "if length rb \<ge> 7 then m\<lparr>b_pp := (b_pp m)\<lparr>g_pp_slave_seen := le32 (rb ! (length rb - 4)) (rb ! (length rb - 3)) (rb ! (length rb - 2)) (rb ! (length rb - 1))\<rparr>\<rparr> else m"
  have m': "master_inv N ?m" using m by simp
  then show ?thesis using inv_s2m [OF m'] l unfolding relay_orig_def Let_def by auto
qed

lemma deliver_inv: "master_inv N m \<Longrightarrow> length rb < 239 \<Longrightarrow> master_inv N (deliver_reply a rb m)"
proof -
  assume m: "master_inv N m" and l: "length rb < 239"
  obtain hit s where c: "corr_match a rb (b_plane m) = (hit, s)" by fastforce
  have "plane_inv N [] s" using corr_inv(2) [OF inv_parts(1) [OF m], of "le16 (rb ! 0) (rb ! 1)" a] inv_parts(1) [OF m] c
    by (auto simp: corr_match_def split: if_splits)
  then have s: "master_inv N (m\<lparr>b_plane := s\<rparr>)" by (rule inv_upd(1) [OF m])
  show ?thesis
  proof (cases hit)
    case None
    have b: "length (y_fb (batch_feedback a rb (b_cyc m))) < BUS_PAYLOAD_MAX"
      using inv_parts(4) [OF m] by (simp add: batch_feedback_def)
    then show ?thesis using inv_upd(5) [OF s b] inv_s2m [OF s, of rb] l by (simp add: deliver_reply_def c None Let_def)
  next
    case (Some x)
    obtain io hr where x: "x = (io, hr)" by fastforce
    have s2: "master_inv N (m\<lparr>b_plane := s, b_cyc := (b_cyc m)\<lparr>y_corr_relayed := y_corr_relayed (b_cyc m) + 1\<rparr>\<rparr>)"
      using inv_cyc [OF s] by simp
    show ?thesis using relay_inv [OF s2, of rb hr] inv_s2m [OF s2, of rb] l by (simp add: deliver_reply_def c Some x Let_def)
  qed
qed

lemma reply_length: "frame_wf rf \<Longrightarrow> length (drop 2 (frame_data rf)) < 239"
proof -
  assume "frame_wf rf"
  then have "unat (f_len rf) \<le> 240" by (simp add: frame_wf_def BUS_PAYLOAD_MAX_def)
  then show ?thesis by (simp add: frame_data_def)
qed

lemma frame_inv: "master_inv N m \<Longrightarrow> frame_wf rf \<Longrightarrow> master_inv N (handle_slot_frame a rf m)"
  using deliver_inv [of N m] reply_length [of rf] inv_upd(4) [of N m] by (simp add: handle_slot_frame_def split: option.split)

lemma drain_inv: "drain_words a ws fr m = (fr', m') \<Longrightarrow> master_inv N m \<Longrightarrow> master_inv N m'"
proof (induction a ws fr m rule: drain_words.induct)
  case (2 a w ws fr m)
  obtain r x where f: "bus_asm_feed (b_bc m) w = (r, x)" by fastforce
  have x: "asm_inv x" using asm_inv_feed [OF inv_parts(3) [OF "2.prems"(2)] f] .
  have m: "master_inv N (m\<lparr>b_bc := x\<rparr>)" by (rule inv_upd(3) [OF "2.prems"(2) x])
  show ?case
  proof (cases r)
    case None
    then show ?thesis using "2.IH"(1) "2.prems"(1) f m by simp
  next
    case (Some rf)
    have "frame_wf rf" using feed_returns_wf [OF inv_parts(3) [OF "2.prems"(2)]] f Some by blast
    then have "master_inv N (handle_slot_frame a rf (m\<lparr>b_bc := x\<rparr>))" by (rule frame_inv [OF m])
    then show ?thesis using "2.IH"(2,3) [OF f [symmetric] Some] "2.prems"(1) f m Some by (cases "f_src rf = a") auto
  qed
qed simp

lemma slot_loop_inv: "slot_loop a ta ps first m = (first', fr, m') \<Longrightarrow> master_inv N m \<Longrightarrow> master_inv N m'"
proof (induction ps arbitrary: first m)
  case (Cons p ps)
  let ?m1 = "if sp_first p \<and> \<not> first then master_rx_hook ta m else m"
  have m1: "master_inv N ?m1" using Cons.prems(2) by (simp add: master_rx_hook_def)
  obtain from1 m2 where d: "drain_words a (sp_words p) False ?m1 = (from1, m2)" by fastforce
  then show ?case using Cons.prems(1) Cons.IH [of "first \<or> sp_first p" m2] drain_inv [OF d m1]
    by (auto simp: Let_def split: if_splits)
qed simp

lemma slot_inv: "bus_poll_slot a e m = (sr, acts, m') \<Longrightarrow> master_inv N m \<Longrightarrow> master_inv N m'"
proof -
  assume r: "bus_poll_slot a e m = (sr, acts, m')" and m: "master_inv N m"
  obtain acts1 m1 where s: "bus_send a BUS_FT_POLL [] m = (acts1, m1)" by fastforce
  obtain first from1 m2 where l: "slot_loop a (se_ta e) (se_passes e) False m1 = (first, from1, m2)" by (metis prod_cases3)
  have "master_inv N m2" by (rule slot_loop_inv [OF l send_master_inv [OF m s]])
  then show ?thesis using r by (auto simp: bus_poll_slot_def s l Let_def split: if_splits)
qed

lemma producers_inv: "master_inv N m \<Longrightarrow> master_inv N (producers ms m)"
  using producers_keeps(3) [OF inv_parts(1)] inv_upd(1) by (simp add: producers_def)

lemma send_bufs_inv:
  "send_bufs a dead bs m = (acts, m') \<Longrightarrow> master_inv N (m\<lparr>b_plane := pl\<rparr>) \<Longrightarrow> plane_inv N [] (fold pool_recover bs (b_plane m)) \<Longrightarrow> master_inv N m'"
proof (induction bs arbitrary: m acts)
  case Nil
  then show ?case using inv_upd(1) [of N "m\<lparr>b_plane := pl\<rparr>" "b_plane m"] by simp
next
  case (Cons b bs)
  obtain acts1 m1 where s: "(if dead then ([], m) else bus_send a BUS_FT_DATA (tb_payload (g_bufs (b_plane m) ! b)) m) = (acts1, m1)" by fastforce
  obtain acts2 where r: "send_bufs a dead bs (m1\<lparr>b_plane := pool_recover b (b_plane m1)\<rparr>) = (acts2, m')"
    using Cons.prems(1) s by (auto split: prod.splits)
  have p: "b_plane m1 = b_plane m" "master_inv N (m1\<lparr>b_plane := pl\<rparr>)"
    using s Cons.prems(2) by (auto simp: bus_send_def master_inv_def split: if_splits)
  show ?case by (rule Cons.IH [OF r]) (use Cons.prems(3) p in simp_all)
qed

lemma msg_pass_inv:
  "msg_pass e is m = (acts, marked, m') \<Longrightarrow> \<forall>i \<in> set is. i < length (g_nodes (b_plane m)) \<Longrightarrow> master_inv N m \<Longrightarrow> master_inv N m'"
proof (induction "is" arbitrary: m acts marked)
  case (Cons i "is")
  let ?m0 = "producers (ce_prod e i) m"
  obtain bs s where t: "take_list i (b_plane ?m0) = (bs, s)" by fastforce
  obtain acts1 m1 where f: "send_bufs (bn_addr (g_nodes s ! i)) (bn_dead (g_nodes s ! i)) bs (?m0\<lparr>b_plane := s\<rparr>) = (acts1, m1)" by fastforce
  obtain acts2 mk where r: "msg_pass e is m1 = (acts2, mk, m')"
    using Cons.prems(1) t f by (auto simp: Let_def split: prod.splits)
  have i: "i < length (g_nodes (b_plane m))" using Cons.prems(2) by simp
  have P: "plane_inv N [] (b_plane m1) \<and> nodev (b_plane m1) = nodev (b_plane m)"
    using pass_node [OF inv_parts(1) [OF Cons.prems(3)] i t f] by blast
  have "b_plane m1 = fold pool_recover bs s" using send_bufs_spec [OF f] by simp
  moreover have "master_inv N (?m0\<lparr>b_plane := s, b_plane := b_plane ?m0\<rparr>)" using producers_inv [OF Cons.prems(3)] by simp
  ultimately have "master_inv N m1" using P by (intro send_bufs_inv [OF f, where pl = "b_plane ?m0"]) simp_all
  moreover have "\<forall>i \<in> set is. i < length (g_nodes (b_plane m1))" using nodev_length [of "b_plane m1" "b_plane m"] P Cons.prems(2) by simp
  ultimately show ?case using Cons.IH [OF r] by simp
qed simp

lemma sweep_result_inv:
  assumes "master_inv N m" "i < length (g_nodes (b_plane m))"
  shows "master_inv N (sweep_miss i m)" "master_inv N (sweep_alive i now m)" "master_inv N (probe_result i sr now m)"
proof -
  have u: "master_inv N (m\<lparr>b_poll := p, b_roster := ros\<rparr>)" "master_inv N (m\<lparr>b_poll := p, b_roster := ros, b_cyc := y\<rparr>)"
    if "length ros = length (b_roster m)" "y_fb y = y_fb (b_cyc m)" for p ros y
    using that inv_upd(4) [of N "m\<lparr>b_poll := p\<rparr>" ros] inv_cyc [of N "m\<lparr>b_poll := p, b_roster := ros\<rparr>" y] assms(1) by simp_all
  show "master_inv N (sweep_miss i m)" unfolding sweep_miss_def Let_def by (intro inv_nodes u) (use assms in auto)
  show "master_inv N (sweep_alive i now m)" unfolding sweep_alive_def Let_def by (intro inv_nodes u) (use assms in auto)
  show "master_inv N (probe_result i sr now m)"
  proof (cases "sr = SLOT_NO_RESPONSE")
    case False
    then show ?thesis unfolding probe_result_def Let_def by (simp, intro inv_nodes u) (use assms in auto)
  qed (use assms(1) in \<open>simp add: probe_result_def Let_def\<close>)
qed

lemma sweep_inv:
  "sweep e marked is slow m = (acts, slow', m') \<Longrightarrow> \<forall>i \<in> set is. i < length (g_nodes (b_plane m)) \<Longrightarrow> master_inv N m \<Longrightarrow> master_inv N m'"
proof (induction "is" arbitrary: m acts slow)
  case (Cons i "is")
  let ?m0 = "producers (ce_poll_prod e i) m"
  let ?n = "g_nodes (b_plane ?m0) ! i"
  have len: "length (g_nodes (b_plane ?m0)) = length (g_nodes (b_plane m))" using nodev_length [OF producers_keeps(1)] .
  have m0: "master_inv N ?m0" by (rule producers_inv [OF Cons.prems(3)])
  show ?case
  proof (cases "bn_dead ?n \<or> i \<in> set marked")
    case True
    then have "sweep e marked is slow ?m0 = (acts, slow', m')" using Cons.prems(1) by (simp add: Let_def)
    then show ?thesis using Cons.IH Cons.prems(2) len m0 by simp
  next
    case False
    obtain sr acts1 m1 where b: "bus_poll_slot (bn_addr ?n) (ce_slot e i) ?m0 = (sr, acts1, m1)" by (metis prod_cases3)
    let ?m2 = "if sr = SLOT_NO_RESPONSE then sweep_miss i m1 else sweep_alive i (ce_now e i) m1"
    obtain sl acts2 where r: "sweep e marked is sl ?m2 = (acts2, slow', m')"
      using Cons.prems(1) False b by (auto simp: Let_def split: prod.splits if_splits)
    have len1: "length (g_nodes (b_plane m1)) = length (g_nodes (b_plane m))"
      using nodev_length [of "b_plane m1" "b_plane ?m0"] slot_keeps [OF b] len by simp
    have i1: "i < length (g_nodes (b_plane m1))" using Cons.prems(2) len1 by simp
    have "master_inv N ?m2" using sweep_result_inv [OF slot_inv [OF b m0] i1] by simp
    moreover have "length (g_nodes (b_plane ?m2)) = length (g_nodes (b_plane m1))"
      by (simp add: sweep_miss_def sweep_alive_def Let_def set_node_def)
    ultimately show ?thesis using Cons.IH [OF r] Cons.prems(2) len1 by simp
  qed
qed simp

lemma probe_inv: "dead_probe e m = (acts, m') \<Longrightarrow> master_inv N m \<Longrightarrow> master_inv N m'"
proof -
  assume p: "dead_probe e m = (acts, m')" and m: "master_inv N m"
  let ?t = "m\<lparr>b_cyc := (b_cyc m)\<lparr>y_dead_tick := 0\<rparr>\<rparr>"
  have c: "master_inv N (m\<lparr>b_cyc := y\<rparr>)" if "y_fb y = y_fb (b_cyc m)" for y using inv_cyc [OF m that] .
  show ?thesis
  proof (cases "y_slowpoll_div (b_cyc m) = 0 \<or> y_dead_tick (b_cyc m) + 1 < y_slowpoll_div (b_cyc m) \<or> dead_candidate ?t = None")
    case True
    then show ?thesis using p c m by (auto simp: dead_probe_def Let_def split: if_splits option.splits)
  next
    case False
    then obtain i where d: "dead_candidate ?t = Some i" by auto
    let ?m2 = "m\<lparr>b_cyc := (b_cyc m)\<lparr>y_dead_tick := 0, y_dead_cursor := word_of_nat ((i + 1) mod length (g_nodes (b_plane m)))\<rparr>\<rparr>"
    obtain sr acts1 m3 where b: "bus_poll_slot (bn_addr (g_nodes (b_plane m) ! i)) (ce_probe e i) ?m2 = (sr, acts1, m3)" by (metis prod_cases3)
    have r: "m' = probe_result i sr (ce_probe_now e) m3" using p False d b by (simp add: dead_probe_def Let_def)
    have "length (g_nodes (b_plane m3)) = length (g_nodes (b_plane m))"
      using nodev_length [of "b_plane m3" "b_plane ?m2"] slot_keeps [OF b] by simp
    then have "i < length (g_nodes (b_plane m3))" using candidate_dead(1) [OF d] by simp
    then show ?thesis using sweep_result_inv(3) [OF slot_inv [OF b c]] r by simp
  qed
qed

lemma open_inv: "master_inv N m \<Longrightarrow> master_inv N (cycle_open m)"
proof -
  assume m: "master_inv N m"
  have p: "plane_inv N [] (b_plane (cycle_open m))" by (rule open_keeps(1) [OF inv_parts(1) [OF m]])
  have "b_hl (cycle_open m) = b_hl m" "b_bc (cycle_open m) = b_bc m" "b_roster (cycle_open m) = b_roster m" "b_cursor (cycle_open m) = b_cursor m"
    "c_body (b_cmd (cycle_open m)) = c_body (b_cmd m)" "b_down_q (cycle_open m) = b_down_q m" "y_fb (b_cyc (cycle_open m)) = []" "b_nd (cycle_open m) = b_nd m"
    by (simp_all add: cycle_open_def cycle_stage_cmd_def cycle_rebuild_def Let_def)
  then show ?thesis using m p by (simp add: master_inv_def BUS_PAYLOAD_MAX_def)
qed

lemma texts_short: "length (exhausted_text ex low) < 256" "length (overrun_text ct dl sa su) < 256"
proof -
  have t: "k < 256 \<Longrightarrow> length (take k xs) < 256" for k and xs :: "u8 list" by (simp add: min_less_iff_disj)
  show "length (exhausted_text ex low) < 256" "length (overrun_text ct dl sa su) < 256"
    unfolding exhausted_text_def overrun_text_def by (rule t, simp)+
qed

lemma stats_fields:
  "b_bc (cycle_stats e slow m) = b_bc m" "b_roster (cycle_stats e slow m) = b_roster m" "b_cursor (cycle_stats e slow m) = b_cursor m"
  "b_cmd (cycle_stats e slow m) = b_cmd m" "b_down_q (cycle_stats e slow m) = b_down_q m" "b_nd (cycle_stats e slow m) = b_nd m"
  "y_fb (b_cyc (cycle_stats e slow m)) = y_fb (b_cyc m)"
  by (simp_all add: cycle_stats_def Let_def split del: if_split cong: if_cong) (simp_all split: if_split)

lemma stats_link:
  assumes "link_inv (b_hl m)"
  shows "link_inv (b_hl (cycle_stats e slow m))"
proof (cases "y_deadline_us (b_cyc m) < ce_ct e")
  case over: True
  show ?thesis
  proof (cases "g_uplink_active (b_up m) \<and> 100 \<le> ce_over_ms e - y_last_notify_ms (b_cyc m)")
    case True
    then have "b_hl (cycle_stats e slow m) = snd (host_link_s2m 1 OP_DBG_LOG (overrun_text (ce_ct e) (y_deadline_us (b_cyc m)) (snd slow) (fst slow)) (b_hl m))"
      using over by (simp add: cycle_stats_def Let_def split del: if_split)
    then show ?thesis using s2m_link_inv [OF assms texts_short(2)] by simp
  next
    case False
    then have "b_hl (cycle_stats e slow m) = b_hl m"
      using over by (cases "g_uplink_active (b_up m)") (simp_all add: cycle_stats_def Let_def split del: if_split)
    then show ?thesis using assms by simp
  qed
next
  case False
  then have "b_hl (cycle_stats e slow m) = b_hl m" by (simp add: cycle_stats_def Let_def split del: if_split)
  then show ?thesis using assms by simp
qed

lemma close_inv: "master_inv N m \<Longrightarrow> master_inv N (cycle_close e slow m)"
proof -
  assume m: "master_inv N m"
  have c: "master_inv N (x\<lparr>b_cyc := y\<rparr>)" if "master_inv N x" "y_fb y = y_fb (b_cyc x)" for x y using inv_cyc [OF that] .
  have 1: "master_inv N (publish_dead x)" if "master_inv N x" for x using c [OF that] by (simp add: publish_dead_def)
  have 2: "master_inv N (notify_exhausted e x)" if "master_inv N x" for x
    using that c [OF that] inv_s2m [OF c [OF that] texts_short(1)] by (simp add: notify_exhausted_def Let_def)
  have 3: "master_inv N (cycle_stats e slow x)" if x: "master_inv N x" for x
    using x stats_link [OF inv_parts(2) [OF x]] by (simp add: master_inv_def stats_keeps(1) stats_fields)
  have 4: "master_inv N (emit_feedback x)" if x: "master_inv N x" for x
  proof -
    have "length (y_fb_rec (b_cyc x) # y_fb (b_cyc x)) < 256" using inv_parts(4) [OF x] by (simp add: BUS_PAYLOAD_MAX_def)
    from c [OF inv_s2m [OF x this]] show ?thesis using c [OF x] by (simp add: emit_feedback_def Let_def)
  qed
  show ?thesis unfolding cycle_close_def Let_def using 4 3 2 1 m pp_kick_inv by simp
qed

lemma cycle_inv: "bus_run_cycle e m = (acts, m') \<Longrightarrow> master_inv N m \<Longrightarrow> master_inv N m'"
proof -
  assume r: "bus_run_cycle e m = (acts, m')" and m: "master_inv N m"
  let ?m0 = "cycle_open m"
  let ?is = "[0..<length (g_nodes (b_plane ?m0))]"
  obtain acts1 marked m1 where a: "msg_pass e ?is ?m0 = (acts1, marked, m1)" by (metis prod_cases3)
  obtain acts2 slow m2 where b: "sweep e marked ?is (0, 0) m1 = (acts2, slow, m2)" by (metis prod_cases3)
  obtain acts3 m3 where c: "dead_probe e m2 = (acts3, m3)" by fastforce
  have "nodev (b_plane m1) = nodev (b_plane ?m0)"
    using msg_pass_spec [OF inv_parts(1) [OF open_inv [OF m]] _ _ a] by simp
  then have len: "length (g_nodes (b_plane m1)) = length (g_nodes (b_plane ?m0))" by (rule nodev_length)
  have "master_inv N m1" using msg_pass_inv [OF a _ open_inv [OF m]] by simp
  then have "master_inv N m2" using sweep_inv [OF b] len by simp
  then have "master_inv N m3" by (rule probe_inv [OF c])
  then have "master_inv N (cycle_close e slow m3)" by (rule close_inv)
  moreover have "m' = cycle_close e slow m3" using r a b c by (simp add: bus_run_cycle_def Let_def)
  ultimately show ?thesis by simp
qed

lemma scan_inv: "liveness_scan ros h = (ros', h') \<Longrightarrow> link_inv h \<Longrightarrow> link_inv h' \<and> length ros' = length ros"
proof (induction ros arbitrary: ros')
  case (Cons s ss)
  have k: "link_inv (snd (host_link_s2m a op p h))" if "length p < 256" for a op p by (rule s2m_link_inv [OF Cons.prems(2) that])
  have l: "length (sl_addr s # wr_u32 (sl_class_id s)) < 256" by (simp add: wr_u32_def)
  show ?case using Cons.prems(1) k [of "[sl_addr s]"] k [OF l] k [of "[sl_addr s, sl_summary s]"] Cons.IH Cons.prems(2)
    by (auto simp: Let_def split: if_splits prod.splits) (metis snd_conv)+
qed simp

lemma edges_inv: "master_inv N m \<Longrightarrow> master_inv N (emit_liveness_edges m)"
proof -
  assume m: "master_inv N m"
  obtain ros h where s: "liveness_scan (b_roster m) (b_hl m) = (ros, h)" by fastforce
  from scan_inv [OF s inv_parts(2) [OF m]] show ?thesis
    using inv_upd(2) [OF inv_upd(4) [OF m]] by (simp add: emit_liveness_edges_def s)
qed

lemma next_inv: "next_enabled_addr m = (a, m') \<Longrightarrow> master_inv N m \<Longrightarrow> master_inv N m'"
proof -
  assume n: "next_enabled_addr m = (a, m')" and m: "master_inv N m"
  have "unat (snd (next_enabled_from k ros c)) < max 1 (length ros)" if "unat c < max 1 (length ros)" "k \<le> length ros" "length ros \<le> 16" for k ros c
    using that
  proof (induction k arbitrary: c)
    case (Suc k)
    then have ne: "0 < length ros" by linarith
    have "unat (word_of_nat ((unat c + 1) mod length ros) :: u8) = (unat c + 1) mod length ros"
      using Suc.prems ne by (subst unat_of_nat) (auto intro!: mod_less order_less_le_trans [OF mod_less_divisor])
    moreover have "(unat c + 1) mod length ros < length ros" using ne by (rule mod_less_divisor)
    ultimately show ?case using Suc by (simp add: Let_def)
  qed simp
  from this [of "b_cursor m" "b_roster m" "length (b_roster m)"] show ?thesis
    using n m by (auto simp: next_enabled_addr_def master_inv_def ROSTER_MAX_def split: prod.splits)
qed

lemma recv_inv: "bus_recv ws m = (r, m') \<Longrightarrow> master_inv N m \<Longrightarrow> master_inv N m' \<and> (\<forall>rf. r = Some rf \<longrightarrow> frame_wf rf)"
proof (induction ws m rule: bus_recv.induct)
  case (2 w ws m)
  obtain q a where f: "bus_asm_feed (b_bc m) w = (q, a)" by fastforce
  have m: "master_inv N (m\<lparr>b_bc := a\<rparr>)" using inv_upd(3) [OF "2.prems"(2) asm_inv_feed [OF inv_parts(3) [OF "2.prems"(2)] f]] .
  show ?case
  proof (cases q)
    case None
    then show ?thesis using "2.IH" "2.prems"(1) f m by simp
  next
    case (Some rf)
    have "frame_wf rf" using feed_returns_wf [OF inv_parts(3) [OF "2.prems"(2)]] f Some by blast
    then show ?thesis using "2.prems"(1) f m Some by auto
  qed
qed simp

lemma promote_inv: "master_inv N m \<Longrightarrow> master_inv N (promote_orig m)"
  using inv_upd(6) by (simp add: promote_orig_def Let_def BUS_PAYLOAD_MAX_def split: list.split)

lemma inject_inv: "inject_step e t m = (acts, t', m') \<Longrightarrow> master_inv N m \<Longrightarrow> master_inv N m'"
proof -
  assume r: "inject_step e t m = (acts, t', m')" and m: "master_inv N m"
  let ?c = "b_cmd m" and ?p = "[lo8 (c_op (b_cmd m)), hi8 (c_op (b_cmd m))] @ take (BUS_PAYLOAD_MAX - 2) (c_body (b_cmd m))"
  obtain acts1 m1 where s: "bus_send (c_slave ?c) BUS_FT_DATA ?p m = (acts1, m1)" by fastforce
  obtain got m2 where g: "bus_recv (it_words e) m1 = (got, m2)" by fastforce
  have m2: "master_inv N m2" using recv_inv [OF g send_master_inv [OF m s]] by simp
  have a: "master_inv N (m2\<lparr>b_roster := mark_alive x now (b_roster m2)\<rparr>)" for x now using inv_upd(4) [OF m2] by simp
  have f: "master_inv N (x\<lparr>b_cmd := (b_cmd x)\<lparr>c_pending := False\<rparr>\<rparr>)" if "master_inv N x" for x
    using inv_upd(6) [OF that] inv_parts(5) [OF that] by simp
  define m3 where "m3 = (case got of
                  None \<Rightarrow> m2
                | Some rf \<Rightarrow>
                    if f_src rf \<noteq> c_slave ?c then m2
                    else (let m2 = m2\<lparr>b_roster := mark_alive (c_slave ?c) (it_now e) (b_roster m2)\<rparr>;
                              cls = f_type rf AND BUS_FT_MASK
                          in if \<not> c_is_orig ?c \<and> (cls = BUS_FT_ACK \<or> cls = BUS_FT_NAK)
                             then m2\<lparr>b_hl := snd (host_link_s2m (c_slave ?c) (if cls = BUS_FT_NAK then OP_BUS_CMD_NAK else OP_BUS_CMD_ACK)
                                    [c_slave ?c, lo8 (c_req_id ?c), hi8 (c_req_id ?c)] (b_hl m2))\<rparr>
                             else m2))"
  have "master_inv N m3" using m2 a inv_s2m [OF a] by (simp add: m3_def Let_def split: option.split)
  moreover have "m' = m3\<lparr>b_cmd := (b_cmd m3)\<lparr>c_pending := False\<rparr>\<rparr>"
    using r s g unfolding inject_step_def Let_def m3_def by auto
  ultimately show ?thesis using f by simp
qed

lemma collect_inv: "collect_step e t m = (acts, t', m') \<Longrightarrow> master_inv N m \<Longrightarrow> master_inv N m'"
proof -
  assume r: "collect_step e t m = (acts, t', m')" and m: "master_inv N m"
  obtain acts1 m1 where s: "bus_send (t_collect_slave t) BUS_FT_POLL [] m = (acts1, m1)" by fastforce
  obtain got m2 where g: "bus_recv (it_words e) m1 = (got, m2)" by fastforce
  have m2: "master_inv N m2" "\<And>rf. got = Some rf \<Longrightarrow> frame_wf rf" using recv_inv [OF g send_master_inv [OF m s]] by simp_all
  have cf: "master_inv N (snd (collect_frame rf t x))" if "master_inv N x" "frame_wf rf" for rf x
  proof -
    have "length (drop 2 (frame_data rf)) < 256" using reply_length [OF that(2)] by simp
    then show ?thesis using that(1) relay_inv inv_s2m inv_upd(4) [OF that(1)] by (simp add: collect_frame_def split: option.split)
  qed
  have a: "master_inv N (m2\<lparr>b_roster := mark_alive x now (b_roster m2)\<rparr>)" for x now using inv_upd(4) [OF m2(1)] by simp
  obtain t1 m3 where c: "(case got of
             Some rf \<Rightarrow> if f_src rf = t_collect_slave t
                then collect_frame rf t (m2\<lparr>b_roster := mark_alive (t_collect_slave t) (it_now e) (b_roster m2)\<rparr>)
                else (try_again t, m2)
           | None \<Rightarrow> (try_again t, m2)) = (t1, m3)" by fastforce
  have "master_inv N m3" using c m2 cf [OF a] by (auto split: option.splits if_splits) (metis snd_conv)
  then show ?thesis using r pp_kick_inv by (auto simp: collect_step_def Let_def s g c)
qed

lemma sweep_step_inv: "sweep_step e m = (acts, m') \<Longrightarrow> master_inv N m \<Longrightarrow> master_inv N m'"
proof -
  assume r: "sweep_step e m = (acts, m')" and m: "master_inv N m"
  obtain a m1 where n: "(if g_poll_enabled (b_poll m) \<noteq> 0 then next_enabled_addr m else (0xFF, m)) = (a, m1)" by fastforce
  have m1: "master_inv N m1" using n m next_inv by (auto split: if_splits)
  obtain sr acts2 m2 where b: "bus_poll_slot a (it_slot e) m1 = (sr, acts2, m2)" by (metis prod_cases3)
  have m2: "master_inv N (m2\<lparr>b_poll := p, b_roster := ros\<rparr>)" if "length ros = length (b_roster m2)" for p ros
    using inv_upd(4) [of N "m2\<lparr>b_poll := p\<rparr>"] slot_inv [OF b m1] that by simp
  show ?thesis using r m1 m2 by (auto simp: sweep_step_def n b Let_def split: if_splits)
qed

lemma control_inv: "bus_control_step e t m = (acts, t', m') \<Longrightarrow> master_inv N m \<Longrightarrow> master_inv N m'"
proof -
  assume r: "bus_control_step e t m = (acts, t', m')" and m: "master_inv N m"
  have p: "master_inv N (if t_state t = BS_SWEEP then promote_orig m else m)" using m promote_inv by simp
  show ?thesis
    using r m edges_inv cycle_inv inject_inv [OF _ p] collect_inv [OF _ p] sweep_step_inv [OF _ p]
    by (auto simp: bus_control_step_def Let_def split: if_splits prod.splits bus_state.splits)
qed

section \<open>The uplink thread\<close>

lemma shell_reply_inv: "master_inv N m \<Longrightarrow> master_inv N (shell_reply q st res m)"
  using emit_inv [OF inv_parts(2), of N m "wr_u16 q @ [st] @ take (COMM_PAYLOAD_MAX - 3) res" 0 Host_Link.OP_SHELL_REPLY] inv_upd(2) [of N m]
  by (simp add: shell_reply_def host_link_shell_reply_def wr_u16_def COMM_PAYLOAD_MAX_def)

lemma bus_msg_inv: "master_inv N m \<Longrightarrow> master_inv N (on_bus_msg d op body m)"
  using inv_upd(6,7) [of N m] inv_parts(6) [of N m] by (simp add: on_bus_msg_def Let_def x_queue_send_def)

lemma inject_copies_inv: "plane_inv N [] s \<Longrightarrow> plane_inv N [] (snd (inject n i a pl k s))"
proof (induction n arbitrary: i k s)
  case (Suc n)
  obtain ok s1 where e: "bus_msg_send a pl (0xDEAD0000 OR ucast i) s = (ok, s1)" by fastforce
  then have "plane_inv N [] s1" using send_inv [OF Suc.prems, of a pl "0xDEAD0000 OR ucast i"] by simp
  then show ?case using Suc.IH by (simp add: e)
qed simp

lemma roster_cmd_inv: "master_inv N m \<Longrightarrow> master_inv N (cmd_clear_roster m)" "master_inv N m \<Longrightarrow> master_inv N (cmd_register_slave args m)"
  by (auto simp: cmd_clear_roster_def cmd_register_slave_def master_inv_def)

lemma setting_cmd_inv:
  assumes "master_inv N m"
  shows "master_inv N (cmd_set_poll args m)" "master_inv N (cmd_set_deadline args m)" "master_inv N (cmd_set_pace args m)"
    "master_inv N (cmd_uplink_force now args m)" "master_inv N (cmd_pp_start args m)" "master_inv N (snd (cmd_msg_inject args m))"
proof -
  show "master_inv N (cmd_set_poll args m)" "master_inv N (cmd_uplink_force now args m)" "master_inv N (cmd_pp_start args m)"
    using assms by (simp_all add: cmd_set_poll_def cmd_uplink_force_def cmd_pp_start_def Let_def pp_kick_inv)
  show "master_inv N (cmd_set_deadline args m)" "master_inv N (cmd_set_pace args m)"
    using inv_cyc [OF assms] by (simp_all add: cmd_set_deadline_def cmd_set_pace_def Let_def)
  show "master_inv N (snd (cmd_msg_inject args m))"
    using assms inv_upd(1) [OF assms inject_copies_inv [OF inv_parts(1) [OF assms]]]
    by (simp add: cmd_msg_inject_def split: prod.split) (metis snd_conv)
qed

lemma up_q_kept_bench: "cmd_bench d cmd args cap n = Some (st, out, n') \<Longrightarrow> nd_up_q n' = nd_up_q n"
  by (auto simp: cmd_bench_def bad_args_def cmd_gpio_write_def cmd_gpio_read_def cmd_gpio_ipol_def cmd_gpio_read_all_def cmd_bench_bb_def cmd_io_mode_def
      cmd_pulse_read_def cmd_pulse_clear_def cmd_pulse_readclr_def cmd_servo_set_all_def cmd_servo_stop_def Let_def split: if_splits)

lemma up_q_kept: "node_cmd_dispatch d cmd args cap sink n = Some (st, out, n') \<Longrightarrow> nd_up_q n' = nd_up_q n"
  unfolding node_cmd_dispatch_def
  by (auto simp: cmd_pwm_test_def cmd_adc_read_def cmd_adc_win_sel_def cmd_adc_stats_def cmd_i2c_def i2c_enqueue_def bad_args_def Let_def
      dest: up_q_kept_bench split: if_splits option.splits prod.splits)

lemma shell_default_inv: "shell_default d q cmd args m = Some m' \<Longrightarrow> master_inv N m \<Longrightarrow> master_inv N m'"
proof -
  assume r: "shell_default d q cmd args m = Some m'" and m: "master_inv N m"
  let ?k = "\<lparr>rs_kind = SINK_USB, rs_dest = 0, rs_req_id = q\<rparr>"
  obtain st out n where e: "node_cmd_dispatch d cmd args 64 ?k (b_nd m) = Some (st, out, n)"
    using r by (auto simp: shell_default_def split: option.splits)
  have "hil_inv (nd_hil n)" using dispatch_ok [OF inv_parts(7) [OF m] e] by (simp add: cmd_ok_def)
  then have "master_inv N (m\<lparr>b_nd := n\<rparr>)" using inv_upd(8) [OF m] inv_parts(8) [OF m] up_q_kept [OF e] by simp
  then show ?thesis using r e shell_reply_inv by (auto simp: shell_default_def Let_def split: if_splits)
qed

lemma local_shell_inv: "on_local_shell d now q cmd args m = Some m' \<Longrightarrow> master_inv N m \<Longrightarrow> master_inv N m'"
proof -
  assume r: "on_local_shell d now q cmd args m = Some m'" and m: "master_inv N m"
  have y: "master_inv N (m\<lparr>b_cyc := y\<rparr>)" if "y_fb y = y_fb (b_cyc m)" for y using inv_cyc [OF m that] .
  have i: "master_inv N x" if "cmd_msg_inject args m = (k, x)" for k x using setting_cmd_inv(6) [OF m, of args] that by simp
  show ?thesis
    using r m y i shell_default_inv [of d q cmd args m m' N] setting_cmd_inv(1-5) [OF m]
    unfolding on_local_shell_def Let_def
    by (auto intro!: shell_reply_inv roster_cmd_inv split: if_splits prod.splits)
qed

lemma feed_host_inv: "feed_host d now bs m = Some m' \<Longrightarrow> master_inv N m \<Longrightarrow> master_inv N m'"
proof (induction d now bs m rule: feed_host.induct)
  case (2 d now b bs m)
  obtain u h where f: "host_link_feed b (b_hl m) = (u, h)" by fastforce
  obtain m1 where u: "upcall_step d now u (m\<lparr>b_hl := h\<rparr>) = Some m1" using "2.prems"(1) f by (auto split: option.splits)
  have "link_inv h" using feed_inv [OF inv_parts(2) [OF "2.prems"(2)], of b] f by simp
  then have "master_inv N (m\<lparr>b_hl := h\<rparr>)" by (rule inv_upd(2) [OF "2.prems"(2)])
  then have "master_inv N m1" using u bus_msg_inv local_shell_inv by (auto simp: upcall_step_def split: option.splits upcall.splits)
  then show ?case using "2.IH" [OF f [symmetric] u] "2.prems"(1) f u by simp
qed simp

lemma relay_up_inv: "link_inv h \<Longrightarrow> \<forall>r \<in> set ups. length (ar_payload r) \<le> APPCORE_PAY_MAX \<Longrightarrow> link_inv (relay_up ups h)"
  by (induction ups arbitrary: h) (simp_all add: relay_up_def APPCORE_PAY_MAX_def s2m_link_inv)

lemma drain_up_inv:
  assumes "master_inv N m" "link_inv (f (nd_up_q (b_nd m)) (b_hl m))"
  shows "master_inv N (drain_up f m)"
  using inv_upd(8) [OF inv_upd(2) [OF assms]] inv_parts(7) [OF assms(1)] by (simp add: drain_up_def)

lemma tick_master_inv: "master_inv N m \<Longrightarrow> master_inv N (m\<lparr>b_hl := host_link_tick now c (b_hl m)\<rparr>)"
  by (intro inv_upd(2) tick_link_inv inv_parts(2))

lemma relay_tick_inv:
  assumes "master_inv N m"
  shows "master_inv N (drain_up relay_up (m\<lparr>b_hl := host_link_tick now True (b_hl m)\<rparr>))"
    "master_inv N (drain_up (\<lambda>_ h. h) (m\<lparr>b_hl := host_link_tick now False (b_hl m)\<rparr>))"
  using tick_link_inv [OF inv_parts(2) [OF assms]] inv_parts(8) [OF assms]
  by (auto intro!: drain_up_inv tick_master_inv assms relay_up_inv)

lemma drain_tx_inv: "master_inv N m \<Longrightarrow> host_link_tx_drain n (b_hl m) = (out, h) \<Longrightarrow> master_inv N (m\<lparr>b_hl := h\<rparr>)"
  using inv_upd(2) [of N m h] drain_link_inv [OF inv_parts(2), of N m n] by simp

lemma pump_inv:
  assumes "master_inv N m"
  shows "usb_pump d now bs m = Some (out, m') \<Longrightarrow> master_inv N m'" "master_inv N (standalone_pump now m)"
    "wifi_pump d now up wr bs m = Some (live, out, m') \<Longrightarrow> master_inv N m'"
proof -
  show "master_inv N m'" if u: "usb_pump d now bs m = Some (out, m')"
  proof -
    obtain m1 where f: "feed_host d now bs m = Some m1" using u by (auto simp: usb_pump_def split: option.splits)
    note m2 = relay_tick_inv(1) [OF feed_host_inv [OF f assms], of now]
    show ?thesis using u f drain_tx_inv [OF m2, of 64] by (auto simp: usb_pump_def Let_def split: prod.splits)
  qed
  show "master_inv N (standalone_pump now m)"
    using drain_tx_inv [OF relay_tick_inv(2) [OF assms], of 64] by (auto simp: standalone_pump_def Let_def intro: prod.collapse [symmetric])
  show "master_inv N m'" if w: "wifi_pump d now up wr bs m = Some (live, out, m')"
  proof (cases up)
    case True
    obtain out1 h where t: "host_link_tx_drain 256 (b_hl (drain_up relay_up (m\<lparr>b_hl := host_link_tick now True (b_hl m)\<rparr>))) = (out1, h)" by fastforce
    note m2 = drain_tx_inv [OF relay_tick_inv(1) [OF assms, of now] t]
    show ?thesis using w True m2 feed_host_inv [OF _ m2] t by (auto simp: wifi_pump_def Let_def split: if_splits option.splits)
  qed (use w assms in \<open>simp add: wifi_pump_def\<close>)
qed

lemma load_inv: "master_inv N m \<Longrightarrow> master_inv N (bc_load_cfg_roster rc m)"
  by (auto simp: bc_load_cfg_roster_def master_inv_def Let_def split: prod.split)

lemma select_inv:
  assumes "master_inv N m" "uplink_select rc b usb wifi now w m = (w', m')"
  shows "master_inv N m'"
proof -
  have enter: "master_inv N (uplink_enter rc b act x)" if x: "master_inv N x" for act x
  proof -
    have "master_inv N (x\<lparr>b_hl := host_link_reset_boot (b_hl x), b_cmd := (b_cmd x)\<lparr>c_pending := False\<rparr>\<rparr>)"
      using inv_upd(6) [OF inv_upd(2) [OF x reset_link_inv [OF inv_parts(2) [OF x]]]] inv_parts(5) [OF x] by simp
    from load_inv [OF this, of rc] obtain y where y: "master_inv N y"
      "y = bc_load_cfg_roster rc (x\<lparr>b_hl := host_link_reset_boot (b_hl x), b_cmd := (b_cmd x)\<lparr>c_pending := False\<rparr>\<rparr>)" by blast
    have "master_inv N (bc_emit_boot_banner b (y\<lparr>b_up := u\<rparr>))" for u
    proof -
      have "length (boot_banner b (y\<lparr>b_up := u\<rparr>)) < 256" using banner_length [of b "y\<lparr>b_up := u\<rparr>"] by simp
      from inv_s2m [of N "y\<lparr>b_up := u\<rparr>", OF _ this] show ?thesis using y(1) by (simp add: bc_emit_boot_banner_def)
    qed
    then show ?thesis using y(1) unfolding uplink_enter_def Let_def y(2) [symmetric] by simp
  qed
  show ?thesis using assms enter by (auto simp: uplink_select_def Let_def split: prod.splits if_splits)
qed

section \<open>All steps\<close>

text \<open>
  The steps of the three threads: an iteration of the bus thread, a slice of the uplink thread in each mode and its choice
  of the mode, and what the application core does to the shared state: it sends messages
  to nodes, records a correlation, originates requests, takes commands from its queue and replies.
\<close>

inductive master_step :: "master \<Rightarrow> master \<Rightarrow> bool" where
  st_bus: "bus_control_step e t m = (acts, t', m') \<Longrightarrow> master_step m m'"
| st_usb: "usb_pump d now bs m = Some (out, m') \<Longrightarrow> master_step m m'"
| st_wifi: "wifi_pump d now up wr bs m = Some (live, out, m') \<Longrightarrow> master_step m m'"
| st_alone: "master_step m (standalone_pump now m)"
| st_select: "uplink_select rc b usb wifi now w m = (w', m') \<Longrightarrow> master_step m m'"
| st_produce: "master_step m (producers ms m)"
| st_correlate: "master_step m (m\<lparr>b_plane := snd (corr_add r a io h (b_plane m))\<rparr>)"
| st_originate: "master_step m (m\<lparr>b_orig_q := q\<rparr>)"
| st_take: "b_down_q m = c # q \<Longrightarrow> master_step m (m\<lparr>b_down_q := q\<rparr>)"
| st_reply: "length (ar_payload r) \<le> APPCORE_PAY_MAX \<Longrightarrow>
    master_step m (m\<lparr>b_nd := (b_nd m)\<lparr>nd_up_q := x_queue_send UP_Q_DEPTH r (nd_up_q (b_nd m))\<rparr>\<rparr>)"

lemma master_step_inv: "master_step m m' \<Longrightarrow> master_inv N m \<Longrightarrow> master_inv N m'"
proof (induction rule: master_step.induct)
  case (st_correlate m r a io h)
  then show ?case using inv_upd(1) [OF st_correlate corr_inv(1) [OF inv_parts(1) [OF st_correlate]]] by simp
next
  case (st_take m c q)
  then show ?case using inv_upd(7) inv_parts(6) by fastforce
next
  case (st_reply r m)
  then show ?case using inv_upd(8) [OF st_reply(2)] inv_parts(7,8) [OF st_reply(2)] by (auto simp: x_queue_send_def)
next
  case (st_select rc b usb wifi now w m w' m')
  then show ?case by (intro select_inv [OF st_select(2,1)])
qed (auto intro: control_inv pump_inv producers_inv)


lemma demo_inv: "master_inv 24 demo_master"
  using ready_inv link_reach_inv [OF demo_reach] asm_inv_asm0 hil0_inv
  by (simp add: master_inv_def demo_master_def ROSTER_MAX_def demo_cmd_def demo_cyc_def nd_bench_def hil_inv_def BUS_PAYLOAD_MAX_def)

definition demo_iter :: iter_env where
  "demo_iter = \<lparr>it_now = 0, it_words = [], it_slot = ce_slot mute_env 0, it_seen_ms = 0, it_cycle = mute_env\<rparr>"

definition demo_ctl :: ctl where
  "demo_ctl = \<lparr>t_state = BS_SWEEP, t_collect_slave = 0, t_collect_tries = 0, t_collect_is_orig = False, t_collect_host = 0\<rparr>"


end
