(* ===== verification/Cfl_Queue.thy ===== *)
theory Cfl_Queue
  imports Interfaces
begin

text \<open>
  The event queue of the application engine (\<^verbatim>\<open>src/app/bus_controller/engine/src/cfl_event_queue.c\<close>): two rings of events
  whose sizes are powers of two, the high-priority one always emptied first.

  \<open>EXCEPTION\<close> hands over to \<open>cfl_exception_handler\<close>, which disables interrupts and spins until the watchdog resets the chip;
  it is the result \<open>Exception\<close> here.  \<open>Undefined\<close> is behaviour C leaves undefined (the division by zero of the PWM command,
  which an engine command can reach).
\<close>

unbundle bit_operations_syntax

datatype 'a run = Done 'a | Exception | Undefined

fun run_bind :: "'a run \<Rightarrow> ('a \<Rightarrow> 'b run) \<Rightarrow> 'b run" where
  "run_bind (Done x) f = f x"
| "run_bind Exception f = Exception"
| "run_bind Undefined f = Undefined"

lemma run_bind_Done_iff: "run_bind r f = Done y \<longleftrightarrow> (\<exists>x. r = Done x \<and> f x = Done y)"
  by (cases r) simp_all

lemma run_bind_assoc [simp]: "run_bind (run_bind r f) g = run_bind r (\<lambda>x. run_bind (f x) g)"
  by (cases r) simp_all

section \<open>Events\<close>

definition CFL_EVENT_MALLOC_FLAG :: u8 where "CFL_EVENT_MALLOC_FLAG = 1"
definition CFL_EVENT_PRIORITY_LOW :: nat where "CFL_EVENT_PRIORITY_LOW = 0"
definition CFL_EVENT_PRIORITY_HIGH :: nat where "CFL_EVENT_PRIORITY_HIGH = 1"
definition CFL_EVENT_TYPE_PTR :: u8 where "CFL_EVENT_TYPE_PTR = 0"
definition CFL_EVENT_TYPE_INT :: u8 where "CFL_EVENT_TYPE_INT = 1"
definition CFL_EVENT_TYPE_UINT :: u8 where "CFL_EVENT_TYPE_UINT = 2"
definition CFL_EVENT_TYPE_FLOAT :: u8 where "CFL_EVENT_TYPE_FLOAT = 3"
definition CFL_EVENT_TYPE_NODE_ID :: u8 where "CFL_EVENT_TYPE_NODE_ID = 4"
definition CFL_EVENT_TYPE_JSON_RECORD :: u8 where "CFL_EVENT_TYPE_JSON_RECORD = 5"
definition CFL_EVENT_TYPE_STREAMING_DATA :: u8 where "CFL_EVENT_TYPE_STREAMING_DATA = 6"
definition CFL_EVENT_TYPE_STREAMING_COLLECTED_PACKETS :: u8 where "CFL_EVENT_TYPE_STREAMING_COLLECTED_PACKETS = 7"
definition CFL_EVENT_TYPE_NULL :: u8 where "CFL_EVENT_TYPE_NULL = 8"
definition CFL_EVENT_QUEUE_MIN_SIZE :: nat where "CFL_EVENT_QUEUE_MIN_SIZE = 2"

text \<open>The union \<open>CFL_EVENT_VALUE_T\<close>: an integer, or a pointer to one of the application's request
  slots, to the tick result or to the lists of tests to stop and to start, or null.\<close>

datatype event_value = V_int u32 | V_slot nat | V_tick | V_tests "nat list" "nat list" | V_null

record event =
  ev_node :: u16
  ev_type :: u8
  ev_flags :: u8
  ev_id :: u16
  ev_queue :: u16
  ev_data :: event_value

section \<open>Rings\<close>

record event_ring =
  e_head :: u16
  e_tail :: u16
  e_cap :: u16
  e_mask :: u16
  e_events :: "event list"

function round_up_loop :: "nat \<Rightarrow> nat \<Rightarrow> nat" where
  "round_up_loop p sz = (if 0 < p \<and> p < sz then round_up_loop (p * 2) sz else p)"
  by pat_completeness auto
termination by (relation "measure (\<lambda>(p, sz). sz - p)") auto

declare round_up_loop.simps [simp del]

definition round_up_power_of_2 :: "nat \<Rightarrow> u16" where
  "round_up_power_of_2 sz =
     (if sz < CFL_EVENT_QUEUE_MIN_SIZE then of_nat CFL_EVENT_QUEUE_MIN_SIZE
      else if sz > 32768 then 32768 else of_nat (round_up_loop 1 sz))"

definition init_ring :: "u16 \<Rightarrow> event list \<Rightarrow> event_ring" where
  "init_ring capacity events = \<lparr>e_head = 0, e_tail = 0, e_cap = capacity, e_mask = capacity - 1, e_events = events\<rparr>"

definition ring_is_full :: "event_ring \<Rightarrow> bool" where
  "ring_is_full r \<longleftrightarrow> (e_head r + 1) AND e_mask r = e_tail r"

definition ring_is_empty :: "event_ring \<Rightarrow> bool" where
  "ring_is_empty r \<longleftrightarrow> e_head r = e_tail r"

definition ring_count :: "event_ring \<Rightarrow> u16" where
  "ring_count r = (e_head r - e_tail r) AND e_mask r"

definition ring_push :: "event \<Rightarrow> event_ring \<Rightarrow> event_ring" where
  "ring_push e r = r\<lparr>e_events := (e_events r)[unat (e_head r) := e], e_head := (e_head r + 1) AND e_mask r\<rparr>"

definition ring_pop :: "event_ring \<Rightarrow> event \<times> event_ring" where
  "ring_pop r = (e_events r ! unat (e_tail r), r\<lparr>e_tail := (e_tail r + 1) AND e_mask r\<rparr>)"

definition ring_peek :: "event_ring \<Rightarrow> event" where
  "ring_peek r = e_events r ! unat (e_tail r)"

section \<open>The queue\<close>

record event_queue =
  q_high :: event_ring
  q_low :: event_ring
  q_id :: u16
  q_max_total :: u16
  q_max_high :: u16

definition cfl_create_event_queue :: "nat \<Rightarrow> nat \<Rightarrow> u16 \<Rightarrow> event list \<Rightarrow> event list \<Rightarrow> event_queue" where
  "cfl_create_event_queue hi lo qid hs ls =
     \<lparr>q_high = init_ring (round_up_power_of_2 hi) hs, q_low = init_ring (round_up_power_of_2 lo) ls,
      q_id = qid, q_max_total = 0, q_max_high = 0\<rparr>"

definition update_queue_stats :: "event_queue \<Rightarrow> event_queue" where
  "update_queue_stats q =
     (let h = ring_count (q_high q); q = (if h > q_max_high q then q\<lparr>q_max_high := h\<rparr> else q);
          t = h + ring_count (q_low q)
      in if t > q_max_total q then q\<lparr>q_max_total := t\<rparr> else q)"

definition cfl_send_event :: "nat \<Rightarrow> u16 \<Rightarrow> u8 \<Rightarrow> bool \<Rightarrow> u16 \<Rightarrow> event_value \<Rightarrow> event_queue \<Rightarrow> event_queue run" where
  "cfl_send_event priority node etype malloc_flag eid data q =
     (if priority \<noteq> CFL_EVENT_PRIORITY_LOW \<and> priority \<noteq> CFL_EVENT_PRIORITY_HIGH then Exception
      else if etype > CFL_EVENT_TYPE_NULL then Exception
      else if ring_is_full (if priority = CFL_EVENT_PRIORITY_HIGH then q_high q else q_low q) then Exception
      else (let e = \<lparr>ev_node = node, ev_type = etype, ev_flags = (if malloc_flag then CFL_EVENT_MALLOC_FLAG else 0),
                     ev_id = eid, ev_queue = q_id q, ev_data = data\<rparr>
            in Done (update_queue_stats
                 (if priority = CFL_EVENT_PRIORITY_HIGH then q\<lparr>q_high := ring_push e (q_high q)\<rparr>
                  else q\<lparr>q_low := ring_push e (q_low q)\<rparr>))))"

definition cfl_pop_event :: "event_queue \<Rightarrow> event option \<times> event_queue" where
  "cfl_pop_event q =
     (if \<not> ring_is_empty (q_high q) then (case ring_pop (q_high q) of (e, r) \<Rightarrow> (Some e, q\<lparr>q_high := r\<rparr>))
      else if \<not> ring_is_empty (q_low q) then (case ring_pop (q_low q) of (e, r) \<Rightarrow> (Some e, q\<lparr>q_low := r\<rparr>))
      else (None, q))"

definition cfl_peek_event :: "event_queue \<Rightarrow> event option" where
  "cfl_peek_event q =
     (if \<not> ring_is_empty (q_high q) then Some (ring_peek (q_high q))
      else if \<not> ring_is_empty (q_low q) then Some (ring_peek (q_low q)) else None)"

definition cfl_total_event_count :: "event_queue \<Rightarrow> nat" where
  "cfl_total_event_count q = unat (ring_count (q_high q)) + unat (ring_count (q_low q))"

definition cfl_high_priority_count :: "event_queue \<Rightarrow> u16" where "cfl_high_priority_count q = ring_count (q_high q)"

definition cfl_low_priority_count :: "event_queue \<Rightarrow> u16" where "cfl_low_priority_count q = ring_count (q_low q)"

text \<open>\<open>ring_clear\<close> pops what the ring holds; a flagged event that is no pointer is an exception.\<close>

fun ring_clear_loop :: "nat \<Rightarrow> event_ring \<Rightarrow> event_ring run" where
  "ring_clear_loop 0 r = Done r"
| "ring_clear_loop (Suc n) r =
     (if ring_is_empty r then Done r
      else (case ring_pop r of (e, r) \<Rightarrow>
        if ev_flags e AND CFL_EVENT_MALLOC_FLAG \<noteq> 0 \<and> ev_type e \<noteq> CFL_EVENT_TYPE_PTR then Exception else ring_clear_loop n r))"

definition ring_clear :: "event_ring \<Rightarrow> event_ring run" where "ring_clear r = ring_clear_loop (unat (ring_count r)) r"

definition cfl_clear_queue :: "event_queue \<Rightarrow> event_queue run" where
  "cfl_clear_queue q = run_bind (ring_clear (q_high q)) (\<lambda>h. run_bind (ring_clear (q_low q)) (\<lambda>l. Done (q\<lparr>q_high := h, q_low := l\<rparr>)))"

definition cfl_send_integer_event :: "nat \<Rightarrow> u16 \<Rightarrow> u16 \<Rightarrow> u32 \<Rightarrow> event_queue \<Rightarrow> event_queue run" where
  "cfl_send_integer_event priority node eid v q = cfl_send_event priority node CFL_EVENT_TYPE_INT False eid (V_int v) q"

definition cfl_send_data_event :: "nat \<Rightarrow> u16 \<Rightarrow> bool \<Rightarrow> u16 \<Rightarrow> event_value \<Rightarrow> event_queue \<Rightarrow> event_queue run" where
  "cfl_send_data_event priority node malloc_flag eid v q = cfl_send_event priority node CFL_EVENT_TYPE_PTR malloc_flag eid v q"

text \<open>The other senders differ in the type of the event; a float and a pointer to streamed data are opaque values.\<close>

definition cfl_send_unsigned_event :: "nat \<Rightarrow> u16 \<Rightarrow> u16 \<Rightarrow> u32 \<Rightarrow> event_queue \<Rightarrow> event_queue run" where
  "cfl_send_unsigned_event priority node eid v q = cfl_send_event priority node CFL_EVENT_TYPE_UINT False eid (V_int v) q"

definition cfl_send_float_event :: "nat \<Rightarrow> u16 \<Rightarrow> u16 \<Rightarrow> event_value \<Rightarrow> event_queue \<Rightarrow> event_queue run" where
  "cfl_send_float_event priority node eid v q = cfl_send_event priority node CFL_EVENT_TYPE_FLOAT False eid v q"

definition cfl_send_null_event :: "nat \<Rightarrow> u16 \<Rightarrow> u16 \<Rightarrow> event_queue \<Rightarrow> event_queue run" where
  "cfl_send_null_event priority node eid q = cfl_send_event priority node CFL_EVENT_TYPE_NULL False eid V_null q"

definition cfl_send_json_record_event :: "nat \<Rightarrow> u16 \<Rightarrow> u16 \<Rightarrow> u32 \<Rightarrow> event_queue \<Rightarrow> event_queue run" where
  "cfl_send_json_record_event priority node eid v q = cfl_send_event priority node CFL_EVENT_TYPE_JSON_RECORD False eid (V_int v) q"

definition cfl_send_node_id_event :: "nat \<Rightarrow> u16 \<Rightarrow> u16 \<Rightarrow> u32 \<Rightarrow> event_queue \<Rightarrow> event_queue run" where
  "cfl_send_node_id_event priority node eid v q = cfl_send_event priority node CFL_EVENT_TYPE_NODE_ID False eid (V_int v) q"

definition cfl_send_streaming_data_event :: "nat \<Rightarrow> u16 \<Rightarrow> u16 \<Rightarrow> event_value \<Rightarrow> event_queue \<Rightarrow> event_queue run" where
  "cfl_send_streaming_data_event priority node eid v q = cfl_send_event priority node CFL_EVENT_TYPE_STREAMING_DATA False eid v q"

definition cfl_send_streaming_collected_packets_event :: "nat \<Rightarrow> u16 \<Rightarrow> u16 \<Rightarrow> event_value \<Rightarrow> event_queue \<Rightarrow> event_queue run" where
  "cfl_send_streaming_collected_packets_event priority node eid v q =
     cfl_send_event priority node CFL_EVENT_TYPE_STREAMING_COLLECTED_PACKETS False eid v q"

definition cfl_queue_number :: "event \<Rightarrow> u16" where "cfl_queue_number e = ev_queue e"

definition cfl_get_max_total_depth :: "event_queue \<Rightarrow> u16" where "cfl_get_max_total_depth q = q_max_total q"

definition cfl_get_max_high_depth :: "event_queue \<Rightarrow> u16" where "cfl_get_max_high_depth q = q_max_high q"

definition cfl_reset_queue_stats :: "event_queue \<Rightarrow> event_queue" where
  "cfl_reset_queue_stats q = q\<lparr>q_max_total := 0, q_max_high := 0\<rparr>"

section \<open>A ring holds a list\<close>

definition ring_events :: "event_ring \<Rightarrow> event list" where
  "ring_events r = map (\<lambda>i. e_events r ! ((unat (e_tail r) + i) mod unat (e_cap r))) [0..<unat (ring_count r)]"

definition evring_inv :: "event_ring \<Rightarrow> bool" where
  [inv_defs]: "evring_inv r \<longleftrightarrow> (\<exists>k. 1 \<le> k \<and> k < 16 \<and> e_cap r = 2 ^ k \<and> e_mask r = mask k \<and> length (e_events r) = 2 ^ k
     \<and> unat (e_head r) < 2 ^ k \<and> unat (e_tail r) < 2 ^ k)"

definition evring_room :: "event_ring \<Rightarrow> nat" where
  "evring_room r = unat (e_cap r) - 1 - unat (ring_count r)"

lemma unat_and_mask: "unat ((w :: 'a :: len word) AND mask k) = unat w mod 2 ^ k"
  unfolding take_bit_eq_mask [symmetric] unsigned_take_bit_eq by (simp add: take_bit_eq_mod)

lemma mod_2p16: "k < 16 \<Longrightarrow> (x mod 65536) mod 2 ^ k = x mod (2 :: nat) ^ k"
  using mod_mod_cancel [of "2 ^ k" "2 ^ 16" x] le_imp_power_dvd [of k 16 "2 :: nat"] by simp

lemma unat_u16_pow: "k < 16 \<Longrightarrow> unat (2 ^ k :: u16) = 2 ^ k"
  using unat_of_nat [of "2 ^ k", where ?'a = 16] power_strict_increasing [of k 16 "2 :: nat"] by (simp add: take_bit_eq_mod)

text \<open>The arithmetic of the indices, in natural numbers.\<close>

lemma evring_nat:
  assumes "k < 16" "e_cap r = 2 ^ k" "e_mask r = mask k" "unat (e_head r) < 2 ^ k" "unat (e_tail r) < 2 ^ k"
  defines "n \<equiv> unat (ring_count r)"
  shows "n < 2 ^ k" "(unat (e_tail r) + n) mod 2 ^ k = unat (e_head r)" "ring_is_empty r \<longleftrightarrow> n = 0"
    "ring_is_full r \<longleftrightarrow> n + 1 = 2 ^ k" "evring_room r = 2 ^ k - 1 - n"
proof -
  let ?h = "unat (e_head r)" and ?t = "unat (e_tail r)" and ?c = "2 ^ k :: nat"
  have c: "?c dvd 65536" using le_imp_power_dvd [of k 16 "2 :: nat"] assms(1) by simp
  have cl: "?c < 65536" using assms(1) power_strict_increasing [of k 16 "2 :: nat"] by simp
  have nd: "n = (if ?t \<le> ?h then ?h - ?t else ?c + ?h - ?t)"
  proof (cases "?t \<le> ?h")
    case True
    then have "unat (e_head r - e_tail r) = ?h - ?t" using unat_sub [of "e_tail r" "e_head r"] by (simp add: word_le_nat_alt)
    then show ?thesis using True assms(4) by (simp add: n_def ring_count_def assms(3) unat_and_mask)
  next
    case False
    then have "unat (e_head r - e_tail r) = 65536 + ?h - ?t"
      using unat_sub_if' [of "e_head r" "e_tail r"] by (simp add: word_le_nat_alt)
    moreover have "(65536 + ?h - ?t) mod ?c = (?c + ?h - ?t) mod ?c"
    proof -
      obtain d where d: "(65536 :: nat) = ?c * d" using c by (rule dvdE)
      with cl have "d \<noteq> 0" by (cases d) auto
      then obtain d' where "d = Suc d'" by (cases d) auto
      with d have "65536 + ?h - ?t = ?c * d' + (?c + ?h - ?t)" using False assms(5) by simp
      then show ?thesis by simp
    qed
    ultimately show ?thesis using False assms(5) by (simp add: n_def ring_count_def assms(3) unat_and_mask)
  qed
  show "n < ?c" using assms(4,5) by (auto simp: nd)
  show "(?t + n) mod ?c = ?h" using assms(4,5) by (auto simp: nd)
  show "ring_is_empty r \<longleftrightarrow> n = 0" using assms(4,5) by (auto simp: nd ring_is_empty_def word_unat_eq_iff)
  have "unat ((e_head r + 1) AND e_mask r) = (?h + 1) mod ?c"
    using mod_mod_cancel [OF c] by (simp add: assms(3) unat_and_mask unat_word_ariths)
  then show "ring_is_full r \<longleftrightarrow> n + 1 = ?c"
    using assms(4,5) by (auto simp: nd ring_is_full_def word_unat_eq_iff mod_Suc split: if_splits)
  show "evring_room r = ?c - 1 - n" by (simp add: evring_room_def assms(2) n_def unat_u16_pow [OF assms(1)])
qed

lemma evring_cases:
  assumes "evring_inv r"
  obtains k where "1 \<le> k" "k < 16" "e_cap r = 2 ^ k" "e_mask r = mask k" "length (e_events r) = 2 ^ k"
    "unat (e_head r) < 2 ^ k" "unat (e_tail r) < 2 ^ k" "unat (e_cap r) = 2 ^ k"
  using assms unat_u16_pow unfolding evring_inv_def by metis

lemma inc_mask: "k < 16 \<Longrightarrow> unat (((w :: u16) + 1) AND mask k) = (unat w + 1) mod 2 ^ k"
  by (simp add: unat_and_mask unat_word_ariths mod_2p16)

lemma mod_add_cancel: "(a + b) mod c = (a + d) mod c \<Longrightarrow> b mod c = d mod (c :: nat)"
  unfolding nat_mod_eq_iff by auto

lemma evring_full: "evring_inv r \<Longrightarrow> ring_is_full r \<longleftrightarrow> evring_room r = 0"
proof (elim evring_cases)
  fix k assume k: "k < 16" "e_cap r = 2 ^ k" "e_mask r = mask k" "unat (e_head r) < 2 ^ k" "unat (e_tail r) < 2 ^ k"
  from evring_nat(1,4,5) [OF this] show "ring_is_full r \<longleftrightarrow> evring_room r = 0" by linarith
qed

lemma evring_empty: "evring_inv r \<Longrightarrow> ring_is_empty r \<longleftrightarrow> ring_events r = []"
  by (elim evring_cases) (use evring_nat(3) in \<open>auto simp: ring_events_def\<close>)

lemma evring_length: "length (ring_events r) = unat (ring_count r)"
  by (simp add: ring_events_def)

lemma evring_push:
  assumes "evring_inv r" "0 < evring_room r"
  shows "evring_inv (ring_push e r) \<and> ring_events (ring_push e r) = ring_events r @ [e] \<and> evring_room (ring_push e r) = evring_room r - 1"
proof -
  obtain k where k: "1 \<le> k" "k < 16" "e_cap r = 2 ^ k" "e_mask r = mask k" "length (e_events r) = 2 ^ k"
    "unat (e_head r) < 2 ^ k" "unat (e_tail r) < 2 ^ k" "unat (e_cap r) = 2 ^ k" using assms(1) by (rule evring_cases)
  let ?r = "ring_push e r" and ?n = "unat (ring_count r)" and ?t = "unat (e_tail r)"
  note N = evring_nat [OF k(2-4,6,7)] and p = unat_u16_pow [OF k(2)]
  have room: "?n + 1 < 2 ^ k" using assms(2) N(5) by simp
  have sel: "e_cap ?r = 2 ^ k" "e_mask ?r = mask k" "e_tail ?r = e_tail r" "unat (e_cap ?r) = 2 ^ k"
    "e_events ?r = (e_events r)[unat (e_head r) := e]" using k(8) by (simp_all add: ring_push_def k(3,4))
  have hd: "unat (e_head ?r) = (unat (e_head r) + 1) mod 2 ^ k" by (simp add: ring_push_def k(4) inc_mask [OF k(2)])
  then have hd': "unat (e_head ?r) = (?t + (?n + 1)) mod 2 ^ k" using N(2) by (metis add.assoc mod_add_left_eq)
  have inv: "evring_inv ?r" unfolding evring_inv_def using k hd sel by (intro exI [of _ k]) simp
  have "unat (e_head ?r) < 2 ^ k" "unat (e_tail ?r) < 2 ^ k" using hd k(7) by (simp_all add: sel)
  note N' = evring_nat [OF k(2) sel(1,2) this]
  have cnt: "unat (ring_count ?r) = ?n + 1"
  proof -
    have "(?t + unat (ring_count ?r)) mod 2 ^ k = (?t + (?n + 1)) mod 2 ^ k" using N'(2) hd' by (simp add: sel)
    then have "unat (ring_count ?r) mod 2 ^ k = (?n + 1) mod 2 ^ k" by (rule mod_add_cancel)
    then show ?thesis using N'(1) room by simp
  qed
  have other: "(?t + i) mod 2 ^ k \<noteq> unat (e_head r)" if "i < ?n" for i
  proof
    assume "(?t + i) mod 2 ^ k = unat (e_head r)"
    then have "(?t + i) mod 2 ^ k = (?t + ?n) mod 2 ^ k" using N(2) by simp
    then have "i mod 2 ^ k = ?n mod 2 ^ k" by (rule mod_add_cancel)
    then show False using that N(1) by simp
  qed
  have "ring_events ?r = ring_events r @ [e]"
    unfolding ring_events_def cnt sel k(8) using N(2) k(5,6) other [THEN not_sym] by (simp add: nth_list_update_neq p)
  then show ?thesis using inv N(5) N'(5) cnt by simp
qed

lemma evring_pop:
  assumes "evring_inv r" "ring_events r \<noteq> []"
  shows "evring_inv (snd (ring_pop r)) \<and> fst (ring_pop r) # ring_events (snd (ring_pop r)) = ring_events r
    \<and> evring_room (snd (ring_pop r)) = evring_room r + 1"
proof -
  obtain k where k: "1 \<le> k" "k < 16" "e_cap r = 2 ^ k" "e_mask r = mask k" "length (e_events r) = 2 ^ k"
    "unat (e_head r) < 2 ^ k" "unat (e_tail r) < 2 ^ k" "unat (e_cap r) = 2 ^ k" using assms(1) by (rule evring_cases)
  let ?r = "snd (ring_pop r)" and ?n = "unat (ring_count r)" and ?t = "unat (e_tail r)"
  note N = evring_nat [OF k(2-4,6,7)] and p = unat_u16_pow [OF k(2)]
  have n: "0 < ?n" using assms(2) by (simp add: ring_events_def)
  have sel: "e_cap ?r = 2 ^ k" "e_mask ?r = mask k" "e_head ?r = e_head r" "unat (e_cap ?r) = 2 ^ k" "e_events ?r = e_events r"
    using k(8) by (simp_all add: ring_pop_def k(3,4))
  have tl: "unat (e_tail ?r) = (?t + 1) mod 2 ^ k" by (simp add: ring_pop_def k(4) inc_mask [OF k(2)])
  have inv: "evring_inv ?r" unfolding evring_inv_def using k tl sel by (intro exI [of _ k]) simp
  have "unat (e_head ?r) < 2 ^ k" "unat (e_tail ?r) < 2 ^ k" using tl k(6) by (simp_all add: sel)
  note N' = evring_nat [OF k(2) sel(1,2) this]
  have cnt: "unat (ring_count ?r) = ?n - 1"
  proof -
    have "(?t + (1 + unat (ring_count ?r))) mod 2 ^ k = (?t + ?n) mod 2 ^ k"
      using N(2) N'(2) tl by (simp add: sel mod_add_left_eq)
    then have "(1 + unat (ring_count ?r)) mod 2 ^ k = ?n mod 2 ^ k" by (rule mod_add_cancel)
    then have e: "(1 + unat (ring_count ?r)) mod 2 ^ k = ?n" using N(1) by simp
    then have "1 + unat (ring_count ?r) \<noteq> 2 ^ k" using n by auto
    then show ?thesis using e N'(1) by simp
  qed
  have shift: "(unat (e_tail ?r) + i) mod 2 ^ k = (?t + Suc i) mod 2 ^ k" for i
    by (simp add: tl mod_add_left_eq)
  have "ring_events r = map (\<lambda>i. e_events r ! ((?t + i) mod 2 ^ k)) (0 # map Suc [0..<?n - 1])"
    using n by (simp add: ring_events_def k(8) map_Suc_upt upt_conv_Cons)
  then have "fst (ring_pop r) # ring_events ?r = ring_events r"
    using k(7) by (simp add: ring_events_def [of ?r] cnt sel shift comp_def p) (simp add: ring_pop_def)
  then show ?thesis using inv N(1,5) N'(5) cnt n by simp
qed

lemma ring_peek_hd: "evring_inv r \<Longrightarrow> ring_events r \<noteq> [] \<Longrightarrow> ring_peek r = hd (ring_events r)"
  using evring_pop [of r] by (simp add: ring_peek_def ring_pop_def) (metis list.sel(1))

text \<open>Taking \<open>n\<close> events out of a ring; with it the ring provides the contract of bounded queues.\<close>

fun ring_take :: "nat \<Rightarrow> event_ring \<Rightarrow> event list \<times> event_ring" where
  "ring_take 0 r = ([], r)"
| "ring_take (Suc n) r = (if ring_is_empty r then ([], r)
     else (case ring_pop r of (e, r') \<Rightarrow> case ring_take n r' of (es, r'') \<Rightarrow> (e # es, r'')))"

lemma ring_take_spec:
  "evring_inv r \<Longrightarrow> evring_inv (snd (ring_take n r)) \<and> fst (ring_take n r) @ ring_events (snd (ring_take n r)) = ring_events r
    \<and> length (fst (ring_take n r)) = min n (length (ring_events r))
    \<and> evring_room (snd (ring_take n r)) = evring_room r + length (fst (ring_take n r))"
proof (induction n arbitrary: r)
  case (Suc n)
  show ?case
  proof (cases "ring_events r = []")
    case True
    then show ?thesis using Suc.prems by (simp add: evring_empty)
  next
    case False
    obtain e r' where p: "ring_pop r = (e, r')" by fastforce
    with evring_pop [OF Suc.prems False] have "evring_inv r'" "e # ring_events r' = ring_events r" "evring_room r' = evring_room r + 1"
      by auto
    then show ?thesis using Suc.IH [of r'] p False Suc.prems
      by (auto simp: evring_empty case_prod_unfold simp flip: \<open>e # ring_events r' = ring_events r\<close>)
  qed
qed simp

interpretation evq: bounded_fifo evring_inv ring_events evring_room ring_push ring_take id
  by unfold_locales (use evring_push ring_take_spec in \<open>auto simp: fun_eq_iff\<close>)

section \<open>The queue is two FIFO lists\<close>

definition evq_inv :: "event_queue \<Rightarrow> bool" where
  [inv_defs]: "evq_inv q \<longleftrightarrow> evring_inv (q_high q) \<and> evring_inv (q_low q)"

definition evq_high :: "event_queue \<Rightarrow> event list" where "evq_high q = ring_events (q_high q)"
definition evq_low :: "event_queue \<Rightarrow> event list" where "evq_low q = ring_events (q_low q)"

definition evq_room :: "nat \<Rightarrow> event_queue \<Rightarrow> nat" where
  "evq_room priority q = evring_room (if priority = CFL_EVENT_PRIORITY_HIGH then q_high q else q_low q)"

definition the_event :: "u16 \<Rightarrow> u8 \<Rightarrow> bool \<Rightarrow> u16 \<Rightarrow> event_value \<Rightarrow> event_queue \<Rightarrow> event" where
  "the_event node etype mf eid data q = \<lparr>ev_node = node, ev_type = etype, ev_flags = (if mf then CFL_EVENT_MALLOC_FLAG else 0),
     ev_id = eid, ev_queue = q_id q, ev_data = data\<rparr>"

lemma stats_same [simp]: "q_high (update_queue_stats q) = q_high q" "q_low (update_queue_stats q) = q_low q"
  "q_id (update_queue_stats q) = q_id q"
  by (simp_all add: update_queue_stats_def Let_def)

lemma send_event_spec:
  assumes "evq_inv q" "priority \<in> {CFL_EVENT_PRIORITY_LOW, CFL_EVENT_PRIORITY_HIGH}" "etype \<le> CFL_EVENT_TYPE_NULL"
  shows "case cfl_send_event priority node etype mf eid data q of
      Done q' \<Rightarrow> evq_room priority q \<noteq> 0 \<and> evq_inv q' \<and> q_id q' = q_id q
        \<and> evq_high q' = evq_high q @ (if priority = CFL_EVENT_PRIORITY_HIGH then [the_event node etype mf eid data q] else [])
        \<and> evq_low q' = evq_low q @ (if priority = CFL_EVENT_PRIORITY_HIGH then [] else [the_event node etype mf eid data q])
        \<and> (\<forall>p. evq_room p q' = (if (p = CFL_EVENT_PRIORITY_HIGH) = (priority = CFL_EVENT_PRIORITY_HIGH) then evq_room p q - 1 else evq_room p q))
    | Exception \<Rightarrow> evq_room priority q = 0 | Undefined \<Rightarrow> False"
  using assms evring_push [of "q_high q"] evring_push [of "q_low q"]
  by (auto simp: cfl_send_event_def evq_inv_def evring_full evq_high_def evq_low_def evq_room_def the_event_def Let_def not_less)

lemma pop_event_spec:
  assumes "evq_inv q"
  shows "case cfl_pop_event q of
      (Some e, q') \<Rightarrow> evq_inv q' \<and> q_id q' = q_id q \<and> (if evq_high q = [] then evq_low q = e # evq_low q' \<and> evq_high q' = []
                        else evq_high q = e # evq_high q' \<and> evq_low q' = evq_low q)
    | (None, q') \<Rightarrow> q' = q \<and> evq_high q = [] \<and> evq_low q = []"
  using assms evring_pop [of "q_high q"] evring_pop [of "q_low q"]
  by (auto simp: cfl_pop_event_def evq_inv_def evring_empty evq_high_def evq_low_def case_prod_unfold)

lemma total_count: "cfl_total_event_count q = length (evq_high q) + length (evq_low q)"
  by (simp add: cfl_total_event_count_def evq_high_def evq_low_def evring_length)

text \<open>
  C9. The queue implements two FIFO lists, the high-priority one served first: a send appends to the list of its priority or
  stops the engine when the ring is full, whatever else; a pop takes the head of the high list, and of the low one only
  when the high one is empty; a peek shows what a pop would return.
\<close>

theorem event_queue_refines:
  assumes "evq_inv q" "priority \<in> {CFL_EVENT_PRIORITY_LOW, CFL_EVENT_PRIORITY_HIGH}" "etype \<le> CFL_EVENT_TYPE_NULL"
  shows "(case cfl_send_event priority node etype mf eid data q of
      Done q' \<Rightarrow> evq_room priority q \<noteq> 0 \<and> evq_inv q'
        \<and> (evq_high q', evq_low q') = (if priority = CFL_EVENT_PRIORITY_HIGH
             then (evq_high q @ [the_event node etype mf eid data q], evq_low q)
             else (evq_high q, evq_low q @ [the_event node etype mf eid data q]))
    | Exception \<Rightarrow> evq_room priority q = 0 | Undefined \<Rightarrow> False)
    \<and> evq_inv (snd (cfl_pop_event q)) \<and> fst (cfl_pop_event q) = cfl_peek_event q
    \<and> (fst (cfl_pop_event q), evq_high (snd (cfl_pop_event q)), evq_low (snd (cfl_pop_event q)))
      = (case (evq_high q, evq_low q) of (e # h, l) \<Rightarrow> (Some e, h, l) | ([], e # l) \<Rightarrow> (Some e, [], l) | ([], []) \<Rightarrow> (None, [], []))"
proof (intro conjI)
  show "case cfl_send_event priority node etype mf eid data q of
      Done q' \<Rightarrow> evq_room priority q \<noteq> 0 \<and> evq_inv q'
        \<and> (evq_high q', evq_low q') = (if priority = CFL_EVENT_PRIORITY_HIGH
             then (evq_high q @ [the_event node etype mf eid data q], evq_low q)
             else (evq_high q, evq_low q @ [the_event node etype mf eid data q]))
    | Exception \<Rightarrow> evq_room priority q = 0 | Undefined \<Rightarrow> False"
    using send_event_spec [OF assms, where node = node and mf = mf and eid = eid and data = data]
    by (cases "cfl_send_event priority node etype mf eid data q") auto
  show "evq_inv (snd (cfl_pop_event q))" using pop_event_spec [OF assms(1)] assms(1) by (auto split: prod.splits option.splits)
  show "fst (cfl_pop_event q) = cfl_peek_event q"
    by (simp add: cfl_pop_event_def cfl_peek_event_def ring_pop_def ring_peek_def)
  show "(fst (cfl_pop_event q), evq_high (snd (cfl_pop_event q)), evq_low (snd (cfl_pop_event q)))
      = (case (evq_high q, evq_low q) of (e # h, l) \<Rightarrow> (Some e, h, l) | ([], e # l) \<Rightarrow> (Some e, [], l) | ([], []) \<Rightarrow> (None, [], []))"
    using pop_event_spec [OF assms(1)] by (auto split: prod.splits option.splits list.splits if_splits)
qed

definition event0 :: event where
  "event0 = \<lparr>ev_node = 0, ev_type = 0, ev_flags = 0, ev_id = 0, ev_queue = 0, ev_data = V_null\<rparr>"

text \<open>The queue as the firmware creates it: 8 and 64 events, of which 7 and 63 can wait.\<close>

definition evq0 :: event_queue where
  "evq0 = cfl_create_event_queue 8 64 0 (replicate 8 event0) (replicate 64 event0)"

lemma round_up_powers: "round_up_power_of_2 8 = 8" "round_up_power_of_2 64 = 64"
  by (simp_all add: round_up_power_of_2_def CFL_EVENT_QUEUE_MIN_SIZE_def) (simp_all add: round_up_loop.simps)

lemma evq0: "evq_inv evq0" "evq_high evq0 = []" "evq_low evq0 = []" "evq_room CFL_EVENT_PRIORITY_HIGH evq0 = 7"
  "evq_room CFL_EVENT_PRIORITY_LOW evq0 = 63"
proof -
  have "evring_inv (init_ring 8 (replicate 8 event0))" unfolding evring_inv_def by (intro exI [of _ 3]) (simp add: init_ring_def mask_eq_exp_minus_1)
  moreover have "evring_inv (init_ring 64 (replicate 64 event0))"
    unfolding evring_inv_def by (intro exI [of _ 6]) (simp add: init_ring_def mask_eq_exp_minus_1)
  ultimately show "evq_inv evq0" by (simp add: evq_inv_def evq0_def cfl_create_event_queue_def round_up_powers)
qed (simp_all add: evq0_def cfl_create_event_queue_def round_up_powers evq_high_def evq_low_def ring_events_def ring_count_def init_ring_def
    evq_room_def evring_room_def CFL_EVENT_PRIORITY_HIGH_def CFL_EVENT_PRIORITY_LOW_def)

theorem event_queue_refines_witness:
  "fst (cfl_pop_event evq0) = None \<and> cfl_send_event CFL_EVENT_PRIORITY_HIGH 0 CFL_EVENT_TYPE_INT False 20 (V_int 1) evq0 \<noteq> Exception"
  using event_queue_refines [OF evq0(1), of CFL_EVENT_PRIORITY_HIGH CFL_EVENT_TYPE_INT 0 False 20 "V_int 1"] evq0(2-4)
  by (auto simp: CFL_EVENT_TYPE_INT_def CFL_EVENT_TYPE_NULL_def)

end
