(* ===== verification/Cfl_Engine.thy ===== *)
theory Cfl_Engine
  imports Cfl_Queue
begin

text \<open>
  The application engine (\<^verbatim>\<open>src/app/bus_controller/engine/src\<close>): the tree walker (\<^verbatim>\<open>CT_Tree_Walker.c\<close>), the execution
  and termination of nodes (\<^verbatim>\<open>cfl_engine.c\<close>), the node functions the firmware's image uses (\<^verbatim>\<open>cfl_main_functions.c\<close>,
  \<^verbatim>\<open>cfl_one_shot_functions.c\<close>, \<^verbatim>\<open>cfl_boolean_functions.c\<close>, \<^verbatim>\<open>cfl_common_functions.c\<close>) and the draining of the event queue
  (\<^verbatim>\<open>cfl_runtime.c\<close>).

  A flag byte is the record of the bits the code uses.  The memory of a node (its cell in an arena of the knowledge base) is
  an optional record; the block a wait node takes from the heap is its field \<open>w_aux\<close>.  The firmware's own functions act on a
  state \<open>'u\<close> the engine does not look at.  Function tables hold the names of the functions.
\<close>

unbundle bit_operations_syntax

section \<open>The image\<close>

definition CFL_INIT_EVENT :: u16 where "CFL_INIT_EVENT = 0"
definition CFL_TERMINATE_EVENT :: u16 where "CFL_TERMINATE_EVENT = 1"
definition CFL_TIMER_EVENT :: u16 where "CFL_TIMER_EVENT = 4"
definition CFL_SECOND_EVENT :: u16 where "CFL_SECOND_EVENT = 5"
definition CFL_TERMINATE_SYSTEM_EVENT :: u16 where "CFL_TERMINATE_SYSTEM_EVENT = 0xFFFF"
definition CFL_STOP_START_TESTS_EVENT :: u16 where "CFL_STOP_START_TESTS_EVENT = 0xFFF0"
definition LINK_COUNT_MASK :: u16 where "LINK_COUNT_MASK = 0x7FFF"
definition AUTO_START_BIT :: u16 where "AUTO_START_BIT = 0x8000"
definition MAX_CHILDREN_BUFFER :: nat where "MAX_CHILDREN_BUFFER = 256"

datatype ct_return = CT_CONTINUE | CT_SKIP_CHILDREN | CT_STOP_BRANCH | CT_STOP_SIBLINGS | CT_STOP_LEVEL | CT_STOP_ALL

datatype cfl_return = CFL_CONTINUE | CFL_HALT | CFL_TERMINATE | CFL_RESET | CFL_DISABLE | CFL_SKIP_CONTINUE | CFL_TERMINATE_SYSTEM

datatype main_fn = CFL_NULL_MAIN | CFL_COLUMN_MAIN | CFL_DISABLE_MAIN | CFL_GATE_NODE_MAIN | CFL_RESET_MAIN | CFL_WAIT_MAIN

datatype one_shot_fn = CFL_NULL_ONE_SHOT | CFL_COLUMN_INIT | CFL_COLUMN_TERM | CFL_GATE_NODE_INIT | CFL_GATE_NODE_TERM
  | CFL_WAIT_INIT | CFL_WAIT_TERM | User_fn nat

datatype boolean_fn = CFL_NULL_BOOL | CFL_COLUMN_NULL | CFL_GATE_NODE_NULL | CFL_WAIT_FOR_EVENT

record ct_node =
  ct_parent :: nat
  ct_link_start :: nat
  ct_link_count :: u16
  ct_main :: nat
  ct_init :: nat
  ct_aux :: nat
  ct_term :: nat

record kb_info =
  kb_start :: nat
  kb_count :: nat
  kb_max_depth :: nat

text \<open>What a wait node reads from its node data.\<close>

record wait_params =
  wp_timeout :: u32
  wp_time_out_event :: u32
  wp_error_function :: nat
  wp_reset_flag :: bool
  wp_event_id :: u32
  wp_event_count :: u32

record 'u image =
  im_nodes :: "ct_node list"
  im_links :: "nat list"
  im_kbs :: "kb_info list"
  im_mains :: "main_fn list"
  im_one_shots :: "one_shot_fn list"
  im_booleans :: "boolean_fn list"
  im_wait :: "nat \<Rightarrow> wait_params"
  im_user :: "nat \<Rightarrow> event_value \<Rightarrow> 'u \<Rightarrow> 'u run"

definition node_count :: "'u image \<Rightarrow> nat" where "node_count im = length (im_nodes im)"

definition link_count :: "'u image \<Rightarrow> nat \<Rightarrow> nat" where
  "link_count im i = unat (ct_link_count (im_nodes im ! i) AND LINK_COUNT_MASK)"

section \<open>The run-time state\<close>

record ct_flags =
  fl_visited :: bool
  fl_user1 :: bool
  fl_user2 :: bool
  fl_user3 :: bool

datatype aux_block = Aux_null | Aux_live u32 u32 | Aux_freed

record wait_data =
  w_timeout :: u32
  w_time_out_event :: u32
  w_error_function :: nat
  w_reset_flag :: bool
  w_event_count :: u32
  w_aux :: aux_block

record 'u rt =
  r_flags :: "ct_flags list"
  r_backup :: "ct_flags list"
  r_wait :: "wait_data option list"
  r_active :: "bool list"
  r_kb_start :: nat
  r_kb_count :: nat
  r_engine_flag :: bool
  r_exec_count :: nat
  r_start_node :: nat
  r_max_level :: nat
  r_stop_all :: bool
  r_event :: event
  r_user :: 'u

definition set_flags :: "nat \<Rightarrow> ct_flags \<Rightarrow> 'u rt \<Rightarrow> 'u rt" where
  "set_flags i f s = s\<lparr>r_flags := (r_flags s)[i := f]\<rparr>"

definition cfl_enable_node :: "'u image \<Rightarrow> nat \<Rightarrow> 'u rt \<Rightarrow> 'u rt run" where
  "cfl_enable_node im i s = (if i \<ge> node_count im then Exception
     else Done (set_flags i ((r_flags s ! i)\<lparr>fl_user1 := False, fl_user2 := False, fl_user3 := True\<rparr>) s))"

definition cfl_disable_node_flag :: "'u image \<Rightarrow> nat \<Rightarrow> 'u rt \<Rightarrow> 'u rt run" where
  "cfl_disable_node_flag im i s = (if i \<ge> node_count im then Exception
     else Done (set_flags i ((r_flags s ! i)\<lparr>fl_user1 := False, fl_user2 := False, fl_user3 := False\<rparr>) s))"

definition cfl_set_node_initialization_flag :: "'u image \<Rightarrow> nat \<Rightarrow> 'u rt \<Rightarrow> 'u rt run" where
  "cfl_set_node_initialization_flag im i s = (if i \<ge> node_count im then Exception
     else Done (set_flags i ((r_flags s ! i)\<lparr>fl_user2 := True\<rparr>) s))"

definition cfl_engine_node_is_enabled :: "'u image \<Rightarrow> nat \<Rightarrow> 'u rt \<Rightarrow> bool run" where
  "cfl_engine_node_is_enabled im i s = (if i \<ge> node_count im then Exception else Done (fl_user3 (r_flags s ! i)))"

definition cfl_engine_node_is_initialized :: "'u image \<Rightarrow> nat \<Rightarrow> 'u rt \<Rightarrow> bool run" where
  "cfl_engine_node_is_initialized im i s = (if i \<ge> node_count im then Exception
     else Done (fl_user2 (r_flags s ! i) \<and> fl_user3 (r_flags s ! i)))"

section \<open>Node functions\<close>

definition check_links :: "'u image \<Rightarrow> nat \<Rightarrow> bool" where
  "check_links im i \<longleftrightarrow> link_count im i = 0 \<or>
     (ct_link_start (im_nodes im ! i) < length (im_links im) \<and> ct_link_start (im_nodes im ! i) + link_count im i \<le> length (im_links im))"

definition node_links :: "'u image \<Rightarrow> nat \<Rightarrow> nat list" where
  "node_links im i = take (link_count im i) (drop (ct_link_start (im_nodes im ! i)) (im_links im))"

fun enable_links :: "'u image \<Rightarrow> (nat \<Rightarrow> bool) \<Rightarrow> nat list \<Rightarrow> 'u rt \<Rightarrow> 'u rt run" where
  "enable_links im P [] s = Done s"
| "enable_links im P (l # ls) s =
     (if l \<ge> node_count im then Exception
      else run_bind (if P l then cfl_enable_node im l s else Done s) (enable_links im P ls))"

definition cfl_enable_all_nodes :: "'u image \<Rightarrow> nat \<Rightarrow> 'u rt \<Rightarrow> 'u rt run" where
  "cfl_enable_all_nodes im i s =
     (if i \<ge> node_count im \<or> \<not> check_links im i then Exception else enable_links im (\<lambda>l. True) (node_links im i) s)"

definition cfl_enable_auto_start_nodes :: "'u image \<Rightarrow> nat \<Rightarrow> 'u rt \<Rightarrow> 'u rt run" where
  "cfl_enable_auto_start_nodes im i s =
     (if i \<ge> node_count im \<or> \<not> check_links im i then Exception
      else enable_links im (\<lambda>l. ct_link_count (im_nodes im ! l) AND AUTO_START_BIT \<noteq> 0) (node_links im i) s)"

text \<open>The cell of a node is taken from the arena once and kept: the initialisation leaves a cell that exists as it is.\<close>

definition cfl_wait_init :: "'u image \<Rightarrow> nat \<Rightarrow> 'u rt \<Rightarrow> 'u rt" where
  "cfl_wait_init im i s = (case r_wait s ! i of
     Some w \<Rightarrow> s
   | None \<Rightarrow> (let p = im_wait im i in
       s\<lparr>r_wait := (r_wait s)[i := Some \<lparr>w_timeout = wp_timeout p, w_time_out_event = wp_time_out_event p,
            w_error_function = wp_error_function p, w_reset_flag = wp_reset_flag p, w_event_count = 0, w_aux = Aux_null\<rparr>]\<rparr>))"

definition one_shot :: "'u image \<Rightarrow> one_shot_fn \<Rightarrow> nat \<Rightarrow> event \<Rightarrow> 'u rt \<Rightarrow> 'u rt run" where
  "one_shot im f i e s = (case f of
     CFL_COLUMN_INIT \<Rightarrow> cfl_enable_all_nodes im i s
   | CFL_GATE_NODE_INIT \<Rightarrow> cfl_enable_auto_start_nodes im i s
   | CFL_WAIT_INIT \<Rightarrow> Done (cfl_wait_init im i s)
   | User_fn k \<Rightarrow> run_bind (im_user im k (ev_data e) (r_user s)) (\<lambda>u. Done (s\<lparr>r_user := u\<rparr>))
   | _ \<Rightarrow> Done s)"

definition set_wait :: "nat \<Rightarrow> wait_data \<Rightarrow> 'u rt \<Rightarrow> 'u rt" where
  "set_wait i w s = s\<lparr>r_wait := (r_wait s)[i := Some w]\<rparr>"

text \<open>A freed block read again is undefined; freed twice, the heap raises its exception.\<close>

definition cfl_wait_for_event :: "'u image \<Rightarrow> nat \<Rightarrow> u16 \<Rightarrow> 'u rt \<Rightarrow> (bool \<times> 'u rt) run" where
  "cfl_wait_for_event im i eid s = (case r_wait s ! i of
     None \<Rightarrow> Exception
   | Some w \<Rightarrow>
       (if eid = CFL_INIT_EVENT
        then Done (False, set_wait i (w\<lparr>w_aux := Aux_live (wp_event_id (im_wait im i)) (wp_event_count (im_wait im i))\<rparr>) s)
        else if eid = CFL_TERMINATE_EVENT
        then (case w_aux w of Aux_null \<Rightarrow> Done (False, s) | Aux_live _ _ \<Rightarrow> Done (False, set_wait i (w\<lparr>w_aux := Aux_freed\<rparr>) s) | Aux_freed \<Rightarrow> Exception)
        else (case w_aux w of Aux_null \<Rightarrow> Exception | Aux_freed \<Rightarrow> Undefined
          | Aux_live wanted n \<Rightarrow>
              (if ucast eid = wanted then Done (n - 1 = 0, set_wait i (w\<lparr>w_aux := Aux_live wanted (n - 1)\<rparr>) s)
               else Done (False, s)))))"

definition boolean_call :: "'u image \<Rightarrow> boolean_fn \<Rightarrow> nat \<Rightarrow> u16 \<Rightarrow> 'u rt \<Rightarrow> (bool \<times> 'u rt) run" where
  "boolean_call im f i eid s = (if f = CFL_WAIT_FOR_EVENT then cfl_wait_for_event im i eid s else Done (False, s))"

fun any_enabled :: "'u image \<Rightarrow> nat list \<Rightarrow> 'u rt \<Rightarrow> bool run" where
  "any_enabled im [] s = Done False"
| "any_enabled im (l # ls) s = (if l \<ge> node_count im then Exception
     else run_bind (cfl_engine_node_is_enabled im l s) (\<lambda>b. if b then Done True else any_enabled im ls s))"

definition cfl_column_main :: "'u image \<Rightarrow> nat \<Rightarrow> nat \<Rightarrow> event \<Rightarrow> 'u rt \<Rightarrow> (cfl_return \<times> 'u rt) run" where
  "cfl_column_main im aux i e s =
     (if ev_id e \<noteq> CFL_TIMER_EVENT then Done (CFL_CONTINUE, s)
      else if i \<ge> node_count im then Exception
      else run_bind (boolean_call im (im_booleans im ! aux) i (ev_id e) s) (\<lambda>(b, s).
        if b then Done (CFL_DISABLE, s)
        else if \<not> check_links im i then Exception
        else run_bind (any_enabled im (node_links im i) s) (\<lambda>b. Done (if b then CFL_CONTINUE else CFL_DISABLE, s))))"

definition cfl_wait_main :: "'u image \<Rightarrow> nat \<Rightarrow> nat \<Rightarrow> event \<Rightarrow> 'u rt \<Rightarrow> (cfl_return \<times> 'u rt) run" where
  "cfl_wait_main im aux i e s =
     run_bind (boolean_call im (im_booleans im ! aux) i (ev_id e) s) (\<lambda>(b, s).
       if b then Done (CFL_DISABLE, s)
       else (case r_wait s ! i of
           None \<Rightarrow> Exception
         | Some w \<Rightarrow>
             (if w_timeout w = 0 then Done (CFL_HALT, s)
              else if w_time_out_event w = ucast (ev_id e) then
                (let w = w\<lparr>w_event_count := w_event_count w + 1\<rparr>; s = set_wait i w s in
                 if w_event_count w \<ge> w_timeout w then
                   run_bind (one_shot im (im_one_shots im ! w_error_function w) i e s) (\<lambda>s.
                     Done (if w_reset_flag w then CFL_RESET else CFL_TERMINATE, s))
                 else Done (CFL_HALT, s))
              else Done (CFL_HALT, s))))"

definition main_call :: "'u image \<Rightarrow> main_fn \<Rightarrow> nat \<Rightarrow> nat \<Rightarrow> event \<Rightarrow> 'u rt \<Rightarrow> (cfl_return \<times> 'u rt) run" where
  "main_call im f aux i e s = (case f of
     CFL_NULL_MAIN \<Rightarrow> Done (CFL_CONTINUE, s)
   | CFL_COLUMN_MAIN \<Rightarrow> cfl_column_main im aux i e s
   | CFL_GATE_NODE_MAIN \<Rightarrow> cfl_column_main im aux i e s
   | CFL_DISABLE_MAIN \<Rightarrow> Done (CFL_DISABLE, s)
   | CFL_RESET_MAIN \<Rightarrow> Done (CFL_RESET, s)
   | CFL_WAIT_MAIN \<Rightarrow> cfl_wait_main im aux i e s)"

section \<open>The tree walker\<close>

text \<open>
  \<open>walk_iterative\<close> keeps its own stack of (node, level, next child), whose top is the head of the list here.  A step returns
  the code the loop ends with, if it ends.  The callback \<open>ap\<close> gets the node; the two callbacks ignore the level.  The code's
  bound on the number of iterations is the fuel of the loop, and running out of it is the code's exception.
\<close>

definition clear_engine_flags :: "'u rt \<Rightarrow> 'u rt" where
  "clear_engine_flags s = s\<lparr>r_flags := map (\<lambda>f. f\<lparr>fl_visited := False\<rparr>) (r_flags s)\<rparr>"

definition cfl_get_forward_enabled_links :: "'u image \<Rightarrow> nat \<Rightarrow> nat list run" where
  "cfl_get_forward_enabled_links im i =
     (if i \<ge> node_count im \<or> \<not> check_links im i \<or> link_count im i > MAX_CHILDREN_BUFFER then Exception
      else if list_ex (\<lambda>l. l \<ge> node_count im) (node_links im i) then Exception else Done (node_links im i))"

definition walk_descend :: "'u image \<Rightarrow> nat \<Rightarrow> nat \<Rightarrow> nat \<times> nat \<times> nat \<Rightarrow> (nat \<times> nat \<times> nat) list \<Rightarrow> 'u rt \<Rightarrow> (nat \<times> nat \<times> nat) list run" where
  "walk_descend im cap mid cur st s = (case cur of (i, lv, ci) \<Rightarrow>
     run_bind (cfl_get_forward_enabled_links im i) (\<lambda>ch.
       if ci \<ge> length ch then Done st
       else if ch ! ci \<ge> node_count im \<or> ch ! ci > mid then Exception
       else if fl_visited (r_flags s ! (ch ! ci)) then Done ((i, lv, ci + 1) # st)
       else if length st + 1 \<ge> cap then Exception
       else Done ((ch ! ci, lv + 1, 0) # (i, lv, ci + 1) # st)))"

definition walk_step :: "'u image \<Rightarrow> (nat \<Rightarrow> 'u rt \<Rightarrow> (ct_return \<times> 'u rt) run) \<Rightarrow> nat \<Rightarrow> nat \<Rightarrow> nat \<times> nat \<times> nat \<Rightarrow> (nat \<times> nat \<times> nat) list
    \<Rightarrow> 'u rt \<Rightarrow> (ct_return option \<times> (nat \<times> nat \<times> nat) list \<times> 'u rt) run" where
  "walk_step im ap cap mid cur st s = (case cur of (i, lv, ci) \<Rightarrow>
     (if r_stop_all s then Done (Some CT_STOP_ALL, st, s)
      else if i \<ge> node_count im \<or> i > mid then Exception
      else if fl_visited (r_flags s ! i) then
        (if ci = 0 then Done (None, st, s) else run_bind (walk_descend im cap mid cur st s) (\<lambda>st. Done (None, st, s)))
      else (let s = set_flags i ((r_flags s ! i)\<lparr>fl_visited := True\<rparr>) s in
        if lv > r_max_level s then Done (None, st, s)
        else run_bind (ap i s) (\<lambda>(r, s). case r of
            CT_STOP_ALL \<Rightarrow> Done (Some CT_STOP_ALL, st, s\<lparr>r_stop_all := True\<rparr>)
          | CT_STOP_BRANCH \<Rightarrow> Done (None, st, s)
          | CT_STOP_SIBLINGS \<Rightarrow> Done (None, tl st, s)
          | CT_STOP_LEVEL \<Rightarrow> Done (None, st, s\<lparr>r_max_level := lv\<rparr>)
          | CT_SKIP_CHILDREN \<Rightarrow> Done (None, st, s)
          | CT_CONTINUE \<Rightarrow> run_bind (walk_descend im cap mid cur st s) (\<lambda>st. Done (None, st, s))))))"

fun walk_loop :: "'u image \<Rightarrow> (nat \<Rightarrow> 'u rt \<Rightarrow> (ct_return \<times> 'u rt) run) \<Rightarrow> nat \<Rightarrow> nat \<Rightarrow> nat \<Rightarrow> (nat \<times> nat \<times> nat) list \<Rightarrow> 'u rt
    \<Rightarrow> (ct_return \<times> 'u rt) run" where
  "walk_loop im ap cap mid n [] s = Done (CT_CONTINUE, s)"
| "walk_loop im ap cap mid 0 (cur # st) s = Exception"
| "walk_loop im ap cap mid (Suc n) (cur # st) s =
     run_bind (walk_step im ap cap mid cur st s) (\<lambda>(r, st, s). case r of Some c \<Rightarrow> Done (c, s) | None \<Rightarrow> walk_loop im ap cap mid n st s)"

definition ct_walker_walk :: "'u image \<Rightarrow> (nat \<Rightarrow> 'u rt \<Rightarrow> (ct_return \<times> 'u rt) run) \<Rightarrow> nat \<Rightarrow> nat \<Rightarrow> nat \<Rightarrow> nat \<Rightarrow> 'u rt
    \<Rightarrow> (ct_return \<times> 'u rt) run" where
  "ct_walker_walk im ap root cap max_level mid s =
     (if cap = 0 \<or> root \<ge> node_count im \<or> mid > node_count im then Exception
      else (let s = clear_engine_flags (s\<lparr>r_max_level := max_level, r_stop_all := False\<rparr>) in
        if root > mid then Exception
        else walk_loop im ap cap mid ((mid + 1) * (MAX_CHILDREN_BUFFER + 1)) [(root, 0, 0)] s))"

definition cfl_calculate_max_level :: "'u image \<Rightarrow> nat" where
  "cfl_calculate_max_level im = foldl (\<lambda>d k. if kb_max_depth k > d then kb_max_depth k else d) 0 (im_kbs im) + 1"

section \<open>Terminating and executing nodes\<close>

text \<open>The boolean function first, then the terminating one-shot, and only for a node that was initialised.\<close>

definition cfl_disable_node :: "'u image \<Rightarrow> nat \<Rightarrow> event \<Rightarrow> 'u rt \<Rightarrow> 'u rt run" where
  "cfl_disable_node im i e s =
     (if i \<ge> node_count im then Exception
      else if \<not> (fl_user3 (r_flags s ! i) \<and> fl_user2 (r_flags s ! i)) then cfl_disable_node_flag im i s
      else (let nd = im_nodes im ! i in
        run_bind (if ct_aux nd = 0 then Done s
                  else if ct_aux nd \<ge> length (im_booleans im) then Exception
                  else run_bind (boolean_call im (im_booleans im ! ct_aux nd) i CFL_TERMINATE_EVENT s) (\<lambda>(b, s). Done s)) (\<lambda>s.
        run_bind (if ct_term nd = 0 then Done s
                  else if ct_term nd \<ge> length (im_one_shots im) then Exception
                  else one_shot im (im_one_shots im ! ct_term nd) i e s)
          (cfl_disable_node_flag im i))))"

definition cfl_mark_node_for_termination :: "'u image \<Rightarrow> nat \<Rightarrow> 'u rt \<Rightarrow> (ct_return \<times> 'u rt) run" where
  "cfl_mark_node_for_termination im i s =
     (if i \<ge> node_count im then Exception
      else Done (CT_CONTINUE, if fl_user3 (r_flags s ! i)
        then s\<lparr>r_backup := (r_backup s)[i := (r_backup s ! i)\<lparr>fl_user1 := True\<rparr>]\<rparr> else s))"

fun disable_marked :: "'u image \<Rightarrow> event \<Rightarrow> nat list \<Rightarrow> 'u rt \<Rightarrow> 'u rt run" where
  "disable_marked im e [] s = Done s"
| "disable_marked im e (i # is) s =
     run_bind (if fl_user1 (r_flags s ! i) then cfl_disable_node im i e (set_flags i ((r_flags s ! i)\<lparr>fl_user1 := False\<rparr>) s) else Done s)
       (disable_marked im e is)"

text \<open>
  The marking walk runs on the walker the executing walk is using: flags, limits and callback are saved before and restored
  after it.  The marks go to the saved copy of the flags, which the restore brings back.
\<close>

definition cfl_terminate_node_tree :: "'u image \<Rightarrow> nat \<Rightarrow> event \<Rightarrow> 'u rt \<Rightarrow> 'u rt run" where
  "cfl_terminate_node_tree im i e s =
     (if i \<ge> node_count im then Exception
      else if \<not> fl_user2 (r_flags s ! i) then Done s
      else if link_count im i = 0 then cfl_disable_node im i e s
      else (let saved = s\<lparr>r_backup := r_flags s\<rparr> in
        run_bind (ct_walker_walk im (cfl_mark_node_for_termination im) i (cfl_calculate_max_level im) (r_max_level s) (node_count im) saved)
          (\<lambda>(r, t). let t = t\<lparr>r_flags := r_backup t, r_stop_all := r_stop_all s, r_max_level := r_max_level s\<rparr> in
            if r_kb_count t = 0 then Done t
            else if r_kb_start t + r_kb_count t - 1 \<ge> node_count im then Exception
            else if i < r_kb_start t then Exception
            else disable_marked im e (rev [i..<r_kb_start t + r_kb_count t]) t)))"

fun cfl_terminate_all_nodes_in_kb :: "'u image \<Rightarrow> nat list \<Rightarrow> event \<Rightarrow> 'u rt \<Rightarrow> 'u rt run" where
  "cfl_terminate_all_nodes_in_kb im [] e s = Done s"
| "cfl_terminate_all_nodes_in_kb im (i # is) e s = run_bind (cfl_disable_node im i e s) (cfl_terminate_all_nodes_in_kb im is e)"

definition NO_PARENT :: nat where "NO_PARENT = 0xFFFF"

definition node_main :: "'u image \<Rightarrow> nat \<Rightarrow> event \<Rightarrow> 'u rt \<Rightarrow> (ct_return \<times> 'u rt) run" where
  "node_main im i e s = (let nd = im_nodes im ! i in
     run_bind (main_call im (im_mains im ! ct_main nd) (ct_aux nd) i e s) (\<lambda>(r, s). let s = s\<lparr>r_engine_flag := True\<rparr> in
       case r of
         CFL_CONTINUE \<Rightarrow> Done (CT_CONTINUE, s)
       | CFL_HALT \<Rightarrow> Done (CT_STOP_SIBLINGS, s)
       | CFL_RESET \<Rightarrow> run_bind (cfl_terminate_node_tree im (ct_parent nd) e s) (\<lambda>s.
           run_bind (cfl_enable_node im (ct_parent nd) s) (\<lambda>s. Done (CT_CONTINUE, s)))
       | CFL_DISABLE \<Rightarrow> run_bind (cfl_terminate_node_tree im i e s) (\<lambda>s. Done (CT_SKIP_CHILDREN, s))
       | CFL_SKIP_CONTINUE \<Rightarrow> Done (CT_SKIP_CHILDREN, s)
       | CFL_TERMINATE \<Rightarrow>
           (if ct_parent nd \<noteq> NO_PARENT then run_bind (cfl_terminate_node_tree im (ct_parent nd) e s) (\<lambda>s. Done (CT_SKIP_CHILDREN, s))
            else run_bind (cfl_disable_node im i e s) (\<lambda>s. Done (CT_STOP_ALL, s)))
       | CFL_TERMINATE_SYSTEM \<Rightarrow>
           run_bind (cfl_terminate_node_tree im (r_start_node s) e (s\<lparr>r_engine_flag := False\<rparr>)) (\<lambda>s. Done (CT_STOP_ALL, s))))"

definition node_init :: "'u image \<Rightarrow> nat \<Rightarrow> event \<Rightarrow> 'u rt \<Rightarrow> 'u rt run" where
  "node_init im i e s = (let nd = im_nodes im ! i in
     run_bind (if ct_init nd = 0 then Done s else one_shot im (im_one_shots im ! ct_init nd) i e s) (\<lambda>s.
     run_bind (if ct_aux nd = 0 then Done s
               else run_bind (boolean_call im (im_booleans im ! ct_aux nd) i CFL_INIT_EVENT s) (\<lambda>(b, s). Done s))
       (cfl_set_node_initialization_flag im i)))"

definition cfl_execute_node :: "'u image \<Rightarrow> event \<Rightarrow> nat \<Rightarrow> 'u rt \<Rightarrow> (ct_return \<times> 'u rt) run" where
  "cfl_execute_node im e i s =
     (if i \<ge> node_count im then Exception
      else (let nd = im_nodes im ! i in
        if ct_main nd \<ge> length (im_mains im) \<or> ct_init nd \<ge> length (im_one_shots im) \<or> ct_aux nd \<ge> length (im_booleans im) then Exception
        else run_bind (cfl_engine_node_is_enabled im i s) (\<lambda>on.
          if \<not> on then Done (CT_SKIP_CHILDREN, s)
          else (let s = s\<lparr>r_exec_count := r_exec_count s + 1\<rparr> in
            run_bind (cfl_engine_node_is_initialized im i s) (\<lambda>inited.
            run_bind (if inited then Done s else node_init im i e s) (node_main im i e))))))"

definition cfl_execute_event :: "'u image \<Rightarrow> event \<Rightarrow> 'u rt \<Rightarrow> (bool \<times> 'u rt) run" where
  "cfl_execute_event im e s = (let i = unat (ev_node e) in
     if i < r_kb_start s \<or> i \<ge> r_kb_start s + r_kb_count s \<or> i \<ge> node_count im then Exception
     else run_bind (cfl_engine_node_is_enabled im i s) (\<lambda>on.
       if \<not> on then Done (False, s)
       else run_bind (ct_walker_walk im (cfl_execute_node im e) i (cfl_calculate_max_level im) (r_max_level s) (node_count im)
           (s\<lparr>r_engine_flag := True, r_exec_count := 0, r_start_node := i\<rparr>))
         (\<lambda>(r, s). let s = (if r_exec_count s = 0 \<or> \<not> r_engine_flag s then s\<lparr>r_engine_flag := False\<rparr> else s) in
           Done (r_engine_flag s, s))))"

section \<open>Tests and the event loop\<close>

definition CFL_CHANGED_SECOND :: u32 where "CFL_CHANGED_SECOND = 1"
definition CFL_CHANGED_MINUTE :: u32 where "CFL_CHANGED_MINUTE = 2"
definition CFL_CHANGED_HOUR :: u32 where "CFL_CHANGED_HOUR = 4"
definition CFL_CHANGED_DAY :: u32 where "CFL_CHANGED_DAY = 8"
definition CFL_CHANGED_DOW :: u32 where "CFL_CHANGED_DOW = 16"
definition CFL_CHANGED_DOY :: u32 where "CFL_CHANGED_DOY = 32"

fun disable_flags :: "'u image \<Rightarrow> nat list \<Rightarrow> 'u rt \<Rightarrow> 'u rt run" where
  "disable_flags im [] s = Done s"
| "disable_flags im (i # is) s = run_bind (cfl_disable_node_flag im i s) (disable_flags im is)"

definition cfl_engine_init_test :: "'u image \<Rightarrow> nat \<Rightarrow> nat \<Rightarrow> 'u rt \<Rightarrow> 'u rt run" where
  "cfl_engine_init_test im start count s =
     (if start \<ge> node_count im \<or> 0 < count \<and> start + count > node_count im then Exception
      else run_bind (disable_flags im [start..<start + count] s) (cfl_enable_node im start))"

definition cfl_add_test_by_index :: "'u image \<Rightarrow> nat \<Rightarrow> 'u rt \<Rightarrow> (bool \<times> 'u rt) run" where
  "cfl_add_test_by_index im k s =
     (if k \<ge> length (im_kbs im) then Exception
      else if r_active s ! k then Done (False, s)
      else run_bind (cfl_engine_init_test im (kb_start (im_kbs im ! k)) (kb_count (im_kbs im ! k)) s)
        (\<lambda>s. Done (True, s\<lparr>r_active := (r_active s)[k := True]\<rparr>)))"

text \<open>The cells of the knowledge base go with its arena.\<close>

definition free_cells :: "nat \<Rightarrow> nat \<Rightarrow> 'u rt \<Rightarrow> 'u rt" where
  "free_cells start count s = s\<lparr>r_wait := map (\<lambda>i. if start \<le> i \<and> i < start + count then None else r_wait s ! i) [0..<length (r_wait s)]\<rparr>"

definition cfl_delete_test_by_index :: "'u image \<Rightarrow> nat \<Rightarrow> 'u rt \<Rightarrow> (bool \<times> 'u rt) run" where
  "cfl_delete_test_by_index im k s =
     (if k \<ge> length (im_kbs im) then Done (False, s)
      else if \<not> r_active s ! k then Done (False, s)
      else (let start = kb_start (im_kbs im ! k); count = kb_count (im_kbs im ! k) in
        run_bind (cfl_terminate_all_nodes_in_kb im (rev [start..<start + count]) (r_event s) s)
          (\<lambda>s. Done (True, (free_cells start count s)\<lparr>r_active := (r_active s)[k := False]\<rparr>))))"

fun delete_tests :: "'u image \<Rightarrow> nat list \<Rightarrow> 'u rt \<Rightarrow> 'u rt run" where
  "delete_tests im [] s = Done s"
| "delete_tests im (k # ks) s = run_bind (cfl_delete_test_by_index im k s) (\<lambda>(b, s). delete_tests im ks s)"

fun add_tests :: "'u image \<Rightarrow> nat list \<Rightarrow> 'u rt \<Rightarrow> 'u rt run" where
  "add_tests im [] s = Done s"
| "add_tests im (k # ks) s = run_bind (cfl_add_test_by_index im k s) (\<lambda>(b, s). add_tests im ks s)"

definition process_stop_start_tests :: "'u image \<Rightarrow> event_value \<Rightarrow> 'u rt \<Rightarrow> 'u rt run" where
  "process_stop_start_tests im v s = (case v of
     V_tests stops starts \<Rightarrow> run_bind (delete_tests im stops s) (add_tests im starts)
   | _ \<Rightarrow> Undefined)"

fun find_owner :: "'u image \<Rightarrow> 'u rt \<Rightarrow> nat list \<Rightarrow> nat \<Rightarrow> nat option" where
  "find_owner im s [] i = None"
| "find_owner im s (k # ks) i =
     (if r_active s ! k \<and> kb_start (im_kbs im ! k) \<le> i \<and> i < kb_start (im_kbs im ! k) + kb_count (im_kbs im ! k) then Some k
      else find_owner im s ks i)"

definition cfl_find_owning_active_kb :: "'u image \<Rightarrow> nat \<Rightarrow> 'u rt \<Rightarrow> nat option" where
  "cfl_find_owning_active_kb im i s = find_owner im s [0..<length (im_kbs im)] i"

definition kb_window :: "'u image \<Rightarrow> nat \<Rightarrow> 'u rt \<Rightarrow> 'u rt" where
  "kb_window im k s = s\<lparr>r_kb_start := kb_start (im_kbs im ! k), r_kb_count := kb_count (im_kbs im ! k)\<rparr>"

definition cfl_send_system_event_to_test :: "'u image \<Rightarrow> nat \<Rightarrow> u16 \<Rightarrow> 'u rt \<Rightarrow> event_queue \<Rightarrow> event_queue run" where
  "cfl_send_system_event_to_test im k eid s q =
     (if \<not> r_active s ! k then Done q
      else run_bind (cfl_engine_node_is_enabled im (kb_start (im_kbs im ! k)) s) (\<lambda>on.
        if on then cfl_send_event CFL_EVENT_PRIORITY_LOW (of_nat (kb_start (im_kbs im ! k))) CFL_EVENT_TYPE_PTR False eid V_tick q
        else Done q))"

fun send_changed :: "'u image \<Rightarrow> nat \<Rightarrow> u32 \<Rightarrow> (u32 \<times> u16) list \<Rightarrow> 'u rt \<Rightarrow> event_queue \<Rightarrow> event_queue run" where
  "send_changed im k m [] s q = Done q"
| "send_changed im k m ((b, eid) # es) s q =
     run_bind (if m AND b \<noteq> 0 then cfl_send_system_event_to_test im k eid s q else Done q) (send_changed im k m es s)"

definition changed_events :: "(u32 \<times> u16) list" where
  "changed_events = [(CFL_CHANGED_SECOND, CFL_SECOND_EVENT), (CFL_CHANGED_MINUTE, 6), (CFL_CHANGED_HOUR, 7), (CFL_CHANGED_DAY, 8),
     (CFL_CHANGED_DOW, 9), (CFL_CHANGED_DOY, 11)]"

definition cfl_generate_timer_events :: "'u image \<Rightarrow> nat \<Rightarrow> u32 \<Rightarrow> 'u rt \<Rightarrow> event_queue \<Rightarrow> event_queue run" where
  "cfl_generate_timer_events im k changed s q =
     run_bind (cfl_send_system_event_to_test im k CFL_TIMER_EVENT s q) (send_changed im k changed changed_events s)"

text \<open>An event runs in the window of the active knowledge base that owns its node; one whose knowledge base is not active is dropped.\<close>

definition route_event :: "'u image \<Rightarrow> event \<Rightarrow> 'u rt \<Rightarrow> 'u rt run" where
  "route_event im e s = (case cfl_find_owning_active_kb im (unat (ev_node e)) s of
     None \<Rightarrow> if unat (ev_node e) \<ge> node_count im then Exception else Done s
   | Some k \<Rightarrow> run_bind (cfl_execute_event im e (kb_window im k s)) (\<lambda>(ok, s).
       if ok then Done s else run_bind (cfl_delete_test_by_index im k s) (\<lambda>(b, s). Done s)))"

text \<open>
  The loop of \<open>cfl_runtime_run\<close> that empties the queue.  Nothing an event runs sends an event, so the loop ends after as many
  turns as there are events.  The flag says that the system is to stop.
\<close>

fun drain_queue :: "'u image \<Rightarrow> nat \<Rightarrow> event_queue \<Rightarrow> 'u rt \<Rightarrow> (bool \<times> event_queue \<times> 'u rt) run" where
  "drain_queue im 0 q s = Done (False, q, s)"
| "drain_queue im (Suc n) q s = (case cfl_pop_event q of
     (None, q) \<Rightarrow> Done (False, q, s)
   | (Some e, q) \<Rightarrow> (let s = s\<lparr>r_event := e\<rparr> in
       if ev_id e = CFL_TERMINATE_SYSTEM_EVENT then Done (True, q, s)
       else run_bind (if ev_id e = CFL_STOP_START_TESTS_EVENT then process_stop_start_tests im (ev_data e) s else route_event im e s)
         (drain_queue im n q)))"

definition kb_pass :: "'u image \<Rightarrow> u32 \<Rightarrow> nat \<Rightarrow> event_queue \<Rightarrow> 'u rt \<Rightarrow> (bool \<times> event_queue \<times> 'u rt) run" where
  "kb_pass im changed k q s = (let s = kb_window im k s in
     run_bind (cfl_generate_timer_events im k changed s q) (\<lambda>q.
     run_bind (drain_queue im (cfl_total_event_count q) q s) (\<lambda>(stop, q, s).
       if stop then Done (True, q, s)
       else run_bind (cfl_engine_node_is_enabled im (kb_start (im_kbs im ! k)) s) (\<lambda>on.
         if on then Done (False, q, s)
         else run_bind (cfl_delete_test_by_index im k s) (\<lambda>(b, s). Done (False, q, s))))))"

fun cfl_cycle :: "'u image \<Rightarrow> u32 \<Rightarrow> nat list \<Rightarrow> event_queue \<Rightarrow> 'u rt \<Rightarrow> (bool \<times> event_queue \<times> 'u rt) run" where
  "cfl_cycle im changed [] q s = Done (False, q, s)"
| "cfl_cycle im changed (k # ks) q s =
     (if \<not> r_active s ! k then cfl_cycle im changed ks q s
      else run_bind (kb_pass im changed k q s) (\<lambda>(stop, q, s). if stop then Done (True, q, s) else cfl_cycle im changed ks q s))"

end
