(* ===== verification/Cfl_Column.thy ===== *)
theory Cfl_Column
  imports Cfl_Engine
begin

text \<open>
  What one event does to a column of the application image (\<^verbatim>\<open>src/app/bus_controller/kb0\<close>): a wait node, a one-shot node and
  a reset node under a column node, several columns under the root of a knowledge base.  \<open>col_step\<close> is the specification,
  one line per column; \<open>event_outcome\<close> shows that the tree walk of \<^verbatim>\<open>cfl_engine.c\<close> comes to it for a whole knowledge base.
\<close>

section \<open>The function tables of the image\<close>

definition fw_mains :: "main_fn list" where
  "fw_mains = [CFL_NULL_MAIN, CFL_COLUMN_MAIN, CFL_DISABLE_MAIN, CFL_GATE_NODE_MAIN, CFL_RESET_MAIN, CFL_WAIT_MAIN]"

definition fw_one_shots :: "one_shot_fn list" where
  "fw_one_shots = [CFL_NULL_ONE_SHOT, User_fn 1, User_fn 2, User_fn 3, User_fn 4, User_fn 5, CFL_COLUMN_INIT, CFL_COLUMN_TERM,
     CFL_GATE_NODE_INIT, CFL_GATE_NODE_TERM, CFL_WAIT_INIT, CFL_WAIT_TERM, User_fn 12, User_fn 13, User_fn 14]"

definition fw_booleans :: "boolean_fn list" where
  "fw_booleans = [CFL_NULL_BOOL, CFL_COLUMN_NULL, CFL_GATE_NODE_NULL, CFL_WAIT_FOR_EVENT]"

definition fw_tables :: "'u image \<Rightarrow> bool" where
  "fw_tables im \<longleftrightarrow> im_mains im = fw_mains \<and> im_one_shots im = fw_one_shots \<and> im_booleans im = fw_booleans \<and> cfl_calculate_max_level im = 3"

lemmas fw_table_defs = fw_mains_def fw_one_shots_def fw_booleans_def

lemma fw_tablesD: "fw_tables im \<Longrightarrow> im_mains im = fw_mains" "fw_tables im \<Longrightarrow> im_one_shots im = fw_one_shots"
  "fw_tables im \<Longrightarrow> im_booleans im = fw_booleans" "fw_tables im \<Longrightarrow> cfl_calculate_max_level im = 3"
  by (simp_all add: fw_tables_def)

definition node_fns :: "'u image \<Rightarrow> nat \<Rightarrow> nat \<Rightarrow> nat \<Rightarrow> nat \<Rightarrow> nat \<Rightarrow> bool" where
  "node_fns im i m a b t \<longleftrightarrow> ct_main (im_nodes im ! i) = m \<and> ct_init (im_nodes im ! i) = a \<and> ct_aux (im_nodes im ! i) = b
     \<and> ct_term (im_nodes im ! i) = t"

definition links_are :: "'u image \<Rightarrow> nat \<Rightarrow> nat list \<Rightarrow> bool" where
  "links_are im i L \<longleftrightarrow> check_links im i \<and> node_links im i = L \<and> link_count im i = length L \<and> length L \<le> MAX_CHILDREN_BUFFER
     \<and> list_all (\<lambda>l. l < node_count im) L"

definition wait_ok :: "wait_params \<Rightarrow> bool" where
  "wait_ok p \<longleftrightarrow> wp_event_count p = 1 \<and> wp_timeout p \<noteq> 0 \<and> wp_reset_flag p \<and> wp_error_function p = 14 \<and> wp_time_out_event p = 5"

lemma wait_okD: "wait_ok p \<Longrightarrow> wp_event_count p = 1" "wait_ok p \<Longrightarrow> wp_timeout p \<noteq> 0" "wait_ok p \<Longrightarrow> wp_reset_flag p"
  "wait_ok p \<Longrightarrow> wp_error_function p = 14" "wait_ok p \<Longrightarrow> wp_time_out_event p = 5"
  by (simp_all add: wait_ok_def)

definition column_at :: "'u image \<Rightarrow> nat \<Rightarrow> nat \<Rightarrow> bool" where
  "column_at im c k \<longleftrightarrow> wait_ok (im_wait im (Suc c)) \<and> c + 3 < node_count im \<and> 0 < k \<and> k < 15 \<and> fw_one_shots ! k = User_fn k
     \<and> links_are im c [Suc c, Suc (Suc c), Suc (Suc (Suc c))]
     \<and> links_are im (Suc c) [] \<and> links_are im (Suc (Suc c)) [] \<and> links_are im (Suc (Suc (Suc c))) []
     \<and> ct_parent (im_nodes im ! Suc c) = c \<and> ct_parent (im_nodes im ! Suc (Suc (Suc c))) = c
     \<and> node_fns im c 1 6 1 7 \<and> node_fns im (Suc c) 5 10 3 11 \<and> node_fns im (Suc (Suc c)) 2 k 0 0 \<and> node_fns im (Suc (Suc (Suc c))) 4 0 0 0"

lemma links_areD: "links_are im i L \<Longrightarrow> check_links im i" "links_are im i L \<Longrightarrow> node_links im i = L"
  "links_are im i L \<Longrightarrow> link_count im i = length L"
  by (simp_all add: links_are_def)

lemma links_done: "links_are im i L \<Longrightarrow> i < node_count im \<Longrightarrow> cfl_get_forward_enabled_links im i = Done L"
  unfolding links_are_def cfl_get_forward_enabled_links_def list_all_iff list_ex_iff by auto

lemma node_fnsD: "node_fns im i m a b t \<Longrightarrow> ct_main (im_nodes im ! i) = m" "node_fns im i m a b t \<Longrightarrow> ct_init (im_nodes im ! i) = a"
  "node_fns im i m a b t \<Longrightarrow> ct_aux (im_nodes im ! i) = b" "node_fns im i m a b t \<Longrightarrow> ct_term (im_nodes im ! i) = t"
  by (simp_all add: node_fns_def)

lemma column_atD:
  assumes "column_at im c k"
  shows "c < node_count im" "Suc c < node_count im" "Suc (Suc c) < node_count im" "Suc (Suc (Suc c)) < node_count im"
    "links_are im c [Suc c, Suc (Suc c), Suc (Suc (Suc c))]"
    "links_are im (Suc c) []" "links_are im (Suc (Suc c)) []" "links_are im (Suc (Suc (Suc c))) []"
    "ct_parent (im_nodes im ! Suc c) = c" "ct_parent (im_nodes im ! Suc (Suc (Suc c))) = c"
    "node_fns im c 1 6 1 7" "node_fns im (Suc c) 5 10 3 11" "node_fns im (Suc (Suc c)) 2 k 0 0" "node_fns im (Suc (Suc (Suc c))) 4 0 0 0"
    "0 < k" "k < 15" "fw_one_shots ! k = User_fn k" "wait_ok (im_wait im (Suc c))"
  using assms by (simp_all add: column_at_def)

abbreviation FL :: "bool \<Rightarrow> bool \<Rightarrow> bool \<Rightarrow> ct_flags" where
  "FL v i e \<equiv> \<lparr>fl_visited = v, fl_user1 = False, fl_user2 = i, fl_user3 = e\<rparr>"

text \<open>Steps of the walk.\<close>

lemma walk_again:
  assumes "links_are im i L" "i < node_count im" "fl_visited (r_flags s ! i)" "ci \<noteq> 0" "\<not> r_stop_all s"
  shows "walk_loop im ap cap (node_count im) (Suc n) ((i, lv, ci) # st) s =
    (if ci \<ge> length L then walk_loop im ap cap (node_count im) n st s
     else if fl_visited (r_flags s ! (L ! ci)) then walk_loop im ap cap (node_count im) n ((i, lv, ci + 1) # st) s
     else if length st + 1 \<ge> cap then Exception
     else walk_loop im ap cap (node_count im) n ((L ! ci, lv + 1, 0) # (i, lv, ci + 1) # st) s)"
proof -
  have "L ! ci < node_count im" if "ci < length L" using that assms(1) by (simp add: links_are_def list_all_length)
  then show ?thesis using assms by (auto simp: walk_step_def walk_descend_def links_done)
qed

definition after_visit :: "'u image \<Rightarrow> (nat \<Rightarrow> 'u rt \<Rightarrow> (ct_return \<times> 'u rt) run) \<Rightarrow> nat \<Rightarrow> nat \<Rightarrow> nat \<Rightarrow> nat \<Rightarrow> (nat \<times> nat \<times> nat) list
    \<Rightarrow> nat list \<Rightarrow> ct_return \<times> 'u rt \<Rightarrow> (ct_return \<times> 'u rt) run" where
  "after_visit im ap cap n i lv st L rs = (case rs of (r, s) \<Rightarrow> (case r of
      CT_STOP_ALL \<Rightarrow> Done (CT_STOP_ALL, s\<lparr>r_stop_all := True\<rparr>)
    | CT_STOP_BRANCH \<Rightarrow> walk_loop im ap cap (node_count im) n st s
    | CT_STOP_SIBLINGS \<Rightarrow> walk_loop im ap cap (node_count im) n (tl st) s
    | CT_STOP_LEVEL \<Rightarrow> walk_loop im ap cap (node_count im) n st (s\<lparr>r_max_level := lv\<rparr>)
    | CT_SKIP_CHILDREN \<Rightarrow> walk_loop im ap cap (node_count im) n st s
    | CT_CONTINUE \<Rightarrow>
        (if L = [] then walk_loop im ap cap (node_count im) n st s
         else if fl_visited (r_flags s ! hd L) then walk_loop im ap cap (node_count im) n ((i, lv, 1) # st) s
         else if length st + 1 \<ge> cap then Exception
         else walk_loop im ap cap (node_count im) n ((hd L, lv + 1, 0) # (i, lv, 1) # st) s)))"

lemma walk_visit:
  assumes "links_are im i L" "i < node_count im" "\<not> fl_visited (r_flags s ! i)" "\<not> r_stop_all s" "lv \<le> r_max_level s"
  shows "walk_loop im ap cap (node_count im) (Suc n) ((i, lv, 0) # st) s =
    run_bind (ap i (set_flags i ((r_flags s ! i)\<lparr>fl_visited := True\<rparr>) s)) (after_visit im ap cap n i lv st L)"
proof -
  have "hd L < node_count im" if "L \<noteq> []" using that assms(1) by (cases L) (simp_all add: links_are_def)
  moreover have "L ! 0 = hd L" if "L \<noteq> []" using that by (simp add: hd_conv_nth)
  moreover have "r_max_level (set_flags i f s) = r_max_level s" for f by (simp add: set_flags_def)
  ultimately show ?thesis using assms
    by (cases "ap i (set_flags i ((r_flags s ! i)\<lparr>fl_visited := True\<rparr>) s)")
      (auto simp: walk_step_def walk_descend_def links_done after_visit_def Let_def split: ct_return.splits)
qed

lemma walk_end: "walk_loop im ap cap mid n [] s = Done (CT_CONTINUE, s)"
  by (cases n) simp_all

declare walk_loop.simps [simp del]

lemmas after_visit_simps [simp] = after_visit_def [of im ap cap n i lv st L "(r, s)" for im ap cap n i lv st L r s, simplified prod.case]

text \<open>The marking walk over a column.\<close>

lemma ss: "c \<noteq> Suc c" "Suc c \<noteq> c" "Suc (Suc c) \<noteq> c" "c \<noteq> Suc (Suc c)" "Suc (Suc (Suc c)) \<noteq> c" "c \<noteq> Suc (Suc (Suc c))" by simp_all

definition mk :: "ct_flags \<Rightarrow> ct_flags \<Rightarrow> ct_flags" where
  "mk f b = (if fl_user3 f then b\<lparr>fl_user1 := True\<rparr> else b)"

lemma mk_visited [simp]: "mk (f\<lparr>fl_visited := v\<rparr>) b = mk f b"
  by (simp add: mk_def)

definition marks :: "ct_flags list \<Rightarrow> nat \<Rightarrow> ct_flags list" where
  "marks B c = B[c := mk (B ! c) (B ! c), Suc c := mk (B ! Suc c) (B ! Suc c), Suc (Suc c) := mk (B ! Suc (Suc c)) (B ! Suc (Suc c)),
     Suc (Suc (Suc c)) := mk (B ! Suc (Suc (Suc c))) (B ! Suc (Suc (Suc c)))]"

lemma mark_node: "i < node_count im \<Longrightarrow> cfl_mark_node_for_termination im i s = Done (CT_CONTINUE,
    s\<lparr>r_backup := (r_backup s)[i := mk (r_flags s ! i) (r_backup s ! i)]\<rparr>)"
  by (cases s) (simp add: cfl_mark_node_for_termination_def mk_def)

lemma walk_fuel:
  obtains m where "(node_count im + 1) * (MAX_CHILDREN_BUFFER + 1) = Suc (Suc (Suc (Suc (Suc (Suc (Suc (Suc m)))))))"
proof -
  have "8 \<le> (node_count im + 1) * (MAX_CHILDREN_BUFFER + 1)" by (simp add: MAX_CHILDREN_BUFFER_def)
  then show thesis using that by (auto simp: le_iff_add)
qed

lemma mark_column:
  assumes c: "column_at im c k" and ml: "1 \<le> r_max_level s"
    and len: "length (r_flags s) = node_count im" and B: "r_backup s = r_flags s"
  shows "\<exists>F. ct_walker_walk im (cfl_mark_node_for_termination im) c 3 (r_max_level s) (node_count im) s =
    Done (CT_CONTINUE, s\<lparr>r_stop_all := False, r_flags := F, r_backup := marks (r_flags s) c\<rparr>)"
proof -
  note C = column_atD [OF c]
  obtain m where fuel: "(node_count im + 1) * (MAX_CHILDREN_BUFFER + 1) = Suc (Suc (Suc (Suc (Suc (Suc (Suc (Suc m)))))))"
    by (rule walk_fuel)
  let ?F = "(map (fl_visited_update (\<lambda>_. False)) (r_flags s)) [c := (r_flags s ! c)\<lparr>fl_visited := True\<rparr>,
     Suc c := (r_flags s ! Suc c)\<lparr>fl_visited := True\<rparr>, Suc (Suc c) := (r_flags s ! Suc (Suc c))\<lparr>fl_visited := True\<rparr>,
     Suc (Suc (Suc c)) := (r_flags s ! Suc (Suc (Suc c))) \<lparr>fl_visited := True\<rparr>]"
  have "walk_loop im (cfl_mark_node_for_termination im) 3 (node_count im) (Suc (Suc (Suc (Suc (Suc (Suc (Suc (Suc n))))))))
      [(c, 0, 0)] (clear_engine_flags (s\<lparr>r_stop_all := False\<rparr>)) = X"
    if X: "Done (CT_CONTINUE, s\<lparr>r_stop_all := False, r_flags := ?F, r_backup := marks (r_flags s) c\<rparr>) = X" for n X
    using C(1-4) ml len B
    by (simp add: walk_visit [OF C(5)] walk_visit [OF C(6)] walk_visit [OF C(7)] walk_visit [OF C(8)] walk_again [OF C(5)] walk_end
        mark_node clear_engine_flags_def set_flags_def nth_list_update) (rule X [unfolded marks_def])
  from this [OF refl] show ?thesis unfolding ct_walker_walk_def fuel using C(1) by (intro exI [of _ ?F]) (simp add: Let_def)
qed

lemma disable_marked_append: "disable_marked im e (xs @ ys) s = run_bind (disable_marked im e xs s) (disable_marked im e ys)"
  by (induction xs arbitrary: s) (auto intro!: arg_cong [where f = "run_bind _"])

lemma disable_marked_none: "(\<And>i. i \<in> set xs \<Longrightarrow> \<not> fl_user1 (r_flags s ! i)) \<Longrightarrow> disable_marked im e xs s = Done s"
  by (induction xs) simp_all

text \<open>What terminating the tree of a column comes to: the marked nodes of the column, from the last to the first.\<close>

lemma terminate_column:
  assumes c: "column_at im c k" and tb: "fw_tables im" and ml: "1 \<le> r_max_level s"
    and len: "length (r_flags s) = node_count im" and u2: "fl_user2 (r_flags s ! c)" and stop: "\<not> r_stop_all s"
    and win: "r_kb_start s \<le> c" "c + 3 < r_kb_start s + r_kb_count s" "r_kb_start s + r_kb_count s \<le> node_count im"
    and u1: "\<And>i. c + 3 < i \<Longrightarrow> i < node_count im \<Longrightarrow> \<not> fl_user1 (r_flags s ! i)"
  shows "\<exists>b. cfl_terminate_node_tree im c e s = disable_marked im e [Suc (Suc (Suc c)), Suc (Suc c), Suc c, c]
     (s\<lparr>r_backup := b, r_flags := marks (r_flags s) c\<rparr>)"
proof -
  let ?s = "s\<lparr>r_backup := r_flags s\<rparr>" and ?m = "marks (r_flags s) c"
  obtain F where F: "ct_walker_walk im (cfl_mark_node_for_termination im) c 3 (r_max_level s) (node_count im) ?s =
     Done (CT_CONTINUE, ?s\<lparr>r_stop_all := False, r_flags := F, r_backup := ?m\<rparr>)"
    using mark_column [OF c, of ?s] ml len by auto
  note C = column_atD [OF c]
  define k' where "k' = r_kb_start s + r_kb_count s - (c + 4)"
  have k': "r_kb_start s + r_kb_count s = c + 4 + k'" using win by (simp add: k'_def)
  have sp: "rev [c..<r_kb_start s + r_kb_count s] = rev [c + 4..<c + 4 + k'] @ [Suc (Suc (Suc c)), Suc (Suc c), Suc c, c]"
  proof -
    have "[c..<c + 4 + k'] = [c..<c + 4] @ [c + 4..<c + 4 + k']" by (rule upt_add_eq_append) simp
    moreover have "[c..<c + 4] = [c, Suc c, Suc (Suc c), Suc (Suc (Suc c))]" by (simp add: upt_rec)
    ultimately show ?thesis by (simp add: k')
  qed
  have none: "disable_marked im e (rev [c + 4..<c + 4 + k']) (s\<lparr>r_backup := ?m, r_flags := ?m\<rparr>) = Done (s\<lparr>r_backup := ?m, r_flags := ?m\<rparr>)"
  proof (rule disable_marked_none)
    fix i assume "i \<in> set (rev [c + 4..<c + 4 + k'])"
    then have "c + 3 < i" "i < node_count im" using win(3) k' by auto
    then show "\<not> fl_user1 (r_flags (s\<lparr>r_backup := ?m, r_flags := ?m\<rparr>) ! i)" using u1 [of i] by (simp add: marks_def)
  qed
  have t: "s\<lparr>r_backup := ?m, r_flags := ?m, r_stop_all := False\<rparr> = s\<lparr>r_backup := ?m, r_flags := ?m\<rparr>" using stop by (cases s) simp
  have "\<not> node_count im \<le> r_kb_start s + r_kb_count s - Suc 0" using win by simp
  then have "cfl_terminate_node_tree im c e s = disable_marked im e (rev [c..<r_kb_start s + r_kb_count s]) (s\<lparr>r_backup := ?m, r_flags := ?m\<rparr>)"
    using C(1) u2 links_areD(3) [OF C(5)] F win(1,2) stop
    by (simp add: cfl_terminate_node_tree_def fw_tablesD [OF tb] Let_def) (simp only: t)
  then show ?thesis unfolding sp disable_marked_append none by auto
qed


section \<open>The life of a column\<close>

definition wait_cell :: "wait_params \<Rightarrow> u32 \<Rightarrow> aux_block \<Rightarrow> wait_data" where
  "wait_cell p n a = \<lparr>w_timeout = wp_timeout p, w_time_out_event = wp_time_out_event p, w_error_function = wp_error_function p,
     w_reset_flag = wp_reset_flag p, w_event_count = n, w_aux = a\<rparr>"

lemma wait_cell_simps [simp]: "w_timeout (wait_cell p n a) = wp_timeout p" "w_time_out_event (wait_cell p n a) = wp_time_out_event p"
  "w_error_function (wait_cell p n a) = wp_error_function p" "w_reset_flag (wait_cell p n a) = wp_reset_flag p"
  "w_event_count (wait_cell p n a) = n" "w_aux (wait_cell p n a) = a" "(wait_cell p n a)\<lparr>w_aux := b\<rparr> = wait_cell p n b"
  "(wait_cell p n a)\<lparr>w_event_count := m\<rparr> = wait_cell p m a"
  by (simp_all add: wait_cell_def)

datatype col_state = Parked u32 | Fresh u32

definition column_flags :: "nat \<Rightarrow> ct_flags \<Rightarrow> ct_flags \<Rightarrow> ct_flags \<Rightarrow> ct_flags \<Rightarrow> 'u rt \<Rightarrow> bool" where
  "column_flags c f0 f1 f2 f3 s \<longleftrightarrow> r_flags s ! c = f0 \<and> r_flags s ! Suc c = f1 \<and> r_flags s ! Suc (Suc c) = f2 \<and> r_flags s ! Suc (Suc (Suc c)) = f3"

definition wait_live :: "'u image \<Rightarrow> nat \<Rightarrow> u32 \<Rightarrow> 'u rt \<Rightarrow> bool" where
  "wait_live im c n s \<longleftrightarrow> r_wait s ! Suc c = Some (wait_cell (im_wait im (Suc c)) n (Aux_live (wp_event_id (im_wait im (Suc c))) 1))"

definition column_in :: "'u image \<Rightarrow> nat \<Rightarrow> col_state \<Rightarrow> 'u rt \<Rightarrow> bool" where
  "column_in im c st s = (case st of
     Parked n \<Rightarrow> column_flags c (FL False True True) (FL False True True) (FL False False True) (FL False False True) s \<and> wait_live im c n s
   | Fresh n \<Rightarrow> column_flags c (FL False False True) (FL False False False) (FL False False False) (FL False False False) s
       \<and> (r_wait s ! Suc c = None \<and> n = 0 \<or> r_wait s ! Suc c = Some (wait_cell (im_wait im (Suc c)) n Aux_freed)))"

primrec col_count :: "col_state \<Rightarrow> u32" where
  "col_count (Parked n) = n"
| "col_count (Fresh n) = n"

definition col_frame :: "nat \<Rightarrow> 'u rt \<Rightarrow> 'u rt \<Rightarrow> bool" where
  "col_frame c s t \<longleftrightarrow> length (r_flags t) = length (r_flags s) \<and> length (r_wait t) = length (r_wait s)
     \<and> (\<forall>i. i \<notin> {c, Suc c, Suc (Suc c), Suc (Suc (Suc c))} \<longrightarrow> r_flags t ! i = r_flags s ! i) \<and> (\<forall>i. i \<noteq> Suc c \<longrightarrow> r_wait t ! i = r_wait s ! i)
     \<and> r_active t = r_active s \<and> r_kb_start t = r_kb_start s \<and> r_kb_count t = r_kb_count s \<and> r_max_level t = r_max_level s
     \<and> r_start_node t = r_start_node s \<and> r_event t = r_event s \<and> r_stop_all t = r_stop_all s"

definition rt_ok :: "'u image \<Rightarrow> 'u rt \<Rightarrow> bool" where
  "rt_ok im s \<longleftrightarrow> length (r_flags s) = node_count im \<and> length (r_wait s) = node_count im \<and> 2 \<le> r_max_level s \<and> \<not> r_stop_all s"

lemma col_frame_refl: "col_frame c s s"
  by (simp add: col_frame_def)

lemma col_frame_trans: "col_frame c s t \<Longrightarrow> col_frame c t u \<Longrightarrow> col_frame c s u"
  by (simp add: col_frame_def)

lemma col_frame_ok: "col_frame c s t \<Longrightarrow> rt_ok im s \<Longrightarrow> rt_ok im t"
  by (simp add: col_frame_def rt_ok_def)

lemmas exec_defs = Let_def cfl_execute_node_def node_init_def cfl_engine_node_is_enabled_def cfl_engine_node_is_initialized_def
  cfl_set_node_initialization_flag_def

text \<open>Reaching the main function of the wait node: the column is initialised and its wait is armed, whatever it was before.\<close>

lemma column_enter:
  assumes c: "column_at im c k" and tb: "fw_tables im" and ok: "rt_ok im s" and st: "column_in im c st s" and ev: "ev_id e \<notin> {0, 1}"
  shows "\<exists>t. cfl_execute_node im e c (set_flags c ((r_flags s ! c)\<lparr>fl_visited := True\<rparr>) s) = Done (CT_CONTINUE, t)
    \<and> col_frame c s t \<and> r_user t = r_user s \<and> \<not> fl_visited (r_flags t ! Suc c)
    \<and> (\<exists>u. cfl_execute_node im e (Suc c) (set_flags (Suc c) ((r_flags t ! Suc c)\<lparr>fl_visited := True\<rparr>) t) = node_main im (Suc c) e u
        \<and> col_frame c s u \<and> r_user u = r_user s \<and> r_exec_count u \<noteq> 0 \<and> wait_live im c (col_count st) u
        \<and> column_flags c (FL True True True) (FL True True True) (FL False False True) (FL False False True) u)"
proof -
  note C = column_atD [OF c]
  note S = exec_defs node_main_def node_fnsD [OF C(11)] node_fnsD [OF C(12)] fw_tablesD [OF tb] fw_table_defs links_areD [OF C(5)]
      main_call_def cfl_column_main_def boolean_call_def set_flags_def rt_ok_def column_in_def column_flags_def nth_list_update ss wait_live_def
      one_shot_def cfl_enable_all_nodes_def cfl_enable_node_def cfl_wait_init_def cfl_wait_for_event_def set_wait_def
  note S2 = exec_defs node_fnsD [OF C(11)] node_fnsD [OF C(12)] fw_tablesD [OF tb] fw_table_defs
      boolean_call_def one_shot_def cfl_wait_init_def cfl_wait_for_event_def set_wait_def wait_okD [OF C(18)]
      set_flags_def rt_ok_def column_in_def column_flags_def nth_list_update ss
  show ?thesis
  proof (cases st)
    case (Parked n)
    let ?t = "s\<lparr>r_flags := (r_flags s)[c := FL True True True], r_exec_count := Suc (r_exec_count s), r_engine_flag := True\<rparr>"
    let ?u = "?t\<lparr>r_flags := (r_flags ?t)[Suc c := FL True True True], r_exec_count := Suc (r_exec_count ?t)\<rparr>"
    have 1: "cfl_execute_node im e c (set_flags c ((r_flags s ! c)\<lparr>fl_visited := True\<rparr>) s) = Done (CT_CONTINUE, ?t)"
      using C(1-4) ok st [unfolded Parked] by (simp add: S)
    have 2: "cfl_execute_node im e (Suc c) (set_flags (Suc c) ((r_flags ?t ! Suc c)\<lparr>fl_visited := True\<rparr>) ?t) = node_main im (Suc c) e ?u"
      using C(1-4) ok st [unfolded Parked] by (simp add: exec_defs node_fnsD [OF C(11)] node_fnsD [OF C(12)] fw_tablesD [OF tb] fw_table_defs
        set_flags_def rt_ok_def column_in_def column_flags_def nth_list_update ss)
    show ?thesis using C(1-4) ok st [unfolded Parked]
      by (intro exI [of _ ?t] conjI exI [of _ ?u] 1 2)
        (simp_all add: col_frame_def rt_ok_def column_in_def column_flags_def nth_list_update ss wait_live_def Parked)
  next
    case (Fresh n)
    let ?t = "s\<lparr>r_flags := (r_flags s)[c := FL True False True, Suc c := FL False False True, Suc (Suc c) := FL False False True,
       Suc (Suc (Suc c)) := FL False False True, c := FL True True True], r_exec_count := Suc (r_exec_count s), r_engine_flag := True\<rparr>"
    let ?u = "?t\<lparr>r_flags := (r_flags ?t)[Suc c := FL True True True], r_exec_count := Suc (r_exec_count ?t),
       r_wait := (r_wait s)[Suc c := Some (wait_cell (im_wait im (Suc c)) n (Aux_live (wp_event_id (im_wait im (Suc c))) 1))]\<rparr>"
    have 1: "cfl_execute_node im e c (set_flags c ((r_flags s ! c)\<lparr>fl_visited := True\<rparr>) s) = Done (CT_CONTINUE, ?t)"
      using C(1-4) ok st [unfolded Fresh] by (simp add: S)
    have cell: "r_wait s ! Suc c = None \<and> n = 0 \<or> r_wait s ! Suc c = Some (wait_cell (im_wait im (Suc c)) n Aux_freed)"
      using st [unfolded Fresh] by (simp add: column_in_def)
    have 2: "cfl_execute_node im e (Suc c) (set_flags (Suc c) ((r_flags ?t ! Suc c)\<lparr>fl_visited := True\<rparr>) ?t) = node_main im (Suc c) e ?u"
      using cell
    proof (elim disjE conjE)
      assume "r_wait s ! Suc c = None" "n = 0"
      with C(1-4) ok st [unfolded Fresh] show ?thesis
        by (simp add: S2 wait_cell_def) (rule arg_cong [where f = "node_main im (Suc c) e"], simp)
    next
      assume "r_wait s ! Suc c = Some (wait_cell (im_wait im (Suc c)) n Aux_freed)"
      with C(1-4) ok st [unfolded Fresh] show ?thesis
        by (simp add: S2) (rule arg_cong [where f = "node_main im (Suc c) e"], simp)
    qed
    show ?thesis using C(1-4) ok st [unfolded Fresh]
      by (intro exI [of _ ?t] conjI exI [of _ ?u] 1 2)
        (simp_all add: col_frame_def rt_ok_def column_in_def column_flags_def nth_list_update ss wait_live_def Fresh)
  qed
qed


definition win_ok :: "'u image \<Rightarrow> nat \<Rightarrow> 'u rt \<Rightarrow> bool" where
  "win_ok im c s \<longleftrightarrow> r_kb_start s \<le> c \<and> c + 3 < r_kb_start s + r_kb_count s \<and> r_kb_start s + r_kb_count s \<le> node_count im
     \<and> (\<forall>i. c + 3 < i \<longrightarrow> i < node_count im \<longrightarrow> \<not> fl_user1 (r_flags s ! i))"

lemma col_frame_win: "col_frame c s t \<Longrightarrow> win_ok im c s \<Longrightarrow> win_ok im c t"
  by (auto simp: col_frame_def win_ok_def)

text \<open>Resetting a column from its wait node or from its reset node.\<close>

lemma reset_column:
  assumes c: "column_at im c k" and tb: "fw_tables im" and ok: "rt_ok im s" and win: "win_ok im c s"
    and fl: "column_flags c (FL True True True) f1 f2 f3 s"
    and f: "f1 = FL True True True \<and> f2 = FL False False True \<and> f3 = FL False False True \<and> wait_live im c n s
      \<or> f1 = FL True False False \<and> f2 = FL True False False \<and> f3 = FL True True True \<and> r_wait s ! Suc c = Some (wait_cell (im_wait im (Suc c)) n Aux_freed)"
  shows "\<exists>t. run_bind (cfl_terminate_node_tree im c e s) (\<lambda>s. run_bind (cfl_enable_node im c s) (\<lambda>s. Done (CT_CONTINUE, s))) = Done (CT_CONTINUE, t)
    \<and> col_frame c s t \<and> r_user t = r_user s \<and> r_exec_count t = r_exec_count s \<and> r_engine_flag t = r_engine_flag s
    \<and> column_flags c (FL True False True) (FL True False False) (FL (fl_visited f2) False False) (FL (fl_visited f3) False False) t
    \<and> r_wait t ! Suc c = Some (wait_cell (im_wait im (Suc c)) n Aux_freed)"
proof -
  note C = column_atD [OF c]
  have "fl_user2 (r_flags s ! c)" using fl by (simp add: column_flags_def)
  moreover have "1 \<le> r_max_level s" "length (r_flags s) = node_count im" "\<not> r_stop_all s" using ok by (simp_all add: rt_ok_def)
  ultimately obtain b where b: "cfl_terminate_node_tree im c e s = disable_marked im e [Suc (Suc (Suc c)), Suc (Suc c), Suc c, c]
     (s\<lparr>r_backup := b, r_flags := marks (r_flags s) c\<rparr>)"
    using terminate_column [OF c tb, of s] win unfolding win_ok_def by blast
  note S = b marks_def mk_def nth_list_update ss cfl_disable_node_def cfl_disable_node_flag_def set_flags_def Let_def node_fnsD [OF C(11)]
      node_fnsD [OF C(12)] node_fnsD [OF C(13)] node_fnsD [OF C(14)] fw_tablesD [OF tb] fw_table_defs boolean_call_def
      cfl_wait_for_event_def set_wait_def one_shot_def cfl_enable_node_def column_flags_def rt_ok_def wait_live_def
      CFL_TERMINATE_EVENT_def CFL_INIT_EVENT_def col_frame_def
  show ?thesis using f
  proof (elim disjE conjE)
    assume "f1 = FL True True True" "f2 = FL False False True" "f3 = FL False False True" "wait_live im c n s"
    with C(1-4) ok fl show ?thesis by (simp add: S)
  next
    assume "f1 = FL True False False" "f2 = FL True False False" "f3 = FL True True True" "r_wait s ! Suc c = Some (wait_cell (im_wait im (Suc c)) n Aux_freed)"
    with C(1-4) ok fl show ?thesis by (simp add: S)
  qed
qed

lemma ucast16_eq: "(ucast (a :: u16) :: u32) = ucast b \<longleftrightarrow> a = b"
  by (metis unat_ucast_u16_u32 word_unat_eq_iff)

lemma wait_main_keep:
  assumes c: "column_at im c k" and tb: "fw_tables im" and ok: "rt_ok im u" and arm: "wait_live im c n u" and ev: "ev_id e \<notin> {0, 1}"
    and no: "ucast (ev_id e) \<noteq> wp_event_id (im_wait im (Suc c))"
    and keep: "ev_id e = 5 \<Longrightarrow> n + 1 < wp_timeout (im_wait im (Suc c))"
  shows "\<exists>t. node_main im (Suc c) e u = Done (CT_STOP_SIBLINGS, t) \<and> col_frame c u t \<and> r_user t = r_user u \<and> r_flags t = r_flags u
    \<and> r_exec_count t = r_exec_count u \<and> r_engine_flag t
    \<and> wait_live im c (if ev_id e = 5 then n + 1 else n) t"
proof -
  note C = column_atD [OF c]
  have "(5 :: u32) = ucast (ev_id e) \<longleftrightarrow> ev_id e = 5" using ucast16_eq [of 5 "ev_id e"] by auto
  then show ?thesis using C(1-4) ok arm ev no keep
    by (auto simp: node_main_def Let_def main_call_def cfl_wait_main_def boolean_call_def cfl_wait_for_event_def node_fnsD [OF C(12)] fw_tablesD [OF tb]
        fw_table_defs wait_live_def wait_okD [OF C(18)] set_wait_def CFL_TERMINATE_EVENT_def CFL_INIT_EVENT_def rt_ok_def col_frame_def not_le)
qed


lemma wait_main_match:
  assumes c: "column_at im c k" and tb: "fw_tables im" and ok: "rt_ok im s" and arm: "wait_live im c n s" and ev: "ev_id e \<notin> {0, 1}"
    and yes: "ucast (ev_id e) = wp_event_id (im_wait im (Suc c))" and fl: "column_flags c f0 (FL True True True) f2 f3 s"
  shows "\<exists>t. node_main im (Suc c) e s = Done (CT_SKIP_CHILDREN, t) \<and> col_frame c s t \<and> r_user t = r_user s
    \<and> r_exec_count t = r_exec_count s \<and> column_flags c f0 (FL True False False) f2 f3 t
    \<and> r_wait t ! Suc c = Some (wait_cell (im_wait im (Suc c)) n Aux_freed)"
proof -
  note C = column_atD [OF c]
  show ?thesis using C(1-4) ok arm ev yes fl
    by (simp add: node_main_def Let_def main_call_def cfl_wait_main_def boolean_call_def cfl_wait_for_event_def node_fnsD [OF C(12)] fw_tablesD [OF tb]
        fw_table_defs wait_live_def set_wait_def CFL_TERMINATE_EVENT_def CFL_INIT_EVENT_def rt_ok_def col_frame_def cfl_terminate_node_tree_def
        column_flags_def links_areD [OF C(6)] cfl_disable_node_def cfl_disable_node_flag_def set_flags_def one_shot_def nth_list_update ss)
qed

lemma wait_main_timeout:
  assumes c: "column_at im c k" and tb: "fw_tables im" and ok: "rt_ok im s" and arm: "wait_live im c n s" and ev: "ev_id e = 5"
    and no: "wp_event_id (im_wait im (Suc c)) \<noteq> 5" and late: "wp_timeout (im_wait im (Suc c)) \<le> n + 1" and win: "win_ok im c s"
    and fl: "column_flags c (FL True True True) (FL True True True) (FL False False True) (FL False False True) s"
  shows "\<exists>T. node_main im (Suc c) e s = run_bind (im_user im 14 (ev_data e) (r_user s)) (\<lambda>u. Done (CT_CONTINUE, T u))
    \<and> (\<forall>u. col_frame c s (T u) \<and> r_user (T u) = u \<and> r_exec_count (T u) = r_exec_count s \<and> r_engine_flag (T u)
      \<and> column_flags c (FL True False True) (FL True False False) (FL False False False) (FL False False False) (T u)
      \<and> r_wait (T u) ! Suc c = Some (wait_cell (im_wait im (Suc c)) (n + 1) Aux_freed))"
proof -
  note C = column_atD [OF c]
  let ?s = "\<lambda>u. (s\<lparr>r_wait := (r_wait s)[Suc c := Some (wait_cell (im_wait im (Suc c)) (n + 1) (Aux_live (wp_event_id (im_wait im (Suc c))) 1))],
     r_user := u, r_engine_flag := True\<rparr>)"
  have fr: "col_frame c s (?s u)" for u by (simp add: col_frame_def)
  have "\<exists>t. run_bind (cfl_terminate_node_tree im c e (?s u)) (\<lambda>s. run_bind (cfl_enable_node im c s) (\<lambda>s. Done (CT_CONTINUE, s))) = Done (CT_CONTINUE, t)
    \<and> col_frame c s t \<and> r_user t = u \<and> r_exec_count t = r_exec_count s \<and> r_engine_flag t
    \<and> column_flags c (FL True False True) (FL True False False) (FL False False False) (FL False False False) t
    \<and> r_wait t ! Suc c = Some (wait_cell (im_wait im (Suc c)) (n + 1) Aux_freed)" for u
  proof -
    have "wait_live im c (n + 1) (?s u)" using C(2) ok by (simp add: wait_live_def rt_ok_def)
    moreover have "column_flags c (FL True True True) (FL True True True) (FL False False True) (FL False False True) (?s u)"
      using fl by (simp add: column_flags_def)
    ultimately show ?thesis
      using reset_column [OF c tb col_frame_ok [OF fr ok] col_frame_win [OF fr win], of "FL True True True" "FL False False True" "FL False False True" u "n + 1" e]
        col_frame_trans [OF fr] by fastforce
  qed
  then obtain T where T: "run_bind (cfl_terminate_node_tree im c e (?s u)) (\<lambda>s. run_bind (cfl_enable_node im c s) (\<lambda>s. Done (CT_CONTINUE, s))) = Done (CT_CONTINUE, T u)
    \<and> col_frame c s (T u) \<and> r_user (T u) = u \<and> r_exec_count (T u) = r_exec_count s \<and> r_engine_flag (T u)
    \<and> column_flags c (FL True False True) (FL True False False) (FL False False False) (FL False False False) (T u)
    \<and> r_wait (T u) ! Suc c = Some (wait_cell (im_wait im (Suc c)) (n + 1) Aux_freed)" for u by metis
  have "node_main im (Suc c) e s = run_bind (im_user im 14 (ev_data e) (r_user s)) (\<lambda>u. Done (CT_CONTINUE, T u))"
    using C(1-4,9) ok arm ev no late T [THEN conjunct1]
    by (simp add: node_main_def Let_def main_call_def cfl_wait_main_def boolean_call_def cfl_wait_for_event_def node_fnsD [OF C(12)] fw_tablesD [OF tb]
        fw_table_defs wait_live_def wait_okD [OF C(18)] set_wait_def CFL_TERMINATE_EVENT_def CFL_INIT_EVENT_def rt_ok_def one_shot_def)
  then show ?thesis using T by (intro exI [of _ T]) blast
qed


lemma exec_one_shot:
  assumes c: "column_at im c k" and tb: "fw_tables im" and ok: "rt_ok im s" and fl: "column_flags c f0 f1 (FL False False True) f3 s"
  shows "cfl_execute_node im e (Suc (Suc c)) (set_flags (Suc (Suc c)) (FL True False True) s) =
    run_bind (im_user im k (ev_data e) (r_user s)) (\<lambda>u. Done (CT_SKIP_CHILDREN,
      s\<lparr>r_flags := (r_flags s)[Suc (Suc c) := FL True False False], r_exec_count := Suc (r_exec_count s), r_engine_flag := True, r_user := u\<rparr>))"
proof -
  note C = column_atD [OF c]
  have k: "im_one_shots im ! k = User_fn k" "\<not> length (im_one_shots im) \<le> k"
    using C(16,17) by (simp_all add: fw_tablesD [OF tb] fw_one_shots_def)
  show ?thesis using C(1-4) C(15) ok fl
    by (cases "im_user im k (ev_data e) (r_user s)")
     (simp_all add: k exec_defs node_main_def main_call_def node_fnsD [OF C(13)] fw_tablesD(1,3,4) [OF tb] fw_mains_def fw_booleans_def one_shot_def
      set_flags_def rt_ok_def column_flags_def nth_list_update ss cfl_terminate_node_tree_def links_areD [OF C(7)] cfl_disable_node_def cfl_disable_node_flag_def)
qed

lemma exec_reset:
  assumes c: "column_at im c k" and tb: "fw_tables im" and ok: "rt_ok im s" and win: "win_ok im c s"
    and fl: "column_flags c (FL True True True) (FL True False False) (FL True False False) (FL False False True) s"
    and cell: "r_wait s ! Suc c = Some (wait_cell (im_wait im (Suc c)) n Aux_freed)"
  shows "\<exists>t. cfl_execute_node im e (Suc (Suc (Suc c))) (set_flags (Suc (Suc (Suc c))) (FL True False True) s) = Done (CT_CONTINUE, t)
    \<and> col_frame c s t \<and> r_user t = r_user s \<and> r_exec_count t \<noteq> 0 \<and> r_engine_flag t
    \<and> column_flags c (FL True False True) (FL True False False) (FL True False False) (FL True False False) t
    \<and> r_wait t ! Suc c = Some (wait_cell (im_wait im (Suc c)) n Aux_freed)"
proof -
  note C = column_atD [OF c]
  let ?s = "s\<lparr>r_exec_count := Suc (r_exec_count s), r_flags := (r_flags s)[Suc (Suc (Suc c)) := FL True True True], r_engine_flag := True\<rparr>"
  have fr: "col_frame c s ?s" by (simp add: col_frame_def)
  have "column_flags c (FL True True True) (FL True False False) (FL True False False) (FL True True True) ?s"
    using fl C(1-4) ok by (simp add: column_flags_def rt_ok_def nth_list_update ss)
  from reset_column [OF c tb col_frame_ok [OF fr ok] col_frame_win [OF fr win] this, of n e] cell
  obtain t where t: "run_bind (cfl_terminate_node_tree im c e ?s) (\<lambda>s. run_bind (cfl_enable_node im c s) (\<lambda>s. Done (CT_CONTINUE, s))) = Done (CT_CONTINUE, t)"
    "col_frame c ?s t" "r_user t = r_user s" "r_exec_count t = Suc (r_exec_count s)" "r_engine_flag t"
    "column_flags c (FL True False True) (FL True False False) (FL True False False) (FL True False False) t"
    "r_wait t ! Suc c = Some (wait_cell (im_wait im (Suc c)) n Aux_freed)" by auto
  have "cfl_execute_node im e (Suc (Suc (Suc c))) (set_flags (Suc (Suc (Suc c))) (FL True False True) s) = Done (CT_CONTINUE, t)"
    using C(1-4) C(10) ok fl
    by (simp add: exec_defs node_main_def main_call_def node_fnsD [OF C(14)] fw_tablesD [OF tb] fw_table_defs
      set_flags_def rt_ok_def column_flags_def nth_list_update ss t(1) [simplified])
  then show ?thesis using t col_frame_trans [OF fr] by auto
qed


text \<open>
  One event and one column: the state the column is in afterwards and the handler that runs, if one does.  The event the
  column waits for runs its handler; a second too many runs the handler of the timeout; everything else leaves it waiting.
\<close>

definition col_step :: "wait_params \<Rightarrow> nat \<Rightarrow> event \<Rightarrow> col_state \<Rightarrow> col_state \<times> nat option" where
  "col_step p k e st = (let n = col_count st in
     if ucast (ev_id e) = wp_event_id p then (Fresh n, Some k)
     else if ev_id e = 5 then (if wp_timeout p \<le> n + 1 then (Fresh (n + 1), Some 14) else (Parked (n + 1), None))
     else (Parked n, None))"

definition fire :: "'u image \<Rightarrow> event \<Rightarrow> nat option \<Rightarrow> 'u \<Rightarrow> 'u run" where
  "fire im e f u = (case f of None \<Rightarrow> Done u | Some k \<Rightarrow> im_user im k (ev_data e) u)"

definition col_done :: "'u image \<Rightarrow> nat \<Rightarrow> 'u rt \<Rightarrow> col_state \<Rightarrow> 'u \<Rightarrow> 'u rt \<Rightarrow> bool" where
  "col_done im c s st u t \<longleftrightarrow> col_frame c s t \<and> r_user t = u \<and> r_exec_count t \<noteq> 0 \<and> r_engine_flag t
     \<and> column_in im c st (clear_engine_flags t)"

lemma column_in_clear:
  assumes "c + 3 < length (r_flags t)"
  shows "column_flags c (FL v0 True True) (FL v1 True True) (FL v2 False True) (FL v3 False True) t \<Longrightarrow> wait_live im c n t
      \<Longrightarrow> column_in im c (Parked n) (clear_engine_flags t)"
    "column_flags c (FL v0 False True) (FL v1 False False) (FL v2 False False) (FL v3 False False) t
      \<Longrightarrow> r_wait t ! Suc c = Some (wait_cell (im_wait im (Suc c)) n Aux_freed) \<Longrightarrow> column_in im c (Fresh n) (clear_engine_flags t)"
  using assms by (simp_all add: column_in_def column_flags_def clear_engine_flags_def wait_live_def)

lemma walk_match:
  assumes c: "column_at im c k" and tb: "fw_tables im" and ok: "rt_ok im s" and win: "win_ok im c s"
    and fl: "column_flags c (FL True True True) (FL True False False) (FL False False True) (FL False False True) s"
    and cell: "r_wait s ! Suc c = Some (wait_cell (im_wait im (Suc c)) n Aux_freed)"
  shows "\<exists>T. walk_loop im (cfl_execute_node im e) 3 (node_count im) (Suc (Suc (Suc (Suc (Suc m))))) [(c, 1, 1), fr] s =
      run_bind (im_user im k (ev_data e) (r_user s)) (\<lambda>u. walk_loop im (cfl_execute_node im e) 3 (node_count im) m [fr] (T u))
    \<and> (\<forall>u. col_done im c s (Fresh n) u (T u))"
proof -
  note C = column_atD [OF c]
  let ?s = "\<lambda>u. s\<lparr>r_flags := (r_flags s)[Suc (Suc c) := FL True False False], r_exec_count := Suc (r_exec_count s), r_engine_flag := True, r_user := u\<rparr>"
  have fr: "col_frame c s (?s u)" for u by (simp add: col_frame_def)
  have "column_flags c (FL True True True) (FL True False False) (FL True False False) (FL False False True) (?s u)" for u
    using fl C(1-4) ok by (simp add: column_flags_def rt_ok_def nth_list_update ss)
  note R = exec_reset [OF c tb col_frame_ok [OF fr ok] col_frame_win [OF fr win] this]
  have "\<exists>t. cfl_execute_node im e (Suc (Suc (Suc c))) (set_flags (Suc (Suc (Suc c))) (FL True False True) (?s u)) = Done (CT_CONTINUE, t)
    \<and> col_frame c s t \<and> r_user t = u \<and> r_exec_count t \<noteq> 0 \<and> r_engine_flag t
    \<and> column_flags c (FL True False True) (FL True False False) (FL True False False) (FL True False False) t
    \<and> r_wait t ! Suc c = Some (wait_cell (im_wait im (Suc c)) n Aux_freed)" for u
    using R [of u n e] cell col_frame_trans [OF fr] by fastforce
  then obtain T where T: "cfl_execute_node im e (Suc (Suc (Suc c))) (set_flags (Suc (Suc (Suc c))) (FL True False True) (?s u)) = Done (CT_CONTINUE, T u)"
    "col_frame c s (T u)" "r_user (T u) = u" "r_exec_count (T u) \<noteq> 0" "r_engine_flag (T u)"
    "column_flags c (FL True False True) (FL True False False) (FL True False False) (FL True False False) (T u)"
    "r_wait (T u) ! Suc c = Some (wait_cell (im_wait im (Suc c)) n Aux_freed)" for u by metis
  have T': "r_flags (T u) ! c = FL True False True" "\<not> r_stop_all (T u)" "c + 3 < length (r_flags (T u))" for u
    using T(2) [of u] T(6) [of u] ok C(4) by (simp_all add: column_flags_def col_frame_def rt_ok_def)
  have "walk_loop im (cfl_execute_node im e) 3 (node_count im) (Suc (Suc (Suc (Suc (Suc m))))) [(c, 1, 1), fr] s =
      run_bind (im_user im k (ev_data e) (r_user s)) (\<lambda>u. walk_loop im (cfl_execute_node im e) 3 (node_count im) m [fr] (T u))"
    using C(1-4) ok fl T(1) T'(1,2)
    by (cases "im_user im k (ev_data e) (r_user s)")
      (simp_all add: walk_again [OF C(5)] walk_visit [OF C(7)] walk_visit [OF C(8)] exec_one_shot [OF c tb ok fl] rt_ok_def column_flags_def nth_list_update ss)
  moreover have "col_done im c s (Fresh n) u (T u)" for u
    unfolding col_done_def using T(2-5) column_in_clear(2) [OF T'(3) T(6,7)] by blast
  ultimately show ?thesis by blast
qed


lemma exec_disabled:
  assumes "i < node_count im" "ct_main (im_nodes im ! i) < length (im_mains im)" "ct_init (im_nodes im ! i) < length (im_one_shots im)"
    "ct_aux (im_nodes im ! i) < length (im_booleans im)" "\<not> fl_user3 (r_flags s ! i)"
  shows "cfl_execute_node im e i s = Done (CT_SKIP_CHILDREN, s)"
  using assms by (simp add: exec_defs)

lemma walk_after_timeout:
  assumes c: "column_at im c k" and tb: "fw_tables im" and ok: "rt_ok im s"
    and fl: "column_flags c (FL True False True) (FL True False False) (FL False False False) (FL False False False) s"
    and cell: "r_wait s ! Suc c = Some (wait_cell (im_wait im (Suc c)) n Aux_freed)" and ex: "r_exec_count s \<noteq> 0" "r_engine_flag s"
  shows "\<exists>t. walk_loop im (cfl_execute_node im e) 3 (node_count im) (Suc (Suc (Suc (Suc (Suc m))))) [(c, 1, 1), fr] s =
      walk_loop im (cfl_execute_node im e) 3 (node_count im) m [fr] t \<and> col_done im c s (Fresh n) (r_user s) t"
proof -
  note C = column_atD [OF c]
  let ?t = "s\<lparr>r_flags := (r_flags s)[Suc (Suc c) := FL True False False, Suc (Suc (Suc c)) := FL True False False]\<rparr>"
  have k: "ct_init (im_nodes im ! Suc (Suc c)) < 15" using C(16) by (simp add: node_fnsD [OF C(13)])
  have lens: "length (im_mains im) = 6" "length (im_one_shots im) = 15" "length (im_booleans im) = 4"
    by (simp_all add: fw_tablesD [OF tb] fw_table_defs)
  have 1: "walk_loop im (cfl_execute_node im e) 3 (node_count im) (Suc (Suc (Suc (Suc (Suc m))))) [(c, 1, 1), fr] s =
      walk_loop im (cfl_execute_node im e) 3 (node_count im) m [fr] ?t"
    using C(1-4) ok fl k
    by (simp add: walk_again [OF C(5)] walk_visit [OF C(7)] walk_visit [OF C(8)] exec_disabled lens node_fnsD [OF C(13)] node_fnsD [OF C(14)]
        rt_ok_def column_flags_def nth_list_update ss set_flags_def)
  have "column_flags c (FL True False True) (FL True False False) (FL True False False) (FL True False False) ?t"
    using fl C(1-4) ok by (simp add: column_flags_def rt_ok_def nth_list_update ss)
  moreover have "c + 3 < length (r_flags ?t)" "r_wait ?t ! Suc c = Some (wait_cell (im_wait im (Suc c)) n Aux_freed)"
    using ok C(4) cell by (simp_all add: rt_ok_def)
  ultimately have "column_in im c (Fresh n) (clear_engine_flags ?t)" using column_in_clear(2) by blast
  then show ?thesis using ex by (intro exI [of _ ?t] conjI 1) (simp add: col_done_def col_frame_def)
qed

lemma col_done_frame: "col_frame c s t \<Longrightarrow> col_done im c t st u v \<Longrightarrow> col_done im c s st u v"
  unfolding col_done_def using col_frame_trans by blast

text \<open>The walk over one column, entered from its parent's frame.\<close>

lemma column_walk:
  assumes c: "column_at im c k" and tb: "fw_tables im" and ok: "rt_ok im s" and win: "win_ok im c s" and st: "column_in im c st s"
    and ev: "ev_id e \<notin> {0, 1}" and no: "wp_event_id (im_wait im (Suc c)) \<noteq> 5"
  defines "r \<equiv> col_step (im_wait im (Suc c)) k e st"
  shows "\<exists>m' T. walk_loop im (cfl_execute_node im e) 3 (node_count im) (Suc (Suc (Suc (Suc (Suc (Suc (Suc m))))))) [(c, 1, 0), fr] s =
      run_bind (fire im e (snd r) (r_user s)) (\<lambda>u. walk_loop im (cfl_execute_node im e) 3 (node_count im) (m + m') [fr] (T u))
    \<and> (\<forall>u. fire im e (snd r) (r_user s) = Done u \<longrightarrow> col_done im c s (fst r) u (T u))"
proof -
  note C = column_atD [OF c]
  obtain t u where 1: "cfl_execute_node im e c (set_flags c ((r_flags s ! c)\<lparr>fl_visited := True\<rparr>) s) = Done (CT_CONTINUE, t)"
    and t: "col_frame c s t" "r_user t = r_user s" "\<not> fl_visited (r_flags t ! Suc c)"
    and 2: "cfl_execute_node im e (Suc c) (set_flags (Suc c) ((r_flags t ! Suc c)\<lparr>fl_visited := True\<rparr>) t) = node_main im (Suc c) e u"
    and u: "col_frame c s u" "r_user u = r_user s" "r_exec_count u \<noteq> 0" "wait_live im c (col_count st) u"
      "column_flags c (FL True True True) (FL True True True) (FL False False True) (FL False False True) u"
    using column_enter [OF c tb ok st ev] by blast
  let ?W = "walk_loop im (cfl_execute_node im e) 3 (node_count im)" and ?n = "col_count st"
  let ?A = "after_visit im (cfl_execute_node im e) 3 (Suc (Suc (Suc (Suc (Suc m))))) (Suc c) (Suc (Suc 0)) [(c, 1, 1), fr] []"
  have unv: "\<not> fl_visited (r_flags s ! c)" using st by (auto simp: column_in_def column_flags_def split: col_state.splits)
  have "rt_ok im t" "rt_ok im u" "win_ok im c u" using col_frame_ok [OF t(1) ok] col_frame_ok [OF u(1) ok] col_frame_win [OF u(1) win] by simp_all
  note ok' = this
  have st2: "?W (Suc (Suc (Suc (Suc (Suc (Suc (Suc m))))))) [(c, 1, 0), fr] s = run_bind (node_main im (Suc c) e u) ?A"
    using C(1,2) ok ok'(1) t(3) unv 1 2
    by (simp add: walk_visit [OF C(5)] walk_visit [OF C(6)] rt_ok_def)
  show ?thesis
  proof (cases "ucast (ev_id e) = wp_event_id (im_wait im (Suc c))")
    case True
    then have r: "r = (Fresh ?n, Some k)" by (simp add: r_def col_step_def)
    obtain v where v: "node_main im (Suc c) e u = Done (CT_SKIP_CHILDREN, v)" "col_frame c u v" "r_user v = r_user u"
      "column_flags c (FL True True True) (FL True False False) (FL False False True) (FL False False True) v"
      "r_wait v ! Suc c = Some (wait_cell (im_wait im (Suc c)) ?n Aux_freed)"
      using wait_main_match [OF c tb ok'(2) u(4) ev True u(5)] by blast
    obtain T where T: "?W (Suc (Suc (Suc (Suc (Suc m))))) [(c, 1, 1), fr] v =
        run_bind (im_user im k (ev_data e) (r_user v)) (\<lambda>u. ?W m [fr] (T u))" "\<And>u. col_done im c v (Fresh ?n) u (T u)"
      using walk_match [OF c tb col_frame_ok [OF v(2) ok'(2)] col_frame_win [OF v(2) ok'(3)] v(4,5)] by blast
    have "col_done im c s (Fresh ?n) w (T w)" for w
      using T(2) col_done_frame [OF col_frame_trans [OF u(1) v(2)]] by blast
    then show ?thesis unfolding st2 using T(1) u(2) v(1,3) by (intro exI [of _ 0] exI [of _ T]) (simp add: r fire_def)
  next
    case False
    show ?thesis
    proof (cases "ev_id e = 5 \<and> wp_timeout (im_wait im (Suc c)) \<le> ?n + 1")
      case True
      with False have r: "r = (Fresh (?n + 1), Some 14)" by (simp add: r_def col_step_def)
      obtain T where T: "node_main im (Suc c) e u = run_bind (im_user im 14 (ev_data e) (r_user u)) (\<lambda>w. Done (CT_CONTINUE, T w))"
        "\<And>w. col_frame c u (T w)" "\<And>w. r_user (T w) = w" "\<And>w. r_exec_count (T w) = r_exec_count u" "\<And>w. r_engine_flag (T w)"
        "\<And>w. column_flags c (FL True False True) (FL True False False) (FL False False False) (FL False False False) (T w)"
        "\<And>w. r_wait (T w) ! Suc c = Some (wait_cell (im_wait im (Suc c)) (?n + 1) Aux_freed)"
        using wait_main_timeout [OF c tb ok'(2) u(4) True [THEN conjunct1] no True [THEN conjunct2] ok'(3) u(5)] by auto
      have "\<exists>x. ?W (Suc (Suc (Suc (Suc (Suc m))))) [(c, 1, 1), fr] (T w) = ?W m [fr] x \<and> col_done im c (T w) (Fresh (?n + 1)) w x" for w
        using walk_after_timeout [OF c tb col_frame_ok [OF T(2) ok'(2)] T(6,7), of w e m fr] T(3-5) u(3) by simp
      then obtain X where X: "?W (Suc (Suc (Suc (Suc (Suc m))))) [(c, 1, 1), fr] (T w) = ?W m [fr] (X w)" "col_done im c (T w) (Fresh (?n + 1)) w (X w)" for w
        by metis
      have "col_done im c s (Fresh (?n + 1)) w (X w)" for w using X(2) col_done_frame [OF col_frame_trans [OF u(1) T(2)]] by blast
      then show ?thesis unfolding st2 T(1) using X(1) u(2)
        by (intro exI [of _ 0] exI [of _ X]) (simp add: r fire_def)
    next
      case late: False
      then have keep: "ev_id e = 5 \<Longrightarrow> ?n + 1 < wp_timeout (im_wait im (Suc c))" by simp
      obtain v where v: "node_main im (Suc c) e u = Done (CT_STOP_SIBLINGS, v)" "col_frame c u v" "r_user v = r_user u" "r_flags v = r_flags u"
        "r_exec_count v = r_exec_count u" "r_engine_flag v" "wait_live im c (if ev_id e = 5 then ?n + 1 else ?n) v"
        using wait_main_keep [OF c tb ok'(2) u(4) ev False keep] by blast
      have r: "r = (Parked (if ev_id e = 5 then ?n + 1 else ?n), None)" using False late by (auto simp: r_def col_step_def)
      have "c + 3 < length (r_flags v)" using col_frame_ok [OF v(2) ok'(2)] C(4) by (simp add: rt_ok_def)
      moreover have "column_flags c (FL True True True) (FL True True True) (FL False False True) (FL False False True) v"
        using u(5) v(4) by (simp add: column_flags_def)
      ultimately have "column_in im c (fst r) (clear_engine_flags v)" unfolding r fst_conv using column_in_clear(1) v(7) by blast
      then have "col_done im c s (fst r) (r_user s) v" using col_frame_trans [OF u(1) v(2)] u(2,3) v(3,5,6) by (simp add: col_done_def)
      then show ?thesis unfolding st2 using v(1) by (intro exI [of _ "Suc (Suc (Suc (Suc (Suc 0))))"] exI [of _ "\<lambda>_. v"]) (simp add: r fire_def)
    qed
  qed
qed


section \<open>A knowledge base of columns\<close>

definition outcome :: "'a run \<Rightarrow> 'b run \<Rightarrow> ('a \<Rightarrow> 'b \<Rightarrow> bool) \<Rightarrow> bool" where
  "outcome r w P \<longleftrightarrow> (case r of Done u \<Rightarrow> \<exists>x. w = Done x \<and> P u x | Exception \<Rightarrow> w = Exception | Undefined \<Rightarrow> w = Undefined)"

lemma outcome_bind:
  assumes "outcome r w P" "\<And>u x. r = Done u \<Longrightarrow> w = Done x \<Longrightarrow> P u x \<Longrightarrow> outcome (f u) (g x) Q"
  shows "outcome (run_bind r f) (run_bind w g) Q"
  using assms by (cases r; cases w) (simp_all add: outcome_def)

lemma run_bind_Done_right: "run_bind r Done = r"
  by (cases r) simp_all

lemma outcome_mono: "outcome r w P \<Longrightarrow> (\<And>u x. r = Done u \<Longrightarrow> w = Done x \<Longrightarrow> P u x \<Longrightarrow> Q u x) \<Longrightarrow> outcome r w Q"
  by (cases r) (auto simp: outcome_def)

primrec fire_all :: "'u image \<Rightarrow> event \<Rightarrow> nat option list \<Rightarrow> 'u \<Rightarrow> 'u run" where
  "fire_all im e [] u = Done u"
| "fire_all im e (f # fs) u = run_bind (fire im e f u) (fire_all im e fs)"

primrec cols_ok :: "'u image \<Rightarrow> nat \<Rightarrow> (nat \<times> nat) list \<Rightarrow> bool" where
  "cols_ok im lo [] = True"
| "cols_ok im lo (ck # cs) = (lo < fst ck \<and> column_at im (fst ck) (snd ck) \<and> wp_event_id (im_wait im (Suc (fst ck))) \<noteq> 5 \<and> cols_ok im (fst ck + 3) cs)"

definition cols_in :: "'u image \<Rightarrow> (nat \<times> nat) list \<Rightarrow> col_state list \<Rightarrow> 'u rt \<Rightarrow> bool" where
  "cols_in im cs sts s = list_all2 (\<lambda>ck st. column_in im (fst ck) st s) cs sts"

definition cols_step :: "'u image \<Rightarrow> (nat \<times> nat) list \<Rightarrow> event \<Rightarrow> col_state list \<Rightarrow> (col_state \<times> nat option) list" where
  "cols_step im cs e sts = map2 (\<lambda>ck st. col_step (im_wait im (Suc (fst ck))) (snd ck) e st) cs sts"

definition kb_frame :: "nat \<Rightarrow> nat \<Rightarrow> 'u rt \<Rightarrow> 'u rt \<Rightarrow> bool" where
  "kb_frame lo hi s t \<longleftrightarrow> length (r_flags t) = length (r_flags s) \<and> length (r_wait t) = length (r_wait s)
     \<and> (\<forall>i. i \<le> lo \<or> hi \<le> i \<longrightarrow> r_flags t ! i = r_flags s ! i \<and> r_wait t ! i = r_wait s ! i)
     \<and> r_active t = r_active s \<and> r_kb_start t = r_kb_start s \<and> r_kb_count t = r_kb_count s \<and> r_max_level t = r_max_level s
     \<and> r_start_node t = r_start_node s \<and> r_event t = r_event s \<and> r_stop_all t = r_stop_all s"

definition unmarked :: "'u image \<Rightarrow> 'u rt \<Rightarrow> bool" where
  "unmarked im s \<longleftrightarrow> (\<forall>i < node_count im. \<not> fl_user1 (r_flags s ! i))"

lemma kb_frame_refl: "kb_frame lo hi s s"
  by (simp add: kb_frame_def)

lemma kb_frame_trans: "kb_frame lo hi s t \<Longrightarrow> kb_frame lo hi t u \<Longrightarrow> kb_frame lo hi s u"
  by (simp add: kb_frame_def)

lemma kb_frame_ok: "kb_frame lo hi s t \<Longrightarrow> rt_ok im s \<Longrightarrow> rt_ok im t"
  by (simp add: kb_frame_def rt_ok_def)

lemma kb_frame_mono: "kb_frame lo hi s t \<Longrightarrow> lo' \<le> lo \<Longrightarrow> hi \<le> hi' \<Longrightarrow> kb_frame lo' hi' s t"
  by (simp add: kb_frame_def)

lemma col_kb_frame: "col_frame c s t \<Longrightarrow> lo < c \<Longrightarrow> c + 3 < hi \<Longrightarrow> kb_frame lo hi s t"
  by (auto simp: col_frame_def kb_frame_def)

lemma column_in_frame:
  assumes "column_in im c st s" "\<And>i. c \<le> i \<Longrightarrow> i \<le> c + 3 \<Longrightarrow> r_flags t ! i = r_flags s ! i \<and> r_wait t ! i = r_wait s ! i"
  shows "column_in im c st t"
  using assms(1) assms(2) [of c] assms(2) [of "Suc c"] assms(2) [of "Suc (Suc c)"] assms(2) [of "Suc (Suc (Suc c))"]
  by (auto simp: column_in_def column_flags_def wait_live_def split: col_state.splits)

lemma cols_in_frame:
  assumes "cols_ok im lo cs" "cols_in im cs sts s" "\<And>i. lo < i \<Longrightarrow> r_flags t ! i = r_flags s ! i \<and> r_wait t ! i = r_wait s ! i"
  shows "cols_in im cs sts t"
  using assms
proof (induction cs arbitrary: lo sts)
  case (Cons ck cs)
  then obtain st sts' where sts: "sts = st # sts'" by (cases sts) (auto simp: cols_in_def)
  have "column_in im (fst ck) st t"
    by (rule column_in_frame [of im _ _ s]) (use Cons.prems sts in \<open>auto simp: cols_in_def\<close>)
  moreover have "cols_in im cs sts' t"
    using Cons.IH [of "fst ck + 3" sts'] Cons.prems sts by (auto simp: cols_in_def)
  ultimately show ?case by (simp add: sts cols_in_def)
qed (simp add: cols_in_def)

lemma column_in_unmarked: "column_in im c st s \<Longrightarrow> c \<le> i \<Longrightarrow> i \<le> c + 3 \<Longrightarrow> \<not> fl_user1 (r_flags s ! i)"
proof -
  assume s: "column_in im c st s" and i: "c \<le> i" "i \<le> c + 3"
  then have "i = c \<or> i = Suc c \<or> i = Suc (Suc c) \<or> i = Suc (Suc (Suc c))" by arith
  with s show ?thesis by (auto simp: column_in_def column_flags_def split: col_state.splits)
qed

lemma col_done_unmarked:
  assumes d: "col_done im c s st u t" and ok: "rt_ok im s" and m: "unmarked im s"
  shows "unmarked im t"
  unfolding unmarked_def
proof (intro allI impI)
  fix i assume i: "i < node_count im"
  have l: "length (r_flags t) = node_count im" using d ok by (simp add: col_done_def col_frame_def rt_ok_def)
  show "\<not> fl_user1 (r_flags t ! i)"
  proof (cases "c \<le> i \<and> i \<le> c + 3")
    case True
    then have "\<not> fl_user1 (r_flags (clear_engine_flags t) ! i)" using d column_in_unmarked [of im c st "clear_engine_flags t" i] by (simp add: col_done_def)
    then show ?thesis using i l by (simp add: clear_engine_flags_def)
  next
    case False
    then have "r_flags t ! i = r_flags s ! i" using d by (auto simp: col_done_def col_frame_def)
    then show ?thesis using m i by (simp add: unmarked_def)
  qed
qed


lemma links_unvisited: "column_in im c st s \<Longrightarrow> \<not> fl_visited (r_flags s ! c)"
  by (auto simp: column_in_def column_flags_def split: col_state.splits)

definition cols_done :: "'u image \<Rightarrow> (nat \<times> nat) list \<Rightarrow> nat \<Rightarrow> nat \<Rightarrow> 'u rt \<Rightarrow> col_state list \<Rightarrow> 'u \<Rightarrow> 'u rt \<Rightarrow> bool" where
  "cols_done im cs lo hi s sts u t \<longleftrightarrow> kb_frame lo hi s t \<and> r_user t = u \<and> r_exec_count t \<noteq> 0 \<and> r_engine_flag t \<and> unmarked im t
     \<and> cols_in im cs sts (clear_engine_flags t)"

text \<open>The walk over the columns, from the moment the first of them is on the stack.\<close>

lemma cols_walk:
  assumes tb: "fw_tables im" and root: "links_are im i L" "i < node_count im"
    and ev: "ev_id e \<notin> {0, 1}" and ne: "cs \<noteq> []" and cols: "cols_ok im lo cs" and lo: "i \<le> lo" and L: "drop ci L = map fst cs"
    and s: "rt_ok im s" "unmarked im s" "cols_in im cs sts s" "fl_visited (r_flags s ! i)"
    and win: "r_kb_start s \<le> i" "r_kb_start s + r_kb_count s = hi" "hi \<le> node_count im" "\<forall>ck\<in>set cs. fst ck + 3 < hi"
    and m: "8 * length cs \<le> m"
  shows "outcome (fire_all im e (map snd (cols_step im cs e sts)) (r_user s))
      (walk_loop im (cfl_execute_node im e) 3 (node_count im) m [(fst (hd cs), 1, 0), (i, 0, Suc ci)] s)
      (\<lambda>u (r, t). r = CT_CONTINUE \<and> cols_done im cs lo hi s (map fst (cols_step im cs e sts)) u t)"
  using ne cols lo L s win m
proof (induction cs arbitrary: lo s sts ci m)
  case (Cons ck cs)
  obtain c k where ck: "ck = (c, k)" by (cases ck)
  obtain st sts' where sts: "sts = st # sts'" using Cons.prems(7) by (cases sts) (auto simp: cols_in_def)
  obtain m' where m': "m = Suc (Suc (Suc (Suc (Suc (Suc (Suc (Suc m')))))))" and m'': "8 * length cs \<le> m'"
    using Cons.prems(13) that [of "m - 8"] by simp
  have col: "column_at im c k" "lo < c" "wp_event_id (im_wait im (Suc c)) \<noteq> 5" "cols_ok im (c + 3) cs" using Cons.prems(2) ck by simp_all
  have inn: "column_in im c st s" "cols_in im cs sts' s" using Cons.prems(7) by (simp_all add: cols_in_def ck sts)
  have ci: "drop (Suc ci) L = map fst cs"
    using Cons.prems(4) by (auto simp: ck drop_Suc tl_drop [symmetric])
  let ?r = "col_step (im_wait im (Suc c)) k e st"
  have "win_ok im c s" using Cons.prems(3,6,9-12) col(2) by (auto simp: win_ok_def unmarked_def ck)
  from column_walk [OF col(1) tb Cons.prems(5) this inn(1) ev col(3), of "Suc m'" "(i, 0, Suc ci)"]
  obtain n T where W: "walk_loop im (cfl_execute_node im e) 3 (node_count im) m [(c, 1, 0), (i, 0, Suc ci)] s =
      run_bind (fire im e (snd ?r) (r_user s)) (\<lambda>u. walk_loop im (cfl_execute_node im e) 3 (node_count im) (Suc (m' + n)) [(i, 0, Suc ci)] (T u))"
    and T: "\<And>u. fire im e (snd ?r) (r_user s) = Done u \<Longrightarrow> col_done im c s (fst ?r) u (T u)" unfolding m' by auto
  have rest: "outcome (fire_all im e (map snd (cols_step im cs e sts')) u)
      (walk_loop im (cfl_execute_node im e) 3 (node_count im) (Suc (m' + n)) [(i, 0, Suc ci)] (T u))
      (\<lambda>u (r, t). r = CT_CONTINUE \<and> cols_done im (ck # cs) lo hi s (fst ?r # map fst (cols_step im cs e sts')) u t)"
    if f: "fire im e (snd ?r) (r_user s) = Done u" for u
  proof -
    note D = T [OF f]
    have fr: "col_frame c s (T u)" "r_user (T u) = u" "r_exec_count (T u) \<noteq> 0" "r_engine_flag (T u)" "column_in im c (fst ?r) (clear_engine_flags (T u))"
      using D by (simp_all add: col_done_def)
    have ok: "rt_ok im (T u)" by (rule col_frame_ok [OF fr(1) Cons.prems(5)])
    have um: "unmarked im (T u)" by (rule col_done_unmarked [OF D Cons.prems(5,6)])
    have inn': "cols_in im cs sts' (T u)"
      by (rule cols_in_frame [OF col(4) inn(2)]) (use fr(1) in \<open>auto simp: col_frame_def\<close>)
    have vis: "fl_visited (r_flags (T u) ! i)" "r_kb_start (T u) \<le> i" "r_kb_start (T u) + r_kb_count (T u) = hi" "hi \<le> node_count im"
      "\<forall>ck\<in>set cs. fst ck + 3 < hi" "i \<le> c + 3" "8 * length cs \<le> m' + n"
      using fr(1) Cons.prems(3,8-12) col(2) m'' by (auto simp: col_frame_def)
    have kf: "kb_frame lo hi s (T u)" using col_kb_frame [OF fr(1) col(2)] Cons.prems(12) by (simp add: ck)
    have stop: "\<not> r_stop_all (T u)" using ok by (simp add: rt_ok_def)
    show ?thesis
    proof (cases cs)
      case Nil
      then have "length L \<le> Suc ci" using ci by simp
      moreover have "sts' = []" using inn'(1) Nil by (simp add: cols_in_def)
      ultimately show ?thesis using vis(1) stop fr um kf Nil
        by (simp add: walk_again [OF root] walk_end outcome_def cols_step_def cols_done_def cols_in_def ck)
    next
      case (Cons ck2 cs2)
      have ci2: "Suc ci < length L" "L ! Suc ci = fst (hd cs)"
        using ci Cons by (auto simp: nth_via_drop) (metis drop_all linorder_not_le list.distinct(1))
      have "column_in im (fst (hd cs)) (hd sts') (T u)" using inn' Cons by (cases sts') (auto simp: cols_in_def)
      then have "\<not> fl_visited (r_flags (T u) ! fst (hd cs))" by (rule links_unvisited)
      then have step: "walk_loop im (cfl_execute_node im e) 3 (node_count im) (Suc (m' + n)) [(i, 0, Suc ci)] (T u) =
          walk_loop im (cfl_execute_node im e) 3 (node_count im) (m' + n) [(fst (hd cs), 1, 0), (i, 0, Suc (Suc ci))] (T u)"
        using vis(1) stop ci2 by (simp add: walk_again [OF root])
      show ?thesis unfolding step
      proof (rule outcome_mono [OF Cons.IH [OF _ col(4) vis(6) ci ok um inn' vis(1-5,7), unfolded fr(2)]])
        fix w x assume x: "case x of (r, t) \<Rightarrow> r = CT_CONTINUE \<and> cols_done im cs (c + 3) hi (T u) (map fst (cols_step im cs e sts')) w t"
        obtain r t where rt: "x = (r, t)" by (cases x)
        have t: "kb_frame (c + 3) hi (T u) t" "r_user t = w" "r_exec_count t \<noteq> 0" "r_engine_flag t" "unmarked im t"
          "cols_in im cs (map fst (cols_step im cs e sts')) (clear_engine_flags t)" "r = CT_CONTINUE"
          using x by (simp_all add: rt cols_done_def)
        have "column_in im c (fst ?r) (clear_engine_flags t)"
          by (rule column_in_frame [OF fr(5)]) (use t(1) ok col(1) in \<open>auto simp: kb_frame_def clear_engine_flags_def rt_ok_def column_at_def\<close>)
        moreover have "kb_frame lo hi s t" using kb_frame_trans [OF kf kb_frame_mono [OF t(1)]] col(2) by simp
        ultimately show "case x of (r, t) \<Rightarrow> r = CT_CONTINUE \<and> cols_done im (ck # cs) lo hi s (fst ?r # map fst (cols_step im cs e sts')) w t"
          using t by (simp add: rt cols_done_def cols_in_def ck)
      qed (use Cons in simp)
    qed
  qed
  have st: "cols_step im (ck # cs) e sts = ?r # cols_step im cs e sts'" by (simp add: cols_step_def sts ck)
  have hd: "fst (hd (ck # cs)) = c" by (simp add: ck)
  show ?case unfolding st list.map fire_all.simps hd W
    using rest by (cases "fire im e (snd ?r) (r_user s)") (simp_all add: outcome_def)
qed simp

definition enabled :: "ct_flags \<Rightarrow> ct_flags" where
  "enabled f = f\<lparr>fl_user1 := False, fl_user2 := False, fl_user3 := True\<rparr>"

lemma enable_links_all:
  "list_all (\<lambda>l. l < node_count im \<and> P l) ls \<Longrightarrow>
    enable_links im P ls s = Done (s\<lparr>r_flags := fold (\<lambda>l F. F[l := enabled (F ! l)]) ls (r_flags s)\<rparr>)"
proof (induction ls arbitrary: s)
  case Nil
  then show ?case by (cases s) simp
next
  case (Cons l ls)
  then show ?case by (simp add: cfl_enable_node_def set_flags_def enabled_def not_le)
qed

lemma fold_enabled: "length (fold (\<lambda>l F. F[l := enabled (F ! l)]) ls F) = length F \<and>
    (\<forall>i. fold (\<lambda>l F. F[l := enabled (F ! l)]) ls F ! i = (if i \<in> set ls \<and> i < length F then enabled (F ! i) else F ! i))"
proof (induction ls arbitrary: F)
  case (Cons l ls)
  have "F[l := enabled (F ! l)] ! i = (if i = l \<and> i < length F then enabled (F ! i) else F ! i)" for i
    by (cases "l < length F") (auto simp: nth_list_update list_update_beyond)
  moreover have "enabled (enabled f) = enabled f" for f by (simp add: enabled_def)
  ultimately show ?case using Cons by auto
qed simp

definition kb_at :: "'u image \<Rightarrow> nat \<Rightarrow> (nat \<times> nat) list \<Rightarrow> bool" where
  "kb_at im i cs \<longleftrightarrow> i < node_count im \<and> links_are im i (map fst cs) \<and> cs \<noteq> [] \<and> node_fns im i 3 8 2 9 \<and> cols_ok im i cs
     \<and> list_all (\<lambda>ck. ct_link_count (im_nodes im ! fst ck) AND AUTO_START_BIT \<noteq> 0) cs"

lemma kb_atD: "kb_at im i cs \<Longrightarrow> i < node_count im" "kb_at im i cs \<Longrightarrow> links_are im i (map fst cs)" "kb_at im i cs \<Longrightarrow> cs \<noteq> []"
  "kb_at im i cs \<Longrightarrow> node_fns im i 3 8 2 9" "kb_at im i cs \<Longrightarrow> cols_ok im i cs"
  "kb_at im i cs \<Longrightarrow> list_all (\<lambda>ck. ct_link_count (im_nodes im ! fst ck) AND AUTO_START_BIT \<noteq> 0) cs"
  by (simp_all add: kb_at_def)

text \<open>
  An idle knowledge base: its root runs and every column waits or starts afresh, or nothing has run yet and only the root is
  enabled.
\<close>

definition idle_kb :: "'u image \<Rightarrow> nat \<Rightarrow> (nat \<times> nat) list \<Rightarrow> col_state list \<Rightarrow> 'u rt \<Rightarrow> bool" where
  "idle_kb im i cs sts s \<longleftrightarrow> r_flags s ! i = FL False True True \<and> cols_in im cs sts s
     \<or> r_flags s ! i = FL False False True \<and> sts = replicate (length cs) (Fresh 0)
       \<and> (\<forall>ck\<in>set cs. column_flags (fst ck) (FL False False False) (FL False False False) (FL False False False) (FL False False False) s
            \<and> r_wait s ! Suc (fst ck) = None)"

lemma cols_ok_mem: "cols_ok im lo cs \<Longrightarrow> ck \<in> set cs \<Longrightarrow> lo < fst ck \<and> fst ck + 3 < node_count im"
  by (induction cs arbitrary: lo) (auto simp: column_at_def, fastforce)

lemma cols_ok_apart: "cols_ok im lo cs \<Longrightarrow> ck \<in> set cs \<Longrightarrow> i \<in> set (map fst cs) \<Longrightarrow> i \<noteq> Suc (fst ck) \<and> i \<noteq> Suc (Suc (fst ck)) \<and> i \<noteq> Suc (Suc (Suc (fst ck)))"
proof (induction cs arbitrary: lo)
  case (Cons a cs)
  then have "cols_ok im (fst a + 3) cs" by simp
  note less = cols_ok_mem [OF this]
  from Cons.prems(2,3) consider "ck = a" "i = fst a" | "ck = a" "i \<in> set (map fst cs)" | "ck \<in> set cs" "i = fst a"
    | "ck \<in> set cs" "i \<in> set (map fst cs)" by auto
  then show ?case
  proof cases
    case 2 then show ?thesis using less by fastforce
  next
    case 3 then show ?thesis using less [of ck] by simp
  next
    case 4 then show ?thesis using Cons by auto
  qed simp
qed simp

lemma any_enabled_hd: "ls \<noteq> [] \<Longrightarrow> hd ls < node_count im \<Longrightarrow> fl_user3 (r_flags s ! hd ls) \<Longrightarrow> any_enabled im ls s = Done True"
  by (cases ls) (simp_all add: cfl_engine_node_is_enabled_def)

lemma root_exec:
  assumes tb: "fw_tables im" and k: "kb_at im i cs" and ok: "rt_ok im s" and id: "idle_kb im i cs sts s" and ev: "ev_id e \<notin> {0, 1}"
    and um: "unmarked im s"
  shows "\<exists>t. cfl_execute_node im e i (set_flags i ((r_flags s ! i)\<lparr>fl_visited := True\<rparr>) s) = Done (CT_CONTINUE, t)
    \<and> r_flags t ! i = FL True True True \<and> cols_in im cs sts t \<and> r_user t = r_user s \<and> r_exec_count t \<noteq> 0 \<and> r_engine_flag t \<and> unmarked im t
    \<and> (\<forall>j. j \<noteq> i \<and> j \<notin> set (map fst cs) \<longrightarrow> r_flags t ! j = r_flags s ! j) \<and> length (r_flags t) = length (r_flags s) \<and> r_wait t = r_wait s
    \<and> r_active t = r_active s \<and> r_kb_start t = r_kb_start s \<and> r_kb_count t = r_kb_count s \<and> r_max_level t = r_max_level s
     \<and> r_start_node t = r_start_node s \<and> r_event t = r_event s \<and> r_stop_all t = r_stop_all s"
proof -
  note K = kb_atD [OF k]
  obtain c k cs' where cs: "cs = (c, k) # cs'" using K(3) by (cases cs) auto
  have c: "c < node_count im" "i < c" using cols_ok_mem [OF K(5), of "(c, k)"] by (simp_all add: cs)
  note S = exec_defs node_main_def node_fnsD [OF K(4)] fw_tablesD [OF tb] fw_table_defs links_areD [OF K(2)] main_call_def cfl_column_main_def
    boolean_call_def set_flags_def rt_ok_def nth_list_update one_shot_def cfl_enable_auto_start_nodes_def
  from id [unfolded idle_kb_def] show ?thesis
  proof (elim disjE conjE)
    assume f: "r_flags s ! i = FL False True True" and inn: "cols_in im cs sts s"
    let ?t = "s\<lparr>r_flags := (r_flags s)[i := FL True True True], r_exec_count := Suc (r_exec_count s), r_engine_flag := True\<rparr>"
    have on: "fl_user3 (r_flags s ! c)" using inn by (cases sts) (auto simp: cs cols_in_def column_in_def column_flags_def split: col_state.splits)
    have 1: "cfl_execute_node im e i (set_flags i ((r_flags s ! i)\<lparr>fl_visited := True\<rparr>) s) = Done (CT_CONTINUE, ?t)"
      using K(1) c ok f on by (simp add: S cs)
    have 2: "cols_in im cs sts ?t" by (rule cols_in_frame [OF K(5) inn]) simp
    show ?thesis using K(1) ok 2 um by (intro exI [of _ ?t] conjI 1) (simp_all add: rt_ok_def unmarked_def nth_list_update)
  next
    assume f: "r_flags s ! i = FL False False True" and sts: "sts = replicate (length cs) (Fresh 0)"
      and fr: "\<forall>ck\<in>set cs. column_flags (fst ck) (FL False False False) (FL False False False) (FL False False False) (FL False False False) s
            \<and> r_wait s ! Suc (fst ck) = None"
    have en: "list_all (\<lambda>l. l < node_count im \<and> ct_link_count (im_nodes im ! l) AND AUTO_START_BIT \<noteq> 0) (map fst cs)"
      using K(6) cols_ok_mem [OF K(5), THEN conjunct2, THEN add_lessD1] by (auto simp: list_all_iff)
    let ?F = "fold (\<lambda>l F. F[l := enabled (F ! l)]) (map fst cs) ((r_flags s)[i := FL True False True])"
    let ?t = "s\<lparr>r_flags := ?F[i := FL True True True], r_exec_count := Suc (r_exec_count s), r_engine_flag := True\<rparr>"
    have ni: "i \<notin> set (map fst cs)" using cols_ok_mem [OF K(5)] by auto
    have nth: "?F ! j = (if j = i then FL True False True else if j \<in> set (map fst cs) then FL False False True else r_flags s ! j)"
      if "j < node_count im" for j
      using that fold_enabled [of "map fst cs" "(r_flags s)[i := FL True False True]"] ni ok fr
      by (auto simp: rt_ok_def enabled_def column_flags_def)
    have len: "length ?F = node_count im" using fold_enabled [of "map fst cs" "(r_flags s)[i := FL True False True]"] ok by (simp add: rt_ok_def)
    have c3: "fl_user3 (?F[i := FL True True True] ! c)" using nth [OF c(1)] c(2) by (simp add: cs nth_list_update_neq)
    have hd: "hd (map fst cs) = c" by (simp add: cs)
    have 0: "node_init im i e (s\<lparr>r_flags := (r_flags s)[i := FL True False True], r_exec_count := Suc (r_exec_count s)\<rparr>) =
      Done (s\<lparr>r_flags := ?F[i := FL True True True], r_exec_count := Suc (r_exec_count s)\<rparr>)"
      using K(1) len nth [OF K(1)] by (simp add: S enable_links_all [OF en] del: fold_map list.map)
    have 1: "cfl_execute_node im e i (set_flags i ((r_flags s ! i)\<lparr>fl_visited := True\<rparr>) s) = Done (CT_CONTINUE, ?t)"
      using K(1,3) c ok f c3 0 hd
      by (simp add: any_enabled_hd cfl_execute_node_def Let_def cfl_engine_node_is_enabled_def cfl_engine_node_is_initialized_def node_main_def
        node_fnsD [OF K(4)] fw_tablesD [OF tb] fw_table_defs links_areD [OF K(2)] main_call_def cfl_column_main_def boolean_call_def
        set_flags_def rt_ok_def nth_list_update del: fold_map list.map fold.simps)
    define t where "t = ?t"
    have wt: "r_wait t = r_wait s" by (simp add: t_def)
    have nt: "r_flags t ! j = (if j = i then FL True True True else if j \<in> set (map fst cs) then FL False False True else r_flags s ! j)" for j
      using fold_enabled [of "map fst cs" "(r_flags s)[i := FL True False True]"] ni ok fr K(1)
      by (cases "j = i") (auto simp: t_def rt_ok_def enabled_def column_flags_def nth_list_update_neq dest: cols_ok_mem [OF K(5)])
    have 2: "cols_in im cs sts t"
      unfolding cols_in_def sts list_all2_conv_all_nth
    proof (intro conjI allI impI)
      fix n assume n: "n < length cs"
      let ?c = "fst (cs ! n)"
      have m: "cs ! n \<in> set cs" using n by simp
      have ap: "j \<in> {Suc ?c, Suc (Suc ?c), Suc (Suc (Suc ?c))} \<Longrightarrow> j \<notin> set (map fst cs) \<and> j \<noteq> i" for j
        using cols_ok_apart [OF K(5) m, of j] cols_ok_mem [OF K(5) m] by auto
      show "column_in im ?c (replicate (length cs) (Fresh 0) ! n) t"
        using fr m n ap [of "Suc ?c"] ap [of "Suc (Suc ?c)"] ap [of "Suc (Suc (Suc ?c))"] cols_ok_mem [OF K(5) m]
        by (simp add: column_in_def column_flags_def nt wt)
    qed simp
    have "unmarked im t" using um by (simp add: unmarked_def nt)
    moreover have "length (r_flags t) = length (r_flags s)" using len ok by (simp add: t_def rt_ok_def)
    ultimately show ?thesis using 2 nt ni wt unfolding 1 t_def [symmetric]
      by (intro exI [of _ t] conjI refl) (simp_all add: nt, auto simp: t_def)
  qed
qed


section \<open>An event in a knowledge base\<close>

lemma column_in_cong:
  "(\<And>j. c \<le> j \<Longrightarrow> j \<le> c + 3 \<Longrightarrow> r_flags t ! j = r_flags s ! j \<and> r_wait t ! j = r_wait s ! j) \<Longrightarrow> column_in im c st t = column_in im c st s"
  using column_in_frame [of im c st s t] column_in_frame [of im c st t s] by metis

lemma idle_kb_cong:
  assumes "kb_at im i cs" "\<forall>ck\<in>set cs. fst ck + 3 < hi"
    and eq: "\<And>j. i \<le> j \<Longrightarrow> j < hi \<Longrightarrow> r_flags t ! j = r_flags s ! j \<and> r_wait t ! j = r_wait s ! j" and "i < hi"
  shows "idle_kb im i cs sts t = idle_kb im i cs sts s"
proof -
  have in1: "column_in im (fst ck) st t = column_in im (fst ck) st s" if "ck \<in> set cs" for ck st
    using that assms(2) eq cols_ok_mem [OF kb_atD(5) [OF assms(1)] that] by (intro column_in_cong) auto
  then have "cols_in im cs sts t = cols_in im cs sts s" unfolding cols_in_def by (intro list.rel_cong refl) (simp add: in1)
  moreover have "column_flags (fst ck) a b c d t = column_flags (fst ck) a b c d s" "r_wait t ! Suc (fst ck) = r_wait s ! Suc (fst ck)"
    if "ck \<in> set cs" for ck a b c d
    using that assms(2) eq cols_ok_mem [OF kb_atD(5) [OF assms(1)] that] by (auto simp: column_flags_def)
  ultimately show ?thesis using eq [of i] assms(4) by (simp add: idle_kb_def)
qed

lemma cols_ok_len: "cols_ok im lo cs \<Longrightarrow> cs \<noteq> [] \<Longrightarrow> lo + 4 * length cs \<le> node_count im"
proof (induction cs arbitrary: lo)
  case (Cons ck cs)
  then show ?case by (cases cs) (fastforce simp: column_at_def)+
qed simp

definition ev_frame :: "nat \<Rightarrow> nat \<Rightarrow> 'u rt \<Rightarrow> 'u rt \<Rightarrow> bool" where
  "ev_frame lo hi s t \<longleftrightarrow> length (r_flags t) = length (r_flags s) \<and> length (r_wait t) = length (r_wait s)
     \<and> (\<forall>j < length (r_flags s). j < lo \<or> hi \<le> j \<longrightarrow> r_flags (clear_engine_flags t) ! j = r_flags (clear_engine_flags s) ! j \<and> r_wait t ! j = r_wait s ! j)
     \<and> r_active t = r_active s \<and> r_kb_start t = r_kb_start s \<and> r_kb_count t = r_kb_count s \<and> r_max_level t = r_max_level s
     \<and> r_event t = r_event s"

lemma clear_nth: "j < length (r_flags s) \<Longrightarrow> r_flags (clear_engine_flags s) ! j = (r_flags s ! j)\<lparr>fl_visited := False\<rparr>"
  by (simp add: clear_engine_flags_def)

lemma clear_clear: "r_flags (clear_engine_flags (clear_engine_flags s)) = r_flags (clear_engine_flags s)"
  by (simp add: clear_engine_flags_def)

lemma event_outcome:
  assumes tb: "fw_tables im" and k: "kb_at im i cs" and id: "idle_kb im i cs sts (clear_engine_flags s)"
    and ok: "length (r_flags s) = node_count im" "length (r_wait s) = node_count im" "2 \<le> r_max_level s" and um: "unmarked im s"
    and win: "r_kb_start s = i" "i + r_kb_count s \<le> node_count im" "\<forall>ck\<in>set cs. fst ck + 3 < i + r_kb_count s"
    and ev: "unat (ev_node e) = i" "ev_id e \<notin> {0, 1}"
  shows "outcome (fire_all im e (map snd (cols_step im cs e sts)) (r_user s)) (cfl_execute_event im e s)
    (\<lambda>u (b, t). b \<and> r_user t = u \<and> idle_kb im i cs (map fst (cols_step im cs e sts)) (clear_engine_flags t) \<and> unmarked im t
       \<and> ev_frame i (i + r_kb_count s) s t)"
proof -
  note K = kb_atD [OF k]
  let ?s0 = "s\<lparr>r_engine_flag := True, r_exec_count := 0, r_start_node := i\<rparr>"
  let ?s = "clear_engine_flags (?s0\<lparr>r_max_level := r_max_level s, r_stop_all := False\<rparr>)" and ?hi = "i + r_kb_count s"
  have fl: "r_flags ?s = r_flags (clear_engine_flags s)" "r_wait ?s = r_wait s" by (simp_all add: clear_engine_flags_def)
  obtain ck where "ck \<in> set cs" using K(3) by (cases cs) auto
  then have pos: "0 < r_kb_count s" using win(3) cols_ok_mem [OF K(5), of ck] by fastforce
  have id': "idle_kb im i cs sts ?s"
    using id idle_kb_cong [OF k win(3), of ?s "clear_engine_flags s"] pos by (simp add: clear_engine_flags_def)
  have ok': "rt_ok im ?s" using ok by (simp add: rt_ok_def clear_engine_flags_def)
  have um': "unmarked im ?s" using um ok by (simp add: unmarked_def clear_engine_flags_def)
  have on: "fl_user3 (r_flags s ! i)" "\<not> fl_visited (r_flags ?s ! i)"
    using id K(1) ok by (auto simp: idle_kb_def clear_nth fl) (metis ct_flags.select_convs(4) ct_flags.surjective ct_flags.update_convs(1))+
  obtain t where t: "cfl_execute_node im e i (set_flags i ((r_flags ?s ! i)\<lparr>fl_visited := True\<rparr>) ?s) = Done (CT_CONTINUE, t)"
    "r_flags t ! i = FL True True True" "cols_in im cs sts t" "r_user t = r_user ?s" "r_exec_count t \<noteq> 0" "r_engine_flag t" "unmarked im t"
    "\<forall>j. j \<noteq> i \<and> j \<notin> set (map fst cs) \<longrightarrow> r_flags t ! j = r_flags ?s ! j" "length (r_flags t) = length (r_flags ?s)" "r_wait t = r_wait ?s"
    "r_active t = r_active ?s" "r_kb_start t = r_kb_start ?s" "r_kb_count t = r_kb_count ?s" "r_max_level t = r_max_level ?s" "r_event t = r_event ?s" "r_stop_all t = r_stop_all ?s"
    using root_exec [OF tb k ok' id' ev(2) um'] by blast
  have okt: "rt_ok im t" using ok' t(9,10,14,16) by (simp add: rt_ok_def)
  obtain c k' cs' sts' st where cs: "cs = (c, k') # cs'" "sts = st # sts'" using K(3) t(3) by (cases cs; cases sts) (auto simp: cols_in_def)
  obtain N where N: "(node_count im + 1) * (MAX_CHILDREN_BUFFER + 1) = Suc N" "8 * length cs \<le> N"
    using cols_ok_len [OF K(5,3)] that [of "(node_count im + 1) * (MAX_CHILDREN_BUFFER + 1) - 1"] by (simp add: MAX_CHILDREN_BUFFER_def)
  have unv: "\<not> fl_visited (r_flags t ! hd (map fst cs))"
    using t(3) by (auto simp: cs cols_in_def dest: links_unvisited)
  have walk: "walk_loop im (cfl_execute_node im e) 3 (node_count im) (Suc N) [(i, 0, 0)] ?s =
      walk_loop im (cfl_execute_node im e) 3 (node_count im) N [(fst (hd cs), 1, 0), (i, 0, Suc 0)] t"
    using on(2) ok' K(3) unv t(1)
    by (subst walk_visit [OF K(2,1)]) (simp_all add: rt_ok_def hd_map)
  have winT: "r_kb_start t \<le> i" "r_kb_start t + r_kb_count t = ?hi"
    using t(12,13) win(1) by (simp_all add: clear_engine_flags_def)
  have vis: "fl_visited (r_flags t ! i)" using t(2) by simp
  have d0: "drop 0 (map fst cs) = map fst cs" by simp
  note W = cols_walk [OF tb K(2,1) ev(2) K(3) K(5) order.refl d0 okt t(7,3) vis winT win(2,3) N(2)]
  have u: "r_user t = r_user s" using t(4) by (simp add: clear_engine_flags_def)
  have ex: "cfl_execute_event im e s = run_bind (walk_loop im (cfl_execute_node im e) 3 (node_count im) N [(fst (hd cs), 1, 0), (i, 0, Suc 0)] t)
     (\<lambda>(r, s). let s = (if r_exec_count s = 0 \<or> \<not> r_engine_flag s then s\<lparr>r_engine_flag := False\<rparr> else s) in Done (r_engine_flag s, s))"
    using K(1) win(1) pos ev(1) on(1) walk N(1)
    by (simp add: cfl_execute_event_def cfl_engine_node_is_enabled_def ct_walker_walk_def fw_tablesD [OF tb] Let_def)
  show ?thesis unfolding ex
  proof (subst run_bind_Done_right [symmetric], rule outcome_bind [OF W [unfolded u]])
    fix w x assume x: "case x of (r, v) \<Rightarrow> r = CT_CONTINUE \<and> cols_done im cs i ?hi t (map fst (cols_step im cs e sts)) w v"
    show "outcome (Done w) (case x of (r, s) \<Rightarrow> let s = (if r_exec_count s = 0 \<or> \<not> r_engine_flag s then s\<lparr>r_engine_flag := False\<rparr> else s) in Done (r_engine_flag s, s))
     (\<lambda>u (b, t). b \<and> r_user t = u \<and> idle_kb im i cs (map fst (cols_step im cs e sts)) (clear_engine_flags t) \<and> unmarked im t
       \<and> ev_frame i (i + r_kb_count s) s t)"
    proof -
      obtain v where xv: "x = (CT_CONTINUE, v)" using x by (cases x) simp
      have v: "kb_frame i ?hi t v" "r_user v = w" "r_exec_count v \<noteq> 0" "r_engine_flag v" "unmarked im v"
        "cols_in im cs (map fst (cols_step im cs e sts)) (clear_engine_flags v)"
        using x by (simp_all add: xv cols_done_def)
      have len: "length (r_flags v) = node_count im" "length (r_wait v) = node_count im"
        using v(1) okt by (simp_all add: kb_frame_def rt_ok_def)
      have "r_flags (clear_engine_flags v) ! i = FL False True True"
        using v(1) t(2) len K(1) by (simp add: clear_nth kb_frame_def)
      then have "idle_kb im i cs (map fst (cols_step im cs e sts)) (clear_engine_flags v)" using v(6) by (simp add: idle_kb_def)
      moreover have "ev_frame i ?hi s v"
      proof -
        have "r_flags (clear_engine_flags v) ! j = r_flags (clear_engine_flags s) ! j \<and> r_wait v ! j = r_wait s ! j"
          if j: "j < length (r_flags s)" "j < i \<or> ?hi \<le> j" for j
        proof -
          have nj: "j \<noteq> i" "j \<notin> set (map fst cs)" using j(2) pos win(3) cols_ok_mem [OF K(5)] by fastforce+
          have "r_flags v ! j = r_flags t ! j" "r_wait v ! j = r_wait t ! j" using v(1) j(2) by (auto simp: kb_frame_def)
          then show ?thesis using nj t(8,10) j(1) ok(1) len by (simp add: clear_nth) (simp add: clear_engine_flags_def)
        qed
        then show ?thesis using v(1) t(9-15) by (simp add: ev_frame_def kb_frame_def clear_engine_flags_def)
      qed
      ultimately show ?thesis using v by (simp add: xv outcome_def)
    qed
  qed
qed

end
