(* ===== verification/Cfl_Run.thy ===== *)
theory Cfl_Run
  imports Cfl_Column
begin

text \<open>
  The application image of the firmware (\<^verbatim>\<open>src/app/bus_controller/kb0/incr\<close>) and a cycle of the event loop on it: the monitor
  \<open>kb0\<close> with the columns for ping and snapshot, \<open>kb1\<close> with the ADC column, \<open>kbapp\<close> with the columns for echo, originated echo,
  interlock clear and operate.  \<open>sys_run\<close> is the specification of a cycle, \<open>cycle_outcome\<close> the proof that the loop of
  \<^verbatim>\<open>cfl_runtime.c\<close> comes to it, queue included.
\<close>

unbundle bit_operations_syntax

section \<open>The image\<close>

definition fw_node :: "nat \<Rightarrow> nat \<Rightarrow> u16 \<Rightarrow> nat \<Rightarrow> nat \<Rightarrow> nat \<Rightarrow> nat \<Rightarrow> ct_node" where
  "fw_node p ls lc m a b t = \<lparr>ct_parent = p, ct_link_start = ls, ct_link_count = lc, ct_main = m, ct_init = a, ct_aux = b, ct_term = t\<rparr>"

text \<open>The nodes 31 to 53 hold the names of the functions of the knowledge bases and gaps; none of them is ever activated.\<close>

definition fw_nodes :: "ct_node list" where
  "fw_nodes =
    [fw_node 65535 3 2 3 8 2 9, fw_node 0 5 0x8003 1 6 1 7, fw_node 1 8 0 5 10 3 11, fw_node 1 8 0 2 12 0 0, fw_node 1 8 0 4 0 0 0, fw_node 0 8 0x8003 1 6
     1 7, fw_node 5 11 0 5 10 3 11, fw_node 5 11 0 2 13 0 0, fw_node 5 11 0 4 0 0 0, fw_node 65535 11 1 3 8 2 9, fw_node 9 12 0x8003 1 6 1 7, fw_node 10 15
     0 5 10 3 11, fw_node 10 15 0 2 1 0 0, fw_node 10 15 0 4 0 0 0, fw_node 65535 15 4 3 8 2 9, fw_node 14 19 0x8003 1 6 1 7, fw_node 15 22 0 5 10 3 11,
     fw_node 15 22 0 2 2 0 0, fw_node 15 22 0 4 0 0 0, fw_node 14 22 0x8003 1 6 1 7, fw_node 19 25 0 5 10 3 11, fw_node 19 25 0 2 3 0 0, fw_node 19 25 0 4
     0 0 0, fw_node 14 25 0x8003 1 6 1 7, fw_node 23 28 0 5 10 3 11, fw_node 23 28 0 2 4 0 0, fw_node 23 28 0 4 0 0 0, fw_node 14 0 0x8003 1 6 1 7, fw_node
     27 3 0 5 10 3 11, fw_node 27 3 0 2 5 0 0, fw_node 27 3 0 4 0 0 0, fw_node 65535 15 0 0 0 0 0, fw_node 65535 0 0 0 0 0 0, fw_node 65535 0 0 0 0 0 0,
     fw_node 65535 0 0 0 0 0 0, fw_node 65535 0 0 0 0 0 0, fw_node 65535 0 0 0 0 0 0, fw_node 65535 3 0 0 0 0 0, fw_node 65535 0 0 0 0 0 0, fw_node 65535 0
     0 0 0 0 0, fw_node 65535 0 0 0 0 0 0, fw_node 65535 0 0 0 0 0 0, fw_node 65535 0 0 0 0 0 0, fw_node 65535 11 0 0 0 0 0, fw_node 65535 0 0 0 0 0 0,
     fw_node 65535 0 0 0 0 0 0, fw_node 65535 0 0 0 0 0 0, fw_node 65535 0 0 0 0 0 0, fw_node 65535 0 0 0 0 0 0, fw_node 65535 0 0 0 0 0 0, fw_node 65535 0
     0 0 0 0 0, fw_node 65535 0 0 0 0 0 0, fw_node 65535 0 0 0 0 0 0, fw_node 65535 3 0 0 0 0 0]"

definition fw_links :: "nat list" where
  "fw_links = [28, 29, 30, 1, 5, 2, 3, 4, 6, 7, 8, 10, 11, 12, 13, 15, 19, 23, 27, 16, 17, 18, 20, 21, 22, 24, 25, 26]"

definition fw_kb :: "nat \<Rightarrow> nat \<Rightarrow> nat \<Rightarrow> kb_info" where
  "fw_kb start count depth = \<lparr>kb_start = start, kb_count = count, kb_max_depth = depth\<rparr>"

definition fw_kb_table :: "kb_info list" where
  "fw_kb_table = [fw_kb 0 9 2, fw_kb 9 5 2, fw_kb 14 17 2, fw_kb 31 1 0, fw_kb 37 1 0, fw_kb 43 1 0]"

text \<open>The node data of the wait nodes: the event each waits for, an hour of seconds, and the handler of the timeout.\<close>

definition fw_wait :: "nat \<Rightarrow> wait_params" where
  "fw_wait i = \<lparr>wp_timeout = 3600, wp_time_out_event = 5, wp_error_function = 14, wp_reset_flag = True,
     wp_event_id = (if i = 2 then 20 else if i = 6 then 21 else if i = 11 then 22 else if i = 16 then 23 else if i = 20 then 24
       else if i = 24 then 25 else 26), wp_event_count = 1\<rparr>"

definition fw_image :: "(nat \<Rightarrow> event_value \<Rightarrow> 'u \<Rightarrow> 'u run) \<Rightarrow> 'u image" where
  "fw_image user = \<lparr>im_nodes = fw_nodes, im_links = fw_links, im_kbs = fw_kb_table, im_mains = fw_mains, im_one_shots = fw_one_shots,
     im_booleans = fw_booleans, im_wait = fw_wait, im_user = user\<rparr>"

definition fw_columns :: "nat \<Rightarrow> (nat \<times> nat) list" where
  "fw_columns k = (if k = 0 then [(1, 12), (5, 13)] else if k = 1 then [(10, 1)] else [(15, 2), (19, 3), (23, 4), (27, 5)])"

definition fw_root :: "nat \<Rightarrow> nat" where "fw_root k = (if k = 0 then 0 else if k = 1 then 9 else 14)"

lemma fw_image_simps [simp]: "im_nodes (fw_image f) = fw_nodes" "im_links (fw_image f) = fw_links" "im_kbs (fw_image f) = fw_kb_table"
  "im_mains (fw_image f) = fw_mains" "im_one_shots (fw_image f) = fw_one_shots" "im_booleans (fw_image f) = fw_booleans"
  "im_wait (fw_image f) = fw_wait" "im_user (fw_image f) = f"
  by (simp_all add: fw_image_def)

lemma fw_node_count [simp]: "node_count (fw_image f) = 54"
  by (simp add: node_count_def fw_nodes_def)

lemma fw_tables_image: "fw_tables (fw_image f)"
  by (simp add: fw_tables_def cfl_calculate_max_level_def fw_kb_table_def fw_kb_def)

lemma fw_links_are:
  "links_are (fw_image f) 0 [1, 5]" "links_are (fw_image f) 9 [10]" "links_are (fw_image f) 14 [15, 19, 23, 27]"
  by (simp_all add: links_are_def check_links_def node_links_def link_count_def LINK_COUNT_MASK_def fw_nodes_def fw_links_def fw_node_def MAX_CHILDREN_BUFFER_def)

lemma fw_column_at:
  assumes "(c, k) \<in> {(1, 12), (5, 13), (10, 1), (15, 2), (19, 3), (23, 4), (27, 5)}"
  shows "column_at (fw_image f) c k" 
  using assms
  by (elim insertE emptyE) (simp_all add: column_at_def links_are_def check_links_def node_links_def link_count_def LINK_COUNT_MASK_def fw_nodes_def fw_links_def fw_node_def
     MAX_CHILDREN_BUFFER_def node_fns_def fw_one_shots_def wait_ok_def fw_wait_def)

lemma fw_kb_at:
  assumes "k < 3"
  shows "kb_at (fw_image f) (fw_root k) (fw_columns k)"
proof -
  have k: "k = 0 \<or> k = 1 \<or> k = 2" using assms by auto
  note C = fw_column_at
  show ?thesis using k
  proof (elim disjE)
    assume k: "k = 0"
    show ?thesis using fw_links_are(1) [of f] fw_column_at [of 1 12 f] fw_column_at [of 5 13 f]
      by (simp add: k kb_at_def fw_root_def fw_columns_def fw_wait_def)
        (simp add: node_fns_def fw_nodes_def fw_node_def AUTO_START_BIT_def)
  next
    assume k: "k = 1"
    show ?thesis using fw_links_are(2) [of f] fw_column_at [of 10 1 f]
      by (simp add: k kb_at_def fw_root_def fw_columns_def fw_wait_def)
        (simp add: node_fns_def fw_nodes_def fw_node_def AUTO_START_BIT_def)
  next
    assume k: "k = 2"
    show ?thesis using fw_links_are(3) [of f] fw_column_at [of 15 2 f] fw_column_at [of 19 3 f] fw_column_at [of 23 4 f] fw_column_at [of 27 5 f]
      by (simp add: k kb_at_def fw_root_def fw_columns_def fw_wait_def)
        (simp add: node_fns_def fw_nodes_def fw_node_def AUTO_START_BIT_def)
  qed
qed

section \<open>The idle system\<close>

definition idle_sys :: "'u image \<Rightarrow> col_state list list \<Rightarrow> 'u rt \<Rightarrow> bool" where
  "idle_sys im S s \<longleftrightarrow> length S = 3 \<and> length (r_flags s) = 54 \<and> length (r_wait s) = 54 \<and> 2 \<le> r_max_level s \<and> unmarked im s
     \<and> r_active s = [True, True, True, False, False, False]
     \<and> (\<forall>k < 3. idle_kb im (fw_root k) (fw_columns k) (S ! k) (clear_engine_flags s))"

definition kb_of :: "u16 \<Rightarrow> nat" where "kb_of n = (if n = 0 then 0 else if n = 9 then 1 else 2)"

definition event_ok :: "event \<Rightarrow> bool" where
  "event_ok e \<longleftrightarrow> ev_node e \<in> {0, 9, 14} \<and> ev_id e \<notin> {CFL_INIT_EVENT, CFL_TERMINATE_EVENT, CFL_TERMINATE_SYSTEM_EVENT, CFL_STOP_START_TESTS_EVENT}"

lemma idle_kb_eq:
  assumes "r_flags t = r_flags s" "r_wait t = r_wait s"
  shows "idle_kb im i cs sts t = idle_kb im i cs sts s"
proof -
  have "column_in im c st t = column_in im c st s" for c st using assms by (intro column_in_cong) simp
  then show ?thesis using assms by (simp add: idle_kb_def cols_in_def column_flags_def)
qed

lemma idle_sys_fields: "idle_sys im S (kb_window im k s) = idle_sys im S s" "idle_sys im S (s\<lparr>r_event := e\<rparr>) = idle_sys im S s"
proof -
  have "idle_kb im i cs sts (clear_engine_flags (kb_window im k s)) = idle_kb im i cs sts (clear_engine_flags s)"
    "idle_kb im i cs sts (clear_engine_flags (s\<lparr>r_event := e\<rparr>)) = idle_kb im i cs sts (clear_engine_flags s)" for i cs sts
    by (rule idle_kb_eq; simp add: clear_engine_flags_def kb_window_def)+
  then show "idle_sys im S (kb_window im k s) = idle_sys im S s" "idle_sys im S (s\<lparr>r_event := e\<rparr>) = idle_sys im S s"
    by (simp_all add: idle_sys_def kb_window_def unmarked_def)
qed

definition kb_fires :: "'u image \<Rightarrow> event \<Rightarrow> col_state list list \<Rightarrow> (col_state \<times> nat option) list" where
  "kb_fires im e S = cols_step im (fw_columns (kb_of (ev_node e))) e (S ! kb_of (ev_node e))"

definition sys_step :: "'u image \<Rightarrow> event \<Rightarrow> col_state list list \<Rightarrow> 'u \<Rightarrow> (col_state list list \<times> 'u) run" where
  "sys_step im e S u = run_bind (fire_all im e (map snd (kb_fires im e S)) u)
     (\<lambda>u. Done (S[kb_of (ev_node e) := map fst (kb_fires im e S)], u))"

lemma fw_window: "k < 3 \<Longrightarrow> kb_start (fw_kb_table ! k) = fw_root k \<and> 0 < kb_count (fw_kb_table ! k) \<and> fw_root k + kb_count (fw_kb_table ! k) \<le> 31
    \<and> (\<forall>ck\<in>set (fw_columns k). fst ck + 3 < fw_root k + kb_count (fw_kb_table ! k))"
  by (auto simp: fw_kb_table_def fw_kb_def fw_root_def fw_columns_def numeral_3_eq_3 less_Suc_eq)

lemma fw_apart: "k < 3 \<Longrightarrow> k' < 3 \<Longrightarrow> k \<noteq> k' \<Longrightarrow> fw_root k' \<le> j \<Longrightarrow> j < fw_root k' + kb_count (fw_kb_table ! k')
    \<Longrightarrow> j < fw_root k \<or> fw_root k + kb_count (fw_kb_table ! k) \<le> j"
  by (auto simp: fw_kb_table_def fw_kb_def fw_root_def numeral_3_eq_3 less_Suc_eq)

lemma fw_owner:
  assumes "r_active s = [True, True, True, False, False, False]" "n \<in> {0, 9, 14}"
  shows "cfl_find_owning_active_kb (fw_image f) (unat (n :: u16)) s = Some (kb_of n)" "unat n = fw_root (kb_of n)" "kb_of n < 3"
  using assms(2) by (auto simp: cfl_find_owning_active_kb_def fw_kb_table_def fw_kb_def assms(1) upt_rec kb_of_def fw_root_def)

lemma route_outcome:
  assumes sys: "idle_sys (fw_image f) S s" and e: "event_ok e"
  shows "outcome (sys_step (fw_image f) e S (r_user s)) (route_event (fw_image f) e s)
    (\<lambda>(S, u) t. r_user t = u \<and> idle_sys (fw_image f) S t)"
proof -
  let ?im = "fw_image f" and ?k = "kb_of (ev_node e)"
  let ?i = "fw_root ?k" and ?w = "kb_window ?im ?k s"
  have act: "r_active s = [True, True, True, False, False, False]" using sys by (simp add: idle_sys_def)
  have node: "ev_node e \<in> {0, 9, 14}" and id: "ev_id e \<notin> {0, 1}" using e by (auto simp: event_ok_def CFL_INIT_EVENT_def CFL_TERMINATE_EVENT_def)
  note O = fw_owner [OF act node]
  note W = fw_window [OF O(3)]
  have sw: "idle_sys ?im S ?w" using sys by (simp add: idle_sys_fields)
  have S: "length S = 3" using sys by (simp add: idle_sys_def)
  have idle: "idle_kb ?im ?i (fw_columns ?k) (S ! ?k) (clear_engine_flags ?w)" using sw O(3) by (simp add: idle_sys_def)
  have facts: "length (r_flags ?w) = node_count ?im" "length (r_wait ?w) = node_count ?im" "2 \<le> r_max_level ?w" "unmarked ?im ?w"
    "r_kb_start ?w = ?i" "?i + r_kb_count ?w \<le> node_count ?im" "\<forall>ck\<in>set (fw_columns ?k). fst ck + 3 < ?i + r_kb_count ?w"
    using sw W by (simp_all add: idle_sys_def kb_window_def)
  note E = event_outcome [OF fw_tables_image fw_kb_at [OF O(3)] idle facts O(2) id, folded kb_fires_def]
  have r: "route_event ?im e s = run_bind (cfl_execute_event ?im e ?w) (\<lambda>(ok, s).
       if ok then Done s else run_bind (cfl_delete_test_by_index ?im ?k s) (\<lambda>(b, s). Done s))"
    by (simp add: route_event_def O(1))
  show ?thesis unfolding sys_step_def r
  proof (rule outcome_bind)
    show "outcome (fire_all ?im e (map snd (kb_fires ?im e S)) (r_user s)) (cfl_execute_event ?im e ?w)
      (\<lambda>u (b, t). b \<and> r_user t = u \<and> idle_kb ?im ?i (fw_columns ?k) (map fst (kb_fires ?im e S)) (clear_engine_flags t) \<and> unmarked ?im t
       \<and> ev_frame ?i (?i + r_kb_count ?w) ?w t)" using E by (simp add: kb_window_def)
  next
    fix u x assume "case x of (b, t) \<Rightarrow> b \<and> r_user t = u \<and> idle_kb ?im ?i (fw_columns ?k) (map fst (kb_fires ?im e S)) (clear_engine_flags t)
      \<and> unmarked ?im t \<and> ev_frame ?i (?i + r_kb_count ?w) ?w t"
    then obtain t where x: "x = (True, t)" "r_user t = u" "idle_kb ?im ?i (fw_columns ?k) (map fst (kb_fires ?im e S)) (clear_engine_flags t)"
      "unmarked ?im t" "ev_frame ?i (?i + r_kb_count ?w) ?w t" by (cases x) auto
    have "idle_kb ?im (fw_root k') (fw_columns k') (S[?k := map fst (kb_fires ?im e S)] ! k') (clear_engine_flags t)" if k': "k' < 3" for k'
    proof (cases "k' = ?k")
      case True
      then show ?thesis using x(3) S k' by simp
    next
      case False
      note W' = fw_window [OF k']
      have "idle_kb ?im (fw_root k') (fw_columns k') (S ! k') (clear_engine_flags t)
          = idle_kb ?im (fw_root k') (fw_columns k') (S ! k') (clear_engine_flags ?w)"
      proof (rule idle_kb_cong [OF fw_kb_at [OF k'], where hi = "fw_root k' + kb_count (fw_kb_table ! k')"])
        fix j assume j: "fw_root k' \<le> j" "j < fw_root k' + kb_count (fw_kb_table ! k')"
        then have "j < ?i \<or> ?i + r_kb_count ?w \<le> j" using fw_apart [OF O(3) k' False [symmetric]] by (simp add: kb_window_def)
        moreover have "j < length (r_flags ?w)" using j W' facts(1) by simp
        ultimately have "r_flags (clear_engine_flags t) ! j = r_flags (clear_engine_flags ?w) ! j \<and> r_wait t ! j = r_wait ?w ! j"
          using x(5) unfolding ev_frame_def by blast
        then show "r_flags (clear_engine_flags t) ! j = r_flags (clear_engine_flags ?w) ! j \<and> r_wait (clear_engine_flags t) ! j = r_wait (clear_engine_flags ?w) ! j"
          by (simp add: clear_engine_flags_def)
      qed (use W' in auto)
      then show ?thesis using sw k' False by (simp add: idle_sys_def)
    qed
    then have "idle_sys ?im (S[?k := map fst (kb_fires ?im e S)]) t"
      using x(4,5) sw by (simp add: idle_sys_def ev_frame_def)
    then show "outcome (Done (S[?k := map fst (kb_fires ?im e S)], u))
        (case x of (ok, s) \<Rightarrow> if ok then Done s else run_bind (cfl_delete_test_by_index ?im ?k s) (\<lambda>(b, s). Done s))
        (\<lambda>(S, u) t. r_user t = u \<and> idle_sys ?im S t)" using x by (simp add: outcome_def)
  qed
qed


section \<open>The queue in a cycle\<close>

definition evq_caps :: "event_queue \<Rightarrow> nat \<Rightarrow> nat \<Rightarrow> bool" where
  "evq_caps q hi lo \<longleftrightarrow> unat (e_cap (q_high q)) = hi \<and> unat (e_cap (q_low q)) = lo"

lemma room_caps: "evq_caps q hi lo \<Longrightarrow> evq_room CFL_EVENT_PRIORITY_HIGH q = hi - 1 - length (evq_high q)
    \<and> evq_room CFL_EVENT_PRIORITY_LOW q = lo - 1 - length (evq_low q)"
  by (simp add: evq_caps_def evq_room_def evring_room_def evq_high_def evq_low_def evring_length CFL_EVENT_PRIORITY_HIGH_def CFL_EVENT_PRIORITY_LOW_def)

lemma pop_caps: "evq_caps (snd (cfl_pop_event q)) hi lo = evq_caps q hi lo"
  by (simp add: cfl_pop_event_def evq_caps_def ring_pop_def split_beta)

lemma send_caps: "cfl_send_event p n t m i d q = Done q' \<Longrightarrow> evq_caps q' hi lo = evq_caps q hi lo"
  by (auto simp: cfl_send_event_def evq_caps_def ring_push_def Let_def split: if_splits)

primrec sys_run :: "'u image \<Rightarrow> event list \<Rightarrow> col_state list list \<Rightarrow> 'u \<Rightarrow> (col_state list list \<times> 'u) run" where
  "sys_run im [] S u = Done (S, u)"
| "sys_run im (e # es) S u = run_bind (sys_step im e S u) (\<lambda>(S, u). sys_run im es S u)"

lemma sys_run_append: "sys_run im (es @ fs) S u = run_bind (sys_run im es S u) (\<lambda>(S, u). sys_run im fs S u)"
  by (induction es arbitrary: S u) (auto intro!: arg_cong [where f = "run_bind _"] simp: fun_eq_iff)

lemma drain_outcome:
  assumes "evq_inv q" "evq_caps q hi lo" "idle_sys (fw_image f) S s" "\<forall>e\<in>set (evq_high q @ evq_low q). event_ok e"
    "n = length (evq_high q @ evq_low q)"
  shows "outcome (sys_run (fw_image f) (evq_high q @ evq_low q) S (r_user s)) (drain_queue (fw_image f) n q s)
    (\<lambda>(S, u) (stop, q', t). \<not> stop \<and> evq_inv q' \<and> evq_caps q' hi lo \<and> q_id q' = q_id q \<and> evq_high q' = [] \<and> evq_low q' = [] \<and> r_user t = u
       \<and> idle_sys (fw_image f) S t)"
  using assms
proof (induction n arbitrary: q S s)
  case 0
  then show ?case by (simp add: outcome_def)
next
  case (Suc n)
  obtain o' q' where p: "cfl_pop_event q = (o', q')" by (cases "cfl_pop_event q")
  have P: "case o' of Some e \<Rightarrow> evq_inv q' \<and> q_id q' = q_id q \<and> evq_high q @ evq_low q = e # (evq_high q' @ evq_low q')
      | None \<Rightarrow> evq_high q @ evq_low q = []"
    using pop_event_spec [OF Suc.prems(1)] p by (auto split: option.splits if_splits)
  obtain e where e: "o' = Some e" using P Suc.prems(5) by (cases o') auto
  have q': "evq_inv q'" "q_id q' = q_id q" "evq_high q @ evq_low q = e # (evq_high q' @ evq_low q')" "evq_caps q' hi lo"
    using P e pop_caps [of q hi lo] Suc.prems(2) p by simp_all
  have ok: "event_ok e" "\<forall>e\<in>set (evq_high q' @ evq_low q'). event_ok e" "n = length (evq_high q' @ evq_low q')"
    using Suc.prems(4,5) q'(3) by simp_all
  let ?s = "s\<lparr>r_event := e\<rparr>"
  have sys: "idle_sys (fw_image f) S ?s" using Suc.prems(3) by (simp add: idle_sys_fields)
  have d: "drain_queue (fw_image f) (Suc n) q s = run_bind (route_event (fw_image f) e ?s) (drain_queue (fw_image f) n q')"
    using ok(1) by (simp add: p e event_ok_def)
  have u: "r_user ?s = r_user s" by simp
  show ?case unfolding d q'(3) sys_run.simps
  proof (rule outcome_bind [OF route_outcome [OF sys ok(1), unfolded u]])
    fix Su t assume t: "(case Su of (S, u) \<Rightarrow> \<lambda>t. r_user t = u \<and> idle_sys (fw_image f) S t) t"
    then obtain S' where S': "Su = (S', r_user t)" "idle_sys (fw_image f) S' t" by (cases Su) auto
    show "outcome (case Su of (S, u) \<Rightarrow> sys_run (fw_image f) (evq_high q' @ evq_low q') S u) (drain_queue (fw_image f) n q' t)
     (\<lambda>(S, u) (stop, q', t). \<not> stop \<and> evq_inv q' \<and> evq_caps q' hi lo \<and> q_id q' = q_id q \<and> evq_high q' = [] \<and> evq_low q' = [] \<and> r_user t = u
       \<and> idle_sys (fw_image f) S t)"
      using Suc.IH [OF q'(1,4) S'(2) ok(2,3)] by (simp add: S'(1) q'(2))
  qed
qed


definition tick_event :: "event_queue \<Rightarrow> nat \<Rightarrow> u16 \<Rightarrow> event" where
  "tick_event q k eid = the_event (of_nat (fw_root k)) CFL_EVENT_TYPE_PTR False eid V_tick q"

definition tick_events :: "event_queue \<Rightarrow> u32 \<Rightarrow> nat \<Rightarrow> event list" where
  "tick_events q changed k = tick_event q k CFL_TIMER_EVENT # (if changed = CFL_CHANGED_SECOND then [tick_event q k CFL_SECOND_EVENT] else [])"

lemma tick_events_ok: "k < 3 \<Longrightarrow> e \<in> set (tick_events q changed k) \<Longrightarrow> event_ok e"
  by (auto simp: tick_events_def tick_event_def the_event_def event_ok_def fw_root_def CFL_INIT_EVENT_def CFL_TERMINATE_EVENT_def
      CFL_TERMINATE_SYSTEM_EVENT_def CFL_STOP_START_TESTS_EVENT_def CFL_TIMER_EVENT_def CFL_SECOND_EVENT_def split: if_splits)

lemma tick_events_id: "q_id q = q_id q' \<Longrightarrow> tick_events q = tick_events q'"
  by (simp add: fun_eq_iff tick_events_def tick_event_def the_event_def)

lemma send_tick:
  assumes "evq_inv q" "evq_caps q hi lo" "length (evq_low q) + 1 < lo" "r_active s ! k" "k < 3"
    and on: "fl_user3 (r_flags s ! fw_root k)"
  shows "\<exists>q'. cfl_send_system_event_to_test (fw_image f) k eid s q = Done q' \<and> evq_inv q' \<and> evq_caps q' hi lo \<and> q_id q' = q_id q
    \<and> evq_high q' = evq_high q \<and> evq_low q' = evq_low q @ [tick_event q k eid]"
proof -
  have st: "kb_start (fw_kb_table ! k) = fw_root k" "fw_root k < 54" using fw_window [OF assms(5)] by simp_all
  have "evq_room CFL_EVENT_PRIORITY_LOW q \<noteq> 0" using room_caps [OF assms(2)] assms(3) by simp
  then obtain q' where q': "cfl_send_event CFL_EVENT_PRIORITY_LOW (of_nat (fw_root k)) CFL_EVENT_TYPE_PTR False eid V_tick q = Done q'"
    "evq_inv q'" "q_id q' = q_id q" "evq_high q' = evq_high q" "evq_low q' = evq_low q @ [tick_event q k eid]"
    using send_event_spec [OF assms(1), of CFL_EVENT_PRIORITY_LOW CFL_EVENT_TYPE_PTR "of_nat (fw_root k)" False eid V_tick]
    by (auto simp: CFL_EVENT_TYPE_PTR_def CFL_EVENT_PRIORITY_LOW_def CFL_EVENT_PRIORITY_HIGH_def tick_event_def split: run.splits)
  then show ?thesis using assms(4) on st send_caps [OF q'(1)] assms(2)
    by (simp add: cfl_send_system_event_to_test_def cfl_engine_node_is_enabled_def)
qed

lemma idle_root_on: "idle_sys (fw_image f) S s \<Longrightarrow> k < 3 \<Longrightarrow> fl_user3 (r_flags s ! fw_root k) \<and> fw_root k < 54"
proof -
  assume s: "idle_sys (fw_image f) S s" and k: "k < 3"
  have r: "fw_root k < 54" by (simp add: fw_root_def)
  have "fl_user3 (r_flags (clear_engine_flags s) ! fw_root k)" using s k by (auto simp: idle_sys_def idle_kb_def)
  then show ?thesis using s r by (simp add: clear_engine_flags_def idle_sys_def)
qed

lemma generate_spec:
  assumes "evq_inv q" "evq_caps q hi lo" "length (evq_low q) + 2 < lo" "k < 3" "idle_sys (fw_image f) S s" "changed \<in> {0, CFL_CHANGED_SECOND}"
  shows "\<exists>q'. cfl_generate_timer_events (fw_image f) k changed s q = Done q' \<and> evq_inv q' \<and> evq_caps q' hi lo \<and> q_id q' = q_id q
    \<and> evq_high q' = evq_high q \<and> evq_low q' = evq_low q @ tick_events q changed k"
proof -
  have act: "r_active s ! k" using assms(4,5) by (auto simp: idle_sys_def numeral_3_eq_3 less_Suc_eq)
  note on = idle_root_on [OF assms(5,4), THEN conjunct1]
  obtain q1 where q1: "cfl_send_system_event_to_test (fw_image f) k CFL_TIMER_EVENT s q = Done q1" "evq_inv q1" "evq_caps q1 hi lo" "q_id q1 = q_id q"
    "evq_high q1 = evq_high q" "evq_low q1 = evq_low q @ [tick_event q k CFL_TIMER_EVENT]"
    using send_tick [OF assms(1,2) _ act assms(4) on, of f CFL_TIMER_EVENT] assms(3) by auto
  have id: "tick_event q1 = tick_event q" using q1(4) by (simp add: fun_eq_iff tick_event_def the_event_def)
  obtain q2 where q2: "cfl_send_system_event_to_test (fw_image f) k CFL_SECOND_EVENT s q1 = Done q2" "evq_inv q2" "evq_caps q2 hi lo" "q_id q2 = q_id q"
    "evq_high q2 = evq_high q" "evq_low q2 = evq_low q @ [tick_event q k CFL_TIMER_EVENT, tick_event q k CFL_SECOND_EVENT]"
    using send_tick [OF q1(2,3) _ act assms(4) on, of f CFL_SECOND_EVENT] assms(3) q1(4-6) id by auto
  note B = cfl_generate_timer_events_def changed_events_def CFL_CHANGED_SECOND_def CFL_CHANGED_MINUTE_def CFL_CHANGED_HOUR_def CFL_CHANGED_DAY_def
      CFL_CHANGED_DOW_def CFL_CHANGED_DOY_def tick_events_def
  from assms(6) show ?thesis
  proof (elim insertE emptyE)
    assume "changed = 0"
    then show ?thesis using q1 by (simp add: B)
  next
    assume "changed = CFL_CHANGED_SECOND"
    then show ?thesis using q1 q2 by (simp add: B)
  qed
qed

lemma pass_outcome:
  assumes "evq_inv q" "evq_caps q hi lo" "length (evq_low q) + 2 < lo" "k < 3" "idle_sys (fw_image f) S s" "changed \<in> {0, CFL_CHANGED_SECOND}"
    "\<forall>e\<in>set (evq_high q @ evq_low q). event_ok e"
  shows "outcome (sys_run (fw_image f) (evq_high q @ evq_low q @ tick_events q changed k) S (r_user s)) (kb_pass (fw_image f) changed k q s)
    (\<lambda>(S, u) (stop, q', t). \<not> stop \<and> evq_inv q' \<and> evq_caps q' hi lo \<and> q_id q' = q_id q \<and> evq_high q' = [] \<and> evq_low q' = [] \<and> r_user t = u
       \<and> idle_sys (fw_image f) S t)"
proof -
  let ?w = "kb_window (fw_image f) k s"
  have w: "idle_sys (fw_image f) S ?w" "r_user ?w = r_user s" using assms(5) by (simp_all add: idle_sys_fields) (simp add: kb_window_def)
  obtain q1 where q1: "cfl_generate_timer_events (fw_image f) k changed ?w q = Done q1" "evq_inv q1" "evq_caps q1 hi lo" "q_id q1 = q_id q"
    "evq_high q1 = evq_high q" "evq_low q1 = evq_low q @ tick_events q changed k"
    using generate_spec [OF assms(1-4) w(1) assms(6)] by blast
  have ev: "\<forall>e\<in>set (evq_high q1 @ evq_low q1). event_ok e" using assms(7) tick_events_ok [OF assms(4)] by (auto simp: q1(5,6))
  have n: "cfl_total_event_count q1 = length (evq_high q1 @ evq_low q1)" by (simp add: total_count)
  note D = drain_outcome [OF q1(2,3) w(1) ev n]
  have st: "kb_start (im_kbs (fw_image f) ! k) = fw_root k" using fw_window [OF assms(4)] by simp
  have p: "kb_pass (fw_image f) changed k q s = run_bind (drain_queue (fw_image f) (cfl_total_event_count q1) q1 ?w) (\<lambda>(stop, q, s).
       if stop then Done (True, q, s)
       else run_bind (cfl_engine_node_is_enabled (fw_image f) (fw_root k) s) (\<lambda>on.
         if on then Done (False, q, s)
         else run_bind (cfl_delete_test_by_index (fw_image f) k s) (\<lambda>(b, s). Done (False, q, s))))"
    unfolding kb_pass_def Let_def q1(1) run_bind.simps st by (rule refl)
  show ?thesis unfolding p
  proof (subst run_bind_Done_right [symmetric], rule outcome_bind [OF D [unfolded q1(5,6) w(2)]])
    fix Su x
    assume x: "(case Su of (S, u) \<Rightarrow> \<lambda>(stop, q', t). \<not> stop \<and> evq_inv q' \<and> evq_caps q' hi lo \<and> q_id q' = q_id q1 \<and> evq_high q' = [] \<and> evq_low q' = []
      \<and> r_user t = u \<and> idle_sys (fw_image f) S t) x"
    obtain S' u where Su: "Su = (S', u)" by (cases Su)
    obtain q' t where xt: "x = (False, q', t)" using x by (cases x) (auto simp: Su)
    have i: "idle_sys (fw_image f) S' t" using x by (simp add: Su xt)
    show "outcome (Done Su) (case x of (stop, q, s) \<Rightarrow>
       if stop then Done (True, q, s)
       else run_bind (cfl_engine_node_is_enabled (fw_image f) (fw_root k) s) (\<lambda>on.
         if on then Done (False, q, s)
         else run_bind (cfl_delete_test_by_index (fw_image f) k s) (\<lambda>(b, s). Done (False, q, s))))
    (\<lambda>(S, u) (stop, q', t). \<not> stop \<and> evq_inv q' \<and> evq_caps q' hi lo \<and> q_id q' = q_id q \<and> evq_high q' = [] \<and> evq_low q' = [] \<and> r_user t = u
       \<and> idle_sys (fw_image f) S t)"
      using x idle_root_on [OF i assms(4)] by (simp add: Su xt outcome_def cfl_engine_node_is_enabled_def q1(4))
  qed
qed


definition cycle_events :: "event_queue \<Rightarrow> u32 \<Rightarrow> event list" where
  "cycle_events q changed = evq_high q @ evq_low q @ tick_events q changed 0 @ tick_events q changed 1 @ tick_events q changed 2"

definition cycle_done :: "'u image \<Rightarrow> nat \<Rightarrow> nat \<Rightarrow> event_queue \<Rightarrow> col_state list list \<times> 'u \<Rightarrow> bool \<times> event_queue \<times> 'u rt \<Rightarrow> bool" where
  "cycle_done im hi lo q Su x \<longleftrightarrow> (case (Su, x) of ((S, u), (stop, q', t)) \<Rightarrow> \<not> stop \<and> evq_inv q' \<and> evq_caps q' hi lo \<and> q_id q' = q_id q
     \<and> evq_high q' = [] \<and> evq_low q' = [] \<and> r_user t = u \<and> idle_sys im S t)"

lemma pass_outcome':
  assumes "evq_inv q" "evq_caps q hi lo" "length (evq_low q) + 2 < lo" "k < 3" "idle_sys (fw_image f) S s" "changed \<in> {0, CFL_CHANGED_SECOND}"
    "\<forall>e\<in>set (evq_high q @ evq_low q). event_ok e"
  shows "outcome (sys_run (fw_image f) (evq_high q @ evq_low q @ tick_events q changed k) S (r_user s)) (kb_pass (fw_image f) changed k q s)
    (cycle_done (fw_image f) hi lo q)"
  using pass_outcome [OF assms] by (rule outcome_mono) (auto simp: cycle_done_def)

lemma cycle_rest:
  assumes "2 < lo" "changed \<in> {0, CFL_CHANGED_SECOND}" "list_all (\<lambda>k. k < 6) ks"
    "cycle_done (fw_image f) hi lo q0 (S, u) (False, q, s)"
  shows "outcome (sys_run (fw_image f) (concat (map (tick_events q0 changed) (filter (\<lambda>k. k < 3) ks))) S u) (cfl_cycle (fw_image f) changed ks q s)
    (cycle_done (fw_image f) hi lo q0)"
  using assms(3,4)
proof (induction ks arbitrary: S u q s)
  case (Cons k ks)
  from Cons.prems have d: "evq_inv q" "evq_caps q hi lo" "q_id q = q_id q0" "evq_high q = []" "evq_low q = []" "r_user s = u" "idle_sys (fw_image f) S s"
    by (simp_all add: cycle_done_def)
  have k: "k = 0 \<or> k = 1 \<or> k = 2 \<or> k = 3 \<or> k = 4 \<or> k = 5" using Cons.prems(1) by auto
  have act: "r_active s ! k \<longleftrightarrow> k < 3" using d(7) k by (auto simp: idle_sys_def)
  show ?case
  proof (cases "k < 3")
    case True
    have P: "outcome (sys_run (fw_image f) (tick_events q0 changed k) S u) (kb_pass (fw_image f) changed k q s) (cycle_done (fw_image f) hi lo q)"
      using pass_outcome' [OF d(1,2) _ True d(7) assms(2)] d assms(1) tick_events_id [OF d(3)] by simp
    show ?thesis using True act unfolding cfl_cycle.simps
      apply (simp add: sys_run_append)
    proof (rule outcome_bind [OF P])
      fix Su x assume x: "cycle_done (fw_image f) hi lo q Su x"
      obtain S' u' where Su: "Su = (S', u')" by (cases Su)
      obtain q' t where xt: "x = (False, q', t)" using x by (cases x) (auto simp: Su cycle_done_def)
      have "cycle_done (fw_image f) hi lo q0 (S', u') (False, q', t)" using x d(3) by (simp add: Su xt cycle_done_def)
      from Cons.IH [OF _ this] Cons.prems(1)
      show "outcome (case Su of (S, u) \<Rightarrow> sys_run (fw_image f) (concat (map (tick_events q0 changed) (filter (\<lambda>k. k < 3) ks))) S u)
          (case x of (stop, q, s) \<Rightarrow> if stop then Done (True, q, s) else cfl_cycle (fw_image f) changed ks q s) (cycle_done (fw_image f) hi lo q0)"
        by (simp add: Su xt)
    qed
  next
    case False
    then show ?thesis using Cons act by simp
  qed
qed (simp add: outcome_def)

lemma cycle_outcome:
  assumes "evq_inv q" "evq_caps q hi lo" "length (evq_low q) + 2 < lo" "idle_sys (fw_image f) S s" "changed \<in> {0, CFL_CHANGED_SECOND}"
    "\<forall>e\<in>set (evq_high q @ evq_low q). event_ok e"
  shows "outcome (sys_run (fw_image f) (cycle_events q changed) S (r_user s)) (cfl_cycle (fw_image f) changed [0..<6] q s)
    (cycle_done (fw_image f) hi lo q)"
proof -
  have ks: "[0..<6] = 0 # [1..<6]" by (simp add: upt_rec)
  have act: "r_active s ! 0" using assms(4) by (simp add: idle_sys_def)
  have fil: "concat (map (tick_events q changed) (filter (\<lambda>k. k < 3) [1..<6])) = tick_events q changed 1 @ tick_events q changed 2"
    by (simp add: upt_rec numeral_2_eq_2)
  have ev: "cycle_events q changed = (evq_high q @ evq_low q @ tick_events q changed 0) @ concat (map (tick_events q changed) (filter (\<lambda>k. k < 3) [1..<6]))"
    unfolding fil by (simp add: cycle_events_def)
  have c: "cfl_cycle (fw_image f) changed [0..<6] q s =
    run_bind (kb_pass (fw_image f) changed 0 q s) (\<lambda>(stop, q, s). if stop then Done (True, q, s) else cfl_cycle (fw_image f) changed [1..<6] q s)"
    unfolding ks cfl_cycle.simps using act by (simp only: not_True_eq_False if_False)
  show ?thesis unfolding ev c sys_run_append [of _ "evq_high q @ evq_low q @ tick_events q changed 0"]
  proof (rule outcome_bind [OF pass_outcome' [OF assms(1-3) _ assms(4-6), of 0]])
    fix Su x assume x: "cycle_done (fw_image f) hi lo q Su x"
    obtain S' u' where Su: "Su = (S', u')" by (cases Su)
    obtain q' t where xt: "x = (False, q', t)" using x by (cases x) (auto simp: Su cycle_done_def)
    have lo: "2 < lo" using assms(3) by simp
    have lt: "list_all (\<lambda>k. k < 6) [1..<6]" by (simp add: list_all_iff)
    from cycle_rest [OF lo assms(5) lt] x
    show "outcome (case Su of (S, u) \<Rightarrow> sys_run (fw_image f) (concat (map (tick_events q changed) (filter (\<lambda>k. k < 3) [1..<6]))) S u)
          (case x of (stop, q, s) \<Rightarrow> if stop then Done (True, q, s) else cfl_cycle (fw_image f) changed [1..<6] q s) (cycle_done (fw_image f) hi lo q)"
      by (simp add: Su xt)
  qed simp
qed


section \<open>Commands\<close>

text \<open>Which event, sent to which root, is whose column's.\<close>

definition fw_commands :: "(u16 \<times> u16 \<times> nat) list" where
  "fw_commands = [(0, 20, 12), (0, 21, 13), (9, 22, 1), (14, 23, 2), (14, 24, 3), (14, 25, 4), (14, 26, 5)]"

definition is_command :: "event \<Rightarrow> bool" where
  "is_command e \<longleftrightarrow> (ev_node e, ev_id e) \<in> set (map (\<lambda>(n, i, h). (n, i)) fw_commands)"

definition handler_of :: "event \<Rightarrow> nat" where
  "handler_of e = (if ev_id e = 20 then 12 else if ev_id e = 21 then 13 else unat (ev_id e) - 21)"

primrec run_handlers :: "(nat \<Rightarrow> event_value \<Rightarrow> 'u \<Rightarrow> 'u run) \<Rightarrow> event list \<Rightarrow> 'u \<Rightarrow> 'u run" where
  "run_handlers f [] u = Done u"
| "run_handlers f (e # es) u = run_bind (f (handler_of e) (ev_data e) u) (run_handlers f es)"

definition counts :: "col_state list list \<Rightarrow> u32 list list" where "counts S = map (map col_count) S"

definition sys_shape :: "col_state list list \<Rightarrow> bool" where "sys_shape S \<longleftrightarrow> map length S = [2, 1, 4]"

lemma idle_shape: "idle_sys (fw_image f) S s \<Longrightarrow> sys_shape S"
proof -
  assume s: "idle_sys (fw_image f) S s"
  then obtain x y z where S: "S = [x, y, z]" by (auto simp: idle_sys_def length_Suc_conv numeral_3_eq_3)
  have "length (S ! k) = length (fw_columns k)" if "k < 3" for k
  proof -
    have "idle_kb (fw_image f) (fw_root k) (fw_columns k) (S ! k) (clear_engine_flags s)" using s that by (simp add: idle_sys_def)
    then show ?thesis by (auto simp: idle_kb_def cols_in_def dest: list_all2_lengthD)
  qed
  from this [of 0] this [of 1] this [of 2] show ?thesis by (simp add: S sys_shape_def fw_columns_def)
qed

definition step_S :: "'u image \<Rightarrow> event \<Rightarrow> col_state list list \<Rightarrow> col_state list list" where
  "step_S im e S = S[kb_of (ev_node e) := map fst (kb_fires im e S)]"

lemma fw_step_fires:
  assumes "length cs = length sts"
  shows "(ev_id e = 5 \<longrightarrow> (\<forall>st\<in>set sts. col_count st + 1 < 3600)) \<longrightarrow> map snd (cols_step (fw_image f) cs e sts) =
      map (\<lambda>ck. if ucast (ev_id e) = wp_event_id (fw_wait (Suc (fst ck))) then Some (snd ck) else None) cs"
    "ev_id e = 5 \<longrightarrow> set (map snd (cols_step (fw_image f) cs e sts)) \<subseteq> {None, Some 14}"
    "map col_count (map fst (cols_step (fw_image f) cs e sts)) = map (\<lambda>st. if ev_id e = 5 then col_count st + 1 else col_count st) sts"
proof -
  have F: "wp_event_id (fw_wait i) \<noteq> 5" "wp_timeout (fw_wait i) = 3600" for i by (simp_all add: fw_wait_def)
  show "(ev_id e = 5 \<longrightarrow> (\<forall>st\<in>set sts. col_count st + 1 < 3600)) \<longrightarrow> map snd (cols_step (fw_image f) cs e sts) =
      map (\<lambda>ck. if ucast (ev_id e) = wp_event_id (fw_wait (Suc (fst ck))) then Some (snd ck) else None) cs"
    using assms by (induction cs sts rule: list_induct2) (auto simp: F cols_step_def col_step_def Let_def not_le)
  have "ev_id e = 5 \<longrightarrow> ucast (ev_id e) \<noteq> wp_event_id (fw_wait i)" for i using F(1) [of i] by auto
  note no = this
  show "ev_id e = 5 \<longrightarrow> set (map snd (cols_step (fw_image f) cs e sts)) \<subseteq> {None, Some 14}"
    using assms by (induction cs sts rule: list_induct2) (use no in \<open>auto simp: cols_step_def col_step_def Let_def\<close>)
  show "map col_count (map fst (cols_step (fw_image f) cs e sts)) = map (\<lambda>st. if ev_id e = 5 then col_count st + 1 else col_count st) sts"
    using assms by (induction cs sts rule: list_induct2) (auto simp: F cols_step_def col_step_def Let_def)
qed

lemma shape_nth: "sys_shape S \<Longrightarrow> k < 3 \<Longrightarrow> length (fw_columns k) = length (S ! k) \<and> k < length S"
  by (auto simp: sys_shape_def fw_columns_def length_Suc_conv numeral_3_eq_3 less_Suc_eq numeral_2_eq_2)

lemma step_shape: "sys_shape S \<Longrightarrow> kb_of (ev_node e) < 3 \<Longrightarrow> sys_shape (step_S im e S)"
proof -
  let ?k = "kb_of (ev_node e)" and ?x = "map fst (kb_fires im e S)"
  assume S: "sys_shape S" "?k < 3"
  have "length ?x = length (S ! ?k)" using shape_nth [OF S] by (simp add: kb_fires_def cols_step_def)
  then have "map length (S[?k := ?x]) = map length (S[?k := S ! ?k])" by (simp only: map_update)
  then show ?thesis using S(1) by (simp add: sys_shape_def step_S_def)
qed

lemma step_counts:
  assumes "sys_shape S" "kb_of (ev_node e) < 3"
  shows "counts (step_S (fw_image f) e S) = (if ev_id e = 5 then (counts S)[kb_of (ev_node e) := map (\<lambda>n. n + 1) (counts S ! kb_of (ev_node e))] else counts S)"
proof -
  let ?k = "kb_of (ev_node e)"
  note L = shape_nth [OF assms(1,2)]
  have "map col_count (map fst (kb_fires (fw_image f) e S)) = map (\<lambda>st. if ev_id e = 5 then col_count st + 1 else col_count st) (S ! ?k)"
    unfolding kb_fires_def using fw_step_fires(3) [of "fw_columns ?k" "S ! ?k" f e] L by simp
  then have "counts (step_S (fw_image f) e S) = (counts S)[?k := map (\<lambda>st. if ev_id e = 5 then col_count st + 1 else col_count st) (S ! ?k)]"
    by (simp add: counts_def step_S_def map_update)
  moreover have "map (\<lambda>n. n + 1) (counts S ! ?k) = map (\<lambda>st. col_count st + 1) (S ! ?k)" "counts S ! ?k = map col_count (S ! ?k)"
    using L by (simp_all add: counts_def)
  ultimately show ?thesis using list_update_id [of "counts S" ?k] by (cases "ev_id e = 5") (simp_all add: o_def)
qed

lemma fire_all_eq: "fire_all im e [] = Done" "fire_all im e (None # fs) = fire_all im e fs"
  by (simp_all add: fun_eq_iff fire_def)

lemma step_command:
  assumes "is_command e" "sys_shape S"
  shows "sys_step (fw_image f) e S u = run_bind (f (handler_of e) (ev_data e) u) (\<lambda>u. Done (step_S (fw_image f) e S, u))"
    "kb_of (ev_node e) < 3" "ev_id e \<noteq> 5" "event_ok e"
proof -
  have c: "(ev_node e, ev_id e) \<in> {(0, 20), (0, 21), (9, 22), (14, 23), (14, 24), (14, 25), (14, 26)}"
    using assms(1) by (simp add: is_command_def fw_commands_def)
  show k: "kb_of (ev_node e) < 3" by (simp add: kb_of_def)
  show five: "ev_id e \<noteq> 5" using c by auto
  show "event_ok e" using c by (auto simp: event_ok_def CFL_INIT_EVENT_def CFL_TERMINATE_EVENT_def CFL_TERMINATE_SYSTEM_EVENT_def CFL_STOP_START_TESTS_EVENT_def)
  have "fire_all (fw_image f) e (map snd (kb_fires (fw_image f) e S)) u = f (handler_of e) (ev_data e) u"
    unfolding kb_fires_def using fw_step_fires(1) [of "fw_columns (kb_of (ev_node e))" "S ! kb_of (ev_node e)" e f] shape_nth [OF assms(2) k] five c
    by (elim insertE emptyE Pair_inject) (simp_all add: kb_of_def fw_columns_def fw_wait_def fire_def handler_of_def run_bind_Done_right fire_all_eq)
  then show "sys_step (fw_image f) e S u = run_bind (f (handler_of e) (ev_data e) u) (\<lambda>u. Done (step_S (fw_image f) e S, u))"
    by (simp add: sys_step_def step_S_def)
qed

text \<open>A tick runs no handler unless a wait is an hour old; then it runs the handler of the timeout, which must do nothing.\<close>

definition calm :: "(nat \<Rightarrow> event_value \<Rightarrow> 'u \<Rightarrow> 'u run) \<Rightarrow> u32 list \<Rightarrow> bool" where
  "calm f ns \<longleftrightarrow> (\<forall>n\<in>set ns. n + 1 < 3600) \<or> (\<forall>v u. f 14 v u = Done u)"

lemma step_tick:
  assumes "k < 3" "sys_shape S" "eid = CFL_TIMER_EVENT \<or> eid = CFL_SECOND_EVENT \<and> calm f (counts S ! k)"
  shows "sys_step (fw_image f) (tick_event q k eid) S u = Done (step_S (fw_image f) (tick_event q k eid) S, u)"
    "kb_of (ev_node (tick_event q k eid)) = k" "ev_id (tick_event q k eid) = eid"
proof -
  let ?e = "tick_event q k eid" and ?fs = "map snd (kb_fires (fw_image f) (tick_event q k eid) S)"
  show k: "kb_of (ev_node ?e) = k" using assms(1) by (auto simp: tick_event_def the_event_def fw_root_def kb_of_def)
  show e: "ev_id ?e = eid" by (simp add: tick_event_def the_event_def)
  have eid: "eid = 4 \<or> eid = 5" "eid = 5 \<Longrightarrow> calm f (counts S ! k)"
    using assms(3) by (auto simp: CFL_TIMER_EVENT_def CFL_SECOND_EVENT_def)
  note L = shape_nth [OF assms(2,1)]
  have no: "ucast eid \<noteq> wp_event_id (fw_wait i)" for i using eid(1) by (auto simp: fw_wait_def)
  have F: "(eid = 5 \<longrightarrow> (\<forall>n\<in>set (counts S ! k). n + 1 < 3600)) \<longrightarrow> set ?fs \<subseteq> {None}" "eid = 5 \<longrightarrow> set ?fs \<subseteq> {None, Some 14}"
    unfolding kb_fires_def k using fw_step_fires(1,2) [of "fw_columns k" "S ! k" ?e f] L no by (auto simp: e counts_def)
  have "fire_all (fw_image f) ?e fs u = Done u" if "set fs \<subseteq> {None, Some 14}" "Some 14 \<in> set fs \<Longrightarrow> \<forall>v u. f 14 v u = Done u" for fs
    using that by (induction fs) (auto simp: fire_def)
  moreover have "set ?fs \<subseteq> {None, Some 14}" "Some 14 \<in> set ?fs \<Longrightarrow> \<forall>v u. f 14 v u = Done u"
    using F eid unfolding calm_def by fastforce+
  ultimately have "fire_all (fw_image f) ?e ?fs u = Done u" by blast
  then show "sys_step (fw_image f) ?e S u = Done (step_S (fw_image f) ?e S, u)" by (simp add: sys_step_def step_S_def)
qed

lemma run_commands:
  assumes "\<forall>e\<in>set es. is_command e" "sys_shape S"
  shows "\<exists>S'. (\<forall>u. sys_run (fw_image f) es S u = run_bind (run_handlers f es u) (\<lambda>u. Done (S', u))) \<and> counts S' = counts S \<and> sys_shape S'"
  using assms
proof (induction es arbitrary: S)
  case (Cons e es)
  have e: "is_command e" using Cons.prems(1) by simp
  note C = step_command(1) [OF e Cons.prems(2), of f] step_command(2-4) [OF e Cons.prems(2)]
  let ?S = "step_S (fw_image f) e S"
  have s: "sys_shape ?S" "counts ?S = counts S"
    using step_shape [OF Cons.prems(2) C(2)] step_counts [OF Cons.prems(2) C(2), of f] C(3) by auto
  obtain S' where S': "\<And>u. sys_run (fw_image f) es ?S u = run_bind (run_handlers f es u) (\<lambda>u. Done (S', u))" "counts S' = counts S" "sys_shape S'"
    using Cons.IH [OF _ s(1)] Cons.prems(1) s(2) by auto
  have "sys_run (fw_image f) (e # es) S u = run_bind (run_handlers f (e # es) u) (\<lambda>u. Done (S', u))" for u
    using C(1) Cons.prems(1) S'(1) by simp
  then show ?case using S'(2,3) by blast
qed auto

lemma run_ticks:
  assumes "k < 3" "sys_shape S" "changed = CFL_CHANGED_SECOND \<Longrightarrow> calm f (counts S ! k)"
  shows "\<exists>S'. (\<forall>u. sys_run (fw_image f) (tick_events q changed k) S u = Done (S', u)) \<and> sys_shape S'
    \<and> counts S' = (if changed = CFL_CHANGED_SECOND then (counts S)[k := map (\<lambda>n. n + 1) (counts S ! k)] else counts S)"
proof -
  have T: "sys_step (fw_image f) (tick_event q k CFL_TIMER_EVENT) S u = Done (step_S (fw_image f) (tick_event q k CFL_TIMER_EVENT) S, u)"
    "kb_of (ev_node (tick_event q k CFL_TIMER_EVENT)) = k" "ev_id (tick_event q k CFL_TIMER_EVENT) = CFL_TIMER_EVENT" for u
    by (rule step_tick [OF assms(1,2)]; simp)+
  let ?S = "step_S (fw_image f) (tick_event q k CFL_TIMER_EVENT) S"
  have s: "sys_shape ?S" "counts ?S = counts S"
    using step_shape [OF assms(2), of "tick_event q k CFL_TIMER_EVENT"] step_counts [OF assms(2), of "tick_event q k CFL_TIMER_EVENT" f] T(2,3) assms(1)
    by (simp_all add: CFL_TIMER_EVENT_def)
  show ?thesis
  proof (cases "changed = CFL_CHANGED_SECOND")
    case True
    have T2: "sys_step (fw_image f) (tick_event q k CFL_SECOND_EVENT) ?S u = Done (step_S (fw_image f) (tick_event q k CFL_SECOND_EVENT) ?S, u)"
      "kb_of (ev_node (tick_event q k CFL_SECOND_EVENT)) = k" "ev_id (tick_event q k CFL_SECOND_EVENT) = CFL_SECOND_EVENT" for u
      by (rule step_tick [OF assms(1) s(1), where f = f]; simp add: s(2) assms(3) [OF True])+
    have "counts (step_S (fw_image f) (tick_event q k CFL_SECOND_EVENT) ?S) = (counts S)[k := map (\<lambda>n. n + 1) (counts S ! k)]"
      using step_counts [OF s(1), of "tick_event q k CFL_SECOND_EVENT" f] T2(2,3) assms(1) by (simp add: s(2) CFL_SECOND_EVENT_def)
    then show ?thesis using T(1) T2(1,2) True assms(1) assms(3) [OF True] step_shape [OF s(1), of "tick_event q k CFL_SECOND_EVENT" "fw_image f"]
      by (simp add: tick_events_def)
  next
    case False
    then show ?thesis using T(1) s by (simp add: tick_events_def)
  qed
qed

definition young :: "col_state list list \<Rightarrow> bool" where
  "young S \<longleftrightarrow> (\<forall>row\<in>set (counts S). \<forall>n\<in>set row. n + 1 < 3600)"

definition quiet :: "(nat \<Rightarrow> event_value \<Rightarrow> 'u \<Rightarrow> 'u run) \<Rightarrow> col_state list list \<Rightarrow> bool" where
  "quiet f S \<longleftrightarrow> young S \<or> (\<forall>v u. f 14 v u = Done u)"

definition aged :: "u32 \<Rightarrow> u32 list list \<Rightarrow> u32 list list" where
  "aged changed N = map (map (\<lambda>n. if changed = CFL_CHANGED_SECOND then n + 1 else n)) N"

lemma run_cycle_events:
  assumes "\<forall>e\<in>set (evq_high q @ evq_low q). is_command e" "sys_shape S" "quiet f S"
  shows "\<exists>S'. (\<forall>u. sys_run (fw_image f) (cycle_events q changed) S u = run_bind (run_handlers f (evq_high q @ evq_low q) u) (\<lambda>u. Done (S', u)))
    \<and> sys_shape S' \<and> counts S' = aged changed (counts S)"
proof -
  let ?es = "evq_high q @ evq_low q" and ?up = "\<lambda>k N. if changed = CFL_CHANGED_SECOND then N[k := map (\<lambda>n. n + 1) (N ! k)] else N"
  obtain S0 where S0: "\<And>u. sys_run (fw_image f) ?es S u = run_bind (run_handlers f ?es u) (\<lambda>u. Done (S0, u))" "counts S0 = counts S" "sys_shape S0"
    using run_commands [OF assms(1,2), of f] by blast
  have yn: "calm f (counts S ! k)" if "k < 3" for k
    using assms(3) shape_nth [OF assms(2) that] nth_mem [of k S] by (auto simp: young_def quiet_def calm_def counts_def)
  obtain S1 where S1: "\<And>u. sys_run (fw_image f) (tick_events q changed 0) S0 u = Done (S1, u)" "sys_shape S1" "counts S1 = ?up 0 (counts S)"
    using run_ticks [OF _ S0(3), of 0 changed f q] yn [of 0] S0(2) by auto
  have l: "length (counts S) = 3" using assms(2) by (auto simp: sys_shape_def counts_def length_Suc_conv)
  obtain S2 where S2: "\<And>u. sys_run (fw_image f) (tick_events q changed 1) S1 u = Done (S2, u)" "sys_shape S2" "counts S2 = ?up 1 (?up 0 (counts S))"
    using run_ticks [OF _ S1(2), of 1 changed f q] yn [of 1] S1(3) l by auto
  obtain S3 where S3: "\<And>u. sys_run (fw_image f) (tick_events q changed 2) S2 u = Done (S3, u)" "sys_shape S3" "counts S3 = ?up 2 (?up 1 (?up 0 (counts S)))"
    using run_ticks [OF _ S2(2), of 2 changed f q] yn [of 2] S2(3) l by auto
  have "sys_run (fw_image f) (cycle_events q changed) S u = run_bind (run_handlers f ?es u) (\<lambda>u. Done (S3, u))" for u
  proof -
    have t: "sys_run (fw_image f) (tick_events q changed 0 @ tick_events q changed 1 @ tick_events q changed 2) S0 u = Done (S3, u)" for u
      using S2(1) by (simp add: sys_run_append S1(1) S3(1))
    have c: "cycle_events q changed = ?es @ tick_events q changed 0 @ tick_events q changed 1 @ tick_events q changed 2"
      by (simp add: cycle_events_def)
    show ?thesis unfolding c sys_run_append [of _ ?es] S0(1) by (simp only: run_bind_assoc run_bind.simps prod.case t)
  qed
  moreover have "counts S3 = aged changed (counts S)"
    using l by (auto simp: S3(3) aged_def length_Suc_conv numeral_3_eq_3 numeral_2_eq_2)
  ultimately show ?thesis using S3(2) by blast
qed

lemma cycle_runs_commands:
  assumes "evq_inv q" "evq_caps q hi lo" "length (evq_low q) + 2 < lo" "idle_sys (fw_image f) S s" "quiet f S"
    "\<forall>e\<in>set (evq_high q @ evq_low q). is_command e" "changed \<in> {0, CFL_CHANGED_SECOND}"
  shows "outcome (run_handlers f (evq_high q @ evq_low q) (r_user s)) (cfl_cycle (fw_image f) changed [0..<6] q s)
    (\<lambda>u (stop, q', t). \<not> stop \<and> evq_inv q' \<and> evq_caps q' hi lo \<and> evq_high q' = [] \<and> evq_low q' = [] \<and> r_user t = u
       \<and> (\<exists>S'. idle_sys (fw_image f) S' t \<and> counts S' = aged changed (counts S)))"
proof -
  have sh: "sys_shape S" by (rule idle_shape [OF assms(4)])
  obtain S' where S': "\<And>u. sys_run (fw_image f) (cycle_events q changed) S u = run_bind (run_handlers f (evq_high q @ evq_low q) u) (\<lambda>u. Done (S', u))"
    "counts S' = aged changed (counts S)"
    using run_cycle_events [OF assms(6) sh assms(5), of changed] by blast
  have "\<forall>e\<in>set (evq_high q @ evq_low q). event_ok e" using assms(6) step_command(4) [OF _ sh] by blast
  note O = cycle_outcome [OF assms(1-4,7) this, unfolded S'(1)]
  then show ?thesis
    by (cases "run_handlers f (evq_high q @ evq_low q) (r_user s)")
      (auto simp: outcome_def cycle_done_def S'(2) intro!: exI [of _ S'])
qed

end
