(* ===== verification/Cfl_Boot.thy ===== *)
theory Cfl_Boot
imports Cfl_Run "HOL-Library.Sublist"
begin

text \<open>The bring-up of the chain-tree engine: \<open>cfl_runtime_create\<close>, \<open>cfl_runtime_reset\<close> and \<open>engine_runtime_bringup\<close> of
  \<open>bus_controller/main.c\<close>, and the proof that the engine it leaves is the idle system \<open>Cfl_Run\<close> starts from.\<close>


definition flags0 :: ct_flags where
  "flags0 = \<lparr>fl_visited = False, fl_user1 = False, fl_user2 = False, fl_user3 = False\<rparr>"

definition ct_walker_init :: "'u image \<Rightarrow> 'u rt \<Rightarrow> 'u rt run" where
  "ct_walker_init im s = (if node_count im = 0 then Exception
     else Done (clear_engine_flags (s\<lparr>r_max_level := 0xFFFF, r_stop_all := False\<rparr>)))"

definition cfl_disable_all_node_flags :: "'u image \<Rightarrow> 'u rt \<Rightarrow> 'u rt" where
  "cfl_disable_all_node_flags im s =
     s\<lparr>r_flags := map (\<lambda>i. if i < node_count im then (r_flags s ! i)\<lparr>fl_user1 := False, fl_user2 := False, fl_user3 := False\<rparr> else r_flags s ! i)
        [0..<length (r_flags s)]\<rparr>"

fun reinit_tests :: "'u image \<Rightarrow> nat list \<Rightarrow> 'u rt \<Rightarrow> 'u rt run" where
  "reinit_tests im [] s = Done s"
| "reinit_tests im (k # ks) s =
     run_bind (if r_active s ! k then cfl_engine_init_test im (kb_start (im_kbs im ! k)) (kb_count (im_kbs im ! k)) s else Done s) (reinit_tests im ks)"

text \<open>The parts of \<open>cfl_runtime_create\<close> and \<open>cfl_runtime_reset\<close> that touch the engine's state; the reset of the arena system
  takes every cell back.\<close>

definition cfl_runtime_create :: "'u image \<Rightarrow> 'u rt \<Rightarrow> 'u rt run" where
  "cfl_runtime_create im s =
     ct_walker_init im (s\<lparr>r_flags := replicate (node_count im) flags0, r_wait := replicate (node_count im) None,
        r_backup := replicate (node_count im) flags0, r_active := replicate (length (im_kbs im)) False\<rparr>)"

definition cfl_runtime_reset :: "'u image \<Rightarrow> event_queue \<Rightarrow> 'u rt \<Rightarrow> (event_queue \<times> 'u rt) run" where
  "cfl_runtime_reset im q s =
     run_bind (cfl_clear_queue q) (\<lambda>q.
     run_bind (reinit_tests im [0..<length (im_kbs im)]
        ((cfl_disable_all_node_flags im (s\<lparr>r_wait := replicate (node_count im) None\<rparr>))\<lparr>r_flags := replicate (node_count im) flags0\<rparr>))
       (\<lambda>s. Done (q, s)))"

text \<open>\<open>engine_runtime_bringup\<close> activates every knowledge base but those of function names, and notes three start nodes.\<close>

definition fw_kb_names :: "string list" where
  "fw_kb_names = [''kb0'', ''kb1'', ''kbapp'', ''kb1_functions'', ''kbapp_functions'', ''kb0_functions'']"

definition MAX_APP_KBS :: nat where "MAX_APP_KBS = 6"

record kb_reg =
  g_appkb :: "nat list"
  g_kb0_node :: nat
  g_kb1_node :: nat
  g_kbapp_node :: nat

definition note_start :: "string \<Rightarrow> nat \<Rightarrow> kb_reg \<Rightarrow> kb_reg" where
  "note_start nm node g =
     (if nm = ''kb0'' then g\<lparr>g_kb0_node := node\<rparr> else if nm = ''kb1'' then g\<lparr>g_kb1_node := node\<rparr>
      else if nm = ''kbapp'' then g\<lparr>g_kbapp_node := node\<rparr> else g)"

fun activate_kbs :: "'u image \<Rightarrow> (nat \<times> string) list \<Rightarrow> kb_reg \<Rightarrow> 'u rt \<Rightarrow> (kb_reg \<times> 'u rt) run" where
  "activate_kbs im [] g s = Done (g, s)"
| "activate_kbs im ((k, nm) # ks) g s =
     (if length (g_appkb g) \<ge> MAX_APP_KBS then Done (g, s)
      else if sublist ''_functions'' nm then activate_kbs im ks g s
      else (let node = kb_start (im_kbs im ! k) in
        run_bind (cfl_add_test_by_index im k s) (\<lambda>(ok, s).
          activate_kbs im ks (note_start nm node (if ok then g\<lparr>g_appkb := g_appkb g @ [node]\<rparr> else g)) s)))"

definition engine_runtime_bringup :: "'u image \<Rightarrow> string list \<Rightarrow> event_queue \<Rightarrow> 'u rt \<Rightarrow> (kb_reg \<times> event_queue \<times> 'u rt) run" where
  "engine_runtime_bringup im names q s =
     run_bind (cfl_runtime_create im s) (\<lambda>s.
     run_bind (cfl_runtime_reset im q s) (\<lambda>(q, s).
     run_bind (activate_kbs im (zip [0..<length names] names) \<lparr>g_appkb = [], g_kb0_node = 0, g_kb1_node = 0, g_kbapp_node = 0\<rparr> s)
       (\<lambda>(g, s). Done (g, q, s))))"

lemma disable_flags_spec:
  "\<forall>i\<in>set is. i < node_count im \<Longrightarrow> \<exists>F. disable_flags im is s = Done (s\<lparr>r_flags := F\<rparr>) \<and> length F = length (r_flags s)
     \<and> (\<forall>i < length F. F ! i = (if i \<in> set is then (r_flags s ! i)\<lparr>fl_user1 := False, fl_user2 := False, fl_user3 := False\<rparr> else r_flags s ! i))"
proof (induction "is" arbitrary: s)
  case Nil
  show ?case by (rule exI [of _ "r_flags s"]) (cases s, simp)
next
  case (Cons j js)
  let ?s = "set_flags j ((r_flags s ! j)\<lparr>fl_user1 := False, fl_user2 := False, fl_user3 := False\<rparr>) s"
  obtain F where F: "disable_flags im js ?s = Done (?s\<lparr>r_flags := F\<rparr>)" "length F = length (r_flags s)"
     "\<forall>i < length F. F ! i = (if i \<in> set js then (r_flags ?s ! i)\<lparr>fl_user1 := False, fl_user2 := False, fl_user3 := False\<rparr> else r_flags ?s ! i)"
    using Cons.IH [of ?s] Cons.prems by (auto simp: set_flags_def)
  have at: "r_flags ?s ! i = (if i = j then (r_flags s ! i)\<lparr>fl_user1 := False, fl_user2 := False, fl_user3 := False\<rparr> else r_flags s ! i)"
    if "i < length (r_flags s)" for i using that by (simp add: set_flags_def nth_list_update)
  have "F ! i = (if i \<in> set (j # js) then (r_flags s ! i)\<lparr>fl_user1 := False, fl_user2 := False, fl_user3 := False\<rparr> else r_flags s ! i)"
    if "i < length F" for i
  proof -
    have l: "i < length (r_flags s)" using that F(2) by simp
    show ?thesis using F(3) [rule_format, OF that] unfolding at [OF l] by (cases "i = j"; cases "i \<in> set js") simp_all
  qed
  moreover have "disable_flags im (j # js) s = Done (s\<lparr>r_flags := F\<rparr>)"
    using F(1) Cons.prems by (simp add: cfl_disable_node_flag_def set_flags_def)
  ultimately show ?case using F(2) by blast
qed

lemma init_test_spec:
  assumes "start + count \<le> node_count im" "0 < count" "length (r_flags s) = node_count im"
  shows "\<exists>F. cfl_engine_init_test im start count s = Done (s\<lparr>r_flags := F\<rparr>) \<and> length F = node_count im
     \<and> (\<forall>i < node_count im. F ! i = (if i = start then (r_flags s ! i)\<lparr>fl_user1 := False, fl_user2 := False, fl_user3 := True\<rparr>
          else if start \<le> i \<and> i < start + count then (r_flags s ! i)\<lparr>fl_user1 := False, fl_user2 := False, fl_user3 := False\<rparr> else r_flags s ! i))"
proof -
  obtain F where "disable_flags im [start..<start + count] s = Done (s\<lparr>r_flags := F\<rparr>)" "length F = length (r_flags s)"
     "\<forall>i < length F. F ! i = (if i \<in> set [start..<start + count] then (r_flags s ! i)\<lparr>fl_user1 := False, fl_user2 := False, fl_user3 := False\<rparr> else r_flags s ! i)"
    using disable_flags_spec [of "[start..<start + count]" im s] assms(1) by auto
  then show ?thesis using assms
    by (intro exI [of _ "F[start := (r_flags s ! start)\<lparr>fl_user1 := False, fl_user2 := False, fl_user3 := True\<rparr>]"])
      (auto simp: cfl_engine_init_test_def cfl_enable_node_def set_flags_def nth_list_update)
qed

lemma reinit_none: "\<forall>k\<in>set ks. \<not> r_active s ! k \<Longrightarrow> reinit_tests im ks s = Done s"
  by (induction ks) simp_all

definition boot_flags :: "nat set \<Rightarrow> ct_flags list" where
  "boot_flags R = map (\<lambda>i. if i \<in> R then FL False False True else flags0) [0..<54]"

definition boot_rt :: "'u rt \<Rightarrow> nat set \<Rightarrow> bool list \<Rightarrow> 'u rt \<Rightarrow> bool" where
  "boot_rt s0 R A s \<longleftrightarrow> s = s0\<lparr>r_flags := boot_flags R, r_backup := replicate 54 flags0, r_wait := replicate 54 None, r_active := A,
     r_max_level := 0xFFFF, r_stop_all := False\<rparr>"

lemma boot_add:
  assumes b: "boot_rt s0 R A s" and k: "k < 6" "A = B @ False # D" "length B = k"
    and lo: "\<forall>i\<in>R. i < kb_start (fw_kb_table ! k)"
    and win: "kb_start (fw_kb_table ! k) + kb_count (fw_kb_table ! k) \<le> 54" "0 < kb_count (fw_kb_table ! k)"
  shows "\<exists>t. cfl_add_test_by_index (fw_image f) k s = Done (True, t) \<and> boot_rt s0 (insert (kb_start (fw_kb_table ! k)) R) (B @ True # D) t"
proof -
  let ?a = "kb_start (fw_kb_table ! k)" and ?n = "kb_count (fw_kb_table ! k)"
  have fl: "r_flags s = boot_flags R" "r_active s = A" using b by (simp_all add: boot_rt_def)
  obtain F where F: "cfl_engine_init_test (fw_image f) ?a ?n s = Done (s\<lparr>r_flags := F\<rparr>)" "length F = 54"
    "\<forall>i < 54. F ! i = (if i = ?a then (r_flags s ! i)\<lparr>fl_user1 := False, fl_user2 := False, fl_user3 := True\<rparr>
          else if ?a \<le> i \<and> i < ?a + ?n then (r_flags s ! i)\<lparr>fl_user1 := False, fl_user2 := False, fl_user3 := False\<rparr> else r_flags s ! i)"
    using init_test_spec [of ?a ?n "fw_image f" s] win fl(1) by (auto simp: boot_flags_def)
  have "F = boot_flags (insert ?a R)"
  proof (rule nth_equalityI)
    show "length F = length (boot_flags (insert ?a R))" using F(2) by (simp add: boot_flags_def)
    fix i assume "i < length F"
    then have i: "i < 54" using F(2) by simp
    show "F ! i = boot_flags (insert ?a R) ! i"
      unfolding F(3) [rule_format, OF i] fl using i lo by (auto simp: boot_flags_def flags0_def)
  qed
  moreover have "k < length fw_kb_table" using k(1) by (simp add: fw_kb_table_def)
  moreover have "A ! k = False" "A[k := True] = B @ True # D" using k(2,3) by (simp_all add: nth_append list_update_append)
  ultimately show ?thesis using F(1) fl(2) b by (simp add: cfl_add_test_by_index_def boot_rt_def)
qed

lemma activate_skip: "sublist ''_functions'' nm \<Longrightarrow> length (g_appkb g) < MAX_APP_KBS \<Longrightarrow>
    activate_kbs im ((k, nm) # ks) g s = activate_kbs im ks g s"
  by simp

lemma create_reset:
  assumes "cfl_clear_queue q = Done q'"
  shows "\<exists>t. run_bind (cfl_runtime_create (fw_image f) s) (cfl_runtime_reset (fw_image f) q) = Done (q', t)
    \<and> boot_rt s {} [False, False, False, False, False, False] t"
proof -
  let ?im = "fw_image f"
  have c: "cfl_runtime_create ?im s = Done (s\<lparr>r_flags := replicate 54 flags0, r_backup := replicate 54 flags0, r_wait := replicate 54 None,
     r_active := [False, False, False, False, False, False], r_max_level := 0xFFFF, r_stop_all := False\<rparr>)"
    by (simp add: cfl_runtime_create_def ct_walker_init_def clear_engine_flags_def flags0_def fw_kb_table_def)
  have b: "boot_flags {} = replicate 54 flags0" by (simp add: boot_flags_def map_replicate_const)
  show ?thesis unfolding c using assms
    by (simp add: cfl_runtime_reset_def cfl_disable_all_node_flags_def reinit_none fw_kb_table_def boot_rt_def b flags0_def)
qed

lemma boot_idle:
  assumes "boot_rt s0 {0, 9, 14} [True, True, True, False, False, False] t"
  shows "idle_sys (fw_image f) [[Fresh 0, Fresh 0], [Fresh 0], [Fresh 0, Fresh 0, Fresh 0, Fresh 0]] t"
proof -
  have cl: "r_flags (clear_engine_flags t) = boot_flags {0, 9, 14}" "r_wait (clear_engine_flags t) = replicate 54 None"
    using assms by (simp_all add: boot_rt_def clear_engine_flags_def boot_flags_def flags0_def)
  have at: "boot_flags {0, 9, 14} ! i = (if i \<in> {0, 9, 14} then FL False False True else flags0)" if "i < 54" for i
    using that by (simp add: boot_flags_def)
  have "idle_kb (fw_image f) (fw_root k) (fw_columns k) (replicate (length (fw_columns k)) (Fresh 0)) (clear_engine_flags t)" if "k < 3" for k
  proof -
    have "k = 0 \<or> k = 1 \<or> k = 2" using that by auto
    then show ?thesis
      by (elim disjE; simp add: idle_kb_def fw_root_def fw_columns_def column_flags_def cl at flags0_def)
  qed
  from this [of 0] this [of 1] this [of 2]
  have "\<forall>k < 3. idle_kb (fw_image f) (fw_root k) (fw_columns k) ([[Fresh 0, Fresh 0], [Fresh 0], [Fresh 0, Fresh 0, Fresh 0, Fresh 0]] ! k) (clear_engine_flags t)"
    by (auto simp: fw_columns_def less_Suc_eq numeral_eq_Suc)
  moreover have "unmarked (fw_image f) t" using assms by (simp add: unmarked_def boot_rt_def boot_flags_def flags0_def)
  ultimately show ?thesis using assms by (simp add: idle_sys_def boot_rt_def boot_flags_def)
qed

text \<open>
  C10. The engine boots to the idle system: from any memory and any queue that can be cleared, \<open>engine_runtime_bringup\<close> on the firmware's image
  returns, activates the three application knowledge bases and skips the three that hold function names, notes their start nodes 0, 9
  and 14, and leaves every one of the seven columns fresh with a zero timeout count, the application's state untouched.
\<close>

theorem engine_boots_idle:
  assumes "cfl_clear_queue q = Done q'"
  shows "\<exists>t. engine_runtime_bringup (fw_image user) fw_kb_names q s
      = Done (\<lparr>g_appkb = [0, 9, 14], g_kb0_node = 0, g_kb1_node = 9, g_kbapp_node = 14\<rparr>, q', t)
    \<and> idle_sys (fw_image user) [[Fresh 0, Fresh 0], [Fresh 0], [Fresh 0, Fresh 0, Fresh 0, Fresh 0]] t \<and> r_user t = r_user s"
proof -
  let ?im = "fw_image user"
  obtain t0 where t0: "run_bind (cfl_runtime_create ?im s) (cfl_runtime_reset ?im q) = Done (q', t0)" "boot_rt s {} [False, False, False, False, False, False] t0"
    using create_reset [OF assms] by blast
  have kb: "fw_kb_table ! 0 = fw_kb 0 9 2" "fw_kb_table ! Suc 0 = fw_kb 9 5 2" "fw_kb_table ! 2 = fw_kb 14 17 2" by (simp_all add: fw_kb_table_def)
  obtain t1 where t1: "cfl_add_test_by_index ?im 0 t0 = Done (True, t1)" "boot_rt s {0} [True, False, False, False, False, False] t1"
    using boot_add [OF t0(2), of 0 "[]" "[False, False, False, False, False]" user] by (auto simp: kb fw_kb_def)
  obtain t2 where t2: "cfl_add_test_by_index ?im (Suc 0) t1 = Done (True, t2)" "boot_rt s {0, 9} [True, True, False, False, False, False] t2"
    using boot_add [OF t1(2), of "Suc 0" "[True]" "[False, False, False, False]" user] by (auto simp: kb fw_kb_def insert_commute)
  obtain t3 where t3: "cfl_add_test_by_index ?im 2 t2 = Done (True, t3)" "boot_rt s {0, 9, 14} [True, True, True, False, False, False] t3"
    using boot_add [OF t2(2), of 2 "[True, True]" "[False, False, False]" user] by (auto simp: kb fw_kb_def insert_commute)
  have skip: "\<not> sublist ''_functions'' ''kb0''" "\<not> sublist ''_functions'' ''kb1''" "\<not> sublist ''_functions'' ''kbapp''"
    "sublist ''_functions'' ''kb0_functions''" "sublist ''_functions'' ''kb1_functions''" "sublist ''_functions'' ''kbapp_functions''"
    by (simp_all add: sublist_code)
  have "activate_kbs ?im (zip [0..<length fw_kb_names] fw_kb_names) \<lparr>g_appkb = [], g_kb0_node = 0, g_kb1_node = 0, g_kbapp_node = 0\<rparr> t0
    = Done (\<lparr>g_appkb = [0, 9, 14], g_kb0_node = 0, g_kb1_node = 9, g_kbapp_node = 14\<rparr>, t3)"
    using t1(1) t2(1) t3(1) by (simp add: numeral_2_eq_2 fw_kb_names_def upt_rec skip MAX_APP_KBS_def kb fw_kb_table_def fw_kb_def note_start_def Let_def)
  then have "engine_runtime_bringup ?im fw_kb_names q s
      = Done (\<lparr>g_appkb = [0, 9, 14], g_kb0_node = 0, g_kb1_node = 9, g_kbapp_node = 14\<rparr>, q', t3)"
    using t0(1) by (cases "cfl_runtime_create ?im s") (simp_all add: engine_runtime_bringup_def)
  moreover have "r_user t3 = r_user s" using t3(2) by (simp add: boot_rt_def)
  ultimately show ?thesis using boot_idle [OF t3(2)] by blast
qed


lemma clear_empty:
  assumes "ring_is_empty (q_high q)" "ring_is_empty (q_low q)"
  shows "cfl_clear_queue q = Done q"
proof -
  have "ring_clear_loop n r = Done r" if "ring_is_empty r" for n r using that by (cases n) simp_all
  then show ?thesis using assms by (simp add: cfl_clear_queue_def ring_clear_def)
qed

lemma evq0_clear: "cfl_clear_queue evq0 = Done evq0"
  by (rule clear_empty) (simp_all add: evq0_def cfl_create_event_queue_def init_ring_def ring_is_empty_def round_up_powers)

definition rt0 :: "'u \<Rightarrow> 'u rt" where
  "rt0 u = \<lparr>r_flags = [], r_backup = [], r_wait = [], r_active = [], r_kb_start = 0, r_kb_count = 0, r_engine_flag = False, r_exec_count = 0,
     r_start_node = 0, r_max_level = 0, r_stop_all = False, r_event = event0, r_user = u\<rparr>"

theorem engine_boots_idle_witness:
  "\<exists>t. engine_runtime_bringup (fw_image (\<lambda>k v u. Done (u @ [k]))) fw_kb_names evq0 (rt0 [])
      = Done (\<lparr>g_appkb = [0, 9, 14], g_kb0_node = 0, g_kb1_node = 9, g_kbapp_node = 14\<rparr>, evq0, t) \<and> r_user t = []"
  using engine_boots_idle [OF evq0_clear, of "\<lambda>k v u. Done (u @ [k])" "rt0 []"] by (auto simp: rt0_def)

text \<open>
  C11. Every command event waiting when a cycle of the engine starts runs the handler of its column exactly once, in the order
  of sending, high priority first; no other handler runs.  Afterwards the queue is empty and every column of the three
  knowledge bases waits again.  A handler that stops the engine stops the cycle.  The queue has room for the two events
  of the timer, and either no wait is an hour old or the handler of the timeout does nothing.
\<close>

theorem engine_runs_each_command_once:
  assumes "evq_inv q" "evq_caps q hi lo" "length (evq_low q) + 2 < lo" "idle_sys (fw_image f) S s" "quiet f S"
    "\<forall>e\<in>set (evq_high q @ evq_low q). is_command e" "changed \<in> {0, CFL_CHANGED_SECOND}"
  shows "outcome (run_handlers f (evq_high q @ evq_low q) (r_user s)) (cfl_cycle (fw_image f) changed [0..<6] q s)
    (\<lambda>u (stop, q', t). \<not> stop \<and> evq_inv q' \<and> evq_caps q' hi lo \<and> evq_high q' = [] \<and> evq_low q' = [] \<and> r_user t = u
       \<and> (\<exists>S'. idle_sys (fw_image f) S' t \<and> counts S' = aged changed (counts S)))"
  by (rule cycle_runs_commands [OF assms])

lemma booted:
  obtains t :: "'u rt" where "idle_sys (fw_image f) [[Fresh 0, Fresh 0], [Fresh 0], [Fresh 0, Fresh 0, Fresh 0, Fresh 0]] t" "r_user t = u"
proof
  let ?t = "(rt0 u)\<lparr>r_flags := boot_flags {0, 9, 14}, r_backup := replicate 54 flags0, r_wait := replicate 54 None,
     r_active := [True, True, True, False, False, False], r_max_level := 0xFFFF, r_stop_all := False\<rparr>"
  show "idle_sys (fw_image f) [[Fresh 0, Fresh 0], [Fresh 0], [Fresh 0, Fresh 0, Fresh 0, Fresh 0]] ?t"
    by (rule boot_idle [of "rt0 u"]) (simp add: boot_rt_def)
  show "r_user ?t = u" by (simp add: rt0_def)
qed

text \<open>Sending into a queue with room.\<close>

lemma send_room:
  assumes "evq_inv q" "evq_room p q \<noteq> 0" "p \<in> {CFL_EVENT_PRIORITY_LOW, CFL_EVENT_PRIORITY_HIGH}" "etype \<le> CFL_EVENT_TYPE_NULL"
  obtains q' where "cfl_send_event p node etype mf eid data q = Done q'" "evq_inv q'" "q_id q' = q_id q"
    "evq_high q' = evq_high q @ (if p = CFL_EVENT_PRIORITY_HIGH then [the_event node etype mf eid data q] else [])"
    "evq_low q' = evq_low q @ (if p = CFL_EVENT_PRIORITY_HIGH then [] else [the_event node etype mf eid data q])"
    "\<forall>r. evq_room r q' = (if (r = CFL_EVENT_PRIORITY_HIGH) = (p = CFL_EVENT_PRIORITY_HIGH) then evq_room r q - 1 else evq_room r q)"
proof (cases "cfl_send_event p node etype mf eid data q")
  case (Done q')
  note S = send_event_spec [OF assms(1,3,4), of node mf eid data, unfolded Done run.case]
  show thesis by (rule that [OF Done]) (use S in blast)+
qed (use send_event_spec [OF assms(1,3,4), of node mf eid data] assms(2) in simp_all)

lemma priorities: "CFL_EVENT_PRIORITY_LOW \<noteq> CFL_EVENT_PRIORITY_HIGH" "CFL_EVENT_PRIORITY_HIGH \<noteq> CFL_EVENT_PRIORITY_LOW"
  by (simp_all add: CFL_EVENT_PRIORITY_HIGH_def CFL_EVENT_PRIORITY_LOW_def)

lemma evq0_caps: "evq_caps evq0 8 64"
proof -
  have "unat (0x40 :: u16) = 64" "unat (8 :: u16) = 8" by simp_all
  then show ?thesis by (simp add: evq_caps_def evq0_def cfl_create_event_queue_def init_ring_def round_up_powers)
qed

text \<open>A ping and an echo: the handler of the ping runs first.\<close>

theorem engine_runs_each_command_once_witness:
  "\<exists>q s q' t. cfl_cycle (fw_image (\<lambda>k v u. Done (u @ [k]))) 0 [0..<6] q s = Done (False, q', t)
    \<and> evq_high q \<noteq> [] \<and> evq_low q \<noteq> [] \<and> evq_high q' = [] \<and> evq_low q' = [] \<and> r_user s = [] \<and> r_user t = [12, 2]"
proof -
  have le: "CFL_EVENT_TYPE_PTR \<le> CFL_EVENT_TYPE_NULL" "CFL_EVENT_TYPE_INT \<le> CFL_EVENT_TYPE_NULL"
    by (simp_all add: CFL_EVENT_TYPE_PTR_def CFL_EVENT_TYPE_INT_def CFL_EVENT_TYPE_NULL_def)
  obtain q1 where q1: "cfl_send_event CFL_EVENT_PRIORITY_LOW 14 CFL_EVENT_TYPE_PTR False 23 (V_slot 0) evq0 = Done q1" "evq_inv q1"
    "evq_high q1 = []" "evq_low q1 = [the_event 14 CFL_EVENT_TYPE_PTR False 23 (V_slot 0) evq0]" "evq_room CFL_EVENT_PRIORITY_HIGH q1 = 7"
    by (rule send_room [OF evq0(1) _ _ le(1), of CFL_EVENT_PRIORITY_LOW 14 False 23 "V_slot 0"]) (simp_all add: evq0(2-5) priorities)
  obtain q where q: "cfl_send_event CFL_EVENT_PRIORITY_HIGH 0 CFL_EVENT_TYPE_INT False 20 (V_int 1) q1 = Done q" "evq_inv q"
    "evq_high q = [the_event 0 CFL_EVENT_TYPE_INT False 20 (V_int 1) q1]" "evq_low q = evq_low q1"
    by (rule send_room [OF q1(2) _ _ le(2), of CFL_EVENT_PRIORITY_HIGH 0 False 20 "V_int 1"]) (simp_all add: q1(3,5) priorities)
  have cq: "evq_caps q 8 64" unfolding send_caps [OF q(1)] send_caps [OF q1(1)] by (rule evq0_caps)
  obtain e1 where e1: "evq_high q = [e1]" "ev_node e1 = 0" "ev_id e1 = 20" using q(3) by (auto simp: the_event_def)
  obtain e2 where e2: "evq_low q = [e2]" "ev_node e2 = 14" "ev_id e2 = 23" using q(4) q1(4) by (auto simp: the_event_def)
  let ?f = "\<lambda>k v u. Done (u @ [k])"
  obtain s where s: "idle_sys (fw_image ?f) [[Fresh 0, Fresh 0], [Fresh 0], [Fresh 0, Fresh 0, Fresh 0, Fresh 0]] s" "r_user s = []"
    by (rule booted [of ?f "[]"])
  have "outcome (run_handlers ?f (evq_high q @ evq_low q) (r_user s)) (cfl_cycle (fw_image ?f) 0 [0..<6] q s)
    (\<lambda>u (stop, q', t). \<not> stop \<and> evq_inv q' \<and> evq_caps q' 8 64 \<and> evq_high q' = [] \<and> evq_low q' = [] \<and> r_user t = u
       \<and> (\<exists>S'. idle_sys (fw_image ?f) S' t \<and> counts S' = aged 0 (counts [[Fresh 0, Fresh 0], [Fresh 0], [Fresh 0, Fresh 0, Fresh 0, Fresh 0]])))"
    by (rule engine_runs_each_command_once [OF q(2) cq _ s(1)]) (auto simp: e1 e2 quiet_def young_def counts_def is_command_def fw_commands_def)
  moreover have "run_handlers ?f (evq_high q @ evq_low q) (r_user s) = Done [12, 2]" by (simp add: e1 e2 s(2) handler_of_def)
  ultimately have "\<exists>q' t. cfl_cycle (fw_image ?f) 0 [0..<6] q s = Done (False, q', t) \<and> evq_high q' = [] \<and> evq_low q' = [] \<and> r_user t = [12, 2]"
    by (auto simp: outcome_def)
  then show ?thesis using e1(1) e2(1) s(2) by fastforce
qed

end
