(* ===== verification/App_Core.thy ===== *)
theory App_Core
  imports Cfl_Boot Bus_Run
begin

text \<open>
  The application core of \<^verbatim>\<open>src/app/bus_controller/main.c\<close>: the handlers the columns of the engine call (ping, snapshot,
  ADC, echo, originated echo, interlock clear, operate), the monitor reports, and what runs before every cycle of the engine,
  \<open>cfl_embed_pre_tick\<close>: the commands of the other core become events or are answered in place, the blackboard
  is refreshed, the report stream is paced; with the timer of \<^verbatim>\<open>src/port/rp2040/cfl_timer_rp2040.c\<close> this is one tick.

  \<open>core\<close> is the state the handlers work on; \<open>app\<close> adds the four request slots the pointer events refer to.  The clock, the
  memory figures and stack marks a report quotes are read from \<open>tick_env\<close>, one reading for a tick.
\<close>

unbundle bit_operations_syntax

section \<open>Constants and state\<close>

definition CMD_MON_PING :: u16 where "CMD_MON_PING = 0x0200"
definition CMD_MON_SNAPSHOT :: u16 where "CMD_MON_SNAPSHOT = 0x0201"
definition CMD_MON_STREAM :: u16 where "CMD_MON_STREAM = 0x0202"
definition CMD_APP_OP :: u16 where "CMD_APP_OP = 0x0306"
definition OP_MON_SYS :: u16 where "OP_MON_SYS = 0x0030"
definition OP_MON_TASKS :: u16 where "OP_MON_TASKS = 0x0031"
definition OP_MON_MEM :: u16 where "OP_MON_MEM = 0x0032"
definition OP_MON_TICK :: u16 where "OP_MON_TICK = 0x0034"
definition OP_MON_KB :: u16 where "OP_MON_KB = 0x0035"
definition OP_MON_END :: u16 where "OP_MON_END = 0x003F"
definition KB0_VER :: u8 where "KB0_VER = 1"
definition KBAPP_VER :: u8 where "KBAPP_VER = 1"
definition MON_VER :: u8 where "MON_VER = 1"
definition ORIG_PAY_MAX :: nat where "ORIG_PAY_MAX = 64"
definition ORIG_Q_DEPTH :: nat where "ORIG_Q_DEPTH = 4"
definition APP_REQ_SLOTS :: nat where "APP_REQ_SLOTS = 4"
definition EVENT_CMD_MON_PING :: u16 where "EVENT_CMD_MON_PING = 20"
definition EVENT_CMD_MON_SNAPSHOT :: u16 where "EVENT_CMD_MON_SNAPSHOT = 21"
definition EVENT_CMD_ADC_READ :: u16 where "EVENT_CMD_ADC_READ = 22"
definition EVENT_CMD_APP_ECHO :: u16 where "EVENT_CMD_APP_ECHO = 23"
definition EVENT_CMD_APP_ECHO_TO :: u16 where "EVENT_CMD_APP_ECHO_TO = 24"
definition EVENT_CMD_APP_IL_CLEAR :: u16 where "EVENT_CMD_APP_IL_CLEAR = 25"
definition EVENT_CMD_APP_OP :: u16 where "EVENT_CMD_APP_OP = 26"

lemmas event_defs = EVENT_CMD_MON_PING_def EVENT_CMD_MON_SNAPSHOT_def EVENT_CMD_ADC_READ_def EVENT_CMD_APP_ECHO_def
  EVENT_CMD_APP_ECHO_TO_def EVENT_CMD_APP_IL_CLEAR_def EVENT_CMD_APP_OP_def
lemmas app_cmd_defs = CMD_MON_PING_def CMD_MON_SNAPSHOT_def CMD_MON_STREAM_def CMD_APP_OP_def CMD_APP_ECHO_def CMD_APP_ECHO_TO_def
  CMD_APP_IL_CLEAR_def CMD_ADC_READ_def

record app_req =
  aq_req_id :: u16
  aq_addr :: u8
  aq_route :: u8
  aq_bus_src :: u8
  aq_bytes :: "u8 list"

record core =
  k_m :: master
  k_stream_on :: bool
  k_stream_period :: u16
  k_stream_next :: u32
  k_stream_batch :: u16
  k_deadline_miss :: u32
  k_max_overrun :: u32
  k_last_second :: int
  k_bb_mean :: "u32 option list"
  k_bb_max :: "u32 option list"
  k_bb_rms :: "u32 option list"
  k_hb :: u32
  k_hb_us :: u32

record app =
  p_core :: core
  p_slots :: "app_req list"
  p_head :: u8

text \<open>What a report quotes: the crash record, the stack marks of the four tasks, heap and pool figures, the depths of the event
  queue and a row (active, used, free) for every activated knowledge base.\<close>

record mon_env =
  me_boot_count :: u32
  me_last_cause :: u32
  me_panic_code :: u32
  me_stack :: "u16 list"
  me_free_heap :: u32
  me_min_heap :: u32
  me_total_heap :: u32
  me_perm_used :: u32
  me_perm_total :: u32
  me_heap_used :: u32
  me_heap_free :: u32
  me_hi_depth :: u16
  me_lo_depth :: u16
  me_kbs :: "(u8 \<times> u16 \<times> u16) list"

text \<open>\<open>te_late\<close> is the overrun of the schedule in microseconds when the wait of this tick was not positive; \<open>te_arriving\<close> are the
  commands the other core sends while the queue is being drained.\<close>

record tick_env =
  te_dev :: dev
  te_mon :: mon_env
  te_ms :: u32
  te_us :: u32
  te_sec :: int
  te_late :: "u32 option"
  te_arriving :: "appcore_cmd list"

definition upd_m :: "(master \<Rightarrow> master) \<Rightarrow> core \<Rightarrow> core" where
  "upd_m f c = c\<lparr>k_m := f (k_m c)\<rparr>"

definition up_send :: "appcore_rep \<Rightarrow> core \<Rightarrow> core" where
  "up_send r = upd_m (\<lambda>m. m\<lparr>b_nd := (b_nd m)\<lparr>nd_up_q := x_queue_send UP_Q_DEPTH r (nd_up_q (b_nd m))\<rparr>\<rparr>)"

section \<open>The monitor\<close>

definition kb0_push_ping_reply :: "tick_env \<Rightarrow> u16 \<Rightarrow> core \<Rightarrow> core" where
  "kb0_push_ping_reply e req = up_send \<lparr>ar_dest = BUS_ADDR_APPCORE, ar_opcode = Bus_Node.OP_SHELL_REPLY,
     ar_payload = wr_u16 req @ [SHELL_OK] @ wr_u32 (te_ms e) @ wr_u16 (ucast (me_boot_count (te_mon e))) @ [KB0_VER]\<rparr>"

definition mon_w16 :: "u16 \<Rightarrow> u8 list" where "mon_w16 v = [ucast v, ucast (drop_bit 8 v)]"
definition mon_w32 :: "u32 \<Rightarrow> u8 list" where "mon_w32 v = map (\<lambda>i. ucast (drop_bit (8 * i) v)) [0..<4]"
definition mon_w64 :: "64 word \<Rightarrow> u8 list" where "mon_w64 v = map (\<lambda>i. ucast (drop_bit (8 * i) v)) [0..<8]"

definition mon_push :: "u16 \<Rightarrow> u8 list \<Rightarrow> core \<Rightarrow> core" where
  "mon_push op body = up_send \<lparr>ar_dest = BUS_ADDR_APPCORE, ar_opcode = op, ar_payload = take APPCORE_PAY_MAX body\<rparr>"

definition mon_head :: "u16 \<Rightarrow> u8 \<Rightarrow> u8 list" where "mon_head batch seq = mon_w16 batch @ [seq, 5, MON_VER]"

definition mon_sys :: "tick_env \<Rightarrow> u16 \<Rightarrow> u8 list" where
  "mon_sys e batch = (let r = te_mon e in mon_head batch 0 @ mon_w32 (te_ms e) @ mon_w16 (ucast (me_boot_count r))
     @ [ucast (me_last_cause r), 0xFF] @ mon_w32 (me_panic_code r) @ mon_w64 0)"

definition mon_tasks :: "tick_env \<Rightarrow> u16 \<Rightarrow> u8 list" where
  "mon_tasks e batch = mon_head batch 1 @ [4]
     @ concat (map (\<lambda>i. [word_of_nat i] @ mon_w16 (me_stack (te_mon e) ! i) @ mon_w16 0xFFFF) [0..<4])"

definition mon_mem :: "tick_env \<Rightarrow> u16 \<Rightarrow> u8 list" where
  "mon_mem e batch = (let r = te_mon e in mon_head batch 2 @ mon_w32 (me_free_heap r) @ mon_w32 (me_min_heap r) @ mon_w32 (me_total_heap r)
     @ mon_w32 (me_perm_used r) @ mon_w32 (me_perm_total r) @ mon_w32 (me_heap_used r) @ mon_w32 (me_heap_used r + me_heap_free r))"

definition mon_tick :: "tick_env \<Rightarrow> u16 \<Rightarrow> core \<Rightarrow> u8 list" where
  "mon_tick e batch c = (let r = te_mon e in mon_head batch 3 @ mon_w16 1000 @ mon_w16 (ucast (k_deadline_miss c)) @ mon_w16 (ucast (k_max_overrun c))
     @ [ucast (me_hi_depth r), 8, ucast (me_lo_depth r), 64])"

definition mon_kb :: "tick_env \<Rightarrow> u16 \<Rightarrow> u8 list" where
  "mon_kb e batch = (let r = te_mon e in mon_head batch 4 @ [word_of_nat (length (me_kbs r))]
     @ concat (map (\<lambda>(k, act, used, free). [word_of_nat k, act, 0] @ mon_w16 used @ mon_w16 (used + free) @ [0])
         (zip [0..<length (me_kbs r)] (me_kbs r))))"

definition kb0_emit_reports :: "tick_env \<Rightarrow> u16 \<Rightarrow> core \<Rightarrow> core" where
  "kb0_emit_reports e batch c =
     (let c = mon_push OP_MON_SYS (mon_sys e batch) c;
          c = mon_push OP_MON_TASKS (mon_tasks e batch) c;
          c = mon_push OP_MON_MEM (mon_mem e batch) c;
          tick = mon_tick e batch c;
          c = mon_push OP_MON_TICK tick (c\<lparr>k_deadline_miss := 0, k_max_overrun := 0\<rparr>);
          c = mon_push OP_MON_KB (mon_kb e batch) c
      in mon_push OP_MON_END (mon_w16 batch @ [5, 0, MON_VER]) c)"

definition kb0_on_snapshot :: "tick_env \<Rightarrow> u16 \<Rightarrow> core \<Rightarrow> core" where
  "kb0_on_snapshot e req c = kb0_emit_reports e req (mon_push Bus_Node.OP_SHELL_REPLY (mon_w16 req @ [SHELL_OK]) c)"

definition kb1_on_adc :: "u16 \<Rightarrow> core \<Rightarrow> core" where
  "kb1_on_adc req c = (let latest = g_adc_latest (nd_adc (b_nd (k_m c))) in
     up_send \<lparr>ar_dest = BUS_ADDR_APPCORE, ar_opcode = Bus_Node.OP_SHELL_REPLY,
       ar_payload = wr_u16 req @ [SHELL_OK] @ concat (map (\<lambda>ch. wr_u16 (latest ! ch)) [0..<unat ADC_NCH])\<rparr> c)"

section \<open>The application knowledge base\<close>

definition kbapp_reply :: "app_req \<Rightarrow> u8 list \<Rightarrow> core \<Rightarrow> core" where
  "kbapp_reply q body = up_send \<lparr>ar_dest = (if aq_route q = ROUTE_BUS then aq_bus_src q else BUS_ADDR_APPCORE),
     ar_opcode = Bus_Node.OP_SHELL_REPLY, ar_payload = take APPCORE_PAY_MAX body\<rparr>"

text \<open>To the bus the echo leaves four bytes for the count of the ping-pong, which the answering engine appends.\<close>

definition kbapp_on_echo :: "app_req \<Rightarrow> core \<Rightarrow> core" where
  "kbapp_on_echo q c =
     (let to_bus = (aq_route q = ROUTE_BUS);
          head = wr_u16 (aq_req_id q) @ [SHELL_OK] @ (if to_bus then [] else [KBAPP_VER]);
          cap = (if to_bus then APPCORE_PAY_MAX - 4 else APPCORE_PAY_MAX);
          p = head @ take (cap - length head) (aq_bytes q)
      in if to_bus
         then (let n = g_pp_slave (b_pp (k_m c)) + 1
               in kbapp_reply q (p @ wr_u32 n) (upd_m (\<lambda>m. m\<lparr>b_pp := (b_pp m)\<lparr>g_pp_slave := n\<rparr>\<rparr>) c))
         else kbapp_reply q p c)"

definition kbapp_on_il_clear :: "app_req \<Rightarrow> core \<Rightarrow> core" where
  "kbapp_on_il_clear q c = kbapp_reply q (wr_u16 (aq_req_id q) @ [SHELL_OK, 1])
     (upd_m (\<lambda>m. m\<lparr>b_nd := (b_nd m)\<lparr>nd_il := interlock_request_global_clear (nd_il (b_nd m))\<rparr>\<rparr>) c)"

definition sink_of :: "u8 \<Rightarrow> u8 \<Rightarrow> u16 \<Rightarrow> reply_sink" where
  "sink_of route src req = \<lparr>rs_kind = (if route = ROUTE_BUS then SINK_BUS else SINK_USB), rs_dest = src, rs_req_id = req\<rparr>"

text \<open>The answer to a dispatched command: none for an asynchronous one.\<close>

definition dispatch_reply :: "tick_env \<Rightarrow> u16 \<Rightarrow> u8 list \<Rightarrow> reply_sink \<Rightarrow> core \<Rightarrow> core run" where
  "dispatch_reply e op args sink c =
     (case node_cmd_dispatch (te_dev e) op args (word_of_nat APPCORE_PAY_MAX) sink (b_nd (k_m c)) of
        None \<Rightarrow> Undefined
      | Some (st, out, n) \<Rightarrow>
          Done (upd_m (\<lambda>m. m\<lparr>b_nd := (if st = SHELL_ASYNC then n
            else if st = CMD_NOT_MINE then reply_sink_send sink SHELL_UNKNOWN_CMD [] n
            else reply_sink_send sink st out n)\<rparr>) c))"

definition kbapp_on_op :: "tick_env \<Rightarrow> app_req \<Rightarrow> core \<Rightarrow> core run" where
  "kbapp_on_op e q c =
     (let sink = sink_of (aq_route q) (aq_bus_src q) (aq_req_id q) in
      if length (aq_bytes q) < 2 then Done (upd_m (\<lambda>m. m\<lparr>b_nd := reply_sink_send sink SHELL_BAD_ARGS [] (b_nd m)\<rparr>) c)
      else dispatch_reply e (le16 (aq_bytes q ! 0) (aq_bytes q ! 1)) (drop 2 (aq_bytes q)) sink c)"

text \<open>In cycle mode the engine is a producer of the message plane: the reply is correlated before the frame is attached.\<close>

definition echo_to_cycle :: "app_req \<Rightarrow> u8 list \<Rightarrow> master \<Rightarrow> master" where
  "echo_to_cycle q bytes m =
     (let k = b_cmd m; sr = c_orig_seq k + 1; sr = (if sr = 0 then sr + 1 else sr);
          pb = [lo8 Bus_Node.OP_SHELL_EXEC, hi8 Bus_Node.OP_SHELL_EXEC, lo8 sr, hi8 sr, lo8 CMD_APP_ECHO, hi8 CMD_APP_ECHO]
            @ take (BUS_PAYLOAD_MAX - 6) bytes;
          s = snd (corr_add sr (aq_addr q) True (aq_req_id q) (b_plane m));
          s = snd (bus_msg_send (aq_addr q) pb (0xC2000000 OR ucast sr) s)
      in m\<lparr>b_cmd := k\<lparr>c_orig_seq := sr\<rparr>, b_plane := s\<rparr>)"

definition kbapp_on_echo_to :: "app_req \<Rightarrow> core \<Rightarrow> core" where
  "kbapp_on_echo_to q = upd_m (\<lambda>m.
     let m = m\<lparr>b_pp := (b_pp m)\<lparr>g_pp_master := g_pp_master (b_pp m) + 1\<rparr>\<rparr>; bytes = take ORIG_PAY_MAX (aq_bytes q)
     in if y_mode (b_cyc m) \<noteq> 0 then echo_to_cycle q bytes m
        else m\<lparr>b_orig_q := x_queue_send ORIG_Q_DEPTH \<lparr>or_addr = aq_addr q, or_host_req_id = aq_req_id q, or_bytes = bytes\<rparr> (b_orig_q m)\<rparr>)"

definition kb0_on_cmd_timeout :: "core \<Rightarrow> core" where "kb0_on_cmd_timeout c = c"

section \<open>The user functions of the image\<close>

text \<open>The events of the monitor carry the id of the request, those of the application a pointer to a slot.\<close>

definition on_int :: "event_value \<Rightarrow> (u16 \<Rightarrow> core \<Rightarrow> core) \<Rightarrow> app \<Rightarrow> app run" where
  "on_int v f a = (case v of V_int x \<Rightarrow> Done (a\<lparr>p_core := f (ucast x) (p_core a)\<rparr>) | _ \<Rightarrow> Undefined)"

definition on_slot :: "event_value \<Rightarrow> (app_req \<Rightarrow> core \<Rightarrow> core run) \<Rightarrow> app \<Rightarrow> app run" where
  "on_slot v f a = (case v of
     V_slot i \<Rightarrow> run_bind (f (p_slots a ! i) (p_core a)) (\<lambda>c. Done (a\<lparr>p_core := c\<rparr>))
   | V_null \<Rightarrow> Done a
   | _ \<Rightarrow> Undefined)"

definition app_user :: "tick_env \<Rightarrow> nat \<Rightarrow> event_value \<Rightarrow> app \<Rightarrow> app run" where
  "app_user e k v a =
     (if k = 12 then on_int v (kb0_push_ping_reply e) a
      else if k = 13 then on_int v (kb0_on_snapshot e) a
      else if k = 1 then on_int v kb1_on_adc a
      else if k = 2 then on_slot v (\<lambda>q c. Done (kbapp_on_echo q c)) a
      else if k = 3 then on_slot v (\<lambda>q c. Done (kbapp_on_echo_to q c)) a
      else if k = 4 then on_slot v (\<lambda>q c. Done (kbapp_on_il_clear q c)) a
      else if k = 5 then on_slot v (kbapp_on_op e) a
      else Done (a\<lparr>p_core := kb0_on_cmd_timeout (p_core a)\<rparr>))"

section \<open>Before a cycle\<close>

definition publish :: "u32 \<Rightarrow> u32 option \<Rightarrow> u32 option" where
  "publish v s = (case s of None \<Rightarrow> None | Some w \<Rightarrow> Some v)"

definition adc_publish_10hz :: "core \<Rightarrow> core" where
  "adc_publish_10hz c =
     (let st = (\<lambda>ch. g_win_stat (nd_adc (b_nd (k_m c))) ! ch ! ADC_WIN_10HZ)
      in c\<lparr>k_bb_mean := map (\<lambda>(ch, s). publish (ucast (w_avg (st ch))) s) (zip [0..<unat ADC_NCH] (k_bb_mean c)),
           k_bb_max := map (\<lambda>(ch, s). publish (ucast (w_max (st ch))) s) (zip [0..<unat ADC_NCH] (k_bb_max c)),
           k_bb_rms := map (\<lambda>(ch, s). publish (ucast (w_rms (st ch))) s) (zip [0..<unat ADC_NCH] (k_bb_rms c))\<rparr>)"

definition bench_publish :: "core \<Rightarrow> core" where
  "bench_publish = upd_m (\<lambda>m. let n = b_nd m; h = nd_hil n in m\<lparr>b_nd := n\<lparr>
     nd_bb_gpio_raw := publish (ucast (b_gpio_raw h)) (nd_bb_gpio_raw n),
     nd_bb_gpio_deb := publish (ucast (b_gpio_deb h)) (nd_bb_gpio_deb n),
     nd_bb_cnt := map (\<lambda>(i, s). publish (b_pulse_count h ! i) s) (zip [0..<unat HIL_GPIO_COUNT] (nd_bb_cnt n))\<rparr>\<rparr>)"

definition stream_command :: "tick_env \<Rightarrow> appcore_cmd \<Rightarrow> core \<Rightarrow> core" where
  "stream_command e k c =
     (let args = ac_args k;
          c = (if length args \<ge> 3
               then (let per = le16 (args ! 1) (args ! 2); per = (if per < 50 then 50 else per)
                     in c\<lparr>k_stream_on := (args ! 0 \<noteq> 0), k_stream_period := per, k_stream_next := te_ms e + ucast per\<rparr>)
               else c)
      in up_send \<lparr>ar_dest = BUS_ADDR_APPCORE, ar_opcode = Bus_Node.OP_SHELL_REPLY, ar_payload = wr_u16 (ac_req_id k) @ [SHELL_OK]\<rparr> c)"

definition stream_pace :: "tick_env \<Rightarrow> core \<Rightarrow> core" where
  "stream_pace e c =
     (if k_stream_on c \<and> g_host_connected (b_up (k_m c)) \<and> 0 \<le> sint (te_ms e - k_stream_next c)
      then (kb0_emit_reports e (k_stream_batch c) (c\<lparr>k_stream_batch := k_stream_batch c + 1\<rparr>))
         \<lparr>k_stream_next := te_ms e + ucast (k_stream_period c)\<rparr>
      else c)"

text \<open>The request a command leaves in a slot.\<close>

definition app_req_of :: "appcore_cmd \<Rightarrow> app_req" where
  "app_req_of k = \<lparr>aq_req_id = ac_req_id k,
     aq_addr = (if ac_cmd k = CMD_APP_ECHO_TO \<and> length (ac_args k) \<ge> 1 then ac_args k ! 0 else 0),
     aq_route = ac_route k, aq_bus_src = ac_bus_src k,
     aq_bytes = take APPCORE_ARGS_MAX (if ac_cmd k = CMD_APP_IL_CLEAR then [] else if ac_cmd k = CMD_APP_ECHO_TO then drop 1 (ac_args k) else ac_args k)\<rparr>"

definition send_slot :: "kb_reg \<Rightarrow> u16 \<Rightarrow> appcore_cmd \<Rightarrow> event_queue \<Rightarrow> app \<Rightarrow> (event_queue \<times> app) run" where
  "send_slot g eid k q a =
     (let i = unat (p_head a);
          a = a\<lparr>p_slots := (p_slots a)[i := app_req_of k], p_head := (p_head a + 1) mod word_of_nat APP_REQ_SLOTS\<rparr>
      in run_bind (cfl_send_data_event CFL_EVENT_PRIORITY_LOW (word_of_nat (g_kbapp_node g)) False eid (V_slot i) q) (\<lambda>q. Done (q, a)))"

definition send_int :: "nat \<Rightarrow> u16 \<Rightarrow> appcore_cmd \<Rightarrow> event_queue \<Rightarrow> app \<Rightarrow> (event_queue \<times> app) run" where
  "send_int node eid k q a =
     run_bind (cfl_send_integer_event CFL_EVENT_PRIORITY_HIGH (word_of_nat node) eid (ucast (ac_req_id k)) q) (\<lambda>q. Done (q, a))"

definition inject_cmd :: "tick_env \<Rightarrow> kb_reg \<Rightarrow> appcore_cmd \<Rightarrow> event_queue \<Rightarrow> app \<Rightarrow> (event_queue \<times> app) run" where
  "inject_cmd e g k q a =
     (if ac_cmd k = CMD_MON_PING then send_int (g_kb0_node g) EVENT_CMD_MON_PING k q a
      else if ac_cmd k = CMD_MON_SNAPSHOT then send_int (g_kb0_node g) EVENT_CMD_MON_SNAPSHOT k q a
      else if ac_cmd k = CMD_ADC_READ then send_int (g_kb1_node g) EVENT_CMD_ADC_READ k q a
      else if ac_cmd k = CMD_APP_ECHO then send_slot g EVENT_CMD_APP_ECHO k q a
      else if ac_cmd k = CMD_APP_ECHO_TO then send_slot g EVENT_CMD_APP_ECHO_TO k q a
      else if ac_cmd k = CMD_APP_IL_CLEAR then send_slot g EVENT_CMD_APP_IL_CLEAR k q a
      else if ac_cmd k = CMD_APP_OP then send_slot g EVENT_CMD_APP_OP k q a
      else if ac_cmd k = CMD_MON_STREAM then Done (q, a\<lparr>p_core := stream_command e k (p_core a)\<rparr>)
      else run_bind (dispatch_reply e (ac_cmd k) (ac_args k) (sink_of (ac_route k) (ac_bus_src k) (ac_req_id k)) (p_core a))
        (\<lambda>c. Done (q, a\<lparr>p_core := c\<rparr>)))"

primrec drain_down :: "tick_env \<Rightarrow> kb_reg \<Rightarrow> appcore_cmd list \<Rightarrow> event_queue \<Rightarrow> app \<Rightarrow> (event_queue \<times> app) run" where
  "drain_down e g [] q a = Done (q, a)"
| "drain_down e g (k # ks) q a = run_bind (inject_cmd e g k q a) (\<lambda>(q, a). drain_down e g ks q a)"

definition received :: "tick_env \<Rightarrow> core \<Rightarrow> appcore_cmd list" where
  "received e c = b_down_q (k_m c) @ te_arriving e"

definition beat :: "tick_env \<Rightarrow> core \<Rightarrow> core" where
  "beat e c = c\<lparr>k_hb := k_hb c + 1, k_hb_us := te_us e\<rparr>"

definition cfl_embed_pre_tick :: "tick_env \<Rightarrow> kb_reg \<Rightarrow> event_queue \<Rightarrow> app \<Rightarrow> (event_queue \<times> app) run" where
  "cfl_embed_pre_tick e g q a =
     run_bind (drain_down e g (received e (p_core a)) q (a\<lparr>p_core := upd_m (\<lambda>m. m\<lparr>b_down_q := []\<rparr>) (beat e (p_core a))\<rparr>)) (\<lambda>(q, a).
       Done (q, a\<lparr>p_core := stream_pace e (bench_publish (adc_publish_10hz (p_core a)))\<rparr>))"

section \<open>A tick\<close>

definition cfl_timer_wait :: "tick_env \<Rightarrow> kb_reg \<Rightarrow> event_queue \<Rightarrow> app \<Rightarrow> (u32 \<times> event_queue \<times> app) run" where
  "cfl_timer_wait e g q a =
     (let c = p_core a;
          c = (case te_late e of None \<Rightarrow> c
               | Some over \<Rightarrow> c\<lparr>k_deadline_miss := k_deadline_miss c + 1,
                   k_max_overrun := (if over > k_max_overrun c then over else k_max_overrun c)\<rparr>)
      in run_bind (cfl_embed_pre_tick e g q (a\<lparr>p_core := c\<rparr>)) (\<lambda>(q, a).
        let changed = te_sec e \<noteq> k_last_second (p_core a)
        in Done (if changed then CFL_CHANGED_SECOND else 0, q,
                 if changed then a\<lparr>p_core := (p_core a)\<lparr>k_last_second := te_sec e\<rparr>\<rparr> else a)))"

text \<open>One turn of the loop of \<open>cfl_runtime_run\<close>: the wait, then the cycle of the engine.\<close>

definition app_tick :: "tick_env \<Rightarrow> kb_reg \<Rightarrow> event_queue \<Rightarrow> app rt \<Rightarrow> (bool \<times> event_queue \<times> app rt) run" where
  "app_tick e g q s =
     run_bind (cfl_timer_wait e g q (r_user s)) (\<lambda>(changed, q, a).
       cfl_cycle (fw_image (app_user e)) changed [0..<length fw_kb_table] q (s\<lparr>r_user := a\<rparr>))"

section \<open>The engine of a node\<close>

text \<open>On a slave the responder hands two commands of the bus to the engine, and the pump stages the engine's replies for the next window.\<close>

definition node_engine_try_route :: "u8 \<Rightarrow> u16 \<Rightarrow> u16 \<Rightarrow> u8 list \<Rightarrow> appcore_cmd list option \<Rightarrow> bool \<times> appcore_cmd list option" where
  "node_engine_try_route src req cmd args dq =
     (if cmd \<noteq> CMD_APP_ECHO \<and> cmd \<noteq> CMD_APP_IL_CLEAR then (False, dq)
      else (case dq of None \<Rightarrow> (False, dq)
        | Some q \<Rightarrow> (True, Some (x_queue_send DOWN_Q_DEPTH \<lparr>ac_req_id = req, ac_cmd = cmd, ac_route = ROUTE_BUS, ac_bus_src = src,
            ac_args = take APPCORE_ARGS_MAX args\<rparr> q))))"

definition pump_reply :: "appcore_rep \<Rightarrow> node \<Rightarrow> node" where
  "pump_reply r n =
     (let b = [lo8 (ar_opcode r), hi8 (ar_opcode r)] @ take (BUS_PAYLOAD_MAX - 2) (ar_payload r)
      in snd (bus_node_queue n (ar_dest r) BUS_FT_DATA b (word_of_nat (length b))))"

definition node_reply_pump :: "appcore_rep list \<Rightarrow> node \<Rightarrow> appcore_rep list \<times> node" where
  "node_reply_pump up n = ([], fold pump_reply up n)"

end
