(* ===== verification/App_Tick.thy ===== *)
theory App_Tick
  imports App_Core
begin

text \<open>
  What a tick of the application core does with the commands it receives: a specification that serves each command directly,
  without events, queue and slots, and the proof that the tick comes to it as long as at most seven commands of the
  monitor and four of the application arrive together; what happens beyond.
\<close>

section \<open>Commands, directly\<close>

definition is_high :: "appcore_cmd \<Rightarrow> bool" where
  "is_high k \<longleftrightarrow> ac_cmd k = CMD_MON_PING \<or> ac_cmd k = CMD_MON_SNAPSHOT \<or> ac_cmd k = CMD_ADC_READ"

definition is_low :: "appcore_cmd \<Rightarrow> bool" where
  "is_low k \<longleftrightarrow> ac_cmd k = CMD_APP_ECHO \<or> ac_cmd k = CMD_APP_ECHO_TO \<or> ac_cmd k = CMD_APP_IL_CLEAR \<or> ac_cmd k = CMD_APP_OP"

definition inline :: "tick_env \<Rightarrow> appcore_cmd \<Rightarrow> core \<Rightarrow> core run" where
  "inline e k c =
     (if is_high k \<or> is_low k then Done c
      else if ac_cmd k = CMD_MON_STREAM then Done (stream_command e k c)
      else dispatch_reply e (ac_cmd k) (ac_args k) (sink_of (ac_route k) (ac_bus_src k) (ac_req_id k)) c)"

primrec inline_all :: "tick_env \<Rightarrow> appcore_cmd list \<Rightarrow> core \<Rightarrow> core run" where
  "inline_all e [] c = Done c"
| "inline_all e (k # ks) c = run_bind (inline e k c) (inline_all e ks)"

definition serve_high :: "tick_env \<Rightarrow> appcore_cmd \<Rightarrow> core \<Rightarrow> core run" where
  "serve_high e k c = Done (if ac_cmd k = CMD_MON_PING then kb0_push_ping_reply e (ac_req_id k) c
     else if ac_cmd k = CMD_MON_SNAPSHOT then kb0_on_snapshot e (ac_req_id k) c else kb1_on_adc (ac_req_id k) c)"

definition serve_low :: "tick_env \<Rightarrow> u16 \<Rightarrow> app_req \<Rightarrow> core \<Rightarrow> core run" where
  "serve_low e cmd r c =
     (if cmd = CMD_APP_ECHO then Done (kbapp_on_echo r c) else if cmd = CMD_APP_ECHO_TO then Done (kbapp_on_echo_to r c)
      else if cmd = CMD_APP_IL_CLEAR then Done (kbapp_on_il_clear r c) else kbapp_on_op e r c)"

primrec serve_highs :: "tick_env \<Rightarrow> appcore_cmd list \<Rightarrow> core \<Rightarrow> core run" where
  "serve_highs e [] c = Done c"
| "serve_highs e (k # ks) c = run_bind (serve_high e k c) (serve_highs e ks)"

primrec serve_lows :: "tick_env \<Rightarrow> (appcore_cmd \<times> app_req) list \<Rightarrow> core \<Rightarrow> core run" where
  "serve_lows e [] c = Done c"
| "serve_lows e (kr # krs) c = run_bind (serve_low e (ac_cmd (fst kr)) (snd kr) c) (serve_lows e krs)"

section \<open>The drain of the command queue\<close>

definition fw_reg :: kb_reg where "fw_reg = \<lparr>g_appkb = [0, 9, 14], g_kb0_node = 0, g_kb1_node = 9, g_kbapp_node = 14\<rparr>"

definition event_id :: "u16 \<Rightarrow> u16" where
  "event_id cmd = (if cmd = CMD_MON_PING then 20 else if cmd = CMD_MON_SNAPSHOT then 21 else if cmd = CMD_ADC_READ then 22
     else if cmd = CMD_APP_ECHO then 23 else if cmd = CMD_APP_ECHO_TO then 24 else if cmd = CMD_APP_IL_CLEAR then 25 else 26)"

definition high_event :: "event_queue \<Rightarrow> appcore_cmd \<Rightarrow> event" where
  "high_event q k = the_event (if ac_cmd k = CMD_ADC_READ then 9 else 0) CFL_EVENT_TYPE_INT False (event_id (ac_cmd k)) (V_int (ucast (ac_req_id k))) q"

definition low_event :: "event_queue \<Rightarrow> nat \<Rightarrow> appcore_cmd \<Rightarrow> event" where
  "low_event q i k = the_event 14 CFL_EVENT_TYPE_PTR False (event_id (ac_cmd k)) (V_slot i) q"

primrec low_events :: "event_queue \<Rightarrow> nat \<Rightarrow> appcore_cmd list \<Rightarrow> event list" where
  "low_events q h [] = []"
| "low_events q h (k # ks) = low_event q (h mod 4) k # low_events q (Suc h) ks"

primrec fill_slots :: "nat \<Rightarrow> appcore_cmd list \<Rightarrow> app_req list \<Rightarrow> app_req list" where
  "fill_slots h [] S = S"
| "fill_slots h (k # ks) S = fill_slots (Suc h) ks (S[h mod 4 := app_req_of k])"

lemma event_eq: "q_id q = q_id q' \<Longrightarrow> the_event n t m i d q = the_event n t m i d q'"
  by (simp add: the_event_def)

lemma events_id: "q_id q = q_id q' \<Longrightarrow> high_event q = high_event q'" "q_id q = q_id q' \<Longrightarrow> low_events q = low_events q'"
proof -
  assume q: "q_id q = q_id q'"
  show "high_event q = high_event q'" by (rule ext) (simp add: high_event_def event_eq [OF q])
  have "low_events q h ks = low_events q' h ks" for h ks
    by (induction ks arbitrary: h) (simp_all add: low_event_def event_eq [OF q])
  then show "low_events q = low_events q'" by (intro ext)
qed

lemma head_step: "unat h < 4 \<Longrightarrow> unat ((h + 1 :: u8) mod word_of_nat APP_REQ_SLOTS) = Suc (unat h) mod 4"
  by (simp add: APP_REQ_SLOTS_def unat_mod unat_word_ariths)

lemma disjoint_cmds: "is_high k \<Longrightarrow> \<not> is_low k"
  by (auto simp: is_high_def is_low_def app_cmd_defs)

definition head_ok :: "app \<Rightarrow> bool" where "head_ok a \<longleftrightarrow> length (p_slots a) = 4 \<and> unat (p_head a) < 4"

lemma inject_high:
  assumes "is_high k" "evq_inv q" "evq_room CFL_EVENT_PRIORITY_HIGH q \<noteq> 0"
  obtains q' where "inject_cmd e fw_reg k q a = Done (q', a)" "evq_inv q'" "q_id q' = q_id q" "evq_high q' = evq_high q @ [high_event q k]"
    "evq_low q' = evq_low q" "evq_room CFL_EVENT_PRIORITY_HIGH q' = evq_room CFL_EVENT_PRIORITY_HIGH q - 1"
    "evq_room CFL_EVENT_PRIORITY_LOW q' = evq_room CFL_EVENT_PRIORITY_LOW q" "\<And>hi lo. evq_caps q' hi lo = evq_caps q hi lo"
proof -
  have ty: "CFL_EVENT_TYPE_INT \<le> CFL_EVENT_TYPE_NULL" by (simp add: CFL_EVENT_TYPE_INT_def CFL_EVENT_TYPE_NULL_def)
  obtain q' where q': "cfl_send_event CFL_EVENT_PRIORITY_HIGH (if ac_cmd k = CMD_ADC_READ then 9 else 0) CFL_EVENT_TYPE_INT False
      (event_id (ac_cmd k)) (V_int (ucast (ac_req_id k))) q = Done q'" "evq_inv q'" "q_id q' = q_id q"
    "evq_high q' = evq_high q @ [high_event q k]" "evq_low q' = evq_low q" "\<forall>r. evq_room r q' = (if r = CFL_EVENT_PRIORITY_HIGH then evq_room r q - 1 else evq_room r q)"
    by (rule send_room [OF assms(2,3) _ ty]) (simp_all add: high_event_def)
  have "inject_cmd e fw_reg k q a = Done (q', a)"
    using assms(1) q'(1) by (auto simp: is_high_def inject_cmd_def send_int_def cfl_send_integer_event_def fw_reg_def event_id_def event_defs app_cmd_defs)
  then show thesis by (rule that) (use q' send_caps [OF q'(1)] in \<open>simp_all add: priorities\<close>)
qed

lemma inject_low:
  assumes "is_low k" "evq_inv q" "evq_room CFL_EVENT_PRIORITY_LOW q \<noteq> 0" "head_ok a"
  obtains q' a' where "inject_cmd e fw_reg k q a = Done (q', a')" "evq_inv q'" "q_id q' = q_id q" "evq_high q' = evq_high q"
    "evq_low q' = evq_low q @ [low_event q (unat (p_head a)) k]" "evq_room CFL_EVENT_PRIORITY_HIGH q' = evq_room CFL_EVENT_PRIORITY_HIGH q"
    "evq_room CFL_EVENT_PRIORITY_LOW q' = evq_room CFL_EVENT_PRIORITY_LOW q - 1" "\<And>hi lo. evq_caps q' hi lo = evq_caps q hi lo"
    "p_core a' = p_core a" "p_slots a' = (p_slots a)[unat (p_head a) := app_req_of k]" "unat (p_head a') = Suc (unat (p_head a)) mod 4"
proof -
  have ty: "CFL_EVENT_TYPE_PTR \<le> CFL_EVENT_TYPE_NULL" by (simp add: CFL_EVENT_TYPE_PTR_def CFL_EVENT_TYPE_NULL_def)
  obtain q' where q': "cfl_send_event CFL_EVENT_PRIORITY_LOW 14 CFL_EVENT_TYPE_PTR False
      (event_id (ac_cmd k)) (V_slot (unat (p_head a))) q = Done q'" "evq_inv q'" "q_id q' = q_id q"
    "evq_high q' = evq_high q" "evq_low q' = evq_low q @ [low_event q (unat (p_head a)) k]"
    "\<forall>r. evq_room r q' = (if (r = CFL_EVENT_PRIORITY_HIGH) = False then evq_room r q - 1 else evq_room r q)"
    by (rule send_room [OF assms(2,3) _ ty]) (simp_all add: low_event_def priorities)
  let ?a = "a\<lparr>p_slots := (p_slots a)[unat (p_head a) := app_req_of k], p_head := (p_head a + 1) mod word_of_nat APP_REQ_SLOTS\<rparr>"
  have "inject_cmd e fw_reg k q a = Done (q', ?a)"
    using assms(1) q'(1) by (auto simp: is_low_def inject_cmd_def send_slot_def cfl_send_data_event_def fw_reg_def event_id_def event_defs app_cmd_defs)
  then show thesis
    by (rule that) (use q' send_caps [OF q'(1)] assms(4) head_step in \<open>simp_all add: priorities head_ok_def\<close>)
qed

lemma inject_inline:
  assumes "\<not> is_high k" "\<not> is_low k"
  shows "inject_cmd e g k q a = run_bind (inline e k (p_core a)) (\<lambda>c. Done (q, a\<lparr>p_core := c\<rparr>))"
  using assms by (auto simp: is_high_def is_low_def inject_cmd_def inline_def)


definition drained :: "event_queue \<Rightarrow> appcore_cmd list \<Rightarrow> app \<Rightarrow> core \<Rightarrow> event_queue \<times> app \<Rightarrow> bool" where
  "drained q ks a c x \<longleftrightarrow> (case x of (q', a') \<Rightarrow> evq_inv q' \<and> q_id q' = q_id q \<and> (\<forall>hi lo. evq_caps q' hi lo = evq_caps q hi lo)
     \<and> evq_high q' = evq_high q @ map (high_event q) (filter is_high ks)
     \<and> evq_low q' = evq_low q @ low_events q (unat (p_head a)) (filter is_low ks)
     \<and> p_core a' = c \<and> head_ok a' \<and> p_slots a' = fill_slots (unat (p_head a)) (filter is_low ks) (p_slots a))"

lemma outcome_refl: "(\<And>x. r = Done x \<Longrightarrow> P x x) \<Longrightarrow> outcome r r P"
  by (cases r) (simp_all add: outcome_def)

lemma low_events_mod: "low_events q (h mod 4) ks = low_events q h ks"
proof (induction ks arbitrary: h)
  case (Cons k ks)
  have "low_events q (Suc (h mod 4)) ks = low_events q (Suc (h mod 4) mod 4) ks" by (rule Cons.IH [symmetric])
  also have "Suc (h mod 4) mod 4 = Suc h mod 4" by (rule mod_Suc_eq)
  finally show ?case by (simp add: Cons.IH)
qed simp

lemma fill_slots_mod: "fill_slots (h mod 4) ks S = fill_slots h ks S"
proof (induction ks arbitrary: h S)
  case (Cons k ks)
  have "fill_slots (Suc (h mod 4)) ks T = fill_slots (Suc h) ks T" for T
    using Cons.IH [of "Suc (h mod 4)" T] Cons.IH [of "Suc h" T] by (simp add: mod_Suc_eq)
  then show ?case by (simp add: Cons.IH)
qed simp

lemma drain_spec:
  assumes "evq_inv q" "length (filter is_high ks) \<le> evq_room CFL_EVENT_PRIORITY_HIGH q"
    "length (filter is_low ks) \<le> evq_room CFL_EVENT_PRIORITY_LOW q" "head_ok a"
  shows "outcome (inline_all e ks (p_core a)) (drain_down e fw_reg ks q a) (drained q ks a)"
  using assms
proof (induction ks arbitrary: q a)
  case Nil
  then show ?case by (simp add: outcome_def drained_def)
next
  case (Cons k ks)
  consider (high) "is_high k" | (low) "is_low k" "\<not> is_high k" | (other) "\<not> is_high k" "\<not> is_low k" by blast
  then show ?case
  proof cases
    case high
    have nl: "\<not> is_low k" using high by (rule disjoint_cmds)
    obtain q' where q': "inject_cmd e fw_reg k q a = Done (q', a)" "evq_inv q'" "q_id q' = q_id q" "evq_high q' = evq_high q @ [high_event q k]"
      "evq_low q' = evq_low q" "evq_room CFL_EVENT_PRIORITY_HIGH q' = evq_room CFL_EVENT_PRIORITY_HIGH q - 1"
      "evq_room CFL_EVENT_PRIORITY_LOW q' = evq_room CFL_EVENT_PRIORITY_LOW q" "\<And>hi lo. evq_caps q' hi lo = evq_caps q hi lo"
      by (rule inject_high [OF high Cons.prems(1), of e a]) (use Cons.prems(2) high in auto)
    have "outcome (inline_all e ks (p_core a)) (drain_down e fw_reg ks q' a) (drained q' ks a)"
      by (rule Cons.IH) (use q' Cons.prems high nl in auto)
    then have "outcome (inline_all e ks (p_core a)) (drain_down e fw_reg ks q' a) (drained q (k # ks) a)"
      by (rule outcome_mono) (use q' high nl in \<open>auto simp: drained_def events_id [OF q'(3)]\<close>)
    then show ?thesis by (simp add: q'(1) inline_def high)
  next
    case low
    obtain q' a' where q': "inject_cmd e fw_reg k q a = Done (q', a')" "evq_inv q'" "q_id q' = q_id q" "evq_high q' = evq_high q"
      "evq_low q' = evq_low q @ [low_event q (unat (p_head a)) k]" "evq_room CFL_EVENT_PRIORITY_HIGH q' = evq_room CFL_EVENT_PRIORITY_HIGH q"
      "evq_room CFL_EVENT_PRIORITY_LOW q' = evq_room CFL_EVENT_PRIORITY_LOW q - 1" "\<And>hi lo. evq_caps q' hi lo = evq_caps q hi lo"
      and a': "p_core a' = p_core a" "p_slots a' = (p_slots a)[unat (p_head a) := app_req_of k]" "unat (p_head a') = Suc (unat (p_head a)) mod 4"
      by (rule inject_low [OF low(1) Cons.prems(1) _ Cons.prems(4), of e]) (use Cons.prems(3) low in auto)
    have ok: "head_ok a'" using a' Cons.prems(4) by (simp add: head_ok_def)
    have h: "unat (p_head a) mod 4 = unat (p_head a)" using Cons.prems(4) by (simp add: head_ok_def)
    have "outcome (inline_all e ks (p_core a')) (drain_down e fw_reg ks q' a') (drained q' ks a')"
      by (rule Cons.IH) (use q' ok Cons.prems low in auto)
    then have "outcome (inline_all e ks (p_core a)) (drain_down e fw_reg ks q' a') (drained q (k # ks) a)"
      unfolding a'(1)
      by (rule outcome_mono) (use q' a' low h in \<open>auto simp: drained_def events_id [OF q'(3)] low_events_mod fill_slots_mod\<close>)
    then show ?thesis by (simp add: q'(1) inline_def low)
  next
    case other
    have "outcome (run_bind (inline e k (p_core a)) (inline_all e ks))
      (run_bind (inject_cmd e fw_reg k q a) (\<lambda>(q, a). drain_down e fw_reg ks q a)) (drained q (k # ks) a)"
    proof (rule outcome_bind [where P = "\<lambda>c x. x = (q, a\<lparr>p_core := c\<rparr>)"])
      show "outcome (inline e k (p_core a)) (inject_cmd e fw_reg k q a) (\<lambda>c x. x = (q, a\<lparr>p_core := c\<rparr>))"
        by (cases "inline e k (p_core a)") (simp_all add: outcome_def inject_inline [OF other])
      fix c x assume x: "x = (q, a\<lparr>p_core := c\<rparr>)"
      have "outcome (inline_all e ks (p_core (a\<lparr>p_core := c\<rparr>))) (drain_down e fw_reg ks q (a\<lparr>p_core := c\<rparr>)) (drained q ks (a\<lparr>p_core := c\<rparr>))"
        by (rule Cons.IH) (use Cons.prems other in \<open>auto simp: head_ok_def\<close>)
      then show "outcome (inline_all e ks c) (case x of (q, a) \<Rightarrow> drain_down e fw_reg ks q a) (drained q (k # ks) a)"
        unfolding x by (auto simp: drained_def other elim: outcome_mono)
    qed
    then show ?thesis by simp
  qed
qed

section \<open>Which request a slot holds\<close>

text \<open>The last command that was written to the slot of the \<open>j\<close>th of \<open>n\<close> commands.\<close>

definition last_at :: "nat \<Rightarrow> nat \<Rightarrow> nat" where "last_at n j = j + 4 * ((n - 1 - j) div 4)"

lemma last_at_own: "n \<le> 4 \<Longrightarrow> j < n \<Longrightarrow> last_at n j = j"
  by (simp add: last_at_def)

lemma fill_snoc: "fill_slots h (ks @ [k]) S = (fill_slots h ks S)[(h + length ks) mod 4 := app_req_of k]"
  by (induction ks arbitrary: h S) simp_all

lemma fill_length [simp]: "length (fill_slots h ks S) = length S"
  by (induction ks arbitrary: h S) simp_all

lemma same_slot: "(x :: nat) mod 4 = (x + d) mod 4 \<longleftrightarrow> d mod 4 = 0"
  using mod_eq_dvd_iff_nat [of x "x + d" 4] by (auto simp: dvd_eq_mod_eq_0)

lemma other_slot: "d mod 4 \<noteq> 0 \<Longrightarrow> (d::nat) \<noteq> 0" "d mod 4 \<noteq> 0 \<Longrightarrow> d div 4 = (d - 1) div 4"
  "d mod 4 \<noteq> 0 \<Longrightarrow> 4 * ((d - 1) div 4) < d"
  by (cases d; simp add: div_Suc less_Suc_eq_le)+

lemma fill_nth:
  assumes "length S = 4" "j < length ks"
  shows "fill_slots h ks S ! ((h + j) mod 4) = app_req_of (ks ! last_at (length ks) j)"
  using assms(2)
proof (induction ks rule: rev_induct)
  case (snoc k ks)
  define d where "d = length ks - j"
  have n: "length ks = j + d" using snoc.prems by (simp add: d_def)
  have c: "(h + j) mod 4 = (h + length ks) mod 4 \<longleftrightarrow> d mod 4 = 0" using same_slot [of "h + j" d] by (simp add: n add.assoc)
  show ?case
  proof (cases "d mod 4 = 0")
    case True
    have "last_at (Suc (length ks)) j = length ks" using True by (auto simp: last_at_def n)
    then show ?thesis using assms(1) c True by (simp add: fill_snoc)
  next
    case False
    note d = other_slot [OF False]
    have "last_at (Suc (length ks)) j = last_at (length ks) j" "last_at (length ks) j < length ks" "j < length ks"
      using d by (simp_all add: last_at_def n)
    then show ?thesis using False c snoc.IH by (simp add: fill_snoc nth_append)
  qed
qed simp

section \<open>The handlers of the events\<close>

lemma req_int: "ucast (ucast x :: u32) = (x :: u16)"
  by (rule bit_word_eqI) (auto simp: bit_simps)

lemma run_highs:
  assumes "\<forall>k\<in>set ks. is_high k"
  shows "run_handlers (app_user e) (map (high_event q) ks) a = run_bind (serve_highs e ks (p_core a)) (\<lambda>c. Done (a\<lparr>p_core := c\<rparr>))"
  using assms
proof (induction ks arbitrary: a)
  case (Cons k ks)
  have "app_user e (handler_of (high_event q k)) (ev_data (high_event q k)) a = run_bind (serve_high e k (p_core a)) (\<lambda>c. Done (a\<lparr>p_core := c\<rparr>))"
    using Cons.prems by (auto simp: is_high_def high_event_def the_event_def handler_of_def event_id_def app_user_def on_int_def serve_high_def app_cmd_defs req_int)
  then show ?case using Cons by (simp add: serve_high_def)
qed simp

lemma run_lows:
  assumes "\<forall>k\<in>set ks. is_low k"
  shows "run_handlers (app_user e) (low_events q h ks) a = run_bind
     (serve_lows e (map (\<lambda>j. (ks ! j, p_slots a ! ((h + j) mod 4))) [0..<length ks]) (p_core a)) (\<lambda>c. Done (a\<lparr>p_core := c\<rparr>))"
  using assms
proof (induction ks arbitrary: a h)
  case (Cons k ks)
  let ?r = "p_slots a ! (h mod 4)"
  have 1: "app_user e (handler_of (low_event q (h mod 4) k)) (ev_data (low_event q (h mod 4) k)) a
      = run_bind (serve_low e (ac_cmd k) ?r (p_core a)) (\<lambda>c. Done (a\<lparr>p_core := c\<rparr>))"
    using Cons.prems by (auto simp: is_low_def low_event_def the_event_def handler_of_def event_id_def app_user_def on_slot_def serve_low_def app_cmd_defs)
  have 2: "map (\<lambda>j. ((k # ks) ! j, p_slots a ! ((h + j) mod 4))) [0..<length (k # ks)]
      = (k, ?r) # map (\<lambda>j. (ks ! j, p_slots a ! ((Suc h + j) mod 4))) [0..<length ks]"
    by (simp only: length_Cons upt_conv_Cons map_Suc_upt [symmetric]) (simp add: comp_def)
  show ?case unfolding 2 using Cons by (simp add: 1)
qed simp

text \<open>The requests the pointer events of a tick refer to when they are handled.\<close>

definition low_requests :: "appcore_cmd list \<Rightarrow> (appcore_cmd \<times> app_req) list" where
  "low_requests ks = map (\<lambda>j. (ks ! j, app_req_of (ks ! last_at (length ks) j))) [0..<length ks]"

definition serve_all :: "tick_env \<Rightarrow> appcore_cmd list \<Rightarrow> (appcore_cmd \<times> app_req) list \<Rightarrow> core \<Rightarrow> core run" where
  "serve_all e ks krs c = run_bind (serve_highs e ks c) (serve_lows e krs)"

lemma run_tick:
  assumes "\<forall>k\<in>set hs. is_high k" "\<forall>k\<in>set ls. is_low k" "p_slots a = fill_slots h ls S" "length S = 4"
  shows "run_handlers (app_user e) (map (high_event q) hs @ low_events q h ls) a
    = run_bind (serve_all e hs (low_requests ls) (p_core a)) (\<lambda>c. Done (a\<lparr>p_core := c\<rparr>))"
proof -
  have app: "run_handlers f (es @ fs) a = run_bind (run_handlers f es a) (run_handlers f fs)" for f :: "nat \<Rightarrow> event_value \<Rightarrow> app \<Rightarrow> app run" and es fs a
  proof (induction es arbitrary: a)
    case (Cons x es)
    have "run_handlers f (es @ fs) = (\<lambda>a. run_bind (run_handlers f es a) (run_handlers f fs))" by (rule ext) (rule Cons.IH)
    then show ?case by simp
  qed simp
  have "map (\<lambda>j. (ls ! j, p_slots a ! ((h + j) mod 4))) [0..<length ls] = low_requests ls"
    unfolding low_requests_def assms(3) by (simp add: fill_nth [OF assms(4)])
  then show ?thesis by (simp add: app run_highs [OF assms(1)] run_lows [OF assms(2)] serve_all_def)
qed

lemma low_requests_own: "length ls \<le> 4 \<Longrightarrow> low_requests ls = map (\<lambda>k. (k, app_req_of k)) ls"
  by (rule nth_equalityI) (simp_all add: low_requests_def last_at_own)

lemma high_command: "is_high k \<Longrightarrow> is_command (high_event q k)"
  by (auto simp: is_high_def is_command_def fw_commands_def high_event_def the_event_def event_id_def app_cmd_defs)

lemma low_command: "\<forall>k\<in>set ks. is_low k \<Longrightarrow> \<forall>e\<in>set (low_events q h ks). is_command e"
  by (induction ks arbitrary: h) (auto simp: is_low_def is_command_def fw_commands_def low_event_def the_event_def event_id_def app_cmd_defs)

lemma low_events_length [simp]: "length (low_events q h ks) = length ks"
  by (induction ks arbitrary: h) simp_all

lemma idle_sys_user: "idle_sys (fw_image f) S s = idle_sys (fw_image g) S s"
proof -
  have "column_in (fw_image f) c st t = column_in (fw_image g) c st t" for c st t
    by (simp add: column_in_def wait_live_def split: col_state.splits)
  then have "cols_in (fw_image f) cs sts t = cols_in (fw_image g) cs sts t" for cs sts t by (simp add: cols_in_def)
  then show ?thesis by (simp add: idle_sys_def idle_kb_def unmarked_def)
qed

section \<open>The tick\<close>

definition late :: "tick_env \<Rightarrow> core \<Rightarrow> core" where
  "late e c = (case te_late e of None \<Rightarrow> c
     | Some over \<Rightarrow> c\<lparr>k_deadline_miss := k_deadline_miss c + 1, k_max_overrun := (if over > k_max_overrun c then over else k_max_overrun c)\<rparr>)"

definition next_second :: "tick_env \<Rightarrow> core \<Rightarrow> core" where
  "next_second e c = (if te_sec e \<noteq> k_last_second c then c\<lparr>k_last_second := te_sec e\<rparr> else c)"

text \<open>What a tick does before the engine runs, the engine's commands left out.\<close>

definition before_tick :: "tick_env \<Rightarrow> core \<Rightarrow> core run" where
  "before_tick e c =
     run_bind (inline_all e (received e c) (upd_m (\<lambda>m. m\<lparr>b_down_q := []\<rparr>) (beat e (late e c)))) (\<lambda>c.
       Done (next_second e (stream_pace e (bench_publish (adc_publish_10hz c)))))"

definition app_idle :: "col_state list list \<Rightarrow> event_queue \<Rightarrow> app rt \<Rightarrow> bool" where
  "app_idle S q s \<longleftrightarrow> evq_inv q \<and> evq_caps q 8 64 \<and> evq_high q = [] \<and> evq_low q = [] \<and> head_ok (r_user s)
     \<and> idle_sys (fw_image (\<lambda>k v u. Done u)) S s"

definition second_of :: "tick_env \<Rightarrow> core \<Rightarrow> u32" where
  "second_of e c = (if te_sec e \<noteq> k_last_second c then CFL_CHANGED_SECOND else 0)"

definition tick_done :: "col_state list list \<Rightarrow> u32 \<Rightarrow> core \<Rightarrow> bool \<times> event_queue \<times> app rt \<Rightarrow> bool" where
  "tick_done S changed c x \<longleftrightarrow> (case x of (stop, q', t) \<Rightarrow> \<not> stop \<and> p_core (r_user t) = c
     \<and> (\<exists>S'. app_idle S' q' t \<and> counts S' = aged changed (counts S)))"

lemma second_same [simp]: "k_last_second (upd_m f c) = k_last_second c" "k_last_second (up_send r c) = k_last_second c"
  "k_last_second (mon_push op b c) = k_last_second c" "k_last_second (kb0_emit_reports e n c) = k_last_second c"
  "k_last_second (stream_command e k c) = k_last_second c" "k_last_second (stream_pace e c) = k_last_second c"
  "k_last_second (bench_publish c) = k_last_second c" "k_last_second (adc_publish_10hz c) = k_last_second c"
  "k_last_second (beat e c) = k_last_second c" "k_last_second (late e c) = k_last_second c"
proof -
  show u: "k_last_second (upd_m f c) = k_last_second c" for f c by (simp add: upd_m_def)
  show s: "k_last_second (up_send r c) = k_last_second c" for r c by (simp add: up_send_def u)
  show p: "k_last_second (mon_push op b c) = k_last_second c" for op b c by (simp add: mon_push_def s)
  show e: "k_last_second (kb0_emit_reports e n c) = k_last_second c" for c n by (simp add: kb0_emit_reports_def Let_def p)
  show "k_last_second (stream_command e k c) = k_last_second c" by (simp add: stream_command_def Let_def s)
  show "k_last_second (stream_pace e c) = k_last_second c" by (simp add: stream_pace_def e)
  show "k_last_second (bench_publish c) = k_last_second c" by (simp add: bench_publish_def u)
  show "k_last_second (adc_publish_10hz c) = k_last_second c" by (simp add: adc_publish_10hz_def Let_def)
  show "k_last_second (beat e c) = k_last_second c" by (simp add: beat_def)
  show "k_last_second (late e c) = k_last_second c" by (simp add: late_def split: option.splits)
qed

lemma second_inline: "inline_all e ks c = Done c' \<Longrightarrow> k_last_second c' = k_last_second c"
proof (induction ks arbitrary: c)
  case (Cons k ks)
  then obtain c1 where c1: "inline e k c = Done c1" "inline_all e ks c1 = Done c'" by (auto simp: run_bind_Done_iff)
  have "k_last_second c1 = k_last_second c" using c1(1) by (auto simp: inline_def dispatch_reply_def split: if_splits option.splits)
  then show ?case using Cons.IH [OF c1(2)] by simp
qed simp

lemma idle_room:
  assumes "app_idle S q s"
  shows "evq_room CFL_EVENT_PRIORITY_HIGH q = 7" "evq_room CFL_EVENT_PRIORITY_LOW q = 63"
  using assms room_caps [of q 8 64] by (simp_all add: app_idle_def)

lemma wait_outcome:
  fixes s :: "app rt"
  defines "c0 \<equiv> p_core (r_user s)"
  assumes idle: "app_idle S q s" and room: "length (filter is_high (received e c0)) \<le> 7" "length (filter is_low (received e c0)) \<le> 63"
  shows "outcome (before_tick e c0) (cfl_timer_wait e fw_reg q (r_user s))
    (\<lambda>c (changed, q', a). changed = second_of e c0 \<and> p_core a = c \<and> head_ok a \<and> evq_inv q' \<and> evq_caps q' 8 64
       \<and> evq_high q' = map (high_event q) (filter is_high (received e c0))
       \<and> evq_low q' = low_events q (unat (p_head (r_user s))) (filter is_low (received e c0))
       \<and> p_slots a = fill_slots (unat (p_head (r_user s))) (filter is_low (received e c0)) (p_slots (r_user s)))"
proof -
  let ?a = "(r_user s)\<lparr>p_core := upd_m (\<lambda>m. m\<lparr>b_down_q := []\<rparr>) (beat e (late e c0))\<rparr>" and ?ks = "received e c0"
  have I: "evq_inv q" "evq_high q = []" "evq_low q = []" "evq_caps q 8 64" "head_ok ?a"
    using idle by (simp_all add: app_idle_def head_ok_def)
  have rec: "received e (late e c0) = ?ks" by (simp add: received_def late_def split: option.splits)
  have D: "outcome (inline_all e ?ks (p_core ?a)) (drain_down e fw_reg ?ks q ?a) (drained q ?ks ?a)"
    by (rule drain_spec [OF I(1) _ _ I(5)]) (use room idle_room [OF idle] in simp_all)
  have W: "cfl_timer_wait e fw_reg q (r_user s) = run_bind (drain_down e fw_reg ?ks q ?a) (\<lambda>(q, a).
      let a = a\<lparr>p_core := stream_pace e (bench_publish (adc_publish_10hz (p_core a)))\<rparr>; changed = te_sec e \<noteq> k_last_second (p_core a)
      in Done (if changed then CFL_CHANGED_SECOND else 0, q, if changed then a\<lparr>p_core := (p_core a)\<lparr>k_last_second := te_sec e\<rparr>\<rparr> else a))"
    unfolding cfl_timer_wait_def cfl_embed_pre_tick_def late_def [symmetric] Let_def c0_def [symmetric]
    by (simp add: rec case_prod_beta' cong: if_cong)
  show ?thesis unfolding W before_tick_def
  proof (rule outcome_bind)
    show "outcome (inline_all e ?ks (upd_m (\<lambda>m. m\<lparr>b_down_q := []\<rparr>) (beat e (late e c0)))) (drain_down e fw_reg ?ks q ?a) (drained q ?ks ?a)"
      using D by simp
  next
    fix c x assume c: "inline_all e ?ks (upd_m (\<lambda>m. m\<lparr>b_down_q := []\<rparr>) (beat e (late e c0))) = Done c" and x: "drained q ?ks ?a c x"
    have sec: "k_last_second c = k_last_second c0" using second_inline [OF c] by simp
    obtain q' a' where xa: "x = (q', a')" by (cases x)
    show "outcome (Done (next_second e (stream_pace e (bench_publish (adc_publish_10hz c)))))
      (case x of (q, a) \<Rightarrow>
      let a = a\<lparr>p_core := stream_pace e (bench_publish (adc_publish_10hz (p_core a)))\<rparr>; changed = te_sec e \<noteq> k_last_second (p_core a)
      in Done (if changed then CFL_CHANGED_SECOND else 0, q, if changed then a\<lparr>p_core := (p_core a)\<lparr>k_last_second := te_sec e\<rparr>\<rparr> else a))
      (\<lambda>c (changed, q', a). changed = second_of e c0 \<and> p_core a = c \<and> head_ok a \<and> evq_inv q' \<and> evq_caps q' 8 64
       \<and> evq_high q' = map (high_event q) (filter is_high ?ks)
       \<and> evq_low q' = low_events q (unat (p_head (r_user s))) (filter is_low ?ks)
       \<and> p_slots a = fill_slots (unat (p_head (r_user s))) (filter is_low ?ks) (p_slots (r_user s)))"
      using x I(2-5) by (simp add: xa drained_def outcome_def Let_def next_second_def second_of_def sec head_ok_def)
  qed
qed

text \<open>The handler of the timeout does nothing, so the age of a wait does not matter.\<close>

lemma app_quiet: "quiet (app_user e) S"
  by (simp add: quiet_def app_user_def kb0_on_cmd_timeout_def)

lemma tick_outcome:
  fixes s :: "app rt"
  defines "c0 \<equiv> p_core (r_user s)"
  assumes idle: "app_idle S q s"
    and room: "length (filter is_high (received e c0)) \<le> 7" "length (filter is_low (received e c0)) \<le> 61"
  shows "outcome (run_bind (before_tick e c0) (serve_all e (filter is_high (received e c0)) (low_requests (filter is_low (received e c0)))))
    (app_tick e fw_reg q s) (tick_done S (second_of e c0))"
proof -
  let ?hs = "filter is_high (received e c0)" and ?ls = "filter is_low (received e c0)" and ?f = "app_user e" and ?h = "unat (p_head (r_user s))"
  have slots: "length (p_slots (r_user s)) = 4" using idle by (simp add: app_idle_def head_ok_def)
  have "length fw_kb_table = 6" by (simp add: fw_kb_table_def)
  then have kbs: "[0..<length fw_kb_table] = [0..<6]" by (simp only:)
  note W = wait_outcome [OF idle, of e, folded c0_def]
  show ?thesis unfolding app_tick_def c0_def [symmetric]
  proof (rule outcome_bind [OF W])
    show "length ?hs \<le> 7" "length ?ls \<le> 63" using room by simp_all
  next
    fix c x
    assume x: "case x of (changed, q', a) \<Rightarrow> changed = second_of e c0 \<and> p_core a = c \<and> head_ok a \<and> evq_inv q' \<and> evq_caps q' 8 64
       \<and> evq_high q' = map (high_event q) ?hs \<and> evq_low q' = low_events q ?h ?ls \<and> p_slots a = fill_slots ?h ?ls (p_slots (r_user s))"
    obtain ch q' a where xa: "x = (ch, q', a)" by (cases x)
    have A: "ch = second_of e c0" "p_core a = c" "head_ok a" "evq_inv q'" "evq_caps q' 8 64" "evq_high q' = map (high_event q) ?hs"
      "evq_low q' = low_events q ?h ?ls" "p_slots a = fill_slots ?h ?ls (p_slots (r_user s))" using x by (simp_all add: xa)
    have id: "idle_sys (fw_image ?f) S (s\<lparr>r_user := a\<rparr>)"
    proof -
      have "idle_sys (fw_image ?f) S s" using idle by (simp add: app_idle_def idle_sys_user [of "app_user e" S s "\<lambda>k v u. Done u"])
      moreover have "idle_kb (fw_image ?f) i cs sts (clear_engine_flags (s\<lparr>r_user := a\<rparr>)) = idle_kb (fw_image ?f) i cs sts (clear_engine_flags s)" for i cs sts
        by (rule idle_kb_eq) (simp_all add: clear_engine_flags_def)
      ultimately show ?thesis by (simp add: idle_sys_def unmarked_def)
    qed
    have cmds: "\<forall>ev\<in>set (evq_high q' @ evq_low q'). is_command ev"
      using low_command [of ?ls q ?h] by (auto simp: A high_command)
    have R: "run_handlers ?f (evq_high q' @ evq_low q') (r_user (s\<lparr>r_user := a\<rparr>))
      = run_bind (serve_all e ?hs (low_requests ?ls) c) (\<lambda>c. Done (a\<lparr>p_core := c\<rparr>))"
      using run_tick [OF _ _ A(8) slots, of ?hs e q] by (simp add: A)
    have "outcome (run_bind (serve_all e ?hs (low_requests ?ls) c) (\<lambda>c. Done (a\<lparr>p_core := c\<rparr>)))
      (cfl_cycle (fw_image ?f) ch [0..<6] q' (s\<lparr>r_user := a\<rparr>))
      (\<lambda>u (stop, q', t). \<not> stop \<and> evq_inv q' \<and> evq_caps q' 8 64 \<and> evq_high q' = [] \<and> evq_low q' = [] \<and> r_user t = u
         \<and> (\<exists>S'. idle_sys (fw_image ?f) S' t \<and> counts S' = aged ch (counts S)))"
      unfolding R [symmetric]
      by (rule cycle_runs_commands [OF A(4,5) _ id app_quiet cmds])
        (use room in \<open>simp_all add: A second_of_def\<close>)
    then show "outcome (serve_all e ?hs (low_requests ?ls) c)
      (case x of (changed, q, a) \<Rightarrow> cfl_cycle (fw_image ?f) changed [0..<length fw_kb_table] q (s\<lparr>r_user := a\<rparr>)) (tick_done S (second_of e c0))"
      unfolding xa prod.case kbs
      by (cases "serve_all e ?hs (low_requests ?ls) c")
        (use A(1,3) in \<open>auto simp: outcome_def tick_done_def app_idle_def head_ok_def idle_sys_user [of "app_user e" _ _ "\<lambda>k v u. Done u"]\<close>)
  qed
qed

text \<open>
  C12. A tick of the application core serves the commands it received: those it answers itself first, then every command of the
  monitor in the order of arrival, then every command of the application, each exactly once and with its own request, as long
  as at most seven and at most four of them arrive together; the engine is idle again afterwards, ready for the next tick.
\<close>

theorem tick_serves_commands:
  fixes s :: "app rt"
  defines "c0 \<equiv> p_core (r_user s)"
  assumes "app_idle S q s"
    "length (filter is_high (received e c0)) \<le> 7" "length (filter is_low (received e c0)) \<le> 4"
  shows "outcome (run_bind (before_tick e c0)
      (serve_all e (filter is_high (received e c0)) (map (\<lambda>k. (k, app_req_of k)) (filter is_low (received e c0)))))
    (app_tick e fw_reg q s) (tick_done S (second_of e c0))"
  using tick_outcome [OF assms(2), of e] assms(3,4) by (simp add: c0_def low_requests_own)

text \<open>
  The fifth application command of a tick overwrites the request of the first: the handler of the first command runs with the
  request of the fifth, so the first requester gets no answer and the fifth is served twice.
\<close>

theorem fifth_command_overwrites:
  fixes s :: "app rt"
  defines "c0 \<equiv> p_core (r_user s)"
  assumes "app_idle S q s"
    "length (filter is_high (received e c0)) \<le> 7" "filter is_low (received e c0) = [k1, k2, k3, k4, k5]"
  shows "outcome (run_bind (before_tick e c0) (serve_all e (filter is_high (received e c0))
      [(k1, app_req_of k5), (k2, app_req_of k2), (k3, app_req_of k3), (k4, app_req_of k4), (k5, app_req_of k5)]))
    (app_tick e fw_reg q s) (tick_done S (second_of e c0))"
proof -
  have "low_requests [k1, k2, k3, k4, k5]
    = [(k1, app_req_of k5), (k2, app_req_of k2), (k3, app_req_of k3), (k4, app_req_of k4), (k5, app_req_of k5)]"
    by (simp add: low_requests_def last_at_def upt_rec)
  then show ?thesis using tick_outcome [OF assms(2), of e] assms(3,4) by (simp add: c0_def)
qed

section \<open>A burst\<close>

lemma drain_panics:
  assumes "evq_inv q" "evq_room CFL_EVENT_PRIORITY_HIGH q < length (filter is_high ks)" "head_ok a" "inline_all e ks (p_core a) = Done c"
  shows "drain_down e fw_reg ks q a = Exception"
  using assms
proof (induction ks arbitrary: q a)
  case (Cons k ks)
  consider (high) "is_high k" | (low) "is_low k" "\<not> is_high k" | (other) "\<not> is_high k" "\<not> is_low k" by blast
  then show ?case
  proof cases
    case high
    show ?thesis
    proof (cases "evq_room CFL_EVENT_PRIORITY_HIGH q = 0")
      case True
      have ty: "CFL_EVENT_TYPE_INT \<le> CFL_EVENT_TYPE_NULL" by (simp add: CFL_EVENT_TYPE_INT_def CFL_EVENT_TYPE_NULL_def)
      have "cfl_send_event CFL_EVENT_PRIORITY_HIGH n CFL_EVENT_TYPE_INT False i v q = Exception" for n i v
        using send_event_spec [OF Cons.prems(1), of CFL_EVENT_PRIORITY_HIGH CFL_EVENT_TYPE_INT n False i v] True ty
        by (auto split: run.splits)
      then show ?thesis using high by (auto simp: is_high_def inject_cmd_def send_int_def cfl_send_integer_event_def)
    next
      case False
      obtain q' where q': "inject_cmd e fw_reg k q a = Done (q', a)" "evq_inv q'"
        "evq_room CFL_EVENT_PRIORITY_HIGH q' = evq_room CFL_EVENT_PRIORITY_HIGH q - 1"
        by (rule inject_high [OF high Cons.prems(1) False, of e a])
      have "drain_down e fw_reg ks q' a = Exception"
        by (rule Cons.IH [OF q'(2) _ Cons.prems(3)]) (use Cons.prems(2,4) high q'(3) False in \<open>simp_all add: inline_def\<close>)
      then show ?thesis by (simp add: q'(1))
    qed
  next
    case low
    show ?thesis
    proof (cases "evq_room CFL_EVENT_PRIORITY_LOW q = 0")
      case True
      have ty: "CFL_EVENT_TYPE_PTR \<le> CFL_EVENT_TYPE_NULL" by (simp add: CFL_EVENT_TYPE_PTR_def CFL_EVENT_TYPE_NULL_def)
      have "cfl_send_event CFL_EVENT_PRIORITY_LOW n CFL_EVENT_TYPE_PTR False i v q = Exception" for n i v
        using send_event_spec [OF Cons.prems(1), of CFL_EVENT_PRIORITY_LOW CFL_EVENT_TYPE_PTR n False i v] True ty
        by (auto split: run.splits)
      then show ?thesis using low(1) by (auto simp: is_low_def inject_cmd_def send_slot_def cfl_send_data_event_def app_cmd_defs)
    next
      case False
      obtain q' a' where q': "inject_cmd e fw_reg k q a = Done (q', a')" "evq_inv q'"
        "evq_room CFL_EVENT_PRIORITY_HIGH q' = evq_room CFL_EVENT_PRIORITY_HIGH q" "p_core a' = p_core a"
        "p_slots a' = (p_slots a)[unat (p_head a) := app_req_of k]" "unat (p_head a') = Suc (unat (p_head a)) mod 4"
        by (rule inject_low [OF low(1) Cons.prems(1) False Cons.prems(3), of e])
      have "drain_down e fw_reg ks q' a' = Exception"
        by (rule Cons.IH [OF q'(2)]) (use Cons.prems(2-4) low q'(3-6) in \<open>simp_all add: inline_def head_ok_def\<close>)
      then show ?thesis by (simp add: q'(1))
    qed
  next
    case other
    obtain c1 where c1: "inline e k (p_core a) = Done c1" "inline_all e ks c1 = Done c" using Cons.prems(4) by (auto simp: run_bind_Done_iff)
    have "drain_down e fw_reg ks q (a\<lparr>p_core := c1\<rparr>) = Exception"
      by (rule Cons.IH) (use Cons.prems(1-3) other c1(2) in \<open>simp_all add: head_ok_def\<close>)
    then show ?thesis by (simp add: inject_inline [OF other] c1(1))
  qed
qed simp

text \<open>
  C14. Eight commands of the monitor in one tick bring the unit down: whatever else arrives with them, the tick of an idle core ends in
  the exception of the event queue, whose high-priority ring holds seven events, and the exception handler resets the board.
\<close>

theorem priority_burst_panics:
  fixes s :: "app rt"
  defines "c0 \<equiv> p_core (r_user s)"
  assumes "app_idle S q s" "8 \<le> length (filter is_high (received e c0))" "before_tick e c0 = Done c"
  shows "app_tick e fw_reg q s = Exception"
proof -
  let ?a = "(r_user s)\<lparr>p_core := upd_m (\<lambda>m. m\<lparr>b_down_q := []\<rparr>) (beat e (late e c0))\<rparr>"
  have rec: "received e (late e c0) = received e c0" by (simp add: received_def late_def split: option.splits)
  obtain c' where "inline_all e (received e c0) (p_core ?a) = Done c'" using assms(4) by (auto simp: before_tick_def run_bind_Done_iff)
  then have "drain_down e fw_reg (received e c0) q ?a = Exception"
    by (intro drain_panics [of _ _ ?a e c']) (use assms(2,3) idle_room [OF assms(2)] in \<open>simp_all add: app_idle_def head_ok_def\<close>)
  then show ?thesis
    by (simp add: app_tick_def cfl_timer_wait_def cfl_embed_pre_tick_def late_def [symmetric] c0_def [symmetric] rec Let_def)
qed

section \<open>Any number of ticks\<close>

text \<open>The loop of \<open>cfl_runtime_run\<close> over the ticks of a list.\<close>

primrec app_ticks :: "tick_env list \<Rightarrow> kb_reg \<Rightarrow> event_queue \<Rightarrow> app rt \<Rightarrow> (event_queue \<times> app rt) run" where
  "app_ticks [] g q s = Done (q, s)"
| "app_ticks (e # es) g q s = run_bind (app_tick e g q s) (\<lambda>(stop, q, s). if stop then Done (q, s) else app_ticks es g q s)"

definition down :: "core \<Rightarrow> appcore_cmd list" where "down c = b_down_q (k_m c)"

lemma down_upd: "(\<And>m. b_down_q (f m) = b_down_q m) \<Longrightarrow> down (upd_m f c) = down c"
  by (simp add: down_def upd_m_def)

lemma down_same [simp]: "down (up_send r c) = down c" "down (mon_push op b c) = down c" "down (kb0_push_ping_reply e n c) = down c"
  "down (kb0_emit_reports e n c) = down c" "down (kb0_on_snapshot e n c) = down c" "down (kb1_on_adc n c) = down c"
  "down (kbapp_on_echo a c) = down c" "down (kbapp_on_il_clear a c) = down c" "down (kbapp_on_echo_to a c) = down c"
  "down (stream_command e k c) = down c" "down (stream_pace e c) = down c" "down (bench_publish c) = down c" "down (adc_publish_10hz c) = down c"
  "down (next_second e c) = down c"
proof -
  show u: "down (up_send r c) = down c" for r c unfolding up_send_def by (rule down_upd) simp
  show m: "down (mon_push op b c) = down c" for op b c by (simp add: mon_push_def u)
  have p: "down (c\<lparr>k_deadline_miss := x, k_max_overrun := y\<rparr>) = down c" for c x y by (simp add: down_def)
  show e: "down (kb0_emit_reports e n c) = down c" for n c by (simp add: kb0_emit_reports_def Let_def m p)
  show "down (kb0_push_ping_reply e n c) = down c" by (simp add: kb0_push_ping_reply_def u)
  show "down (kb0_on_snapshot e n c) = down c" by (simp add: kb0_on_snapshot_def e m)
  show "down (kb1_on_adc n c) = down c" by (simp add: kb1_on_adc_def Let_def u)
  show "down (kbapp_on_echo a c) = down c" by (simp add: kbapp_on_echo_def kbapp_reply_def Let_def u down_upd)
  show "down (kbapp_on_il_clear a c) = down c" by (simp add: kbapp_on_il_clear_def kbapp_reply_def u down_upd)
  show "down (kbapp_on_echo_to a c) = down c" unfolding kbapp_on_echo_to_def by (rule down_upd) (simp add: echo_to_cycle_def Let_def)
  show "down (stream_command e k c) = down c" by (simp add: stream_command_def Let_def u) (simp add: down_def)
  have "down (c\<lparr>k_stream_next := x\<rparr>) = down c" "down (c\<lparr>k_stream_batch := y\<rparr>) = down c" for c x y by (simp_all add: down_def)
  then show "down (stream_pace e c) = down c" by (simp add: stream_pace_def e)
  show "down (bench_publish c) = down c" unfolding bench_publish_def by (rule down_upd) (simp add: Let_def)
  show "down (adc_publish_10hz c) = down c" by (simp add: adc_publish_10hz_def down_def Let_def)
  show "down (next_second e c) = down c" by (simp add: next_second_def down_def)
qed

text \<open>A step of the core is no exception and leaves the command queue alone.\<close>

definition steady :: "(core \<Rightarrow> core run) \<Rightarrow> bool" where
  "steady f \<longleftrightarrow> (\<forall>c. f c \<noteq> Exception \<and> (\<forall>c'. f c = Done c' \<longrightarrow> down c' = down c))"

lemma steadyI: "(\<And>c. f c \<noteq> Exception) \<Longrightarrow> (\<And>c c'. f c = Done c' \<Longrightarrow> down c' = down c) \<Longrightarrow> steady f"
  by (simp add: steady_def)

lemma steady_bind: "steady f \<Longrightarrow> steady g \<Longrightarrow> steady (\<lambda>c. run_bind (f c) g)"
  by (auto simp: steady_def run_bind_Done_iff) (metis run.exhaust run_bind.simps)

lemma steady_steps: "steady (inline_all e ks)" "steady (serve_highs e ks)" "steady (serve_lows e krs)"
proof -
  have D: "steady (dispatch_reply e op args sink)" for e op args sink
    by (rule steadyI) (auto simp: dispatch_reply_def down_upd split: option.splits)
  have I: "steady (inline e k)" for k
  proof (rule steadyI)
    fix c show "inline e k c \<noteq> Exception" using D by (simp add: inline_def steady_def)
  next
    fix c c' assume "inline e k c = Done c'"
    then show "down c' = down c" using D by (auto simp: inline_def steady_def split: if_splits)
  qed
  have H: "steady (serve_high e k)" for k by (rule steadyI) (auto simp: serve_high_def split: if_splits)
  have O: "steady (kbapp_on_op e r)" for r
    using D by (auto simp: steady_def kbapp_on_op_def down_upd Let_def)
  have L: "steady (serve_low e cmd r)" for cmd r using O by (auto simp: steady_def serve_low_def)
  have N: "steady Done" by (simp add: steady_def)
  have ext: "inline_all e [] = Done" "inline_all e (k # ks) = (\<lambda>c. run_bind (inline e k c) (inline_all e ks))"
    "serve_highs e [] = Done" "serve_highs e (k # ks) = (\<lambda>c. run_bind (serve_high e k c) (serve_highs e ks))"
    "serve_lows e [] = Done" "serve_lows e (kr # krs) = (\<lambda>c. run_bind (serve_low e (ac_cmd (fst kr)) (snd kr) c) (serve_lows e krs))"
    for k ks kr krs by (simp_all add: fun_eq_iff)
  show "steady (inline_all e ks)" by (induction ks) (simp_all only: ext N steady_bind [OF I])
  show "steady (serve_highs e ks)" by (induction ks) (simp_all only: ext N steady_bind [OF H])
  show "steady (serve_lows e krs)" by (induction krs) (simp_all only: ext N steady_bind [OF L])
qed

lemma tick_steady:
  fixes e c hs krs
  defines "r \<equiv> run_bind (before_tick e c) (serve_all e hs krs)"
  shows "r \<noteq> Exception" "r = Done c' \<Longrightarrow> down c' = []"
proof -
  let ?c = "upd_m (\<lambda>m. m\<lparr>b_down_q := []\<rparr>) (beat e (late e c))"
  have d: "down ?c = []" by (simp add: down_def upd_m_def)
  have S: "steady (serve_all e hs krs)" unfolding serve_all_def [abs_def] by (rule steady_bind [OF steady_steps(2,3)])
  have B: "before_tick e c \<noteq> Exception" "\<And>x. before_tick e c = Done x \<Longrightarrow> down x = []"
    using steady_steps(1) [of e "received e c"] d
    by (cases "inline_all e (received e c) ?c"; auto simp: before_tick_def steady_def)+
  show "r \<noteq> Exception" using B(1) S by (cases "before_tick e c") (simp_all add: r_def steady_def)
  show "r = Done c' \<Longrightarrow> down c' = []" using B(2) S by (auto simp: r_def steady_def run_bind_Done_iff)
qed


section \<open>Concrete ticks\<close>

definition demo_core :: core where
  "demo_core = \<lparr>k_m = demo_master, k_stream_on = False, k_stream_period = 1000, k_stream_next = 0, k_stream_batch = 0, k_deadline_miss = 0,
     k_max_overrun = 0, k_last_second = 0, k_bb_mean = replicate 3 None, k_bb_max = replicate 3 None, k_bb_rms = replicate 3 None, k_hb = 0, k_hb_us = 0\<rparr>"

definition slot0 :: app_req where "slot0 = \<lparr>aq_req_id = 0, aq_addr = 0, aq_route = 0, aq_bus_src = 0, aq_bytes = []\<rparr>"

definition demo_app :: app where "demo_app = \<lparr>p_core = demo_core, p_slots = replicate 4 slot0, p_head = 3\<rparr>"

definition mon0 :: mon_env where
  "mon0 = \<lparr>me_boot_count = 1, me_last_cause = 0, me_panic_code = 0, me_stack = [0, 0, 0, 0], me_free_heap = 0, me_min_heap = 0, me_total_heap = 0,
     me_perm_used = 0, me_perm_total = 0, me_heap_used = 0, me_heap_free = 0, me_hi_depth = 0, me_lo_depth = 0, me_kbs = []\<rparr>"

definition demo_tick :: "appcore_cmd list \<Rightarrow> tick_env" where
  "demo_tick ks = \<lparr>te_dev = dev0, te_mon = mon0, te_ms = 5000, te_us = 0, te_sec = 0, te_late = None, te_arriving = ks\<rparr>"

definition host_cmd :: "u16 \<Rightarrow> u16 \<Rightarrow> appcore_cmd" where
  "host_cmd cmd req = \<lparr>ac_req_id = req, ac_cmd = cmd, ac_route = ROUTE_USB, ac_bus_src = 0, ac_args = [0x41]\<rparr>"

definition ups :: "core \<Rightarrow> appcore_rep list" where "ups c = nd_up_q (b_nd (k_m c))"

lemma ups_steps: "ups (up_send r c) = x_queue_send UP_Q_DEPTH r (ups c)" "ups (bench_publish c) = ups c" "ups (adc_publish_10hz c) = ups c"
  "ups (beat e c) = ups c" "ups (late e c) = ups c" "ups (next_second e c) = ups c" "ups (upd_m (\<lambda>m. m\<lparr>b_down_q := []\<rparr>) c) = ups c"
  by (simp_all add: ups_def up_send_def upd_m_def bench_publish_def adc_publish_10hz_def beat_def late_def next_second_def Let_def split: option.splits)

lemma demo_booted:
  obtains s where "app_idle [[Fresh 0, Fresh 0], [Fresh 0], [Fresh 0, Fresh 0, Fresh 0, Fresh 0]] evq0 s" "r_user s = demo_app"
proof -
  obtain s where s: "idle_sys (fw_image (\<lambda>k v u. Done u)) [[Fresh 0, Fresh 0], [Fresh 0], [Fresh 0, Fresh 0, Fresh 0, Fresh 0]] s" "r_user s = demo_app"
    by (rule booted)
  have "head_ok demo_app" by (simp add: head_ok_def demo_app_def)
  then show thesis using s evq0(1-3) evq0_caps by (intro that [of s]) (simp_all add: app_idle_def)
qed

lemma demo_before:
  assumes "\<forall>k\<in>set ks. is_high k \<or> is_low k"
  obtains c where "before_tick (demo_tick ks) demo_core = Done c" "ups c = []"
proof -
  let ?c = "upd_m (\<lambda>m. m\<lparr>b_down_q := []\<rparr>) (beat (demo_tick ks) (late (demo_tick ks) demo_core))"
  let ?d = "bench_publish (adc_publish_10hz ?c)"
  have i: "inline_all e ls c = Done c" if "\<forall>k\<in>set ls. is_high k \<or> is_low k" for ls e c
    using that by (induction ls) (simp_all add: inline_def)
  have r: "received (demo_tick ks) demo_core = ks" by (simp add: received_def demo_tick_def demo_core_def demo_master_def)
  have off: "\<not> k_stream_on ?d"
    by (simp add: bench_publish_def adc_publish_10hz_def upd_m_def beat_def late_def demo_core_def demo_tick_def Let_def)
  have "before_tick (demo_tick ks) demo_core = Done (next_second (demo_tick ks) ?d)"
    by (simp add: before_tick_def r i [OF assms] stream_pace_def off)
  moreover have "ups (next_second (demo_tick ks) ?d) = []" by (simp add: ups_steps) (simp add: ups_def demo_core_def demo_master_def nd_bench_def)
  ultimately show thesis by (rule that)
qed

definition echo_reply :: "u16 \<Rightarrow> appcore_rep" where
  "echo_reply req = \<lparr>ar_dest = BUS_ADDR_APPCORE, ar_opcode = Bus_Node.OP_SHELL_REPLY, ar_payload = wr_u16 req @ [SHELL_OK, KBAPP_VER, 0x41]\<rparr>"

lemma echo_ups: "aq_bytes r = [0x41] \<Longrightarrow> aq_route r = ROUTE_USB \<Longrightarrow> ups (kbapp_on_echo r c) = x_queue_send UP_Q_DEPTH (echo_reply (aq_req_id r)) (ups c)"
  by (simp add: kbapp_on_echo_def kbapp_reply_def ups_steps ROUTE_USB_def ROUTE_BUS_def echo_reply_def APPCORE_PAY_MAX_def wr_u16_def Let_def)

lemma host_echo: "is_low (host_cmd CMD_APP_ECHO r)" "\<not> is_high (host_cmd CMD_APP_ECHO r)" "is_high (host_cmd CMD_MON_PING r)" "\<not> is_low (host_cmd CMD_MON_PING r)"
  "aq_bytes (app_req_of (host_cmd CMD_APP_ECHO r)) = [0x41]" "aq_route (app_req_of (host_cmd CMD_APP_ECHO r)) = ROUTE_USB"
  "aq_req_id (app_req_of (host_cmd CMD_APP_ECHO r)) = r" "ac_cmd (host_cmd c r) = c" "ac_req_id (host_cmd c r) = r"
  by (simp_all add: is_low_def is_high_def host_cmd_def app_cmd_defs app_req_of_def APPCORE_ARGS_MAX_def)

lemma demo_received: "received (demo_tick ks) demo_core = ks"
  by (simp add: received_def demo_tick_def demo_core_def demo_master_def)

text \<open>An echo and a ping arrive: the ping is answered first.\<close>

theorem tick_serves_commands_witness:
  "\<exists>s q' t. app_tick (demo_tick [host_cmd CMD_APP_ECHO 1, host_cmd CMD_MON_PING 2]) fw_reg evq0 s = Done (False, q', t)
    \<and> ups (p_core (r_user s)) = [] \<and> map ar_payload (ups (p_core (r_user t)))
      = [[2, 0, SHELL_OK, 0x88, 0x13, 0, 0, 1, 0, KB0_VER], [1, 0, SHELL_OK, KBAPP_VER, 0x41]]"
proof -
  let ?ks = "[host_cmd CMD_APP_ECHO 1, host_cmd CMD_MON_PING 2]"
  let ?e = "demo_tick ?ks"
  obtain s where s: "app_idle [[Fresh 0, Fresh 0], [Fresh 0], [Fresh 0, Fresh 0, Fresh 0, Fresh 0]] evq0 s" "r_user s = demo_app"
    by (rule demo_booted)
  have c0: "p_core (r_user s) = demo_core" by (simp add: s(2) demo_app_def)
  obtain c where c: "before_tick ?e demo_core = Done c" "ups c = []" by (rule demo_before [of ?ks]) (simp_all add: host_echo)
  let ?c = "kbapp_on_echo (app_req_of (host_cmd CMD_APP_ECHO 1)) (kb0_push_ping_reply ?e 2 c)"
  have f: "filter is_high ?ks = [host_cmd CMD_MON_PING 2]" "filter is_low ?ks = [host_cmd CMD_APP_ECHO 1]" by (simp_all add: host_echo)
  have v: "run_bind (before_tick ?e demo_core) (serve_all ?e [host_cmd CMD_MON_PING 2]
      (map (\<lambda>k. (k, app_req_of k)) [host_cmd CMD_APP_ECHO 1])) = Done ?c"
    unfolding c(1) by (simp add: serve_all_def serve_high_def serve_low_def host_echo)
  have "outcome (run_bind (before_tick ?e demo_core) (serve_all ?e [host_cmd CMD_MON_PING 2] (map (\<lambda>k. (k, app_req_of k)) [host_cmd CMD_APP_ECHO 1])))
      (app_tick ?e fw_reg evq0 s) (tick_done [[Fresh 0, Fresh 0], [Fresh 0], [Fresh 0, Fresh 0, Fresh 0, Fresh 0]] (second_of ?e demo_core))"
    using tick_serves_commands [OF s(1), of ?e] unfolding c0 demo_received f by simp
  then obtain q' t where t: "app_tick ?e fw_reg evq0 s = Done (False, q', t)" "p_core (r_user t) = ?c"
    unfolding v by (auto simp: outcome_def tick_done_def)
  have "map ar_payload (ups ?c) = [[2, 0, SHELL_OK, 0x88, 0x13, 0, 0, 1, 0, KB0_VER], [1, 0, SHELL_OK, KBAPP_VER, 0x41]]"
    by (simp add: echo_ups host_echo kb0_push_ping_reply_def ups_steps c(2) x_queue_send_def UP_Q_DEPTH_def echo_reply_def wr_u16_def wr_u32_def
        demo_tick_def mon0_def)
  moreover have "ups demo_core = []" by (simp add: ups_def demo_core_def demo_master_def nd_bench_def)
  ultimately show ?thesis using t c0 by metis
qed

theorem fifth_command_overwrites_witness:
  "\<exists>s q' t. app_tick (demo_tick (map (host_cmd CMD_APP_ECHO) [1, 2, 3, 4, 5])) fw_reg evq0 s = Done (False, q', t)
    \<and> ups (p_core (r_user t)) = map echo_reply [5, 2, 3, 4, 5]"
proof -
  let ?ks = "map (host_cmd CMD_APP_ECHO) [1, 2, 3, 4, 5]"
  let ?e = "demo_tick ?ks"
  obtain s where s: "app_idle [[Fresh 0, Fresh 0], [Fresh 0], [Fresh 0, Fresh 0, Fresh 0, Fresh 0]] evq0 s" "r_user s = demo_app"
    by (rule demo_booted)
  have c0: "p_core (r_user s) = demo_core" by (simp add: s(2) demo_app_def)
  obtain c where c: "before_tick ?e demo_core = Done c" "ups c = []" by (rule demo_before [of ?ks]) (simp_all add: host_echo)
  let ?q = "\<lambda>r. app_req_of (host_cmd CMD_APP_ECHO r)"
  let ?c = "kbapp_on_echo (?q 5) (kbapp_on_echo (?q 4) (kbapp_on_echo (?q 3) (kbapp_on_echo (?q 2) (kbapp_on_echo (?q 5) c))))"
  have f: "filter is_high ?ks = []" "filter is_low ?ks = ?ks" by (simp_all add: host_echo)
  let ?k = "host_cmd CMD_APP_ECHO"
  let ?l = "[(?k 1, ?q 5), (?k 2, ?q 2), (?k 3, ?q 3), (?k 4, ?q 4), (?k 5, ?q 5)]"
  have v: "run_bind (before_tick ?e demo_core) (serve_all ?e [] ?l) = Done ?c"
    unfolding c(1) by (simp add: serve_all_def serve_low_def host_echo app_cmd_defs)
  have "outcome (run_bind (before_tick ?e demo_core) (serve_all ?e [] ?l))
      (app_tick ?e fw_reg evq0 s) (tick_done [[Fresh 0, Fresh 0], [Fresh 0], [Fresh 0, Fresh 0, Fresh 0, Fresh 0]] (second_of ?e demo_core))"
    using fifth_command_overwrites [OF s(1), of ?e "?k 1" "?k 2" "?k 3" "?k 4" "?k 5"] unfolding c0 demo_received f by simp
  then obtain q' t where t: "app_tick ?e fw_reg evq0 s = Done (False, q', t)" "p_core (r_user t) = ?c"
    unfolding v by (auto simp: outcome_def tick_done_def)
  have "ups ?c = map echo_reply [5, 2, 3, 4, 5]"
    by (simp add: echo_ups host_echo c(2) x_queue_send_def UP_Q_DEPTH_def)
  then show ?thesis using t by metis
qed

theorem priority_burst_panics_witness:
  "\<exists>s. app_tick (demo_tick (replicate 8 (host_cmd CMD_MON_PING 7))) fw_reg evq0 s = Exception \<and> evq_room CFL_EVENT_PRIORITY_HIGH evq0 = 7"
proof -
  let ?ks = "replicate 8 (host_cmd CMD_MON_PING 7)"
  obtain s where s: "app_idle [[Fresh 0, Fresh 0], [Fresh 0], [Fresh 0, Fresh 0, Fresh 0, Fresh 0]] evq0 s" "r_user s = demo_app"
    by (rule demo_booted)
  have c0: "p_core (r_user s) = demo_core" by (simp add: s(2) demo_app_def)
  obtain c where c: "before_tick (demo_tick ?ks) demo_core = Done c" by (rule demo_before [of ?ks]) (simp_all add: host_echo)
  have "filter is_high ?ks = ?ks" by (rule filter_True) (simp add: host_echo)
  then have "app_tick (demo_tick ?ks) fw_reg evq0 s = Exception"
    by (intro priority_burst_panics [OF s(1)]) (simp_all add: c0 demo_received c)
  then show ?thesis using evq0(4) by blast
qed


end
