(* ===== verification/Chassis.thy ===== *)
theory Chassis
  imports Boot_Cfg
begin

text \<open>
  The chassis of \<^verbatim>\<open>src/app/bus_controller/main.c\<close>: the crash record that survives a reset, the decision \<open>main\<close> takes
  from the identity file (which role, which address, whether the unit is refused the bus), and the watchdog task that
  keeps the hardware watchdog from resetting the board only while every monitored thread beats.
\<close>

unbundle bit_operations_syntax

section \<open>The crash record\<close>

definition RST_POWER :: u32 where "RST_POWER = 0"
definition RST_WDT :: u32 where "RST_WDT = 1"
definition RST_PANIC :: u32 where "RST_PANIC = 2"
definition RST_STACK :: u32 where "RST_STACK = 3"
definition RST_MALLOC :: u32 where "RST_MALLOC = 4"
definition CRASH_MAGIC :: u32 where "CRASH_MAGIC = 0x5B0BC0DE"

record crash_slot =
  cs_magic :: u32
  cs_boot_count :: u32
  cs_last_cause :: u32
  cs_panic_code :: u32

text \<open>The start of \<open>main\<close>; \<open>wdt\<close> is \<open>watchdog_enable_caused_reboot\<close>.\<close>

definition boot_crash :: "bool \<Rightarrow> crash_slot \<Rightarrow> crash_slot" where
  "boot_crash wdt c =
     (let c = (if cs_magic c \<noteq> CRASH_MAGIC then \<lparr>cs_magic = CRASH_MAGIC, cs_boot_count = 0, cs_last_cause = RST_POWER, cs_panic_code = 0\<rparr>
               else if wdt then c\<lparr>cs_last_cause := RST_WDT\<rparr> else c)
      in c\<lparr>cs_boot_count := cs_boot_count c + 1\<rparr>)"

text \<open>What a panic leaves for the next boot; the reset itself is \<open>watchdog_reboot\<close>.\<close>

definition chassis_panic :: "u32 \<Rightarrow> u32 \<Rightarrow> crash_slot \<Rightarrow> crash_slot" where
  "chassis_panic cause code c = c\<lparr>cs_last_cause := cause, cs_panic_code := code\<rparr>"

definition chassis_assert :: "u32 \<Rightarrow> crash_slot \<Rightarrow> crash_slot" where "chassis_assert line = chassis_panic RST_PANIC line"

definition malloc_failed :: "crash_slot \<Rightarrow> crash_slot" where "malloc_failed = chassis_panic RST_MALLOC 0"

definition stack_overflow :: "crash_slot \<Rightarrow> crash_slot" where "stack_overflow = chassis_panic RST_STACK 0"

section \<open>The role of the unit\<close>

text \<open>\<open>Run_node\<close> is \<open>node_role_run\<close>, which does not return; \<open>Run_controller\<close> is the rest of \<open>main\<close> with the quarantine flag.\<close>

datatype unit_role = Run_node u8 u32 | Run_controller bool u8 u32

definition BUS_DEFAULT_BAUD :: u32 where "BUS_DEFAULT_BAUD = 115200"

definition main_role :: "int \<Rightarrow> identity \<Rightarrow> unit_role" where
  "main_role rc ident =
     (let refused = (rc \<noteq> IDENT_OK \<and> rc \<noteq> IDENT_ERR_MISSING);
          self = (if rc = IDENT_OK then id_addr ident else BUS_ADDR_MASTER);
          baud = (if rc = IDENT_OK \<and> id_baud ident \<noteq> 0 then id_baud ident else BUS_DEFAULT_BAUD)
      in if rc = IDENT_OK \<and> \<not> variant_is_master (id_variant ident) then Run_node self baud else Run_controller refused self baud)"

section \<open>The watchdog\<close>

definition WD_PERIOD_MS :: nat where "WD_PERIOD_MS = 100"
definition WD_HW_TIMEOUT_MS :: nat where "WD_HW_TIMEOUT_MS = 4000"
definition HB_STALE_US :: u32 where "HB_STALE_US = 500000"

definition all_alive :: "u32 \<Rightarrow> u32 list \<Rightarrow> bool" where
  "all_alive now hbs \<longleftrightarrow> list_all (\<lambda>hb. \<not> now - hb > HB_STALE_US) hbs"

text \<open>
  A run of the watchdog task over the clock and the heartbeats it reads in every period, with the time the hardware watchdog has left:
  an update restarts it, and when it ends within the period the board is reset (\<open>None\<close>).
\<close>

fun watchdog_task :: "(u32 \<times> u32 list) list \<Rightarrow> nat \<Rightarrow> nat option" where
  "watchdog_task [] left = Some left"
| "watchdog_task ((now, hbs) # rest) left =
     (let left = (if all_alive now hbs then WD_HW_TIMEOUT_MS else left)
      in if left \<le> WD_PERIOD_MS then None else watchdog_task rest (left - WD_PERIOD_MS))"

lemma watchdog_append: "watchdog_task (xs @ ys) left = (case watchdog_task xs left of None \<Rightarrow> None | Some l \<Rightarrow> watchdog_task ys l)"
  by (induction xs left rule: watchdog_task.induct) (simp_all add: Let_def)

lemma watchdog_left: "watchdog_task xs left = Some l \<Longrightarrow> left \<le> WD_HW_TIMEOUT_MS \<Longrightarrow> l \<le> WD_HW_TIMEOUT_MS"
  by (induction xs left rule: watchdog_task.induct) (auto simp: Let_def WD_HW_TIMEOUT_MS_def split: if_splits)

lemma watchdog_starves:
  assumes "\<forall>(now, hbs)\<in>set xs. \<not> all_alive now hbs" "0 < length xs" "left \<le> WD_PERIOD_MS * length xs"
  shows "watchdog_task xs left = None"
  using assms
proof (induction xs left rule: watchdog_task.induct)
  case (2 now hbs rest left)
  then show ?case by (cases rest) (auto simp: Let_def)
qed simp

lemma starves_from:
  assumes "\<And>k. a \<le> k \<Longrightarrow> k < b \<Longrightarrow> \<not> all_alive (fst (f k)) (snd (f k))" "a < b" "left \<le> WD_PERIOD_MS * (b - a)"
  shows "watchdog_task (map f [a..<b]) left = None"
  by (rule watchdog_starves) (use assms in \<open>auto simp: case_prod_beta\<close>)

lemma stale_beat:
  assumes "i < length hbs" "now - hbs ! i > HB_STALE_US"
  shows "\<not> all_alive now hbs"
  using assms by (auto simp: all_alive_def list_all_length)

lemma late_by:
  assumes "k \<le> 100" "d \<le> 100000" "6 \<le> k"
  shows "(t + word_of_nat d + word_of_nat (100000 * k) :: u32) - t > HB_STALE_US"
proof -
  have "(t + word_of_nat d + word_of_nat (100000 * k) :: u32) - t = word_of_nat (d + 100000 * k)" by (simp add: algebra_simps)
  moreover have "unat (word_of_nat (d + 100000 * k) :: u32) = d + 100000 * k"
    using assms by (simp only: unat_of_nat) simp
  then have "500000 < (word_of_nat (d + 100000 * k) :: u32)" using assms by (simp only: word_less_nat_alt unat_numeral) simp
  ultimately show ?thesis by (simp add: HB_STALE_US_def)
qed

lemma watchdog_spares_live:
  assumes "\<forall>x\<in>set xs. all_alive (fst x) (snd x)" "WD_PERIOD_MS < left"
  shows "watchdog_task xs left \<noteq> None"
  using assms
proof (induction xs left rule: watchdog_task.induct)
  case (2 now hbs rest left)
  then show ?case by (simp add: WD_PERIOD_MS_def WD_HW_TIMEOUT_MS_def)
qed simp

text \<open>
  C15. A stalled thread brings the board down: when one monitored thread stops beating, whatever the others do, the hardware watchdog
  resets the board within forty-six periods (4.6 s) of the watchdog task, from any time it has left.
\<close>

theorem watchdog_resets_stalled:
  assumes "left \<le> WD_HW_TIMEOUT_MS" "d \<le> 100000" "\<And>k. k < 46 \<Longrightarrow> i < length (beats k) \<and> beats k ! i = t"
  shows "watchdog_task (map (\<lambda>k. (t + word_of_nat d + word_of_nat (100000 * k), beats k)) [0..<46]) left = None"
proof -
  let ?x = "\<lambda>k. (t + word_of_nat d + word_of_nat (100000 * k) :: u32, beats k)"
  have dead: "\<not> all_alive (fst (?x k)) (snd (?x k))" if "6 \<le> k" "k < 46" for k
    using stale_beat [of i "beats k" "fst (?x k)"] late_by [of k d t] assms(2) assms(3) [OF that(2)] that by simp
  have "watchdog_task (map ?x [6..<46]) l = None" if "l \<le> WD_HW_TIMEOUT_MS" for l
    by (rule starves_from [OF dead]) (use that in \<open>simp_all add: WD_HW_TIMEOUT_MS_def WD_PERIOD_MS_def\<close>)
  moreover have "map ?x [0..<46] = map ?x [0..<6] @ map ?x [6..<46]"
    unfolding map_append [symmetric] using upt_add_eq_append [of 0 6 40] by (simp only: add_0 zero_le) simp
  ultimately show ?thesis
    using watchdog_left [OF _ assms(1), of "map ?x [0..<6]"] by (cases "watchdog_task (map ?x [0..<6]) left") (simp_all only: watchdog_append option.case)
qed

theorem watchdog_resets_stalled_witness:
  "watchdog_task (map (\<lambda>k. (0xFFFFFFF0 + word_of_nat 7 + word_of_nat (100000 * k), [0xFFFFFFF0 + word_of_nat (100000 * k), 0xFFFFFFF0])) [0..<46]) 4000 = None"
  by (rule watchdog_resets_stalled [where i = 1]) (simp_all add: WD_HW_TIMEOUT_MS_def)

end
