(* ===== verification/Spec2Isabelle.thy ===== *)
theory Spec2Isabelle
  imports Bus_Cycle Master_Inv App_Tick Chassis
begin

text \<open>
  A verification library for the slow-bus firmware (\<^verbatim>\<open>src/core\<close>, \<^verbatim>\<open>src/node\<close>,
  \<^verbatim>\<open>src/app/bus_controller\<close>).

  \<^bold>\<open>The program.\<close>  One image runs on every unit.  A commissioned \<^emph>\<open>bus controller\<close> owns an RS-485 line with 9-bit
  words: its bus thread sends commands to the nodes and polls them, its uplink thread speaks a SLIP-framed protocol with a
  host over USB or WiFi, its second core runs an application engine.  A \<^emph>\<open>node\<close> answers on the line when it is granted.
  Every unit also runs a safety interlock: small programs in a text language watch pins, ADC statistics and counters, and
  drive a wired-OR veto line; and a bench block (GPIO, counters, servos, ADC, I2C) operated by commands.

  \<^bold>\<open>Theories.\<close>  Each models the file named in its opening text; definitions keep the names of the C functions and stand
  in the order of the code.

    \<^item> \<open>Prelude\<close>, \<open>Interfaces\<close>: words, lists; the contracts \<open>keyed_table\<close> and \<open>bounded_fifo\<close> as locales, interpreted on
      the roster and on the byte ring.
    \<^item> \<open>Bus_Crc8\<close>, \<open>Bus_Frame\<close>, \<open>Bus_Roster\<close>, \<open>Bus_Sched\<close>, \<open>Bus_Node\<close>, \<open>Bus_Cycle\<close>: the bus core: words, frames and the
      receive assembler, roster, arbiter, the node's responder with its role hook, and a poll composed end to end.
    \<^item> \<open>Il_Types\<close>, \<open>Il_Hal\<close>, \<open>Il_Dsl\<close>, \<open>Interlock\<close>, \<open>Interlock_Tick\<close>, \<open>Interlock_Safe\<close>, \<open>Interlock_Props\<close>, \<open>Interlock_Boot\<close>:
      the interlock: pin ownership, the parser of its language, slots with the record that survives resets, the tick with
      debouncing, latching and drive, the bring-up from flash and the status report.
    \<^item> \<open>Cbor\<close>, \<open>Cfg_File\<close>, \<open>Boot_Cfg\<close>: the configuration store and the readers of identity, roster, pin roles, credentials.
    \<^item> \<open>Slip_Frame\<close>, \<open>Host_Link\<close>: the host frame codec with its byte ring, and the register/operate ladder of the link.
    \<^item> \<open>Hil_Block\<close>, \<open>Adc_Service\<close>, \<open>Node_Cmd\<close>: pin roles, servo frames, counters, ADC windows, the operate commands.
    \<^item> \<open>Bus_Pool\<close>, \<open>Bus_Master\<close>, \<open>Bus_Run\<close>, \<open>Uplink\<close>, \<open>Master_Inv\<close>: the bus controller's \<^verbatim>\<open>main.c\<close>: transmit buffers and
      ping-pong lists, host commands, replies, the cyclic engine and the per-slot machine, the uplink, their invariant.
    \<^item> \<open>Cfl_Queue\<close>, \<open>Cfl_Engine\<close>, \<open>Cfl_Column\<close>, \<open>Cfl_Run\<close>, \<open>Cfl_Boot\<close>: the chain-tree engine of the second core
      (\<^verbatim>\<open>engine/src\<close>) and the image it runs (\<^verbatim>\<open>kb0/incr\<close>): the two-priority event queue, the tree walker with the node
      functions, what one event does to a column, a cycle of the event loop on the image, and the bring-up.
    \<^item> \<open>App_Core\<close>, \<open>App_Tick\<close>: the application core of \<^verbatim>\<open>main.c\<close>: the handlers the columns call, the monitor reports, the
      commands that arrive from the bus core, a whole tick; and the specification that serves every command directly.
    \<^item> \<open>Chassis\<close>: the crash record, the role \<^verbatim>\<open>main\<close> takes from the identity file, the watchdog task.

  \<^bold>\<open>State.\<close>  A C struct is a record, a fixed table a list, a buffer with its fill count a list, an intrusive list a list of
  indices.  Integers keep their width as words, so wrap-around is the code's.  Errors are values: \<open>option\<close> for undefined
  behaviour (a division by zero of the PWM command), \<open>Done\<close>/\<open>Exception\<close>/\<open>Undefined\<close> for the engine, whose exceptions spin
  until the watchdog resets the chip, \<open>Returned\<close>/\<open>Panicked\<close> for the interlock, \<open>Ret\<close>/\<open>Bad_read\<close> for the
  boot files.  Hardware and SDK are arguments: what is read (\<open>env\<close>, \<open>plat\<close>, \<open>dev\<close>, the words heard in a slot, the clock)
  is a parameter, what is written is a recorded list of calls.  A tick of the application core reads the clock once, and
  the commands that arrive while it drains its mailbox are the argument \<open>te_arriving\<close>.  A critical section is one step; between the steps of a
  cycle other producers may run, which \<open>cycle_env\<close> carries as arguments, and \<open>plane_step\<close> and \<open>master_step\<close> interleave the
  threads freely.

  \<^bold>\<open>Bounds and fuel.\<close>  Loops over tables recurse on the table.  The DSL and CBOR loops consume their input or carry the
  code's own count; \<open>isqrt_loop\<close> has a measure; the slot loop recurses on the passes the environment allows, the retry loop
  on the code's counter.  The tree walk carries the code's own \<^verbatim>\<open>max_iterations\<close>; the drain of the event queue recurses on
  the number of queued events, which is enough because no node function of the image sends one.  No definition runs out of fuel before the code would stop.

  \<^bold>\<open>What the lemmas show.\<close>  Codec round trips and the detection of corrupted frames; fairness of the rotation and delivery of
  queued frames; conservation of buffers under any interleaving; delivery of every message in the next cycle; relaying of
  replies and reporting of liveness edges; the way from a silent node to the veto line; that accepted interlock texts are
  well-formed, that a hazard trips, that a trip holds, clears and survives resets; that files are accepted only when valid;
  exact servo frames and ADC statistics; that commands respect the frozen pin roles.  For the second core: the rings refine
  two bounded lists and keep the priority order; the engine boots into the idle system and runs every queued command exactly
  once, on the column that waits for it; a tick serves the commands as the direct specification does, does not panic within
  the capacity of the queue, and does beyond it; a fifth application command of one kind in a tick takes the slot of the first.
  The watchdog resets the board when a monitored thread stalls.

  \<^bold>\<open>Not modelled.\<close>  The PHY and PIO drivers, the WiFi chip and the USB stack (hardware); FreeRTOS itself and
  the creation of its tasks; the pacing wait of the cycle; the engine's heap, arena and permanent allocators and its JSON
  decoder (their requests succeed in the model), the node functions no node of the image uses, the binding of blackboard
  fields by name; \<^verbatim>\<open>src/app/samd21_client\<close>, the predecessor board with its own copy of the interlock, and FatFs in it
  (third-party); the test and bring-up programs under \<^verbatim>\<open>src/app\<close>.
\<close>

text \<open>
  C1. From the wire to the veto line: when a node in the table goes silent for \<open>g_poll_max_misses\<close> cycles in which it is
  polled, the interlock tick that reads the count of dead nodes the last of these cycles published drives the shared veto
  line GP0 low and latches the trip, with the firmware's built-in interlock armed, no clear requested and outside the grace
  window.
\<close>

theorem silent_node_trips_veto:
  assumes "plane_inv N [] (b_plane m)" "\<not> y_dirty (b_cyc m)" "i < length (g_nodes (b_plane m))" "bn_miss (g_nodes (b_plane m) ! i) < 0xFF"
    and "silent i es m" "es \<noteq> []" "unat (g_poll_max_misses (b_poll m)) \<le> length es"
    and "il_reach roles s" "dsl_armed s 0" "inst_of s 0 = gp1_inst\<lparr>n_tf_state := tf\<rparr>" "il_clear_request s = 0" "\<not> il_in_grace e4 s"
    and "e_nodes_dead e4 = g_il_nodes_dead (b_cyc (run_cycles es m))"
  shows "\<exists>s3 s4. ticks [e1, e2, e3] s = Returned () s3 \<and> interlock_tick_all e4 s3 = Returned () s4 \<and>
    sp_latched (slot_of s4 0) \<noteq> 0 \<and> written s3 s4 0 = [Gpio_put 0 False, Gpio_set_dir 0 True]"
proof -
  have "0 < g_il_nodes_dead (b_cyc (run_cycles es m))"
    using silent_dies [OF assms(1-3,5,6)] assms(4,7) by (auto simp: doomed_def)
  then have "e_nodes_dead e4 \<noteq> 0" using assms(13) by auto
  then show ?thesis by (intro gp1_vetoes [OF assms(8-12)]) simp
qed

theorem silent_node_trips_veto_witness:
  "\<exists>s3 s4. ticks [env0 True 0, env0 True 2, env0 True 4] gp1_il_state = Returned () s3 \<and>
    interlock_tick_all ((env0 True 6)\<lparr>e_nodes_dead := g_il_nodes_dead (b_cyc (run_cycles [mute_env] demo_master))\<rparr>) s3 = Returned () s4 \<and>
    sp_latched (slot_of s4 0) \<noteq> 0 \<and> written s3 s4 0 = [Gpio_put 0 False, Gpio_set_dir 0 True]"
proof (rule silent_node_trips_veto [OF demo_nodes(3) _ _ _ _ _ _ gp1_reach gp1_facts(6) _ gp1_facts(3), of 1 "[mute_env]" 0])
  show "inst_of gp1_il_state 0 = gp1_inst\<lparr>n_tf_state := 0\<rparr>" unfolding gp1_facts by (simp add: gp1_inst_def)
  show "\<not> il_in_grace ((env0 True 6)\<lparr>e_nodes_dead := g_il_nodes_dead (b_cyc (run_cycles [mute_env] demo_master))\<rparr>) gp1_il_state"
    by (simp add: il_in_grace_def gp1_facts env0_def)
qed (simp_all add: demo_simps demo_nodes(1) fresh_node_def demo_not_commanded mute_def mute_env_def demo_poll_def)

end
